(* ===== verification/C_Prelude.thy ===== *)
theory C_Prelude
  imports "HOL-Library.Word" "HOL-Library.Signed_Division" "HOL-Library.Sublist"
begin

text \<open>
  Shared vocabulary of the development: the fixed-width integer types of the C code,
  the shape of a fallible operation on a mutable object, big-endian byte strings and
  the few list and word facts that several components use.

  A C function \<open>int f(S *s, T *out)\<close> that returns one on success and zero on failure,
  writes its result through \<open>out\<close> and advances \<open>*s\<close> is a HOL function
  \<open>s \<Rightarrow> t option \<times> s\<close>: \<open>None\<close> is the return value 0, \<open>Some v\<close> is the return value 1
  with \<open>*out = v\<close>, and the second component is \<open>*s\<close> after the call, on success and on
  failure alike.  What a failing call leaves in \<open>*out\<close> is not modelled: the headers
  give it a meaning only after success.
\<close>

unbundle bit_operations_syntax

section \<open>Integer types\<close>

type_synonym u8 = "8 word"
type_synonym u16 = "16 word"
type_synonym u32 = "32 word"
type_synonym u64 = "64 word"

text \<open>\<open>size_t\<close> is 64 bits wide on the arm64 target; sizes are naturals below
  \<open>SIZE_LIMIT\<close>, and additions that may wrap say so.\<close>

abbreviation SIZE_LIMIT :: nat where
  "SIZE_LIMIT \<equiv> 2 ^ 64"

definition sz_add :: "nat \<Rightarrow> nat \<Rightarrow> nat" where
  "sz_add a b = (a + b) mod SIZE_LIMIT"

abbreviation INT_MAX_nat :: nat where
  "INT_MAX_nat \<equiv> 2147483647"

text \<open>The conversion of an \<open>int\<close> to \<open>size_t\<close>.\<close>

definition size_of_int :: "int \<Rightarrow> nat" where
  "size_of_int n = nat (n mod int SIZE_LIMIT)"

lemma size_of_int_small: "0 \<le> n \<Longrightarrow> n < int SIZE_LIMIT \<Longrightarrow> size_of_int n = nat n"
  by (simp add: size_of_int_def)

lemma sz_add_small [simp]: "a + b < SIZE_LIMIT \<Longrightarrow> sz_add a b = a + b"
  by (simp add: sz_add_def)

lemma sz_add_overflow:
  assumes "a < SIZE_LIMIT" "b < SIZE_LIMIT"
  shows "sz_add a b < a \<longleftrightarrow> SIZE_LIMIT \<le> a + b"
proof (cases "a + b < SIZE_LIMIT")
  case True
  then show ?thesis by (simp add: sz_add_def)
next
  case False
  with assms have "(a + b) mod SIZE_LIMIT = a + b - SIZE_LIMIT"
    by (simp add: le_mod_geq)
  with assms False show ?thesis by (simp add: sz_add_def)
qed

section \<open>Fallible operations on a state\<close>

type_synonym ('s, 'a) op = "'s \<Rightarrow> 'a option \<times> 's"

named_theorems op_simps \<open>unfolding of the sequencing combinators\<close>

definition op_ret :: "'a \<Rightarrow> ('s, 'a) op" where
  "op_ret a = (\<lambda>s. (Some a, s))"

definition op_fail :: "('s, 'a) op" where
  "op_fail = (\<lambda>s. (None, s))"

text \<open>\<open>op_bind m f\<close> is \<open>if (!m(s, &a)) return 0; f\<close>: a failing call stops the function and
  leaves the state as the call left it.\<close>

definition op_bind :: "('s, 'a) op \<Rightarrow> ('a \<Rightarrow> ('s, 'b) op) \<Rightarrow> ('s, 'b) op" where
  "op_bind m f = (\<lambda>s. case m s of (None, s') \<Rightarrow> (None, s') | (Some a, s') \<Rightarrow> f a s')"

text \<open>\<open>op_check P\<close> is \<open>if (!P) return 0;\<close>.\<close>

definition op_check :: "bool \<Rightarrow> ('s, unit) op" where
  "op_check b = (\<lambda>s. (if b then Some () else None, s))"

lemma op_ret_apply [simp, op_simps]: "op_ret a s = (Some a, s)"
  by (simp add: op_ret_def)

lemma op_fail_apply [simp, op_simps]: "op_fail s = (None, s)"
  by (simp add: op_fail_def)

lemma op_check_apply [simp, op_simps]: "op_check b s = (if b then Some () else None, s)"
  by (simp add: op_check_def)

lemma op_bind_Some [simp, op_simps]: "m s = (Some a, s') \<Longrightarrow> op_bind m f s = f a s'"
  by (simp add: op_bind_def)

lemma op_bind_None [simp, op_simps]: "m s = (None, s') \<Longrightarrow> op_bind m f s = (None, s')"
  by (simp add: op_bind_def)

lemma op_bind_SomeD:
  "op_bind m f s = (Some b, s'') \<Longrightarrow> \<exists>a s'. m s = (Some a, s') \<and> f a s' = (Some b, s'')"
  by (auto simp: op_bind_def split: prod.splits option.splits)

lemma op_bind_SomeE [elim!]:
  assumes "op_bind m f s = (Some b, s'')"
  obtains a s' where "m s = (Some a, s')" "f a s' = (Some b, s'')"
  using op_bind_SomeD [OF assms] by blast

lemma op_check_SomeD: "op_check b s = (Some x, s') \<Longrightarrow> b \<and> s' = s"
  by (simp split: if_splits)

lemma op_check_true: "b \<Longrightarrow> op_bind (op_check b) f = f ()"
  by (rule ext) (simp add: op_bind_def)

lemma op_bind_if:
  "op_bind (\<lambda>s. if c s then m s else n s) f s = (if c s then op_bind m f s else op_bind n f s)"
  by (simp add: op_bind_def)

text \<open>In the option monad of the theories with an explicit heap, a failed \<open>assert\<close> has no value.\<close>

definition assert :: "bool \<Rightarrow> unit option" where
  "assert P = (if P then Some () else None)"

section \<open>Big-endian byte strings\<close>

text \<open>The value of a big-endian byte string, and the string of \<open>n\<close> bytes of a value.\<close>

definition be_val :: "u8 list \<Rightarrow> nat" where
  "be_val bs = foldl (\<lambda>r b. r * 256 + unat b) 0 bs"

fun be_bytes :: "nat \<Rightarrow> nat \<Rightarrow> u8 list" where
  "be_bytes 0 v = []"
| "be_bytes (Suc n) v = be_bytes n (v div 256) @ [word_of_nat v]"

lemma length_be_bytes [simp]: "length (be_bytes n v) = n"
  by (induction n arbitrary: v) auto

lemma be_val_Nil [simp]: "be_val [] = 0"
  by (simp add: be_val_def)

lemma be_val_snoc [simp]: "be_val (bs @ [b]) = be_val bs * 256 + unat b"
  by (simp add: be_val_def)

lemma be_val_append: "be_val (xs @ ys) = be_val xs * 256 ^ length ys + be_val ys"
proof (induction ys rule: rev_induct)
  case Nil
  then show ?case by simp
next
  case (snoc y ys)
  have "be_val (xs @ ys @ [y]) = be_val ((xs @ ys) @ [y])" by simp
  also have "\<dots> = (be_val xs * 256 ^ length ys + be_val ys) * 256 + unat y"
    using snoc.IH by (simp only: be_val_snoc)
  finally show ?case by (simp add: algebra_simps)
qed

lemma be_val_single [simp]: "be_val [b] = unat b"
  by (simp add: be_val_def)

lemma be_val_Cons: "be_val (b # bs) = unat b * 256 ^ length bs + be_val bs"
  using be_val_append [of "[b]" bs] by simp

lemma u8_lt [simp]: "unat (b :: u8) < 256"
proof -
  have "unat b < 2 ^ LENGTH(8)" by (rule unsigned_less)
  then show ?thesis by simp
qed

lemma be_val_bound: "be_val bs < 256 ^ length bs"
proof (induction bs rule: rev_induct)
  case (snoc b bs)
  then have "be_val bs * 256 + unat b < 256 ^ length bs * 256"
    using u8_lt [of b] by linarith
  then show ?case by simp
qed simp

lemma unat_u8_of_nat: "unat (word_of_nat v :: u8) = v mod 256"
  by (simp add: unat_of_nat)

lemma be_val_be_bytes: "be_val (be_bytes n v) = v mod 256 ^ n"
proof (induction n arbitrary: v)
  case (Suc n)
  have "be_val (be_bytes (Suc n) v) = (v div 256) mod 256 ^ n * 256 + v mod 256"
    by (simp add: Suc.IH unat_u8_of_nat)
  also have "\<dots> = v mod (256 * 256 ^ n)"
    by (simp add: mod_mult2_eq)
  finally show ?case by simp
qed simp

lemma be_bytes_be_val: "be_bytes (length bs) (be_val bs) = bs"
proof (induction bs rule: rev_induct)
  case (snoc b bs)
  have "(be_val bs * 256 + unat b) div 256 = be_val bs"
    using u8_lt [of b] by (simp add: div_add1_eq)
  moreover have "(word_of_nat (be_val bs * 256 + unat b) :: u8) = b"
  proof (rule word_unat_eq_iff [THEN iffD2])
    have "(be_val bs * 256 + unat b) mod 256 = unat b"
      using u8_lt [of b] by (simp add: mod_add_eq [symmetric])
    then show "unat (word_of_nat (be_val bs * 256 + unat b) :: u8) = unat b"
      by (simp only: unat_u8_of_nat)
  qed
  ultimately show ?case using snoc.IH by simp
qed simp

lemma be_val_replicate_0 [simp]: "be_val (replicate n 0) = 0"
  by (induction n) (simp_all add: be_val_Cons)

lemma be_val_dropWhile: "be_val (dropWhile (\<lambda>b. b = 0) bs) = be_val bs"
  by (induction bs) (auto simp: be_val_Cons)

section \<open>Words\<close>

lemma unat_eq_word_of_nat: "unat w = n \<Longrightarrow> w = word_of_nat n"
  by (metis of_nat_unat ucast_id)

text \<open>On words without a common bit, OR is addition, and it never wraps.\<close>

lemma unat_or_disjoint:
  assumes "a AND b = (0 :: 'a::len word)"
  shows "unat (a OR b) = unat a + unat b"
proof -
  have "unat a AND unat b = unat (a AND b)"
    by (simp add: unsigned_and_eq)
  then have "unat a AND unat b = 0"
    using assms by simp
  then show ?thesis
    by (simp add: unsigned_or_eq disjunctive_add_eq_or)
qed

lemma push_bit_and_ucast_8: "push_bit 8 (r :: 'a::len word) AND ucast (b :: u8) = 0"
  by (rule bit_word_eqI) (auto simp: bit_simps dest: bit_imp_le_length)

lemma unat_ucast_u8 [simp]: "8 \<le> LENGTH('a::len) \<Longrightarrow> unat (ucast (b :: u8) :: 'a word) = unat b"
proof -
  assume len: "8 \<le> LENGTH('a)"
  then have "(2::nat) ^ 8 \<le> 2 ^ LENGTH('a)"
    by (intro power_increasing) simp_all
  then have "256 \<le> (2::nat) ^ LENGTH('a)" by simp
  then have "unat b < 2 ^ LENGTH('a)"
    by (rule less_le_trans [OF u8_lt])
  then show "unat (ucast b :: 'a word) = unat b"
    by (simp add: unsigned_ucast_eq take_bit_nat_eq_self)
qed

lemma u64_shift_or:
  assumes "unat r < 2 ^ 56"
  shows "unat (push_bit 8 (r :: u64) OR ucast (b :: u8)) = unat r * 256 + unat b"
proof -
  have "unat (push_bit 8 r) = unat r * 256"
    using assms by (simp add: push_bit_eq_mult unat_word_ariths)
  then show ?thesis
    by (simp add: unat_or_disjoint push_bit_and_ucast_8)
qed

lemma drop_bit_eq_0: "drop_bit n (w :: 'a::len word) = 0 \<longleftrightarrow> unat w < 2 ^ n"
proof -
  have "drop_bit n w = 0 \<longleftrightarrow> unat (drop_bit n w) = 0" by (simp only: unat_eq_0)
  also have "\<dots> \<longleftrightarrow> unat w div 2 ^ n = 0" unfolding unat_drop_bit_eq by (simp only: drop_bit_eq_div)
  finally show ?thesis by (simp add: div_eq_0_iff)
qed

lemma u8_msb: "(b AND 0x80 \<noteq> 0) \<longleftrightarrow> 128 \<le> unat (b :: u8)"
proof -
  have "b AND 0x80 = b AND push_bit 7 1" by simp
  have "b AND 0x80 \<noteq> 0 \<longleftrightarrow> bit b 7"
    using and_exp_eq_0_iff_not_bit [of b 7] by simp
  also have "\<dots> \<longleftrightarrow> odd (unat b div 128)"
    using bit_iff_odd [of "unat b" 7] by (simp add: bit_unsigned_iff)
  also have "\<dots> \<longleftrightarrow> 128 \<le> unat b"
  proof (cases "128 \<le> unat b")
    case True
    then have "unat b div 128 = 1" using u8_lt [of b] by (intro div_nat_eqI) simp_all
    with True show ?thesis by simp
  qed simp
  finally show ?thesis .
qed

lemma u8_low7: "unat (b AND 0x7f :: u8) = unat b mod 128"
proof -
  have "b AND 0x7f = take_bit 7 b" by (simp add: take_bit_eq_mask mask_eq_exp_minus_1)
  then show ?thesis by (simp only: unsigned_take_bit_eq) (simp add: take_bit_eq_mod)
qed

lemma unat_ucast_up:
  assumes "LENGTH('a) \<le> LENGTH('b)"
  shows "unat (ucast (x :: 'a::len word) :: 'b::len word) = unat x"
proof -
  have "unat x < 2 ^ LENGTH('a)" by (rule unsigned_less)
  also have "(2 :: nat) ^ LENGTH('a) \<le> 2 ^ LENGTH('b)" using assms by (intro power_increasing) simp_all
  finally show ?thesis by (simp add: unsigned_ucast_eq take_bit_nat_eq_self_iff)
qed

end
