(* ===== verification/Mem.thy ===== *)
theory Mem
  imports C_Prelude
begin

text \<open>
  \<open>crypto/mem.c\<close> and the string helpers of \<open>crypto/internal.h\<close>: allocation, comparison,
  hashing, ASCII classification and C strings.

  A pointer to bytes is the list of bytes from the pointer to the end of the object it
  points into; reading past that end has no result (\<open>None\<close>).  The system allocator is
  the parameter \<open>malloc :: nat \<Rightarrow> u8 list option\<close>: a block of the given size with
  unspecified contents, or \<open>None\<close> for a null pointer.  The optional allocation hooks and
  the allocation-failure test harness of the file are not linked in.  \<open>char\<close> is signed on
  the target, \<open>OPENSSL_MALLOC_PREFIX\<close> is 8.
\<close>

section \<open>Allocation\<close>

text \<open>The documented behaviour of \<open>malloc\<close> that the code relies on.\<close>

definition malloc_ok :: "(nat \<Rightarrow> u8 list option) \<Rightarrow> bool" where
  "malloc_ok malloc \<longleftrightarrow> (\<forall>n bs. malloc n = Some bs \<longrightarrow> length bs = n)"

text \<open>The block of \<open>sz\<close> bytes after the prefix that holds the size.\<close>

definition OPENSSL_malloc :: "(nat \<Rightarrow> u8 list option) \<Rightarrow> nat \<Rightarrow> u8 list option" where
  "OPENSSL_malloc malloc sz =
    (if sz_add sz 8 < sz then None
     else case malloc (sz_add sz 8) of None \<Rightarrow> None | Some ptr \<Rightarrow> Some (drop 8 ptr))"

definition OPENSSL_zalloc :: "(nat \<Rightarrow> u8 list option) \<Rightarrow> nat \<Rightarrow> u8 list option" where
  "OPENSSL_zalloc malloc sz =
    (case OPENSSL_malloc malloc sz of None \<Rightarrow> None
     | Some ret \<Rightarrow> Some (replicate sz 0 @ drop sz ret))"

definition OPENSSL_calloc :: "(nat \<Rightarrow> u8 list option) \<Rightarrow> nat \<Rightarrow> nat \<Rightarrow> u8 list option" where
  "OPENSSL_calloc malloc num sz =
    (if sz \<noteq> 0 \<and> num > (SIZE_LIMIT - 1) div sz then None
     else OPENSSL_zalloc malloc ((num * sz) mod SIZE_LIMIT))"

text \<open>\<open>orig\<close> is \<open>None\<close> for a null pointer and the whole old block otherwise.\<close>

definition OPENSSL_realloc ::
  "(nat \<Rightarrow> u8 list option) \<Rightarrow> u8 list option \<Rightarrow> nat \<Rightarrow> u8 list option" where
  "OPENSSL_realloc malloc orig new_size =
    (case orig of None \<Rightarrow> OPENSSL_malloc malloc new_size
     | Some orig_ptr \<Rightarrow>
         let old_size = length orig_ptr in
         (case OPENSSL_malloc malloc new_size of None \<Rightarrow> None
          | Some ret \<Rightarrow>
              let to_copy = (if old_size < new_size then old_size else new_size)
              in Some (take to_copy orig_ptr @ drop to_copy ret)))"

definition OPENSSL_memdup :: "(nat \<Rightarrow> u8 list option) \<Rightarrow> u8 list \<Rightarrow> nat \<Rightarrow> u8 list option" where
  "OPENSSL_memdup malloc data sz =
    (if sz = 0 then None
     else case OPENSSL_malloc malloc sz of None \<Rightarrow> None
          | Some ret \<Rightarrow> Some (take sz data @ drop sz ret))"

section \<open>Comparison and hashing\<close>

definition CRYPTO_memcmp :: "u8 list \<Rightarrow> u8 list \<Rightarrow> nat \<Rightarrow> u8" where
  "CRYPTO_memcmp a b len = foldl (\<lambda>x i. x OR (a ! i XOR b ! i)) 0 [0..<len]"

definition OPENSSL_hash32 :: "u8 list \<Rightarrow> nat \<Rightarrow> u32" where
  "OPENSSL_hash32 ptr len =
    foldl (\<lambda>h i. (h XOR ucast (ptr ! i)) * 16777619) 2166136261 [0..<len]"

text \<open>\<open>memchr\<close> and \<open>memcmp\<close> of the C library behind the null-safe wrappers: the index of the
  first match, and the sign of the first difference as unsigned bytes.\<close>

fun memchr_index :: "u8 list \<Rightarrow> u8 \<Rightarrow> nat \<Rightarrow> nat option" where
  "memchr_index s c 0 = None"
| "memchr_index [] c (Suc n) = None"
| "memchr_index (x # s) c (Suc n) = (if x = c then Some 0 else map_option Suc (memchr_index s c n))"

definition OPENSSL_memchr :: "u8 list \<Rightarrow> u8 \<Rightarrow> nat \<Rightarrow> nat option" where
  "OPENSSL_memchr s c n = (if n = 0 then None else memchr_index s c n)"

fun memcmp_sign :: "u8 list \<Rightarrow> u8 list \<Rightarrow> nat \<Rightarrow> int" where
  "memcmp_sign (x # s) (y # t) (Suc n) =
     (if x < y then -1 else if x > y then 1 else memcmp_sign s t n)"
| "memcmp_sign _ _ _ = 0"

definition OPENSSL_memcmp :: "u8 list \<Rightarrow> u8 list \<Rightarrow> nat \<Rightarrow> int" where
  "OPENSSL_memcmp s1 s2 n = (if n = 0 then 0 else memcmp_sign s1 s2 n)"

section \<open>ASCII classes\<close>

text \<open>The character constants: '0' is 48, 'A' is 65, 'a' is 97.\<close>

definition OPENSSL_isalpha :: "int \<Rightarrow> bool" where
  "OPENSSL_isalpha c \<longleftrightarrow> (c \<ge> 97 \<and> c \<le> 122) \<or> (c \<ge> 65 \<and> c \<le> 90)"

definition OPENSSL_isdigit :: "int \<Rightarrow> bool" where
  "OPENSSL_isdigit c \<longleftrightarrow> c \<ge> 48 \<and> c \<le> 57"

definition OPENSSL_isxdigit :: "int \<Rightarrow> bool" where
  "OPENSSL_isxdigit c \<longleftrightarrow> OPENSSL_isdigit c \<or> (c \<ge> 97 \<and> c \<le> 102) \<or> (c \<ge> 65 \<and> c \<le> 70)"

definition OPENSSL_fromxdigit :: "int \<Rightarrow> u8 option" where
  "OPENSSL_fromxdigit c =
    (if OPENSSL_isdigit c then Some (word_of_int (c - 48))
     else if 97 \<le> c \<and> c \<le> 102 then Some (word_of_int (c - 97 + 10))
     else if 65 \<le> c \<and> c \<le> 70 then Some (word_of_int (c - 65 + 10))
     else None)"

definition OPENSSL_isalnum :: "int \<Rightarrow> bool" where
  "OPENSSL_isalnum c \<longleftrightarrow> OPENSSL_isalpha c \<or> OPENSSL_isdigit c"

definition OPENSSL_tolower :: "int \<Rightarrow> int" where
  "OPENSSL_tolower c = (if c \<ge> 65 \<and> c \<le> 90 then c + (97 - 65) else c)"

definition OPENSSL_isspace :: "int \<Rightarrow> bool" where
  "OPENSSL_isspace c \<longleftrightarrow> c = 9 \<or> c = 10 \<or> c = 11 \<or> c = 12 \<or> c = 13 \<or> c = 32"

section \<open>C strings\<close>

text \<open>\<open>strlen\<close> of the C library: the bytes before the first zero byte.\<close>

fun c_strlen :: "u8 list \<Rightarrow> nat option" where
  "c_strlen [] = None"
| "c_strlen (c # s) = (if c = 0 then Some 0 else map_option Suc (c_strlen s))"

definition OPENSSL_strhash :: "u8 list \<Rightarrow> u32 option" where
  "OPENSSL_strhash s = (case c_strlen s of None \<Rightarrow> None | Some len \<Rightarrow> Some (OPENSSL_hash32 s len))"

fun OPENSSL_strnlen :: "u8 list \<Rightarrow> nat \<Rightarrow> nat" where
  "OPENSSL_strnlen s 0 = 0"
| "OPENSSL_strnlen s (Suc n) =
     (if s ! 0 = 0 then 0 else Suc (OPENSSL_strnlen (drop 1 s) n))"

definition OPENSSL_strdup :: "(nat \<Rightarrow> u8 list option) \<Rightarrow> u8 list option \<Rightarrow> u8 list option" where
  "OPENSSL_strdup malloc s =
    (case s of None \<Rightarrow> None
     | Some s \<Rightarrow>
         (case c_strlen s of None \<Rightarrow> None
          | Some n \<Rightarrow>
              let len = sz_add n 1 in
              (case OPENSSL_malloc malloc len of None \<Rightarrow> None
               | Some ret \<Rightarrow> Some (take len s @ drop len ret))))"

definition OPENSSL_strndup :: "(nat \<Rightarrow> u8 list option) \<Rightarrow> u8 list \<Rightarrow> nat \<Rightarrow> u8 list option" where
  "OPENSSL_strndup malloc str sz =
    (let sz = OPENSSL_strnlen str sz;
         alloc_size = sz_add sz 1
     in if alloc_size < sz then None
        else case OPENSSL_malloc malloc alloc_size of None \<Rightarrow> None
             | Some ret \<Rightarrow> Some ((take sz str @ drop sz ret)[sz := 0]))"

fun OPENSSL_strcasecmp :: "u8 list \<Rightarrow> u8 list \<Rightarrow> int option" where
  "OPENSSL_strcasecmp (a # as) (b # bs) =
    (let aa = OPENSSL_tolower (sint a); bb = OPENSSL_tolower (sint b)
     in if aa < bb then Some (-1) else if aa > bb then Some 1
        else if aa = 0 then Some 0 else OPENSSL_strcasecmp as bs)"
| "OPENSSL_strcasecmp _ _ = None"

fun OPENSSL_strncasecmp :: "u8 list \<Rightarrow> u8 list \<Rightarrow> nat \<Rightarrow> int option" where
  "OPENSSL_strncasecmp _ _ 0 = Some 0"
| "OPENSSL_strncasecmp (a # as) (b # bs) (Suc n) =
    (let aa = OPENSSL_tolower (sint a); bb = OPENSSL_tolower (sint b)
     in if aa < bb then Some (-1) else if aa > bb then Some 1
        else if aa = 0 then Some 0 else OPENSSL_strncasecmp as bs n)"
| "OPENSSL_strncasecmp _ _ (Suc n) = None"

text \<open>The copy loop of \<open>OPENSSL_strlcpy\<close> with its counter \<open>l\<close>; the result is the destination
  object after the call and the return value.\<close>

fun strlcpy_loop :: "u8 list \<Rightarrow> u8 list \<Rightarrow> nat \<Rightarrow> nat \<Rightarrow> (u8 list \<times> nat) option" where
  "strlcpy_loop dst [] dst_size l = None"
| "strlcpy_loop dst (c # src) dst_size l =
    (if dst_size > 1 \<and> c \<noteq> 0
     then (case dst of [] \<Rightarrow> None
           | _ # dst' \<Rightarrow> map_option (\<lambda>(d, r). (c # d, r)) (strlcpy_loop dst' src (dst_size - 1) (l + 1)))
     else (case c_strlen (c # src) of None \<Rightarrow> None
           | Some n \<Rightarrow>
               if dst_size \<noteq> 0
               then (case dst of [] \<Rightarrow> None | _ # dst' \<Rightarrow> Some (0 # dst', l + n))
               else Some (dst, l + n)))"

definition OPENSSL_strlcpy :: "u8 list \<Rightarrow> u8 list \<Rightarrow> nat \<Rightarrow> (u8 list \<times> nat) option" where
  "OPENSSL_strlcpy dst src dst_size = strlcpy_loop dst src dst_size 0"

fun strlcat_loop :: "u8 list \<Rightarrow> u8 list \<Rightarrow> nat \<Rightarrow> nat \<Rightarrow> (u8 list \<times> nat) option" where
  "strlcat_loop dst src 0 l =
     map_option (\<lambda>(d, r). (d, l + r)) (OPENSSL_strlcpy dst src 0)"
| "strlcat_loop [] src (Suc n) l = None"
| "strlcat_loop (d # dst) src (Suc n) l =
     (if d \<noteq> 0 then map_option (\<lambda>(e, r). (d # e, r)) (strlcat_loop dst src n (l + 1))
      else map_option (\<lambda>(e, r). (e, l + r)) (OPENSSL_strlcpy (d # dst) src (Suc n)))"

definition OPENSSL_strlcat :: "u8 list \<Rightarrow> u8 list \<Rightarrow> nat \<Rightarrow> (u8 list \<times> nat) option" where
  "OPENSSL_strlcat dst src dst_size = strlcat_loop dst src dst_size 0"

section \<open>Lemmas\<close>

lemma length_OPENSSL_malloc:
  assumes "malloc_ok malloc" "OPENSSL_malloc malloc n = Some bs" "n < SIZE_LIMIT"
  shows "length bs = n"
proof -
  from assms(2) obtain ptr where "\<not> sz_add n 8 < n" and ptr: "malloc (sz_add n 8) = Some ptr" "bs = drop 8 ptr"
    by (auto simp: OPENSSL_malloc_def split: if_splits option.splits)
  then have "n + 8 < SIZE_LIMIT"
    using sz_add_overflow [OF assms(3), of 8] by simp
  moreover have "length ptr = sz_add n 8"
    using assms(1) ptr(1) by (simp add: malloc_ok_def)
  ultimately show ?thesis using ptr(2) by simp
qed

lemma OPENSSL_realloc_SomeD:
  assumes "malloc_ok malloc" "OPENSSL_realloc malloc (Some old) n = Some bs" "length old \<le> n" "n < SIZE_LIMIT"
  shows "length bs = n" "take (length old) bs = old"
  using assms(2,3) length_OPENSSL_malloc [OF assms(1) _ assms(4)]
  by (auto simp: OPENSSL_realloc_def Let_def split: option.splits if_splits)

lemma OPENSSL_memdup_SomeD:
  assumes "malloc_ok malloc" "OPENSSL_memdup malloc data n = Some bs" "n \<le> length data" "n < SIZE_LIMIT"
  shows "bs = take n data"
  using assms(2,3) length_OPENSSL_malloc [OF assms(1) _ assms(4)]
  by (auto simp: OPENSSL_memdup_def split: option.splits if_splits)

lemma memchr_index_None: "memchr_index s c n = None \<longleftrightarrow> c \<notin> set (take n s)"
  by (induction s c n rule: memchr_index.induct) auto

lemma memchr_index_Some:
  "memchr_index s c n = Some i \<longleftrightarrow> i < n \<and> i < length s \<and> s ! i = c \<and> (\<forall>j<i. s ! j \<noteq> c)"
proof (induction s c n arbitrary: i rule: memchr_index.induct)
  case (3 x s c n)
  then show ?case
    by (cases i) (auto simp: All_less_Suc2)
qed auto

lemma foldl_or_xor_0:
  "foldl (\<lambda>x i. x OR (a ! i XOR b ! i)) (x :: u8) is = 0 \<longleftrightarrow> x = 0 \<and> (\<forall>i\<in>set is. a ! i = b ! i)"
proof (induction "is" arbitrary: x)
  case (Cons i "is")
  have "x OR (a ! i XOR b ! i) = 0 \<longleftrightarrow> x = 0 \<and> a ! i = b ! i"
    by (auto simp: bit_eq_iff bit_simps)
  with Cons show ?case by auto
qed simp

lemma CRYPTO_memcmp_0: "CRYPTO_memcmp a b n = 0 \<longleftrightarrow> (\<forall>i<n. a ! i = b ! i)"
  by (auto simp: CRYPTO_memcmp_def foldl_or_xor_0)

lemma CRYPTO_memcmp_take:
  assumes "n \<le> length a" "n \<le> length b"
  shows "CRYPTO_memcmp a b n = 0 \<longleftrightarrow> take n a = take n b"
  using assms by (auto simp: CRYPTO_memcmp_0 list_eq_iff_nth_eq)

lemma c_strlen_Some: "c_strlen s = Some n \<longleftrightarrow> n < length s \<and> s ! n = 0 \<and> (\<forall>i<n. s ! i \<noteq> 0)"
proof (induction s arbitrary: n)
  case (Cons c s)
  then show ?case by (cases n) (auto simp: All_less_Suc2)
qed simp

lemma strlcpy_loop_eq:
  "c_strlen src = Some n \<Longrightarrow> dst_size \<le> length dst \<Longrightarrow>
    strlcpy_loop dst src dst_size l =
      Some (if dst_size = 0 then dst
            else take (min n (dst_size - 1)) src @ 0 # drop (Suc (min n (dst_size - 1))) dst, l + n)"
proof (induction dst src dst_size l arbitrary: n rule: strlcpy_loop.induct)
  case (2 dst c src dst_size l)
  show ?case
  proof (cases "dst_size > 1 \<and> c \<noteq> 0")
    case True
    then obtain m where m: "c_strlen src = Some m" "n = Suc m" using "2.prems"(1) by auto
    obtain d ds where d: "dst = d # ds" using True "2.prems"(2) by (cases dst) auto
    have "strlcpy_loop ds src (dst_size - 1) (l + 1) =
        Some (if dst_size - 1 = 0 then ds
              else take (min m (dst_size - 1 - 1)) src @ 0 # drop (Suc (min m (dst_size - 1 - 1))) ds, l + 1 + m)"
      by (rule "2.IH" [OF True d]) (use m d "2.prems" in auto)
    moreover have "min n (dst_size - 1) = Suc (min m (dst_size - 1 - 1))" using m(2) True by linarith
    ultimately show ?thesis using True d m(2) by simp
  next
    case False
    then show ?thesis
      using "2.prems" by (cases dst) (auto split: if_splits)
  qed
qed simp

lemma strlcat_loop_eq:
  "c_strlen (take k dst) = Some d \<Longrightarrow> k \<le> length dst \<Longrightarrow>
    strlcat_loop dst src k l =
      map_option (\<lambda>(e, r). (take d dst @ e, l + d + r)) (OPENSSL_strlcpy (drop d dst) src (k - d))"
proof (induction dst src k l arbitrary: d rule: strlcat_loop.induct)
  case (3 c dst src n l)
  show ?case
  proof (cases "c = 0")
    case True
    then show ?thesis using "3.prems" by (simp add: map_option_case split: option.split)
  next
    case False
    then obtain e where e: "c_strlen (take n dst) = Some e" "d = Suc e" using "3.prems"(1) by auto
    then show ?thesis
      using False "3.IH" [OF False e(1)] "3.prems"(2)
      by (simp add: option.map_comp comp_def split_def)
  qed
qed simp_all

lemma OPENSSL_strnlen_eq:
  "n \<le> length s \<Longrightarrow> OPENSSL_strnlen s n = (case c_strlen (take n s) of Some k \<Rightarrow> k | None \<Rightarrow> n)"
proof (induction s n rule: OPENSSL_strnlen.induct)
  case (2 s n)
  then obtain c cs where "s = c # cs" by (cases s) auto
  with 2 show ?case by (auto split: option.split)
qed simp

section \<open>Properties\<close>

text \<open>
  The constant-time comparison returns zero exactly when the two memory areas hold the
  same bytes.
\<close>

theorem memcmp_zero_iff_equal:
  assumes "len \<le> length a" "len \<le> length b"
  shows "CRYPTO_memcmp a b len = 0 \<longleftrightarrow> take len a = take len b"
  using assms by (rule CRYPTO_memcmp_take)

theorem memcmp_zero_iff_equal_witness:
  "CRYPTO_memcmp [1, 2, 3] [1, 2, 4] 2 = 0 \<longleftrightarrow> take 2 [1, 2, 3 :: u8] = take 2 [1, 2, 4]"
  by (rule memcmp_zero_iff_equal) simp_all

text \<open>
  \<open>OPENSSL_strlcpy\<close> and \<open>OPENSSL_strlcat\<close> on a destination that holds \<open>dst_size\<close> bytes and
  a terminated source never write past \<open>dst_size\<close>, terminate the destination whenever there is
  room for a byte, copy as much of the source as fits, leave the rest of the destination alone
  and return the length of the string they tried to make.
\<close>

theorem strlcpy_strlcat_truncate:
  assumes "c_strlen src = Some n" "dst_size \<le> length dst" "c_strlen (take dst_size dst) = Some d"
  shows "OPENSSL_strlcpy dst src dst_size =
      Some (take (min n (dst_size - 1)) src @ 0 # drop (Suc (min n (dst_size - 1))) dst, n) \<and>
    OPENSSL_strlcat dst src dst_size =
      Some (take d dst @ take (min n (dst_size - d - 1)) src @ 0 #
              drop (d + Suc (min n (dst_size - d - 1))) dst, d + n)"
proof -
  have d: "d < dst_size" using assms(3) by (simp add: c_strlen_Some)
  then have "OPENSSL_strlcpy dst src dst_size =
      Some (take (min n (dst_size - 1)) src @ 0 # drop (Suc (min n (dst_size - 1))) dst, n)"
    unfolding OPENSSL_strlcpy_def using strlcpy_loop_eq [OF assms(1,2), of 0] by simp
  moreover have "OPENSSL_strlcpy (drop d dst) src (dst_size - d) =
      Some (take (min n (dst_size - d - 1)) src @ 0 # drop (Suc (min n (dst_size - d - 1))) (drop d dst), n)"
    unfolding OPENSSL_strlcpy_def
    using strlcpy_loop_eq [OF assms(1), of "dst_size - d" "drop d dst" 0] d assms(2) by simp
  ultimately show ?thesis
    using strlcat_loop_eq [OF assms(3,2), of src 0] by (simp add: OPENSSL_strlcat_def add.commute)
qed

theorem strlcpy_strlcat_truncate_witness:
  "OPENSSL_strlcpy [104, 0, 9, 9] [97, 98, 99, 0] 3 = Some ([97, 98, 0, 9], 3) \<and>
   OPENSSL_strlcat [104, 0, 9, 9] [97, 98, 99, 0] 3 = Some ([104, 97, 0, 9], 4)"
proof -
  have "c_strlen [97, 98, 99, 0] = Some 3" "c_strlen (take 3 [104, 0, 9, 9]) = Some 1" by simp_all
  from strlcpy_strlcat_truncate [OF this(1) _ this(2)] show ?thesis by simp
qed

text \<open>
  \<open>OPENSSL_strndup\<close> reads at most \<open>sz\<close> bytes and returns a block of its own that holds the
  string up to the first zero byte among them, and a terminator.
\<close>

theorem strndup_copies_string:
  assumes "malloc_ok malloc" "sz \<le> length str" "sz < SIZE_LIMIT"
    and "OPENSSL_strndup malloc str sz = Some ret"
  shows "\<exists>k\<le> sz. ret = take k str @ [0] \<and> c_strlen ret = Some k \<and> (k < sz \<longrightarrow> str ! k = 0)"
proof -
  define k where "k = OPENSSL_strnlen str sz"
  have k: "k \<le> sz" "\<forall>i<k. str ! i \<noteq> 0" "k < sz \<longrightarrow> str ! k = 0"
  proof -
    have c: "k = (case c_strlen (take sz str) of Some j \<Rightarrow> j | None \<Rightarrow> sz)"
      using OPENSSL_strnlen_eq [OF assms(2)] by (simp add: k_def)
    show "k \<le> sz"
      using c by (auto simp: c_strlen_Some split: option.splits)
    have none: "c_strlen xs = None \<Longrightarrow> \<forall>i<length xs. xs ! i \<noteq> 0" for xs
    proof (induction xs)
      case (Cons x xs)
      then show ?case by (auto simp: All_less_Suc2 split: if_splits)
    qed simp
    show "\<forall>i<k. str ! i \<noteq> 0"
      using c none [of "take sz str"] assms(2) by (auto simp: c_strlen_Some split: option.splits)
    show "k < sz \<longrightarrow> str ! k = 0"
      using c by (auto simp: c_strlen_Some split: option.splits)
  qed
  obtain blk where blk: "OPENSSL_malloc malloc (sz_add k 1) = Some blk" "\<not> sz_add k 1 < k"
      "ret = (take k str @ drop k blk)[k := 0]"
    using assms(4) by (auto simp: OPENSSL_strndup_def Let_def k_def [symmetric] split: if_splits option.splits)
  have lim: "k + 1 < SIZE_LIMIT"
    using sz_add_overflow [of k 1] blk(2) k(1) assms(3) by simp
  then have len: "length blk = Suc k"
    using length_OPENSSL_malloc [OF assms(1) blk(1)] by simp
  then obtain x where "drop k blk = [x]"
    by (cases "drop k blk") (auto dest: arg_cong [of _ _ length])
  then have ret: "ret = take k str @ [0]"
    using blk(3) k(1) assms(2) by (simp add: list_update_append)
  have "c_strlen ret = Some k"
    using k assms(2) unfolding ret c_strlen_Some by (auto simp: nth_append)
  with ret k show ?thesis by blast
qed

theorem strndup_copies_string_witness:
  "\<exists>k\<le>3. OPENSSL_strndup (\<lambda>n. Some (replicate n 7)) [104, 105, 0, 106] 3 = Some (take k [104, 105, 0, 106] @ [0])"
proof -
  have "OPENSSL_strndup (\<lambda>n. Some (replicate n 7)) [104, 105, 0, 106] 3 = Some [104, 105, 0]"
  proof -
    have "OPENSSL_strnlen [104, 105, 0, 106] 3 = 2"
      using OPENSSL_strnlen_eq [of 3 "[104, 105, 0, 106]"] by simp
    moreover have "OPENSSL_malloc (\<lambda>n. Some (replicate n 7)) 3 = Some (replicate 3 7)"
      by (simp add: OPENSSL_malloc_def)
    ultimately show ?thesis
      by (simp add: OPENSSL_strndup_def Let_def numeral_3_eq_3)
  qed
  moreover from this have "\<exists>k\<le>3. [104, 105, 0] = take k [104, 105, 0, 106 :: u8] @ [0] \<and>
      c_strlen [104, 105, 0] = Some k \<and> (k < 3 \<longrightarrow> [104, 105, 0, 106 :: u8] ! k = 0)"
    by (intro strndup_copies_string [of "\<lambda>n. Some (replicate n 7)"]) (simp_all add: malloc_ok_def)
  ultimately show ?thesis by metis
qed

end
