(* ===== verification/Cbs.thy ===== *)
theory Cbs
  imports Mem
begin

text \<open>
  The byte-string reader of \<open>crypto/bytestring/cbs.c\<close>, without ASN.1: bounded reads of
  bytes, big- and little-endian integers, length-prefixed strings and decimal numbers.

  A \<open>CBS\<close> is a pointer and a length.  The pointer is the list of all the bytes of memory
  from the place it points to, which may go on after the \<open>len\<close> bytes of the string: a read
  past \<open>len\<close> is visible in the model, and \<open>in_bounds\<close> below says that no operation does one.
\<close>

section \<open>The code\<close>

record cbs =
  cbs_data :: "u8 list"
  cbs_len :: nat

definition CBS_init :: "u8 list \<Rightarrow> nat \<Rightarrow> cbs" where
  "CBS_init data len = \<lparr>cbs_data = data, cbs_len = len\<rparr>"

definition cbs_get :: "nat \<Rightarrow> (cbs, u8 list) op" where
  "cbs_get n s =
    (if cbs_len s < n then (None, s)
     else (Some (cbs_data s), s\<lparr>cbs_data := drop n (cbs_data s), cbs_len := cbs_len s - n\<rparr>))"

definition CBS_skip :: "nat \<Rightarrow> (cbs, unit) op" where
  "CBS_skip len = op_bind (cbs_get len) (\<lambda>dummy. op_ret ())"

definition CBS_data :: "cbs \<Rightarrow> u8 list" where
  "CBS_data s = cbs_data s"

definition CBS_len :: "cbs \<Rightarrow> nat" where
  "CBS_len s = cbs_len s"

text \<open>The result is \<open>*out_ptr\<close> (\<open>None\<close> for a null pointer) and \<open>*out_len\<close>.\<close>

definition CBS_stow :: "(nat \<Rightarrow> u8 list option) \<Rightarrow> cbs \<Rightarrow> (u8 list option \<times> nat) option" where
  "CBS_stow malloc s =
    (if cbs_len s = 0 then Some (None, 0)
     else case OPENSSL_memdup malloc (cbs_data s) (cbs_len s) of
            None \<Rightarrow> None
          | Some ptr \<Rightarrow> Some (Some ptr, cbs_len s))"

definition CBS_strdup :: "(nat \<Rightarrow> u8 list option) \<Rightarrow> cbs \<Rightarrow> u8 list option" where
  "CBS_strdup malloc s = OPENSSL_strndup malloc (cbs_data s) (cbs_len s)"

definition CBS_contains_zero_byte :: "cbs \<Rightarrow> bool" where
  "CBS_contains_zero_byte s \<longleftrightarrow> OPENSSL_memchr (cbs_data s) 0 (cbs_len s) \<noteq> None"

definition CBS_mem_equal :: "cbs \<Rightarrow> u8 list \<Rightarrow> nat \<Rightarrow> bool" where
  "CBS_mem_equal s data len =
    (if len \<noteq> cbs_len s then False else CRYPTO_memcmp (cbs_data s) data len = 0)"

definition cbs_get_u :: "nat \<Rightarrow> (cbs, u64) op" where
  "cbs_get_u len = op_bind (cbs_get len) (\<lambda>data.
     op_ret (foldl (\<lambda>result i. push_bit 8 result OR ucast (data ! i)) 0 [0..<len]))"

definition CBS_get_u8 :: "(cbs, u8) op" where
  "CBS_get_u8 = op_bind (cbs_get 1) (\<lambda>v. op_ret (v ! 0))"

definition CBS_get_u16 :: "(cbs, u16) op" where
  "CBS_get_u16 = op_bind (cbs_get_u 2) (\<lambda>v. op_ret (ucast v))"

text \<open>The byte swaps of \<open>crypto/internal.h\<close>, in the form that uses no compiler builtin.\<close>

definition CRYPTO_bswap2 :: "u16 \<Rightarrow> u16" where
  "CRYPTO_bswap2 x = drop_bit 8 x OR push_bit 8 x"

definition CRYPTO_bswap4 :: "u32 \<Rightarrow> u32" where
  "CRYPTO_bswap4 x =
    (let x = drop_bit 16 x OR push_bit 16 x
     in drop_bit 8 (x AND 0xff00ff00) OR push_bit 8 (x AND 0x00ff00ff))"

definition CRYPTO_bswap8 :: "u64 \<Rightarrow> u64" where
  "CRYPTO_bswap8 x =
    ucast (CRYPTO_bswap4 (ucast (drop_bit 32 x))) OR push_bit 32 (ucast (CRYPTO_bswap4 (ucast x)))"

definition CBS_get_u16le :: "(cbs, u16) op" where
  "CBS_get_u16le = op_bind CBS_get_u16 (\<lambda>out. op_ret (CRYPTO_bswap2 out))"

definition CBS_get_u24 :: "(cbs, u32) op" where
  "CBS_get_u24 = op_bind (cbs_get_u 3) (\<lambda>v. op_ret (ucast v))"

definition CBS_get_u32 :: "(cbs, u32) op" where
  "CBS_get_u32 = op_bind (cbs_get_u 4) (\<lambda>v. op_ret (ucast v))"

definition CBS_get_u32le :: "(cbs, u32) op" where
  "CBS_get_u32le = op_bind CBS_get_u32 (\<lambda>out. op_ret (CRYPTO_bswap4 out))"

definition CBS_get_u64 :: "(cbs, u64) op" where
  "CBS_get_u64 = cbs_get_u 8"

definition CBS_get_u64le :: "(cbs, u64) op" where
  "CBS_get_u64le = op_bind (cbs_get_u 8) (\<lambda>out. op_ret (CRYPTO_bswap8 out))"

definition CBS_get_last_u8 :: "(cbs, u8) op" where
  "CBS_get_last_u8 s =
    (if cbs_len s = 0 then (None, s)
     else (Some (cbs_data s ! (cbs_len s - 1)), s\<lparr>cbs_len := cbs_len s - 1\<rparr>))"

definition CBS_get_bytes :: "nat \<Rightarrow> (cbs, cbs) op" where
  "CBS_get_bytes len = op_bind (cbs_get len) (\<lambda>v. op_ret (CBS_init v len))"

text \<open>The result is the \<open>len\<close> bytes copied to \<open>out\<close>.\<close>

definition CBS_copy_bytes :: "nat \<Rightarrow> (cbs, u8 list) op" where
  "CBS_copy_bytes len = op_bind (cbs_get len) (\<lambda>v. op_ret (take len v))"

definition cbs_get_length_prefixed :: "nat \<Rightarrow> (cbs, cbs) op" where
  "cbs_get_length_prefixed len_len =
     op_bind (cbs_get_u len_len) (\<lambda>len. CBS_get_bytes (unat len))"

definition CBS_get_u8_length_prefixed :: "(cbs, cbs) op" where
  "CBS_get_u8_length_prefixed = cbs_get_length_prefixed 1"

definition CBS_get_u16_length_prefixed :: "(cbs, cbs) op" where
  "CBS_get_u16_length_prefixed = cbs_get_length_prefixed 2"

definition CBS_get_u24_length_prefixed :: "(cbs, cbs) op" where
  "CBS_get_u24_length_prefixed = cbs_get_length_prefixed 3"

definition CBS_get_until_first :: "u8 \<Rightarrow> (cbs, cbs) op" where
  "CBS_get_until_first c s =
    (case OPENSSL_memchr (CBS_data s) c (CBS_len s) of
       None \<Rightarrow> (None, s)
     | Some split \<Rightarrow> CBS_get_bytes split s)"

text \<open>The loop of \<open>CBS_get_u64_decimal\<close> with its variables \<open>v\<close> and \<open>seen_digit\<close>.\<close>

function u64_decimal_loop :: "u64 \<Rightarrow> bool \<Rightarrow> cbs \<Rightarrow> u64 option \<times> cbs" where
  "u64_decimal_loop v seen_digit s =
    (if CBS_len s \<noteq> 0 \<and> OPENSSL_isdigit (uint (CBS_data s ! 0)) then
       let c = CBS_data s ! 0; s = snd (CBS_skip 1 s)
       in if (v = 0 \<and> seen_digit) \<or> v > -1 div 10 \<or> v * 10 > -1 - (ucast c - 48) then (None, s)
          else u64_decimal_loop (v * 10 + (ucast c - 48)) True s
     else if seen_digit then (Some v, s) else (None, s))"
  by pat_completeness auto
termination
  by (relation "measure (\<lambda>(v, d, s). cbs_len s)")
    (auto simp: CBS_len_def CBS_skip_def cbs_get_def op_bind_def)

definition CBS_get_u64_decimal :: "(cbs, u64) op" where
  "CBS_get_u64_decimal = u64_decimal_loop 0 False"

declare u64_decimal_loop.simps [simp del]

section \<open>Well-formed strings\<close>

text \<open>The \<open>len\<close> bytes are in memory; a \<open>size_t\<close> holds the length.\<close>

definition cbs_ok :: "cbs \<Rightarrow> bool" where
  "cbs_ok s \<longleftrightarrow> cbs_len s \<le> length (cbs_data s) \<and> cbs_len s < SIZE_LIMIT"

definition cbs_bytes :: "cbs \<Rightarrow> u8 list" where
  "cbs_bytes s = take (cbs_len s) (cbs_data s)"

definition cbs_adv :: "nat \<Rightarrow> cbs \<Rightarrow> cbs" where
  "cbs_adv n s = s\<lparr>cbs_data := drop n (cbs_data s), cbs_len := cbs_len s - n\<rparr>"

lemma cbs_adv_0 [simp]: "cbs_adv 0 s = s"
  by (simp add: cbs_adv_def)

lemma cbs_adv_adv [simp]: "cbs_adv m (cbs_adv n s) = cbs_adv (n + m) s"
  by (simp add: cbs_adv_def add.commute)

lemma cbs_len_adv [simp]: "cbs_len (cbs_adv n s) = cbs_len s - n"
  by (simp add: cbs_adv_def)

lemma cbs_bytes_adv [simp]: "cbs_bytes (cbs_adv n s) = drop n (cbs_bytes s)"
  by (simp add: cbs_adv_def cbs_bytes_def drop_take)

lemma cbs_ok_adv [simp]: "cbs_ok s \<Longrightarrow> n \<le> cbs_len s \<Longrightarrow> cbs_ok (cbs_adv n s)"
  by (auto simp: cbs_ok_def cbs_adv_def)

lemma length_cbs_bytes [simp]: "cbs_ok s \<Longrightarrow> length (cbs_bytes s) = cbs_len s"
  by (simp add: cbs_ok_def cbs_bytes_def)

lemma cbs_ok_init [simp]: "cbs_ok (CBS_init d n) \<longleftrightarrow> n \<le> length d \<and> n < SIZE_LIMIT"
  by (simp add: cbs_ok_def CBS_init_def)

lemma cbs_bytes_init [simp]: "cbs_bytes (CBS_init d n) = take n d"
  by (simp add: cbs_bytes_def CBS_init_def)

lemma cbs_len_init [simp]: "cbs_len (CBS_init d n) = n"
  by (simp add: CBS_init_def)

lemma CBS_len_eq [simp]: "CBS_len s = cbs_len s"
  by (simp add: CBS_len_def)

lemma cbs_data_nth: "cbs_ok s \<Longrightarrow> i < cbs_len s \<Longrightarrow> cbs_data s ! i = cbs_bytes s ! i"
  by (simp add: cbs_bytes_def)

lemma cbs_data_take: "cbs_ok s \<Longrightarrow> n \<le> cbs_len s \<Longrightarrow> take n (cbs_data s) = take n (cbs_bytes s)"
  by (simp add: cbs_bytes_def min_def)

section \<open>What each read does\<close>

lemma cbs_get_eq: "cbs_get n s = (if cbs_len s < n then (None, s) else (Some (cbs_data s), cbs_adv n s))"
  by (simp add: cbs_get_def cbs_adv_def)

lemma CBS_skip_eq: "CBS_skip n s = (if cbs_len s < n then (None, s) else (Some (), cbs_adv n s))"
  by (simp add: CBS_skip_def op_bind_def cbs_get_eq)

lemma CBS_get_u8_eq:
  assumes "cbs_ok s"
  shows "CBS_get_u8 s = (case cbs_bytes s of [] \<Rightarrow> (None, s) | b # bs \<Rightarrow> (Some b, cbs_adv 1 s))"
proof (cases "cbs_len s")
  case 0
  then show ?thesis by (simp add: CBS_get_u8_def op_bind_def cbs_get_eq cbs_bytes_def)
next
  case (Suc n)
  with assms obtain b bs where "cbs_bytes s = b # bs"
    by (metis length_cbs_bytes length_Suc_conv)
  moreover from this have "cbs_data s ! 0 = b"
    using cbs_data_nth [OF assms, of 0] Suc by simp
  ultimately show ?thesis
    using Suc by (simp add: CBS_get_u8_def op_bind_def cbs_get_eq)
qed

lemma CBS_get_u8_iff:
  assumes "cbs_ok s"
  shows "CBS_get_u8 s = (Some b, t) \<longleftrightarrow> cbs_bytes s = b # cbs_bytes t \<and> t = cbs_adv 1 s"
  by (cases "cbs_bytes s") (auto simp: CBS_get_u8_eq [OF assms])

lemma CBS_get_bytes_eq:
  "CBS_get_bytes n s =
    (if cbs_len s < n then (None, s) else (Some (CBS_init (cbs_data s) n), cbs_adv n s))"
  by (simp add: CBS_get_bytes_def op_bind_def cbs_get_eq)

lemma foldl_be_word:
  assumes "length bs \<le> 8"
  shows "unat (foldl (\<lambda>r b. push_bit 8 r OR ucast b) (0 :: u64) bs) = be_val bs"
  using assms
proof (induction bs rule: rev_induct)
  case (snoc b bs)
  then have IH: "unat (foldl (\<lambda>r b. push_bit 8 r OR ucast b) (0 :: u64) bs) = be_val bs" by simp
  have "be_val bs < 256 ^ length bs" by (rule be_val_bound)
  also have "(256 :: nat) ^ length bs \<le> 256 ^ 7" using snoc.prems by (intro power_increasing) simp_all
  finally have "unat (foldl (\<lambda>r b. push_bit 8 r OR ucast b) (0 :: u64) bs) < 2 ^ 56"
    by (simp add: IH)
  from u64_shift_or [OF this] show ?case by (simp add: IH)
qed simp

lemma foldl_upt_nth:
  "n \<le> length xs \<Longrightarrow> foldl (\<lambda>r i. f r (xs ! i)) a [0..<n] = foldl f a (take n xs)"
  by (induction n) (simp_all add: take_Suc_conv_app_nth)

lemma cbs_get_u_eq:
  assumes "cbs_ok s" "n \<le> 8"
  shows "cbs_get_u n s =
    (if cbs_len s < n then (None, s)
     else (Some (word_of_nat (be_val (take n (cbs_bytes s)))), cbs_adv n s))"
proof (cases "cbs_len s < n")
  case False
  then have "foldl (\<lambda>r i. push_bit 8 r OR ucast (cbs_data s ! i)) (0 :: u64) [0..<n]
      = foldl (\<lambda>r b. push_bit 8 r OR ucast b) 0 (take n (cbs_data s))"
    using assms(1) by (intro foldl_upt_nth) (simp add: cbs_ok_def)
  also have "take n (cbs_data s) = take n (cbs_bytes s)"
    using False assms(1) by (intro cbs_data_take) simp_all
  also have "foldl (\<lambda>r b. push_bit 8 r OR ucast b) (0 :: u64) (take n (cbs_bytes s))
      = word_of_nat (be_val (take n (cbs_bytes s)))"
  proof -
    have "unat (foldl (\<lambda>r b. push_bit 8 r OR ucast b) (0 :: u64) (take n (cbs_bytes s)))
        = be_val (take n (cbs_bytes s))"
      using assms(2) by (intro foldl_be_word) simp
    then show ?thesis by (rule unat_eq_word_of_nat)
  qed
  finally show ?thesis
    using False by (simp add: cbs_get_u_def op_bind_def cbs_get_eq)
qed (simp add: cbs_get_u_def op_bind_def cbs_get_eq)


section \<open>No read leaves the string, and reading only advances\<close>

text \<open>
  Two strings with the same bytes in bounds, in different memory.  An operation that treats
  them alike has not looked at anything but those bytes; \<open>R\<close> relates the results (equality
  for numbers, \<open>cbs_eq\<close> for sub-strings).
\<close>

definition cbs_eq :: "cbs \<Rightarrow> cbs \<Rightarrow> bool" where
  "cbs_eq s t \<longleftrightarrow> cbs_ok s \<and> cbs_ok t \<and> cbs_bytes s = cbs_bytes t"

definition in_bounds :: "('a \<Rightarrow> 'b \<Rightarrow> bool) \<Rightarrow> (cbs, 'a) op \<Rightarrow> (cbs, 'b) op \<Rightarrow> bool" where
  "in_bounds R f g \<longleftrightarrow>
    (\<forall>s t. cbs_eq s t \<longrightarrow> rel_option R (fst (f s)) (fst (g t)) \<and> cbs_eq (snd (f s)) (snd (g t)))"

definition consumes :: "(cbs, 'a) op \<Rightarrow> bool" where
  "consumes f \<longleftrightarrow> (\<forall>s. cbs_ok s \<longrightarrow> (\<exists>n\<le>cbs_len s. snd (f s) = cbs_adv n s))"

named_theorems in_bounds_intros \<open>operations that stay in bounds\<close>
named_theorems consumes_intros \<open>operations that only advance\<close>

lemma cbs_eq_len: "cbs_eq s t \<Longrightarrow> cbs_len s = cbs_len t"
  unfolding cbs_eq_def by (metis length_cbs_bytes)

lemma cbs_eq_ok: "cbs_eq s t \<Longrightarrow> cbs_ok s" "cbs_eq s t \<Longrightarrow> cbs_ok t"
  by (simp_all add: cbs_eq_def)

lemma cbs_eq_bytes: "cbs_eq s t \<Longrightarrow> cbs_bytes s = cbs_bytes t"
  by (simp add: cbs_eq_def)

lemma cbs_eq_adv: "cbs_eq s t \<Longrightarrow> n \<le> cbs_len s \<Longrightarrow> cbs_eq (cbs_adv n s) (cbs_adv n t)"
  using cbs_eq_len [of s t] by (simp add: cbs_eq_def)

lemma cbs_eq_init:
  assumes "cbs_eq s t" "n \<le> cbs_len s"
  shows "cbs_eq (CBS_init (cbs_data s) n) (CBS_init (cbs_data t) n)"
proof -
  have "take n (cbs_data s) = take n (cbs_data t)"
    using assms cbs_eq_len [OF assms(1)] by (simp add: cbs_data_take cbs_eq_def)
  then show ?thesis
    using assms cbs_eq_len [OF assms(1)] by (auto simp: cbs_eq_def cbs_ok_def CBS_init_def cbs_bytes_def)
qed

lemma in_boundsI:
  assumes "\<And>s t. cbs_eq s t \<Longrightarrow> rel_option R (fst (f s)) (fst (g t)) \<and> cbs_eq (snd (f s)) (snd (g t))"
  shows "in_bounds R f g"
  using assms by (simp add: in_bounds_def)

lemma in_boundsD:
  assumes "in_bounds R f g" "cbs_eq s t"
  shows "rel_option R (fst (f s)) (fst (g t))" "cbs_eq (snd (f s)) (snd (g t))"
  using assms by (simp_all add: in_bounds_def)

lemma in_bounds_ret [in_bounds_intros]: "R a b \<Longrightarrow> in_bounds R (op_ret a) (op_ret b)"
  by (simp add: in_bounds_def)

lemma in_bounds_fail [in_bounds_intros]: "in_bounds R op_fail op_fail"
  by (simp add: in_bounds_def)

lemma in_bounds_check [in_bounds_intros]: "b = c \<Longrightarrow> in_bounds (=) (op_check b) (op_check c)"
  by (simp add: in_bounds_def)

lemma in_bounds_bind [in_bounds_intros]:
  assumes "in_bounds Q m n" "\<And>a b. Q a b \<Longrightarrow> in_bounds R (f a) (g b)"
  shows "in_bounds R (op_bind m f) (op_bind n g)"
proof (rule in_boundsI)
  fix s t assume st: "cbs_eq s t"
  obtain x s' where m: "m s = (x, s')" by (cases "m s")
  obtain y t' where n: "n t = (y, t')" by (cases "n t")
  have xy: "rel_option Q x y" and s't': "cbs_eq s' t'"
    using in_boundsD [OF assms(1) st] by (simp_all add: m n)
  from xy show "rel_option R (fst (op_bind m f s)) (fst (op_bind n g t)) \<and>
      cbs_eq (snd (op_bind m f s)) (snd (op_bind n g t))"
    by cases (simp_all add: m n s't' in_boundsD [OF assms(2) s't'])
qed

lemma in_bounds_if [in_bounds_intros]:
  assumes "b = c" "in_bounds R f f'" "in_bounds R g g'"
  shows "in_bounds R (if b then f else g) (if c then f' else g')"
  using assms by simp

lemma consumesI: "(\<And>s. cbs_ok s \<Longrightarrow> \<exists>n\<le>cbs_len s. snd (f s) = cbs_adv n s) \<Longrightarrow> consumes f"
  by (simp add: consumes_def)

lemma consumesE:
  assumes "consumes f" "cbs_ok s" "f s = (r, s')"
  obtains n where "n \<le> cbs_len s" "s' = cbs_adv n s"
  using assms unfolding consumes_def by (metis snd_conv)

lemma consumes_ok: "consumes f \<Longrightarrow> cbs_ok s \<Longrightarrow> f s = (r, s') \<Longrightarrow> cbs_ok s'"
  by (auto elim!: consumesE)

lemma consumes_len: "consumes f \<Longrightarrow> cbs_ok s \<Longrightarrow> f s = (r, s') \<Longrightarrow> cbs_len s' \<le> cbs_len s"
  by (auto elim!: consumesE)

lemma consumes_adv:
  assumes "consumes f" "cbs_ok s" "f s = (r, t)" "cbs_bytes s = ds @ cbs_bytes t"
  shows "t = cbs_adv (length ds) s"
proof -
  obtain n where n: "n \<le> cbs_len s" "t = cbs_adv n s"
    using consumesE [OF assms(1,2,3)] .
  have "length (cbs_bytes s) = length ds + length (cbs_bytes t)"
    unfolding assms(4) by simp
  with n assms(2) have "n = length ds" by simp
  with n show ?thesis by simp
qed

lemma consumes_ret [consumes_intros]: "consumes (op_ret a)"
  by (auto simp: consumes_def intro: exI [of _ 0])

lemma consumes_fail [consumes_intros]: "consumes op_fail"
  by (auto simp: consumes_def intro: exI [of _ 0])

lemma consumes_check [consumes_intros]: "consumes (op_check b)"
  by (auto simp: consumes_def intro: exI [of _ 0])

lemma consumes_bind [consumes_intros]:
  assumes "consumes m" "\<And>a. consumes (f a)"
  shows "consumes (op_bind m f)"
proof (rule consumesI)
  fix s assume ok: "cbs_ok s"
  obtain x s' where m: "m s = (x, s')" by (cases "m s")
  then obtain n where n: "n \<le> cbs_len s" "s' = cbs_adv n s"
    using consumesE [OF assms(1) ok] by blast
  show "\<exists>n\<le>cbs_len s. snd (op_bind m f s) = cbs_adv n s"
  proof (cases x)
    case None
    with m n show ?thesis by auto
  next
    case (Some a)
    obtain y s'' where f: "f a s' = (y, s'')" by (cases "f a s'")
    have "cbs_ok s'" using ok n by simp
    then obtain k where "k \<le> cbs_len s'" "s'' = cbs_adv k s'"
      using consumesE [OF assms(2) _ f] by blast
    with m n Some f show ?thesis
      by (intro exI [of _ "n + k"]) simp
  qed
qed

lemma consumes_if [consumes_intros]:
  "consumes f \<Longrightarrow> consumes g \<Longrightarrow> consumes (if b then f else g)"
  by simp


lemma in_bounds_get_u8 [in_bounds_intros]: "in_bounds (=) CBS_get_u8 CBS_get_u8"
proof (rule in_boundsI)
  fix s t assume st: "cbs_eq s t"
  note len = cbs_eq_len [OF st]
  show "rel_option (=) (fst (CBS_get_u8 s)) (fst (CBS_get_u8 t)) \<and> cbs_eq (snd (CBS_get_u8 s)) (snd (CBS_get_u8 t))"
    using st cbs_eq_adv [OF st, of 1] len length_cbs_bytes [OF cbs_eq_ok(1) [OF st]]
    by (auto simp: CBS_get_u8_eq [OF cbs_eq_ok(1) [OF st]] CBS_get_u8_eq [OF cbs_eq_ok(2) [OF st]]
        cbs_eq_bytes [OF st] split: list.splits)
qed

lemma consumes_get_u8 [consumes_intros]: "consumes CBS_get_u8"
proof (rule consumesI)
  fix s assume ok: "cbs_ok s"
  show "\<exists>n\<le>cbs_len s. snd (CBS_get_u8 s) = cbs_adv n s"
    using length_cbs_bytes [OF ok]
    by (cases "cbs_bytes s") (auto simp: CBS_get_u8_eq [OF ok] intro: exI [of _ 0] exI [of _ 1])
qed

lemma in_bounds_get_u [in_bounds_intros]:
  assumes "n \<le> 8" shows "in_bounds (=) (cbs_get_u n) (cbs_get_u n)"
proof (rule in_boundsI)
  fix s t assume st: "cbs_eq s t"
  show "rel_option (=) (fst (cbs_get_u n s)) (fst (cbs_get_u n t)) \<and> cbs_eq (snd (cbs_get_u n s)) (snd (cbs_get_u n t))"
    using st cbs_eq_adv [OF st, of n]
    by (simp add: cbs_get_u_eq [OF cbs_eq_ok(1) [OF st] assms] cbs_get_u_eq [OF cbs_eq_ok(2) [OF st] assms]
        cbs_eq_bytes [OF st] cbs_eq_len [OF st])
qed

lemma consumes_get_u [consumes_intros]: "consumes (cbs_get_u n)"
  by (rule consumesI) (auto simp: cbs_get_u_def op_bind_def cbs_get_eq intro: exI [of _ 0] exI [of _ n])

lemma in_bounds_skip [in_bounds_intros]: "in_bounds (=) (CBS_skip n) (CBS_skip n)"
  by (rule in_boundsI) (auto simp: CBS_skip_eq cbs_eq_len intro: cbs_eq_adv)

lemma consumes_skip [consumes_intros]: "consumes (CBS_skip n)"
  by (rule consumesI) (auto simp: CBS_skip_eq intro: exI [of _ 0] exI [of _ n])

lemma in_bounds_get_bytes [in_bounds_intros]: "in_bounds cbs_eq (CBS_get_bytes n) (CBS_get_bytes n)"
  by (rule in_boundsI) (auto simp: CBS_get_bytes_eq cbs_eq_len intro: cbs_eq_adv cbs_eq_init)

lemma consumes_get_bytes [consumes_intros]: "consumes (CBS_get_bytes n)"
  by (rule consumesI) (auto simp: CBS_get_bytes_eq intro: exI [of _ 0] exI [of _ n])

lemma in_bounds_copy_bytes [in_bounds_intros]: "in_bounds (=) (CBS_copy_bytes n) (CBS_copy_bytes n)"
  by (rule in_boundsI)
    (auto simp: CBS_copy_bytes_def op_bind_def cbs_get_eq cbs_eq_len cbs_data_take cbs_eq_bytes
      cbs_eq_ok intro: cbs_eq_adv)

lemma consumes_copy_bytes [consumes_intros]: "consumes (CBS_copy_bytes n)"
  by (rule consumesI) (auto simp: CBS_copy_bytes_def op_bind_def cbs_get_eq intro: exI [of _ 0] exI [of _ n])

lemma in_bounds_get_last_u8 [in_bounds_intros]: "in_bounds (=) CBS_get_last_u8 CBS_get_last_u8"
proof (rule in_boundsI)
  fix s t assume st: "cbs_eq s t"
  have data: "cbs_data s ! (cbs_len s - 1) = cbs_data t ! (cbs_len t - 1)" if "cbs_len s \<noteq> 0"
    using st that cbs_eq_len [OF st]
      cbs_data_nth [of s "cbs_len s - 1"] cbs_data_nth [of t "cbs_len t - 1"]
    by (simp add: cbs_eq_def)
  have "take (cbs_len s - 1) (cbs_data s) = take (cbs_len t - 1) (cbs_data t)"
    using st cbs_eq_len [OF st] by (simp add: cbs_data_take cbs_eq_def)
  then have "cbs_eq (s\<lparr>cbs_len := cbs_len s - 1\<rparr>) (t\<lparr>cbs_len := cbs_len t - 1\<rparr>)"
    using st by (auto simp: cbs_eq_def cbs_ok_def cbs_bytes_def)
  with data show "rel_option (=) (fst (CBS_get_last_u8 s)) (fst (CBS_get_last_u8 t)) \<and>
      cbs_eq (snd (CBS_get_last_u8 s)) (snd (CBS_get_last_u8 t))"
    using st cbs_eq_len [OF st] by (simp add: CBS_get_last_u8_def)
qed

lemmas integer_read_defs = CBS_get_u16_def CBS_get_u16le_def CBS_get_u24_def CBS_get_u32_def
  CBS_get_u32le_def CBS_get_u64_def CBS_get_u64le_def

lemma in_bounds_map [in_bounds_intros]:
  "in_bounds (=) m n \<Longrightarrow> in_bounds (=) (op_bind m (\<lambda>v. op_ret (f v))) (op_bind n (\<lambda>v. op_ret (f v)))"
  by (erule in_bounds_bind) (auto intro: in_bounds_ret)

lemma in_bounds_integers [in_bounds_intros]:
  "in_bounds (=) CBS_get_u16 CBS_get_u16" "in_bounds (=) CBS_get_u16le CBS_get_u16le"
  "in_bounds (=) CBS_get_u24 CBS_get_u24" "in_bounds (=) CBS_get_u32 CBS_get_u32"
  "in_bounds (=) CBS_get_u32le CBS_get_u32le" "in_bounds (=) CBS_get_u64 CBS_get_u64"
  "in_bounds (=) CBS_get_u64le CBS_get_u64le"
  unfolding integer_read_defs by (simp_all add: in_bounds_map in_bounds_get_u)

lemma consumes_integers [consumes_intros]:
  "consumes CBS_get_u16" "consumes CBS_get_u16le" "consumes CBS_get_u24" "consumes CBS_get_u32"
  "consumes CBS_get_u32le" "consumes CBS_get_u64" "consumes CBS_get_u64le"
  unfolding integer_read_defs by - (intro consumes_intros)+

lemma in_bounds_length_prefixed [in_bounds_intros]:
  assumes "n \<le> 8" shows "in_bounds cbs_eq (cbs_get_length_prefixed n) (cbs_get_length_prefixed n)"
  unfolding cbs_get_length_prefixed_def
  by (rule in_bounds_bind [OF in_bounds_get_u [OF assms]]) (simp add: in_bounds_get_bytes)

lemma consumes_length_prefixed [consumes_intros]: "consumes (cbs_get_length_prefixed n)"
  unfolding cbs_get_length_prefixed_def by (intro consumes_intros)

lemmas length_prefixed_defs = CBS_get_u8_length_prefixed_def CBS_get_u16_length_prefixed_def
  CBS_get_u24_length_prefixed_def

lemma in_bounds_get_until_first [in_bounds_intros]:
  "in_bounds cbs_eq (CBS_get_until_first c) (CBS_get_until_first c)"
proof (rule in_boundsI)
  fix s t assume st: "cbs_eq s t"
  have mem: "OPENSSL_memchr (cbs_data r) c (cbs_len r) = memchr_index (cbs_bytes r) c (cbs_len r)" for r
  proof -
    have "memchr_index (take n xs) c n = memchr_index xs c n" for n xs
      by (induction xs c n rule: memchr_index.induct) auto
    then show ?thesis by (simp add: OPENSSL_memchr_def cbs_bytes_def)
  qed
  have "OPENSSL_memchr (cbs_data s) c (cbs_len s) = OPENSSL_memchr (cbs_data t) c (cbs_len t)"
    using mem [of s] mem [of t] cbs_eq_len [OF st] cbs_eq_bytes [OF st] by simp
  then show "rel_option cbs_eq (fst (CBS_get_until_first c s)) (fst (CBS_get_until_first c t)) \<and>
      cbs_eq (snd (CBS_get_until_first c s)) (snd (CBS_get_until_first c t))"
    using st in_boundsD [OF in_bounds_get_bytes st]
    by (simp add: CBS_get_until_first_def CBS_data_def split: option.split)
qed

lemma consumes_get_until_first [consumes_intros]: "consumes (CBS_get_until_first c)"
proof (rule consumesI)
  fix s assume "cbs_ok s"
  then show "\<exists>n\<le>cbs_len s. snd (CBS_get_until_first c s) = cbs_adv n s"
    using consumes_get_bytes
    by (auto simp: CBS_get_until_first_def consumes_def split: option.split intro: exI [of _ 0])
qed


section \<open>Decimal numbers\<close>

text \<open>The value of a string of decimal digits, on top of digits already read.\<close>

definition is_digit :: "u8 \<Rightarrow> bool" where
  "is_digit b \<longleftrightarrow> 48 \<le> unat b \<and> unat b \<le> 57"

fun dec_val :: "nat \<Rightarrow> u8 list \<Rightarrow> nat" where
  "dec_val a [] = a"
| "dec_val a (d # ds) = dec_val (a * 10 + (unat d - 48)) ds"

lemma OPENSSL_isdigit_uint [simp]: "OPENSSL_isdigit (uint (b :: u8)) \<longleftrightarrow> is_digit b"
proof -
  have "uint b = int (unat b)" by simp
  then show ?thesis unfolding OPENSSL_isdigit_def is_digit_def by linarith
qed

lemma dec_val_ge: "a * 10 ^ length ds \<le> dec_val a ds"
proof (induction ds arbitrary: a)
  case (Cons d ds)
  have "a * 10 ^ length (d # ds) \<le> (a * 10 + (unat d - 48)) * 10 ^ length ds"
    by (simp add: algebra_simps)
  also have "\<dots> \<le> dec_val (a * 10 + (unat d - 48)) ds" by (rule Cons.IH)
  finally show ?case by simp
qed simp

lemma u64_digit:
  assumes "is_digit c"
  shows "unat (ucast c - 48 :: u64) = unat c - 48"
  using assms by (subst unat_sub) (simp_all add: is_digit_def word_le_nat_alt)

lemma u64_digit_guard:
  assumes "is_digit c"
  shows "(v > (-1 :: u64) div 10 \<or> v * 10 > -1 - (ucast c - 48)) \<longleftrightarrow> 2 ^ 64 \<le> unat v * 10 + (unat c - 48)"
    and "unat v * 10 + (unat c - 48) < 2 ^ 64 \<Longrightarrow> unat (v * 10 + (ucast c - 48)) = unat v * 10 + (unat c - 48)"
proof -
  have c: "unat (ucast c - 48 :: u64) = unat c - 48"
    using assms by (rule u64_digit)
  have d9: "unat c - 48 \<le> 9" using assms unfolding is_digit_def by linarith
  have m: "unat ((-1 :: u64) div 10) = 1844674407370955161" by (simp add: unat_div)
  have sub: "unat (-1 - (ucast c - 48) :: u64) = 2 ^ 64 - 1 - (unat c - 48)"
  proof -
    have m1: "unat (-1 :: u64) = 2 ^ 64 - 1"
      by (simp add: unsigned_minus_1_eq_mask mask_eq_exp_minus_1)
    have "ucast c - 48 \<le> (-1 :: u64)" by simp
    then have "unat (-1 - (ucast c - 48) :: u64) = unat (-1 :: u64) - unat (ucast c - 48 :: u64)"
      by (rule unat_sub)
    then show ?thesis by (simp only: m1 c)
  qed
  show "(v > (-1 :: u64) div 10 \<or> v * 10 > -1 - (ucast c - 48)) \<longleftrightarrow> 2 ^ 64 \<le> unat v * 10 + (unat c - 48)"
  proof (cases "v > (-1 :: u64) div 10")
    case True
    then have "1844674407370955161 < unat v" by (simp only: word_less_nat_alt m)
    with True show ?thesis by simp
  next
    case False
    then have "unat v \<le> 1844674407370955161" by (simp only: word_less_nat_alt m not_less)
    then have "unat (v * 10) = unat v * 10" by (simp add: unat_word_ariths)
    then have "v * 10 > -1 - (ucast c - 48) \<longleftrightarrow> 2 ^ 64 - 1 - (unat c - 48) < unat v * 10"
      by (simp only: word_less_nat_alt sub)
    also have "\<dots> \<longleftrightarrow> 2 ^ 64 \<le> unat v * 10 + (unat c - 48)"
    proof -
      have "2 ^ 64 - 1 - k < x \<longleftrightarrow> 2 ^ 64 \<le> x + k" if "k \<le> 9" for x k :: nat
        using that by auto
      then show ?thesis using d9 by blast
    qed
    finally show ?thesis using False by blast
  qed
  show "unat v * 10 + (unat c - 48) < 2 ^ 64 \<Longrightarrow> unat (v * 10 + (ucast c - 48)) = unat v * 10 + (unat c - 48)"
    by (simp add: unat_word_ariths c)
qed

definition u64_decimal_result :: "u64 \<Rightarrow> bool \<Rightarrow> u8 list \<Rightarrow> u64 option" where
  "u64_decimal_result v seen ds =
    (if ds = [] then (if seen then Some v else None)
     else if v = 0 \<and> (seen \<or> hd ds = 48 \<and> length ds > 1) then None
     else if 2 ^ 64 \<le> dec_val (unat v) ds then None
     else Some (word_of_nat (dec_val (unat v) ds)))"

lemma u64_decimal_result_Cons:
  assumes "is_digit d"
  shows "u64_decimal_result v seen (d # ds) =
    (if (v = 0 \<and> seen) \<or> v > -1 div 10 \<or> v * 10 > -1 - (ucast d - 48) then None
     else u64_decimal_result (v * 10 + (ucast d - 48)) True ds)"
proof (cases "2 ^ 64 \<le> unat v * 10 + (unat d - 48)")
  case True
  have "unat v * 10 + (unat d - 48) \<le> (unat v * 10 + (unat d - 48)) * 10 ^ length ds" by simp
  also have "\<dots> \<le> dec_val (unat v) (d # ds)" using dec_val_ge by simp
  finally show ?thesis
    using True u64_digit_guard(1) [OF assms, of v] by (auto simp: u64_decimal_result_def)
next
  case False
  let ?w = "v * 10 + (ucast d - 48)"
  have w: "unat ?w = unat v * 10 + (unat d - 48)"
    using False u64_digit_guard(2) [OF assms, of v] by simp
  have w0: "?w = 0 \<longleftrightarrow> v = 0 \<and> d = 48"
  proof -
    have "?w = 0 \<longleftrightarrow> unat ?w = 0" by (simp add: unat_eq_0)
    also have "\<dots> \<longleftrightarrow> unat v = 0 \<and> unat d = 48"
      using assms unfolding w is_digit_def by auto
    finally show ?thesis by (simp add: unat_eq_0 word_unat_eq_iff [of d 48])
  qed
  have wd: "word_of_nat (unat d - 48) = (ucast d - 48 :: u64)"
    using unat_eq_word_of_nat [OF u64_digit [OF assms]] by simp
  show ?thesis
    using False u64_digit_guard(1) [OF assms, of v] w w0
    by (auto simp: u64_decimal_result_def wd neq_Nil_conv)
qed

lemma u64_decimal_loop_eq:
  assumes "cbs_ok s"
  shows "fst (u64_decimal_loop v seen s) = u64_decimal_result v seen (takeWhile is_digit (cbs_bytes s)) \<and>
    (fst (u64_decimal_loop v seen s) \<noteq> None \<longrightarrow>
      snd (u64_decimal_loop v seen s) = cbs_adv (length (takeWhile is_digit (cbs_bytes s))) s)"
  using assms
proof (induction v seen s rule: u64_decimal_loop.induct)
  case (1 v seen s)
  show ?case
  proof (cases "cbs_bytes s")
    case Nil
    then have "cbs_len s = 0" using length_cbs_bytes [OF "1.prems"] by simp
    then show ?thesis
      using Nil by (subst (1 2 3) u64_decimal_loop.simps) (simp add: u64_decimal_result_def)
  next
    case (Cons b bs)
    have len: "cbs_len s \<noteq> 0" using length_cbs_bytes [OF "1.prems"] Cons by auto
    have b: "CBS_data s ! 0 = b"
      using cbs_data_nth [OF "1.prems", of 0] Cons len by (simp add: CBS_data_def)
    have sk: "snd (CBS_skip 1 s) = cbs_adv 1 s" using len by (simp add: CBS_skip_eq)
    show ?thesis
    proof (cases "is_digit b")
      case False
      then show ?thesis
        using Cons b by (subst (1 2 3) u64_decimal_loop.simps) (simp add: u64_decimal_result_def)
    next
      case True
      show ?thesis
      proof (cases "(v = 0 \<and> seen) \<or> v > -1 div 10 \<or> v * 10 > -1 - (ucast b - 48)")
        case guard: True
        then have "u64_decimal_loop v seen s = (None, cbs_adv 1 s)"
          using len b True sk by (subst u64_decimal_loop.simps) (simp add: Let_def)
        then show ?thesis
          using Cons True guard by (simp add: u64_decimal_result_Cons)
      next
        case guard: False
        then have step: "u64_decimal_loop v seen s = u64_decimal_loop (v * 10 + (ucast b - 48)) True (cbs_adv 1 s)"
          using len b True sk by (subst u64_decimal_loop.simps) (auto simp: Let_def)
        have ok: "cbs_ok (cbs_adv 1 s)" using "1.prems" len by simp
        let ?w = "v * 10 + (ucast b - 48)" and ?t = "cbs_adv 1 s"
        have "fst (u64_decimal_loop ?w True ?t) = u64_decimal_result ?w True (takeWhile is_digit (cbs_bytes ?t)) \<and>
            (fst (u64_decimal_loop ?w True ?t) \<noteq> None \<longrightarrow>
              snd (u64_decimal_loop ?w True ?t) = cbs_adv (length (takeWhile is_digit (cbs_bytes ?t))) ?t)"
          by (rule "1.IH" [of b ?t]) (use len b True sk guard ok in simp_all)
        moreover have "u64_decimal_result v seen (b # takeWhile is_digit bs)
            = u64_decimal_result ?w True (takeWhile is_digit bs)"
          using guard by (simp only: u64_decimal_result_Cons [OF True] if_False)
        ultimately show ?thesis
          unfolding step using Cons True by simp
      qed
    qed
  qed
qed

lemma CBS_get_u64_decimal_result:
  assumes "cbs_ok s"
  shows "fst (CBS_get_u64_decimal s) = u64_decimal_result 0 False (takeWhile is_digit (cbs_bytes s))"
    "fst (CBS_get_u64_decimal s) \<noteq> None \<Longrightarrow>
      snd (CBS_get_u64_decimal s) = cbs_adv (length (takeWhile is_digit (cbs_bytes s))) s"
  using u64_decimal_loop_eq [OF assms, of 0 False] by (simp_all add: CBS_get_u64_decimal_def)

end
