(* ===== verification/Cbs_Asn1.thy ===== *)
theory Cbs_Asn1
  imports Cbs
begin

text \<open>
  The ASN.1 half of \<open>crypto/bytestring/cbs.c\<close>: tags, DER and BER element headers, integers,
  booleans, bit strings and optional elements.

  A tag is the 32-bit \<open>CBS_ASN1_TAG\<close>.  The outputs of the element parser are the fields of
  the record \<open>asn1_element\<close>; an output the C caller passes a null pointer for is ignored.
\<close>

section \<open>Tags and elements\<close>

abbreviation CBS_ASN1_TAG_SHIFT :: nat where "CBS_ASN1_TAG_SHIFT \<equiv> 24"
abbreviation CBS_ASN1_CONSTRUCTED :: u32 where "CBS_ASN1_CONSTRUCTED \<equiv> 0x20000000"
abbreviation CBS_ASN1_TAG_NUMBER_MASK :: u32 where "CBS_ASN1_TAG_NUMBER_MASK \<equiv> 0x1fffffff"
abbreviation CBS_ASN1_BOOLEAN :: u32 where "CBS_ASN1_BOOLEAN \<equiv> 0x1"
abbreviation CBS_ASN1_INTEGER :: u32 where "CBS_ASN1_INTEGER \<equiv> 0x2"
abbreviation CBS_ASN1_OCTETSTRING :: u32 where "CBS_ASN1_OCTETSTRING \<equiv> 0x4"
abbreviation CBS_ASN1_OBJECT :: u32 where "CBS_ASN1_OBJECT \<equiv> 0x6"

lemma CBS_get_u8_shortens: "CBS_get_u8 s = (Some b, s') \<Longrightarrow> cbs_len s' < cbs_len s"
  by (auto simp: CBS_get_u8_def cbs_get_def split: if_splits)

text \<open>The \<open>do\<close>-\<open>while\<close> loop of \<open>parse_base128_integer\<close> with its variable \<open>v\<close>.\<close>

function base128_loop :: "u64 \<Rightarrow> cbs \<Rightarrow> u64 option \<times> cbs" where
  "base128_loop v s =
    (case CBS_get_u8 s of
       (None, s) \<Rightarrow> (None, s)
     | (Some b, s) \<Rightarrow>
         if drop_bit (64 - 7) v \<noteq> 0 then (None, s)
         else if v = 0 \<and> b = 0x80 then (None, s)
         else
           let v = push_bit 7 v OR ucast (b AND 0x7f)
           in if b AND 0x80 \<noteq> 0 then base128_loop v s else (Some v, s))"
  by pat_completeness auto
termination
  by (relation "measure (\<lambda>(v, s). cbs_len s)") (auto dest!: CBS_get_u8_shortens [OF sym])

declare base128_loop.simps [simp del]

definition parse_base128_integer :: "(cbs, u64) op" where
  "parse_base128_integer = base128_loop 0"

definition parse_asn1_tag :: "(cbs, u32) op" where
  "parse_asn1_tag =
    op_bind CBS_get_u8 (\<lambda>tag_byte.
      let tag = push_bit CBS_ASN1_TAG_SHIFT (ucast tag_byte AND 0xe0);
          tag_number = ucast (tag_byte AND 0x1f)
      in op_bind
           (if tag_number = 0x1f
            then op_bind parse_base128_integer (\<lambda>v.
                   op_bind (op_check (\<not> (v > ucast CBS_ASN1_TAG_NUMBER_MASK \<or> v < 0x1f))) (\<lambda>_.
                     op_ret (ucast v)))
            else op_ret tag_number)
           (\<lambda>tag_number.
             let tag = tag OR tag_number
             in op_bind (op_check (tag AND NOT CBS_ASN1_CONSTRUCTED \<noteq> 0)) (\<lambda>_. op_ret tag)))"

record asn1_element =
  el_out :: cbs
  el_tag :: u32
  el_header_len :: nat
  el_ber_found :: bool
  el_indefinite :: bool

definition cbs_get_any_asn1_element :: "bool \<Rightarrow> (cbs, asn1_element) op" where
  "cbs_get_any_asn1_element ber_ok s =
    (case parse_asn1_tag s of
       (None, _) \<Rightarrow> (None, s)
     | (Some tag, header) \<Rightarrow>
    (case CBS_get_u8 header of
       (None, _) \<Rightarrow> (None, s)
     | (Some length_byte, header) \<Rightarrow>
       let header_len = CBS_len s - CBS_len header;
           finish = (\<lambda>len hdr ber indef. op_bind (CBS_get_bytes len) (\<lambda>out.
             op_ret \<lparr>el_out = out, el_tag = tag, el_header_len = hdr, el_ber_found = ber,
                     el_indefinite = indef\<rparr>) s)
       in if length_byte AND 0x80 = 0
          then finish (sz_add (unat length_byte) header_len) header_len False False
          else
            let num_bytes = unat (length_byte AND 0x7f)
            in if ber_ok \<and> tag AND CBS_ASN1_CONSTRUCTED \<noteq> 0 \<and> num_bytes = 0
               then finish header_len header_len True True
               else if num_bytes = 0 \<or> num_bytes > 4 then (None, s)
               else (case cbs_get_u num_bytes header of
                       (None, _) \<Rightarrow> (None, s)
                     | (Some len64, header) \<Rightarrow>
                         if len64 < 128 \<and> \<not> ber_ok then (None, s)
                         else if drop_bit ((num_bytes - 1) * 8) len64 = 0 \<and> \<not> ber_ok then (None, s)
                         else
                           let ber = (len64 < 128 \<or> drop_bit ((num_bytes - 1) * 8) len64 = 0);
                               len = unat len64
                           in if sz_add (sz_add len header_len) num_bytes < len then (None, s)
                              else finish (sz_add len (sz_add header_len num_bytes))
                                     (sz_add header_len num_bytes) ber False)))"

definition CBS_get_any_asn1_element :: "(cbs, asn1_element) op" where
  "CBS_get_any_asn1_element = cbs_get_any_asn1_element False"

definition CBS_get_any_ber_asn1_element :: "(cbs, asn1_element) op" where
  "CBS_get_any_ber_asn1_element = cbs_get_any_asn1_element True"

text \<open>Skipping the header of the element just read acts on the string \<open>out\<close>.\<close>

definition skip_header :: "asn1_element \<Rightarrow> (cbs, cbs) op" where
  "skip_header el s =
    (case CBS_skip (el_header_len el) (el_out el) of
       (None, _) \<Rightarrow> (None, s) | (Some _, out) \<Rightarrow> (Some out, s))"

definition CBS_get_any_asn1 :: "(cbs, cbs \<times> u32) op" where
  "CBS_get_any_asn1 =
    op_bind CBS_get_any_asn1_element (\<lambda>el.
      op_bind (skip_header el) (\<lambda>out. op_ret (out, el_tag el)))"

definition cbs_get_asn1 :: "u32 \<Rightarrow> bool \<Rightarrow> (cbs, cbs) op" where
  "cbs_get_asn1 tag_value do_skip_header =
    op_bind CBS_get_any_asn1_element (\<lambda>el.
      op_bind (op_check (el_tag el = tag_value)) (\<lambda>_.
        if do_skip_header then skip_header el else op_ret (el_out el)))"

definition CBS_get_asn1 :: "u32 \<Rightarrow> (cbs, cbs) op" where
  "CBS_get_asn1 tag_value = cbs_get_asn1 tag_value True"

definition CBS_get_asn1_element :: "u32 \<Rightarrow> (cbs, cbs) op" where
  "CBS_get_asn1_element tag_value = cbs_get_asn1 tag_value False"

definition CBS_peek_asn1_tag :: "cbs \<Rightarrow> u32 \<Rightarrow> bool" where
  "CBS_peek_asn1_tag s tag_value =
    (case parse_asn1_tag s of (None, _) \<Rightarrow> False | (Some actual_tag, _) \<Rightarrow> tag_value = actual_tag)"

section \<open>Integers, booleans and bit strings\<close>

definition CBS_is_valid_asn1_integer :: "cbs \<Rightarrow> bool option" where
  \<comment> \<open>\<open>Some is_negative\<close> for a valid integer\<close>
  "CBS_is_valid_asn1_integer s =
    (case CBS_get_u8 s of
       (None, _) \<Rightarrow> None
     | (Some first_byte, copy) \<Rightarrow>
         let is_negative = (first_byte AND 0x80 \<noteq> 0)
         in case CBS_get_u8 copy of
              (None, _) \<Rightarrow> Some is_negative
            | (Some second_byte, _) \<Rightarrow>
                if (first_byte = 0 \<and> second_byte AND 0x80 = 0) \<or>
                   (first_byte = 0xff \<and> second_byte AND 0x80 \<noteq> 0)
                then None else Some is_negative)"

definition CBS_is_unsigned_asn1_integer :: "cbs \<Rightarrow> bool" where
  "CBS_is_unsigned_asn1_integer s = (CBS_is_valid_asn1_integer s = Some False)"

text \<open>The accumulating loop of \<open>CBS_get_asn1_uint64\<close>.\<close>

fun asn1_uint64_loop :: "u64 \<Rightarrow> u8 list \<Rightarrow> u64 option" where
  "asn1_uint64_loop out [] = Some out"
| "asn1_uint64_loop out (d # data) =
    (if drop_bit 56 out \<noteq> 0 then None
     else asn1_uint64_loop (push_bit 8 out OR ucast d) data)"

definition CBS_get_asn1_uint64 :: "(cbs, u64) op" where
  "CBS_get_asn1_uint64 =
    op_bind (CBS_get_asn1 CBS_ASN1_INTEGER) (\<lambda>bytes.
      op_bind (op_check (CBS_is_unsigned_asn1_integer bytes)) (\<lambda>_ s.
        (asn1_uint64_loop 0 (take (CBS_len bytes) (CBS_data bytes)), s)))"

text \<open>Eight bytes of memory as a little-endian 64-bit integer (the \<open>memcpy\<close> of an integer
  on the little-endian target).\<close>

fun le_u64 :: "u8 list \<Rightarrow> u64" where
  "le_u64 [] = 0"
| "le_u64 (b # bs) = ucast b OR push_bit 8 (le_u64 bs)"

definition CBS_get_asn1_int64 :: "(cbs, u64) op" where
  \<comment> \<open>the \<open>int64_t\<close> as its 64-bit pattern\<close>
  "CBS_get_asn1_int64 =
    op_bind (CBS_get_asn1 CBS_ASN1_INTEGER) (\<lambda>bytes s.
      case CBS_is_valid_asn1_integer bytes of
        None \<Rightarrow> (None, s)
      | Some is_negative \<Rightarrow>
          let data = CBS_data bytes; len = CBS_len bytes
          in if len > 8 then (None, s)
             else
               let sign_extend = replicate 8 (if is_negative then 0xff else 0);
                   sign_extend = foldl (\<lambda>se i. se[i := data ! (len - i - 1)]) sign_extend [0..<len]
               in (Some (le_u64 sign_extend), s))"

definition CBS_get_asn1_bool :: "(cbs, bool) op" where
  "CBS_get_asn1_bool =
    op_bind (CBS_get_asn1 CBS_ASN1_BOOLEAN) (\<lambda>bytes.
      op_bind (op_check (CBS_len bytes = 1)) (\<lambda>_.
        let value = CBS_data bytes ! 0
        in op_bind (op_check (\<not> (value \<noteq> 0 \<and> value \<noteq> 0xff))) (\<lambda>_. op_ret (value \<noteq> 0))))"

definition CBS_get_optional_asn1 :: "u32 \<Rightarrow> (cbs, cbs option) op" where
  \<comment> \<open>\<open>Some out\<close> when \<open>present\<close>\<close>
  "CBS_get_optional_asn1 tag s =
    (if CBS_peek_asn1_tag s tag
     then op_bind (CBS_get_asn1 tag) (\<lambda>out. op_ret (Some out)) s
     else (Some None, s))"

text \<open>\<open>in_child f child\<close> runs \<open>f\<close> on a local string, and requires it to be used up.\<close>

definition in_child :: "(cbs, 'a) op \<Rightarrow> cbs \<Rightarrow> (cbs, 'a) op" where
  "in_child f child s =
    (case f child of
       (None, _) \<Rightarrow> (None, s)
     | (Some a, child) \<Rightarrow> if CBS_len child \<noteq> 0 then (None, s) else (Some a, s))"

definition CBS_get_optional_asn1_octet_string :: "u32 \<Rightarrow> (cbs, cbs option) op" where
  \<comment> \<open>\<open>None\<close>: \<open>out\<close> is the empty string and \<open>present\<close> is zero\<close>
  "CBS_get_optional_asn1_octet_string tag =
    op_bind (CBS_get_optional_asn1 tag) (\<lambda>present.
      case present of
        Some child \<Rightarrow>
          op_bind (in_child (CBS_get_asn1 CBS_ASN1_OCTETSTRING) child) (\<lambda>out. op_ret (Some out))
      | None \<Rightarrow> op_ret None)"

definition CBS_get_optional_asn1_uint64 :: "u32 \<Rightarrow> u64 \<Rightarrow> (cbs, u64) op" where
  "CBS_get_optional_asn1_uint64 tag default_value =
    op_bind (CBS_get_optional_asn1 tag) (\<lambda>present.
      case present of
        Some child \<Rightarrow> in_child CBS_get_asn1_uint64 child
      | None \<Rightarrow> op_ret default_value)"

definition CBS_get_optional_asn1_bool :: "u32 \<Rightarrow> int \<Rightarrow> (cbs, int) op" where
  "CBS_get_optional_asn1_bool tag default_value =
    op_bind (CBS_get_optional_asn1 tag) (\<lambda>present.
      case present of
        Some child \<Rightarrow> (\<lambda>s.
          case CBS_get_asn1 CBS_ASN1_BOOLEAN child of
            (None, _) \<Rightarrow> (None, s)
          | (Some child2, child) \<Rightarrow>
              if CBS_len child2 \<noteq> 1 \<or> CBS_len child \<noteq> 0 then (None, s)
              else
                let boolean = CBS_data child2 ! 0
                in if boolean = 0 then (Some 0, s)
                   else if boolean = 0xff then (Some 1, s) else (None, s))
      | None \<Rightarrow> op_ret default_value)"

definition CBS_is_valid_asn1_bitstring :: "cbs \<Rightarrow> bool" where
  "CBS_is_valid_asn1_bitstring s =
    (case CBS_get_u8 s of
       (None, _) \<Rightarrow> False
     | (Some num_unused_bits, inn) \<Rightarrow>
         if num_unused_bits > 7 then False
         else if num_unused_bits = 0 then True
         else case CBS_get_last_u8 inn of
                (None, _) \<Rightarrow> False
              | (Some last_byte, _) \<Rightarrow>
                  if last_byte AND (push_bit (unat num_unused_bits) 1 - 1) \<noteq> 0 then False else True)"

definition CBS_asn1_bitstring_has_bit :: "cbs \<Rightarrow> u32 \<Rightarrow> bool" where
  "CBS_asn1_bitstring_has_bit s bit_no =
    (if \<not> CBS_is_valid_asn1_bitstring s then False
     else
       let byte_num = unat (drop_bit 3 bit_no + 1); bit_num = unat (7 - (bit_no AND 7))
       in byte_num < CBS_len s \<and> CBS_data s ! byte_num AND push_bit bit_num 1 \<noteq> 0)"

end
