(* ===== verification/Der.thy ===== *)
theory Der
  imports Cbs_Asn1
begin

text \<open>
  The Distinguished Encoding Rules as a grammar of byte strings, written without reference to
  the code, and the proof that the element parser of \<open>crypto/bytestring/cbs.c\<close> accepts exactly
  the strings of that grammar.

  \<open>b128 v\<close> is the shortest base-128 form of a number, \<open>tag_bytes tag\<close> the identifier octets of a
  tag, \<open>len_bytes n\<close> the shortest length octets, and \<open>der_element tag content\<close> a whole element.
  The writer in \<open>Cbb\<close> is proved to produce the same strings.
\<close>

section \<open>Base-128 integers\<close>

function b128_hi :: "nat \<Rightarrow> u8 list" where
  "b128_hi v = (if v = 0 then [] else b128_hi (v div 128) @ [word_of_nat (128 + v mod 128)])"
  by pat_completeness auto
termination by (relation "measure id") auto

declare b128_hi.simps [simp del]

definition b128 :: "nat \<Rightarrow> u8 list" where
  "b128 v = b128_hi (v div 128) @ [word_of_nat (v mod 128)]"

fun b128_dec :: "nat \<Rightarrow> u8 list \<Rightarrow> (nat \<times> u8 list) option" where
  "b128_dec a [] = None"
| "b128_dec a (b # bs) =
    (if 2 ^ 57 \<le> a \<or> a = 0 \<and> unat b = 128 then None
     else if 128 \<le> unat b then b128_dec (a * 128 + unat b mod 128) bs
     else Some (a * 128 + unat b mod 128, bs))"

lemma b128_hi_0 [simp]: "b128_hi 0 = []"
  by (simp add: b128_hi.simps)

lemma b128_hi_snoc:
  assumes "128 \<le> unat b" "\<not> (a = 0 \<and> unat b = 128)"
  shows "b128_hi (a * 128 + unat b mod 128) = b128_hi a @ [b]"
proof -
  let ?k = "unat b - 128"
  have k: "unat b = 128 + ?k" "?k < 128"
    using u8_lt [of b] assms(1) by linarith+
  then have m: "unat b mod 128 = ?k"
    by (metis add.commute mod_add_self2 mod_less)
  have nz: "a * 128 + ?k \<noteq> 0" using assms k by auto
  have split: "(a * 128 + n) div 128 = a \<and> (a * 128 + n) mod 128 = n" if "n < 128" for n :: nat
    using that by simp
  have "(a * 128 + ?k) div 128 = a" "(a * 128 + ?k) mod 128 = ?k"
    using split [OF k(2)] by blast+
  moreover have "(word_of_nat (128 + ?k) :: u8) = b"
    using k(1) unat_eq_word_of_nat [of b "128 + ?k"] by simp
  ultimately show ?thesis
    unfolding m using nz by (subst b128_hi.simps) (simp only: if_False)
qed

lemma b128_dec_sound:
  "b128_dec a bs = Some (r, rest) \<Longrightarrow> a < 2 ^ 57 \<and> r < 2 ^ 64 \<and> (\<exists>ds. bs = ds @ rest \<and> b128 r = b128_hi a @ ds)"
proof (induction a bs rule: b128_dec.induct)
  case (2 a b bs)
  have a: "a < 2 ^ 57" and ok: "\<not> (a = 0 \<and> unat b = 128)"
    using "2.prems" by (auto split: if_splits)
  show ?case
  proof (cases "128 \<le> unat b")
    case True
    then have "b128_dec (a * 128 + unat b mod 128) bs = Some (r, rest)"
      using "2.prems" a ok by (simp split: if_splits)
    then have "r < 2 ^ 64 \<and> (\<exists>ds. bs = ds @ rest \<and> b128 r = b128_hi (a * 128 + unat b mod 128) @ ds)"
      using "2.IH" a ok True by auto
    then show ?thesis
      using a b128_hi_snoc [OF True ok] by (auto intro: exI [of _ "b # ds" for ds])
  next
    case False
    then have r: "r = a * 128 + unat b" and rest: "rest = bs"
      using "2.prems" a ok by (auto split: if_splits)
    have "b128 r = b128_hi a @ [b]"
      using False unfolding b128_def r by (simp add: div_add1_eq)
    moreover have "r < 2 ^ 64"
      using a False unfolding r by simp
    ultimately show ?thesis using a rest by auto
  qed
qed simp

lemma b128_dec_hi: "v < 2 ^ 57 \<Longrightarrow> b128_dec 0 (b128_hi v @ bs) = b128_dec v bs"
proof (induction v arbitrary: bs rule: b128_hi.induct)
  case (1 v)
  show ?case
  proof (cases "v = 0")
    case False
    define b where "b = (word_of_nat (128 + v mod 128) :: u8)"
    have lt: "v mod 128 < 128" by simp
    then have "(128 + v mod 128) mod 256 = 128 + v mod 128" by simp
    then have b: "unat b = 128 + v mod 128"
      unfolding b_def by (simp only: unat_u8_of_nat)
    have m: "v div 128 * 128 + (128 + v mod 128) mod 128 = v" by simp
    have "b128_dec 0 (b128_hi v @ bs) = b128_dec 0 (b128_hi (v div 128) @ b # bs)"
      using False unfolding b_def by (subst b128_hi.simps) simp
    also have "\<dots> = b128_dec (v div 128) (b # bs)"
      by (rule "1.IH" [OF False]) (use "1.prems" in linarith)
    also have "\<dots> = b128_dec v bs"
    proof -
      have "\<not> (2 ^ 57 \<le> v div 128 \<or> v div 128 = 0 \<and> 128 + v mod 128 = 128)"
        using False "1.prems" div_mult_mod_eq [of v 128] by (auto simp: not_le)
      then show ?thesis by (simp only: b128_dec.simps b m if_False) simp
    qed
    finally show ?thesis .
  qed simp
qed

lemma b128_dec_complete: "v < 2 ^ 64 \<Longrightarrow> b128_dec 0 (b128 v @ rest) = Some (v, rest)"
proof -
  assume v: "v < 2 ^ 64"
  define b where "b = (word_of_nat (v mod 128) :: u8)"
  have lt: "v mod 128 < 128" by simp
  then have "(v mod 128) mod 256 = v mod 128" by simp
  then have b: "unat b = v mod 128" unfolding b_def by (simp only: unat_u8_of_nat)
  have v57: "v div 128 < 2 ^ 57" using v by (simp add: div_less_iff_less_mult)
  then have "b128_dec 0 (b128 v @ rest) = b128_dec (v div 128) (b # rest)"
    by (simp add: b128_def b128_dec_hi b_def)
  also have "\<dots> = Some (v, rest)"
  proof -
    have "\<not> (2 ^ 57 \<le> v div 128 \<or> v div 128 = 0 \<and> v mod 128 = 128)" "\<not> 128 \<le> v mod 128"
      using v57 lt by linarith+
    then show ?thesis by (simp only: b128_dec.simps b if_False) simp
  qed
  finally show ?thesis .
qed

lemma b128_dec_iff: "b128_dec 0 bs = Some (v, rest) \<longleftrightarrow> v < 2 ^ 64 \<and> bs = b128 v @ rest"
  using b128_dec_complete b128_dec_sound [of 0 bs v rest] by auto

lemma u64_shift_or_7:
  assumes "unat v < 2 ^ 57"
  shows "unat (push_bit 7 (v :: u64) OR ucast (b AND 0x7f :: u8)) = unat v * 128 + unat b mod 128"
proof -
  have b: "b AND 0x7f = take_bit 7 b" by (simp add: take_bit_eq_mask mask_eq_exp_minus_1)
  have "push_bit 7 v AND ucast (take_bit 7 b) = 0"
    by (rule bit_word_eqI) (auto simp: bit_simps)
  moreover have "unat (push_bit 7 v) = unat v * 128"
    using assms by (simp add: push_bit_eq_mult unat_word_ariths)
  moreover have "unat (ucast (take_bit 7 b) :: u64) = unat b mod 128"
    by (simp only: unat_ucast_u8 unsigned_take_bit_eq) (simp add: take_bit_eq_mod)
  ultimately show ?thesis by (simp add: unat_or_disjoint b)
qed

lemma base128_loop_eq:
  assumes "cbs_ok s"
  shows "fst (base128_loop v s) = map_option (\<lambda>(r, rest). word_of_nat r) (b128_dec (unat v) (cbs_bytes s))
    \<and> (\<forall>r rest. b128_dec (unat v) (cbs_bytes s) = Some (r, rest) \<longrightarrow>
        cbs_bytes (snd (base128_loop v s)) = rest)"
  using assms
proof (induction v s rule: base128_loop.induct)
  case (1 v s)
  show ?case
  proof (cases "cbs_bytes s")
    case Nil
    then show ?thesis
      using "1.prems" by (subst (1 2) base128_loop.simps) (simp add: CBS_get_u8_eq)
  next
    case (Cons b bs)
    have len: "cbs_len s \<noteq> 0" using length_cbs_bytes [OF "1.prems"] Cons by auto
    have get: "CBS_get_u8 s = (Some b, cbs_adv 1 s)"
      using Cons "1.prems" by (simp add: CBS_get_u8_eq)
    have big: "drop_bit (64 - 7) v \<noteq> 0 \<longleftrightarrow> 2 ^ 57 \<le> unat v"
      by (simp add: drop_bit_eq_0 not_less)
    have b80: "b = 0x80 \<longleftrightarrow> unat b = 128" by (simp add: word_unat_eq_iff)
    show ?thesis
    proof (cases "2 ^ 57 \<le> unat v \<or> unat v = 0 \<and> unat b = 128")
      case True
      then have "drop_bit (64 - 7) v \<noteq> 0 \<or> v = 0 \<and> b = 0x80"
        using big b80 unat_eq_0 [of v] by blast
      then have "base128_loop v s = (None, cbs_adv 1 s)"
        using get by (subst base128_loop.simps) auto
      then show ?thesis using Cons True by auto
    next
      case False
      then have g: "\<not> drop_bit (64 - 7) v \<noteq> 0" "\<not> (v = 0 \<and> b = 0x80)"
        using big b80 unat_eq_0 [of v] by blast+
      let ?w = "push_bit 7 v OR ucast (b AND 0x7f)"
      have w: "unat ?w = unat v * 128 + unat b mod 128"
        using False by (intro u64_shift_or_7) simp
      have dec: "b128_dec (unat v) (cbs_bytes s) =
          (if 128 \<le> unat b then b128_dec (unat ?w) bs else Some (unat ?w, bs))"
        using False unfolding w by (simp only: Cons b128_dec.simps if_False)
      have loop: "base128_loop v s =
          (if 128 \<le> unat b then base128_loop ?w (cbs_adv 1 s) else (Some ?w, cbs_adv 1 s))"
        using g get by (subst base128_loop.simps) (simp only: u8_msb option.case prod.case if_False Let_def)
      show ?thesis
      proof (cases "128 \<le> unat b")
        case cont: True
        have ok: "cbs_ok (cbs_adv 1 s)" using "1.prems" len by simp
        have bs: "cbs_bytes (cbs_adv 1 s) = bs" by (simp add: Cons)
        show ?thesis
          using "1.IH" [OF get [symmetric] refl g refl] ok cont
          unfolding loop dec bs by (simp only: u8_msb if_True simp_thms True_implies_equals) blast
      next
        case last: False
        then show ?thesis unfolding loop dec by (simp add: Cons)
      qed
    qed
  qed
qed


lemma consumes_base128 [consumes_intros]: "consumes (base128_loop v)"
proof (rule consumesI)
  fix s assume "cbs_ok s"
  then show "\<exists>n\<le>cbs_len s. snd (base128_loop v s) = cbs_adv n s"
  proof (induction v s rule: base128_loop.induct)
    case (1 v s)
    obtain x t where get: "CBS_get_u8 s = (x, t)" by (cases "CBS_get_u8 s")
    obtain n where n: "n \<le> cbs_len s" "t = cbs_adv n s"
      using consumesE [OF consumes_get_u8 "1.prems" get] .
    show ?case
    proof (cases x)
      case None
      then show ?thesis using get n by (subst base128_loop.simps) auto
    next
      case (Some b)
      let ?w = "push_bit 7 v OR ucast (b AND 0x7f)"
      have loop: "base128_loop v s =
          (if drop_bit (64 - 7) v \<noteq> 0 \<or> v = 0 \<and> b = 0x80 then (None, t)
           else if b AND 0x80 \<noteq> 0 then base128_loop ?w t else (Some ?w, t))"
        using get Some by (subst base128_loop.simps) (simp only: option.case prod.case Let_def split: if_splits, blast)
      show ?thesis
      proof (cases "\<not> drop_bit (64 - 7) v \<noteq> 0 \<and> \<not> (v = 0 \<and> b = 0x80) \<and> b AND 0x80 \<noteq> 0")
        case True
        then obtain k where "k \<le> cbs_len t" "snd (base128_loop ?w t) = cbs_adv k t"
          using "1.IH" [OF get [symmetric] Some _ _ refl] n "1.prems" by auto
        then show ?thesis using True n unfolding loop by (auto intro: exI [of _ "n + k"])
      next
        case False
        then show ?thesis using n unfolding loop by auto
      qed
    qed
  qed
qed

lemma consumes_parse_base128 [consumes_intros]: "consumes parse_base128_integer"
  unfolding parse_base128_integer_def by (rule consumes_base128)

lemma parse_base128_iff:
  assumes "cbs_ok s"
  shows "parse_base128_integer s = (Some w, t) \<longleftrightarrow>
    cbs_bytes s = b128 (unat w) @ cbs_bytes t \<and> t = cbs_adv (length (b128 (unat w))) s"
proof
  assume p: "parse_base128_integer s = (Some w, t)"
  then have "base128_loop 0 s = (Some w, t)" by (simp add: parse_base128_integer_def)
  then have m: "map_option (\<lambda>(r, rest). word_of_nat r) (b128_dec 0 (cbs_bytes s)) = Some w"
    and rest: "\<And>r rest. b128_dec 0 (cbs_bytes s) = Some (r, rest) \<Longrightarrow> rest = cbs_bytes t"
    using base128_loop_eq [OF assms, of 0] by simp_all
  from m obtain r rest' where dec: "b128_dec 0 (cbs_bytes s) = Some (r, rest')" "w = word_of_nat r"
    by (auto simp: map_option_eq_Some)
  with rest have r: "b128_dec 0 (cbs_bytes s) = Some (r, cbs_bytes t)" "w = word_of_nat r" by simp_all
  then have "r < 2 ^ 64" "cbs_bytes s = b128 r @ cbs_bytes t"
    by (simp_all only: b128_dec_iff)
  moreover have "unat w = r" using \<open>r < 2 ^ 64\<close> r(2) by (simp add: unat_of_nat)
  ultimately have "cbs_bytes s = b128 (unat w) @ cbs_bytes t" by simp
  then show "cbs_bytes s = b128 (unat w) @ cbs_bytes t \<and> t = cbs_adv (length (b128 (unat w))) s"
    using consumes_adv [OF consumes_parse_base128 assms p] by blast
next
  assume b: "cbs_bytes s = b128 (unat w) @ cbs_bytes t \<and> t = cbs_adv (length (b128 (unat w))) s"
  have "unat w < 2 ^ 64" using unsigned_less [of w] by simp
  then have "b128_dec 0 (cbs_bytes s) = Some (unat w, cbs_bytes t)"
    using b by (simp only: b128_dec_iff simp_thms)
  then have "fst (base128_loop 0 s) = Some w \<and> cbs_bytes (snd (base128_loop 0 s)) = cbs_bytes t"
    using base128_loop_eq [OF assms, of 0] by auto
  then obtain t' where p: "parse_base128_integer s = (Some w, t')" "cbs_bytes t' = cbs_bytes t"
    by (cases "base128_loop 0 s") (auto simp: parse_base128_integer_def)
  have "cbs_bytes s = b128 (unat w) @ cbs_bytes t'" unfolding p(2) by (rule b [THEN conjunct1])
  then have "t' = t"
    using consumes_adv [OF consumes_parse_base128 assms p(1)] b by blast
  with p(1) show "parse_base128_integer s = (Some w, t)" by simp
qed

section \<open>Tags\<close>

definition tag_bytes :: "u32 \<Rightarrow> u8 list" where
  "tag_bytes tag =
    (let bits = ucast (drop_bit CBS_ASN1_TAG_SHIFT tag) AND 0xe0; num = tag AND CBS_ASN1_TAG_NUMBER_MASK
     in if num \<ge> 0x1f then (bits OR 0x1f) # b128 (unat num) else [bits OR ucast num])"

lemma masks:
  "(0xe0 :: u8) = push_bit 5 (mask 3)" "(0x1f :: u8) = mask 5"
  "(0xe0 :: u32) = push_bit 5 (mask 3)" "(0x1fffffff :: u32) = mask 29" "(0x1f :: u32) = mask 5"
  by (simp_all add: mask_eq_exp_minus_1 push_bit_eq_mult)

lemma tag_join:
  fixes b :: u8 and n :: u32
  assumes "n AND CBS_ASN1_TAG_NUMBER_MASK = n"
  defines "tag \<equiv> push_bit CBS_ASN1_TAG_SHIFT (ucast b AND 0xe0) OR n"
  shows "ucast (drop_bit CBS_ASN1_TAG_SHIFT tag) AND (0xe0 :: u8) = b AND 0xe0"
    "tag AND CBS_ASN1_TAG_NUMBER_MASK = n"
proof -
  have n: "bit n i \<Longrightarrow> i < 29" for i
    using assms(1) unfolding masks by (metis bit_and_iff bit_mask_iff)
  show "ucast (drop_bit CBS_ASN1_TAG_SHIFT tag) AND (0xe0 :: u8) = b AND 0xe0"
    unfolding tag_def masks by (rule bit_word_eqI) (auto simp: bit_simps dest: n)
  show "tag AND CBS_ASN1_TAG_NUMBER_MASK = n"
    unfolding tag_def masks by (rule bit_word_eqI) (auto simp: bit_simps dest: n)
qed

lemma tag_split:
  fixes tag :: u32
  assumes "m AND 0x1f = m"
  shows "push_bit CBS_ASN1_TAG_SHIFT (ucast (ucast (drop_bit CBS_ASN1_TAG_SHIFT tag) AND (0xe0 :: u8) OR m) AND 0xe0)
      OR (tag AND CBS_ASN1_TAG_NUMBER_MASK) = tag"
proof -
  have m: "bit m i \<Longrightarrow> i < 5" for i
    using assms unfolding masks by (metis bit_and_iff bit_mask_iff)
  show ?thesis unfolding masks
  by (rule bit_word_eqI) (auto simp: bit_simps dest: m)
qed


lemma tag_number_ok: "(n :: u32) AND CBS_ASN1_TAG_NUMBER_MASK = n \<longleftrightarrow> unat n < 2 ^ 29"
proof -
  have "n AND CBS_ASN1_TAG_NUMBER_MASK = take_bit 29 n"
    unfolding masks by (simp only: take_bit_eq_mask)
  moreover have "take_bit 29 n = n \<longleftrightarrow> unat (take_bit 29 n) = unat n"
    by (simp only: word_unat_eq_iff)
  moreover have "unat (take_bit 29 n) = unat n mod 2 ^ 29"
    by (simp only: unsigned_take_bit_eq) (simp add: take_bit_eq_mod)
  ultimately show ?thesis by (simp add: mod_eq_self_iff_div_eq_0 div_eq_0_iff)
qed

lemma tag_byte_join: "(b AND 0xe0) OR (b AND 0x1f) = (b :: u8)"
proof (rule bit_word_eqI)
  fix i assume "i < LENGTH(8)"
  then show "bit (b AND 0xe0 OR b AND 0x1f) i = bit b i"
    unfolding masks by (auto simp: bit_simps)
qed

lemma tag_byte_split:
  assumes "(m :: u8) AND 0x1f = m"
  shows "(x AND 0xe0 OR m) AND 0x1f = m" "(x AND 0xe0 OR m) AND 0xe0 = x AND 0xe0"
proof -
  have m: "bit m i \<Longrightarrow> i < 5" for i
    using assms unfolding masks by (metis bit_and_iff bit_mask_iff)
  show "(x AND 0xe0 OR m) AND 0x1f = m" "(x AND 0xe0 OR m) AND 0xe0 = x AND 0xe0"
    unfolding masks by (rule bit_word_eqI, auto simp: bit_simps dest: m)+
qed

text \<open>The tag octets read: what the first byte and the tag number make of them.\<close>

lemma tag_bytes_of_parts:
  fixes b :: u8 and n :: u32
  assumes "unat n < 2 ^ 29"
  defines "tag \<equiv> push_bit CBS_ASN1_TAG_SHIFT (ucast b AND 0xe0) OR n"
  shows "tag_bytes tag = (if n \<ge> 0x1f then (b AND 0xe0 OR 0x1f) # b128 (unat n) else [b AND 0xe0 OR ucast n])"
proof -
  have n: "n AND CBS_ASN1_TAG_NUMBER_MASK = n" using assms(1) by (simp only: tag_number_ok)
  show ?thesis
    unfolding tag_bytes_def tag_def Let_def tag_join [OF n] by (rule refl)
qed


lemma u32_tag_number_cast:
  "unat (v :: u64) < 2 ^ 29 \<Longrightarrow> unat (ucast v :: u32) = unat v"
  by (simp add: unsigned_ucast_eq take_bit_nat_eq_self)

lemma u8_low5: "unat (ucast (b AND 0x1f :: u8) :: u32) < 32" "ucast (ucast (b AND 0x1f :: u8) :: u32) = b AND 0x1f"
    "(ucast (b AND 0x1f :: u8) :: u32) = 0x1f \<longleftrightarrow> b AND 0x1f = 0x1f"
proof -
  have "unat (b AND 0x1f) < 32"
    unfolding masks by (simp only: take_bit_eq_mask [symmetric] unsigned_take_bit_eq) (simp add: take_bit_eq_mod)
  then show "unat (ucast (b AND 0x1f :: u8) :: u32) < 32" by simp
  have "ucast (ucast c :: u32) = c" for c :: u8
    by (rule bit_word_eqI) (auto simp: bit_simps)
  then show "ucast (ucast (b AND 0x1f :: u8) :: u32) = b AND 0x1f" .
  show "(ucast (b AND 0x1f :: u8) :: u32) = 0x1f \<longleftrightarrow> b AND 0x1f = 0x1f"
    by (simp add: word_unat_eq_iff)
qed

lemma parse_asn1_tag_sound:
  assumes ok: "cbs_ok s" and p: "parse_asn1_tag s = (Some tag, t)"
  shows "tag AND NOT CBS_ASN1_CONSTRUCTED \<noteq> 0 \<and> cbs_bytes s = tag_bytes tag @ cbs_bytes t"
proof -
  from p obtain b u n where b: "CBS_get_u8 s = (Some b, u)"
    and n: "(if ucast (b AND 0x1f) = (0x1f :: u32)
            then op_bind parse_base128_integer (\<lambda>v.
                   op_bind (op_check (\<not> (v > ucast CBS_ASN1_TAG_NUMBER_MASK \<or> v < 0x1f))) (\<lambda>_.
                     op_ret (ucast v)))
            else op_ret (ucast (b AND 0x1f))) u = (Some n, t)"
    and tag: "tag = push_bit CBS_ASN1_TAG_SHIFT (ucast b AND 0xe0) OR n"
    and nz: "tag AND NOT CBS_ASN1_CONSTRUCTED \<noteq> 0"
    by (auto simp: parse_asn1_tag_def Let_def split: if_splits)
  have bs: "cbs_bytes s = b # cbs_bytes u" and u: "u = cbs_adv 1 s"
    using b CBS_get_u8_iff [OF ok] by blast+
  have "cbs_len s \<noteq> 0" using bs length_cbs_bytes [OF ok] by auto
  then have oku: "cbs_ok u" using ok unfolding u by simp
  show ?thesis
  proof (cases "b AND 0x1f = 0x1f")
    case True
    then have "op_bind parse_base128_integer (\<lambda>v.
        op_bind (op_check (\<not> (v > ucast CBS_ASN1_TAG_NUMBER_MASK \<or> v < 0x1f))) (\<lambda>_. op_ret (ucast v))) u
        = (Some n, t)"
      using n unfolding u8_low5(3) by simp
    then obtain v u' x u'' where v': "parse_base128_integer u = (Some v, u')"
      and c: "op_check (\<not> (v > ucast CBS_ASN1_TAG_NUMBER_MASK \<or> v < 0x1f)) u' = (Some x, u'')"
      and e: "op_ret (ucast v) u'' = (Some n, t)"
      by (elim op_bind_SomeE)
    from c have g: "\<not> (v > ucast CBS_ASN1_TAG_NUMBER_MASK \<or> v < 0x1f)" "u'' = u'"
      by (blast dest: op_check_SomeD)+
    then have r: "\<not> v > ucast CBS_ASN1_TAG_NUMBER_MASK" "\<not> v < 0x1f" "n = ucast v"
      and v: "parse_base128_integer u = (Some v, t)"
      using e v' unfolding op_ret_apply by auto
    have "unat v \<le> 0x1fffffff" "31 \<le> unat v"
      using r(1,2) by (simp_all add: word_less_nat_alt)
    then have n': "unat n = unat v" "unat n < 2 ^ 29" "n \<ge> 0x1f"
      unfolding r(3) by (simp_all add: u32_tag_number_cast word_le_nat_alt)
    have "tag_bytes tag = b # b128 (unat v)"
      using tag_bytes_of_parts [OF n'(2), of b] n' True tag_byte_join [of b] unfolding tag by simp
    then show ?thesis
      using parse_base128_iff [OF oku, THEN iffD1, OF v, THEN conjunct1] nz unfolding bs by simp
  next
    case False
    then have r: "n = ucast (b AND 0x1f)" "u = t"
      using n by (auto simp: u8_low5)
    have n': "unat n < 2 ^ 29" "\<not> n \<ge> 0x1f"
    proof -
      have "unat n \<noteq> 31" using False u8_low5(3) [of b] unfolding r(1) by (simp add: word_unat_eq_iff)
      then show "unat n < 2 ^ 29" "\<not> n \<ge> 0x1f"
        using u8_low5(1) [of b] unfolding r(1) by (simp_all add: word_le_nat_alt)
    qed
    have "tag_bytes tag = [b]"
      using tag_bytes_of_parts [OF n'(1), of b] n' tag_byte_join [of b] unfolding tag r(1) u8_low5(2) by simp
    then show ?thesis using bs r(2) nz by simp
  qed
qed


lemma parse_asn1_tag_complete:
  assumes ok: "cbs_ok s" and nz: "tag AND NOT CBS_ASN1_CONSTRUCTED \<noteq> 0"
    and bs: "cbs_bytes s = tag_bytes tag @ rest"
  shows "\<exists>t. parse_asn1_tag s = (Some tag, t) \<and> cbs_bytes t = rest"
proof -
  define n where "n = tag AND CBS_ASN1_TAG_NUMBER_MASK"
  define bits where "bits = (ucast (drop_bit CBS_ASN1_TAG_SHIFT tag) AND 0xe0 :: u8)"
  have len: "cbs_len s \<noteq> 0"
    using length_cbs_bytes [OF ok] unfolding bs tag_bytes_def Let_def by (auto split: if_splits)
  then have oku: "cbs_ok (cbs_adv 1 s)" using ok by simp
  have n29: "unat n < 2 ^ 29"
    unfolding tag_number_ok [symmetric] n_def by (simp add: and.assoc)
  show ?thesis
  proof (cases "n \<ge> 0x1f")
    case True
    let ?b = "bits OR 0x1f"
    have "cbs_bytes s = ?b # (b128 (unat n) @ rest)"
      using bs True unfolding tag_bytes_def n_def bits_def Let_def by simp
    then have get: "CBS_get_u8 s = (Some ?b, cbs_adv 1 s)" and bu: "cbs_bytes (cbs_adv 1 s) = b128 (unat n) @ rest"
      using CBS_get_u8_iff [OF ok] by simp_all
    have low: "?b AND 0x1f = 0x1f" and hi: "push_bit CBS_ASN1_TAG_SHIFT (ucast ?b AND 0xe0) OR n = tag"
      unfolding bits_def n_def using tag_byte_split [of "0x1f"] tag_split [of "0x1f"] by simp_all
    define v where "v = (ucast n :: u64)"
    have v: "unat v = unat n" "ucast v = n"
    proof -
      show "unat v = unat n" unfolding v_def by (simp add: unsigned_ucast_eq take_bit_nat_eq_self less_trans [OF n29])
      show "ucast v = n" unfolding v_def by (rule bit_word_eqI) (auto simp: bit_simps)
    qed
    define t where "t = cbs_adv (length (b128 (unat v))) (cbs_adv 1 s)"
    have p: "parse_base128_integer (cbs_adv 1 s) = (Some v, t)" and bt: "cbs_bytes t = rest"
    proof -
      show rest: "cbs_bytes t = rest"
        unfolding t_def v(1) by (subst cbs_bytes_adv) (unfold bu, simp)
      show "parse_base128_integer (cbs_adv 1 s) = (Some v, t)"
        by (rule parse_base128_iff [OF oku, THEN iffD2], rule conjI)
            (simp only: rest v(1) bu, simp only: t_def)
    qed
    have g: "\<not> (v > ucast CBS_ASN1_TAG_NUMBER_MASK \<or> v < 0x1f)"
      using True n29 by (auto simp: word_less_nat_alt word_le_nat_alt v)
    have num: "op_bind parse_base128_integer (\<lambda>v.
        op_bind (op_check (\<not> (v > ucast CBS_ASN1_TAG_NUMBER_MASK \<or> v < 0x1f))) (\<lambda>_. op_ret (ucast v)))
        (cbs_adv 1 s) = (Some n, t)"
      unfolding op_bind_Some [where m = parse_base128_integer, OF p] op_check_true [OF g] v(2)
      by simp
    have "parse_asn1_tag s = (Some tag, t)"
      unfolding parse_asn1_tag_def op_bind_Some [where m = CBS_get_u8, OF get] Let_def u8_low5(3)
        low simp_thms if_True op_bind_Some [where m = "op_bind parse_base128_integer f" for f, OF num] hi op_check_true [OF nz] by simp
    with bt show ?thesis by blast
  next
    case False
    let ?b = "bits OR ucast n"
    have n31: "unat n < 31" using False by (simp add: word_le_nat_alt not_le)
    then have m: "(ucast n :: u8) AND 0x1f = ucast n"
    proof -
      have "unat (ucast n :: u8) = unat n"
        using n31 by (simp add: unsigned_ucast_eq take_bit_nat_eq_self)
      then have "take_bit 5 (ucast n :: u8) = ucast n"
        using n31 by (simp add: word_unat_eq_iff unsigned_take_bit_eq take_bit_nat_eq_self)
      then show ?thesis unfolding masks by (simp only: take_bit_eq_mask)
    qed
    have "cbs_bytes s = ?b # rest"
      using bs False unfolding tag_bytes_def n_def bits_def Let_def by simp
    then have get: "CBS_get_u8 s = (Some ?b, cbs_adv 1 s)" and bu: "cbs_bytes (cbs_adv 1 s) = rest"
      using CBS_get_u8_iff [OF ok] by simp_all
    have low: "?b AND 0x1f = ucast n" and hi: "push_bit CBS_ASN1_TAG_SHIFT (ucast ?b AND 0xe0) OR n = tag"
      unfolding bits_def n_def using tag_byte_split [OF m] tag_split [OF m] unfolding n_def by simp_all
    have ne: "(ucast n :: u8) \<noteq> 0x1f"
      using n31 by (auto simp: word_unat_eq_iff unsigned_ucast_eq take_bit_nat_eq_self)
    have un: "(ucast (ucast n :: u8) :: u32) = n"
      using n31 by (simp add: word_unat_eq_iff unsigned_ucast_eq unsigned_take_bit_eq take_bit_nat_eq_self)
    have "parse_asn1_tag s = (Some tag, cbs_adv 1 s)"
      unfolding parse_asn1_tag_def op_bind_Some [where m = CBS_get_u8, OF get] Let_def u8_low5(3)
        low if_not_P [OF ne] op_bind_Some [where m = "op_ret a" for a, OF op_ret_apply] un hi op_check_true [OF nz]
      by simp
    with bu show ?thesis by blast
  qed
qed


lemma consumes_parse_asn1_tag [consumes_intros]: "consumes parse_asn1_tag"
  unfolding parse_asn1_tag_def Let_def by (intro consumes_intros)

lemma parse_asn1_tag_iff:
  assumes "cbs_ok s"
  shows "parse_asn1_tag s = (Some tag, t) \<longleftrightarrow>
    tag AND NOT CBS_ASN1_CONSTRUCTED \<noteq> 0 \<and> cbs_bytes s = tag_bytes tag @ cbs_bytes t \<and>
    t = cbs_adv (length (tag_bytes tag)) s"
proof (intro iffI conjI)
  assume p: "parse_asn1_tag s = (Some tag, t)"
  note sound = parse_asn1_tag_sound [OF assms p]
  then show "tag AND NOT CBS_ASN1_CONSTRUCTED \<noteq> 0" "cbs_bytes s = tag_bytes tag @ cbs_bytes t" by blast+
  then show "t = cbs_adv (length (tag_bytes tag)) s"
    using consumes_adv [OF consumes_parse_asn1_tag assms p] by blast
next
  assume a: "tag AND NOT CBS_ASN1_CONSTRUCTED \<noteq> 0 \<and> cbs_bytes s = tag_bytes tag @ cbs_bytes t \<and>
    t = cbs_adv (length (tag_bytes tag)) s"
  then obtain t' where p: "parse_asn1_tag s = (Some tag, t')" "cbs_bytes t' = cbs_bytes t"
    using parse_asn1_tag_complete [OF assms] by blast
  have "cbs_bytes s = tag_bytes tag @ cbs_bytes t'" unfolding p(2) using a by blast
  then have "t' = t"
    using consumes_adv [OF consumes_parse_asn1_tag assms p(1)] a by blast
  with p(1) show "parse_asn1_tag s = (Some tag, t)" by simp
qed

section \<open>Lengths\<close>

text \<open>The shortest big-endian form: no leading zero byte.\<close>

definition be_min :: "nat \<Rightarrow> u8 list" where
  "be_min v = dropWhile (\<lambda>b. b = 0) (be_bytes 8 v)"

definition len_bytes :: "nat \<Rightarrow> u8 list" where
  "len_bytes n = (if n < 128 then [word_of_nat n] else word_of_nat (128 + length (be_min n)) # be_min n)"

definition der_header :: "u32 \<Rightarrow> nat \<Rightarrow> u8 list" where
  "der_header tag n = tag_bytes tag @ len_bytes n"

lemma be_val_be_min: "v < 2 ^ 64 \<Longrightarrow> be_val (be_min v) = v"
  by (simp add: be_min_def be_val_dropWhile be_val_be_bytes)

lemma hd_be_min: "be_min v \<noteq> [] \<Longrightarrow> hd (be_min v) \<noteq> 0"
  unfolding be_min_def by (rule hd_dropWhile)

lemma be_min_be_val:
  assumes "length bs \<le> 8" "bs \<noteq> []" "hd bs \<noteq> 0"
  shows "be_min (be_val bs) = bs"
proof -
  let ?z = "replicate (8 - length bs) (0 :: u8)"
  have "be_val (?z @ bs) = be_val bs"
    by (simp add: be_val_append be_val_replicate_0)
  moreover have "length (?z @ bs) = 8" using assms(1) by simp
  ultimately have "be_bytes 8 (be_val bs) = ?z @ bs"
    using be_bytes_be_val [of "?z @ bs"] by simp
  then show ?thesis
    using assms(2,3) unfolding be_min_def
    by (simp only:) (subst dropWhile_append2, auto simp: dropWhile_eq_self_iff)
qed


lemma length_be_min: "v < 256 ^ k \<Longrightarrow> k \<le> 8 \<Longrightarrow> length (be_min v) \<le> k"
proof (rule ccontr)
  assume v: "v < 256 ^ k" and k: "k \<le> 8" "\<not> length (be_min v) \<le> k"
  then obtain b bs where b: "be_min v = b # bs" by (cases "be_min v") auto
  then have "b \<noteq> 0" using hd_be_min [of v] by simp
  then have "1 \<le> unat b" by (simp add: Suc_le_eq unat_gt_0)
  moreover have "(256 :: nat) ^ k \<le> 256 ^ length bs"
    using k(2) b by (intro power_increasing) simp_all
  ultimately have "1 * 256 ^ k \<le> unat b * 256 ^ length bs" by (rule mult_le_mono)
  then have "256 ^ k \<le> unat b * 256 ^ length bs" by simp
  also have "\<dots> \<le> be_val (be_min v)" by (simp add: b be_val_Cons)
  finally have ge: "256 ^ k \<le> be_val (be_min v)" .
  have "(256 :: nat) ^ k \<le> 256 ^ 8" using k(1) by (intro power_increasing) simp_all
  also have "(256 :: nat) ^ 8 = 2 ^ 64" by simp
  finally have "v < 2 ^ 64" using v by linarith
  then have "be_val (be_min v) = v" by (rule be_val_be_min)
  with v ge show False by linarith
qed

lemma be_min_0 [simp]: "be_min 0 = []"
proof -
  have "be_bytes n 0 = replicate n 0" for n
    by (induction n) (simp_all add: replicate_append_same)
  then show ?thesis by (simp add: be_min_def dropWhile_eq_Nil_conv)
qed

lemma be_min_nonempty: "v < 2 ^ 64 \<Longrightarrow> be_min v = [] \<longleftrightarrow> v = 0"
  using be_val_be_min [of v] by (metis be_min_0 be_val_Nil)

text \<open>The checks of the long form accept exactly the shortest form.\<close>

lemma drop_bit_top_byte:
  assumes "length bs = n" "0 < n" "n \<le> 8"
  shows "drop_bit ((n - 1) * 8) (word_of_nat (be_val bs) :: u64) = 0 \<longleftrightarrow> hd bs = 0"
proof -
  obtain b cs where bs: "bs = b # cs" using assms by (cases bs) auto
  then have n1: "length cs = n - 1" using assms by simp
  have p: "(2 :: nat) ^ ((n - 1) * 8) = 256 ^ (n - 1)"
    by (subst mult.commute) (simp only: power_mult, simp)
  have "be_val bs < 256 ^ n" using be_val_bound [of bs] assms by simp
  also have "(256 :: nat) ^ n \<le> 256 ^ 8" using assms by (intro power_increasing) simp_all
  finally have "be_val bs < 2 ^ 64" by simp
  then have "unat (word_of_nat (be_val bs) :: u64) = be_val bs"
    by (simp add: unat_of_nat)
  then have "drop_bit ((n - 1) * 8) (word_of_nat (be_val bs) :: u64) = 0 \<longleftrightarrow> be_val bs < 256 ^ (n - 1)"
    by (simp only: drop_bit_eq_0 p)
  also have "\<dots> \<longleftrightarrow> b = 0"
  proof
    assume lt: "be_val bs < 256 ^ (n - 1)"
    show "b = 0"
    proof (rule ccontr)
      assume "b \<noteq> 0"
      then have "1 \<le> unat b" by (simp add: Suc_le_eq unat_gt_0)
      then have "1 * 256 ^ (n - 1) \<le> unat b * 256 ^ (n - 1)" by (rule mult_right_mono) simp
      with lt show False unfolding bs be_val_Cons n1 by linarith
    qed
  next
    assume "b = 0"
    then show "be_val bs < 256 ^ (n - 1)" using be_val_bound [of cs] by (simp add: bs be_val_Cons n1)
  qed
  finally show ?thesis by (simp add: bs)
qed


lemma length_b128_hi: "v < 128 ^ k \<Longrightarrow> length (b128_hi v) \<le> k"
proof (induction k arbitrary: v)
  case (Suc k)
  then have "length (b128_hi (v div 128)) \<le> k"
    by (intro Suc.IH) (simp add: div_less_iff_less_mult mult.commute)
  then show ?case by (subst b128_hi.simps) simp
qed simp

lemma length_tag_bytes: "length (tag_bytes tag) \<le> 6"
proof -
  let ?n = "tag AND CBS_ASN1_TAG_NUMBER_MASK"
  have "unat ?n < 2 ^ 29" unfolding tag_number_ok [symmetric] by (simp add: and.assoc)
  then have "length (b128_hi (unat ?n div 128)) \<le> 4"
    by (intro length_b128_hi) (simp add: div_less_iff_less_mult)
  then show ?thesis by (simp add: tag_bytes_def Let_def b128_def)
qed

section \<open>Elements\<close>

text \<open>The element of \<open>n\<close> bytes at the front of \<open>s\<close>.\<close>

definition element_at :: "nat \<Rightarrow> nat \<Rightarrow> u32 \<Rightarrow> bool \<Rightarrow> bool \<Rightarrow> (cbs, asn1_element) op" where
  "element_at n h tag ber indef s =
    (if cbs_len s < n then (None, s)
     else (Some \<lparr>el_out = CBS_init (cbs_data s) n, el_tag = tag, el_header_len = h, el_ber_found = ber,
             el_indefinite = indef\<rparr>, cbs_adv n s))"

lemma element_eval:
  assumes ok: "cbs_ok s" and tag: "parse_asn1_tag s = (Some tag, h1)"
    and lb: "CBS_get_u8 h1 = (Some lb, h2)"
  defines "k \<equiv> Suc (length (tag_bytes tag))" and "nb \<equiv> unat lb - 128"
  defines "ls \<equiv> take nb (cbs_bytes h2)"
  shows "cbs_get_any_asn1_element ber_ok s =
    (if unat lb < 128 then element_at (k + unat lb) k tag False False s
     else if ber_ok \<and> tag AND CBS_ASN1_CONSTRUCTED \<noteq> 0 \<and> nb = 0 then element_at k k tag True True s
     else if nb = 0 \<or> nb > 4 \<or> length (cbs_bytes h2) < nb then (None, s)
     else if (be_val ls < 128 \<or> hd ls = 0) \<and> \<not> ber_ok then (None, s)
     else element_at (k + nb + be_val ls) (k + nb) tag (be_val ls < 128 \<or> hd ls = 0) False s)"
proof -
  have h1: "h1 = cbs_adv (length (tag_bytes tag)) s" "cbs_bytes s = tag_bytes tag @ cbs_bytes h1"
    using parse_asn1_tag_iff [OF ok] tag by blast+
  obtain n where n: "n \<le> cbs_len s" "h1 = cbs_adv n s"
    using consumesE [OF consumes_parse_asn1_tag ok tag] .
  have ok1: "cbs_ok h1" using ok n by simp
  have h2: "h2 = cbs_adv 1 h1" "cbs_bytes h1 = lb # cbs_bytes h2"
    using CBS_get_u8_iff [OF ok1] lb by blast+
  have "length (cbs_bytes s) = k + length (cbs_bytes h2)"
    unfolding h1(2) h2(2) k_def by simp
  then have len_s: "cbs_len s = k + length (cbs_bytes h2)" using ok by simp
  have h2': "h2 = cbs_adv k s" unfolding h2(1) h1(1) k_def by simp
  have ok2: "cbs_ok h2" unfolding h2' using ok len_s by simp
  have len2: "cbs_len h2 = length (cbs_bytes h2)" using ok2 by simp
  have hl: "CBS_len s - CBS_len h2 = k" unfolding CBS_len_eq len2 len_s by simp
  have lim: "k + length (cbs_bytes h2) < SIZE_LIMIT" using ok unfolding cbs_ok_def len_s by blast
  have k7: "k \<le> 7" unfolding k_def using length_tag_bytes [of tag] by simp
  have fin: "op_bind (CBS_get_bytes n) (\<lambda>out. op_ret \<lparr>el_out = out, el_tag = tag, el_header_len = h,
      el_ber_found = ber, el_indefinite = indef\<rparr>) s = element_at n h tag ber indef s" for n h ber indef
    by (simp add: op_bind_def CBS_get_bytes_eq element_at_def)
  note start = cbs_get_any_asn1_element_def tag lb prod.case option.case Let_def hl fin
  show ?thesis
  proof (cases "unat lb < 128")
    case True
    then have "lb AND 0x80 = 0" using u8_msb [of lb] by simp
    moreover have "sz_add (unat lb) k = k + unat lb" using True k7 by (simp add: add.commute)
    ultimately show ?thesis using True by (simp only: start if_True simp_thms)
  next
    case False
    have msb: "\<not> lb AND 0x80 = 0" using False u8_msb [of lb] by simp
    have nb: "unat (lb AND 0x7f) = nb"
    proof -
      have "unat lb = 128 + nb" "nb < 128" using False u8_lt [of lb] unfolding nb_def by linarith+
      then show ?thesis unfolding u8_low7 by simp
    qed
    show ?thesis
    proof (cases "ber_ok \<and> tag AND CBS_ASN1_CONSTRUCTED \<noteq> 0 \<and> nb = 0")
      case True
      then show ?thesis using False by (simp only: start msb nb if_False if_True simp_thms)
    next
      case ne: False
      show ?thesis
      proof (cases "nb = 0 \<or> nb > 4")
        case True
        then show ?thesis using False ne by (auto simp only: start msb nb if_False if_True simp_thms)
      next
        case nb4: False
        then have "nb \<le> 8" by simp
        note get = cbs_get_u_eq [OF ok2 this]
        show ?thesis
        proof (cases "length (cbs_bytes h2) < nb")
          case True
          then show ?thesis using False ne nb4
            by (simp only: start msb nb if_False if_True simp_thms get len2)
        next
          case enough: False
          have lls: "length ls = nb" using enough unfolding ls_def by simp
          have "be_val ls < 256 ^ nb" using be_val_bound [of ls] unfolding lls .
          also have "(256 :: nat) ^ nb \<le> 256 ^ 4" using nb4 by (intro power_increasing) simp_all
          finally have v32: "be_val ls < 2 ^ 32" by simp
          then have uv: "unat (word_of_nat (be_val ls) :: u64) = be_val ls" by (simp add: unat_of_nat)
          have lt: "(word_of_nat (be_val ls) :: u64) < 128 \<longleftrightarrow> be_val ls < 128"
            by (simp add: word_less_nat_alt uv)
          have top: "drop_bit ((nb - 1) * 8) (word_of_nat (be_val ls) :: u64) = 0 \<longleftrightarrow> hd ls = 0"
            using nb4 by (intro drop_bit_top_byte lls) simp_all
          have ov: "(sz_add (sz_add (be_val ls) k) nb < be_val ls) = False"
            and sz: "sz_add k nb = k + nb" "sz_add (be_val ls) (k + nb) = k + nb + be_val ls"
            using v32 k7 nb4 by (simp_all add: add.commute add.left_commute)
          show ?thesis
            using False ne nb4 enough
            by (simp only: start msb nb if_False if_True simp_thms get len2 ls_def [symmetric] lt top uv ov sz)
              (cases "be_val ls < 128"; cases "hd ls = 0"; simp)
        qed
      qed
    qed
  qed
qed


definition der_element :: "u32 \<Rightarrow> u8 list \<Rightarrow> u8 list" where
  "der_element tag content = der_header tag (length content) @ content"

text \<open>The shape of the length octets.\<close>

lemma len_bytes_short: "n < 128 \<Longrightarrow> len_bytes n = [lb] \<longleftrightarrow> unat lb = n"
  by (auto simp: len_bytes_def unat_u8_of_nat word_unat_eq_iff)

lemma len_bytes_long:
  assumes "128 \<le> n" "n < 2 ^ 32"
  obtains lb where "len_bytes n = lb # be_min n" "unat lb = 128 + length (be_min n)"
    "1 \<le> length (be_min n)" "length (be_min n) \<le> 4" "be_val (be_min n) = n" "hd (be_min n) \<noteq> 0"
proof -
  have n: "n < 2 ^ 64" using assms by simp
  have ne: "be_min n \<noteq> []" using be_min_nonempty [OF n] assms by simp
  have l4: "length (be_min n) \<le> 4" using assms by (intro length_be_min) simp_all
  define lb where "lb = (word_of_nat (128 + length (be_min n)) :: u8)"
  have "(128 + length (be_min n)) mod 256 = 128 + length (be_min n)" using l4 by simp
  then have u: "unat lb = 128 + length (be_min n)"
    unfolding lb_def by (simp only: unat_u8_of_nat)
  show thesis
  proof (rule that)
    show "len_bytes n = lb # be_min n" using assms by (simp add: len_bytes_def lb_def)
    show "1 \<le> length (be_min n)" using ne by (simp add: Suc_le_eq)
  qed (use u l4 ne be_val_be_min [OF n] hd_be_min [OF ne] in simp_all)
qed

lemma len_bytes_of_long:
  assumes "length ls = nb" "1 \<le> nb" "nb \<le> 4" "unat lb = 128 + nb" "hd ls \<noteq> 0" "128 \<le> be_val ls"
  shows "len_bytes (be_val ls) = lb # ls" "be_val ls < 2 ^ 32"
proof -
  have "ls \<noteq> []" using assms by auto
  then have m: "be_min (be_val ls) = ls" using assms by (intro be_min_be_val) simp_all
  have "(word_of_nat (128 + length ls) :: u8) = lb"
    using unat_eq_word_of_nat [OF assms(4)] assms(1) by simp
  then show "len_bytes (be_val ls) = lb # ls" using assms(6) by (simp add: len_bytes_def m)
  have "be_val ls < 256 ^ nb" using be_val_bound [of ls] assms(1) by simp
  also have "(256 :: nat) ^ nb \<le> 256 ^ 4" using assms by (intro power_increasing) simp_all
  finally show "be_val ls < 2 ^ 32" by simp
qed

lemma element_at_Some:
  "element_at n h tag ber indef s = (Some el, t) \<longleftrightarrow>
    n \<le> cbs_len s \<and> el = \<lparr>el_out = CBS_init (cbs_data s) n, el_tag = tag, el_header_len = h,
      el_ber_found = ber, el_indefinite = indef\<rparr> \<and> t = cbs_adv n s"
  by (auto simp: element_at_def)

definition is_der_element :: "cbs \<Rightarrow> asn1_element \<Rightarrow> cbs \<Rightarrow> bool" where
  "is_der_element s el t \<longleftrightarrow> (\<exists>content.
    el_tag el AND NOT CBS_ASN1_CONSTRUCTED \<noteq> 0 \<and> length content < 2 ^ 32 \<and>
    cbs_bytes s = der_element (el_tag el) content @ cbs_bytes t \<and>
    t = cbs_adv (length (der_element (el_tag el) content)) s \<and>
    el_out el = CBS_init (cbs_data s) (length (der_element (el_tag el) content)) \<and>
    el_header_len el = length (der_header (el_tag el) (length content)) \<and>
    \<not> el_ber_found el \<and> \<not> el_indefinite el)"

lemma any_element_parts:
  assumes "cbs_get_any_asn1_element ber_ok s = (Some el, t)"
  obtains tag h1 lb h2 where "parse_asn1_tag s = (Some tag, h1)" "CBS_get_u8 h1 = (Some lb, h2)"
proof -
  obtain x h1 where p: "parse_asn1_tag s = (x, h1)" by (cases "parse_asn1_tag s")
  obtain y h2 where q: "CBS_get_u8 h1 = (y, h2)" by (cases "CBS_get_u8 h1")
  have x: "x \<noteq> None"
    using assms unfolding cbs_get_any_asn1_element_def p by (cases x) simp_all
  moreover have "y \<noteq> None"
    using assms x unfolding cbs_get_any_asn1_element_def p prod.case q by (cases y) auto
  ultimately show thesis using p q that by blast
qed

lemma any_element_front:
  assumes ok: "cbs_ok s" and tag: "parse_asn1_tag s = (Some tag, h1)"
    and lb: "CBS_get_u8 h1 = (Some lb, h2)"
  shows "cbs_bytes s = tag_bytes tag @ lb # cbs_bytes h2" "tag AND NOT CBS_ASN1_CONSTRUCTED \<noteq> 0"
    "cbs_len s = Suc (length (tag_bytes tag)) + length (cbs_bytes h2)"
proof -
  have h1: "cbs_bytes s = tag_bytes tag @ cbs_bytes h1" "tag AND NOT CBS_ASN1_CONSTRUCTED \<noteq> 0"
    using parse_asn1_tag_iff [OF ok] tag by blast+
  have "cbs_ok h1" by (rule consumes_ok [OF consumes_parse_asn1_tag ok tag])
  then have "cbs_bytes h1 = lb # cbs_bytes h2"
    using CBS_get_u8_iff lb by blast
  with h1 show b: "cbs_bytes s = tag_bytes tag @ lb # cbs_bytes h2" "tag AND NOT CBS_ASN1_CONSTRUCTED \<noteq> 0"
    by simp_all
  have "length (cbs_bytes s) = Suc (length (tag_bytes tag)) + length (cbs_bytes h2)"
    unfolding b(1) by simp
  then show "cbs_len s = Suc (length (tag_bytes tag)) + length (cbs_bytes h2)" using ok by simp
qed

lemma any_element_sound:
  assumes ok: "cbs_ok s" and r: "CBS_get_any_asn1_element s = (Some el, t)"
  shows "is_der_element s el t"
proof -
  obtain tag h1 lb h2 where p: "parse_asn1_tag s = (Some tag, h1)" "CBS_get_u8 h1 = (Some lb, h2)"
    using any_element_parts [OF r [unfolded CBS_get_any_asn1_element_def]] .
  note f = any_element_front [OF ok p]
  note ev = r [unfolded CBS_get_any_asn1_element_def element_eval [OF ok p]]
  show ?thesis
  proof (cases "unat lb < 128")
    case True
    have e: "Suc (length (tag_bytes tag)) + unat lb \<le> cbs_len s"
      "el = \<lparr>el_out = CBS_init (cbs_data s) (Suc (length (tag_bytes tag)) + unat lb), el_tag = tag,
        el_header_len = Suc (length (tag_bytes tag)), el_ber_found = False, el_indefinite = False\<rparr>"
      "t = cbs_adv (Suc (length (tag_bytes tag)) + unat lb) s"
      using ev True by (auto simp: element_at_Some)
    define c where "c = take (unat lb) (cbs_bytes h2)"
    have lc: "length c = unat lb" using e(1) f(3) unfolding c_def by simp
    then have lnb: "len_bytes (length c) = [lb]" using len_bytes_short [of "length c" lb] True by simp
    have "cbs_bytes s = der_element tag c @ drop (unat lb) (cbs_bytes h2)"
      unfolding der_element_def der_header_def lnb f(1) unfolding c_def by simp
    moreover have "length (der_element tag c) = Suc (length (tag_bytes tag)) + unat lb"
      unfolding der_element_def der_header_def lnb by (simp add: lc)
    ultimately show ?thesis
      using e True f(2) lc unfolding is_der_element_def
      by (intro exI [of _ c]) (simp add: der_header_def lnb [unfolded lc])
  next
    case False
    define nb where "nb = unat lb - 128"
    define ls where "ls = take nb (cbs_bytes h2)"
    have g: "1 \<le> nb" "nb \<le> 4" "nb \<le> length (cbs_bytes h2)" "128 \<le> be_val ls" "hd ls \<noteq> 0"
      and at: "element_at (Suc (length (tag_bytes tag)) + nb + be_val ls) (Suc (length (tag_bytes tag)) + nb)
        tag False False s = (Some el, t)"
      using ev False unfolding nb_def [symmetric] ls_def [symmetric] by (auto split: if_splits)
    have lls: "length ls = nb" using g unfolding ls_def by simp
    have ulb: "unat lb = 128 + nb" using False unfolding nb_def by simp
    note e = at [unfolded element_at_Some]
    define c where "c = take (be_val ls) (drop nb (cbs_bytes h2))"
    have "nb + be_val ls \<le> length (cbs_bytes h2)" using e f(3) by simp
    then have "be_val ls \<le> length (drop nb (cbs_bytes h2))" by simp
    then have lc: "length c = be_val ls" unfolding c_def by simp
    note lnb = len_bytes_of_long [OF lls g(1,2) ulb g(5,4), folded lc]
    have "cbs_bytes h2 = ls @ c @ drop (nb + be_val ls) (cbs_bytes h2)"
      unfolding ls_def c_def by (metis append_take_drop_id drop_drop add.commute)
    then have "cbs_bytes s = der_element tag c @ drop (nb + be_val ls) (cbs_bytes h2)"
      unfolding der_element_def der_header_def lnb(1) f(1) by simp
    moreover have "length (der_element tag c) = Suc (length (tag_bytes tag)) + nb + be_val ls"
      unfolding der_element_def der_header_def lnb(1) by (simp add: lc lls)
    ultimately show ?thesis
      using e f(2) lc lnb(2) unfolding is_der_element_def
      by (intro exI [of _ c]) (simp add: der_header_def lnb(1) [unfolded lc] lls)
  qed
qed


lemma any_element_complete:
  assumes ok: "cbs_ok s" and d: "is_der_element s el t"
  shows "CBS_get_any_asn1_element s = (Some el, t)"
proof -
  let ?tag = "el_tag el"
  obtain c where nz: "?tag AND NOT CBS_ASN1_CONSTRUCTED \<noteq> 0" and c32: "length c < 2 ^ 32"
    and bs: "cbs_bytes s = der_element ?tag c @ cbs_bytes t"
    and t: "t = cbs_adv (length (der_element ?tag c)) s"
    and el: "el_out el = CBS_init (cbs_data s) (length (der_element ?tag c))"
      "el_header_len el = length (der_header ?tag (length c))" "\<not> el_ber_found el" "\<not> el_indefinite el"
    using d unfolding is_der_element_def by blast
  have len_s: "cbs_len s = length (der_element ?tag c) + length (cbs_bytes t)"
    using arg_cong [OF bs, of length] ok by simp
  have el': "el = \<lparr>el_out = CBS_init (cbs_data s) (length (der_element ?tag c)), el_tag = ?tag,
      el_header_len = length (der_header ?tag (length c)), el_ber_found = False, el_indefinite = False\<rparr>"
    using el by (cases el) simp
  have le: "length (der_element ?tag c) \<le> cbs_len s" using len_s by simp
  have at: "element_at (length (der_element ?tag c)) (length (der_header ?tag (length c))) ?tag False False s = (Some el, t)"
    unfolding element_at_Some using le el' t by blast
  obtain lb ls where lbs: "len_bytes (length c) = lb # ls"
    by (cases "len_bytes (length c)") (auto simp: len_bytes_def split: if_splits)
  have bs': "cbs_bytes s = tag_bytes ?tag @ lb # ls @ c @ cbs_bytes t"
    using bs by (simp add: der_element_def der_header_def lbs)
  obtain h1 where p1: "parse_asn1_tag s = (Some ?tag, h1)" "cbs_bytes h1 = lb # ls @ c @ cbs_bytes t"
    using parse_asn1_tag_complete [OF ok nz bs'] by blast
  have ok1: "cbs_ok h1" by (rule consumes_ok [OF consumes_parse_asn1_tag ok p1(1)])
  have p2: "CBS_get_u8 h1 = (Some lb, cbs_adv 1 h1)" "cbs_bytes (cbs_adv 1 h1) = ls @ c @ cbs_bytes t"
    using p1(2) CBS_get_u8_iff [OF ok1] by simp_all
  show ?thesis
  proof (cases "length c < 128")
    case True
    then have "len_bytes (length c) = [word_of_nat (length c)]" by (simp add: len_bytes_def)
    with lbs have "ls = []" "len_bytes (length c) = [lb]" by simp_all
    moreover from this have u: "unat lb = length c" using True len_bytes_short by blast
    ultimately have "Suc (length (tag_bytes ?tag)) + unat lb = length (der_element ?tag c)"
      "Suc (length (tag_bytes ?tag)) = length (der_header ?tag (length c))"
      unfolding der_element_def der_header_def by simp_all
    then show ?thesis
      using at True u by (simp only: CBS_get_any_asn1_element_def element_eval [OF ok p1(1) p2(1)] if_True)
  next
    case False
    then obtain lb' where l: "len_bytes (length c) = lb' # be_min (length c)"
        "unat lb' = 128 + length (be_min (length c))" "1 \<le> length (be_min (length c))"
        "length (be_min (length c)) \<le> 4" "be_val (be_min (length c)) = length c" "hd (be_min (length c)) \<noteq> 0"
      using len_bytes_long [OF _ c32] by auto
    have eq: "lb' = lb" "be_min (length c) = ls" using l(1) lbs by simp_all
    note l' = l [unfolded eq]
    define nb where "nb = length ls"
    have nb: "unat lb - 128 = nb" "\<not> unat lb < 128" "\<not> nb = 0" "\<not> nb > 4"
      using l' unfolding nb_def by auto
    have tk: "take nb (cbs_bytes (cbs_adv 1 h1)) = ls" unfolding p2(2) nb_def by simp
    have en: "\<not> length (cbs_bytes (cbs_adv 1 h1)) < nb" unfolding p2(2) nb_def by simp
    have mn: "\<not> (be_val ls < 128 \<or> hd ls = 0)" using l' False by simp
    have "Suc (length (tag_bytes ?tag)) + nb + be_val ls = length (der_element ?tag c)"
      "Suc (length (tag_bytes ?tag)) + nb = length (der_header ?tag (length c))"
      unfolding der_element_def der_header_def lbs nb_def using l'(5) by simp_all
    then show ?thesis
      using at mn unfolding CBS_get_any_asn1_element_def element_eval [OF ok p1(1) p2(1)] nb(1) tk
      by (simp only: nb(2-4) en mn if_False simp_thms)
  qed
qed

theorem der_element_iff:
  "cbs_ok s \<Longrightarrow> CBS_get_any_asn1_element s = (Some el, t) \<longleftrightarrow> is_der_element s el t"
  using any_element_sound any_element_complete by blast

end
