(* ===== verification/Cbb.thy ===== *)
theory Cbb
  imports Der
begin

text \<open>
  The byte-string builder of \<open>crypto/bytestring/cbb.c\<close>.

  A top-level \<open>CBB\<close> and the chain of child \<open>CBB\<close>s hanging off it share one buffer.  The record
  \<open>cbb\<close> is that whole object: the \<open>cbb_buffer_st\<close> and the children, outermost first.  A \<open>CBB *\<close> is
  the depth of the builder in the chain: 0 is the top-level one, \<open>Suc d\<close> the child of \<open>d\<close>.  A
  depth beyond the chain is a child that was flushed, whose \<open>base\<close> pointer is null.
  \<open>b_buf\<close> is \<open>None\<close> for a null pointer and otherwise the whole block.
\<close>

section \<open>The buffer\<close>

record cbb_child =
  ch_offset :: nat
  ch_pending_len_len :: nat
  ch_pending_is_asn1 :: bool

record cbb =
  b_buf :: "u8 list option"
  b_len :: nat
  b_cap :: nat
  b_can_resize :: bool
  b_error :: bool
  children :: "cbb_child list"

definition CBB_zero :: cbb where
  "CBB_zero = \<lparr>b_buf = None, b_len = 0, b_cap = 0, b_can_resize = False, b_error = False, children = []\<rparr>"

definition cbb_init :: "u8 list option \<Rightarrow> nat \<Rightarrow> bool \<Rightarrow> cbb" where
  "cbb_init buf cap can_resize =
    \<lparr>b_buf = buf, b_len = 0, b_cap = cap, b_can_resize = can_resize, b_error = False, children = []\<rparr>"

definition CBB_init :: "(nat \<Rightarrow> u8 list option) \<Rightarrow> nat \<Rightarrow> cbb option" where
  "CBB_init malloc initial_capacity =
    (let buf = OPENSSL_malloc malloc initial_capacity
     in if initial_capacity > 0 \<and> buf = None then None
        else Some (cbb_init buf initial_capacity True))"

definition CBB_init_fixed :: "u8 list option \<Rightarrow> nat \<Rightarrow> cbb" where
  "CBB_init_fixed buf len = cbb_init buf len False"

text \<open>\<open>cbb_get_base d s\<close> holds when the \<open>base\<close> pointer of the builder \<open>d\<close> is not null.\<close>

definition cbb_get_base :: "nat \<Rightarrow> cbb \<Rightarrow> bool" where
  "cbb_get_base d s \<longleftrightarrow> d \<le> length (children s)"

text \<open>The block behind the pointer, and a copy into it.\<close>

definition buf_bytes :: "cbb \<Rightarrow> u8 list" where
  "buf_bytes s = (case b_buf s of None \<Rightarrow> [] | Some bs \<Rightarrow> bs)"

definition buf_store :: "nat \<Rightarrow> u8 list \<Rightarrow> cbb \<Rightarrow> cbb" where
  "buf_store i bs s =
    s\<lparr>b_buf := map_option (\<lambda>buf. take i buf @ bs @ drop (i + length bs) buf) (b_buf s)\<rparr>"

text \<open>The result of a reservation is \<open>*out\<close>, as an index into the buffer.\<close>

definition cbb_buffer_reserve :: "(nat \<Rightarrow> u8 list option) \<Rightarrow> bool \<Rightarrow> nat \<Rightarrow> (cbb, nat) op" where
  "cbb_buffer_reserve malloc base len s =
    (if \<not> base then (None, s)
     else
       let err = (None, s\<lparr>b_error := True\<rparr>); newlen = sz_add (b_len s) len
       in if newlen < b_len s then err
          else if newlen > b_cap s then
            (if \<not> b_can_resize s then err
             else
               let newcap = (b_cap s * 2) mod SIZE_LIMIT;
                   newcap = (if newcap < b_cap s \<or> newcap < newlen then newlen else newcap)
               in case OPENSSL_realloc malloc (b_buf s) newcap of
                    None \<Rightarrow> err
                  | Some newbuf \<Rightarrow> (Some (b_len s), s\<lparr>b_buf := Some newbuf, b_cap := newcap\<rparr>))
          else (Some (b_len s), s))"

definition cbb_buffer_add :: "(nat \<Rightarrow> u8 list option) \<Rightarrow> bool \<Rightarrow> nat \<Rightarrow> (cbb, nat) op" where
  "cbb_buffer_add malloc base len =
    op_bind (cbb_buffer_reserve malloc base len) (\<lambda>out s. (Some out, s\<lparr>b_len := b_len s + len\<rparr>))"

definition cbb_on_error :: "nat \<Rightarrow> cbb \<Rightarrow> cbb" where
  "cbb_on_error d s = s\<lparr>b_error := True, children := take d (children s)\<rparr>"

text \<open>The loop that stores an integer in \<open>n\<close> bytes at index \<open>i\<close>, last byte first; it returns
  what is left of the integer.\<close>

fun buf_put_be :: "nat \<Rightarrow> nat \<Rightarrow> nat \<Rightarrow> cbb \<Rightarrow> nat \<times> cbb" where
  "buf_put_be 0 i v s = (v, s)"
| "buf_put_be (Suc n) i v s = buf_put_be n i (v div 256) (buf_store (i + n) [word_of_nat v] s)"

section \<open>Flushing\<close>

text \<open>The length octets of a pending ASN.1 element: \<open>len_len\<close>, \<open>initial_length_byte\<close> and what
  is left in \<open>len\<close>.\<close>

definition asn1_len_len :: "nat \<Rightarrow> (nat \<times> u8 \<times> nat) option" where
  "asn1_len_len len =
    (if len > 0xfffffffe then None
     else if len > 0xffffff then Some (5, 0x80 OR 4, len)
     else if len > 0xffff then Some (4, 0x80 OR 3, len)
     else if len > 0xff then Some (3, 0x80 OR 2, len)
     else if len > 0x7f then Some (2, 0x80 OR 1, len)
     else Some (1, word_of_nat len, 0))"

text \<open>The part of \<open>CBB_flush\<close> that writes the length prefix of the child, once the child
  itself is flushed.\<close>

definition cbb_write_prefix ::
  "(nat \<Rightarrow> u8 list option) \<Rightarrow> cbb_child \<Rightarrow> nat \<Rightarrow> (cbb, unit) op" where
  "cbb_write_prefix malloc child child_start s =
    (let len = b_len s - child_start;
         finish = (\<lambda>offset pending_len_len len s.
           let (len, s) = buf_put_be pending_len_len offset len s
           in if len \<noteq> 0 then (None, s) else (Some (), s))
     in if ch_pending_is_asn1 child then
          (case asn1_len_len len of
             None \<Rightarrow> (None, s)
           | Some (len_len, initial_length_byte, len) \<Rightarrow>
               op_bind
                 (if len_len \<noteq> 1 then
                    let extra_bytes = len_len - 1
                    in op_bind (cbb_buffer_add malloc True extra_bytes) (\<lambda>_ s.
                         (Some (), buf_store (child_start + extra_bytes)
                            (take len (drop child_start (buf_bytes s))) s))
                  else op_ret ())
                 (\<lambda>_ s.
                   finish (ch_offset child + 1) (len_len - 1) len
                     (buf_store (ch_offset child) [initial_length_byte] s)) s)
        else finish (ch_offset child) (ch_pending_len_len child) len s)"

function CBB_flush :: "(nat \<Rightarrow> u8 list option) \<Rightarrow> nat \<Rightarrow> cbb \<Rightarrow> unit option \<times> cbb" where
  "CBB_flush malloc d s =
    (if \<not> cbb_get_base d s \<or> b_error s then (None, s)
     else if d = length (children s) then (Some (), s)
     else
       let child = children s ! d;
           child_start = sz_add (ch_offset child) (ch_pending_len_len child)
       in case CBB_flush malloc (Suc d) s of
            (None, s) \<Rightarrow> (None, cbb_on_error d s)
          | (Some _, s) \<Rightarrow>
              if child_start < ch_offset child \<or> b_len s < child_start
              then (None, cbb_on_error d s)
              else case cbb_write_prefix malloc child child_start s of
                     (None, s) \<Rightarrow> (None, cbb_on_error d s)
                   | (Some _, s) \<Rightarrow> (Some (), s\<lparr>children := take d (children s)\<rparr>))"
  by pat_completeness auto
termination
  by (relation "measure (\<lambda>(malloc, d, s). length (children s) - d)") (auto simp: cbb_get_base_def)

declare CBB_flush.simps [simp del]

text \<open>The contents of a builder without a child: where they start in the buffer, and how
  long they are.\<close>

definition cbb_start :: "nat \<Rightarrow> cbb \<Rightarrow> nat" where
  "cbb_start d s = (if d = 0 then 0
     else ch_offset (children s ! (d - 1)) + ch_pending_len_len (children s ! (d - 1)))"

definition CBB_data :: "nat \<Rightarrow> cbb \<Rightarrow> u8 list" where
  "CBB_data d s = drop (cbb_start d s) (buf_bytes s)"

definition CBB_len :: "nat \<Rightarrow> cbb \<Rightarrow> nat" where
  "CBB_len d s = b_len s - cbb_start d s"

text \<open>The result is \<open>*out_data\<close> and \<open>*out_len\<close>; \<open>out_null\<close> says that one of the two pointers is
  null.\<close>

definition CBB_finish ::
  "(nat \<Rightarrow> u8 list option) \<Rightarrow> nat \<Rightarrow> bool \<Rightarrow> (cbb, u8 list option \<times> nat) op" where
  "CBB_finish malloc d out_null =
    op_bind (op_check (d = 0)) (\<lambda>_.
      op_bind (CBB_flush malloc d) (\<lambda>_ s.
        if b_can_resize s \<and> out_null then (None, s)
        else (Some (b_buf s, b_len s), s\<lparr>b_buf := None\<rparr>)))"

section \<open>Adding\<close>

text \<open>The new child of \<open>d\<close> is the builder \<open>Suc d\<close>.\<close>

definition cbb_add_child ::
  "(nat \<Rightarrow> u8 list option) \<Rightarrow> nat \<Rightarrow> nat \<Rightarrow> bool \<Rightarrow> (cbb, unit) op" where
  "cbb_add_child malloc d len_len is_asn1 s =
    (let offset = b_len s
     in op_bind (cbb_buffer_add malloc (cbb_get_base d s) len_len) (\<lambda>prefix_bytes s.
          let s = buf_store prefix_bytes (replicate len_len 0) s
          in (Some (), s\<lparr>children := take d (children s) @
               [\<lparr>ch_offset = offset, ch_pending_len_len = len_len, ch_pending_is_asn1 = is_asn1\<rparr>]\<rparr>)) s)"

definition cbb_add_length_prefixed :: "(nat \<Rightarrow> u8 list option) \<Rightarrow> nat \<Rightarrow> nat \<Rightarrow> (cbb, unit) op" where
  "cbb_add_length_prefixed malloc d len_len =
    op_bind (CBB_flush malloc d) (\<lambda>_. cbb_add_child malloc d len_len False)"

definition CBB_add_u8_length_prefixed :: "(nat \<Rightarrow> u8 list option) \<Rightarrow> nat \<Rightarrow> (cbb, unit) op" where
  "CBB_add_u8_length_prefixed malloc d = cbb_add_length_prefixed malloc d 1"

definition CBB_add_u16_length_prefixed :: "(nat \<Rightarrow> u8 list option) \<Rightarrow> nat \<Rightarrow> (cbb, unit) op" where
  "CBB_add_u16_length_prefixed malloc d = cbb_add_length_prefixed malloc d 2"

definition CBB_add_u24_length_prefixed :: "(nat \<Rightarrow> u8 list option) \<Rightarrow> nat \<Rightarrow> (cbb, unit) op" where
  "CBB_add_u24_length_prefixed malloc d = cbb_add_length_prefixed malloc d 3"

definition CBB_add_space :: "(nat \<Rightarrow> u8 list option) \<Rightarrow> nat \<Rightarrow> nat \<Rightarrow> (cbb, nat) op" where
  "CBB_add_space malloc d len =
    op_bind (CBB_flush malloc d) (\<lambda>_ s. cbb_buffer_add malloc (cbb_get_base d s) len s)"

definition CBB_reserve :: "(nat \<Rightarrow> u8 list option) \<Rightarrow> nat \<Rightarrow> nat \<Rightarrow> (cbb, nat) op" where
  "CBB_reserve malloc d len =
    op_bind (CBB_flush malloc d) (\<lambda>_ s. cbb_buffer_reserve malloc (cbb_get_base d s) len s)"

definition CBB_did_write :: "nat \<Rightarrow> nat \<Rightarrow> (cbb, unit) op" where
  "CBB_did_write d len s =
    (let newlen = sz_add (b_len s) len
     in if d < length (children s) \<or> newlen < b_len s \<or> newlen > b_cap s then (None, s)
        else (Some (), s\<lparr>b_len := newlen\<rparr>))"

definition CBB_add_bytes :: "(nat \<Rightarrow> u8 list option) \<Rightarrow> nat \<Rightarrow> u8 list \<Rightarrow> nat \<Rightarrow> (cbb, unit) op" where
  "CBB_add_bytes malloc d data len =
    op_bind (CBB_add_space malloc d len) (\<lambda>out s. (Some (), buf_store out (take len data) s))"

definition CBB_add_zeros :: "(nat \<Rightarrow> u8 list option) \<Rightarrow> nat \<Rightarrow> nat \<Rightarrow> (cbb, unit) op" where
  "CBB_add_zeros malloc d len =
    op_bind (CBB_add_space malloc d len) (\<lambda>out s. (Some (), buf_store out (replicate len 0) s))"

definition cbb_add_u :: "(nat \<Rightarrow> u8 list option) \<Rightarrow> nat \<Rightarrow> u64 \<Rightarrow> nat \<Rightarrow> (cbb, unit) op" where
  "cbb_add_u malloc d v len_len =
    op_bind (CBB_add_space malloc d len_len) (\<lambda>buf s.
      let (v, s) = buf_put_be len_len buf (unat v) s
      in if v \<noteq> 0 then (None, cbb_on_error d s) else (Some (), s))"

definition CBB_add_u8 :: "(nat \<Rightarrow> u8 list option) \<Rightarrow> nat \<Rightarrow> u8 \<Rightarrow> (cbb, unit) op" where
  "CBB_add_u8 malloc d value = cbb_add_u malloc d (ucast value) 1"

definition CBB_add_u16 :: "(nat \<Rightarrow> u8 list option) \<Rightarrow> nat \<Rightarrow> u16 \<Rightarrow> (cbb, unit) op" where
  "CBB_add_u16 malloc d value = cbb_add_u malloc d (ucast value) 2"

definition CBB_add_u16le :: "(nat \<Rightarrow> u8 list option) \<Rightarrow> nat \<Rightarrow> u16 \<Rightarrow> (cbb, unit) op" where
  "CBB_add_u16le malloc d value = CBB_add_u16 malloc d (CRYPTO_bswap2 value)"

definition CBB_add_u24 :: "(nat \<Rightarrow> u8 list option) \<Rightarrow> nat \<Rightarrow> u32 \<Rightarrow> (cbb, unit) op" where
  "CBB_add_u24 malloc d value = cbb_add_u malloc d (ucast value) 3"

definition CBB_add_u32 :: "(nat \<Rightarrow> u8 list option) \<Rightarrow> nat \<Rightarrow> u32 \<Rightarrow> (cbb, unit) op" where
  "CBB_add_u32 malloc d value = cbb_add_u malloc d (ucast value) 4"

definition CBB_add_u32le :: "(nat \<Rightarrow> u8 list option) \<Rightarrow> nat \<Rightarrow> u32 \<Rightarrow> (cbb, unit) op" where
  "CBB_add_u32le malloc d value = CBB_add_u32 malloc d (CRYPTO_bswap4 value)"

definition CBB_add_u64 :: "(nat \<Rightarrow> u8 list option) \<Rightarrow> nat \<Rightarrow> u64 \<Rightarrow> (cbb, unit) op" where
  "CBB_add_u64 malloc d value = cbb_add_u malloc d value 8"

definition CBB_add_u64le :: "(nat \<Rightarrow> u8 list option) \<Rightarrow> nat \<Rightarrow> u64 \<Rightarrow> (cbb, unit) op" where
  "CBB_add_u64le malloc d value = CBB_add_u64 malloc d (CRYPTO_bswap8 value)"

definition CBB_discard_child :: "nat \<Rightarrow> cbb \<Rightarrow> cbb" where
  "CBB_discard_child d s =
    (if d < length (children s)
     then s\<lparr>b_len := ch_offset (children s ! d), children := take d (children s)\<rparr>
     else s)"

section \<open>Adding ASN.1\<close>

function base128_len_len :: "u64 \<Rightarrow> nat" where
  "base128_len_len copy = (if copy > 0 then Suc (base128_len_len (drop_bit 7 copy)) else 0)"
  by pat_completeness auto
termination
proof (relation "measure unat", goal_cases)
  case (2 copy)
  then have "unat copy \<noteq> 0" by (auto simp: unat_eq_0)
  moreover have "unat (drop_bit 7 copy) = unat copy div 128"
    unfolding unat_drop_bit_eq by (simp add: drop_bit_eq_div)
  ultimately show ?case by simp
qed simp

declare base128_len_len.simps [simp del]

text \<open>The writing loop of \<open>add_base128_integer\<close>, from byte \<open>n - 1\<close> down to byte 0.\<close>

fun base128_write :: "(nat \<Rightarrow> u8 list option) \<Rightarrow> nat \<Rightarrow> u64 \<Rightarrow> nat \<Rightarrow> (cbb, unit) op" where
  "base128_write malloc d v 0 = op_ret ()"
| "base128_write malloc d v (Suc i) =
    (let byte = ucast (drop_bit (7 * i) v) AND (0x7f :: u8);
         byte = (if i \<noteq> 0 then byte OR 0x80 else byte)
     in op_bind (CBB_add_u8 malloc d byte) (\<lambda>_. base128_write malloc d v i))"

definition add_base128_integer :: "(nat \<Rightarrow> u8 list option) \<Rightarrow> nat \<Rightarrow> u64 \<Rightarrow> (cbb, unit) op" where
  "add_base128_integer malloc d v =
    (let len_len = base128_len_len v; len_len = (if len_len = 0 then 1 else len_len)
     in base128_write malloc d v len_len)"

definition CBB_add_asn1 :: "(nat \<Rightarrow> u8 list option) \<Rightarrow> nat \<Rightarrow> u32 \<Rightarrow> (cbb, unit) op" where
  "CBB_add_asn1 malloc d tag =
    op_bind (CBB_flush malloc d) (\<lambda>_.
      let tag_bits = ucast (drop_bit CBS_ASN1_TAG_SHIFT tag) AND (0xe0 :: u8);
          tag_number = tag AND CBS_ASN1_TAG_NUMBER_MASK
      in op_bind
           (if tag_number \<ge> 0x1f
            then op_bind (CBB_add_u8 malloc d (tag_bits OR 0x1f)) (\<lambda>_.
                   add_base128_integer malloc d (ucast tag_number))
            else CBB_add_u8 malloc d (tag_bits OR ucast tag_number))
           (\<lambda>_. cbb_add_child malloc d 1 True))"

text \<open>\<open>goto err\<close> of the functions below: a failure locks the builder.\<close>

definition or_cbb_error :: "nat \<Rightarrow> (cbb, 'a) op \<Rightarrow> (cbb, 'a) op" where
  "or_cbb_error d m s = (case m s of (None, s) \<Rightarrow> (None, cbb_on_error d s) | r \<Rightarrow> r)"

text \<open>The loop of \<open>CBB_add_asn1_uint64_with_tag\<close> over the bytes still to write, most
  significant first; the result is \<open>started\<close>.\<close>

fun uint64_write :: "(nat \<Rightarrow> u8 list option) \<Rightarrow> nat \<Rightarrow> bool \<Rightarrow> u8 list \<Rightarrow> (cbb, bool) op" where
  "uint64_write malloc child started [] = op_ret started"
| "uint64_write malloc child started (byte # bytes) =
    (if \<not> started \<and> byte = 0 then uint64_write malloc child started bytes
     else
       op_bind (if \<not> started \<and> byte AND 0x80 \<noteq> 0 then CBB_add_u8 malloc child 0 else op_ret ()) (\<lambda>_.
         op_bind (CBB_add_u8 malloc child byte) (\<lambda>_. uint64_write malloc child True bytes)))"

definition CBB_add_asn1_uint64_with_tag ::
  "(nat \<Rightarrow> u8 list option) \<Rightarrow> nat \<Rightarrow> u64 \<Rightarrow> u32 \<Rightarrow> (cbb, unit) op" where
  "CBB_add_asn1_uint64_with_tag malloc d value tag =
    op_bind
      (or_cbb_error d
        (op_bind (CBB_add_asn1 malloc d tag) (\<lambda>_.
          op_bind (uint64_write malloc (Suc d) False
                    (map (\<lambda>i. ucast (drop_bit (8 * (7 - i)) value AND 0xff)) [0..<8])) (\<lambda>started.
            if \<not> started then CBB_add_u8 malloc (Suc d) 0 else op_ret ()))))
      (\<lambda>_. CBB_flush malloc d)"

definition CBB_add_asn1_uint64 :: "(nat \<Rightarrow> u8 list option) \<Rightarrow> nat \<Rightarrow> u64 \<Rightarrow> (cbb, unit) op" where
  "CBB_add_asn1_uint64 malloc d value = CBB_add_asn1_uint64_with_tag malloc d value CBS_ASN1_INTEGER"

text \<open>The \<open>while\<close> loop of \<open>CBB_add_asn1_int64_with_tag\<close> over \<open>start\<close>.\<close>

fun int64_start :: "u8 list \<Rightarrow> nat \<Rightarrow> nat" where
  "int64_start bytes 0 = 0"
| "int64_start bytes (Suc n) =
    (if bytes ! Suc n = 0xff \<and> bytes ! n AND 0x80 \<noteq> 0 then int64_start bytes n else Suc n)"

fun bytes_write_down :: "(nat \<Rightarrow> u8 list option) \<Rightarrow> nat \<Rightarrow> u8 list \<Rightarrow> nat \<Rightarrow> (cbb, unit) op" where
  "bytes_write_down malloc child bytes 0 = op_ret ()"
| "bytes_write_down malloc child bytes (Suc i) =
    op_bind (CBB_add_u8 malloc child (bytes ! i)) (\<lambda>_. bytes_write_down malloc child bytes i)"

definition CBB_add_asn1_int64_with_tag ::
  "(nat \<Rightarrow> u8 list option) \<Rightarrow> nat \<Rightarrow> u64 \<Rightarrow> u32 \<Rightarrow> (cbb, unit) op" where
  \<comment> \<open>the \<open>int64_t\<close> as its 64-bit pattern\<close>
  "CBB_add_asn1_int64_with_tag malloc d value tag =
    (if sint value \<ge> 0 then CBB_add_asn1_uint64_with_tag malloc d value tag
     else
       let bytes = map (\<lambda>i. ucast (drop_bit (8 * i) value)) [0..<8];
           start = int64_start bytes 7
       in op_bind
            (or_cbb_error d
              (op_bind (CBB_add_asn1 malloc d tag) (\<lambda>_.
                bytes_write_down malloc (Suc d) bytes (Suc start))))
            (\<lambda>_. CBB_flush malloc d))"

definition CBB_add_asn1_int64 :: "(nat \<Rightarrow> u8 list option) \<Rightarrow> nat \<Rightarrow> u64 \<Rightarrow> (cbb, unit) op" where
  "CBB_add_asn1_int64 malloc d value = CBB_add_asn1_int64_with_tag malloc d value CBS_ASN1_INTEGER"

definition CBB_add_asn1_octet_string ::
  "(nat \<Rightarrow> u8 list option) \<Rightarrow> nat \<Rightarrow> u8 list \<Rightarrow> nat \<Rightarrow> (cbb, unit) op" where
  "CBB_add_asn1_octet_string malloc d data data_len =
    or_cbb_error d
      (op_bind (CBB_add_asn1 malloc d CBS_ASN1_OCTETSTRING) (\<lambda>_.
        op_bind (CBB_add_bytes malloc (Suc d) data data_len) (\<lambda>_. CBB_flush malloc d)))"

definition CBB_add_asn1_bool :: "(nat \<Rightarrow> u8 list option) \<Rightarrow> nat \<Rightarrow> int \<Rightarrow> (cbb, unit) op" where
  "CBB_add_asn1_bool malloc d value =
    or_cbb_error d
      (op_bind (CBB_add_asn1 malloc d CBS_ASN1_BOOLEAN) (\<lambda>_.
        op_bind (CBB_add_u8 malloc (Suc d) (if value \<noteq> 0 then 0xff else 0)) (\<lambda>_. CBB_flush malloc d)))"

end
