(* ===== verification/Builder.thy ===== *)
theory Builder
  imports Cbb
begin

text \<open>
  What a builder promises, and the proof that \<open>crypto/bytestring/cbb.c\<close> keeps it.

  The specification of a builder is a stack of open frames: the bytes of the top-level string,
  and for each open child the kind of its length prefix and its bytes.  Closing a frame appends
  its prefix and its bytes to the frame below.  The code keeps all frames in one buffer with
  room left for the prefixes; \<open>represents\<close> relates the two.
\<close>

section \<open>The specification\<close>

datatype prefix_kind = Fixed nat | Asn1

type_synonym frame = "prefix_kind \<times> u8 list"
datatype builder = Builder (bld_root: "u8 list") (bld_frames: "frame list")

fun length_prefix :: "prefix_kind \<Rightarrow> nat \<Rightarrow> u8 list option" where
  "length_prefix (Fixed n) len = (if len < 256 ^ n then Some (be_bytes n len) else None)"
| "length_prefix Asn1 len = (if len \<le> 0xfffffffe then Some (len_bytes len) else None)"

text \<open>What open frames, outermost first, add to the frame below them when they are closed.\<close>

fun closed :: "frame list \<Rightarrow> u8 list option" where
  "closed [] = Some []"
| "closed ((k, x) # fs) =
    (case closed fs of None \<Rightarrow> None
     | Some r \<Rightarrow> map_option (\<lambda>p. p @ x @ r) (length_prefix k (length (x @ r))))"

definition bld_append :: "nat \<Rightarrow> u8 list \<Rightarrow> builder \<Rightarrow> builder" where
  "bld_append d x B =
    (if d = 0 then Builder (bld_root B @ x) (bld_frames B)
     else Builder (bld_root B) ((bld_frames B)[d - 1 := (fst (bld_frames B ! (d - 1)), snd (bld_frames B ! (d - 1)) @ x)]))"

definition bld_flush :: "nat \<Rightarrow> builder \<Rightarrow> builder option" where
  "bld_flush d B = map_option (\<lambda>r. bld_append d r (Builder (bld_root B) (take d (bld_frames B)))) (closed (drop d (bld_frames B)))"

definition bld_push :: "prefix_kind \<Rightarrow> builder \<Rightarrow> builder" where
  "bld_push k B = Builder (bld_root B) (bld_frames B @ [(k, [])])"

section \<open>The representation\<close>

definition child_kind :: "cbb_child \<Rightarrow> prefix_kind" where
  "child_kind c = (if ch_pending_is_asn1 c then Asn1 else Fixed (ch_pending_len_len c))"

definition child_ok :: "cbb_child \<Rightarrow> bool" where
  "child_ok c \<longleftrightarrow> (ch_pending_is_asn1 c \<longrightarrow> ch_pending_len_len c = 1)"

fun frames_at :: "nat \<Rightarrow> cbb_child list \<Rightarrow> frame list \<Rightarrow> u8 list \<Rightarrow> bool" where
  "frames_at off [] fs bs \<longleftrightarrow> fs = [] \<and> bs = []"
| "frames_at off (c # cs) fs bs \<longleftrightarrow>
    ch_offset c = off \<and> child_ok c \<and>
    (\<exists>p x fs' bs'. fs = (child_kind c, x) # fs' \<and> bs = p @ x @ bs' \<and> length p = ch_pending_len_len c \<and>
      frames_at (off + length p + length x) cs fs' bs')"

definition written :: "cbb \<Rightarrow> u8 list" where
  "written s = take (b_len s) (buf_bytes s)"

definition cbb_ok :: "cbb \<Rightarrow> bool" where
  "cbb_ok s \<longleftrightarrow> b_len s \<le> b_cap s \<and> b_cap s \<le> length (buf_bytes s) \<and> b_cap s < SIZE_LIMIT \<and> \<not> b_error s"

definition represents :: "cbb \<Rightarrow> builder \<Rightarrow> bool" where
  "represents s B \<longleftrightarrow> cbb_ok s \<and>
    (\<exists>bs. written s = bld_root B @ bs \<and> frames_at (length (bld_root B)) (children s) (bld_frames B) bs)"

text \<open>There is room for \<open>n\<close> bytes in the buffer, or it can be made: growing asks the allocator for
  at most twice the size, which is a \<open>size_t\<close> below the bound.\<close>

definition room :: "(nat \<Rightarrow> u8 list option) \<Rightarrow> cbb \<Rightarrow> nat \<Rightarrow> bool" where
  "room malloc s n \<longleftrightarrow>
    n \<le> b_cap s \<or> b_can_resize s \<and> (\<forall>k<SIZE_LIMIT. malloc k \<noteq> None) \<and> n \<le> 2 ^ 62"

lemma room_mono: "room malloc s n \<Longrightarrow> m \<le> n \<Longrightarrow> room malloc s m"
  by (auto simp: room_def)

text \<open>What no operation but an error changes.\<close>

definition same_kind :: "cbb \<Rightarrow> cbb \<Rightarrow> bool" where
  "same_kind s s' \<longleftrightarrow> b_can_resize s' = b_can_resize s \<and> b_cap s \<le> b_cap s'"

lemma same_kind_refl [simp]: "same_kind s s"
  by (simp add: same_kind_def)

lemma same_kind_trans: "same_kind s t \<Longrightarrow> same_kind t u \<Longrightarrow> same_kind s u"
  by (auto simp: same_kind_def)

lemma room_same_kind: "same_kind s s' \<Longrightarrow> room malloc s n \<Longrightarrow> room malloc s' n"
  by (auto simp: room_def same_kind_def)

section \<open>The buffer\<close>

lemma buf_store_simps [simp]:
  "b_len (buf_store i bs s) = b_len s" "b_cap (buf_store i bs s) = b_cap s"
  "b_can_resize (buf_store i bs s) = b_can_resize s" "b_error (buf_store i bs s) = b_error s"
  "children (buf_store i bs s) = children s"
  by (simp_all add: buf_store_def)

lemma buf_bytes_store:
  "i + length bs \<le> length (buf_bytes s) \<Longrightarrow>
    buf_bytes (buf_store i bs s) = take i (buf_bytes s) @ bs @ drop (i + length bs) (buf_bytes s)"
  by (auto simp: buf_bytes_def buf_store_def split: option.split)

lemma length_written: "cbb_ok s \<Longrightarrow> length (written s) = b_len s"
  by (simp add: cbb_ok_def written_def)

lemma cbb_ok_store:
  "cbb_ok s \<Longrightarrow> i + length bs \<le> b_len s \<Longrightarrow> cbb_ok (buf_store i bs s)"
  by (simp add: cbb_ok_def buf_bytes_store)

lemma written_store:
  assumes "cbb_ok s" "written s = pre @ p @ y" "length q = length p" "i = length pre"
  shows "written (buf_store i q s) = pre @ q @ y"
proof -
  have l: "b_len s = length pre + length p + length y"
    using length_written [OF assms(1)] unfolding assms(2) by simp
  have b: "i + length q \<le> length (buf_bytes s)" using assms l by (simp add: cbb_ok_def)
  have e: "take i (take (b_len s) (buf_bytes s)) = pre" "drop (i + length q) (take (b_len s) (buf_bytes s)) = y"
    using assms(2-4) unfolding written_def by simp_all
  have "take (b_len s) (take i (buf_bytes s) @ q @ drop (i + length q) (buf_bytes s))
      = take i (take (b_len s) (buf_bytes s)) @ q @ drop (i + length q) (take (b_len s) (buf_bytes s))"
    using l b assms(3,4) by (simp add: drop_take min_def)
  then show ?thesis
    unfolding e by (simp add: written_def buf_bytes_store [OF b])
qed

lemma buf_put_be_eq:
  "i + n \<le> length (buf_bytes s) \<Longrightarrow> buf_put_be n i v s = (v div 256 ^ n, buf_store i (be_bytes n v) s)"
proof (induction n arbitrary: v s)
  case 0
  then show ?case
    by (cases "b_buf s") (simp_all add: buf_store_def)
next
  case (Suc n)
  let ?t = "buf_store (i + n) [word_of_nat v] s"
  have "length (buf_bytes ?t) = length (buf_bytes s)" using Suc.prems by (simp add: buf_bytes_store)
  then have IH: "buf_put_be n i (v div 256) ?t = (v div 256 div 256 ^ n, buf_store i (be_bytes n (v div 256)) ?t)"
    using Suc.prems by (intro Suc.IH) simp
  have "buf_store i (be_bytes n (v div 256)) ?t = buf_store i (be_bytes (Suc n) v) s"
    using Suc.prems
    by (cases "b_buf s") (simp_all add: buf_store_def buf_bytes_def min_def Suc_diff_le)
  then show ?case using IH by (simp add: div_mult2_eq)
qed

lemma OPENSSL_malloc_total:
  assumes "\<forall>k<SIZE_LIMIT. malloc k \<noteq> None" "n + 8 < SIZE_LIMIT"
  shows "OPENSSL_malloc malloc n \<noteq> None"
  using assms by (auto simp: OPENSSL_malloc_def split: option.split)

lemma realloc_keeps:
  assumes "malloc_ok malloc" "OPENSSL_realloc malloc (b_buf s) n = Some newbuf" "n < SIZE_LIMIT"
  shows "length newbuf = n \<and> (\<forall>k\<le>n. k \<le> length (buf_bytes s) \<longrightarrow> take k newbuf = take k (buf_bytes s))"
proof (cases "b_buf s")
  case None
  then show ?thesis
    using assms length_OPENSSL_malloc [OF assms(1)] by (simp add: OPENSSL_realloc_def buf_bytes_def)
next
  case (Some old)
  then show ?thesis
    using assms(2) length_OPENSSL_malloc [OF assms(1) _ assms(3)]
    by (auto simp: OPENSSL_realloc_def Let_def buf_bytes_def min_def split: option.splits if_splits)
qed

lemma cbb_buffer_reserve_correct:
  assumes m: "malloc_ok malloc" and ok: "cbb_ok s" and n: "n < SIZE_LIMIT"
  shows "case cbb_buffer_reserve malloc True n s of
      (Some out, s') \<Rightarrow> out = b_len s \<and> cbb_ok s' \<and> written s' = written s \<and> b_len s' = b_len s \<and>
        b_len s + n \<le> b_cap s' \<and> children s' = children s \<and> same_kind s s'
    | (None, s') \<Rightarrow> b_error s' \<and> \<not> room malloc s (b_len s + n)"
proof -
  let ?new = "b_len s + n"
  have caps: "b_len s \<le> b_cap s" "b_cap s \<le> length (buf_bytes s)" "b_cap s < SIZE_LIMIT" "\<not> b_error s"
    using ok by (simp_all add: cbb_ok_def)
  have ov: "sz_add (b_len s) n < b_len s \<longleftrightarrow> SIZE_LIMIT \<le> ?new"
    using caps n by (intro sz_add_overflow) simp_all
  show ?thesis
  proof (cases "SIZE_LIMIT \<le> ?new")
    case True
    then show ?thesis using ov caps by (simp add: cbb_buffer_reserve_def Let_def room_def)
  next
    case nov: False
    then have sum: "sz_add (b_len s) n = ?new" by simp
    show ?thesis
    proof (cases "?new > b_cap s")
      case False
      then show ?thesis using ov nov sum ok caps by (simp add: cbb_buffer_reserve_def Let_def)
    next
      case grow: True
      show ?thesis
      proof (cases "b_can_resize s")
        case False
        then show ?thesis
          using ov nov sum grow by (simp add: cbb_buffer_reserve_def Let_def room_def)
      next
        case resize: True
        define newcap where "newcap = (let c = (b_cap s * 2) mod SIZE_LIMIT in if c < b_cap s \<or> c < ?new then ?new else c)"
        have nc: "?new \<le> newcap" "newcap < SIZE_LIMIT" "b_cap s \<le> newcap"
          using nov grow by (auto simp: newcap_def Let_def)
        have step: "cbb_buffer_reserve malloc True n s =
            (case OPENSSL_realloc malloc (b_buf s) newcap of None \<Rightarrow> (None, s\<lparr>b_error := True\<rparr>)
             | Some newbuf \<Rightarrow> (Some (b_len s), s\<lparr>b_buf := Some newbuf, b_cap := newcap\<rparr>))"
          using ov nov sum grow resize unfolding newcap_def Let_def
          by (simp add: cbb_buffer_reserve_def Let_def cong: option.case_cong)
        show ?thesis
        proof (cases "OPENSSL_realloc malloc (b_buf s) newcap")
          case (Some newbuf)
          have lb: "length newbuf = newcap \<and> take (b_len s) newbuf = take (b_len s) (buf_bytes s)"
            using realloc_keeps [OF m Some nc(2)] caps nc(3) by simp
          then have "written (s\<lparr>b_buf := Some newbuf, b_cap := newcap\<rparr>) = written s"
            by (simp add: written_def buf_bytes_def)
          moreover have "cbb_ok (s\<lparr>b_buf := Some newbuf, b_cap := newcap\<rparr>)"
            using caps nc lb by (simp add: cbb_ok_def buf_bytes_def)
          ultimately show ?thesis
            using step Some nc by (simp add: same_kind_def)
        next
          case None
          have "\<not> room malloc s ?new"
          proof
            assume "room malloc s ?new"
            then have tot: "\<forall>k<SIZE_LIMIT. malloc k \<noteq> None" and b: "?new \<le> 2 ^ 62"
              using grow by (auto simp: room_def)
            have "b_cap s < 2 ^ 62" using b grow by simp
            then have "newcap + 8 < SIZE_LIMIT"
              using b by (simp add: newcap_def Let_def)
            then have "OPENSSL_malloc malloc newcap \<noteq> None"
              using OPENSSL_malloc_total [OF tot] by blast
            with None show False
              by (auto simp: OPENSSL_realloc_def Let_def split: option.splits)
          qed
          then show ?thesis using step None by simp
        qed
      qed
    qed
  qed
qed

lemma cbb_buffer_add_correct:
  assumes m: "malloc_ok malloc" and ok: "cbb_ok s" and n: "n < SIZE_LIMIT"
  shows "case cbb_buffer_add malloc True n s of
      (Some out, s') \<Rightarrow> out = b_len s \<and> cbb_ok s' \<and> (\<exists>x. length x = n \<and> written s' = written s @ x) \<and>
        children s' = children s \<and> same_kind s s'
    | (None, s') \<Rightarrow> b_error s' \<and> \<not> room malloc s (b_len s + n)"
proof -
  obtain x t where r: "cbb_buffer_reserve malloc True n s = (x, t)" by fastforce
  note c = cbb_buffer_reserve_correct [OF assms, unfolded r]
  show ?thesis
  proof (cases x)
    case None
    then show ?thesis using c r by (simp add: cbb_buffer_add_def)
  next
    case (Some out)
    let ?u = "t\<lparr>b_len := b_len t + n\<rparr>"
    have t: "out = b_len s" "cbb_ok t" "written t = written s" "b_len t = b_len s" "b_len s + n \<le> b_cap t"
        "children t = children s" "same_kind s t"
      using c Some by simp_all
    have "written ?u = written s @ take n (drop (b_len s) (buf_bytes t))"
      using t(3,4) by (simp add: written_def buf_bytes_def take_add)
    moreover have "length (take n (drop (b_len s) (buf_bytes t))) = n"
      using t(2,5) unfolding length_take length_drop cbb_ok_def by linarith
    moreover have "cbb_ok ?u" using t by (simp add: cbb_ok_def buf_bytes_def)
    ultimately show ?thesis
      using Some r t by (auto simp: cbb_buffer_add_def same_kind_def)
  qed
qed


section \<open>The length prefix\<close>

lemma be_bytes_min:
  assumes "256 ^ k \<le> v" "v < 256 ^ Suc k" "k < 8"
  shows "be_bytes (Suc k) v = be_min v"
proof -
  let ?b = "be_bytes (Suc k) v"
  have v: "be_val ?b = v" using assms(2) by (simp only: be_val_be_bytes mod_less)
  obtain b bs where b: "?b = b # bs" by (cases ?b) (auto dest: arg_cong [of _ _ length])
  have "length bs = k" using arg_cong [OF b, of length] by simp
  moreover from this have "b \<noteq> 0"
    using v assms(1) be_val_bound [of bs] unfolding b by (auto simp: be_val_Cons)
  ultimately have "be_min (be_val ?b) = ?b"
    using assms(3) unfolding b by (intro be_min_be_val) simp_all
  then show ?thesis unfolding v by (rule sym)
qed

lemma asn1_len_len_correct:
  "case asn1_len_len n of
     None \<Rightarrow> length_prefix Asn1 n = None
   | Some (len_len, ib, n') \<Rightarrow> length_prefix Asn1 n = Some (ib # be_bytes (len_len - 1) n') \<and>
       1 \<le> len_len \<and> len_len \<le> 5 \<and> n' div 256 ^ (len_len - 1) = 0 \<and> (len_len \<noteq> 1 \<longrightarrow> n' = n)"
proof -
  have long: "len_bytes n = word_of_nat (128 + k) # be_bytes k n"
    if "128 \<le> n" "256 ^ (k - 1) \<le> n" "n < 256 ^ k" "0 < k" "k \<le> 8" for k
  proof -
    from that(4) obtain j where k: "k = Suc j" by (cases k) auto
    have "be_bytes k n = be_min n" unfolding k by (rule be_bytes_min) (use that in \<open>simp_all add: k\<close>)
    then show ?thesis using that(1) by (simp add: len_bytes_def flip: \<open>be_bytes k n = be_min n\<close>)
  qed
  consider "n > 0xfffffffe" | "n \<le> 0xfffffffe" "n > 0xffffff" | "n \<le> 0xffffff" "n > 0xffff"
    | "n \<le> 0xffff" "n > 0xff" | "n \<le> 0xff" "n > 0x7f" | "n \<le> 0x7f" by linarith
  then show ?thesis
  proof cases
    case 1
    then show ?thesis by (simp add: asn1_len_len_def)
  next
    case 2
    then show ?thesis using long [of 4] by (simp add: asn1_len_len_def del: be_bytes.simps)
  next
    case 3
    then show ?thesis using long [of 3] by (simp add: asn1_len_len_def del: be_bytes.simps)
  next
    case 4
    then show ?thesis using long [of 2] by (simp add: asn1_len_len_def del: be_bytes.simps)
  next
    case 5
    then show ?thesis using long [of 1] by (simp add: asn1_len_len_def del: be_bytes.simps)
  next
    case 6
    then show ?thesis by (simp add: asn1_len_len_def len_bytes_def)
  qed
qed


text \<open>One child whose bytes \<open>y\<close> are complete: its prefix replaces the placeholder \<open>p\<close>.\<close>

lemma write_prefix_fixed:
  assumes ok: "cbb_ok s" and w: "written s = pre @ p @ y" and len: "len = length y"
  shows "buf_put_be (length p) (length pre) len s
      = (len div 256 ^ length p, buf_store (length pre) (be_bytes (length p) len) s)"
    "cbb_ok (buf_store (length pre) (be_bytes (length p) len) s)"
    "written (buf_store (length pre) (be_bytes (length p) len) s) = pre @ be_bytes (length p) len @ y"
proof -
  have l: "b_len s = length pre + length p + length y"
    using length_written [OF ok] unfolding w by simp
  then show "buf_put_be (length p) (length pre) len s
      = (len div 256 ^ length p, buf_store (length pre) (be_bytes (length p) len) s)"
    using ok by (intro buf_put_be_eq) (simp add: cbb_ok_def)
  show "cbb_ok (buf_store (length pre) (be_bytes (length p) len) s)"
    using l by (intro cbb_ok_store [OF ok]) simp
  show "written (buf_store (length pre) (be_bytes (length p) len) s) = pre @ be_bytes (length p) len @ y"
    by (rule written_store [OF ok w]) simp_all
qed

lemma children_buf_put_be [simp]: "children (snd (buf_put_be n i v s)) = children s"
  by (induction n arbitrary: v s) simp_all

lemma write_prefix_asn1:
  assumes m: "malloc_ok malloc" and ok: "cbb_ok s" and w: "written s = pre @ p @ y"
    and p1: "length p = 1" and ll: "asn1_len_len (length y) = Some (len_len, ib, n')"
    and asn1: "ch_pending_is_asn1 c" and off: "ch_offset c = length pre" and st: "st = length pre + 1"
  shows "case cbb_write_prefix malloc c st s of
      (Some _, s') \<Rightarrow> cbb_ok s' \<and> written s' = pre @ ib # be_bytes (len_len - 1) n' @ y \<and>
        children s' = children s \<and> same_kind s s'
    | (None, s') \<Rightarrow> \<not> room malloc s (length pre + len_len + length y)"
proof -
  have pl: "length_prefix Asn1 (length y) = Some (ib # be_bytes (len_len - 1) n')" "1 \<le> len_len" "len_len \<le> 5"
    "n' div 256 ^ (len_len - 1) = 0" "len_len \<noteq> 1 \<Longrightarrow> n' = length y"
    using asn1_len_len_correct [of "length y"] unfolding ll by simp_all
  have l: "b_len s = length pre + 1 + length y"
    using length_written [OF ok] p1 unfolding w by simp
  define e where "e = len_len - 1"
  obtain x t where add: "(if len_len \<noteq> 1 then op_bind (cbb_buffer_add malloc True e) (\<lambda>_ s.
                         (Some (), buf_store (st + e) (take n' (drop st (buf_bytes s))) s))
                  else op_ret ()) s = (x, t)" by fastforce
  have step: "cbb_write_prefix malloc c st s =
    (case x of None \<Rightarrow> (None, t) | Some _ \<Rightarrow>
      (let (len, s) = buf_put_be e (length pre + 1) n' (buf_store (length pre) [ib] t)
       in if len \<noteq> 0 then (None, s) else (Some (), s)))"
    using add l ll asn1 off st unfolding cbb_write_prefix_def Let_def e_def op_bind_def
    by (simp add: Let_def cong: option.case_cong)
  have grown: "case x of
      Some _ \<Rightarrow> cbb_ok t \<and> (\<exists>q. length q = len_len \<and> written t = pre @ q @ y) \<and> children t = children s \<and> same_kind s t
    | None \<Rightarrow> \<not> room malloc s (length pre + len_len + length y)"
  proof (cases "len_len = 1")
    case True
    then show ?thesis using add ok w p1 by auto
  next
    case False
    have e: "0 < e" "e < SIZE_LIMIT" "len_len = e + 1" using False pl unfolding e_def by auto
    obtain z u where r: "cbb_buffer_add malloc True e s = (z, u)" by fastforce
    note c = cbb_buffer_add_correct [OF m ok e(2), unfolded r prod.case]
    show ?thesis
    proof (cases z)
      case None
      then show ?thesis using c add False r l e by (simp add: algebra_simps)
    next
      case (Some out)
      then obtain g where u: "cbb_ok u" "length g = e" "written u = (pre @ p @ y) @ g" "children u = children s" "same_kind s u"
        using c w by auto
      have lu: "b_len u = length pre + 1 + length y + e"
        using length_written [OF u(1)] p1 u(2) unfolding u(3) by simp
      have tk: "take n' (drop st (buf_bytes u)) = y"
      proof -
        have "take n' (drop st (buf_bytes u)) = take n' (drop st (written u))"
          using lu pl(5) False st by (simp add: written_def drop_take min_def)
        then show ?thesis using p1 pl(5) False st unfolding u(3) by simp
      qed
      have t: "x = Some ()" "t = buf_store (st + e) y u"
        using add False r Some tk by simp_all
      define mid where "mid = take (len_len) (p @ y @ g)"
      define old where "old = drop len_len (p @ y @ g)"
      have mo: "length mid = len_len" "length old = length y"
        using p1 u(2) e unfolding mid_def old_def by simp_all
      have mow: "pre @ mid @ old = written u"
        unfolding mid_def old_def u(3) append_take_drop_id append_assoc by (rule refl)
      have "written (buf_store (st + e) y u) = (pre @ mid) @ y @ []"
        by (rule written_store [OF u(1), where p = old]) (use mo mow st e in simp_all)
      moreover have "cbb_ok (buf_store (st + e) y u)"
        using lu st by (intro cbb_ok_store [OF u(1)]) simp
      ultimately show ?thesis using t u mo by (auto simp: same_kind_def)
    qed
  qed
  show ?thesis
  proof (cases x)
    case None
    then show ?thesis using grown step by simp
  next
    case (Some _)
    then obtain q where t: "cbb_ok t" "length q = len_len" "written t = pre @ q @ y" "children t = children s" "same_kind s t"
      using grown by auto
    obtain q0 q' where q: "q = q0 # q'" "length q' = e" using t(2) pl(2) unfolding e_def by (cases q) auto
    have lt: "b_len t = length pre + len_len + length y"
      using length_written [OF t(1)] t(2) unfolding t(3) by simp
    let ?v = "buf_store (length pre) [ib] t"
    have v: "cbb_ok ?v" "written ?v = (pre @ [ib]) @ q' @ y"
    proof -
      show "cbb_ok ?v" using lt pl(2) by (intro cbb_ok_store [OF t(1)]) simp
      show "written ?v = (pre @ [ib]) @ q' @ y"
        using written_store [OF t(1), of pre "[q0]" "q' @ y" "[ib]"] t(3) q(1) by simp
    qed
    let ?w = "buf_store (length pre + 1) (be_bytes e n') ?v"
    have w': "buf_put_be e (length pre + 1) n' ?v = (0, ?w)"
      using lt v(1) pl(2,4) by (subst buf_put_be_eq) (auto simp: cbb_ok_def e_def)
    have "written ?w = (pre @ [ib]) @ be_bytes e n' @ y"
      by (rule written_store [OF v]) (simp_all add: q(2))
    moreover have "cbb_ok ?w" using lt pl(2) unfolding e_def by (intro cbb_ok_store [OF v(1)]) simp
    ultimately show ?thesis
      using Some step w' t(4,5) by (simp add: e_def same_kind_def)
  qed
qed

lemma write_prefix_correct:
  assumes m: "malloc_ok malloc" and ok: "cbb_ok s" and w: "written s = pre @ p @ y"
    and c: "child_ok c" "length p = ch_pending_len_len c" "ch_offset c = length pre"
    and st: "st = length pre + length p"
  shows "case cbb_write_prefix malloc c st s of
      (Some _, s') \<Rightarrow> cbb_ok s' \<and> children s' = children s \<and> same_kind s s' \<and>
        (\<exists>q. length_prefix (child_kind c) (length y) = Some q \<and> length p \<le> length q \<and> written s' = pre @ q @ y)
    | (None, s') \<Rightarrow>
        (\<forall>q. length_prefix (child_kind c) (length y) = Some q \<longrightarrow> \<not> room malloc s (length (pre @ q @ y)))"
proof -
  have l: "b_len s - st = length y"
    using length_written [OF ok] st unfolding w by simp
  show ?thesis
  proof (cases "ch_pending_is_asn1 c")
    case False
    note f = write_prefix_fixed [OF ok w refl]
    have "cbb_write_prefix malloc c st s =
      (let (len, s) = buf_put_be (length p) (length pre) (length y) s
       in if len \<noteq> 0 then (None, s) else (Some (), s))"
      using False c l by (simp add: cbb_write_prefix_def Let_def)
    then show ?thesis
      using f False by (auto simp: child_kind_def c(2) div_eq_0_iff same_kind_def)
  next
    case True
    have p1: "length p = 1" using True c by (simp add: child_ok_def)
    show ?thesis
    proof (cases "asn1_len_len (length y)")
      case None
      then show ?thesis
        using True l asn1_len_len_correct [of "length y"]
        by (simp add: cbb_write_prefix_def Let_def child_kind_def)
    next
      case (Some a)
      obtain len_len ib n' where a: "a = (len_len, ib, n')" by (cases a)
      have pl: "length_prefix Asn1 (length y) = Some (ib # be_bytes (len_len - 1) n')" "1 \<le> len_len"
        using asn1_len_len_correct [of "length y"] unfolding Some a by simp_all
      have st1: "st = length pre + 1" using st p1 by simp
      show ?thesis
        using write_prefix_asn1 [OF m ok w p1 Some [unfolded a] True c(3) st1] pl p1 True
        by (auto simp: child_kind_def add.assoc split: prod.splits option.splits)
    qed
  qed
qed


section \<open>Flushing closes the frames above\<close>

lemma closed_Cons_length:
  assumes "closed ((k, x) # fs) = Some r"
  obtains r' q where "closed fs = Some r'" "length_prefix k (length (x @ r')) = Some q" "r = q @ x @ r'"
  using assms by (auto split: option.splits)

lemma length_prefix_ge:
  "child_ok c \<Longrightarrow> length_prefix (child_kind c) n = Some q \<Longrightarrow> ch_pending_len_len c \<le> length q"
  by (auto simp: child_ok_def child_kind_def len_bytes_def split: if_splits)

theorem CBB_flush_closes:
  assumes "malloc_ok malloc" "cbb_ok s" "d \<le> length (children s)" "written s = pre @ bs"
    "frames_at (length pre) (drop d (children s)) fs bs"
  shows "case CBB_flush malloc d s of
      (Some _, s') \<Rightarrow> \<exists>r. closed fs = Some r \<and> cbb_ok s' \<and> written s' = pre @ r \<and>
        children s' = take d (children s) \<and> same_kind s s'
    | (None, s') \<Rightarrow> b_error s' \<and> (\<forall>r. closed fs = Some r \<longrightarrow> \<not> room malloc s (length (pre @ r)))"
  using assms
proof (induction malloc d s arbitrary: pre bs fs rule: CBB_flush.induct)
  case (1 malloc d s)
  have err: "\<not> b_error s" using "1.prems"(2) by (simp add: cbb_ok_def)
  show ?case
  proof (cases "d = length (children s)")
    case True
    then show ?thesis
      using "1.prems" err by (subst CBB_flush.simps) (simp add: cbb_get_base_def)
  next
    case False
    then have d: "d < length (children s)" using "1.prems"(3) by simp
    define c where "c = children s ! d"
    have dr: "drop d (children s) = c # drop (Suc d) (children s)"
      using d by (simp add: c_def Cons_nth_drop_Suc)
    obtain p x fs' bs' where c: "ch_offset c = length pre" "child_ok c" "fs = (child_kind c, x) # fs'"
        "bs = p @ x @ bs'" "length p = ch_pending_len_len c"
        "frames_at (length pre + length p + length x) (drop (Suc d) (children s)) fs' bs'"
      using "1.prems"(5) unfolding dr by auto
    define st where "st = length pre + length p"
    have wl: "b_len s = length (pre @ p @ x @ bs')"
      using length_written [OF "1.prems"(2)] unfolding "1.prems"(4) c(4) by simp
    have st: "sz_add (ch_offset c) (ch_pending_len_len c) = st"
      using wl "1.prems"(2) c(1,5) by (simp add: cbb_ok_def st_def)
    obtain z t where r: "CBB_flush malloc (Suc d) s = (z, t)" by fastforce
    have IH: "case CBB_flush malloc (Suc d) s of
      (Some _, s') \<Rightarrow> \<exists>r. closed fs' = Some r \<and> cbb_ok s' \<and> written s' = (pre @ p @ x) @ r \<and>
        children s' = take (Suc d) (children s) \<and> same_kind s s'
    | (None, s') \<Rightarrow> b_error s' \<and> (\<forall>r. closed fs' = Some r \<longrightarrow> \<not> room malloc s (length ((pre @ p @ x) @ r)))"
      by (rule "1.IH" [OF _ False])
        (use "1.prems" err d c in \<open>simp_all add: cbb_get_base_def add.assoc\<close>)
    have step: "CBB_flush malloc d s =
      (case z of None \<Rightarrow> (None, cbb_on_error d t)
       | Some _ \<Rightarrow>
          if b_len t < st then (None, cbb_on_error d t)
          else case cbb_write_prefix malloc c st t of
                 (None, s) \<Rightarrow> (None, cbb_on_error d s)
               | (Some _, s) \<Rightarrow> (Some (), s\<lparr>children := take d (children s)\<rparr>))"
      using False d err st c(1) r
      by (subst CBB_flush.simps) (cases z; simp add: cbb_get_base_def Let_def c_def [symmetric] st_def)
    show ?thesis
    proof (cases z)
      case None
      have "\<not> room malloc s (length (pre @ r))" if cl: "closed fs = Some r" for r
      proof -
        obtain r' q where q: "closed fs' = Some r'" "length_prefix (child_kind c) (length (x @ r')) = Some q" "r = q @ x @ r'"
          using cl unfolding c(3) by (rule closed_Cons_length)
        have "\<not> room malloc s (length ((pre @ p @ x) @ r'))" using IH q(1) unfolding r None by auto
        moreover have "length p \<le> length q"
          using length_prefix_ge [OF c(2) q(2)] c(5) by simp
        ultimately show ?thesis using room_mono [of malloc s "length (pre @ r)"] unfolding q(3) by auto
      qed
      then show ?thesis using step None by (simp add: cbb_on_error_def)
    next
      case (Some _)
      then obtain r' where t: "closed fs' = Some r'" "cbb_ok t" "written t = pre @ p @ x @ r'"
          "children t = take (Suc d) (children s)" "same_kind s t"
        using IH unfolding r by auto
      have lt: "\<not> b_len t < st"
        using length_written [OF t(2)] unfolding t(3) st_def by simp
      obtain w u where wp: "cbb_write_prefix malloc c st t = (w, u)" by fastforce
      note W = write_prefix_correct [OF "1.prems"(1) t(2,3) c(2,5,1) st_def, unfolded wp prod.case]
      show ?thesis
      proof (cases w)
        case None
        have "\<not> room malloc s (length (pre @ r))" if cl: "closed fs = Some r" for r
        proof -
          obtain q where q: "length_prefix (child_kind c) (length (x @ r')) = Some q" "r = q @ x @ r'"
            using cl t(1) unfolding c(3) by (auto elim!: closed_Cons_length)
          then have "\<not> room malloc t (length (pre @ r))" using W None by auto
          then show ?thesis using room_same_kind [OF t(5)] by blast
        qed
        then show ?thesis using step Some None lt wp by (simp add: cbb_on_error_def)
      next
        case w: (Some _)
        then obtain q where u: "cbb_ok u" "children u = children t" "same_kind t u"
            "length_prefix (child_kind c) (length (x @ r')) = Some q" "written u = pre @ q @ x @ r'"
          using W by auto
        have "closed fs = Some (q @ x @ r')" using t(1) u(4) by (simp add: c(3))
        moreover have "CBB_flush malloc d s = (Some (), u\<lparr>children := take d (children u)\<rparr>)"
          using step Some w lt wp by simp
        ultimately show ?thesis
          using u t(4,5) d same_kind_trans [OF t(5) u(3)]
          by (simp add: cbb_ok_def written_def buf_bytes_def same_kind_def)
      qed
    qed
  qed
qed

end
