(* ===== verification/Writers.thy ===== *)
theory Writers
  imports Builder
begin

text \<open>
  The operations of \<open>crypto/bytestring/cbb.c\<close> against the specification of \<open>Builder\<close>: what each
  of them adds to which frame, by composition from the flush theorem and the buffer lemmas.
\<close>

section \<open>Represented builders\<close>

lemma frames_at_Cons:
  assumes "ch_offset c = off" "child_ok c" "length p = ch_pending_len_len c"
    "frames_at (off + length p + length x) cs fs bs"
  shows "frames_at off (c # cs) ((child_kind c, x) # fs) (p @ x @ bs)"
  unfolding frames_at.simps
  by (intro conjI assms exI [of _ p] exI [of _ x] exI [of _ fs] exI [of _ bs] refl)

lemma frames_at_ConsE:
  assumes "frames_at off (c # cs) fs bs"
  obtains p x fs' bs' where "ch_offset c = off" "child_ok c" "fs = (child_kind c, x) # fs'"
    "bs = p @ x @ bs'" "length p = ch_pending_len_len c" "frames_at (off + length p + length x) cs fs' bs'"
  using assms by auto

lemma frames_at_append:
  "frames_at off (cs1 @ cs2) fs bs \<longleftrightarrow>
    (\<exists>fs1 fs2 b1 b2. fs = fs1 @ fs2 \<and> bs = b1 @ b2 \<and> frames_at off cs1 fs1 b1 \<and>
      frames_at (off + length b1) cs2 fs2 b2)"
proof (induction cs1 arbitrary: off fs bs)
  case (Cons c cs1)
  show ?case
  proof
    assume "frames_at off ((c # cs1) @ cs2) fs bs"
    then obtain p x fs' bs' where c: "ch_offset c = off" "child_ok c" "fs = (child_kind c, x) # fs'"
      "bs = p @ x @ bs'" "length p = ch_pending_len_len c" "frames_at (off + length p + length x) (cs1 @ cs2) fs' bs'"
      by auto
    then obtain fs1 fs2 b1 b2 where "fs' = fs1 @ fs2" "bs' = b1 @ b2"
      "frames_at (off + length p + length x) cs1 fs1 b1"
      "frames_at (off + length p + length x + length b1) cs2 fs2 b2"
      unfolding Cons.IH by blast
    note f = this
    have "frames_at off (c # cs1) ((child_kind c, x) # fs1) (p @ x @ b1)"
      by (rule frames_at_Cons [OF c(1,2,5) f(3)])
    moreover have "fs = ((child_kind c, x) # fs1) @ fs2" "bs = (p @ x @ b1) @ b2"
      using c f by simp_all
    moreover have "frames_at (off + length (p @ x @ b1)) cs2 fs2 b2" using f(4) by (simp add: add.assoc)
    ultimately show "\<exists>fs1 fs2 b1 b2. fs = fs1 @ fs2 \<and> bs = b1 @ b2 \<and> frames_at off (c # cs1) fs1 b1 \<and>
      frames_at (off + length b1) cs2 fs2 b2" by blast
  next
    assume "\<exists>fs1 fs2 b1 b2. fs = fs1 @ fs2 \<and> bs = b1 @ b2 \<and> frames_at off (c # cs1) fs1 b1 \<and>
      frames_at (off + length b1) cs2 fs2 b2"
    then obtain fs1 fs2 b1 b2 where a: "fs = fs1 @ fs2" "bs = b1 @ b2" "frames_at off (c # cs1) fs1 b1"
      "frames_at (off + length b1) cs2 fs2 b2" by blast
    from a(3) obtain p x fs' bs' where c: "ch_offset c = off" "child_ok c" "fs1 = (child_kind c, x) # fs'"
      "b1 = p @ x @ bs'" "length p = ch_pending_len_len c" "frames_at (off + length p + length x) cs1 fs' bs'"
      by (rule frames_at_ConsE)
    have "frames_at (off + length p + length x) (cs1 @ cs2) (fs' @ fs2) (bs' @ b2)"
      unfolding Cons.IH using a(4) c(4,6) by (fastforce simp: add.assoc)
    then have "frames_at off (c # cs1 @ cs2) ((child_kind c, x) # fs' @ fs2) (p @ x @ bs' @ b2)"
      using c by (intro frames_at_Cons) simp_all
    then show "frames_at off ((c # cs1) @ cs2) fs bs" by (simp add: a c(3,4) del: frames_at.simps)
  qed
qed auto

lemma frames_at_joinI:
  "frames_at off cs fs b1 \<Longrightarrow> frames_at (off + length b1) cs2 fs2 b2 \<Longrightarrow>
    frames_at off (cs @ cs2) (fs @ fs2) (b1 @ b2)"
  unfolding frames_at_append by blast

lemma frames_at_length: "frames_at off cs fs bs \<Longrightarrow> length cs = length fs"
  by (induction cs arbitrary: off fs bs) auto

lemma represents_length: "represents s B \<Longrightarrow> length (children s) = length (bld_frames B)"
  by (auto simp: represents_def dest: frames_at_length)

fun prefix_room :: "prefix_kind \<Rightarrow> nat" where
  "prefix_room (Fixed n) = n"
| "prefix_room Asn1 = 1"

definition bld_len :: "builder \<Rightarrow> nat" where
  "bld_len B = length (bld_root B) + (\<Sum>(k, x) \<leftarrow> bld_frames B. prefix_room k + length x)"

lemma prefix_room_kind: "child_ok c \<Longrightarrow> prefix_room (child_kind c) = ch_pending_len_len c"
  by (simp add: child_ok_def child_kind_def)

lemma frames_at_bytes: "frames_at off cs fs bs \<Longrightarrow> length bs = (\<Sum>(k, x) \<leftarrow> fs. prefix_room k + length x)"
proof (induction cs arbitrary: off fs bs)
  case (Cons c cs)
  then obtain p x fs' bs' where c: "child_ok c" "fs = (child_kind c, x) # fs'" "bs = p @ x @ bs'"
    "length p = ch_pending_len_len c" "frames_at (off + length p + length x) cs fs' bs'"
    by auto
  then show ?case using Cons.IH [OF c(5)] by (simp add: prefix_room_kind)
qed simp

lemma represents_len: "represents s B \<Longrightarrow> b_len s = bld_len B"
  using length_written [of s] by (auto simp: represents_def bld_len_def dest: frames_at_bytes)

lemma frames_at_extend:
  assumes "frames_at off cs fs bs" "cs \<noteq> []"
  shows "frames_at off cs (fs[length fs - 1 := (fst (last fs), snd (last fs) @ x)]) (bs @ x)"
  using assms
proof (induction cs arbitrary: off fs bs)
  case (Cons c cs)
  from Cons.prems(1) obtain p y fs' bs' where c: "ch_offset c = off" "child_ok c" "fs = (child_kind c, y) # fs'"
    "bs = p @ y @ bs'" "length p = ch_pending_len_len c" "frames_at (off + length p + length y) cs fs' bs'"
    by auto
  show ?case
  proof (cases "cs = []")
    case True
    then show ?thesis using c by auto
  next
    case False
    note IH = Cons.IH [OF c(6) False]
    have ne: "fs' \<noteq> []" using frames_at_length [OF c(6)] False by auto
    then have "fs[length fs - 1 := (fst (last fs), snd (last fs) @ x)]
        = (child_kind c, y) # fs'[length fs' - 1 := (fst (last fs'), snd (last fs') @ x)]"
      unfolding c(3) by (cases fs') simp_all
    moreover have "frames_at off (c # cs) ((child_kind c, y) # fs'[length fs' - 1 := (fst (last fs'), snd (last fs') @ x)])
        (p @ y @ (bs' @ x))"
      by (rule frames_at_Cons [OF c(1,2,5) IH])
    ultimately show ?thesis by (simp only: c(4) append_assoc)
  qed
qed simp

lemma represents_append:
  assumes "represents s B" "cbb_ok t" "written t = written s @ x" "children t = children s" "d = length (bld_frames B)"
  shows "represents t (bld_append d x B)"
proof -
  obtain bs where bs: "written s = bld_root B @ bs" "frames_at (length (bld_root B)) (children s) (bld_frames B) bs"
    using assms(1) by (auto simp: represents_def)
  show ?thesis
  proof (cases "bld_frames B")
    case Nil
    then have "bs = []" "children s = []" using bs(2) represents_length [OF assms(1)] by simp_all
    then show ?thesis using assms bs Nil by (auto simp: represents_def bld_append_def)
  next
    case (Cons f fs)
    then have ne: "children s \<noteq> []" using represents_length [OF assms(1)] by auto
    have "last (bld_frames B) = bld_frames B ! (length (bld_frames B) - 1)" using Cons by (simp add: last_conv_nth)
    then show ?thesis
      using frames_at_extend [OF bs(2) ne, of x] assms bs(1) Cons
      by (auto simp: represents_def bld_append_def)
  qed
qed

lemma represents_take:
  assumes "represents s B" "d \<le> length (bld_frames B)"
  obtains pre bs where "written s = pre @ bs" "frames_at (length pre) (drop d (children s)) (drop d (bld_frames B)) bs"
    "\<And>t. cbb_ok t \<Longrightarrow> written t = pre \<Longrightarrow> children t = take d (children s) \<Longrightarrow> represents t (Builder (bld_root B) (take d (bld_frames B)))"
proof -
  obtain bs where bs: "written s = bld_root B @ bs" "frames_at (length (bld_root B)) (children s) (bld_frames B) bs"
    using assms(1) by (auto simp: represents_def)
  obtain fs1 fs2 b1 b2 where f: "bld_frames B = fs1 @ fs2" "bs = b1 @ b2"
    "frames_at (length (bld_root B)) (take d (children s)) fs1 b1"
    "frames_at (length (bld_root B) + length b1) (drop d (children s)) fs2 b2"
    using bs(2) frames_at_append [of _ "take d (children s)" "drop d (children s)"] by auto
  have "length fs1 = d"
    using frames_at_length [OF f(3)] assms(2) represents_length [OF assms(1)] by simp
  then have fs: "fs1 = take d (bld_frames B)" "fs2 = drop d (bld_frames B)" unfolding f(1) by simp_all
  show thesis
  proof (rule that)
    show "written s = (bld_root B @ b1) @ b2" unfolding bs(1) f(2) by simp
    show "frames_at (length (bld_root B @ b1)) (drop d (children s)) (drop d (bld_frames B)) b2"
      using f(4) unfolding fs by simp
    show "\<And>t. cbb_ok t \<Longrightarrow> written t = bld_root B @ b1 \<Longrightarrow> children t = take d (children s) \<Longrightarrow> represents t (Builder (bld_root B) (take d (bld_frames B)))"
      using f(3) unfolding fs represents_def by auto
  qed
qed

lemma bld_append_frames [simp]: "length (bld_frames (bld_append d x B)) = length (bld_frames B)"
  by (simp add: bld_append_def)

lemma bld_len_append:
  assumes "d \<le> length (bld_frames B)"
  shows "bld_len (bld_append d x B) = bld_len B + length x"
proof (cases "d = 0")
  case False
  then have d: "d - 1 < length (bld_frames B)" using assms by simp
  obtain k y where ky: "bld_frames B ! (d - 1) = (k, y)" by fastforce
  have "bld_frames B = take (d - 1) (bld_frames B) @ (k, y) # drop (Suc (d - 1)) (bld_frames B)"
    using id_take_nth_drop [OF d] ky by simp
  then have "(\<Sum>(k, x) \<leftarrow> bld_frames B. prefix_room k + length x)
      = (\<Sum>(k, x) \<leftarrow> take (d - 1) (bld_frames B) @ (k, y) # drop (Suc (d - 1)) (bld_frames B). prefix_room k + length x)"
    by simp
  then show ?thesis
    using False d ky unfolding bld_len_def bld_append_def by (simp add: upd_conv_take_nth_drop)
qed (simp add: bld_len_def bld_append_def)

lemma flush_represents:
  assumes m: "malloc_ok malloc" and rep: "represents s B" and d: "d \<le> length (bld_frames B)"
  shows "case CBB_flush malloc d s of
      (Some _, s') \<Rightarrow> \<exists>B'. bld_flush d B = Some B' \<and> represents s' B' \<and> same_kind s s' \<and> length (bld_frames B') = d
    | (None, s') \<Rightarrow> b_error s' \<and> (\<forall>B'. bld_flush d B = Some B' \<longrightarrow> \<not> room malloc s (bld_len B'))"
proof -
  have ok: "cbb_ok s" using rep by (simp add: represents_def)
  have dl: "d \<le> length (children s)" using represents_length [OF rep] d by simp
  obtain pre bs where pb: "written s = pre @ bs" "frames_at (length pre) (drop d (children s)) (drop d (bld_frames B)) bs"
    and low: "\<And>t. cbb_ok t \<Longrightarrow> written t = pre \<Longrightarrow> children t = take d (children s) \<Longrightarrow> represents t (Builder (bld_root B) (take d (bld_frames B)))"
    using represents_take [OF rep d] by blast
  note F = CBB_flush_closes [OF m ok dl pb]
  let ?B = "(Builder (bld_root B) (take d (bld_frames B)))"
  define t0 where "t0 = s\<lparr>b_len := length pre, children := take d (children s)\<rparr>"
  have lw: "length pre \<le> b_len s" using length_written [OF ok] unfolding pb(1) by simp
  have "written t0 = take (length pre) (written s)"
    using lw by (simp add: written_def t0_def buf_bytes_def min_def)
  then have w0: "written t0 = pre" unfolding pb(1) by simp
  have "cbb_ok t0" using ok lw by (simp add: cbb_ok_def t0_def buf_bytes_def)
  then have t0: "represents t0 ?B" by (rule low [OF _ w0]) (simp add: t0_def)
  have t0c: "children t0 = take d (children s)" by (simp add: t0_def)
  have lpre: "length pre = bld_len ?B" using represents_len [OF t0] by (simp add: t0_def)
  obtain z t where r: "CBB_flush malloc d s = (z, t)" by fastforce
  show ?thesis
  proof (cases z)
    case None
    then have "b_error t" "\<And>r. closed (drop d (bld_frames B)) = Some r \<Longrightarrow> \<not> room malloc s (length (pre @ r))"
      using F unfolding r by auto
    moreover have "bld_len (bld_append d r ?B) = length (pre @ r)" for r
      using d lpre by (simp add: bld_len_append)
    ultimately show ?thesis
      using None r by (auto simp: bld_flush_def)
  next
    case (Some _)
    then obtain q where q: "closed (drop d (bld_frames B)) = Some q" "cbb_ok t" "written t = pre @ q"
      "children t = take d (children s)" "same_kind s t"
      using F unfolding r by auto
    have "represents t (bld_append d q ?B)"
      by (rule represents_append [OF t0 q(2)]) (use q d in \<open>simp_all add: w0 t0c\<close>)
    then show ?thesis using Some r q d by (simp add: bld_flush_def)
  qed
qed


section \<open>Operations that add bytes\<close>

text \<open>\<open>adds malloc d f x\<close>: on any builder, \<open>f\<close> closes the frames above \<open>d\<close> and appends \<open>x\<close> to
  the frame \<open>d\<close>.  It fails, and then locks the builder, only when the specification has no
  result (\<open>x\<close> is \<open>None\<close> or a length prefix overflows) or when there is no room.\<close>

definition adds_gen ::
  "bool \<Rightarrow> (nat \<Rightarrow> u8 list option) \<Rightarrow> nat \<Rightarrow> (cbb, 'a) op \<Rightarrow> u8 list option \<Rightarrow> bool" where
  "adds_gen ex malloc d f x \<longleftrightarrow> (\<forall>s B. represents s B \<and> d \<le> length (bld_frames B) \<and>
      (ex \<longrightarrow> length (bld_frames B) = d) \<longrightarrow>
    (case f s of
      (Some _, s') \<Rightarrow> \<exists>B' y. x = Some y \<and> bld_flush d B = Some B' \<and>
        represents s' (bld_append d y B') \<and> same_kind s s'
    | (None, s') \<Rightarrow> b_error s' \<and>
        (\<forall>B' y. x = Some y \<longrightarrow> bld_flush d B = Some B' \<longrightarrow> \<not> room malloc s (bld_len (bld_append d y B')))))"

text \<open>\<open>adds_at\<close> promises it only for a builder without frames above \<open>d\<close>.\<close>

abbreviation "adds \<equiv> adds_gen False"
abbreviation "adds_at \<equiv> adds_gen True"

definition pushes ::
  "(nat \<Rightarrow> u8 list option) \<Rightarrow> nat \<Rightarrow> (cbb, 'a) op \<Rightarrow> u8 list \<Rightarrow> prefix_kind \<Rightarrow> bool" where
  "pushes malloc d f x k \<longleftrightarrow> (\<forall>s B. represents s B \<and> d \<le> length (bld_frames B) \<longrightarrow>
    (case f s of
      (Some _, s') \<Rightarrow> \<exists>B'. bld_flush d B = Some B' \<and>
        represents s' (bld_push k (bld_append d x B')) \<and> same_kind s s'
    | (None, s') \<Rightarrow> b_error s' \<and>
        (\<forall>B'. bld_flush d B = Some B' \<longrightarrow> \<not> room malloc s (bld_len (bld_push k (bld_append d x B'))))))"

named_theorems adds_intros \<open>operations that add bytes\<close>

lemma addsI:
  assumes "\<And>s B. represents s B \<Longrightarrow> d \<le> length (bld_frames B) \<Longrightarrow> (ex \<Longrightarrow> length (bld_frames B) = d) \<Longrightarrow>
    (case f s of
      (Some _, s') \<Rightarrow> \<exists>B' y. x = Some y \<and> bld_flush d B = Some B' \<and>
        represents s' (bld_append d y B') \<and> same_kind s s'
    | (None, s') \<Rightarrow> b_error s' \<and>
        (\<forall>B' y. x = Some y \<longrightarrow> bld_flush d B = Some B' \<longrightarrow> \<not> room malloc s (bld_len (bld_append d y B'))))"
  shows "adds_gen ex malloc d f x"
  unfolding adds_gen_def by (intro allI impI assms) simp_all

lemma adds_SomeE:
  assumes "adds_gen ex malloc d f x" "represents s B" "d \<le> length (bld_frames B)"
    "ex \<Longrightarrow> length (bld_frames B) = d" "f s = (Some a, s')"
  obtains B' y where "x = Some y" "bld_flush d B = Some B'" "represents s' (bld_append d y B')" "same_kind s s'"
  using assms(1) [unfolded adds_gen_def, rule_format, of s B] assms(2-5) by auto

lemma adds_NoneD:
  assumes "adds_gen ex malloc d f x" "represents s B" "d \<le> length (bld_frames B)"
    "ex \<Longrightarrow> length (bld_frames B) = d" "f s = (None, s')"
  shows "b_error s' \<and>
    (\<forall>B' y. x = Some y \<longrightarrow> bld_flush d B = Some B' \<longrightarrow> \<not> room malloc s (bld_len (bld_append d y B')))"
  using assms(1) [unfolded adds_gen_def, rule_format, of s B] assms(2-5) by simp

lemma pushes_SomeE:
  assumes "pushes malloc d f x k" "represents s B" "d \<le> length (bld_frames B)" "f s = (Some a, s')"
  obtains B' where "bld_flush d B = Some B'" "represents s' (bld_push k (bld_append d x B'))" "same_kind s s'"
  using assms(1) [unfolded pushes_def, rule_format, of s B] assms(2-4) by auto

lemma pushes_NoneD:
  assumes "pushes malloc d f x k" "represents s B" "d \<le> length (bld_frames B)" "f s = (None, s')"
  shows "b_error s' \<and> (\<forall>B'. bld_flush d B = Some B' \<longrightarrow> \<not> room malloc s (bld_len (bld_push k (bld_append d x B'))))"
  using assms(1) [unfolded pushes_def, rule_format, of s B] assms(2-4) by simp

lemma bld_flush_frames: "bld_flush d B = Some B' \<Longrightarrow> d \<le> length (bld_frames B) \<Longrightarrow> length (bld_frames B') = d"
  by (auto simp: bld_flush_def)

lemma bld_append_Nil [simp]: "bld_append d [] B = B"
proof (cases "d - 1 < length (bld_frames B)")
  case True
  then show ?thesis by (cases B) (simp add: bld_append_def)
next
  case False
  then show ?thesis by (cases B) (simp add: bld_append_def list_update_beyond)
qed

lemma bld_flush_flushed: "length (bld_frames B) = d \<Longrightarrow> bld_flush d B = Some B"
  by (cases B) (simp add: bld_flush_def)

lemma bld_append_append:
  "d \<le> length (bld_frames B) \<Longrightarrow> bld_append d y (bld_append d x B) = bld_append d (x @ y) B"
  by (cases "d = 0") (simp_all add: bld_append_def)

lemma adds_flush [adds_intros]: "malloc_ok malloc \<Longrightarrow> adds malloc d (CBB_flush malloc d) (Some [])"
  by (rule addsI) (use flush_represents in \<open>fastforce split: prod.splits option.splits\<close>)

lemma adds_bind [adds_intros]:
  assumes f: "adds_gen ex malloc d f (Some x)" and g: "\<And>a. adds_at malloc d (g a) y"
  shows "adds_gen ex malloc d (op_bind f g) (map_option (append x) y)"
proof (rule addsI)
  fix s B assume rep: "represents s B" and d: "d \<le> length (bld_frames B)"
    and ex: "ex \<Longrightarrow> length (bld_frames B) = d"
  obtain z t where r: "f s = (z, t)" by fastforce
  show "case op_bind f g s of
      (Some _, s') \<Rightarrow> \<exists>B' v. map_option (append x) y = Some v \<and> bld_flush d B = Some B' \<and>
        represents s' (bld_append d v B') \<and> same_kind s s'
    | (None, s') \<Rightarrow> b_error s' \<and>
        (\<forall>B' v. map_option (append x) y = Some v \<longrightarrow> bld_flush d B = Some B' \<longrightarrow> \<not> room malloc s (bld_len (bld_append d v B')))"
  proof (cases z)
    case None
    note n = adds_NoneD [OF f rep d ex r [unfolded None]]
    have "\<not> room malloc s (bld_len (bld_append d (x @ w) B'))" if "bld_flush d B = Some B'" for w B'
    proof -
      have "d \<le> length (bld_frames B')" using bld_flush_frames [OF that d] by simp
      then show ?thesis
        using n that room_mono [of malloc s "bld_len (bld_append d (x @ w) B')" "bld_len (bld_append d x B')"]
        by (auto simp: bld_len_append)
    qed
    then show ?thesis using n r None by (auto simp: op_bind_def)
  next
    case (Some a)
    obtain B' where B': "bld_flush d B = Some B'" "represents t (bld_append d x B')" "same_kind s t"
      using adds_SomeE [OF f rep d ex r [unfolded Some]] by auto
    have dB': "length (bld_frames B') = d" by (rule bld_flush_frames [OF B'(1) d])
    then have d': "d \<le> length (bld_frames (bld_append d x B'))" by simp
    have d'': "length (bld_frames (bld_append d x B')) = d" using dB' by simp
    have fl: "bld_flush d (bld_append d x B') = Some (bld_append d x B')"
      using dB' by (intro bld_flush_flushed) simp
    have ap: "bld_append d w (bld_append d x B') = bld_append d (x @ w) B'" for w
      using dB' by (intro bld_append_append) simp
    obtain z' u where r': "g a t = (z', u)" by fastforce
    have step: "op_bind f g s = (z', u)" using r r' Some by simp
    show ?thesis
    proof (cases z')
      case None
      then have "b_error u" "\<And>w. y = Some w \<Longrightarrow> \<not> room malloc t (bld_len (bld_append d (x @ w) B'))"
        using adds_NoneD [OF g B'(2) d' d'' r' [unfolded None]] fl ap by auto
      then show ?thesis
        using step None B'(1) room_same_kind [OF B'(3)] by (auto)
    next
      case w: (Some b)
      obtain B2 v where "y = Some v" "bld_flush d (bld_append d x B') = Some B2"
        "represents u (bld_append d v B2)" "same_kind t u"
        using adds_SomeE [OF g B'(2) d' d'' r' [unfolded w]] .
      then show ?thesis
        using step w B'(1) same_kind_trans [OF B'(3)] fl ap by auto
    qed
  qed
qed

lemma adds_or_error [adds_intros]: "adds_gen ex malloc d f x \<Longrightarrow> adds_gen ex malloc d (or_cbb_error d f) x"
  unfolding adds_gen_def or_cbb_error_def by (fastforce simp: cbb_on_error_def split: prod.splits option.splits)


text \<open>A child: pushing a frame, filling it and flushing its parent appends the content with its
  length prefix.\<close>

lemma bld_close_pushed:
  assumes "length (bld_frames B) = d"
  shows "bld_flush d (bld_append (Suc d) y (bld_push k B)) =
      map_option (\<lambda>p. bld_append d (p @ y) B) (length_prefix k (length y))"
    "bld_flush (Suc d) (bld_push k B) = Some (bld_push k B)"
    "bld_len (bld_append (Suc d) y (bld_push k B)) = bld_len B + prefix_room k + length y"
proof -
  have P: "bld_append (Suc d) w (bld_push k B) = Builder (bld_root B) (bld_frames B @ [(k, w)])" for w
    using assms by (simp add: bld_append_def bld_push_def nth_append list_update_append)
  have c: "closed [(k, y)] = map_option (\<lambda>p. p @ y) (length_prefix k (length y))" by simp
  show "bld_flush d (bld_append (Suc d) y (bld_push k B)) =
      map_option (\<lambda>p. bld_append d (p @ y) B) (length_prefix k (length y))"
    unfolding P using assms c by (cases "length_prefix k (length y)") (simp_all add: bld_flush_def)
  show "bld_flush (Suc d) (bld_push k B) = Some (bld_push k B)"
    using assms by (intro bld_flush_flushed) (simp add: bld_push_def)
  show "bld_len (bld_append (Suc d) y (bld_push k B)) = bld_len B + prefix_room k + length y"
    unfolding P by (simp add: bld_len_def)
qed

lemma length_prefix_room: "length_prefix k n = Some p \<Longrightarrow> prefix_room k \<le> length p"
  by (cases k) (auto simp: len_bytes_def split: if_splits)

lemma adds_child [adds_intros]:
  assumes m: "malloc_ok malloc"
    and f: "pushes malloc d f x k" and g: "\<And>a. adds_at malloc (Suc d) (g a) (Some y)"
  shows "adds malloc d (op_bind f (\<lambda>a. op_bind (g a) (\<lambda>_. CBB_flush malloc d)))
    (map_option (\<lambda>p. x @ p @ y) (length_prefix k (length y)))"
proof (rule addsI)
  fix s B assume rep: "represents s B" and d: "d \<le> length (bld_frames B)"
  let ?op = "op_bind f (\<lambda>a. op_bind (g a) (\<lambda>_. CBB_flush malloc d))"
  let ?v = "map_option (\<lambda>p. x @ p @ y) (length_prefix k (length y))"
  show "case ?op s of
      (Some _, s') \<Rightarrow> \<exists>B' v. ?v = Some v \<and> bld_flush d B = Some B' \<and>
        represents s' (bld_append d v B') \<and> same_kind s s'
    | (None, s') \<Rightarrow> b_error s' \<and>
        (\<forall>B' v. ?v = Some v \<longrightarrow> bld_flush d B = Some B' \<longrightarrow> \<not> room malloc s (bld_len (bld_append d v B')))"
  proof (cases "bld_flush d B")
    case None
    obtain z t where r: "f s = (z, t)" by fastforce
    have "z = None"
    proof (rule ccontr)
      assume "z \<noteq> None"
      then obtain a where "f s = (Some a, t)" using r by auto
      from pushes_SomeE [OF f rep d this] None show False by simp
    qed
    moreover from this have "b_error t" using pushes_NoneD [OF f rep d] r by simp
    ultimately show ?thesis using r None by simp
  next
    case (Some B')
    let ?P = "bld_push k (bld_append d x B')"
    have l: "length (bld_frames (bld_append d x B')) = d" using bld_flush_frames [OF Some d] by simp
    have le: "d \<le> length (bld_frames B')" using bld_flush_frames [OF Some d] by simp
    note close = bld_close_pushed [OF l]
    have lens: "bld_len (bld_append d (x @ p @ y) B') = bld_len B' + length x + length p + length y" for p
      using le by (simp add: bld_len_append)
    have lensP: "bld_len (bld_append (Suc d) w ?P) = bld_len B' + length x + prefix_room k + length w" for w
      using le close(3) by (simp add: bld_len_append)
    have small: "\<not> room malloc s (bld_len (bld_append d (x @ p @ y) B'))"
      if "\<not> room malloc s (bld_len (bld_append (Suc d) w ?P))" "length w \<le> length y"
        "length_prefix k (length y) = Some p" for w p
      using that room_mono [of malloc s "bld_len (bld_append d (x @ p @ y) B')"]
        length_prefix_room [OF that(3)] unfolding lens lensP by auto
    have ap: "bld_append d (p @ y) (bld_append d x B') = bld_append d (x @ p @ y) B'" for p
      using le by (simp add: bld_append_append)
    obtain z t where r: "f s = (z, t)" by fastforce
    show ?thesis
    proof (cases z)
      case None
      then have "b_error t" "\<not> room malloc s (bld_len (bld_append (Suc d) [] ?P))"
        using pushes_NoneD [OF f rep d] r Some by simp_all
      then show ?thesis using small [of "[]"] r None Some by (auto simp: op_bind_def)
    next
      case z: (Some a)
      obtain B1 where "bld_flush d B = Some B1" "represents t (bld_push k (bld_append d x B1))" "same_kind s t"
        using pushes_SomeE [OF f rep d r [unfolded z]] .
      then have t: "represents t ?P" "same_kind s t" using Some by simp_all
      have dP: "Suc d \<le> length (bld_frames ?P)" using l by (simp add: bld_push_def)
      have dP': "length (bld_frames ?P) = Suc d" using l by (simp add: bld_push_def)
      obtain z' u where r': "g a t = (z', u)" by fastforce
      show ?thesis
      proof (cases z')
        case None
        then have "b_error u" "\<not> room malloc s (bld_len (bld_append (Suc d) y ?P))"
          using adds_NoneD [OF g t(1) dP dP' r' [unfolded None]] close(2) room_same_kind [OF t(2)] by auto
        then show ?thesis using small [of y] r r' z None Some by (auto simp: op_bind_def)
      next
        case z': (Some b)
        obtain B2 v where "Some y = Some v" "bld_flush (Suc d) ?P = Some B2"
          "represents u (bld_append (Suc d) v B2)" "same_kind t u"
          using adds_SomeE [OF g t(1) dP dP' r' [unfolded z']] .
        then have u: "represents u (bld_append (Suc d) y ?P)" "same_kind s u"
          using close(2) same_kind_trans [OF t(2)] by auto
        have du: "d \<le> length (bld_frames (bld_append (Suc d) y ?P))" using dP by simp
        obtain z'' w where r'': "CBB_flush malloc d u = (z'', w)" by fastforce
        have step: "?op s = (z'', w)" using r r' r'' z z' by (simp add: op_bind_def split: option.split)
        note F = flush_represents [OF m u(1) du, unfolded r'' close(1)]
        show ?thesis
          using F step Some room_same_kind [OF u(2)] same_kind_trans [OF u(2)]
          by (cases z'') (auto simp: ap)
      qed
    qed
  qed
qed


section \<open>The primitives\<close>

lemma written_same_buffer:
  "b_buf t = b_buf s \<Longrightarrow> b_len t = b_len s \<Longrightarrow> written t = written s"
  by (simp add: written_def buf_bytes_def)

lemma adds_then_buffer:
  \<comment> \<open>\<open>f\<close> adds \<open>x\<close>, then \<open>n\<close> bytes are taken from the buffer\<close>
  assumes m: "malloc_ok malloc" and f: "adds malloc d f (Some x)" and n: "n < SIZE_LIMIT"
    and rep: "represents s B" and d: "d \<le> length (bld_frames B)"
  shows "case op_bind f (\<lambda>_ s. cbb_buffer_add malloc (cbb_get_base d s) n s) s of
      (Some out, s') \<Rightarrow> \<exists>B' t g. bld_flush d B = Some B' \<and> represents t (bld_append d x B') \<and>
        cbb_ok s' \<and> length g = n \<and> out = length (written t) \<and> written s' = written t @ g \<and>
        children s' = children t \<and> same_kind s s'
    | (None, s') \<Rightarrow> b_error s' \<and>
        (\<forall>B'. bld_flush d B = Some B' \<longrightarrow> \<not> room malloc s (bld_len (bld_append d x B') + n))"
proof -
  obtain z t where r: "f s = (z, t)" by fastforce
  show ?thesis
  proof (cases z)
    case None
    have "\<not> room malloc s (bld_len (bld_append d x B') + n)" if "bld_flush d B = Some B'" for B'
      using adds_NoneD [OF f rep d FalseE r [unfolded None]] that
        room_mono [of malloc s "bld_len (bld_append d x B') + n" "bld_len (bld_append d x B')"] by auto
    then show ?thesis using adds_NoneD [OF f rep d FalseE r [unfolded None]] r None by simp
  next
    case (Some a)
    obtain B' y where "Some x = Some y" "bld_flush d B = Some B'" "represents t (bld_append d y B')" "same_kind s t"
      using adds_SomeE [OF f rep d FalseE r [unfolded Some]] .
    then have t: "bld_flush d B = Some B'" "represents t (bld_append d x B')" "same_kind s t" by simp_all
    have ok: "cbb_ok t" using t(2) by (simp add: represents_def)
    have base: "cbb_get_base d t"
      using represents_length [OF t(2)] bld_flush_frames [OF t(1) d] by (simp add: cbb_get_base_def)
    obtain z' u where r': "cbb_buffer_add malloc True n t = (z', u)" by fastforce
    have step: "op_bind f (\<lambda>_ s. cbb_buffer_add malloc (cbb_get_base d s) n s) s = (z', u)"
      using r r' Some base by (simp add: op_bind_def)
    note F = cbb_buffer_add_correct [OF m ok n, unfolded r' prod.case]
    show ?thesis
    proof (cases z')
      case None
      then show ?thesis
        using F step t room_same_kind [OF t(3)] represents_len [OF t(2)] by auto
    next
      case out: (Some out)
      then obtain g where "out = b_len t" "cbb_ok u" "length g = n" "written u = written t @ g"
        "children u = children t" "same_kind t u"
        using F by auto
      then show ?thesis
        unfolding step using out t same_kind_trans [OF t(3)] length_written [OF ok] by auto
    qed
  qed
qed

lemma adds_store:
  assumes m: "malloc_ok malloc" and n: "n < SIZE_LIMIT"
    and g: "\<And>i s. i + n \<le> b_len s \<Longrightarrow> cbb_ok s \<Longrightarrow>
      g i s = (case x of Some q \<Rightarrow> (Some (), buf_store i q s) | None \<Rightarrow> (None, t i s))"
    and x: "\<And>q. x = Some q \<Longrightarrow> length q = n" and e: "\<And>i s. x = None \<Longrightarrow> b_error (t i s)"
  shows "adds malloc d (op_bind (CBB_add_space malloc d n) g) x"
proof (rule addsI)
  fix s B assume rep: "represents s B" and d: "d \<le> length (bld_frames B)"
  obtain z u where r: "CBB_add_space malloc d n s = (z, u)" by fastforce
  note F = adds_then_buffer [OF m adds_flush [OF m] n rep d, folded CBB_add_space_def, unfolded r prod.case]
  show "case op_bind (CBB_add_space malloc d n) g s of
      (Some _, s') \<Rightarrow> \<exists>B' v. x = Some v \<and> bld_flush d B = Some B' \<and>
        represents s' (bld_append d v B') \<and> same_kind s s'
    | (None, s') \<Rightarrow> b_error s' \<and>
        (\<forall>B' v. x = Some v \<longrightarrow> bld_flush d B = Some B' \<longrightarrow> \<not> room malloc s (bld_len (bld_append d v B')))"
  proof (cases z)
    case None
    have "\<not> room malloc s (bld_len (bld_append d v B'))" if "x = Some v" "bld_flush d B = Some B'" for v B'
      using F that x [OF that(1)] bld_flush_frames [OF that(2) d] unfolding None by (simp add: bld_len_append)
    then show ?thesis using F r None by simp
  next
    case (Some out)
    then obtain B' t0 q0 where a: "bld_flush d B = Some B'" "represents t0 B'" "cbb_ok u" "length q0 = n"
      "out = length (written t0)" "written u = written t0 @ q0" "children u = children t0" "same_kind s u"
      using F by auto
    have lu: "b_len u = out + n" using length_written [OF a(3)] a(4,5) unfolding a(6) by simp
    note step = op_bind_Some [where m = "CBB_add_space malloc d n" and f = g, OF r [unfolded Some]]
    show ?thesis
    proof (cases x)
      case None
      then show ?thesis using step g [of out u] lu a(3) e by simp
    next
      case q: (Some q)
      let ?w = "buf_store out q u"
      have "written ?w = written t0 @ q @ []"
        by (rule written_store [OF a(3), where p = q0]) (use a x [OF q] in simp_all)
      moreover have "cbb_ok ?w" using lu x [OF q] by (intro cbb_ok_store [OF a(3)]) simp
      ultimately have "represents ?w (bld_append d q B')"
        using a bld_flush_frames [OF a(1) d] by (intro represents_append [OF a(2)]) simp_all
      then show ?thesis using step g [of out u] lu a q by (simp add: same_kind_def)
    qed
  qed
qed

lemma adds_bytes [adds_intros]:
  assumes "malloc_ok malloc" "n \<le> length data" "n < SIZE_LIMIT"
  shows "adds malloc d (CBB_add_bytes malloc d data n) (Some (take n data))"
  unfolding CBB_add_bytes_def by (rule adds_store [where t = "\<lambda>i s. s"]) (use assms in auto)

lemma adds_zeros [adds_intros]:
  assumes "malloc_ok malloc" "n < SIZE_LIMIT"
  shows "adds malloc d (CBB_add_zeros malloc d n) (Some (replicate n 0))"
  unfolding CBB_add_zeros_def by (rule adds_store [where t = "\<lambda>i s. s"]) (use assms in auto)

lemma adds_u:
  assumes "malloc_ok malloc" "n \<le> 8"
  shows "adds malloc d (cbb_add_u malloc d v n) (if unat v < 256 ^ n then Some (be_bytes n (unat v)) else None)"
  unfolding cbb_add_u_def
proof (rule adds_store [where t = "\<lambda>i s. cbb_on_error d (buf_store i (be_bytes n (unat v)) s)"])
  fix i s assume i: "i + n \<le> b_len s" and ok: "cbb_ok s"
  have "i + n \<le> length (buf_bytes s)" using i ok by (simp add: cbb_ok_def)
  then show "(let (v, s) = buf_put_be n i (unat v) s in if v \<noteq> 0 then (None, cbb_on_error d s) else (Some (), s)) =
      (case if unat v < 256 ^ n then Some (be_bytes n (unat v)) else None of
        Some q \<Rightarrow> (Some (), buf_store i q s)
      | None \<Rightarrow> (None, cbb_on_error d (buf_store i (be_bytes n (unat v)) s)))"
    by (simp add: buf_put_be_eq div_eq_0_iff)
qed (use assms in \<open>auto simp: cbb_on_error_def split: if_splits\<close>)

lemma adds_ints [adds_intros]:
  assumes m: "malloc_ok malloc"
  shows "adds malloc d (CBB_add_u8 malloc d b) (Some [b])"
    "adds malloc d (CBB_add_u16 malloc d h) (Some (be_bytes 2 (unat h)))"
    "adds malloc d (CBB_add_u24 malloc d w) (if unat w < 2 ^ 24 then Some (be_bytes 3 (unat w)) else None)"
    "adds malloc d (CBB_add_u32 malloc d w) (Some (be_bytes 4 (unat w)))"
    "adds malloc d (CBB_add_u64 malloc d v) (Some (be_bytes 8 (unat v)))"
proof -
  have u: "unat (ucast x :: u64) = unat x" if "LENGTH('a) \<le> 64" for x :: "'a::len word"
    using that by (intro unat_ucast_up) simp
  have "unat (ucast b :: u64) < 256 ^ 1" "be_bytes 1 (unat (ucast b :: u64)) = [b]"
    using u8_lt [of b] by simp_all
  then show "adds malloc d (CBB_add_u8 malloc d b) (Some [b])"
    using adds_u [OF m, of 1 d "ucast b"] by (simp add: CBB_add_u8_def)
  have "unat h < 2 ^ LENGTH(16)" by (rule unsigned_less)
  then show "adds malloc d (CBB_add_u16 malloc d h) (Some (be_bytes 2 (unat h)))"
    using adds_u [OF m, of 2 d "ucast h"] by (simp add: CBB_add_u16_def u)
  show "adds malloc d (CBB_add_u24 malloc d w) (if unat w < 2 ^ 24 then Some (be_bytes 3 (unat w)) else None)"
  proof -
    have uw: "unat (ucast w :: u64) = unat w" by (rule u) simp
    show ?thesis using adds_u [OF m, of 3 d "ucast w"] unfolding CBB_add_u24_def uw by simp
  qed
  have "unat w < 2 ^ LENGTH(32)" by (rule unsigned_less)
  then show "adds malloc d (CBB_add_u32 malloc d w) (Some (be_bytes 4 (unat w)))"
    using adds_u [OF m, of 4 d "ucast w"] by (simp add: CBB_add_u32_def u)
  have "unat v < 2 ^ LENGTH(64)" by (rule unsigned_less)
  then show "adds malloc d (CBB_add_u64 malloc d v) (Some (be_bytes 8 (unat v)))"
    using adds_u [OF m, of 8 d v] by (simp add: CBB_add_u64_def)
qed


lemma adds_adds_at: "adds malloc d f x \<Longrightarrow> adds_gen ex malloc d f x"
proof (rule addsI)
  fix s B assume f: "adds malloc d f x" and a: "represents s B" "d \<le> length (bld_frames B)"
  show "case f s of
      (Some _, s') \<Rightarrow> \<exists>B' y. x = Some y \<and> bld_flush d B = Some B' \<and>
        represents s' (bld_append d y B') \<and> same_kind s s'
    | (None, s') \<Rightarrow> b_error s' \<and>
        (\<forall>B' y. x = Some y \<longrightarrow> bld_flush d B = Some B' \<longrightarrow> \<not> room malloc s (bld_len (bld_append d y B')))"
    by (rule f [unfolded adds_gen_def, rule_format]) (use a in simp)
qed

lemma adds_at_ret [adds_intros]: "adds_at malloc d (op_ret a) (Some [])"
  by (rule addsI) (auto simp: bld_flush_flushed)

lemma adds_bind_Some:
  assumes "adds_gen ex malloc d f (Some x)" "\<And>a. adds_at malloc d (g a) (Some y)"
  shows "adds_gen ex malloc d (op_bind f g) (Some (x @ y))"
  using adds_bind [OF assms] by simp

lemma op_bind_assoc: "op_bind (op_bind f g) h = op_bind f (\<lambda>a. op_bind (g a) h)"
  by (rule ext) (simp add: op_bind_def split: prod.splits option.splits)

lemma pushes_child_after:
  assumes m: "malloc_ok malloc" and f: "adds malloc d f (Some x)" and n: "n < SIZE_LIMIT"
    and k: "k = (if asn1 then Asn1 else Fixed n)" "asn1 \<Longrightarrow> n = 1"
  shows "pushes malloc d (op_bind f (\<lambda>_. cbb_add_child malloc d n asn1)) x k"
  unfolding pushes_def
proof (intro allI impI, elim conjE)
  fix s B assume rep: "represents s B" and d: "d \<le> length (bld_frames B)"
  let ?add = "op_bind f (\<lambda>_ s. cbb_buffer_add malloc (cbb_get_base d s) n s)"
  obtain z u where r: "?add s = (z, u)" by fastforce
  note F = adds_then_buffer [OF m f n rep d, unfolded r prod.case]
  let ?op = "op_bind f (\<lambda>_. cbb_add_child malloc d n asn1)"
  have lenP: "bld_len (bld_push k C) = bld_len C + n" for C
    using k by (auto simp: bld_len_def bld_push_def)
  show "case ?op s of
      (Some _, s') \<Rightarrow> \<exists>B'. bld_flush d B = Some B' \<and>
        represents s' (bld_push k (bld_append d x B')) \<and> same_kind s s'
    | (None, s') \<Rightarrow> b_error s' \<and>
        (\<forall>B'. bld_flush d B = Some B' \<longrightarrow> \<not> room malloc s (bld_len (bld_push k (bld_append d x B'))))"
  proof (cases z)
    case None
    then have "?op s = (None, u)"
      using r by (auto simp: op_bind_def cbb_add_child_def Let_def split: prod.splits option.splits)
    then show ?thesis using F None lenP by simp
  next
    case (Some out)
    then obtain B' t0 q0 where a: "bld_flush d B = Some B'" "represents t0 (bld_append d x B')" "cbb_ok u"
      "length q0 = n" "out = length (written t0)" "written u = written t0 @ q0" "children u = children t0" "same_kind s u"
      using F by auto
    have lu: "b_len u = out + n" using length_written [OF a(3)] a(4,5) unfolding a(6) by simp
    have dl: "length (children t0) = d"
      using represents_length [OF a(2)] bld_flush_frames [OF a(1) d] by simp
    define c where "c = \<lparr>ch_offset = out, ch_pending_len_len = n, ch_pending_is_asn1 = asn1\<rparr>"
    define v where "v = (buf_store out (replicate n 0) u)\<lparr>children := take d (children u) @ [c]\<rparr>"
    have op: "?op s = (Some (), v)"
    proof -
      obtain y t where ft: "f s = (Some y, t)" "cbb_buffer_add malloc (cbb_get_base d t) n t = (Some out, u)"
        using r Some by (auto simp: op_bind_def split: prod.splits option.splits)
      have "b_len t = out"
        using ft(2) by (auto simp: cbb_buffer_add_def cbb_buffer_reserve_def Let_def op_bind_def split: if_splits option.splits)
      then show ?thesis using ft by (simp add: cbb_add_child_def Let_def v_def c_def)
    qed
    have wv: "written v = written t0 @ replicate n 0"
    proof -
      have "written (buf_store out (replicate n 0) u) = written t0 @ replicate n 0 @ []"
        by (rule written_store [OF a(3), where p = q0]) (use a in simp_all)
      then show ?thesis by (simp add: v_def written_def buf_bytes_def buf_store_def)
    qed
    have okv: "cbb_ok v"
      using cbb_ok_store [OF a(3), of out "replicate n 0"] lu
      by (simp add: v_def cbb_ok_def buf_bytes_def buf_store_def)
    have cv: "children v = children t0 @ [c]" using a(7) dl by (simp add: v_def)
    obtain bs where bs: "written t0 = bld_root (bld_append d x B') @ bs"
      "frames_at (length (bld_root (bld_append d x B'))) (children t0) (bld_frames (bld_append d x B')) bs"
      using a(2) by (auto simp: represents_def)
    have c_frame: "frames_at (length (written t0)) [c] [(k, [])] (replicate n 0)"
      using frames_at_Cons [of c "length (written t0)" "replicate n 0" "[]" "[]" "[]" "[]"] k a(5)
      by (simp add: c_def child_ok_def child_kind_def)
    have "frames_at (length (bld_root (bld_append d x B'))) (children v)
        (bld_frames (bld_append d x B') @ [(k, [])]) (bs @ replicate n 0)"
      unfolding cv by (rule frames_at_joinI [OF bs(2)]) (use c_frame bs(1) in simp)
    then have "represents v (bld_push k (bld_append d x B'))"
      using okv wv bs(1) by (simp add: represents_def bld_push_def)
    moreover have "same_kind s v" using a(8) by (simp add: same_kind_def v_def)
    ultimately show ?thesis using op a(1) by simp
  qed
qed

lemma pushes_length_prefixed:
  assumes "malloc_ok malloc" "n < SIZE_LIMIT"
  shows "pushes malloc d (cbb_add_length_prefixed malloc d n) [] (Fixed n)"
  unfolding cbb_add_length_prefixed_def
  by (rule pushes_child_after [OF assms(1) adds_flush [OF assms(1)] assms(2)]) simp_all


section \<open>Base-128 integers and tags\<close>

definition b128_byte :: "nat \<Rightarrow> nat \<Rightarrow> u8" where
  "b128_byte v i = word_of_nat ((v div 128 ^ i) mod 128 + (if i = 0 then 0 else 128))"

lemma base128_byte:
  "(let byte = ucast (drop_bit (7 * i) v) AND (0x7f :: u8) in if i \<noteq> 0 then byte OR 0x80 else byte)
    = b128_byte (unat v) i" for v :: u64
proof -
  let ?b = "ucast (drop_bit (7 * i) v) AND (0x7f :: u8)"
  have p: "(2 :: nat) ^ (7 * i) = 128 ^ i" by (simp add: power_mult)
  have "unat (drop_bit (7 * i) v) = unat v div 128 ^ i"
    unfolding unat_drop_bit_eq by (simp only: drop_bit_eq_div p)
  moreover have "unat (ucast w :: u8) = unat w mod 256" for w :: u64
    by (simp add: unsigned_ucast_eq take_bit_eq_mod)
  ultimately have "unat ?b = (unat v div 128 ^ i) mod 256 mod 128"
    by (simp only: u8_low7)
  also have "\<dots> = (unat v div 128 ^ i) mod 128" by (simp add: mod_mod_cancel)
  finally have b: "unat ?b = (unat v div 128 ^ i) mod 128" .
  have "?b AND 0x80 = 0"
  proof -
    have "(0x7f :: u8) AND 0x80 = 0" by simp
    then show ?thesis by (simp add: and.assoc)
  qed
  then have or: "unat (?b OR 0x80) = (unat v div 128 ^ i) mod 128 + 128"
    using unat_or_disjoint [of ?b "0x80"] by (simp add: b)
  show ?thesis
    unfolding Let_def b128_byte_def using unat_eq_word_of_nat [OF b] unat_eq_word_of_nat [OF or]
    by (cases "i = 0") simp_all
qed


lemma adds_base128_write:
  assumes m: "malloc_ok malloc"
  shows "adds malloc d (base128_write malloc d v (Suc n)) (Some (map (b128_byte (unat v)) (rev [0..<Suc n])))"
proof (induction n)
  case 0
  have "adds malloc d (op_bind (CBB_add_u8 malloc d (b128_byte (unat v) 0)) (\<lambda>_. op_ret ()))
      (Some ([b128_byte (unat v) 0] @ []))"
    by (intro adds_bind_Some adds_ints adds_at_ret m)
  then show ?case using base128_byte [of 0 v] by (simp add: Let_def)
next
  case (Suc n)
  have "adds malloc d (op_bind (CBB_add_u8 malloc d (b128_byte (unat v) (Suc n)))
      (\<lambda>_. base128_write malloc d v (Suc n)))
      (Some ([b128_byte (unat v) (Suc n)] @ map (b128_byte (unat v)) (rev [0..<Suc n])))"
    by (intro adds_bind_Some adds_ints adds_adds_at [OF Suc.IH] m)
  then show ?case using base128_byte [of "Suc n" v] by (simp add: Let_def)
qed

lemma rev_upt_Suc: "rev [0..<Suc n] = map Suc (rev [0..<n]) @ [0]"
proof -
  have "[0..<Suc n] = 0 # map Suc [0..<n]"
    by (simp add: map_Suc_upt upt_conv_Cons del: upt_Suc)
  then show ?thesis by (simp add: rev_map del: upt_Suc)
qed

lemma b128_hi_map:
  "b128_hi v = map (\<lambda>i. word_of_nat (128 + (v div 128 ^ i) mod 128)) (rev [0..<length (b128_hi v)])"
proof (induction v rule: b128_hi.induct)
  case (1 v)
  show ?case
  proof (cases "v = 0")
    case False
    let ?w = "v div 128" and ?n = "length (b128_hi (v div 128))"
    have hv: "b128_hi v = b128_hi ?w @ [word_of_nat (128 + v mod 128)]"
      using False by (subst b128_hi.simps) simp
    have "b128_hi ?w = map (\<lambda>i. word_of_nat (128 + (v div 128 ^ Suc i) mod 128)) (rev [0..<?n])"
      using "1.IH" [OF False] by (simp only: div_mult2_eq power_Suc)
    then show ?thesis unfolding hv length_append_singleton rev_upt_Suc by (simp add: comp_def)
  qed simp
qed

lemma b128_map:
  assumes "n = length (b128_hi (v div 128))"
  shows "b128 v = map (b128_byte v) (rev [0..<Suc n])"
proof -
  have "b128_hi (v div 128) = map (\<lambda>i. b128_byte v (Suc i)) (rev [0..<n])"
    unfolding assms by (subst b128_hi_map) (simp add: b128_byte_def div_mult2_eq add.commute)
  then show ?thesis unfolding rev_upt_Suc by (simp add: b128_def b128_byte_def comp_def)
qed

lemma base128_len_len_eq: "base128_len_len v = length (b128_hi (unat v))"
proof (induction v rule: base128_len_len.induct)
  case (1 copy)
  have u: "unat (drop_bit 7 copy) = unat copy div 128"
    unfolding unat_drop_bit_eq by (simp add: drop_bit_eq_div)
  show ?case
  proof (cases "copy > 0")
    case True
    then have "unat copy \<noteq> 0" by (auto simp: unat_eq_0)
    then have "length (b128_hi (unat copy)) = Suc (length (b128_hi (unat copy div 128)))"
      by (subst b128_hi.simps) simp
    then show ?thesis using "1.IH" [OF True] True by (subst base128_len_len.simps) (simp add: u)
  next
    case False
    then have "copy = 0" by (simp add: word_gt_0)
    then show ?thesis by (subst base128_len_len.simps) simp
  qed
qed

lemma adds_base128 [adds_intros]:
  assumes "malloc_ok malloc"
  shows "adds malloc d (add_base128_integer malloc d v) (Some (b128 (unat v)))"
proof -
  let ?n = "length (b128_hi (unat v div 128))"
  have "(let len_len = base128_len_len v in if len_len = 0 then 1 else len_len) = Suc ?n"
  proof (cases "unat v = 0")
    case False
    then have "length (b128_hi (unat v)) = Suc ?n" by (subst b128_hi.simps) simp
    then show ?thesis by (simp add: base128_len_len_eq)
  qed (simp add: base128_len_len_eq)
  then have "add_base128_integer malloc d v = base128_write malloc d v (Suc ?n)"
    unfolding add_base128_integer_def Let_def by (simp only:)
  then show ?thesis
    using adds_base128_write [OF assms, of d v ?n] b128_map [OF refl, of "unat v"] by (simp only:)
qed

lemma pushes_asn1:
  assumes m: "malloc_ok malloc"
  shows "pushes malloc d (CBB_add_asn1 malloc d tag) (tag_bytes tag) Asn1"
proof -
  let ?bits = "ucast (drop_bit CBS_ASN1_TAG_SHIFT tag) AND (0xe0 :: u8)"
  let ?num = "tag AND CBS_ASN1_TAG_NUMBER_MASK"
  let ?w = "if ?num \<ge> 0x1f
            then op_bind (CBB_add_u8 malloc d (?bits OR 0x1f)) (\<lambda>_. add_base128_integer malloc d (ucast ?num))
            else CBB_add_u8 malloc d (?bits OR ucast ?num)"
  have un: "unat (ucast n :: u64) = unat n" for n :: u32
    by (rule unat_ucast_up) simp
  have "adds malloc d ?w (Some (tag_bytes tag))"
  proof (cases "?num \<ge> 0x1f")
    case True
    have "adds malloc d (op_bind (CBB_add_u8 malloc d (?bits OR 0x1f)) (\<lambda>_. add_base128_integer malloc d (ucast ?num)))
        (Some ([?bits OR 0x1f] @ b128 (unat (ucast ?num :: u64))))"
      by (intro adds_bind_Some adds_ints adds_adds_at [OF adds_base128] m)
    then show ?thesis unfolding tag_bytes_def Let_def un if_P [OF True] append_Cons append_Nil .
  next
    case False
    show ?thesis unfolding tag_bytes_def Let_def if_not_P [OF False] by (rule adds_ints(1) [OF m])
  qed
  then have "adds malloc d (op_bind (CBB_flush malloc d) (\<lambda>_. ?w)) (Some ([] @ tag_bytes tag))"
    by (rule adds_bind_Some [OF adds_flush [OF m] adds_adds_at])
  then have "pushes malloc d (op_bind (op_bind (CBB_flush malloc d) (\<lambda>_. ?w)) (\<lambda>_. cbb_add_child malloc d 1 True))
      ([] @ tag_bytes tag) Asn1"
    by (intro pushes_child_after m) simp_all
  then show ?thesis
    unfolding op_bind_assoc CBB_add_asn1_def Let_def append_Nil .
qed


section \<open>Whole elements\<close>

lemma adds_asn1_element:
  assumes m: "malloc_ok malloc" and g: "adds_at malloc (Suc d) g (Some y)" and y: "length y \<le> 0xfffffffe"
  shows "adds malloc d (op_bind (CBB_add_asn1 malloc d tag) (\<lambda>_. op_bind g (\<lambda>_. CBB_flush malloc d)))
    (Some (der_element tag y))"
  using adds_child [OF m pushes_asn1 [OF m] g] y
  by (simp add: der_element_def der_header_def)

lemma adds_or_error_bind:
  assumes "adds_gen ex malloc d (op_bind m f) x"
  shows "adds_gen ex malloc d (op_bind (or_cbb_error d m) f) x"
proof (rule addsI)
  fix s B assume a: "represents s B" "d \<le> length (bld_frames B)" "ex \<Longrightarrow> length (bld_frames B) = d"
  obtain z t where r: "m s = (z, t)" by fastforce
  show "case op_bind (or_cbb_error d m) f s of
      (Some _, s') \<Rightarrow> \<exists>B' y. x = Some y \<and> bld_flush d B = Some B' \<and>
        represents s' (bld_append d y B') \<and> same_kind s s'
    | (None, s') \<Rightarrow> b_error s' \<and>
        (\<forall>B' y. x = Some y \<longrightarrow> bld_flush d B = Some B' \<longrightarrow> \<not> room malloc s (bld_len (bld_append d y B')))"
  proof (cases z)
    case None
    then have "op_bind m f s = (None, t)" "op_bind (or_cbb_error d m) f s = (None, cbb_on_error d t)"
      using r by (simp_all add: op_bind_def or_cbb_error_def)
    then show ?thesis
      using assms [unfolded adds_gen_def, rule_format, of s B] a by (simp add: cbb_on_error_def)
  next
    case (Some y)
    then have "op_bind (or_cbb_error d m) f s = op_bind m f s"
      using r by (simp add: op_bind_def or_cbb_error_def)
    then show ?thesis
      using assms [unfolded adds_gen_def, rule_format, of s B] a by simp
  qed
qed

text \<open>The content octets of an unsigned integer.\<close>

definition uint_content :: "u8 list \<Rightarrow> u8 list" where
  "uint_content bs = (case dropWhile (\<lambda>b. b = 0) bs of [] \<Rightarrow> [0]
    | b # cs \<Rightarrow> if 128 \<le> unat b then 0 # b # cs else b # cs)"

lemma adds_uint64_write:
  assumes m: "malloc_ok malloc"
  shows "adds_at malloc d (op_bind (uint64_write malloc d st bs) (\<lambda>started.
      if \<not> started then CBB_add_u8 malloc d 0 else op_ret ()))
    (Some (if st then bs else uint_content bs))"
proof (induction bs arbitrary: st)
  case Nil
  show ?case
    using adds_adds_at [OF adds_ints(1) [OF m, of d 0], of True] adds_at_ret [of malloc d "()"]
    by (cases st) (simp_all add: op_bind_def uint_content_def del: op_ret_apply cong: if_cong, simp_all add: op_ret_def)
next
  case (Cons b bs)
  let ?k = "\<lambda>started. if \<not> started then CBB_add_u8 malloc d 0 else op_ret ()"
  have rest: "adds_at malloc d (op_bind (op_bind (CBB_add_u8 malloc d b) (\<lambda>_. uint64_write malloc d True bs)) ?k)
      (Some ([b] @ bs))"
    unfolding op_bind_assoc using Cons.IH [of True]
    by (intro adds_bind_Some adds_adds_at [OF adds_ints(1) [OF m]]) simp
  show ?case
  proof (cases "\<not> st \<and> b = 0")
    case True
    then show ?thesis using Cons.IH [of False] by (simp add: uint_content_def)
  next
    case False
    have pad: "adds_at malloc d (if \<not> st \<and> b AND 0x80 \<noteq> 0 then CBB_add_u8 malloc d 0 else op_ret ())
        (Some (if \<not> st \<and> 128 \<le> unat b then [0] else []))"
      unfolding u8_msb using adds_adds_at [OF adds_ints(1) [OF m, of d 0], of True] adds_at_ret [of malloc d "()"] by simp
    have "adds_at malloc d (op_bind (uint64_write malloc d st (b # bs)) ?k)
        (Some ((if \<not> st \<and> 128 \<le> unat b then [0] else []) @ [b] @ bs))"
    proof -
      have "op_bind (uint64_write malloc d st (b # bs)) ?k =
          op_bind (if \<not> st \<and> b AND 0x80 \<noteq> 0 then CBB_add_u8 malloc d 0 else op_ret ())
            (\<lambda>_. op_bind (op_bind (CBB_add_u8 malloc d b) (\<lambda>_. uint64_write malloc d True bs)) ?k)"
        unfolding uint64_write.simps if_not_P [OF False] op_bind_assoc by (rule refl)
      then show ?thesis using adds_bind_Some [OF pad rest] by simp
    qed
    moreover have "(if \<not> st \<and> 128 \<le> unat b then [0] else []) @ [b] @ bs = (if st then b # bs else uint_content (b # bs))"
      using False by (auto simp: uint_content_def)
    ultimately show ?thesis by simp
  qed
qed

text \<open>The bytes of a 64-bit integer, most significant first.\<close>

lemma be_bytes_nth: "be_bytes n v = map (\<lambda>i. word_of_nat (v div 256 ^ (n - 1 - i))) [0..<n]"
proof (induction n arbitrary: v)
  case (Suc n)
  have "map (\<lambda>i. word_of_nat (v div 256 div 256 ^ (n - 1 - i)) :: u8) [0..<n]
      = map (\<lambda>i. word_of_nat (v div 256 ^ (Suc n - 1 - i))) [0..<n]"
  proof (rule map_cong [OF refl])
    fix i assume "i \<in> set [0..<n]"
    then have "Suc n - 1 - i = Suc (n - 1 - i)" by auto
    then show "(word_of_nat (v div 256 div 256 ^ (n - 1 - i)) :: u8) = word_of_nat (v div 256 ^ (Suc n - 1 - i))"
      by (simp add: div_mult2_eq)
  qed
  then show ?case by (simp add: Suc.IH)
qed simp

lemma u64_byte: "(ucast (drop_bit (8 * k) v) :: u8) = word_of_nat (unat v div 256 ^ k)" for v :: u64
proof -
  have p: "(2 :: nat) ^ (8 * k) = 256 ^ k" by (simp add: power_mult)
  have "unat (drop_bit (8 * k) v) = unat v div 256 ^ k"
    unfolding unat_drop_bit_eq by (simp only: drop_bit_eq_div p)
  then have "unat (ucast (drop_bit (8 * k) v) :: u8) = (unat v div 256 ^ k) mod 256"
    by (simp only: unsigned_ucast_eq) (simp add: take_bit_eq_mod)
  then show ?thesis by (simp only: word_unat_eq_iff unat_u8_of_nat)
qed

lemma uint64_bytes:
  "map (\<lambda>i. ucast (drop_bit (8 * (7 - i)) v AND 0xff)) [0..<8] = be_bytes 8 (unat v)" for v :: u64
proof -
  have "(ucast (w AND 0xff) :: u8) = ucast w" for w :: u64
  proof -
    have m: "(0xff :: u64) = mask 8" by (simp add: mask_eq_exp_minus_1)
    show ?thesis unfolding m by (rule bit_word_eqI) (auto simp: bit_simps)
  qed
  then have "(\<lambda>i. ucast (drop_bit (8 * (7 - i)) v AND 0xff) :: u8) = (\<lambda>i. word_of_nat (unat v div 256 ^ (7 - i)))"
    by (intro ext) (simp only: u64_byte)
  then show ?thesis unfolding be_bytes_nth by simp
qed

lemma length_uint_content: "length bs \<le> 8 \<Longrightarrow> length (uint_content bs) \<le> 9"
proof -
  assume "length bs \<le> 8"
  then have "length (dropWhile (\<lambda>b. b = 0) bs) \<le> 8" by (rule le_trans [OF length_dropWhile_le])
  then show ?thesis by (auto simp: uint_content_def split: list.split)
qed

lemma adds_asn1_uint64:
  assumes m: "malloc_ok malloc"
  shows "adds malloc d (CBB_add_asn1_uint64_with_tag malloc d v tag)
    (Some (der_element tag (uint_content (be_bytes 8 (unat v)))))"
proof -
  let ?y = "uint_content (be_bytes 8 (unat v))"
  have "length ?y \<le> 9" by (rule length_uint_content) simp
  then have y: "length ?y \<le> 0xfffffffe" by linarith
  let ?body = "op_bind (uint64_write malloc (Suc d) False (be_bytes 8 (unat v)))
      (\<lambda>started. if \<not> started then CBB_add_u8 malloc (Suc d) 0 else op_ret ())"
  have "adds_at malloc (Suc d) ?body (Some ?y)"
    using adds_uint64_write [OF m, of "Suc d" False] by simp
  then have "adds malloc d (op_bind (CBB_add_asn1 malloc d tag) (\<lambda>_. op_bind ?body (\<lambda>_. CBB_flush malloc d)))
      (Some (der_element tag ?y))"
    by (rule adds_asn1_element [OF m _ y])
  then have "adds malloc d (op_bind (op_bind (CBB_add_asn1 malloc d tag) (\<lambda>_. ?body)) (\<lambda>_. CBB_flush malloc d))
      (Some (der_element tag ?y))"
    by (simp only: op_bind_assoc)
  then show ?thesis
    unfolding CBB_add_asn1_uint64_with_tag_def uint64_bytes by (rule adds_or_error_bind)
qed


text \<open>The content octets of a negative integer: its eight bytes without the leading bytes that
  only repeat the sign.\<close>

fun neg_content :: "u8 list \<Rightarrow> u8 list" where
  "neg_content (a # b # bs) = (if a = 0xff \<and> 128 \<le> unat b then neg_content (b # bs) else a # b # bs)"
| "neg_content bs = bs"

lemma adds_bytes_write_down:
  assumes m: "malloc_ok malloc"
  shows "adds_at malloc d (bytes_write_down malloc d bytes n) (Some (map ((!) bytes) (rev [0..<n])))"
proof (induction n)
  case 0
  show ?case using adds_at_ret [of malloc d "()"] by (simp add: op_ret_def)
next
  case (Suc n)
  show ?case
    using adds_bind_Some [OF adds_adds_at [OF adds_ints(1) [OF m, of d "bytes ! n"], of True] Suc.IH] by simp
qed

lemma int64_start_content:
  "map ((!) bytes) (rev [0..<Suc (int64_start bytes n)]) = neg_content (map ((!) bytes) (rev [0..<Suc n]))"
proof (induction n)
  case (Suc n)
  then show ?case by (simp add: u8_msb)
qed simp

lemma length_neg_content: "length (neg_content bs) \<le> length bs"
  by (induction bs rule: neg_content.induct) auto

definition int_content :: "u64 \<Rightarrow> u8 list" where
  "int_content v = (if sint v \<ge> 0 then uint_content (be_bytes 8 (unat v)) else neg_content (be_bytes 8 (unat v)))"

lemma rev_upt_8: "rev [0..<8] = map (\<lambda>i. 7 - i) [0..<8::nat]"
  by (simp add: upt_rec)

lemma adds_asn1_int64:
  assumes m: "malloc_ok malloc"
  shows "adds malloc d (CBB_add_asn1_int64_with_tag malloc d v tag) (Some (der_element tag (int_content v)))"
proof (cases "sint v \<ge> 0")
  case True
  then show ?thesis using adds_asn1_uint64 [OF m, of d v tag]
    by (simp add: CBB_add_asn1_int64_with_tag_def int_content_def)
next
  case False
  let ?bytes = "map (\<lambda>i. ucast (drop_bit (8 * i) v) :: u8) [0..<8]"
  have nth: "map ((!) ?bytes) (rev [0..<Suc 7]) = be_bytes 8 (unat v)"
  proof -
    have "Suc 7 = (8 :: nat)" by simp
    then have "map ((!) ?bytes) (rev [0..<Suc 7]) = map (\<lambda>i. ?bytes ! (7 - i)) [0..<8]"
      by (simp only: rev_upt_8 map_map comp_def)
    also have "\<dots> = map (\<lambda>i. word_of_nat (unat v div 256 ^ (7 - i))) [0..<8]"
    proof (rule map_cong [OF refl])
      fix i :: nat
      have "[0..<8] ! (7 - i) = 7 - i" by (subst nth_upt) auto
      then show "?bytes ! (7 - i) = word_of_nat (unat v div 256 ^ (7 - i))" by (simp add: u64_byte)
    qed
    finally show ?thesis by (simp add: be_bytes_nth)
  qed
  let ?y = "neg_content (be_bytes 8 (unat v))"
  have "length ?y \<le> 8" using length_neg_content [of "be_bytes 8 (unat v)"] by simp
  then have y: "length ?y \<le> 0xfffffffe" by linarith
  have c: "map ((!) ?bytes) (rev [0..<Suc (int64_start ?bytes 7)]) = ?y"
    unfolding int64_start_content nth by (rule refl)
  have "adds_at malloc (Suc d) (bytes_write_down malloc (Suc d) ?bytes (Suc (int64_start ?bytes 7))) (Some ?y)"
    using adds_bytes_write_down [OF m, of "Suc d" ?bytes "Suc (int64_start ?bytes 7)"] unfolding c .
  note this [THEN adds_asn1_element [OF m], OF y]
  then have "adds malloc d (op_bind (op_bind (CBB_add_asn1 malloc d tag)
      (\<lambda>_. bytes_write_down malloc (Suc d) ?bytes (Suc (int64_start ?bytes 7)))) (\<lambda>_. CBB_flush malloc d))
      (Some (der_element tag ?y))"
    by (simp only: op_bind_assoc)
  note adds_or_error_bind [OF this]
  then show ?thesis
    unfolding CBB_add_asn1_int64_with_tag_def int_content_def Let_def if_not_P [OF False] .
qed

lemma adds_asn1_octet_string:
  assumes m: "malloc_ok malloc" and n: "n \<le> length data" "n \<le> 0xfffffffe"
  shows "adds malloc d (CBB_add_asn1_octet_string malloc d data n)
    (Some (der_element CBS_ASN1_OCTETSTRING (take n data)))"
  unfolding CBB_add_asn1_octet_string_def
  by (rule adds_or_error, rule adds_asn1_element [OF m adds_adds_at [OF adds_bytes [OF m]]]) (use n in simp_all)

lemma adds_asn1_bool:
  assumes m: "malloc_ok malloc"
  shows "adds malloc d (CBB_add_asn1_bool malloc d v)
    (Some (der_element CBS_ASN1_BOOLEAN [if v \<noteq> 0 then 0xff else 0]))"
  unfolding CBB_add_asn1_bool_def
  by (rule adds_or_error, rule adds_asn1_element [OF m adds_adds_at [OF adds_ints(1) [OF m]]]) simp

end
