(* ===== verification/Asn1_Values.thy ===== *)
theory Asn1_Values
  imports Writers
begin

text \<open>
  The typed ASN.1 readers of \<open>crypto/bytestring/cbs.c\<close>: integers, booleans and strings.  Each is
  proved to accept exactly the elements that the matching writer of \<open>cbb.c\<close> produces.
\<close>

section \<open>Elements of a given tag\<close>

lemma skip_header_eq:
  assumes "el_out el = CBS_init data n" "el_header_len el \<le> n"
  shows "skip_header el s = (Some (CBS_init (drop (el_header_len el) data) (n - el_header_len el)), s)"
  using assms by (simp add: skip_header_def CBS_skip_eq cbs_adv_def CBS_init_def)

definition content_at :: "cbs \<Rightarrow> u32 \<Rightarrow> nat \<Rightarrow> cbs" where
  "content_at s tag n = CBS_init (drop (length (der_header tag n)) (cbs_data s)) n"

lemma content_at_bytes:
  assumes "cbs_ok s" "cbs_bytes s = der_element tag c @ rest"
  shows "cbs_bytes (content_at s tag (length c)) = c" "cbs_ok (content_at s tag (length c))"
    "cbs_len (content_at s tag (length c)) = length c"
proof -
  have len: "length (der_header tag (length c)) + length c \<le> cbs_len s"
    using arg_cong [OF assms(2), of length] assms(1) by (simp add: der_element_def)
  have "take (length c) (drop (length (der_header tag (length c))) (cbs_data s))
      = take (length c) (drop (length (der_header tag (length c))) (cbs_bytes s))"
    using len by (simp add: cbs_bytes_def drop_take min_def)
  then show "cbs_bytes (content_at s tag (length c)) = c"
    unfolding assms(2) by (simp add: content_at_def der_element_def)
  show "cbs_ok (content_at s tag (length c))"
    using len assms(1) unfolding content_at_def cbs_ok_init length_drop cbs_ok_def [of s] by linarith
qed (simp add: content_at_def)

lemma get_asn1_iff:
  assumes ok: "cbs_ok s"
  shows "CBS_get_asn1 tag s = (Some out, t) \<longleftrightarrow>
    (\<exists>c. tag AND NOT CBS_ASN1_CONSTRUCTED \<noteq> 0 \<and> length c < 2 ^ 32 \<and>
      cbs_bytes s = der_element tag c @ cbs_bytes t \<and> t = cbs_adv (length (der_element tag c)) s \<and>
      out = content_at s tag (length c))"
  (is "?L \<longleftrightarrow> ?R")
proof
  assume ?L
  then obtain el where el: "CBS_get_any_asn1_element s = (Some el, t)" and tag: "el_tag el = tag"
    and sk: "skip_header el t = (Some out, t)"
    by (auto simp: CBS_get_asn1_def cbs_get_asn1_def skip_header_def split: if_splits option.splits prod.splits)
  obtain c where c: "tag AND NOT CBS_ASN1_CONSTRUCTED \<noteq> 0" "length c < 2 ^ 32"
    "cbs_bytes s = der_element tag c @ cbs_bytes t" "t = cbs_adv (length (der_element tag c)) s"
    "el_out el = CBS_init (cbs_data s) (length (der_element tag c))"
    "el_header_len el = length (der_header tag (length c))"
    using any_element_sound [OF ok el] unfolding is_der_element_def tag by blast
  have "out = content_at s tag (length c)"
    using sk skip_header_eq [OF c(5)] c(6) by (simp add: der_element_def content_at_def)
  with c show ?R by blast
next
  assume ?R
  then obtain c where c: "tag AND NOT CBS_ASN1_CONSTRUCTED \<noteq> 0" "length c < 2 ^ 32"
    "cbs_bytes s = der_element tag c @ cbs_bytes t" "t = cbs_adv (length (der_element tag c)) s"
    "out = content_at s tag (length c)" by blast
  define el where "el = \<lparr>el_out = CBS_init (cbs_data s) (length (der_element tag c)), el_tag = tag,
    el_header_len = length (der_header tag (length c)), el_ber_found = False, el_indefinite = False\<rparr>"
  have "is_der_element s el t"
    unfolding is_der_element_def by (intro exI [of _ c] conjI) (use c(1-4) in \<open>simp_all only: el_def asn1_element.simps\<close>, simp_all)
  then have "CBS_get_any_asn1_element s = (Some el, t)" by (rule any_element_complete [OF ok])
  moreover have "skip_header el t = (Some out, t)"
    using skip_header_eq [of el "cbs_data s" "length (der_element tag c)" t]
    by (simp add: el_def der_element_def content_at_def c(5))
  ultimately show ?L by (simp add: CBS_get_asn1_def cbs_get_asn1_def op_bind_def el_def)
qed

lemma get_asn1_sound:
  assumes "cbs_ok s" "CBS_get_asn1 tag s = (Some out, t)"
  shows "cbs_ok out" "length (cbs_bytes out) < 2 ^ 32" "cbs_bytes s = der_element tag (cbs_bytes out) @ cbs_bytes t"
    "t = cbs_adv (length (der_element tag (cbs_bytes out))) s" "tag AND NOT CBS_ASN1_CONSTRUCTED \<noteq> 0"
proof -
  obtain c where c: "tag AND NOT CBS_ASN1_CONSTRUCTED \<noteq> 0" "length c < 2 ^ 32"
    "cbs_bytes s = der_element tag c @ cbs_bytes t" "t = cbs_adv (length (der_element tag c)) s"
    "out = content_at s tag (length c)"
    using assms(2) unfolding get_asn1_iff [OF assms(1)] by blast
  note b = content_at_bytes [OF assms(1) c(3), folded c(5)]
  show "cbs_ok out" "length (cbs_bytes out) < 2 ^ 32" "cbs_bytes s = der_element tag (cbs_bytes out) @ cbs_bytes t"
    "t = cbs_adv (length (der_element tag (cbs_bytes out))) s" "tag AND NOT CBS_ASN1_CONSTRUCTED \<noteq> 0"
    unfolding b(1) by (fact b(2) c(2) c(3) c(4) c(1))+
qed

lemma get_asn1_complete:
  assumes "cbs_ok s" "tag AND NOT CBS_ASN1_CONSTRUCTED \<noteq> 0" "length c < 2 ^ 32"
    "cbs_bytes s = der_element tag c @ rest"
  obtains out where "CBS_get_asn1 tag s = (Some out, cbs_adv (length (der_element tag c)) s)"
    "cbs_ok out" "cbs_bytes out = c" "cbs_bytes (cbs_adv (length (der_element tag c)) s) = rest"
proof -
  let ?t = "cbs_adv (length (der_element tag c)) s"
  have r: "cbs_bytes ?t = rest" by (simp add: assms(4))
  have "CBS_get_asn1 tag s = (Some (content_at s tag (length c)), ?t)"
    unfolding get_asn1_iff [OF assms(1)] r using assms by blast
  with content_at_bytes [OF assms(1,4)] r that show thesis by blast
qed

section \<open>Integers\<close>

text \<open>Minimal two's complement: the first nine bits are not all equal.\<close>

fun minimal_int :: "u8 list \<Rightarrow> bool" where
  "minimal_int [] = False"
| "minimal_int [a] = True"
| "minimal_int (a # b # bs) = (\<not> (a = 0 \<and> unat b < 128) \<and> \<not> (a = 0xff \<and> 128 \<le> unat b))"

lemma u8_msb_0: "b AND 0x80 = 0 \<longleftrightarrow> unat (b :: u8) < 128"
  using u8_msb [of b] by linarith

lemma be_val_length:
  assumes "be_val bs < 256 ^ k" "bs \<noteq> []" "hd bs \<noteq> 0"
  shows "length bs \<le> k"
proof (rule ccontr)
  assume k: "\<not> length bs \<le> k"
  obtain b cs where b: "bs = b # cs" using assms(2) by (cases bs) auto
  then have "1 \<le> unat b" using assms(3) by (simp add: Suc_le_eq unat_gt_0)
  moreover have "(256 :: nat) ^ k \<le> 256 ^ length cs" using k b by (intro power_increasing) simp_all
  ultimately have "1 * 256 ^ k \<le> unat b * 256 ^ length cs" by (rule mult_le_mono)
  also have "\<dots> \<le> be_val bs" by (simp add: b be_val_Cons)
  finally show False using assms(1) by simp
qed

lemma is_valid_asn1_integer_eq:
  assumes "cbs_ok s"
  shows "CBS_is_valid_asn1_integer s =
    (if minimal_int (cbs_bytes s) then Some (128 \<le> unat (hd (cbs_bytes s))) else None)"
proof (cases "cbs_bytes s")
  case Nil
  then show ?thesis by (simp add: CBS_is_valid_asn1_integer_def CBS_get_u8_eq [OF assms])
next
  case (Cons a bs)
  then have ok: "cbs_ok (cbs_adv 1 s)"
    using length_cbs_bytes [OF assms] assms by (intro cbs_ok_adv) auto
  have bs: "cbs_bytes (cbs_adv 1 s) = bs" by (simp add: Cons)
  have a: "CBS_get_u8 s = (Some a, cbs_adv 1 s)" by (simp add: CBS_get_u8_eq [OF assms] Cons)
  show ?thesis
  proof (cases bs)
    case Nil
    then have "CBS_get_u8 (cbs_adv 1 s) = (None, cbs_adv 1 s)"
      using bs CBS_get_u8_eq [OF ok] by simp
    then show ?thesis
      using Cons Nil unfolding CBS_is_valid_asn1_integer_def a by (simp add: Let_def u8_msb)
  next
    case (Cons b cs)
    then have "CBS_get_u8 (cbs_adv 1 s) = (Some b, cbs_adv 1 (cbs_adv 1 s))"
      using bs CBS_get_u8_eq [OF ok] by simp
    then show ?thesis
      using \<open>cbs_bytes s = a # bs\<close> Cons unfolding CBS_is_valid_asn1_integer_def a
      by (simp add: Let_def u8_msb u8_msb_0 not_less)
  qed
qed

lemma asn1_uint64_loop_eq:
  "asn1_uint64_loop out bs =
    (if unat out * 256 ^ length bs + be_val bs < 2 ^ 64
     then Some (word_of_nat (unat out * 256 ^ length bs + be_val bs)) else None)"
proof (induction bs arbitrary: out)
  case Nil
  have "unat out < 2 ^ LENGTH(64)" by (rule unsigned_less)
  then show ?case by simp
next
  case (Cons b bs)
  show ?case
  proof (cases "unat out < 2 ^ 56")
    case True
    then have "drop_bit 56 out = 0" by (simp add: drop_bit_eq_0)
    then show ?thesis
      using Cons.IH [of "push_bit 8 out OR ucast b"] u64_shift_or [OF True, of b]
      by (simp add: be_val_Cons algebra_simps)
  next
    case False
    then have "drop_bit 56 out \<noteq> 0" by (simp add: drop_bit_eq_0)
    moreover have "2 ^ 64 \<le> unat out * 256 ^ length (b # bs)"
    proof -
      have "(2 :: nat) ^ 64 = 2 ^ 56 * 256 ^ 1" by simp
      also have "\<dots> \<le> unat out * 256 ^ length (b # bs)"
        using False by (intro mult_le_mono power_increasing) simp_all
      finally show ?thesis .
    qed
    ultimately show ?thesis by simp
  qed
qed

lemma uint_content_minimal: "minimal_int (uint_content bs) \<and> unat (hd (uint_content bs)) < 128"
proof (cases "dropWhile (\<lambda>b. b = 0) bs")
  case (Cons b cs)
  then have "b \<noteq> 0" using hd_dropWhile [of "\<lambda>b. b = 0" bs] by simp
  then show ?thesis unfolding uint_content_def Cons by (cases cs) auto
next
  case Nil
  then show ?thesis unfolding uint_content_def Nil by simp
qed

lemma be_val_uint_content: "be_val (uint_content bs) = be_val bs"
proof (cases "dropWhile (\<lambda>b. b = 0) bs")
  case Nil
  then show ?thesis using be_val_dropWhile [of bs] unfolding uint_content_def Nil by simp
next
  case (Cons b cs)
  then show ?thesis using be_val_dropWhile [of bs] unfolding uint_content_def Cons by (simp add: be_val_Cons)
qed

lemma uint_content_unique:
  assumes "minimal_int c" "unat (hd c) < 128" "be_val c < 2 ^ 64"
  shows "c = uint_content (be_bytes 8 (be_val c))"
proof -
  have m: "dropWhile (\<lambda>b. b = 0) (be_bytes 8 (be_val c)) = be_min (be_val c)" by (simp add: be_min_def)
  consider (zero) "c = [0]" | (pad) b cs where "c = 0 # b # cs" "128 \<le> unat b"
    | (plain) "hd c \<noteq> 0" "c \<noteq> []"
    using assms(1) by (cases c rule: minimal_int.cases) (auto simp: not_less)
  then show ?thesis
  proof cases
    case zero
    then show ?thesis unfolding uint_content_def m by simp
  next
    case (pad b cs)
    have v: "be_val c = be_val (b # cs)" by (simp add: pad be_val_Cons)
    have "b \<noteq> 0" using pad(2) by auto
    moreover have "length (b # cs) \<le> 8"
      using be_val_length [of "b # cs" 8] \<open>b \<noteq> 0\<close> assms(3) v by simp
    ultimately have "be_min (be_val c) = b # cs"
      unfolding v by (intro be_min_be_val) simp_all
    then show ?thesis using pad unfolding uint_content_def m by simp
  next
    case plain
    have "length c \<le> 8" using be_val_length [of c 8] plain assms(3) by simp
    then have "be_min (be_val c) = c" using plain by (intro be_min_be_val)
    then show ?thesis using plain assms(2) unfolding uint_content_def m by (cases c) auto
  qed
qed


lemma tag_integer_ok: "CBS_ASN1_INTEGER AND NOT CBS_ASN1_CONSTRUCTED \<noteq> 0"
  and tag_boolean_ok: "CBS_ASN1_BOOLEAN AND NOT CBS_ASN1_CONSTRUCTED \<noteq> 0"
  and tag_octetstring_ok: "CBS_ASN1_OCTETSTRING AND NOT CBS_ASN1_CONSTRUCTED \<noteq> 0"
  by simp_all

lemma get_asn1_uint64_iff:
  assumes ok: "cbs_ok s"
  shows "CBS_get_asn1_uint64 s = (Some v, t) \<longleftrightarrow>
    cbs_bytes s = der_element CBS_ASN1_INTEGER (uint_content (be_bytes 8 (unat v))) @ cbs_bytes t \<and>
    t = cbs_adv (length (der_element CBS_ASN1_INTEGER (uint_content (be_bytes 8 (unat v))))) s"
proof
  assume "CBS_get_asn1_uint64 s = (Some v, t)"
  then obtain out where out: "CBS_get_asn1 CBS_ASN1_INTEGER s = (Some out, t)"
    and u: "CBS_is_unsigned_asn1_integer out"
    and v: "asn1_uint64_loop 0 (take (CBS_len out) (CBS_data out)) = Some v"
    by (auto simp: CBS_get_asn1_uint64_def split: if_splits)
  note g = get_asn1_sound [OF ok out]
  have mi: "minimal_int (cbs_bytes out)" "unat (hd (cbs_bytes out)) < 128"
    using u by (auto simp: CBS_is_unsigned_asn1_integer_def is_valid_asn1_integer_eq [OF g(1)] split: if_splits)
  have "asn1_uint64_loop 0 (cbs_bytes out) = Some v" using v by (simp add: CBS_data_def cbs_bytes_def)
  then have b: "be_val (cbs_bytes out) < 2 ^ 64" "v = word_of_nat (be_val (cbs_bytes out))"
    by (auto simp: asn1_uint64_loop_eq split: if_splits)
  then have "unat v = be_val (cbs_bytes out)" by (simp add: unat_of_nat)
  then have "cbs_bytes out = uint_content (be_bytes 8 (unat v))"
    using uint_content_unique [OF mi b(1)] by simp
  then show "cbs_bytes s = der_element CBS_ASN1_INTEGER (uint_content (be_bytes 8 (unat v))) @ cbs_bytes t \<and>
    t = cbs_adv (length (der_element CBS_ASN1_INTEGER (uint_content (be_bytes 8 (unat v))))) s"
    using g(3,4) by simp
next
  let ?c = "uint_content (be_bytes 8 (unat v))"
  assume a: "cbs_bytes s = der_element CBS_ASN1_INTEGER ?c @ cbs_bytes t \<and>
    t = cbs_adv (length (der_element CBS_ASN1_INTEGER ?c)) s"
  have "length ?c \<le> 9" by (rule length_uint_content) simp
  then have "length ?c < 2 ^ 32" by simp
  then obtain out where out: "CBS_get_asn1 CBS_ASN1_INTEGER s = (Some out, t)" "cbs_ok out" "cbs_bytes out = ?c"
    using get_asn1_complete [OF ok tag_integer_ok _ a [THEN conjunct1]] a by metis
  have "unat v < 2 ^ LENGTH(64)" by (rule unsigned_less)
  then have bv: "be_val ?c = unat v" by (simp add: be_val_uint_content be_val_be_bytes)
  have u: "CBS_is_unsigned_asn1_integer out"
    using uint_content_minimal [of "be_bytes 8 (unat v)"]
    by (simp add: CBS_is_unsigned_asn1_integer_def is_valid_asn1_integer_eq [OF out(2)] out(3))
  have "asn1_uint64_loop 0 (take (CBS_len out) (CBS_data out)) = Some v"
  proof -
    have "take (CBS_len out) (CBS_data out) = ?c" using out(3) by (simp add: CBS_data_def cbs_bytes_def)
    then show ?thesis using \<open>unat v < 2 ^ LENGTH(64)\<close> by (simp add: asn1_uint64_loop_eq bv)
  qed
  then show "CBS_get_asn1_uint64 s = (Some v, t)"
    by (simp add: CBS_get_asn1_uint64_def op_bind_def out(1) u)
qed

text \<open>Sign extension.\<close>

lemma le_u64_be_val: "length bs \<le> 8 \<Longrightarrow> unat (le_u64 bs) = be_val (rev bs)"
proof (induction bs)
  case (Cons b bs)
  then have IH: "unat (le_u64 bs) = be_val (rev bs)" by simp
  have "be_val (rev bs) < 256 ^ length bs" using be_val_bound [of "rev bs"] by simp
  also have "(256 :: nat) ^ length bs \<le> 256 ^ 7" using Cons.prems by (intro power_increasing) simp_all
  finally have "unat (le_u64 bs) < 2 ^ 56" by (simp add: IH)
  from u64_shift_or [OF this, of b] show ?case by (simp add: IH or.commute)
qed simp

lemma foldl_update_rev:
  assumes "n \<le> length xs" "n \<le> length data"
  shows "foldl (\<lambda>se i. se[i := f i]) xs [0..<n] = map f [0..<n] @ drop n xs"
  using assms
proof (induction n)
  case (Suc n)
  then have "foldl (\<lambda>se i. se[i := f i]) xs [0..<Suc n] = (map f [0..<n] @ drop n xs)[n := f n]" by simp
  also have "\<dots> = map f [0..<Suc n] @ drop (Suc n) xs"
    using Suc.prems by (simp add: list_update_append Cons_nth_drop_Suc [symmetric])
  finally show ?case .
qed simp

lemma sign_extended:
  assumes "length c = n" "n \<le> 8"
  shows "unat (le_u64 (foldl (\<lambda>se i. se[i := c ! (n - i - 1)]) (replicate 8 p) [0..<n]))
    = be_val (replicate (8 - n) p @ c)"
proof -
  have "foldl (\<lambda>se i. se[i := c ! (n - i - 1)]) (replicate 8 p) [0..<n]
      = map (\<lambda>i. c ! (n - i - 1)) [0..<n] @ drop n (replicate 8 p)"
    by (rule foldl_update_rev [where data = c]) (use assms in simp_all)
  moreover have "map (\<lambda>i. c ! (n - i - 1)) [0..<n] = rev c"
    using assms(1) by (intro nth_equalityI) (simp_all add: rev_nth)
  ultimately have "foldl (\<lambda>se i. se[i := c ! (n - i - 1)]) (replicate 8 p) [0..<n] = rev c @ replicate (8 - n) p"
    by simp
  then show ?thesis
    using assms by (simp add: le_u64_be_val)
qed


lemma sint_nonneg_iff: "sint (v :: u64) \<ge> 0 \<longleftrightarrow> unat v < 2 ^ 63"
proof -
  have "sint v < 0 \<longleftrightarrow> drop_bit (LENGTH(64) - Suc 0) v \<noteq> 0"
    by (simp only: bit_last_iff [symmetric] drop_bit_eq_zero_iff_not_bit_last not_not)
  also have "\<dots> \<longleftrightarrow> \<not> unat v < 2 ^ 63"
    by (simp add: drop_bit_eq_0)
  finally show ?thesis by linarith
qed

lemma neg_content_props:
  assumes "bs \<noteq> []" "128 \<le> unat (hd bs)"
  shows "bs = replicate (length bs - length (neg_content bs)) 0xff @ neg_content bs \<and>
    minimal_int (neg_content bs) \<and> 128 \<le> unat (hd (neg_content bs)) \<and> neg_content bs \<noteq> []"
  using assms
proof (induction bs rule: neg_content.induct)
  case (1 a b bs)
  show ?case
  proof (cases "a = 0xff \<and> 128 \<le> unat b")
    case True
    then have IH: "b # bs = replicate (length (b # bs) - length (neg_content (b # bs))) 0xff @ neg_content (b # bs)"
      "minimal_int (neg_content (b # bs))" "128 \<le> unat (hd (neg_content (b # bs)))" "neg_content (b # bs) \<noteq> []"
      using "1.IH" [OF True] by simp_all
    have le: "length (neg_content (b # bs)) \<le> length (b # bs)" by (rule length_neg_content)
    have "a # b # bs = replicate (Suc (length (b # bs) - length (neg_content (b # bs)))) 0xff @ neg_content (b # bs)"
      using True IH(1) by simp
    also have "Suc (length (b # bs) - length (neg_content (b # bs))) = length (a # b # bs) - length (neg_content (b # bs))"
      using le by simp
    finally show ?thesis using True IH by (simp only: neg_content.simps if_True simp_thms)
  next
    case False
    then show ?thesis using "1.prems" by auto
  qed
qed simp_all

lemma neg_content_pad:
  assumes "minimal_int c" "128 \<le> unat (hd c)"
  shows "neg_content (replicate k 0xff @ c) = c"
proof (induction k)
  case 0
  show ?case using assms by (cases c rule: neg_content.cases) auto
next
  case (Suc k)
  obtain a bs where c: "c = a # bs" using assms(1) by (cases c) auto
  have "\<exists>b cs. replicate k (0xff :: u8) @ c = b # cs \<and> 128 \<le> unat b"
    using assms(2) c by (cases k) auto
  then obtain b cs where b: "replicate k (0xff :: u8) @ c = b # cs" "128 \<le> unat b" by blast
  have "neg_content (replicate (Suc k) 0xff @ c) = neg_content (0xff # b # cs)" using b by simp
  also have "\<dots> = neg_content (b # cs)" using b(2) by simp
  finally show ?case using Suc.IH b(1) by simp
qed

definition sign_byte :: "u8 list \<Rightarrow> u8" where
  "sign_byte c = (if 128 \<le> unat (hd c) then 0xff else 0)"

lemma hd_be_bytes_8: "128 \<le> unat (hd (be_bytes 8 (unat v))) \<longleftrightarrow> \<not> unat (v :: u64) < 2 ^ 63"
proof -
  obtain b cs where b: "be_bytes 8 (unat v) = b # cs" using length_be_bytes [of 8 "unat v"] by (cases "be_bytes 8 (unat v)") auto
  have "unat v < 2 ^ LENGTH(64)" by (rule unsigned_less)
  then have "be_val (be_bytes 8 (unat v)) = unat v" by (simp add: be_val_be_bytes)
  then have v: "unat v = unat b * 256 ^ 7 + be_val cs" and l: "length cs = 7"
    using length_be_bytes [of 8 "unat v"] unfolding b by (simp_all add: be_val_Cons)
  have "be_val cs < 256 ^ 7" using be_val_bound [of cs] l by simp
  then have "128 \<le> unat b \<longleftrightarrow> \<not> unat v < 2 ^ 63" unfolding v by auto
  then show ?thesis by (simp add: b)
qed

lemma int_content_unique:
  assumes "minimal_int c" "length c \<le> 8" "unat v = be_val (replicate (8 - length c) (sign_byte c) @ c)"
  shows "int_content v = c"
proof -
  have "length (replicate (8 - length c) (sign_byte c) @ c) = 8" using assms(2) by simp
  then have bb: "be_bytes 8 (unat v) = replicate (8 - length c) (sign_byte c) @ c"
    unfolding assms(3) using be_bytes_be_val by metis
  have ne: "c \<noteq> []" using assms(1) by auto
  have hd: "128 \<le> unat (hd (be_bytes 8 (unat v))) \<longleftrightarrow> 128 \<le> unat (hd c)"
    unfolding bb using ne by (cases "8 - length c") (auto simp: sign_byte_def)
  show ?thesis
  proof (cases "128 \<le> unat (hd c)")
    case True
    then have "\<not> sint v \<ge> 0" using hd hd_be_bytes_8 [of v] by (simp only: sint_nonneg_iff)
    then show ?thesis
      using neg_content_pad [OF assms(1) True] True unfolding int_content_def bb by (simp add: sign_byte_def)
  next
    case False
    then have nn: "sint v \<ge> 0" using hd hd_be_bytes_8 [of v] by (simp only: sint_nonneg_iff) blast
    have v: "unat v = be_val c" using False assms(3) by (simp add: sign_byte_def be_val_append)
    have "be_val c < 2 ^ 64" using unsigned_less [of v, where 'a = nat] unfolding v by simp
    then have "c = uint_content (be_bytes 8 (be_val c))"
      using False by (intro uint_content_unique assms(1)) simp_all
    then show ?thesis using nn by (simp add: int_content_def v)
  qed
qed

lemma int_content_props:
  "minimal_int (int_content v) \<and> length (int_content v) \<le> 8 \<and>
    unat v = be_val (replicate (8 - length (int_content v)) (sign_byte (int_content v)) @ int_content v)"
proof (cases "sint v \<ge> 0")
  case True
  let ?c = "uint_content (be_bytes 8 (unat v))"
  have v63: "unat v < 2 ^ 63" using True by (simp only: sint_nonneg_iff)
  have bv: "be_val ?c = unat v" using v63 by (simp add: be_val_uint_content be_val_be_bytes)
  have "length ?c \<le> 8"
  proof (cases "hd ?c = 0")
    case False
    have "?c \<noteq> []" using uint_content_minimal [of "be_bytes 8 (unat v)"] by auto
    then show ?thesis using be_val_length [of ?c 8] False v63 by (simp add: bv)
  next
    case h0: True
    show ?thesis
    proof (cases ?c rule: minimal_int.cases)
      case (3 a b cs)
      then have b: "128 \<le> unat b" using h0 uint_content_minimal [of "be_bytes 8 (unat v)"] by auto
      have "unat b * 256 ^ length cs \<le> be_val ?c" using 3 by (simp add: be_val_Cons)
      then have "128 * 256 ^ length cs < (2 :: nat) ^ 63"
        using b v63 le_trans [OF mult_le_mono1 [OF b]] unfolding bv by (metis le_less_trans)
      then have "\<not> 7 \<le> length cs"
        using power_increasing [of 7 "length cs" "256 :: nat"] by auto
      then show ?thesis using 3 by simp
    qed simp_all
  qed
  then show ?thesis
    using True uint_content_minimal [of "be_bytes 8 (unat v)"] bv
    by (simp add: int_content_def sign_byte_def be_val_append)
next
  case False
  then have h: "128 \<le> unat (hd (be_bytes 8 (unat v)))" by (simp only: sint_nonneg_iff hd_be_bytes_8 simp_thms)
  let ?b = "be_bytes 8 (unat v)"
  have ne: "?b \<noteq> []" by (metis length_be_bytes list.size(3) zero_neq_numeral)
  note p = neg_content_props [OF ne h]
  have "unat v < 2 ^ LENGTH(64)" by (rule unsigned_less)
  then have "unat v = be_val ?b" by (simp add: be_val_be_bytes)
  also have "?b = replicate (8 - length (neg_content ?b)) 0xff @ neg_content ?b"
    using p [THEN conjunct1] unfolding length_be_bytes .
  finally show ?thesis
    using False p length_neg_content [of ?b] by (simp add: int_content_def sign_byte_def)
qed


lemma get_asn1_int64_iff:
  assumes ok: "cbs_ok s"
  shows "CBS_get_asn1_int64 s = (Some v, t) \<longleftrightarrow>
    cbs_bytes s = der_element CBS_ASN1_INTEGER (int_content v) @ cbs_bytes t \<and>
    t = cbs_adv (length (der_element CBS_ASN1_INTEGER (int_content v))) s"
proof -
  have run: "CBS_get_asn1_int64 s = (Some v, t) \<longleftrightarrow> int_content v = cbs_bytes out"
    if out: "CBS_get_asn1 CBS_ASN1_INTEGER s = (Some out, t)" "cbs_ok out" for out t
  proof -
    let ?c = "cbs_bytes out"
    let ?neg = "128 \<le> unat (hd ?c)"
    let ?w = "le_u64 (foldl (\<lambda>se i. se[i := ?c ! (length ?c - i - 1)]) (replicate 8 (sign_byte ?c)) [0..<length ?c])"
    have len: "cbs_len out = length ?c" using out(2) by simp
    have loop: "foldl (\<lambda>se i. se[i := cbs_data out ! (length ?c - i - 1)]) xs [0..<length ?c]
        = foldl (\<lambda>se i. se[i := ?c ! (length ?c - i - 1)]) xs [0..<length ?c]" for xs
    proof (rule foldl_cong [OF refl refl])
      fix i xs assume "i \<in> set [0..<length ?c]"
      then have "length ?c - i - 1 < cbs_len out" using len by auto
      then show "xs[i := cbs_data out ! (length ?c - i - 1)] = xs[i := ?c ! (length ?c - i - 1)]"
        by (simp only: cbs_data_nth [OF out(2)])
    qed
    have "CBS_get_asn1_int64 s = (if minimal_int ?c \<and> length ?c \<le> 8 then (Some ?w, t) else (None, t))"
      by (simp add: CBS_get_asn1_int64_def op_bind_def out(1) is_valid_asn1_integer_eq [OF out(2)] len Let_def
          CBS_data_def sign_byte_def loop [simplified])
    moreover have "(minimal_int ?c \<and> length ?c \<le> 8 \<and> ?w = v) \<longleftrightarrow> int_content v = ?c"
    proof
      assume a: "minimal_int ?c \<and> length ?c \<le> 8 \<and> ?w = v"
      then have "unat v = be_val (replicate (8 - length ?c) (sign_byte ?c) @ ?c)"
        using sign_extended [OF refl, of ?c "sign_byte ?c"] by blast
      then show "int_content v = ?c" using a by (intro int_content_unique) simp_all
    next
      assume eq: "int_content v = ?c"
      note p = int_content_props [of v, unfolded eq]
      then have "unat ?w = unat v" using sign_extended [OF refl, of ?c "sign_byte ?c"] by simp
      then show "minimal_int ?c \<and> length ?c \<le> 8 \<and> ?w = v" using p by (simp add: word_unat_eq_iff)
    qed
    ultimately show ?thesis by auto
  qed
  show ?thesis
  proof
    assume r: "CBS_get_asn1_int64 s = (Some v, t)"
    obtain out t' where out: "CBS_get_asn1 CBS_ASN1_INTEGER s = (Some out, t')"
      using r by (auto simp: CBS_get_asn1_int64_def)
    note g = get_asn1_sound [OF ok out]
    have "t' = t"
      using r out by (auto simp: CBS_get_asn1_int64_def op_bind_def Let_def split: option.splits if_splits)
    then have "int_content v = cbs_bytes out" using run [OF _ g(1)] out r by blast
    then show "cbs_bytes s = der_element CBS_ASN1_INTEGER (int_content v) @ cbs_bytes t \<and>
      t = cbs_adv (length (der_element CBS_ASN1_INTEGER (int_content v))) s"
      using g(3,4) \<open>t' = t\<close> by simp
  next
    let ?c = "int_content v"
    assume a: "cbs_bytes s = der_element CBS_ASN1_INTEGER ?c @ cbs_bytes t \<and>
      t = cbs_adv (length (der_element CBS_ASN1_INTEGER ?c)) s"
    have "length ?c < 2 ^ 32" using int_content_props [of v] by simp
    then obtain out where out: "CBS_get_asn1 CBS_ASN1_INTEGER s = (Some out, t)" "cbs_ok out" "cbs_bytes out = ?c"
      using get_asn1_complete [OF ok tag_integer_ok _ a [THEN conjunct1]] a by metis
    then show "CBS_get_asn1_int64 s = (Some v, t)" using run by metis
  qed
qed

section \<open>Booleans and octet strings\<close>

lemma get_asn1_bool_iff:
  assumes ok: "cbs_ok s"
  shows "CBS_get_asn1_bool s = (Some b, t) \<longleftrightarrow>
    cbs_bytes s = der_element CBS_ASN1_BOOLEAN [if b then 0xff else 0] @ cbs_bytes t \<and>
    t = cbs_adv (length (der_element CBS_ASN1_BOOLEAN [if b then 0xff else 0])) s"
proof
  assume r: "CBS_get_asn1_bool s = (Some b, t)"
  then obtain out where out: "CBS_get_asn1 CBS_ASN1_BOOLEAN s = (Some out, t)" and l: "cbs_len out = 1"
    and v: "cbs_data out ! 0 = 0 \<or> cbs_data out ! 0 = 0xff" "b = (cbs_data out ! 0 \<noteq> 0)"
    by (auto simp: CBS_get_asn1_bool_def Let_def CBS_data_def split: if_splits)
  note g = get_asn1_sound [OF ok out]
  have "length (cbs_bytes out) = 1" using l g(1) by simp
  moreover have "cbs_data out ! 0 = cbs_bytes out ! 0" using l by (intro cbs_data_nth g(1)) simp
  ultimately have "cbs_bytes out = [if b then 0xff else 0]"
    using v by (cases "cbs_bytes out") auto
  then show "cbs_bytes s = der_element CBS_ASN1_BOOLEAN [if b then 0xff else 0] @ cbs_bytes t \<and>
    t = cbs_adv (length (der_element CBS_ASN1_BOOLEAN [if b then 0xff else 0])) s"
    using g(3,4) by simp
next
  let ?c = "[if b then 0xff else 0 :: u8]"
  assume a: "cbs_bytes s = der_element CBS_ASN1_BOOLEAN ?c @ cbs_bytes t \<and>
    t = cbs_adv (length (der_element CBS_ASN1_BOOLEAN ?c)) s"
  have "length ?c < 2 ^ 32" by simp
  then obtain out where out: "CBS_get_asn1 CBS_ASN1_BOOLEAN s = (Some out, t)" "cbs_ok out" "cbs_bytes out = ?c"
    using get_asn1_complete [OF ok tag_boolean_ok _ a [THEN conjunct1]] a by metis
  have "cbs_len out = 1" using length_cbs_bytes [OF out(2)] out(3) by simp
  moreover from this have "cbs_data out ! 0 = (if b then 0xff else 0)"
    using cbs_data_nth [OF out(2), of 0] out(3) by simp
  ultimately show "CBS_get_asn1_bool s = (Some b, t)"
    by (auto simp: CBS_get_asn1_bool_def op_bind_def out(1) Let_def CBS_data_def)
qed

end
