(* ===== verification/Asn1_String.thy ===== *)
theory Asn1_String
  imports Asn1_Values "HOL-Library.Monad_Syntax"
begin

text \<open>
  \<open>ASN1_STRING\<close>: the functions of \<open>crypto/asn1/asn1_lib.c\<close> that copy, compare and set one, and
  \<open>crypto/asn1/a_bitstr.c\<close>, the BIT STRINGs.

  A string is the record of \<open>asn1_string_st\<close>.  Its \<open>data\<close> is the whole block of memory that the pointer points
  to, \<open>None\<close> for a null pointer; the block may be longer than the \<open>length\<close> field says.  An access outside a block
  has no value (\<open>None\<close>).  Fields of type \<open>int\<close> and \<open>long\<close> are integers.  A parameter like \<open>ASN1_STRING **out\<close>
  is \<open>None\<close> for a null pointer, \<open>Some None\<close> when \<open>*out\<close> is null and else \<open>Some (Some s)\<close>; the result has its new
  value.
\<close>

unbundle bit_operations_syntax

section \<open>Strings\<close>

record asn1_string =
  s_length :: int
  s_type :: int
  s_data :: "u8 list option"
  s_flags :: int

abbreviation (input) V_ASN1_INTEGER :: int where "V_ASN1_INTEGER \<equiv> 2"
abbreviation (input) V_ASN1_BIT_STRING :: int where "V_ASN1_BIT_STRING \<equiv> 3"
abbreviation (input) V_ASN1_OCTET_STRING :: int where "V_ASN1_OCTET_STRING \<equiv> 4"
abbreviation (input) V_ASN1_ENUMERATED :: int where "V_ASN1_ENUMERATED \<equiv> 10"
abbreviation (input) ASN1_STRING_MAX :: nat where "ASN1_STRING_MAX \<equiv> 64 * 1024 * 1024"
abbreviation (input) ASN1_STRING_FLAG_BITS_LEFT :: int where "ASN1_STRING_FLAG_BITS_LEFT \<equiv> 0x08"
abbreviation (input) SIZEOF_ASN1_STRING :: nat where "SIZEOF_ASN1_STRING \<equiv> 24"

definition block :: "u8 list option \<Rightarrow> u8 list" where
  "block p = (case p of None \<Rightarrow> [] | Some bs \<Rightarrow> bs)"

definition ASN1_STRING_type_new :: "(nat \<Rightarrow> u8 list option) \<Rightarrow> int \<Rightarrow> asn1_string option" where
  "ASN1_STRING_type_new malloc ty =
    (case OPENSSL_malloc malloc SIZEOF_ASN1_STRING of
       None \<Rightarrow> None
     | Some _ \<Rightarrow> Some \<lparr>s_length = 0, s_type = ty, s_data = None, s_flags = 0\<rparr>)"

definition ASN1_STRING_new :: "(nat \<Rightarrow> u8 list option) \<Rightarrow> asn1_string option" where
  "ASN1_STRING_new malloc = ASN1_STRING_type_new malloc V_ASN1_OCTET_STRING"

definition ASN1_INTEGER_new :: "(nat \<Rightarrow> u8 list option) \<Rightarrow> asn1_string option" where
  "ASN1_INTEGER_new malloc = ASN1_STRING_type_new malloc V_ASN1_INTEGER"

definition ASN1_BIT_STRING_new :: "(nat \<Rightarrow> u8 list option) \<Rightarrow> asn1_string option" where
  "ASN1_BIT_STRING_new malloc = ASN1_STRING_type_new malloc V_ASN1_BIT_STRING"

text \<open>The result is the return value and the string.\<close>

definition ASN1_STRING_set ::
  "(nat \<Rightarrow> u8 list option) \<Rightarrow> asn1_string \<Rightarrow> u8 list option \<Rightarrow> int \<Rightarrow> (int \<times> asn1_string) option" where
  "ASN1_STRING_set malloc str d len_s =
    (if len_s < 0 \<and> d = None then Some (0, str)
     else do {
       len \<leftarrow> (if len_s < 0 then c_strlen (block d) else Some (nat len_s));
       if len > ASN1_STRING_MAX then Some (0, str)
       else
         (case (if s_length str \<le> int len \<or> s_data str = None
                then (case s_data str of None \<Rightarrow> OPENSSL_malloc malloc (len + 1)
                      | Some c \<Rightarrow> OPENSSL_realloc malloc (Some c) (len + 1))
                else s_data str) of
            None \<Rightarrow> Some (0, str)
          | Some blk \<Rightarrow>
             (case d of
                None \<Rightarrow> Some (1, str\<lparr>s_data := Some blk, s_length := int len\<rparr>)
              | Some bs \<Rightarrow> do {
                  assert (len \<le> length bs \<and> len < length blk);
                  Some (1, str\<lparr>s_data := Some (take len bs @ 0 # drop (len + 1) blk), s_length := int len\<rparr>) })) })"

definition ASN1_STRING_copy ::
  "(nat \<Rightarrow> u8 list option) \<Rightarrow> asn1_string \<Rightarrow> asn1_string option \<Rightarrow> (int \<times> asn1_string) option" where
  "ASN1_STRING_copy malloc dst str =
    (case str of
       None \<Rightarrow> Some (0, dst)
     | Some str \<Rightarrow> do {
         (r, dst) \<leftarrow> ASN1_STRING_set malloc dst (s_data str) (s_length str);
         Some (if r = 0 then (0, dst) else (1, dst\<lparr>s_type := s_type str, s_flags := s_flags str\<rparr>)) })"

definition ASN1_STRING_dup ::
  "(nat \<Rightarrow> u8 list option) \<Rightarrow> asn1_string option \<Rightarrow> asn1_string option option" where
  "ASN1_STRING_dup malloc str =
    (case str of
       None \<Rightarrow> Some None
     | Some _ \<Rightarrow>
        (case ASN1_STRING_new malloc of
           None \<Rightarrow> Some None
         | Some ret \<Rightarrow> do {
             (r, ret) \<leftarrow> ASN1_STRING_copy malloc ret str;
             Some (if r = 0 then None else Some ret) }))"

definition ASN1_STRING_set0 :: "asn1_string \<Rightarrow> u8 list option \<Rightarrow> int \<Rightarrow> asn1_string" where
  "ASN1_STRING_set0 str d len = str\<lparr>s_data := d, s_length := len\<rparr>"

definition ASN1_STRING_length :: "asn1_string \<Rightarrow> int" where
  "ASN1_STRING_length str = s_length str"

definition ASN1_STRING_type :: "asn1_string \<Rightarrow> int" where
  "ASN1_STRING_type str = s_type str"

definition ASN1_STRING_data :: "asn1_string \<Rightarrow> u8 list option" where
  "ASN1_STRING_data str = s_data str"

definition ASN1_STRING_get0_data :: "asn1_string \<Rightarrow> u8 list option" where
  "ASN1_STRING_get0_data str = s_data str"

section \<open>Bit strings\<close>

text \<open>The loops of \<open>asn1_bit_string_length\<close>: over trailing zero bytes, and over the low bits of the last byte.\<close>

fun trim_zeros :: "u8 list \<Rightarrow> nat \<Rightarrow> nat" where
  "trim_zeros d 0 = 0"
| "trim_zeros d (Suc n) = (if d ! n = 0 then trim_zeros d n else Suc n)"

function padding_loop :: "u8 \<Rightarrow> nat \<Rightarrow> nat" where
  "padding_loop l p = (if p < 7 then if l AND push_bit p 1 \<noteq> 0 then p else padding_loop l (p + 1) else p)"
  by pat_completeness auto
termination
  by (relation "measure (\<lambda>(l, p). 7 - p)") auto

declare padding_loop.simps [simp del]

text \<open>The result is the length and the padding bits.\<close>

definition asn1_bit_string_length :: "asn1_string \<Rightarrow> (int \<times> int) option" where
  "asn1_bit_string_length str =
    (if s_flags str AND ASN1_STRING_FLAG_BITS_LEFT \<noteq> 0
     then Some (s_length str, if s_length str = 0 then 0 else s_flags str AND 0x07)
     else do {
       assert (s_length str \<le> int (length (block (s_data str))));
       let len = trim_zeros (block (s_data str)) (nat (s_length str));
       if len > 0 then do {
         let l = block (s_data str) ! (len - 1);
         assert (l \<noteq> 0);
         Some (int len, int (padding_loop l 0)) }
       else Some (if s_length str > 0 then 0 else s_length str, 0) })"

definition ASN1_BIT_STRING_set ::
  "(nat \<Rightarrow> u8 list option) \<Rightarrow> asn1_string \<Rightarrow> u8 list option \<Rightarrow> int \<Rightarrow> (int \<times> asn1_string) option" where
  "ASN1_BIT_STRING_set malloc x d len = ASN1_STRING_set malloc x d len"

text \<open>The result is the return value and \<open>*out\<close>.\<close>

definition ASN1_BIT_STRING_num_bytes :: "asn1_string \<Rightarrow> int option option" where
  "ASN1_BIT_STRING_num_bytes str = do {
     (len, padding_bits) \<leftarrow> asn1_bit_string_length str;
     Some (if padding_bits \<noteq> 0 then None else Some len) }"

text \<open>\<open>pp\<close> is \<open>None\<close> for a null pointer and else the bytes from \<open>*pp\<close> on.  The result is the return value and
  these bytes afterwards; \<open>*pp\<close> advances by the return value.\<close>

definition i2c_ASN1_BIT_STRING :: "asn1_string option \<Rightarrow> u8 list option \<Rightarrow> (int \<times> u8 list option) option" where
  "i2c_ASN1_BIT_STRING a pp =
    (case a of
       None \<Rightarrow> Some (0, pp)
     | Some a \<Rightarrow> do {
         (len, bits) \<leftarrow> asn1_bit_string_length a;
         if len > int INT_MAX_nat - 1 then Some (0, pp)
         else let ret = 1 + len in
           (case pp of
              None \<Rightarrow> Some (ret, None)
            | Some p \<Rightarrow> do {
                assert (0 \<le> len \<and> nat len \<le> length (block (s_data a)) \<and> nat len < length p);
                let c = take (nat len) (block (s_data a));
                let c = (if len > 0 then c[nat len - 1 := c ! (nat len - 1) AND push_bit (nat bits) 0xff] else c);
                Some (ret, Some (word_of_int bits # c @ drop (nat ret) p)) }) })"

definition c2i_ASN1_BIT_STRING ::
  "(nat \<Rightarrow> u8 list option) \<Rightarrow> asn1_string option option \<Rightarrow> u8 list \<Rightarrow> int \<Rightarrow>
    (asn1_string option \<times> asn1_string option option \<times> u8 list) option" where
  "c2i_ASN1_BIT_STRING malloc a pp len =
    (if len < 1 then Some (None, a, pp)
     else if len > int INT_MAX_nat then Some (None, a, pp)
     else
       (case (case a of Some (Some s) \<Rightarrow> Some s | _ \<Rightarrow> ASN1_BIT_STRING_new malloc) of
          None \<Rightarrow> Some (None, a, pp)
        | Some ret \<Rightarrow> do {
            let keep = (\<lambda>ret. case a of Some (Some s) \<Rightarrow> Some (Some ret) | _ \<Rightarrow> a);
            assert (nat len \<le> length pp);
            let padding = int (unat (hd pp));
            let p = tl pp;
            let len = len - 1;
            if padding > 7 then Some (None, keep ret, pp)
            else do {
              let padding_mask = (push_bit (nat padding) 1 - 1 :: u8);
              if padding \<noteq> 0 \<and> (len < 1 \<or> p ! (nat len - 1) AND padding_mask \<noteq> 0)
              then Some (None, keep ret, pp)
              else do {
                let ret = ret\<lparr>s_flags := (s_flags ret AND NOT (ASN1_STRING_FLAG_BITS_LEFT OR 0x07)) OR
                  (ASN1_STRING_FLAG_BITS_LEFT OR padding)\<rparr>;
                case (if len > 0 then map_option Some (OPENSSL_memdup malloc p (nat len)) else Some None) of
                  None \<Rightarrow> Some (None, keep ret, pp)
                | Some s \<Rightarrow> do {
                    let ret = ret\<lparr>s_length := len, s_data := s, s_type := V_ASN1_BIT_STRING\<rparr>;
                    Some (Some ret, if a = None then None else Some (Some ret), drop (nat len) p) } } } }))"

text \<open>The result is the return value and the string.\<close>

definition ASN1_BIT_STRING_set_bit ::
  "(nat \<Rightarrow> u8 list option) \<Rightarrow> asn1_string option \<Rightarrow> int \<Rightarrow> bool \<Rightarrow> (int \<times> asn1_string option) option" where
  "ASN1_BIT_STRING_set_bit malloc a n value =
    (let w = (if n < 0 then - (- n div 8) else n div 8);
         v = (push_bit (nat (7 - (n AND 0x07))) 1 :: u8);
         iv = NOT v;
         v = (if value then v else 0)
     in case a of
       None \<Rightarrow> Some (0, None)
     | Some a \<Rightarrow>
         let a = a\<lparr>s_flags := s_flags a AND NOT (ASN1_STRING_FLAG_BITS_LEFT OR 0x07)\<rparr>;
             grow = (s_length a < w + 1 \<or> s_data a = None)
         in if grow \<and> \<not> value then Some (1, Some a)
         else
           (case (if grow then
                    (case (case s_data a of None \<Rightarrow> OPENSSL_malloc malloc (size_of_int (w + 1))
                           | Some c \<Rightarrow> OPENSSL_realloc malloc (Some c) (size_of_int (w + 1))) of
                       None \<Rightarrow> None
                     | Some c \<Rightarrow>
                         Some (a\<lparr>s_data := Some (if w + 1 - s_length a > 0
                                 then take (nat (s_length a)) c @ replicate (nat (w + 1 - s_length a)) 0 @ drop (nat (w + 1)) c
                                 else c),
                                 s_length := w + 1\<rparr>))
                  else Some a) of
              None \<Rightarrow> Some (0, Some a)
            | Some a \<Rightarrow> do {
                let c = block (s_data a);
                assert (0 \<le> w \<and> nat w < length c \<and> s_length a \<le> int (length c));
                let c = c[nat w := (c ! nat w AND iv) OR v];
                Some (1, Some (a\<lparr>s_data := Some c, s_length := int (trim_zeros c (nat (s_length a)))\<rparr>)) }))"

definition ASN1_BIT_STRING_get_bit :: "asn1_string option \<Rightarrow> int \<Rightarrow> int option" where
  "ASN1_BIT_STRING_get_bit a n =
    (let w = (if n < 0 then - (- n div 8) else n div 8);
         v = (push_bit (nat (7 - (n AND 0x07))) 1 :: u8)
     in case a of
       None \<Rightarrow> Some 0
     | Some a \<Rightarrow>
         if s_length a < w + 1 \<or> s_data a = None then Some 0
         else do {
           assert (0 \<le> w \<and> nat w < length (block (s_data a)));
           Some (if block (s_data a) ! nat w AND v \<noteq> 0 then 1 else 0) })"

text \<open>The loop of \<open>ASN1_BIT_STRING_check\<close>: the bytes of the string, and what is left of the flags.\<close>

fun check_loop :: "u8 list \<Rightarrow> u8 list \<Rightarrow> bool" where
  "check_loop [] fl = True"
| "check_loop (b # bs) [] = (b AND 0xff = 0 \<and> check_loop bs [])"
| "check_loop (b # bs) (f # fl) = (b AND NOT f = 0 \<and> check_loop bs fl)"

definition ASN1_BIT_STRING_check :: "asn1_string option \<Rightarrow> u8 list \<Rightarrow> int \<Rightarrow> bool option" where
  "ASN1_BIT_STRING_check a flags flags_len =
    (case a of
       None \<Rightarrow> Some True
     | Some a \<Rightarrow>
         if s_data a = None then Some True
         else do {
           assert (s_length a \<le> int (length (block (s_data a))) \<and> nat flags_len \<le> length flags);
           Some (check_loop (take (nat (s_length a)) (block (s_data a))) (take (nat flags_len) flags)) })"

section \<open>Comparison\<close>

definition ASN1_STRING_cmp :: "asn1_string \<Rightarrow> asn1_string \<Rightarrow> int option" where
  "ASN1_STRING_cmp a b = do {
     (a_length, a_padding) \<leftarrow> (if s_type a = V_ASN1_BIT_STRING then asn1_bit_string_length a else Some (s_length a, 0));
     (b_length, b_padding) \<leftarrow> (if s_type b = V_ASN1_BIT_STRING then asn1_bit_string_length b else Some (s_length b, 0));
     if a_length < b_length then Some (-1)
     else if a_length > b_length then Some 1
     else if a_padding > b_padding then Some (-1)
     else if a_padding < b_padding then Some 1
     else do {
       let n = size_of_int a_length;
       assert (n \<le> length (block (s_data a)) \<and> n \<le> length (block (s_data b)));
       let ret = OPENSSL_memcmp (block (s_data a)) (block (s_data b)) n;
       Some (if ret \<noteq> 0 then ret
             else if s_type a < s_type b then -1
             else if s_type a > s_type b then 1
             else 0) } }"

end
