(* ===== verification/Asn1_Integer.thy ===== *)
theory Asn1_Integer
  imports Asn1_String
begin

text \<open>
  \<open>crypto/asn1/a_int.c\<close>: INTEGERs and ENUMERATEDs as sign and magnitude in an \<open>ASN1_STRING\<close>, and their DER
  contents in two's complement.  The conversions from and to \<open>BIGNUM\<close> are left out.
\<close>

section \<open>Definitions\<close>

abbreviation (input) V_ASN1_NEG :: int where "V_ASN1_NEG \<equiv> 0x100"
abbreviation (input) V_ASN1_NEG_INTEGER :: int where "V_ASN1_NEG_INTEGER \<equiv> 0x102"
abbreviation (input) V_ASN1_NEG_ENUMERATED :: int where "V_ASN1_NEG_ENUMERATED \<equiv> 0x10a"

definition ASN1_INTEGER_dup :: "(nat \<Rightarrow> u8 list option) \<Rightarrow> asn1_string option \<Rightarrow> asn1_string option option" where
  "ASN1_INTEGER_dup malloc x = ASN1_STRING_dup malloc x"

definition ASN1_INTEGER_cmp :: "asn1_string \<Rightarrow> asn1_string \<Rightarrow> int option" where
  "ASN1_INTEGER_cmp x y =
    (let neg = s_type x AND V_ASN1_NEG
     in if neg \<noteq> s_type y AND V_ASN1_NEG then Some (if neg \<noteq> 0 then -1 else 1)
     else do {
       ret \<leftarrow> ASN1_STRING_cmp x y;
       Some (if neg \<noteq> 0 then if ret < 0 then 1 else if ret > 0 then -1 else 0 else ret) })"

text \<open>The loop runs from the last byte to the first.\<close>

fun negate_loop :: "nat \<Rightarrow> u8 \<Rightarrow> u8 list \<Rightarrow> u8 list" where
  "negate_loop 0 borrow buf = buf"
| "negate_loop (Suc i) borrow buf =
    (let t = buf ! i
     in negate_loop i (borrow OR (if t \<noteq> 0 then 1 else 0)) (buf[i := 0 - borrow - t]))"

definition negate_twos_complement :: "u8 list \<Rightarrow> nat \<Rightarrow> u8 list" where
  "negate_twos_complement buf len = negate_loop len 0 buf"

fun is_all_zeros :: "u8 list \<Rightarrow> nat \<Rightarrow> bool" where
  "is_all_zeros inn 0 = True"
| "is_all_zeros inn (Suc n) = (if hd inn \<noteq> 0 then False else is_all_zeros (tl inn) n)"

text \<open>The loop over leading zeros of \<open>i2c_ASN1_INTEGER\<close>.\<close>

function skip_zeros :: "cbs \<Rightarrow> cbs" where
  "skip_zeros cbs = (if CBS_len cbs > 0 \<and> hd (CBS_data cbs) = 0 then skip_zeros (snd (CBS_skip 1 cbs)) else cbs)"
  by pat_completeness auto
termination
  by (relation "measure cbs_len") (auto simp: CBS_skip_def cbs_get_def op_bind_def)

declare skip_zeros.simps [simp del]

text \<open>The result is the return value and the bytes from \<open>*outp\<close> on, as for \<open>i2c_ASN1_BIT_STRING\<close>.\<close>

definition i2c_ASN1_INTEGER :: "asn1_string option \<Rightarrow> u8 list option \<Rightarrow> (int \<times> u8 list option) option" where
  "i2c_ASN1_INTEGER inn outp =
    (case inn of
       None \<Rightarrow> Some (0, outp)
     | Some inn \<Rightarrow>
         let cbs = skip_zeros (CBS_init (block (s_data inn)) (size_of_int (s_length inn)));
             is_negative = (s_type inn AND V_ASN1_NEG \<noteq> 0);
             (is_negative, pad) =
               (case CBS_get_u8 cbs of
                  (None, _) \<Rightarrow> (False, 1)
                | (Some msb, copy) \<Rightarrow>
                    (is_negative,
                     if is_negative then
                       if msb > 0x80 \<or> (msb = 0x80 \<and> \<not> is_all_zeros (CBS_data copy) (CBS_len copy)) then 1 else 0
                     else if msb AND 0x80 \<noteq> 0 then 1 else 0))
         in if CBS_len cbs > INT_MAX_nat - pad then Some (0, outp)
            else do {
              let len = pad + CBS_len cbs;
              assert (len > 0);
              case outp of
                None \<Rightarrow> Some (int len, None)
              | Some buf \<Rightarrow> do {
                  assert (len \<le> length buf);
                  let buf = (if pad \<noteq> 0 then buf[0 := 0] else buf);
                  let buf = take pad buf @ take (CBS_len cbs) (CBS_data cbs) @ drop len buf;
                  let buf = (if is_negative then negate_twos_complement buf len else buf);
                  assert (if is_negative then hd buf \<ge> 0x80 else hd buf < 0x80);
                  Some (int len, Some buf) } })"

definition c2i_ASN1_INTEGER ::
  "(nat \<Rightarrow> u8 list option) \<Rightarrow> asn1_string option option \<Rightarrow> u8 list \<Rightarrow> int \<Rightarrow>
    (asn1_string option \<times> asn1_string option option \<times> u8 list) option" where
  "c2i_ASN1_INTEGER malloc out inp len =
    (if len < 0 \<or> len > int INT_MAX_nat div 2 then Some (None, out, inp)
     else let cbs = CBS_init inp (size_of_int len)
     in case CBS_is_valid_asn1_integer cbs of
       None \<Rightarrow> Some (None, out, inp)
     | Some is_negative \<Rightarrow>
        (case (case out of Some (Some s) \<Rightarrow> Some s | _ \<Rightarrow> ASN1_INTEGER_new malloc) of
           None \<Rightarrow> Some (None, out, inp)
         | Some ret \<Rightarrow> do {
             let cbs =
               (if is_negative then
                  if CBS_len cbs > 0 \<and> hd (CBS_data cbs) = 0xff \<and> \<not> is_all_zeros (tl (CBS_data cbs)) (CBS_len cbs - 1)
                  then snd (CBS_skip 1 cbs) else cbs
                else if CBS_len cbs > 0 \<and> hd (CBS_data cbs) = 0 then snd (CBS_skip 1 cbs) else cbs);
             (r, ret) \<leftarrow> ASN1_STRING_set malloc ret (Some (CBS_data cbs)) (int (CBS_len cbs));
             if r = 0 then Some (None, case out of Some (Some _) \<Rightarrow> Some (Some ret) | _ \<Rightarrow> out, inp)
             else do {
               let ret = (if is_negative
                 then ret\<lparr>s_type := V_ASN1_NEG_INTEGER,
                        s_data := Some (negate_twos_complement (block (s_data ret)) (nat (s_length ret)))\<rparr>
                 else ret\<lparr>s_type := V_ASN1_INTEGER\<rparr>);
               assert (s_length ret = 0 \<or> hd (block (s_data ret)) \<noteq> 0);
               assert (\<not> is_negative \<or> s_length ret > 0);
               Some (Some ret, if out = None then None else Some (Some ret), drop (nat len) inp) } }))"

definition leading_zeros :: "u8 list \<Rightarrow> nat" where
  "leading_zeros buf = length (takeWhile (\<lambda>b. b = 0) buf)"

definition asn1_string_set_uint64 ::
  "(nat \<Rightarrow> u8 list option) \<Rightarrow> asn1_string \<Rightarrow> u64 \<Rightarrow> int \<Rightarrow> (int \<times> asn1_string) option" where
  "asn1_string_set_uint64 malloc out v ty = do {
     let buf = be_bytes 8 (unat v);
     let z = leading_zeros buf;
     (r, out) \<leftarrow> ASN1_STRING_set malloc out (Some (drop z buf)) (int (8 - z));
     Some (if r = 0 then (0, out) else (1, out\<lparr>s_type := ty\<rparr>)) }"

definition ASN1_INTEGER_set_uint64 ::
  "(nat \<Rightarrow> u8 list option) \<Rightarrow> asn1_string \<Rightarrow> u64 \<Rightarrow> (int \<times> asn1_string) option" where
  "ASN1_INTEGER_set_uint64 malloc out v = asn1_string_set_uint64 malloc out v V_ASN1_INTEGER"

definition ASN1_ENUMERATED_set_uint64 ::
  "(nat \<Rightarrow> u8 list option) \<Rightarrow> asn1_string \<Rightarrow> u64 \<Rightarrow> (int \<times> asn1_string) option" where
  "ASN1_ENUMERATED_set_uint64 malloc out v = asn1_string_set_uint64 malloc out v V_ASN1_ENUMERATED"

definition ASN1_INTEGER_set_int64 ::
  "(nat \<Rightarrow> u8 list option) \<Rightarrow> asn1_string \<Rightarrow> u64 \<Rightarrow> (int \<times> asn1_string) option" where
  "ASN1_INTEGER_set_int64 malloc a v =
    (if sint v \<ge> 0 then ASN1_INTEGER_set_uint64 malloc a v
     else do {
       (r, a) \<leftarrow> ASN1_INTEGER_set_uint64 malloc a (0 - v);
       Some (if r = 0 then (0, a) else (1, a\<lparr>s_type := V_ASN1_NEG_INTEGER\<rparr>)) })"

definition ASN1_ENUMERATED_set_int64 ::
  "(nat \<Rightarrow> u8 list option) \<Rightarrow> asn1_string \<Rightarrow> u64 \<Rightarrow> (int \<times> asn1_string) option" where
  "ASN1_ENUMERATED_set_int64 malloc a v =
    (if sint v \<ge> 0 then ASN1_ENUMERATED_set_uint64 malloc a v
     else do {
       (r, a) \<leftarrow> ASN1_ENUMERATED_set_uint64 malloc a (0 - v);
       Some (if r = 0 then (0, a) else (1, a\<lparr>s_type := V_ASN1_NEG_ENUMERATED\<rparr>)) })"

definition ASN1_INTEGER_set :: "(nat \<Rightarrow> u8 list option) \<Rightarrow> asn1_string \<Rightarrow> u64 \<Rightarrow> (int \<times> asn1_string) option" where
  "ASN1_INTEGER_set malloc a v = ASN1_INTEGER_set_int64 malloc a v"

definition ASN1_ENUMERATED_set :: "(nat \<Rightarrow> u8 list option) \<Rightarrow> asn1_string \<Rightarrow> u64 \<Rightarrow> (int \<times> asn1_string) option" where
  "ASN1_ENUMERATED_set malloc a v = ASN1_ENUMERATED_set_int64 malloc a v"

text \<open>A getter yields \<open>*out\<close>, or \<open>None\<close> inside when it returns 0.\<close>

definition asn1_string_get_abs_uint64 :: "asn1_string \<Rightarrow> int \<Rightarrow> u64 option option" where
  "asn1_string_get_abs_uint64 a ty =
    (if s_type a AND NOT V_ASN1_NEG \<noteq> ty then Some None
     else if s_length a > 8 then Some None
     else do {
       assert (0 \<le> s_length a \<and> nat (s_length a) \<le> length (block (s_data a)));
       let buf = replicate (8 - nat (s_length a)) 0 @ take (nat (s_length a)) (block (s_data a));
       Some (Some (word_of_nat (be_val buf))) })"

definition asn1_string_get_uint64 :: "asn1_string \<Rightarrow> int \<Rightarrow> u64 option option" where
  "asn1_string_get_uint64 a ty = do {
     r \<leftarrow> asn1_string_get_abs_uint64 a ty;
     Some (case r of None \<Rightarrow> None | Some v \<Rightarrow> if s_type a AND V_ASN1_NEG \<noteq> 0 then None else Some v) }"

definition ASN1_INTEGER_get_uint64 :: "asn1_string \<Rightarrow> u64 option option" where
  "ASN1_INTEGER_get_uint64 a = asn1_string_get_uint64 a V_ASN1_INTEGER"

definition ASN1_ENUMERATED_get_uint64 :: "asn1_string \<Rightarrow> u64 option option" where
  "ASN1_ENUMERATED_get_uint64 a = asn1_string_get_uint64 a V_ASN1_ENUMERATED"

definition asn1_string_get_int64 :: "asn1_string \<Rightarrow> int \<Rightarrow> u64 option option" where
  "asn1_string_get_int64 a ty = do {
     r \<leftarrow> asn1_string_get_abs_uint64 a ty;
     Some (case r of
       None \<Rightarrow> None
     | Some v \<Rightarrow>
         let (i64, fits_in_i64) =
           (if s_type a AND V_ASN1_NEG \<noteq> 0 \<and> v \<noteq> 0 then (0 - v, sint (0 - v) < 0) else (v, sint v \<ge> 0))
         in if \<not> fits_in_i64 then None else Some i64) }"

definition ASN1_INTEGER_get_int64 :: "asn1_string \<Rightarrow> u64 option option" where
  "ASN1_INTEGER_get_int64 a = asn1_string_get_int64 a V_ASN1_INTEGER"

definition ASN1_ENUMERATED_get_int64 :: "asn1_string \<Rightarrow> u64 option option" where
  "ASN1_ENUMERATED_get_int64 a = asn1_string_get_int64 a V_ASN1_ENUMERATED"

definition asn1_string_get_long :: "asn1_string option \<Rightarrow> int \<Rightarrow> u64 option" where
  "asn1_string_get_long a ty =
    (case a of
       None \<Rightarrow> Some 0
     | Some a \<Rightarrow> do {
         r \<leftarrow> asn1_string_get_int64 a ty;
         Some (case r of None \<Rightarrow> -1 | Some v \<Rightarrow> v) })"

definition ASN1_INTEGER_get :: "asn1_string option \<Rightarrow> u64 option" where
  "ASN1_INTEGER_get a = asn1_string_get_long a V_ASN1_INTEGER"

definition ASN1_ENUMERATED_get :: "asn1_string option \<Rightarrow> u64 option" where
  "ASN1_ENUMERATED_get a = asn1_string_get_long a V_ASN1_ENUMERATED"

end
