(* ===== verification/Twos_Complement.thy ===== *)
theory Twos_Complement
  imports Asn1_Values
begin

text \<open>
  Two's complement on lists of bytes, most significant byte first: the range of the values of a given length, the
  lists that are shortest for their value (\<open>minimal_int\<close>, the DER rule), and that a value has one shortest list.
\<close>

section \<open>Two's complement\<close>

text \<open>The integer that a string of bytes stands for.\<close>

definition tc_val :: "u8 list \<Rightarrow> int" where
  "tc_val bs = int (be_val bs) - (if bs \<noteq> [] \<and> 128 \<le> unat (hd bs) then 256 ^ length bs else 0)"

lemma pow_split: "0 < n \<Longrightarrow> (256 :: int) ^ n = 256 * 256 ^ (n - 1)"
  by (cases n) simp_all

lemma hd_value:
  assumes "bs \<noteq> []"
  shows "int (unat (hd bs)) * 256 ^ (length bs - 1) \<le> int (be_val bs)"
    "int (be_val bs) < (int (unat (hd bs)) + 1) * 256 ^ (length bs - 1)"
proof -
  obtain b cs where b: "bs = b # cs" using assms by (cases bs) auto
  have "be_val cs < 256 ^ length cs" by (rule be_val_bound)
  then have "int (be_val cs) < 256 ^ length cs" using of_nat_less_iff [where 'a = int, of "be_val cs" "256 ^ length cs"] by simp
  then show "int (unat (hd bs)) * 256 ^ (length bs - 1) \<le> int (be_val bs)"
    "int (be_val bs) < (int (unat (hd bs)) + 1) * 256 ^ (length bs - 1)"
    by (simp_all add: b be_val_Cons algebra_simps)
qed

lemma hd_ge:
  assumes "bs \<noteq> []" "k \<le> 256"
  shows "int k * 256 ^ (length bs - 1) \<le> int (be_val bs) \<longleftrightarrow> k \<le> unat (hd bs)"
proof
  assume "k \<le> unat (hd bs)"
  then have "int k \<le> int (unat (hd bs))" by (rule of_nat_mono)
  then have "int k * 256 ^ (length bs - 1) \<le> int (unat (hd bs)) * 256 ^ (length bs - 1)" by (rule mult_right_mono) simp
  then show "int k * 256 ^ (length bs - 1) \<le> int (be_val bs)" using hd_value(1) [OF assms(1)] by linarith
next
  assume "int k * 256 ^ (length bs - 1) \<le> int (be_val bs)"
  then have "int k * 256 ^ (length bs - 1) < (int (unat (hd bs)) + 1) * 256 ^ (length bs - 1)" using hd_value(2) [OF assms(1)] by linarith
  then have "int k < int (unat (hd bs)) + 1" by (rule mult_less_cancel_right_pos [THEN iffD1, rotated]) simp
  then have "int k \<le> int (unat (hd bs))" by linarith
  then show "k \<le> unat (hd bs)" by (rule of_nat_le_iff [THEN iffD1])
qed

lemma be_val_int_bound: "int (be_val bs) < 256 ^ length bs"
  using of_nat_less_iff [where 'a = int, of "be_val bs" "256 ^ length bs"] be_val_bound [of bs] by simp

lemma tc_val_range:
  assumes "bs \<noteq> []"
  shows "- (128 * 256 ^ (length bs - 1)) \<le> tc_val bs" "tc_val bs < 128 * 256 ^ (length bs - 1)"
    "tc_val bs < 0 \<longleftrightarrow> 128 \<le> unat (hd bs)"
proof -
  have p: "(256 :: int) ^ length bs = 256 * 256 ^ (length bs - 1)" using assms by (intro pow_split) simp
  have h: "128 * 256 ^ (length bs - 1) \<le> int (be_val bs) \<longleftrightarrow> 128 \<le> unat (hd bs)" using hd_ge [OF assms, of 128] by simp
  note b = be_val_int_bound [of bs]
  show "- (128 * 256 ^ (length bs - 1)) \<le> tc_val bs" "tc_val bs < 128 * 256 ^ (length bs - 1)" "tc_val bs < 0 \<longleftrightarrow> 128 \<le> unat (hd bs)"
    using h b p assms zero_le_power [of "256 :: int" "length bs - 1"] unfolding tc_val_def by auto
qed

lemma minimal_by_value:
  assumes "2 \<le> length bs"
  shows "minimal_int bs \<longleftrightarrow> tc_val bs < - (128 * 256 ^ (length bs - 2)) \<or> 128 * 256 ^ (length bs - 2) \<le> tc_val bs"
proof -
  obtain a b cs where bs: "bs = a # b # cs" using assms by (cases bs rule: minimal_int.cases) auto
  let ?n = "length cs" and ?v = "int (be_val (b # cs))"
  have ne: "b # cs \<noteq> []" by simp
  have h: "128 * 256 ^ ?n \<le> ?v \<longleftrightarrow> 128 \<le> unat b" using hd_ge [OF ne, of 128] by simp
  have v: "0 \<le> ?v" "?v < 256 * 256 ^ ?n" using be_val_int_bound [of "b # cs"] by simp_all
  have t: "tc_val bs = int (unat a) * (256 * 256 ^ ?n) + ?v - (if 128 \<le> unat a then 256 * (256 * 256 ^ ?n) else 0)"
    by (simp add: tc_val_def bs be_val_Cons)
  have a: "unat a < 256" by simp
  have pos: "(0 :: int) < 256 ^ ?n" by simp
  consider "unat a = 0" | "1 \<le> unat a" "unat a < 128" | "128 \<le> unat a" "unat a < 255" | "unat a = 255" using a by linarith
  then show ?thesis
  proof cases
    case 1
    then have "a = 0" by (simp add: unat_eq_0)
    then show ?thesis using t h v 1 by (auto simp: bs)
  next
    case 2
    have "int 1 \<le> int (unat a)" using 2(1) by (rule of_nat_mono)
    then have "int 1 * (256 * 256 ^ ?n) \<le> int (unat a) * (256 * 256 ^ ?n)" by (rule mult_right_mono) simp
    moreover have "tc_val bs = int (unat a) * (256 * 256 ^ ?n) + ?v" using t 2(2) by simp
    ultimately have "128 * 256 ^ ?n \<le> tc_val bs" using v(1) pos by linarith
    moreover have "a \<noteq> 0" "a \<noteq> 0xff" using 2 by auto
    ultimately show ?thesis by (simp add: bs)
  next
    case 3
    have "unat a \<le> 254" using 3(2) by simp
    then have "int (unat a) \<le> int 254" by (rule of_nat_mono)
    then have "int (unat a) * (256 * 256 ^ ?n) \<le> int 254 * (256 * 256 ^ ?n)" by (rule mult_right_mono) simp
    moreover have "int 128 \<le> int (unat a)" using 3(1) by (rule of_nat_mono)
    then have "int 128 * (256 * 256 ^ ?n) \<le> int (unat a) * (256 * 256 ^ ?n)" by (rule mult_right_mono) simp
    moreover have "tc_val bs = int (unat a) * (256 * 256 ^ ?n) + ?v - 256 * (256 * 256 ^ ?n)" using t 3(1) by simp
    ultimately have "tc_val bs < - (128 * 256 ^ ?n)" using v(2) pos by linarith
    moreover have "a \<noteq> 0" "a \<noteq> 0xff" using 3 by auto
    ultimately show ?thesis by (simp add: bs)
  next
    case 4
    then have "a = 0xff" by (simp add: word_unat_eq_iff)
    then show ?thesis using t h v 4 by (auto simp: bs)
  qed
qed

lemma tc_val_same_length:
  assumes "length bs = length cs" "tc_val bs = tc_val cs"
  shows "bs = cs"
proof (cases "bs = []")
  case False
  then have ne: "bs \<noteq> []" "cs \<noteq> []" using assms(1) by auto
  have "128 \<le> unat (hd bs) \<longleftrightarrow> 128 \<le> unat (hd cs)" using tc_val_range(3) [OF ne(1)] tc_val_range(3) [OF ne(2)] assms(2) by simp
  then have "be_val bs = be_val cs" using assms ne unfolding tc_val_def by (cases "128 \<le> unat (hd cs)") simp_all
  then show ?thesis using be_bytes_be_val [of bs] be_bytes_be_val [of cs] assms(1) by metis
qed (use assms(1) in simp)

lemma minimal_unique:
  assumes "minimal_int bs" "minimal_int cs" "tc_val bs = tc_val cs"
  shows "bs = cs"
proof (rule tc_val_same_length [OF _ assms(3)])
  have w: "length bs \<ge> length cs" if "minimal_int bs" "minimal_int cs" "tc_val bs = tc_val cs" for bs cs
  proof (rule ccontr)
    assume "\<not> length cs \<le> length bs"
    then have l: "2 \<le> length cs" "length bs - 1 \<le> length cs - 2" and ne: "bs \<noteq> []" using that(1) by (cases bs; simp)+
    have "(256 :: int) ^ (length bs - 1) \<le> 256 ^ (length cs - 2)" using l(2) by (intro power_increasing) simp_all
    then show False using tc_val_range(1,2) [OF ne] minimal_by_value [OF l(1)] that(2,3) by linarith
  qed
  show "length bs = length cs" using w [OF assms] w [OF assms(2,1)] assms(3) by simp
qed

end
