(* ===== verification/Asn1_Integer_Spec.thy ===== *)
theory Asn1_Integer_Spec
  imports Asn1_Integer Twos_Complement
begin

text \<open>
  What the conversions of \<open>a_int.c\<close> compute: a string stands for an integer by its sign and magnitude (\<open>int_val\<close>),
  \<open>i2c_ASN1_INTEGER\<close> writes \<open>tc_bytes\<close>, the shortest two's complement form, and \<open>c2i_ASN1_INTEGER\<close> stores the
  \<open>magnitude\<close> of the bytes that it reads.
\<close>

section \<open>Negation\<close>

lemma negate_loop_eq:
  assumes "b = 0 \<or> b = 1"
  shows "negate_loop (length xs) b (xs @ ys) =
    be_bytes (length xs) (nat ((- int (be_val xs) - int (unat b)) mod 256 ^ length xs)) @ ys"
  using assms
proof (induction xs arbitrary: b ys rule: rev_induct)
  case Nil
  then show ?case by simp
next
  case (snoc t xs)
  define c :: u8 where "c = b OR (if t \<noteq> 0 then 1 else 0)"
  have c: "c = 0 \<or> c = 1" using snoc.prems by (auto simp: c_def)
  have ct: "int (unat c) * 256 - int (unat t) - int (unat b) = int (unat (0 - b - t))"
  proof -
    have m: "x mod 256 = (if x = 0 then 0 else x + 256)" if "-256 \<le> x" "x \<le> 0" for x :: int
      using that by (simp add: mod_pos_neg_trivial) presburger
    have t: "0 \<le> uint t" "uint t < 256" "t = 0 \<longleftrightarrow> uint t = 0" using uint_lt2p [of t] by (simp_all add: uint_0_iff)
    have e: "int (unat (0 - b - t)) = (- uint b - uint t) mod 256" by (simp add: uint_word_ariths mod_simps)
    show ?thesis
    proof (cases "b = 0")
      case True
      then show ?thesis unfolding e using t m [of "- uint t"] by (auto simp: c_def)
    next
      case False
      then have b: "b = 1" "c = 1" using snoc.prems by (auto simp: c_def)
      have r: "-256 \<le> - 1 - uint t" "- 1 - uint t \<le> 0" "- 1 - uint t \<noteq> 0" using t(1,2) by linarith+
      then have "(- 1 - uint t) mod 256 = 255 - uint t" unfolding m [OF r(1,2)] by simp
      then show ?thesis unfolding e by (simp add: b)
    qed
  qed
  let ?n = "length xs" and ?X = "int (be_val xs)"
  define L where "L = int (unat (0 - b - t))"
  define R where "R = (- ?X - int (unat c)) mod 256 ^ ?n"
  have L: "0 \<le> L" "L < 256" unfolding L_def using u8_lt [of "0 - b - t"] by linarith+
  have R: "0 \<le> R" by (simp add: R_def)
  have a: "- int (be_val (xs @ [t])) - int (unat b) = (- ?X - int (unat c)) * 256 + L"
    unfolding L_def using ct by (simp only: be_val_snoc of_nat_add of_nat_mult) (simp add: algebra_simps)
  have m: "((- ?X - int (unat c)) * 256 + L) mod (256 * 256 ^ ?n) = R * 256 + L"
  proof -
    have e: "(A * 256 + L) mod (256 * M) = (A mod M) * 256 + L" if "0 \<le> M" for A M
      using L that by (simp add: zmod_zmult2_eq)
    show ?thesis unfolding R_def by (rule e) simp
  qed
  have v: "(- int (be_val (xs @ [t])) - int (unat b)) mod 256 ^ length (xs @ [t]) = R * 256 + L"
    unfolding a length_append_singleton power_Suc by (rule m)
  define V where "V = nat (R * 256 + L)"
  have V: "V = nat R * 256 + nat L" using R L by (simp add: V_def nat_add_distrib nat_mult_distrib)
  have "nat L < 256" using L by simp
  then have "V div 256 = nat R" "V mod 256 = nat L" by (simp_all add: V)
  moreover have "nat L = unat (0 - b - t)" by (simp only: L_def nat_int)
  ultimately have be: "be_bytes (Suc ?n) V = be_bytes ?n (nat R) @ [0 - b - t]"
    by (simp add: word_unat_eq_iff unat_u8_of_nat del: of_nat_unat)
  have "negate_loop (length (xs @ [t])) b ((xs @ [t]) @ ys) = negate_loop ?n c (xs @ (0 - b - t) # ys)"
    by (simp add: c_def Let_def nth_append list_update_append)
  also have "\<dots> = be_bytes ?n (nat R) @ (0 - b - t) # ys" unfolding snoc.IH [OF c] R_def ..
  finally have e: "negate_loop (length (xs @ [t])) b ((xs @ [t]) @ ys) = be_bytes ?n (nat R) @ (0 - b - t) # ys" .
  show ?case unfolding e v V_def [symmetric] unfolding length_append_singleton be by (simp only: append_assoc append.simps)
qed

text \<open>The negated bytes stand for the negated value, modulo the length.\<close>

lemma negate_eq:
  assumes "n \<le> length buf"
  shows "\<exists>bs. negate_twos_complement buf n = bs @ drop n buf \<and> length bs = n \<and>
    int (be_val bs) = (- int (be_val (take n buf))) mod 256 ^ n"
proof -
  let ?v = "(- int (be_val (take n buf))) mod 256 ^ n"
  have l: "length (take n buf) = n" using assms by simp
  have v: "0 \<le> ?v" "?v < 256 ^ n" by simp_all
  have "negate_loop (length (take n buf)) 0 (take n buf @ drop n buf) = be_bytes n (nat ?v) @ drop n buf"
    using negate_loop_eq [of 0 "take n buf" "drop n buf"] unfolding l by simp
  then have "negate_twos_complement buf n = be_bytes n (nat ?v) @ drop n buf" unfolding l by (simp add: negate_twos_complement_def)
  moreover have "nat ?v < 256 ^ n" using v by (simp add: nat_less_iff)
  then have "int (be_val (be_bytes n (nat ?v))) = ?v" using v(1) by (simp only: be_val_be_bytes mod_less int_nat_eq if_True)
  ultimately show ?thesis by (intro exI [of _ "be_bytes n (nat ?v)"]) simp
qed

section \<open>Strings as integers\<close>

definition str_ok :: "asn1_string \<Rightarrow> bool" where
  "str_ok a \<longleftrightarrow> 0 \<le> s_length a \<and> s_length a \<le> int INT_MAX_nat \<and> s_length a \<le> int (length (block (s_data a)))"

definition content :: "asn1_string \<Rightarrow> u8 list" where
  "content a = take (nat (s_length a)) (block (s_data a))"

text \<open>Sign and magnitude.\<close>

definition int_val :: "asn1_string \<Rightarrow> int" where
  "int_val a = (if s_type a AND V_ASN1_NEG \<noteq> 0 then - int (be_val (content a)) else int (be_val (content a)))"

lemma length_content: "str_ok a \<Longrightarrow> int (length (content a)) = s_length a"
  by (auto simp: str_ok_def content_def min_def)

lemma content_cbs:
  assumes "str_ok a"
  shows "size_of_int (s_length a) = length (content a)" "cbs_ok (CBS_init (block (s_data a)) (length (content a)))"
    "cbs_bytes (CBS_init (block (s_data a)) (length (content a))) = content a"
  using assms length_content [OF assms] by (auto simp: str_ok_def content_def size_of_int_small)

lemma skip_zeros_eq:
  "cbs_ok s \<Longrightarrow> cbs_ok (skip_zeros s) \<and> cbs_bytes (skip_zeros s) = dropWhile (\<lambda>b. b = 0) (cbs_bytes s)"
proof (induction s rule: skip_zeros.induct)
  case (1 s)
  have len: "length (cbs_bytes s) = cbs_len s" using 1(2) by simp
  show ?case
  proof (cases "cbs_bytes s")
    case Nil
    then show ?thesis using 1(2) len by (simp add: skip_zeros.simps [of s])
  next
    case (Cons b bs)
    then have pos: "1 \<le> cbs_len s" "hd (CBS_data s) = b"
      using len by (cases "cbs_data s"; auto simp: CBS_data_def cbs_bytes_def take_Cons split: nat.splits)+
    show ?thesis
    proof (cases "b = 0")
      case True
      then have e: "skip_zeros s = skip_zeros (cbs_adv 1 s)"
        using pos by (subst skip_zeros.simps) (simp add: CBS_skip_eq)
      have "cbs_ok (cbs_adv 1 s)" using 1(2) pos(1) by (rule cbs_ok_adv)
      then show ?thesis using 1(1) pos True Cons unfolding e by (simp add: CBS_skip_eq)
    next
      case False
      then show ?thesis using pos Cons 1(2) by (simp add: skip_zeros.simps [of s])
    qed
  qed
qed

lemma is_all_zeros_eq: "n \<le> length d \<Longrightarrow> is_all_zeros d n \<longleftrightarrow> be_val (take n d) = 0"
proof (induction d n rule: is_all_zeros.induct)
  case (2 d n)
  then obtain b bs where "d = b # bs" by (cases d) auto
  with 2 show ?case by (auto simp: be_val_Cons unat_eq_0)
qed simp

section \<open>The shortest two's complement form\<close>

text \<open>The bytes that \<open>i2c_ASN1_INTEGER\<close> writes for the magnitude \<open>c\<close>, without leading zeros, and the sign.\<close>

definition needs_pad :: "bool \<Rightarrow> u8 list \<Rightarrow> bool" where
  "needs_pad neg c \<longleftrightarrow>
    c = [] \<or> (if neg then 128 * 256 ^ (length c - 1) < be_val c else 128 \<le> unat (hd c))"

definition tc_bytes :: "bool \<Rightarrow> u8 list \<Rightarrow> u8 list" where
  "tc_bytes neg c =
    (let buf = (if needs_pad neg c then 0 # c else c)
     in if neg \<and> c \<noteq> [] then be_bytes (length buf) (nat ((- int (be_val c)) mod 256 ^ length buf)) else buf)"

lemma tc_val_negative:
  assumes "0 < n" "0 < V" "V \<le> 128 * 256 ^ (n - 1)"
  shows "tc_val (be_bytes n (nat ((- V) mod 256 ^ n))) = - V"
proof -
  let ?bs = "be_bytes n (nat ((- V) mod 256 ^ n))"
  have p: "(256 :: int) ^ n = 256 * 256 ^ (n - 1)" using assms(1) by (rule pow_split)
  have pos: "(0 :: int) < 256 ^ (n - 1)" by simp
  have "(- V) mod 256 ^ n = (- V + 256 ^ n) mod 256 ^ n" by simp
  also have "\<dots> = - V + 256 ^ n" using assms(2,3) pos unfolding p by (intro mod_pos_pos_trivial) linarith+
  finally have m: "(- V) mod 256 ^ n = 256 ^ n - V" by simp
  have "nat ((- V) mod 256 ^ n) < 256 ^ n" by (simp add: nat_less_iff)
  then have "int (be_val ?bs) = (- V) mod 256 ^ n" by (simp add: be_val_be_bytes)
  then have v: "int (be_val ?bs) = 256 ^ n - V" unfolding m .
  have ne: "?bs \<noteq> []" using assms(1) by (metis length_be_bytes length_greater_0_conv)
  have "128 * 256 ^ (n - 1) \<le> int (be_val ?bs)" using assms(3) p unfolding v by linarith
  then have "128 \<le> unat (hd ?bs)" using hd_ge [OF ne, of 128] by simp
  then show ?thesis using ne v by (simp add: tc_val_def)
qed

lemma tc_bytes_exact:
  assumes "c = [] \<or> hd c \<noteq> 0"
  shows "minimal_int (tc_bytes neg c)" "tc_val (tc_bytes neg c) = (if neg then - int (be_val c) else int (be_val c))"
proof -
  have "minimal_int (tc_bytes neg c) \<and> tc_val (tc_bytes neg c) = (if neg then - int (be_val c) else int (be_val c))"
  proof (cases c)
    case Nil
    then show ?thesis by (simp add: tc_bytes_def needs_pad_def tc_val_def)
  next
    case (Cons h r)
    then have ne: "c \<noteq> []" and h: "h \<noteq> 0" using assms by auto
    let ?V = "int (be_val c)" and ?k = "length r"
    have k: "length c - 1 = ?k" by (simp add: Cons)
    have "1 \<le> unat h" using h by (simp add: Suc_le_eq unat_gt_0)
    then have lo: "256 ^ ?k \<le> ?V" using hd_ge [OF ne, of 1] unfolding k by (simp add: Cons)
    have hi: "?V < 256 * 256 ^ ?k" using be_val_int_bound [of c] by (simp add: Cons)
    have pos: "(0 :: int) < 256 ^ ?k" by simp
    show ?thesis
    proof (cases neg)
      case False
      show ?thesis
      proof (cases "128 \<le> unat h")
        case True
        then have "tc_bytes neg c = 0 # c" using False by (simp add: tc_bytes_def needs_pad_def Cons)
        then show ?thesis using False True by (simp add: tc_val_def be_val_Cons Cons)
      next
        case small: False
        then have e: "tc_bytes neg c = c" using False by (simp add: tc_bytes_def needs_pad_def Cons)
        have "h \<noteq> 0xff" using small by auto
        then have "minimal_int c" using h by (cases r) (auto simp: Cons)
        then show ?thesis using small False unfolding e by (simp add: tc_val_def Cons)
      qed
    next
      case True
      define n where "n = (if needs_pad neg c then ?k + 2 else ?k + 1)"
      have e: "tc_bytes neg c = be_bytes n (nat ((- ?V) mod 256 ^ n))"
        using True ne by (simp add: tc_bytes_def n_def Cons Let_def del: be_bytes.simps power_Suc)
      have pad: "needs_pad neg c \<longleftrightarrow> 128 * 256 ^ ?k < ?V"
        using True ne of_nat_less_iff [where 'a = int, of "128 * 256 ^ ?k" "be_val c"] unfolding needs_pad_def k by simp
      have b: "?V \<le> 128 * 256 ^ (n - 1)"
      proof (cases "needs_pad neg c")
        case True
        then show ?thesis using hi pos by (simp add: n_def)
      next
        case False
        then show ?thesis using pad by (simp add: n_def)
      qed
      have n: "0 < n" by (simp add: n_def)
      have V: "0 < ?V" using lo pos by linarith
      have v: "tc_val (tc_bytes neg c) = - ?V" unfolding e by (rule tc_val_negative [OF n V b])
      have m: "minimal_int (tc_bytes neg c)"
      proof (cases "n = 1")
        case True
        then show ?thesis unfolding e by simp
      next
        case False
        then have l: "2 \<le> length (tc_bytes neg c)" using n unfolding e by simp
        have "128 * 256 ^ (n - 2) < ?V"
        proof (cases "needs_pad neg c")
          case True
          then show ?thesis using pad by (simp add: n_def)
        next
          case padless: False
          then have "0 < ?k" "n - 2 = ?k - 1" using False by (auto simp: n_def)
          then have "(256 :: int) ^ ?k = 256 * 256 ^ (n - 2)" using pow_split [of ?k] by simp
          moreover have "(0 :: int) < 256 ^ (n - 2)" by simp
          ultimately show ?thesis using lo by linarith
        qed
        then show ?thesis using minimal_by_value [OF l] v unfolding e by simp
      qed
      show ?thesis using v m True by simp
    qed
  qed
  then show "minimal_int (tc_bytes neg c)" "tc_val (tc_bytes neg c) = (if neg then - int (be_val c) else int (be_val c))"
    by blast+
qed

section \<open>Writing\<close>

lemma needs_pad_code:
  assumes "cbs_ok s" "cbs_bytes s = c"
  shows "(case CBS_get_u8 s of
      (None, _) \<Rightarrow> (False, 1)
    | (Some msb, copy) \<Rightarrow>
        (neg, if neg then
                if msb > 0x80 \<or> (msb = 0x80 \<and> \<not> is_all_zeros (CBS_data copy) (CBS_len copy)) then 1 else 0
              else if msb AND 0x80 \<noteq> 0 then 1 else 0))
    = (neg \<and> c \<noteq> [], if needs_pad neg c then 1 else (0 :: nat))"
proof (cases c)
  case Nil
  then show ?thesis using assms by (simp add: CBS_get_u8_eq needs_pad_def)
next
  case (Cons h r)
  let ?t = "cbs_adv 1 s"
  have g: "CBS_get_u8 s = (Some h, ?t)" using assms Cons by (simp add: CBS_get_u8_eq)
  have ok: "cbs_ok ?t" using assms Cons by (intro cbs_ok_adv) (auto dest: arg_cong [of _ _ length])
  then have "is_all_zeros (CBS_data ?t) (CBS_len ?t) \<longleftrightarrow> be_val (cbs_bytes ?t) = 0"
    by (simp add: is_all_zeros_eq cbs_ok_def CBS_data_def cbs_bytes_def)
  then have z: "is_all_zeros (CBS_data ?t) (CBS_len ?t) \<longleftrightarrow> be_val r = 0" using assms Cons by simp
  have "128 * 256 ^ length r < be_val c \<longleftrightarrow> 128 < unat h \<or> (unat h = 128 \<and> be_val r \<noteq> 0)"
  proof -
    have r: "be_val r < 256 ^ length r" by (rule be_val_bound)
    consider "unat h < 128" | "unat h = 128" | "129 \<le> unat h" by linarith
    then show ?thesis
    proof cases
      case 1
      then have "unat h + 1 \<le> 128" by simp
      then have "(unat h + 1) * 256 ^ length r \<le> 128 * 256 ^ length r" by (rule mult_right_mono) simp
      then have "unat h * 256 ^ length r + 256 ^ length r \<le> 128 * 256 ^ length r" by (simp only: distrib_right mult_1)
      then have "\<not> 128 * 256 ^ length r < unat h * 256 ^ length r + be_val r" using r by linarith
      then show ?thesis using 1 by (simp add: Cons be_val_Cons)
    next
      case 2
      then show ?thesis by (simp add: Cons be_val_Cons)
    next
      case 3
      then have "129 * 256 ^ length r \<le> unat h * 256 ^ length r" by (rule mult_right_mono) simp
      moreover have "(0 :: nat) < 256 ^ length r" by simp
      ultimately have "128 * 256 ^ length r < unat h * 256 ^ length r + be_val r" by linarith
      then show ?thesis using 3 by (simp add: Cons be_val_Cons)
    qed
  qed
  moreover have "h > 0x80 \<longleftrightarrow> 128 < unat h" "h = 0x80 \<longleftrightarrow> unat h = 128"
    by (simp_all add: word_less_nat_alt word_unat_eq_iff)
  ultimately show ?thesis unfolding g prod.case option.case z by (simp add: needs_pad_def Cons u8_msb u8_msb_0 not_less)
qed

lemma i2c_ASN1_INTEGER_eq:
  assumes ok: "str_ok a" and len: "s_length a < int INT_MAX_nat"
  defines "c \<equiv> dropWhile (\<lambda>b. b = 0) (content a)"
  defines "bs \<equiv> tc_bytes (s_type a AND V_ASN1_NEG \<noteq> 0) c"
  shows "i2c_ASN1_INTEGER (Some a) outp =
    (case outp of
       None \<Rightarrow> Some (int (length bs), None)
     | Some p \<Rightarrow> if length bs \<le> length p then Some (int (length bs), Some (bs @ drop (length bs) p)) else None)"
proof -
  let ?neg = "s_type a AND V_ASN1_NEG \<noteq> 0"
  define s where "s = skip_zeros (CBS_init (block (s_data a)) (size_of_int (s_length a)))"
  have s: "cbs_ok s" "cbs_bytes s = c" using skip_zeros_eq [of "CBS_init (block (s_data a)) (length (content a))"] content_cbs [OF ok]
    by (simp_all add: s_def c_def)
  define pad :: nat where "pad = (if needs_pad ?neg c then 1 else 0)"
  have n: "cbs_len s = length c" using s length_cbs_bytes by metis
  have bs: "length bs = pad + length c" by (simp add: bs_def tc_bytes_def pad_def Let_def del: be_bytes.simps)
  have pos: "0 < length bs" unfolding bs pad_def by (auto simp: needs_pad_def)
  have c: "length c \<le> length (content a)" unfolding c_def by (rule length_dropWhile_le)
  then have fits: "\<not> cbs_len s > INT_MAX_nat - pad" using length_content [OF ok] len n by (simp add: pad_def)
  have z: "c = [] \<or> hd c \<noteq> 0" unfolding c_def using hd_dropWhile by blast
  have sign: "if ?neg \<and> c \<noteq> [] then hd bs \<ge> 0x80 else hd bs < 0x80"
  proof -
    have "0 < be_val c" if ne: "c \<noteq> []"
    proof -
      have "1 \<le> unat (hd c)" using z ne by (simp add: Suc_le_eq unat_gt_0)
      then have "256 ^ (length c - 1) \<le> int (be_val c)" using hd_ge [OF ne, of 1] by simp
      moreover have "(0 :: int) < 256 ^ (length c - 1)" by simp
      ultimately have "0 < int (be_val c)" by linarith
      then show ?thesis by simp
    qed
    then have "(if ?neg then - int (be_val c) else int (be_val c)) < 0 \<longleftrightarrow> ?neg \<and> c \<noteq> []" by (cases "c = []") auto
    moreover have "bs \<noteq> []" using pos by auto
    moreover have "tc_val bs = (if ?neg then - int (be_val c) else int (be_val c))"
      unfolding bs_def by (rule tc_bytes_exact(2) [OF z])
    ultimately have "128 \<le> unat (hd bs) \<longleftrightarrow> ?neg \<and> c \<noteq> []" using tc_val_range(3) [of bs] by simp
    then show ?thesis by (cases "?neg \<and> c \<noteq> []") (auto simp: word_le_nat_alt word_less_nat_alt)
  qed
  have d: "take (length c) (CBS_data s) = c" using s(2) n by (simp add: CBS_data_def cbs_bytes_def)
  show ?thesis
  proof (cases outp)
    case None
    show ?thesis
      using fits pos unfolding i2c_ASN1_INTEGER_def option.case Let_def s_def [symmetric] needs_pad_code [OF s] prod.case
      unfolding pad_def [symmetric] None CBS_len_eq n bs [symmetric]
      by (simp add: assert_def)
  next
    case (Some p)
    define P where "P = (if pad \<noteq> 0 then p[0 := 0] else p)"
    define N where "N \<longleftrightarrow> ?neg \<and> c \<noteq> []"
    have p: "p \<noteq> []" if "length bs \<le> length p" using that pos by auto
    
    have "take pad (if pad \<noteq> 0 then p[0 := 0] else p) @ c = (if needs_pad ?neg c then 0 # c else c)" if "length bs \<le> length p"
      using p [OF that] by (cases p) (auto simp: pad_def)
    moreover have "(if ?neg \<and> c \<noteq> [] then negate_twos_complement (buf @ r) (length bs) else buf @ r) = bs @ r"
      if "buf = (if needs_pad ?neg c then 0 # c else c)" for buf r
    proof -
      have l: "length bs = length buf" unfolding that bs pad_def by simp
      have v: "be_val buf = be_val c" unfolding that by (simp add: be_val_Cons)
      have "negate_twos_complement (buf @ r) (length buf) = be_bytes (length buf) (nat ((- int (be_val c)) mod 256 ^ length buf)) @ r"
        using negate_loop_eq [of 0 buf r] by (simp add: negate_twos_complement_def v)
      moreover have "bs = (if ?neg \<and> c \<noteq> [] then be_bytes (length buf) (nat ((- int (be_val c)) mod 256 ^ length buf)) else buf)"
        unfolding bs_def tc_bytes_def that Let_def ..
      ultimately show ?thesis unfolding l by (simp only: split: if_split) simp
    qed
    ultimately have w: "(if N then negate_twos_complement (take pad P @ c @ r) (length bs) else take pad P @ c @ r) = bs @ r"
      if "length bs \<le> length p" for r
      using that unfolding P_def N_def by (metis append_assoc)
    have dr: "drop (length bs) P = drop (length bs) p" using pos by (simp add: P_def)
    have hd: "hd (bs @ r) = hd bs" for r using pos by (simp add: hd_append)
    have "i2c_ASN1_INTEGER (Some a) (Some p) =
      do { assert (length bs \<le> length p);
           let buf = take pad P @ c @ drop (length bs) P;
           let buf = (if N then negate_twos_complement buf (length bs) else buf);
           assert (if N then hd buf \<ge> 0x80 else hd buf < 0x80);
           Some (int (length bs), Some buf) }"
      using fits pos unfolding i2c_ASN1_INTEGER_def option.case Let_def s_def [symmetric] needs_pad_code [OF s] prod.case
      unfolding pad_def [symmetric] N_def [symmetric] P_def [symmetric] CBS_len_eq n bs [symmetric]
      by (simp only: assert_def d if_True if_False Option.bind.simps)
    note i = this [unfolded Let_def dr]
    have sg: "if N then hd bs \<ge> 0x80 else hd bs < 0x80" using sign by (simp add: N_def)
    show ?thesis
    proof (cases "length bs \<le> length p")
      case True
      show ?thesis using True sg unfolding i w [OF True] hd Some by (simp add: assert_def)
    next
      case False
      then show ?thesis unfolding i Some by (simp add: assert_def)
    qed
  qed
qed

section \<open>Reading\<close>

text \<open>The form that the setters leave: no leading zero, and zero is not negative.\<close>

definition canonical :: "asn1_string \<Rightarrow> bool" where
  "canonical a \<longleftrightarrow> str_ok a \<and> (content a = [] \<or> hd (content a) \<noteq> 0) \<and>
    (s_type a AND V_ASN1_NEG \<noteq> 0 \<longrightarrow> content a \<noteq> [])"

text \<open>An allocator that always has memory.\<close>

definition malloc_total :: "(nat \<Rightarrow> u8 list option) \<Rightarrow> bool" where
  "malloc_total malloc \<longleftrightarrow> malloc_ok malloc \<and> (\<forall>n. malloc n \<noteq> None)"

lemma OPENSSL_malloc_gives:
  assumes "malloc_total malloc" "n < 2 ^ 63"
  obtains bs where "OPENSSL_malloc malloc n = Some bs" "length bs = n"
proof -
  obtain ptr where "malloc (n + 8) = Some ptr" using assms(1) by (auto simp: malloc_total_def)
  then have "OPENSSL_malloc malloc n = Some (drop 8 ptr)" using assms(2) by (simp add: OPENSSL_malloc_def)
  with length_OPENSSL_malloc [OF _ this] assms that show thesis by (auto simp: malloc_total_def)
qed

lemma ASN1_STRING_set_total:
  assumes m: "malloc_total malloc" and a: "str_ok a" and len: "len \<le> ASN1_STRING_MAX" "len \<le> length d"
  obtains blk where "ASN1_STRING_set malloc a (Some d) (int len) = Some (1, a\<lparr>s_data := Some (take len d @ blk), s_length := int len\<rparr>)"
    "blk \<noteq> []"
proof -
  obtain new where new: "OPENSSL_malloc malloc (len + 1) = Some new" "length new = len + 1"
    by (rule OPENSSL_malloc_gives [OF m, of "len + 1"]) (use len(1) in simp_all)
  obtain blk where blk: "(if s_length a \<le> int len \<or> s_data a = None
      then (case s_data a of None \<Rightarrow> OPENSSL_malloc malloc (len + 1) | Some c \<Rightarrow> OPENSSL_realloc malloc (Some c) (len + 1))
      else s_data a) = Some blk" and l: "len < length blk"
  proof (cases "s_data a")
    case None
    then show thesis using that new by auto
  next
    case (Some c)
    show thesis
    proof (cases "s_length a \<le> int len")
      case True
      then show thesis using that new Some by (auto simp: OPENSSL_realloc_def Let_def)
    next
      case False
      then show thesis using that a Some by (auto simp: str_ok_def block_def)
    qed
  qed
  show thesis
    by (rule that [of "0 # drop (len + 1) blk"]) (use len blk l in \<open>simp_all add: ASN1_STRING_set_def assert_def\<close>)
qed

text \<open>The bytes that \<open>c2i_ASN1_INTEGER\<close> copies, and the magnitude that it stores.\<close>

definition copied :: "u8 list \<Rightarrow> u8 list" where
  "copied bs = (if 128 \<le> unat (hd bs) then if hd bs = 0xff \<and> be_val (tl bs) \<noteq> 0 then tl bs else bs
    else if hd bs = 0 then tl bs else bs)"

definition magnitude :: "u8 list \<Rightarrow> u8 list" where
  "magnitude bs = (let c = copied bs in
    if 128 \<le> unat (hd bs) then be_bytes (length c) (nat ((- int (be_val c)) mod 256 ^ length c)) else c)"

lemma hd_nonzero:
  assumes "c \<noteq> []" "256 ^ (length c - 1) \<le> int (be_val c)"
  shows "hd c \<noteq> 0"
proof -
  have "1 \<le> unat (hd c)" using hd_ge [OF assms(1), of 1] assms(2) by simp
  then show ?thesis by auto
qed

lemma magnitude_negative:
  assumes "c \<noteq> []" "0 < V" "V < 256 ^ length c" "256 ^ (length c - 1) \<le> V" "int (be_val c) = 256 ^ length c - V"
  defines "m \<equiv> be_bytes (length c) (nat ((- int (be_val c)) mod 256 ^ length c))"
  shows "m \<noteq> [] \<and> hd m \<noteq> 0 \<and> int (be_val m) = V"
proof -
  have "(- int (be_val c)) mod 256 ^ length c = (V - 256 ^ length c) mod 256 ^ length c" unfolding assms(5) by simp
  also have "\<dots> = V" using assms(2,3) by simp
  finally have V: "(- int (be_val c)) mod 256 ^ length c = V" .
  have l: "length m = length c" by (simp add: m_def)
  then have ne: "m \<noteq> []" using assms(1) by auto
  have "int (nat V) < 256 ^ length c" using assms(2,3) by simp
  then have "nat V < 256 ^ length c" using of_nat_less_iff [where 'a = int, of "nat V" "256 ^ length c"] by simp
  then have v: "int (be_val m) = V" unfolding m_def V be_val_be_bytes using assms(2) by simp
  then have "hd m \<noteq> 0" using hd_nonzero [OF ne] assms(4) l by simp
  then show ?thesis using ne v by simp
qed

lemma magnitude_exact:
  assumes mi: "minimal_int bs"
  shows "magnitude bs = [] \<or> hd (magnitude bs) \<noteq> 0" "128 \<le> unat (hd bs) \<Longrightarrow> magnitude bs \<noteq> []"
    "tc_val bs = (if 128 \<le> unat (hd bs) then - int (be_val (magnitude bs)) else int (be_val (magnitude bs)))"
    "length (magnitude bs) = length (copied bs)"
proof -
  obtain h r where bs: "bs = h # r" using mi by (cases bs) auto
  let ?k = "length r"
  have pos: "(0 :: int) < 256 ^ ?k" by simp
  have "(magnitude bs = [] \<or> hd (magnitude bs) \<noteq> 0) \<and> (128 \<le> unat (hd bs) \<longrightarrow> magnitude bs \<noteq> []) \<and>
    tc_val bs = (if 128 \<le> unat (hd bs) then - int (be_val (magnitude bs)) else int (be_val (magnitude bs)))"
  proof (cases "128 \<le> unat h")
    case False
    then show ?thesis using mi by (cases r) (auto simp: magnitude_def copied_def bs tc_val_def be_val_Cons Let_def)
  next
    case True
    have m: "magnitude bs = be_bytes (length (copied bs)) (nat ((- int (be_val (copied bs))) mod 256 ^ length (copied bs)))"
      using True by (simp add: magnitude_def Let_def bs)
    have t: "tc_val bs = int (be_val bs) - 256 * 256 ^ ?k" using True by (simp add: tc_val_def bs)
    have "magnitude bs \<noteq> [] \<and> hd (magnitude bs) \<noteq> 0 \<and> int (be_val (magnitude bs)) = - tc_val bs"
    proof (cases "h = 0xff \<and> be_val r \<noteq> 0")
      case skip: True
      then have c: "copied bs = r" and ne: "r \<noteq> []" by (auto simp: copied_def bs)
      have v: "int (be_val bs) = 255 * 256 ^ ?k + int (be_val r)" using skip by (simp add: bs be_val_Cons)
      have b: "0 < int (be_val r)" "int (be_val r) < 256 ^ ?k" using skip be_val_int_bound [of r] by simp_all
      have "unat (hd r) < 128" using mi skip by (cases r) (auto simp: bs)
      then have "int (be_val r) < 128 * 256 ^ (?k - 1)" using hd_ge [OF ne, of 128] by simp
      moreover have "(256 :: int) ^ ?k = 256 * 256 ^ (?k - 1)" using ne by (intro pow_split) simp
      moreover have "(0 :: int) < 256 ^ (?k - 1)" by simp
      ultimately have "256 ^ (?k - 1) \<le> - tc_val bs" unfolding t v by linarith
      then show ?thesis unfolding m c
        by (intro magnitude_negative [OF ne, of "- tc_val bs"]) (use b t v in linarith)+
    next
      case False
      then have c: "copied bs = bs" using True by (auto simp: copied_def bs)
      have ne: "bs \<noteq> []" by (simp add: bs)
      have l: "length bs = Suc ?k" "length bs - 1 = ?k" by (simp_all add: bs)
      have hi: "int (be_val bs) \<le> 255 * 256 ^ ?k"
      proof (cases "h = 0xff")
        case True
        then show ?thesis using False by (simp add: bs be_val_Cons)
      next
        case small: False
        have "unat h < 256" by simp
        moreover have "unat h \<noteq> 255" using small by (auto simp: word_unat_eq_iff)
        ultimately have "\<not> 255 \<le> unat h" by linarith
        then have "\<not> 255 \<le> unat (hd bs)" by (simp add: bs)
        then show ?thesis using hd_ge [OF ne, of 255] unfolding l by simp
      qed
      have lo: "128 * 256 ^ ?k \<le> int (be_val bs)" using hd_ge [OF ne, of 128] True unfolding l by (simp add: bs)
      have p: "(256 :: int) ^ length bs = 256 * 256 ^ ?k" "(256 :: int) ^ (length bs - 1) = 256 ^ ?k" by (simp_all add: bs)
      show ?thesis unfolding m c
        by (intro magnitude_negative [OF ne, of "- tc_val bs"]) (use lo hi pos t p in linarith)+
    qed
    then show ?thesis using True by (simp add: bs)
  qed
  then show "magnitude bs = [] \<or> hd (magnitude bs) \<noteq> 0" "128 \<le> unat (hd bs) \<Longrightarrow> magnitude bs \<noteq> []"
    "tc_val bs = (if 128 \<le> unat (hd bs) then - int (be_val (magnitude bs)) else int (be_val (magnitude bs)))" by blast+
  show "length (magnitude bs) = length (copied bs)" by (simp add: magnitude_def Let_def)
qed

lemma s_type_neg: "V_ASN1_NEG_INTEGER AND V_ASN1_NEG \<noteq> 0" "V_ASN1_INTEGER AND V_ASN1_NEG = 0"
  by simp_all

lemma c2i_ASN1_INTEGER_eq:
  assumes m: "malloc_total malloc" and n: "n \<le> ASN1_STRING_MAX" "n \<le> length inp"
    and out: "\<And>s. out = Some (Some s) \<Longrightarrow> str_ok s" and mi: "minimal_int (take n inp)"
  obtains ret where "c2i_ASN1_INTEGER malloc out inp (int n) =
      Some (Some ret, if out = None then None else Some (Some ret), drop n inp)"
    "str_ok ret" "content ret = magnitude (take n inp)"
    "s_type ret = (if 128 \<le> unat (hd (take n inp)) then V_ASN1_NEG_INTEGER else V_ASN1_INTEGER)"
proof -
  let ?bs = "take n inp"
  define neg where "neg \<longleftrightarrow> 128 \<le> unat (hd ?bs)"
  define s where "s = CBS_init inp n"
  have s: "cbs_ok s" "cbs_bytes s = ?bs" "cbs_len s = n" "cbs_data s = inp"
    using n by (simp_all add: s_def) (simp add: CBS_init_def)
  have ne: "0 < n" "inp \<noteq> []" using mi n(2) by (cases n; auto)+
  have valid: "CBS_is_valid_asn1_integer s = Some neg" using is_valid_asn1_integer_eq [OF s(1)] mi s(2) by (simp add: neg_def)
  have hd: "hd inp = hd ?bs" using ne by simp
  have tl: "take (n - 1) (tl inp) = tl ?bs" using ne by (simp add: tl_take)
  have z: "is_all_zeros (tl inp) (n - 1) \<longleftrightarrow> be_val (tl ?bs) = 0" using is_all_zeros_eq [of "n - 1" "tl inp"] n tl by simp
  define c where "c = (if neg then
      if CBS_len s > 0 \<and> hd (CBS_data s) = 0xff \<and> \<not> is_all_zeros (tl (CBS_data s)) (CBS_len s - 1)
      then snd (CBS_skip 1 s) else s
    else if CBS_len s > 0 \<and> hd (CBS_data s) = 0 then snd (CBS_skip 1 s) else s)"
  define skip where "skip \<longleftrightarrow> (if neg then hd ?bs = 0xff \<and> be_val (tl ?bs) \<noteq> 0 else hd ?bs = 0)"
  have sk: "snd (CBS_skip 1 s) = cbs_adv 1 s" using ne(1) by (simp add: CBS_skip_eq s(3))
  have ce: "c = (if skip then cbs_adv 1 s else s)"
    unfolding c_def sk skip_def CBS_len_eq CBS_data_def s(3,4) hd z using ne(1) by (cases neg) simp_all
  have cp: "copied ?bs = (if skip then tl ?bs else ?bs)" unfolding copied_def skip_def neg_def by (cases "128 \<le> unat (hd ?bs)") simp_all
  have "cbs_ok (cbs_adv 1 s)" by (rule cbs_ok_adv [OF s(1)]) (use ne(1) s(3) in simp)
  then have c: "cbs_ok c" "cbs_bytes c = copied ?bs"
    unfolding ce cp using s(1,2) by (cases skip; simp add: drop_Suc)+
  have cl: "cbs_len c = length (copied ?bs)" using length_cbs_bytes [OF c(1)] c(2) by simp
  have cn: "cbs_len c \<le> n" unfolding ce using s(3) by simp
  obtain ret0 where ret0: "(case out of Some (Some s) \<Rightarrow> Some s | _ \<Rightarrow> ASN1_INTEGER_new malloc) = Some ret0" "str_ok ret0"
  proof (cases "\<exists>s. out = Some (Some s)")
    case True
    then show thesis using that out by auto
  next
    case False
    obtain x where x: "OPENSSL_malloc malloc SIZEOF_ASN1_STRING = Some x" by (rule OPENSSL_malloc_gives [OF m, of SIZEOF_ASN1_STRING]) simp_all
    define r where "r = \<lparr>s_length = 0, s_type = V_ASN1_INTEGER, s_data = None, s_flags = 0\<rparr>"
    have "ASN1_INTEGER_new malloc = Some r" using x by (simp add: ASN1_INTEGER_new_def ASN1_STRING_type_new_def r_def)
    then have "(case out of Some (Some s) \<Rightarrow> Some s | _ \<Rightarrow> ASN1_INTEGER_new malloc) = Some r" using False by (auto split: option.splits)
    then show thesis by (rule that) (simp add: str_ok_def r_def)
  qed
  have len: "cbs_len c \<le> ASN1_STRING_MAX" "cbs_len c \<le> length (CBS_data c)" using cn n c(1) by (auto simp: cbs_ok_def CBS_data_def)
  obtain blk where set: "ASN1_STRING_set malloc ret0 (Some (CBS_data c)) (int (cbs_len c)) =
      Some (1, ret0\<lparr>s_data := Some (take (cbs_len c) (CBS_data c) @ blk), s_length := int (cbs_len c)\<rparr>)" "blk \<noteq> []"
    by (rule ASN1_STRING_set_total [OF m ret0(2) len])
  have d: "take (cbs_len c) (CBS_data c) = copied ?bs" using c(2) by (simp add: cbs_bytes_def CBS_data_def)
  define ret where "ret = ret0\<lparr>s_length := int (cbs_len c), s_type := if neg then V_ASN1_NEG_INTEGER else V_ASN1_INTEGER,
    s_data := Some (magnitude ?bs @ blk)\<rparr>"
  note mag = magnitude_exact [OF mi]
  have negate: "negate_twos_complement (copied ?bs @ blk) (cbs_len c) = magnitude ?bs @ blk" if neg
    using negate_loop_eq [of 0 "copied ?bs" blk] that
    by (simp add: negate_twos_complement_def cl magnitude_def neg_def Let_def del: be_bytes.simps)
  have pos: "copied ?bs = magnitude ?bs" if "\<not> neg" using that by (simp add: magnitude_def neg_def)
  have "c2i_ASN1_INTEGER malloc out inp (int n) = Some (Some ret, if out = None then None else Some (Some ret), drop n inp)"
  proof -
    have l: "\<not> (int n < 0 \<or> int n > int INT_MAX_nat div 2)" using n(1) by simp
    have i: "CBS_init inp (size_of_int (int n)) = s" using n(1) by (simp add: s_def size_of_int_small)
    have h: "hd (magnitude ?bs @ blk) = hd (magnitude ?bs)" if "magnitude ?bs \<noteq> []" using that by simp
    have nz: "int (cbs_len c) = 0 \<or> hd (magnitude ?bs @ blk) \<noteq> 0" using mag(1,4) cl h by (cases "magnitude ?bs = []") auto
    have np: "\<not> neg \<or> int (cbs_len c) > 0" using mag(2,4) cl by (auto simp: neg_def)
    show ?thesis using l negate pos nz np
      unfolding c2i_ASN1_INTEGER_def i Let_def valid option.case ret0(1) unfolding c_def [symmetric] unfolding CBS_len_eq set(1) d
      by (cases neg) (simp_all add: assert_def block_def ret_def)
  qed
  moreover have "str_ok ret" "content ret = magnitude ?bs"
    using mag(4) cl len by (auto simp: str_ok_def content_def block_def ret_def)
  ultimately show thesis using that by (simp add: ret_def neg_def)
qed

end
