(* ===== verification/Asn1_Integer_Values.thy ===== *)
theory Asn1_Integer_Values
  imports Asn1_Integer_Spec
begin

text \<open>
  \<open>a_int.c\<close> as a type of integers: writing gives the DER contents of the value, reading accepts exactly the DER
  contents and gives the value back, the conversions from and to \<open>int64_t\<close> are exact, and the comparison is the order
  of the values.
\<close>

section \<open>Round trip\<close>

lemma encodes:
  assumes "str_ok a" "s_length a < int INT_MAX_nat"
  shows "\<exists>bs. minimal_int bs \<and> tc_val bs = int_val a \<and> i2c_ASN1_INTEGER (Some a) None = Some (int (length bs), None) \<and>
    (\<forall>p. length bs \<le> length p \<longrightarrow>
      i2c_ASN1_INTEGER (Some a) (Some p) = Some (int (length bs), Some (bs @ drop (length bs) p)))"
proof -
  let ?c = "dropWhile (\<lambda>b. b = 0) (content a)"
  have z: "?c = [] \<or> hd ?c \<noteq> 0" using hd_dropWhile by blast
  note e = tc_bytes_exact [OF z] i2c_ASN1_INTEGER_eq [OF assms]
  show ?thesis
    by (intro exI [of _ "tc_bytes (s_type a AND V_ASN1_NEG \<noteq> 0) ?c"])
      (use e in \<open>auto simp: int_val_def be_val_dropWhile\<close>)
qed

lemma decodes:
  assumes "malloc_total malloc" "n \<le> ASN1_STRING_MAX" "n \<le> length inp" "\<And>s. out = Some (Some s) \<Longrightarrow> str_ok s"
    "minimal_int (take n inp)"
  obtains ret where "c2i_ASN1_INTEGER malloc out inp (int n) =
      Some (Some ret, if out = None then None else Some (Some ret), drop n inp)"
    "canonical ret" "s_length ret \<le> int n" "s_type ret AND NOT V_ASN1_NEG = V_ASN1_INTEGER" "int_val ret = tc_val (take n inp)"
proof -
  obtain ret where r: "c2i_ASN1_INTEGER malloc out inp (int n) =
      Some (Some ret, if out = None then None else Some (Some ret), drop n inp)"
    "str_ok ret" "content ret = magnitude (take n inp)"
    "s_type ret = (if 128 \<le> unat (hd (take n inp)) then V_ASN1_NEG_INTEGER else V_ASN1_INTEGER)"
    by (rule c2i_ASN1_INTEGER_eq [OF assms])
  note mag = magnitude_exact [OF assms(5)]
  show thesis
  proof (rule that [OF r(1)])
    show "canonical ret" using r mag(1,2) by (simp add: canonical_def)
    have "length (magnitude (take n inp)) \<le> n" using mag(4) assms(3) by (simp add: copied_def)
    then have "int (length (content ret)) \<le> int n" unfolding r(3) by (rule of_nat_mono)
    then show "s_length ret \<le> int n" unfolding length_content [OF r(2)] .
    show "s_type ret AND NOT V_ASN1_NEG = V_ASN1_INTEGER" using r(4) by simp
    show "int_val ret = tc_val (take n inp)" using r(3,4) mag(3) by (simp add: int_val_def)
  qed
qed

lemma rejects:
  assumes "n \<le> ASN1_STRING_MAX" "n \<le> length inp" "\<not> minimal_int (take n inp)"
  shows "c2i_ASN1_INTEGER malloc out inp (int n) = Some (None, out, inp)"
proof -
  have "CBS_is_valid_asn1_integer (CBS_init inp (size_of_int (int n))) = None"
    using assms by (simp add: is_valid_asn1_integer_eq size_of_int_small)
  then show ?thesis using assms(1) by (simp add: c2i_ASN1_INTEGER_def)
qed

section \<open>Words\<close>

lemma sint_u64: "sint (v :: u64) = (if unat v < 2 ^ 63 then int (unat v) else int (unat v) - 2 ^ 64)"
proof -
  have s: "0 \<le> sint v \<longleftrightarrow> unat v < 2 ^ 63" by (rule sint_nonneg_iff)
  have u: "uint v = sint v mod 2 ^ 64" using uint_sint [of v] by (simp add: take_bit_eq_mod)
  have r: "- (2 ^ 63) \<le> sint v" "sint v < 2 ^ 63" using sint_greater_eq [of v] sint_less [of v] by simp_all
  show ?thesis
  proof (cases "0 \<le> sint v")
    case True
    then have "uint v = sint v" using u r(2) by simp
    then show ?thesis using True s by simp
  next
    case False
    have "sint v mod 2 ^ 64 = (sint v + 2 ^ 64) mod 2 ^ 64" by simp
    also have "\<dots> = sint v + 2 ^ 64" using False r(1) by (intro mod_pos_pos_trivial) simp_all
    finally have "uint v = sint v + 2 ^ 64" using u by simp
    then show ?thesis using False s by simp
  qed
qed

lemma u64_negate:
  assumes "0 < V" "V < 2 ^ 64"
  shows "unat (0 - word_of_nat V :: u64) = 2 ^ 64 - V"
proof -
  have "(word_of_nat (2 ^ 64 - V) :: u64) + word_of_nat V = word_of_nat (2 ^ 64 - V + V)" by (simp only: of_nat_add)
  also have "\<dots> = 0" using assms(2) by (simp add: word_unat_eq_iff unat_of_nat)
  finally have "word_of_nat V + (word_of_nat (2 ^ 64 - V) :: u64) = 0" by (simp only: add.commute)
  then have e: "0 - word_of_nat V = (word_of_nat (2 ^ 64 - V) :: u64)" unfolding diff_0 by (rule minus_unique)
  have "2 ^ 64 - V < 2 ^ LENGTH(64)" using assms by simp
  then show ?thesis unfolding e unat_of_nat by (rule mod_less)
qed

section \<open>Getters\<close>

lemma canonical_large:
  assumes "canonical a" "8 < s_length a"
  shows "2 ^ 64 \<le> int (be_val (content a))"
proof -
  have l: "int (length (content a)) = s_length a" using assms(1) length_content by (simp add: canonical_def)
  then have ne: "content a \<noteq> []" "8 \<le> length (content a) - 1" using assms(2) by auto
  then have "1 \<le> unat (hd (content a))" using assms(1) by (simp add: canonical_def Suc_le_eq unat_gt_0)
  then have "256 ^ (length (content a) - 1) \<le> int (be_val (content a))" using hd_ge [OF ne(1), of 1] by simp
  moreover have "(256 :: int) ^ 8 \<le> 256 ^ (length (content a) - 1)" using ne(2) by (intro power_increasing) simp_all
  ultimately have "256 ^ 8 \<le> int (be_val (content a))" by linarith
  then show ?thesis by simp
qed

lemma canonical_negative: "canonical a \<Longrightarrow> s_type a AND V_ASN1_NEG \<noteq> 0 \<Longrightarrow> 0 < be_val (content a)"
proof -
  assume "canonical a" "s_type a AND V_ASN1_NEG \<noteq> 0"
  then have ne: "content a \<noteq> []" "1 \<le> unat (hd (content a))" by (auto simp: canonical_def Suc_le_eq unat_gt_0)
  then have "256 ^ (length (content a) - 1) \<le> int (be_val (content a))" using hd_ge [OF ne(1), of 1] by simp
  moreover have "(0 :: int) < 256 ^ (length (content a) - 1)" by simp
  ultimately have "0 < int (be_val (content a))" by linarith
  then show "0 < be_val (content a)" by simp
qed

lemma get_int64_eq:
  assumes c: "canonical a"
  shows "asn1_string_get_int64 a ty =
    Some (if s_type a AND NOT V_ASN1_NEG = ty \<and> - (2 ^ 63) \<le> int_val a \<and> int_val a < 2 ^ 63
          then Some (word_of_int (int_val a)) else None)"
proof -
  have ok: "str_ok a" using c by (simp add: canonical_def)
  let ?V = "be_val (content a)" and ?neg = "s_type a AND V_ASN1_NEG \<noteq> 0"
  consider "s_type a AND NOT V_ASN1_NEG \<noteq> ty" | "s_type a AND NOT V_ASN1_NEG = ty" "8 < s_length a" |
    "s_type a AND NOT V_ASN1_NEG = ty" "s_length a \<le> 8" by linarith
  then show ?thesis
  proof cases
    case 1
    then show ?thesis by (simp add: asn1_string_get_int64_def asn1_string_get_abs_uint64_def)
  next
    case 2
    then show ?thesis using canonical_large [OF c 2(2)]
      by (auto simp: asn1_string_get_int64_def asn1_string_get_abs_uint64_def int_val_def)
  next
    case 3
    have l: "length (content a) \<le> 8" using length_content [OF ok] 3(2) by linarith
    then have "(256 :: nat) ^ length (content a) \<le> 256 ^ 8" by (intro power_increasing) simp_all
    then have V: "?V < 2 ^ 64" using be_val_bound [of "content a"] by simp
    have g: "asn1_string_get_abs_uint64 a ty = Some (Some (word_of_nat ?V))"
      using 3 ok unfolding str_ok_def
      by (simp add: asn1_string_get_abs_uint64_def assert_def be_val_append content_def nat_le_iff)
    have u: "unat (word_of_nat ?V :: u64) = ?V" using V by (simp add: unat_of_nat)
    show ?thesis
    proof (cases ?neg)
      case True
      have pos: "0 < ?V" by (rule canonical_negative [OF c True])
      have n: "unat (0 - word_of_nat ?V :: u64) = 2 ^ 64 - ?V" by (rule u64_negate [OF pos V])
      have nz: "(word_of_nat ?V :: u64) \<noteq> 0" using pos u by auto
      have "sint (0 - word_of_nat ?V :: u64) < 0 \<longleftrightarrow> \<not> unat (0 - word_of_nat ?V :: u64) < 2 ^ 63"
        using sint_nonneg_iff [of "0 - word_of_nat ?V"] by linarith
      then have s: "sint (0 - word_of_nat ?V :: u64) < 0 \<longleftrightarrow> ?V \<le> 2 ^ 63" unfolding n using V by auto
      have i: "- (2 ^ 63) \<le> int_val a \<and> int_val a < 2 ^ 63 \<longleftrightarrow> ?V \<le> 2 ^ 63"
        using True of_nat_le_iff [where 'a = int, of ?V "2 ^ 63"] by (simp add: int_val_def)
      have w: "word_of_int (int_val a) = (0 - word_of_nat ?V :: u64)" using True by (simp add: int_val_def)
      show ?thesis unfolding asn1_string_get_int64_def g i w using True nz s 3(1) by simp
    next
      case False
      have s: "0 \<le> sint (word_of_nat ?V :: u64) \<longleftrightarrow> ?V < 2 ^ 63" unfolding sint_nonneg_iff u ..
      have i: "- (2 ^ 63) \<le> int_val a \<and> int_val a < 2 ^ 63 \<longleftrightarrow> ?V < 2 ^ 63"
        using False of_nat_less_iff [where 'a = int, of ?V "2 ^ 63"] by (simp add: int_val_def)
      have w: "word_of_int (int_val a) = (word_of_nat ?V :: u64)" using False by (simp add: int_val_def)
      show ?thesis unfolding asn1_string_get_int64_def g i w using False s 3(1) by simp
    qed
  qed
qed

section \<open>Setters\<close>

lemma set_uint64_eq:
  assumes m: "malloc_total malloc" and a: "str_ok a" and ty: "ty AND V_ASN1_NEG = 0"
  obtains b where "asn1_string_set_uint64 malloc a v ty = Some (1, b)" "str_ok b" "s_type b = ty"
    "content b = dropWhile (\<lambda>b. b = 0) (be_bytes 8 (unat v))"
proof -
  let ?buf = "be_bytes 8 (unat v)"
  define z where "z = leading_zeros ?buf"
  have d: "drop z ?buf = dropWhile (\<lambda>b. b = 0) ?buf" by (simp only: z_def leading_zeros_def dropWhile_eq_drop)
  have l: "length (drop z ?buf) = 8 - z" "8 - z \<le> ASN1_STRING_MAX" "8 - z \<le> length (drop z ?buf)" by simp_all
  obtain blk where s: "ASN1_STRING_set malloc a (Some (drop z ?buf)) (int (8 - z)) =
      Some (1, a\<lparr>s_data := Some (take (8 - z) (drop z ?buf) @ blk), s_length := int (8 - z)\<rparr>)"
    by (rule ASN1_STRING_set_total [OF m a l(2,3)])
  define b where "b = a\<lparr>s_data := Some (take (8 - z) (drop z ?buf) @ blk), s_length := int (8 - z), s_type := ty\<rparr>"
  have t: "take (8 - z) (drop z ?buf) = drop z ?buf" using l(1) by (intro take_all) simp
  show thesis
  proof (rule that [of b])
    show "asn1_string_set_uint64 malloc a v ty = Some (1, b)"
      unfolding asn1_string_set_uint64_def Let_def z_def [symmetric] s by (simp add: b_def)
    show "str_ok b" using l by (simp add: b_def str_ok_def block_def)
    show "content b = dropWhile (\<lambda>b. b = 0) ?buf" unfolding d [symmetric] using l(1) by (simp add: content_def b_def block_def t)
  qed (simp add: b_def)
qed

lemma set_int64_eq:
  fixes v :: u64
  assumes m: "malloc_total malloc" and a: "str_ok a" and ty: "ty AND V_ASN1_NEG = 0" "nty AND V_ASN1_NEG \<noteq> 0"
  defines "res \<equiv> (if sint v \<ge> 0 then asn1_string_set_uint64 malloc a v ty
     else do {
       (r, a) \<leftarrow> asn1_string_set_uint64 malloc a (0 - v) ty;
       Some (if r = 0 then (0, a) else (1, a\<lparr>s_type := nty\<rparr>)) })"
  obtains b where "res = Some (1, b)" "canonical b" "s_type b = (if sint v \<ge> 0 then ty else nty)" "int_val b = sint v"
proof (cases "sint v \<ge> 0")
  case True
  obtain b where b: "asn1_string_set_uint64 malloc a v ty = Some (1, b)" "str_ok b" "s_type b = ty"
    "content b = dropWhile (\<lambda>b. b = 0) (be_bytes 8 (unat v))"
    by (rule set_uint64_eq [OF m a ty(1)])
  have "unat v < 2 ^ LENGTH(64)" by (rule unsigned_less)
  then have "be_val (content b) = unat v" unfolding b(4) by (simp add: be_val_dropWhile be_val_be_bytes)
  moreover have "unat v < 2 ^ 63" using True sint_nonneg_iff [of v] by simp
  ultimately have v: "int_val b = sint v" using b(3) ty(1) by (simp add: int_val_def sint_u64)
  have "content b = [] \<or> hd (content b) \<noteq> 0" unfolding b(4) using hd_dropWhile by blast
  then show thesis using that [of b] True b v ty(1) by (simp add: res_def canonical_def)
next
  case False
  obtain b where b: "asn1_string_set_uint64 malloc a (0 - v) ty = Some (1, b)" "str_ok b" "s_type b = ty"
    "content b = dropWhile (\<lambda>b. b = 0) (be_bytes 8 (unat (0 - v)))"
    by (rule set_uint64_eq [OF m a ty(1)])
  have n: "\<not> unat v < 2 ^ 63" using False sint_nonneg_iff [of v] by simp
  have u: "unat v < 2 ^ LENGTH(64)" by (rule unsigned_less)
  then have "unat (0 - v) = 2 ^ 64 - unat v" using u64_negate [of "unat v"] n by simp
  moreover from this have "2 ^ 64 - unat v < 256 ^ 8" using n by simp
  ultimately have w: "be_val (content b) = 2 ^ 64 - unat v" unfolding b(4) by (simp add: be_val_dropWhile be_val_be_bytes)
  define b' where "b' = b\<lparr>s_type := nty\<rparr>"
  have c: "content b' = content b" by (simp add: b'_def content_def)
  have "int (2 ^ 64 - unat v) = 2 ^ 64 - int (unat v)" using u by (simp add: of_nat_diff)
  then have v: "int_val b' = sint v" using n ty(2) w c by (simp add: int_val_def sint_u64 b'_def)
  have "content b = [] \<or> hd (content b) \<noteq> 0" unfolding b(4) using hd_dropWhile by blast
  moreover have "content b \<noteq> []" using w u by auto
  ultimately have "canonical b'" using b(2) c by (simp add: canonical_def str_ok_def b'_def)
  then show thesis using that [of b'] False b(1) v by (simp add: res_def b'_def)
qed

section \<open>Comparison\<close>

lemma memcmp_be_val:
  "length s = length t \<Longrightarrow> (memcmp_sign s t (length s) < 0 \<longleftrightarrow> be_val s < be_val t) \<and>
    (0 < memcmp_sign s t (length s) \<longleftrightarrow> be_val t < be_val s)"
proof (induction s arbitrary: t)
  case (Cons x s)
  then obtain y u where t: "t = y # u" "length s = length u" by (cases t) auto
  have less: "unat a * 256 ^ length p + be_val p < unat b * 256 ^ length p + be_val q"
    if "a < b" "length p = length q" for a b :: u8 and p q
  proof -
    have "Suc (unat a) \<le> unat b" using that(1) by (simp add: word_less_nat_alt)
    then have "Suc (unat a) * 256 ^ length p \<le> unat b * 256 ^ length p" by (rule mult_le_mono1)
    then show ?thesis using be_val_bound [of p] by simp
  qed
  consider "x < y" | "y < x" | "x = y" by fastforce
  then show ?case
  proof cases
    case 1
    then show ?thesis using less [OF 1 t(2)] by (simp add: t be_val_Cons)
  next
    case 2
    then have "\<not> x < y" by simp
    then show ?thesis using less [OF 2 t(2) [symmetric]] 2 t(2) by (simp add: t(1) be_val_Cons)
  next
    case 3
    then show ?thesis using Cons.IH [OF t(2)] t(2) by (simp add: t(1) be_val_Cons)
  qed
qed simp

lemma canonical_longer:
  assumes "canonical a" "canonical b" "length (content a) < length (content b)"
  shows "be_val (content a) < be_val (content b)"
proof -
  have ne: "content b \<noteq> []" using assms(3) by auto
  then have "1 \<le> unat (hd (content b))" using assms(2) by (simp add: canonical_def Suc_le_eq unat_gt_0)
  then have "256 ^ (length (content b) - 1) \<le> int (be_val (content b))" using hd_ge [OF ne, of 1] by simp
  moreover have "(256 :: int) ^ length (content a) \<le> 256 ^ (length (content b) - 1)"
    using assms(3) by (intro power_increasing) simp_all
  moreover have "int (be_val (content a)) < 256 ^ length (content a)" by (rule be_val_int_bound)
  ultimately have "int (be_val (content a)) < int (be_val (content b))" by linarith
  then show ?thesis by simp
qed

lemma string_cmp_eq:
  assumes "canonical a" "canonical b" "s_type a = s_type b" "s_type a \<noteq> V_ASN1_BIT_STRING"
  obtains r where "ASN1_STRING_cmp a b = Some r" "r < 0 \<longleftrightarrow> be_val (content a) < be_val (content b)"
    "0 < r \<longleftrightarrow> be_val (content b) < be_val (content a)"
proof -
  have ok: "str_ok a" "str_ok b" using assms by (simp_all add: canonical_def)
  note l = length_content [OF ok(1)] length_content [OF ok(2)]
  consider "s_length a < s_length b" | "s_length b < s_length a" | "s_length a = s_length b" by linarith
  then show thesis
  proof cases
    case 1
    then have "length (content a) < length (content b)" using l by linarith
    from canonical_longer [OF assms(1,2) this] 1 show thesis
      by (intro that [of "-1"]) (use assms in \<open>simp_all add: ASN1_STRING_cmp_def\<close>)
  next
    case 2
    then have "length (content b) < length (content a)" using l by linarith
    from canonical_longer [OF assms(2,1) this] 2 show thesis
      by (intro that [of 1]) (use assms in \<open>simp_all add: ASN1_STRING_cmp_def\<close>)
  next
    case 3
    define n where "n = length (content a)"
    have len: "length (content a) = n" "length (content b) = n" using 3 l by (simp_all add: n_def)
    have s: "size_of_int (s_length a) = n" using l(1) ok(1) by (simp add: str_ok_def size_of_int_small n_def)
    note s = s s [unfolded 3]
    have t: "take n (block (s_data a)) = content a" "take n (block (s_data b)) = content b"
      using 3 l by (simp_all add: content_def n_def)
    have b: "n \<le> length (block (s_data a))" "n \<le> length (block (s_data b))"
      using ok 3 l unfolding str_ok_def n_def by linarith+
    have m: "OPENSSL_memcmp (block (s_data a)) (block (s_data b)) n = memcmp_sign (content a) (content b) n"
    proof (cases n)
      case (Suc k)
      have "memcmp_sign (take n p) (take n q) n = memcmp_sign p q n" if "n \<le> length p" "n \<le> length q" for n p q
        using that by (induction p q n rule: memcmp_sign.induct) auto
      from this [OF b] show ?thesis unfolding t by (simp add: OPENSSL_memcmp_def Suc)
    qed (simp add: OPENSSL_memcmp_def)
    note c = memcmp_be_val [of "content a" "content b", unfolded len, OF refl]
    show thesis
      by (rule that [of "memcmp_sign (content a) (content b) n"])
        (use 3 assms(3,4) b c in \<open>simp_all add: ASN1_STRING_cmp_def s m assert_def Let_def\<close>)
  qed
qed

lemma integer_cmp_eq:
  assumes "canonical x" "canonical y" "s_type x = V_ASN1_INTEGER \<or> s_type x = V_ASN1_NEG_INTEGER"
    "s_type y = V_ASN1_INTEGER \<or> s_type y = V_ASN1_NEG_INTEGER"
  obtains r where "ASN1_INTEGER_cmp x y = Some r" "r < 0 \<longleftrightarrow> int_val x < int_val y" "0 < r \<longleftrightarrow> int_val y < int_val x"
proof -
  note n = canonical_negative [OF assms(1)] canonical_negative [OF assms(2)]
  consider "s_type x = V_ASN1_INTEGER" "s_type y = V_ASN1_INTEGER" | "s_type x = V_ASN1_NEG_INTEGER" "s_type y = V_ASN1_NEG_INTEGER"
    | "s_type x = V_ASN1_INTEGER" "s_type y = V_ASN1_NEG_INTEGER" | "s_type x = V_ASN1_NEG_INTEGER" "s_type y = V_ASN1_INTEGER"
    using assms(3,4) by blast
  then show thesis
  proof cases
    case 1
    then have t: "s_type x = s_type y" "s_type x \<noteq> V_ASN1_BIT_STRING" by simp_all
    obtain r where "ASN1_STRING_cmp x y = Some r" "r < 0 \<longleftrightarrow> be_val (content x) < be_val (content y)"
      "0 < r \<longleftrightarrow> be_val (content y) < be_val (content x)"
      by (rule string_cmp_eq [OF assms(1,2) t])
    then show thesis using 1 by (intro that [of r]) (simp_all add: ASN1_INTEGER_cmp_def int_val_def)
  next
    case 2
    then have t: "s_type x = s_type y" "s_type x \<noteq> V_ASN1_BIT_STRING" by simp_all
    obtain r where "ASN1_STRING_cmp x y = Some r" "r < 0 \<longleftrightarrow> be_val (content x) < be_val (content y)"
      "0 < r \<longleftrightarrow> be_val (content y) < be_val (content x)"
      by (rule string_cmp_eq [OF assms(1,2) t])
    then show thesis using 2
      by (intro that [of "if r < 0 then 1 else if r > 0 then -1 else 0"]) (simp_all add: ASN1_INTEGER_cmp_def int_val_def)
  next
    case 3
    then show thesis using n by (intro that [of 1]) (simp_all add: ASN1_INTEGER_cmp_def int_val_def)
  next
    case 4
    then show thesis using n by (intro that [of "-1"]) (simp_all add: ASN1_INTEGER_cmp_def int_val_def)
  qed
qed

section \<open>Properties\<close>

text \<open>(C14) Whatever the bytes of an INTEGER that fits in an \<open>int\<close>, leading zeros and negative zero included,
  \<open>i2c_ASN1_INTEGER\<close> writes DER: the only shortest two's complement form of its value, with no access out of bounds
  and no failed assertion, and with a null pointer it tells the length of this form.\<close>

theorem integer_encoding_minimal:
  assumes "str_ok a" "s_length a < int INT_MAX_nat"
  shows "\<exists>!bs. minimal_int bs \<and> tc_val bs = int_val a \<and> i2c_ASN1_INTEGER (Some a) None = Some (int (length bs), None) \<and>
    (\<forall>p. length bs \<le> length p \<longrightarrow>
      i2c_ASN1_INTEGER (Some a) (Some p) = Some (int (length bs), Some (bs @ drop (length bs) p)))"
proof (rule ex_ex1I)
  fix bs cs
  assume "minimal_int bs \<and> tc_val bs = int_val a \<and> i2c_ASN1_INTEGER (Some a) None = Some (int (length bs), None) \<and>
    (\<forall>p. length bs \<le> length p \<longrightarrow> i2c_ASN1_INTEGER (Some a) (Some p) = Some (int (length bs), Some (bs @ drop (length bs) p)))"
    and "minimal_int cs \<and> tc_val cs = int_val a \<and> i2c_ASN1_INTEGER (Some a) None = Some (int (length cs), None) \<and>
    (\<forall>p. length cs \<le> length p \<longrightarrow> i2c_ASN1_INTEGER (Some a) (Some p) = Some (int (length cs), Some (cs @ drop (length cs) p)))"
  then show "bs = cs" using minimal_unique [of bs cs] by simp
qed (rule encodes [OF assms])

definition minus_256 :: asn1_string where
  "minus_256 = \<lparr>s_length = 3, s_type = V_ASN1_NEG_INTEGER, s_data = Some [0, 1, 0, 7], s_flags = 0\<rparr>"

lemma minus_256_ok: "str_ok minus_256" "s_length minus_256 < int INT_MAX_nat"
  by (simp_all add: minus_256_def str_ok_def block_def)

theorem integer_encoding_minimal_witness:
  "i2c_ASN1_INTEGER (Some minus_256) (Some [9, 9, 9]) = Some (2, Some [0xff, 0, 9])"
proof -
  obtain bs where bs: "minimal_int bs" "tc_val bs = int_val minus_256"
    "\<And>p. length bs \<le> length p \<Longrightarrow>
      i2c_ASN1_INTEGER (Some minus_256) (Some p) = Some (int (length bs), Some (bs @ drop (length bs) p))"
    using integer_encoding_minimal [OF minus_256_ok] by blast
  have "tc_val [0xff, 0] = int_val minus_256"
    by (simp add: tc_val_def int_val_def minus_256_def content_def block_def be_val_def)
  then have "bs = [0xff, 0]" using bs(1,2) by (intro minimal_unique) simp_all
  then show ?thesis using bs(3) [of "[9, 9, 9]"] by simp
qed

text \<open>(C11) \<open>c2i_ASN1_INTEGER\<close> accepts \<open>n\<close> bytes exactly when they are the DER contents of an INTEGER.  Then the string that
  it makes, or fills in, stands for the integer of these bytes and has no leading zero and no negative zero, the
  input pointer is after the \<open>n\<close> bytes, and \<open>i2c_ASN1_INTEGER\<close> writes the same bytes back.  Otherwise nothing changes.\<close>

theorem integer_decoding_exact:
  assumes "malloc_total malloc" "n \<le> ASN1_STRING_MAX" "n \<le> length inp" "\<And>s. out = Some (Some s) \<Longrightarrow> str_ok s"
  shows "if minimal_int (take n inp)
    then \<exists>ret. c2i_ASN1_INTEGER malloc out inp (int n) =
        Some (Some ret, if out = None then None else Some (Some ret), drop n inp) \<and>
      canonical ret \<and> int_val ret = tc_val (take n inp) \<and> i2c_ASN1_INTEGER (Some ret) None = Some (int n, None) \<and>
      (\<forall>p. n \<le> length p \<longrightarrow> i2c_ASN1_INTEGER (Some ret) (Some p) = Some (int n, Some (take n inp @ drop n p)))
    else c2i_ASN1_INTEGER malloc out inp (int n) = Some (None, out, inp)"
proof (cases "minimal_int (take n inp)")
  case True
  obtain ret where r: "c2i_ASN1_INTEGER malloc out inp (int n) =
      Some (Some ret, if out = None then None else Some (Some ret), drop n inp)"
    "canonical ret" "s_length ret \<le> int n" "int_val ret = tc_val (take n inp)"
    by (rule decodes [OF assms True])
  have ok: "str_ok ret" "s_length ret < int INT_MAX_nat" using r(2,3) assms(2) by (auto simp: canonical_def)
  obtain bs where bs: "minimal_int bs" "tc_val bs = int_val ret" "i2c_ASN1_INTEGER (Some ret) None = Some (int (length bs), None)"
    "\<And>p. length bs \<le> length p \<Longrightarrow> i2c_ASN1_INTEGER (Some ret) (Some p) = Some (int (length bs), Some (bs @ drop (length bs) p))"
    using encodes [OF ok] by blast
  have "bs = take n inp" by (rule minimal_unique) (use bs r True in simp_all)
  then show ?thesis using True r bs(3,4) assms(3) by (intro if_P [THEN iffD2] exI [of _ ret]) auto
next
  case False
  then show ?thesis using rejects [OF assms(2,3)] by simp
qed

lemma malloc_total_zero: "malloc_total (\<lambda>n. Some (replicate n 0))"
  by (simp add: malloc_total_def malloc_ok_def)

theorem integer_decoding_exact_witness:
  "(\<exists>ret. c2i_ASN1_INTEGER (\<lambda>n. Some (replicate n 0)) None [0xff, 0x7f, 5] 2 = Some (Some ret, None, [5]) \<and> int_val ret = -129) \<and>
    c2i_ASN1_INTEGER (\<lambda>n. Some (replicate n 0)) None [0xff, 0xff, 5] 2 = Some (None, None, [0xff, 0xff, 5])"
proof -
  have a: "minimal_int (take 2 [0xff, 0x7f, 5])" "\<not> minimal_int (take 2 [0xff, 0xff, 5])"
    "tc_val (take 2 [0xff, 0x7f, 5]) = -129"
    by (simp_all add: tc_val_def be_val_def)
  show ?thesis
    using integer_decoding_exact [OF malloc_total_zero, of 2 "[0xff, 0x7f, 5]" None]
      integer_decoding_exact [OF malloc_total_zero, of 2 "[0xff, 0xff, 5]" None] a
    by (auto split: if_splits)
qed

text \<open>On an INTEGER or ENUMERATED as the setters leave it, \<open>ASN1_INTEGER_get_int64\<close> and
  \<open>ASN1_ENUMERATED_get_int64\<close> succeed exactly when the type is right and the value fits in 64 bits with a sign, and then
  give the value: the boundary \<open>-2^63\<close> is accepted, \<open>2^63\<close> is not.\<close>

theorem get_int64_exact:
  assumes "canonical a"
  shows "ASN1_INTEGER_get_int64 a =
      Some (if s_type a AND NOT V_ASN1_NEG = V_ASN1_INTEGER \<and> - (2 ^ 63) \<le> int_val a \<and> int_val a < 2 ^ 63
            then Some (word_of_int (int_val a)) else None) \<and>
    ASN1_ENUMERATED_get_int64 a =
      Some (if s_type a AND NOT V_ASN1_NEG = V_ASN1_ENUMERATED \<and> - (2 ^ 63) \<le> int_val a \<and> int_val a < 2 ^ 63
            then Some (word_of_int (int_val a)) else None)"
  unfolding ASN1_INTEGER_get_int64_def ASN1_ENUMERATED_get_int64_def by (intro conjI get_int64_eq [OF assms])

definition int64_bound :: "int \<Rightarrow> asn1_string" where
  "int64_bound ty = \<lparr>s_length = 8, s_type = ty, s_data = Some [0x80, 0, 0, 0, 0, 0, 0, 0, 0], s_flags = 0\<rparr>"

lemma int64_bound_canonical: "canonical (int64_bound ty)"
  by (simp add: canonical_def int64_bound_def str_ok_def content_def block_def)

theorem get_int64_exact_witness:
  "ASN1_INTEGER_get_int64 (int64_bound V_ASN1_NEG_INTEGER) = Some (Some (- (2 ^ 63))) \<and>
    ASN1_INTEGER_get_int64 (int64_bound V_ASN1_INTEGER) = Some None"
  using get_int64_exact [OF int64_bound_canonical [of V_ASN1_NEG_INTEGER]]
    get_int64_exact [OF int64_bound_canonical [of V_ASN1_INTEGER]]
  by (simp add: int_val_def int64_bound_def content_def block_def be_val_def)

text \<open>(C23) \<open>ASN1_INTEGER_set_int64\<close> and \<open>ASN1_ENUMERATED_set_int64\<close> store any 64-bit integer, \<open>INT64_MIN\<close> included, with no leading
  zero and no negative zero, and the getters give it back.\<close>

theorem set_int64_round_trip:
  assumes "malloc_total malloc" "str_ok a"
  shows "\<exists>b c. ASN1_INTEGER_set_int64 malloc a v = Some (1, b) \<and> canonical b \<and> int_val b = sint v \<and>
      ASN1_INTEGER_get_int64 b = Some (Some v) \<and>
    ASN1_ENUMERATED_set_int64 malloc a v = Some (1, c) \<and> canonical c \<and> int_val c = sint v \<and>
      ASN1_ENUMERATED_get_int64 c = Some (Some v)"
proof -
  have r: "- (2 ^ 63) \<le> sint v" "sint v < 2 ^ 63" using sint_greater_eq [of v] sint_less [of v] by simp_all
  obtain b where b: "ASN1_INTEGER_set_int64 malloc a v = Some (1, b)" "canonical b"
    "s_type b = (if sint v \<ge> 0 then V_ASN1_INTEGER else V_ASN1_NEG_INTEGER)" "int_val b = sint v"
    unfolding ASN1_INTEGER_set_int64_def ASN1_INTEGER_set_uint64_def
    by (rule set_int64_eq [OF assms, of V_ASN1_INTEGER V_ASN1_NEG_INTEGER v]) simp_all
  obtain c where c: "ASN1_ENUMERATED_set_int64 malloc a v = Some (1, c)" "canonical c"
    "s_type c = (if sint v \<ge> 0 then V_ASN1_ENUMERATED else V_ASN1_NEG_ENUMERATED)" "int_val c = sint v"
    unfolding ASN1_ENUMERATED_set_int64_def ASN1_ENUMERATED_set_uint64_def
    by (rule set_int64_eq [OF assms, of V_ASN1_ENUMERATED V_ASN1_NEG_ENUMERATED v]) simp_all
  have "ASN1_INTEGER_get_int64 b = Some (Some v)" "ASN1_ENUMERATED_get_int64 c = Some (Some v)"
    unfolding ASN1_INTEGER_get_int64_def ASN1_ENUMERATED_get_int64_def get_int64_eq [OF b(2)] get_int64_eq [OF c(2)]
    using r b(3,4) c(3,4) by simp_all
  with b c show ?thesis by blast
qed

theorem set_int64_round_trip_witness:
  "\<exists>b. ASN1_INTEGER_set_int64 (\<lambda>n. Some (replicate n 0)) minus_256 (- (2 ^ 63)) = Some (1, b) \<and> int_val b = - (2 ^ 63) \<and>
    ASN1_INTEGER_get_int64 b = Some (Some (- (2 ^ 63)))"
proof -
  have "sint (- (2 ^ 63) :: u64) = - (2 ^ 63)" by simp
  then show ?thesis using set_int64_round_trip [OF malloc_total_zero minus_256_ok(1), of "- (2 ^ 63)"] by auto
qed

text \<open>(C24) On INTEGERs as the setters leave them, whatever their lengths and signs, \<open>ASN1_INTEGER_cmp\<close> is the order of the
  values.\<close>

theorem integer_cmp_is_order:
  assumes "canonical x" "canonical y" "s_type x = V_ASN1_INTEGER \<or> s_type x = V_ASN1_NEG_INTEGER"
    "s_type y = V_ASN1_INTEGER \<or> s_type y = V_ASN1_NEG_INTEGER"
  shows "\<exists>r. ASN1_INTEGER_cmp x y = Some r \<and> (r < 0 \<longleftrightarrow> int_val x < int_val y) \<and> (0 < r \<longleftrightarrow> int_val y < int_val x)"
  by (rule integer_cmp_eq [OF assms]) blast

definition minus_1 :: asn1_string where
  "minus_1 = \<lparr>s_length = 1, s_type = V_ASN1_NEG_INTEGER, s_data = Some [1], s_flags = 0\<rparr>"

lemma minus_1_canonical: "canonical minus_1"
  by (simp add: canonical_def minus_1_def str_ok_def content_def block_def)

theorem integer_cmp_is_order_witness:
  "\<exists>r. ASN1_INTEGER_cmp (int64_bound V_ASN1_NEG_INTEGER) minus_1 = Some r \<and> r < 0"
  using integer_cmp_is_order [OF int64_bound_canonical [of V_ASN1_NEG_INTEGER] minus_1_canonical]
  by (auto simp: int_val_def int64_bound_def minus_1_def content_def block_def be_val_def)

end
