(* ===== verification/Asn1_Bits.thy ===== *)
theory Asn1_Bits
  imports Asn1_Integer_Spec
begin

text \<open>
  The BIT STRINGs of \<open>a_bitstr.c\<close>: reading accepts the DER contents and writing gives them back, and a string is an
  array of bits for \<open>ASN1_BIT_STRING_set_bit\<close> and \<open>ASN1_BIT_STRING_get_bit\<close>.
\<close>

section \<open>Bits\<close>











section \<open>Contents\<close>

text \<open>The DER contents of a BIT STRING: the number of padding bits, then the bytes, with the padding zero.\<close>

definition bits_content :: "u8 list \<Rightarrow> bool" where
  "bits_content bs \<longleftrightarrow> bs \<noteq> [] \<and> unat (hd bs) \<le> 7 \<and>
    (hd bs \<noteq> 0 \<longrightarrow> tl bs \<noteq> [] \<and> last bs AND (push_bit (unat (hd bs)) 1 - 1) = 0)"

lemma valid_bitstring_eq:
  assumes "cbs_ok s"
  shows "CBS_is_valid_asn1_bitstring s \<longleftrightarrow> bits_content (cbs_bytes s)"
proof (cases "cbs_bytes s")
  case Nil
  then show ?thesis using assms by (simp add: CBS_is_valid_asn1_bitstring_def CBS_get_u8_eq bits_content_def)
next
  case (Cons b bs)
  have g: "CBS_get_u8 s = (Some b, cbs_adv 1 s)" using assms Cons by (simp add: CBS_get_u8_eq)
  have l: "cbs_len s = Suc (length bs)" using assms Cons length_cbs_bytes [OF assms] by simp
  have t: "cbs_len (cbs_adv 1 s) = length bs" "cbs_ok (cbs_adv 1 s)" "cbs_bytes (cbs_adv 1 s) = bs"
    using l Cons cbs_ok_adv [OF assms, of 1] by simp_all
  have last: "CBS_get_last_u8 (cbs_adv 1 s) =
    (if bs = [] then (None, cbs_adv 1 s) else (Some (last bs), (cbs_adv 1 s)\<lparr>cbs_len := length bs - 1\<rparr>))"
  proof (cases "bs = []")
    case False
    then have "cbs_data (cbs_adv 1 s) ! (length bs - 1) = last bs"
      using cbs_data_nth [OF t(2), of "length bs - 1"] t by (simp add: last_conv_nth)
    then show ?thesis using False t(1) by (simp add: CBS_get_last_u8_def)
  qed (use t in \<open>simp add: CBS_get_last_u8_def\<close>)
  have "b > 7 \<longleftrightarrow> 7 < unat b" by (simp add: word_less_nat_alt)
  then show ?thesis unfolding CBS_is_valid_asn1_bitstring_def g prod.case option.case last
    by (auto simp: bits_content_def Cons)
qed

lemma flags_after_c2i:
  fixes fl :: int
  assumes "p \<le> 7"
  shows "((fl AND NOT (ASN1_STRING_FLAG_BITS_LEFT OR 0x07)) OR (ASN1_STRING_FLAG_BITS_LEFT OR int p)) AND ASN1_STRING_FLAG_BITS_LEFT \<noteq> 0"
    "((fl AND NOT (ASN1_STRING_FLAG_BITS_LEFT OR 0x07)) OR (ASN1_STRING_FLAG_BITS_LEFT OR int p)) AND 0x07 = int p"
proof -
  consider "p = 0" | "p = 1" | "p = 2" | "p = 3" | "p = 4" | "p = 5" | "p = 6" | "p = 7" using assms by linarith
  then show "((fl AND NOT (ASN1_STRING_FLAG_BITS_LEFT OR 0x07)) OR (ASN1_STRING_FLAG_BITS_LEFT OR int p)) AND ASN1_STRING_FLAG_BITS_LEFT \<noteq> 0"
    "((fl AND NOT (ASN1_STRING_FLAG_BITS_LEFT OR 0x07)) OR (ASN1_STRING_FLAG_BITS_LEFT OR int p)) AND 0x07 = int p"
    by (cases; simp add: bit.conj_disj_distrib2 and.assoc)+
qed

lemma padding_kept:
  fixes b :: u8
  assumes "b AND (push_bit k 1 - 1) = 0"
  shows "b AND push_bit k 0xff = b"
proof (rule bit_eqI)
  fix i
  assume "possible_bit TYPE(u8) i"
  have f: "(0xff :: u8) = mask 8" by (simp add: mask_eq_exp_minus_1)
  have "take_bit k b = 0" using assms by (simp add: take_bit_eq_mask mask_eq_exp_minus_1 push_bit_eq_mult)
  then have z: "\<not> bit b j" if "j < k" for j using that by (metis bit_take_bit_iff bit_0_eq bot_apply bot_bool_def)
  have "i < 8" if "bit b i" using that bit_imp_le_length [of b i] by simp
  then show "bit (b AND push_bit k 0xff) i \<longleftrightarrow> bit b i"
    unfolding f using z [of i] not_less [of i k] by (auto simp: bit_simps)
qed

lemma c2i_ASN1_BIT_STRING_eq:
  assumes m: "malloc_total malloc" and n: "n \<le> INT_MAX_nat" "n \<le> length pp" and bc: "bits_content (take n pp)"
  obtains ret where "c2i_ASN1_BIT_STRING malloc a pp (int n) =
      Some (Some ret, if a = None then None else Some (Some ret), drop n pp)"
    "s_length ret = int (n - 1)" "block (s_data ret) = take (n - 1) (tl pp)" "s_type ret = V_ASN1_BIT_STRING"
    "s_flags ret AND ASN1_STRING_FLAG_BITS_LEFT \<noteq> 0" "s_flags ret AND 0x07 = int (unat (hd pp))"
proof -
  obtain h r where pp: "pp = h # r" and pos: "1 \<le> n" using bc n(2) by (cases pp; cases n) (auto simp: bits_content_def)
  let ?d = "take (n - 1) r"
  have t: "take n pp = h # ?d" using pos by (cases n) (simp_all add: pp)
  have h: "unat h \<le> 7" using bc unfolding t bits_content_def by simp
  have pad: "\<not> (unat h \<noteq> 0 \<and> (n - 1 < 1 \<or> r ! (n - 1 - 1) AND (push_bit (unat h) 1 - 1) \<noteq> 0))"
  proof
    assume f: "unat h \<noteq> 0 \<and> (n - 1 < 1 \<or> r ! (n - 1 - 1) AND (push_bit (unat h) 1 - 1) \<noteq> 0)"
    then have "?d \<noteq> []" "last (h # ?d) AND (push_bit (unat h) 1 - 1) = 0" using bc unfolding t bits_content_def by auto
    moreover from this have "n - 1 - 1 < n - 1" by (cases n) auto
    then have "?d ! (n - 1 - 1) = r ! (n - 1 - 1)" by (rule nth_take)
    moreover have "length ?d = n - 1" using n(2) by (simp add: pp)
    ultimately have "last (h # ?d) = r ! (n - 1 - 1)" "last (h # ?d) AND (push_bit (unat h) 1 - 1) = 0" "?d \<noteq> []"
      by (simp_all add: last_conv_nth)
    then show False using f by auto
  qed
  obtain x where x: "OPENSSL_malloc malloc SIZEOF_ASN1_STRING = Some x"
    by (rule OPENSSL_malloc_gives [OF m, of SIZEOF_ASN1_STRING]) simp_all
  then have "(case a of Some (Some s) \<Rightarrow> Some s | _ \<Rightarrow> ASN1_BIT_STRING_new malloc) \<noteq> None"
    by (simp add: ASN1_BIT_STRING_new_def ASN1_STRING_type_new_def split: option.split)
  then obtain r0 where r0: "(case a of Some (Some s) \<Rightarrow> Some s | _ \<Rightarrow> ASN1_BIT_STRING_new malloc) = Some r0" by blast
  obtain dt where dt: "(if int (n - 1) > 0 then map_option Some (OPENSSL_memdup malloc r (n - 1)) else Some None) = Some dt" "block dt = ?d"
  proof (cases "n - 1 = 0")
    case True
    then show thesis using that [of None] by (simp add: block_def)
  next
    case False
    obtain new where "OPENSSL_malloc malloc (n - 1) = Some new" "length new = n - 1"
      by (rule OPENSSL_malloc_gives [OF m, of "n - 1"]) (use n(1) in simp_all)
    then show thesis using that [of "Some ?d"] False by (simp add: OPENSSL_memdup_def block_def)
  qed
  define fl where "fl = (s_flags r0 AND NOT (ASN1_STRING_FLAG_BITS_LEFT OR 0x07)) OR (ASN1_STRING_FLAG_BITS_LEFT OR int (unat h))"
  define ret where "ret = r0\<lparr>s_flags := fl, s_length := int (n - 1), s_data := dt, s_type := V_ASN1_BIT_STRING\<rparr>"
  have "c2i_ASN1_BIT_STRING malloc a pp (int n) = Some (Some ret, if a = None then None else Some (Some ret), drop n pp)"
  proof -
    obtain q where q: "n = Suc q" using pos by (cases n) auto
    have i: "\<not> int n < 1" "\<not> int n > int INT_MAX_nat" "int n - 1 = int q" "n - 1 = q" using n(1) by (simp_all add: q)
    have c: "\<not> (int (unat h) \<noteq> 0 \<and> (int q < 1 \<or> r ! (q - 1) AND (push_bit (unat h) 1 - 1) \<noteq> 0))"
      using pad unfolding of_nat_eq_0_iff i(4) by linarith
    have g: "\<not> int (unat h) > 7" using h by linarith
    have "c2i_ASN1_BIT_STRING malloc a pp (int n) =
      do { assert (n \<le> length pp);
           case (if int q > 0 then map_option Some (OPENSSL_memdup malloc r q) else Some None) of
             None \<Rightarrow> Some (None, case a of Some (Some s) \<Rightarrow> Some (Some (r0\<lparr>s_flags := fl\<rparr>)) | _ \<Rightarrow> a, pp)
           | Some s \<Rightarrow> let ret = r0\<lparr>s_flags := fl, s_length := int q, s_data := s, s_type := V_ASN1_BIT_STRING\<rparr>
               in Some (Some ret, if a = None then None else Some (Some ret), drop q r) }"
      unfolding c2i_ASN1_BIT_STRING_def if_not_P [OF i(1)] if_not_P [OF i(2)] r0 option.case Let_def i(3) pp list.sel nat_int
        if_not_P [OF g] if_not_P [OF c] fl_def [symmetric] ..
    then show ?thesis unfolding dt(1) [unfolded i(4)] using n(2) by (simp add: assert_def ret_def q pp Let_def)
  qed
  moreover have "s_flags ret AND ASN1_STRING_FLAG_BITS_LEFT \<noteq> 0" "s_flags ret AND 0x07 = int (unat (hd pp))"
    using flags_after_c2i [OF h, of "s_flags r0"] unfolding fl_def [symmetric] by (simp_all add: ret_def pp)
  ultimately show thesis using dt(2) by (intro that [of ret]) (simp_all add: ret_def pp)
qed

lemma c2i_ASN1_BIT_STRING_rejects:
  assumes m: "malloc_total malloc" and n: "n \<le> INT_MAX_nat" "n \<le> length pp" and bc: "\<not> bits_content (take n pp)"
  shows "c2i_ASN1_BIT_STRING malloc a pp (int n) = Some (None, a, pp)"
proof (cases n)
  case 0
  then show ?thesis by (simp add: c2i_ASN1_BIT_STRING_def)
next
  case (Suc q)
  then obtain h r where pp: "pp = h # r" using n(2) by (cases pp) auto
  obtain x where x: "OPENSSL_malloc malloc SIZEOF_ASN1_STRING = Some x"
    by (rule OPENSSL_malloc_gives [OF m, of SIZEOF_ASN1_STRING]) simp_all
  obtain r0 where r0: "(case a of Some (Some s) \<Rightarrow> Some s | _ \<Rightarrow> ASN1_BIT_STRING_new malloc) = Some r0"
    "(case a of Some (Some s) \<Rightarrow> Some (Some r0) | _ \<Rightarrow> a) = a"
  proof (cases "\<exists>s. a = Some (Some s)")
    case True
    then show thesis using that by auto
  next
    case False
    then have "\<exists>r0. (case a of Some (Some s) \<Rightarrow> Some s | _ \<Rightarrow> ASN1_BIT_STRING_new malloc) = Some r0"
      "(case a of Some (Some s) \<Rightarrow> Some (Some r0) | _ \<Rightarrow> a) = a" for r0
      using x by (auto simp: ASN1_BIT_STRING_new_def ASN1_STRING_type_new_def split: option.splits)
    then show thesis using that by blast
  qed
  have i: "\<not> int n < 1" "\<not> int n > int INT_MAX_nat" "int n - 1 = int q" using n(1) by (simp_all add: Suc)
  have "int (unat h) > 7 \<or> (int (unat h) \<noteq> 0 \<and> (int q < 1 \<or> r ! (q - 1) AND (push_bit (unat h) 1 - 1) \<noteq> 0))"
  proof (cases "unat h \<le> 7")
    case True
    have t: "take n pp = h # take q r" by (simp add: pp Suc)
    have h: "h \<noteq> 0" "take q r = [] \<or> last (h # take q r) AND (push_bit (unat h) 1 - 1) \<noteq> 0"
      using bc True unfolding t by (auto simp: bits_content_def)
    have z: "int (unat h) \<noteq> 0" unfolding of_nat_eq_0_iff using h(1) by (simp add: unat_eq_0)
    have l: "length (take q r) = q" using n(2) by (simp add: pp Suc)
    show ?thesis
    proof (cases "q = 0")
      case False
      then have "last (h # take q r) = r ! (q - 1)" using l by (cases "take q r = []") (simp_all add: last_conv_nth)
      then show ?thesis using h(2) z l False by auto
    qed (use z in simp)
  next
    case False
    then have "int 7 < int (unat h)" by (simp only: of_nat_less_iff not_le)
    then show ?thesis by simp
  qed
  moreover have "c2i_ASN1_BIT_STRING malloc a pp (int n) =
    (if int (unat h) > 7 then Some (None, a, pp)
     else if int (unat h) \<noteq> 0 \<and> (int q < 1 \<or> r ! (q - 1) AND (push_bit (unat h) 1 - 1) \<noteq> 0) then Some (None, a, pp)
     else c2i_ASN1_BIT_STRING malloc a pp (int n))"
  proof -
    have as: "assert (nat (int n) \<le> length (h # r)) = Some ()" using n(2) by (simp add: assert_def pp)
    show ?thesis
      unfolding c2i_ASN1_BIT_STRING_def if_not_P [OF i(1)] if_not_P [OF i(2)] r0(1) option.case Let_def i(3) pp list.sel nat_int
        as [unfolded nat_int] Option.bind.simps r0(2) by (simp only: split: if_split) simp
  qed
  ultimately show ?thesis by presburger
qed

lemma i2c_ASN1_BIT_STRING_eq:
  assumes n: "n \<le> INT_MAX_nat" and bs: "length bs = n" "bits_content bs"
    and a: "s_length a = int (n - 1)" "block (s_data a) = tl bs"
      "s_flags a AND ASN1_STRING_FLAG_BITS_LEFT \<noteq> 0" "s_flags a AND 0x07 = int (unat (hd bs))"
  shows "i2c_ASN1_BIT_STRING (Some a) None = Some (int n, None)"
    "n \<le> length p \<Longrightarrow> i2c_ASN1_BIT_STRING (Some a) (Some p) = Some (int n, Some (bs @ drop n p))"
proof -
  obtain h d where b: "bs = h # d" using bs(2) by (cases bs) (auto simp: bits_content_def)
  obtain q where q: "n = Suc q" "length d = q" using bs(1) by (simp add: b)
  have l: "asn1_bit_string_length a = Some (int q, int (unat h))"
  proof (cases "q = 0")
    case True
    then have "h = 0" using bs(2) q by (auto simp: bits_content_def b)
    then show ?thesis using a True q by (simp add: asn1_bit_string_length_def)
  next
    case False
    then show ?thesis using a q unfolding b by (simp add: asn1_bit_string_length_def)
  qed
  have big: "\<not> int q > int INT_MAX_nat - 1" using n q by simp
  show "i2c_ASN1_BIT_STRING (Some a) None = Some (int n, None)"
    unfolding i2c_ASN1_BIT_STRING_def option.case l using big q by simp
  assume p: "n \<le> length p"
  have last: "d[q - 1 := d ! (q - 1) AND push_bit (unat h) 0xff] = d" if "q > 0"
  proof -
    have "last bs = d ! (q - 1)" using that q by (cases "d = []") (simp_all add: b last_conv_nth)
    then have "d ! (q - 1) AND (push_bit (unat h) 1 - 1) = 0" using bs(2) unfolding bits_content_def by (cases "h = 0") (simp_all add: b)
    then show ?thesis by (simp only: padding_kept list_update_id)
  qed
  have w: "(word_of_int (int (unat h)) :: u8) = h" "nat (int (unat h)) = unat h" "int q > 0 \<longleftrightarrow> q > 0" "nat (int q) = q"
    "nat (1 + int q) = n" "1 + int q = int n"
    using q by simp_all
  have t: "take q (block (s_data a)) = d" using a(2) q by (simp add: b)
  have "0 \<le> int q \<and> q \<le> length (block (s_data a)) \<and> q < length p" using p q a(2) by (simp add: b)
  then have ok: "assert (0 \<le> int q \<and> q \<le> length (block (s_data a)) \<and> q < length p) = Some ()" by (simp add: assert_def)
  have c: "(if q > 0 then d[q - 1 := d ! (q - 1) AND push_bit (unat h) 0xff] else d) = d" using last by simp
  have "i2c_ASN1_BIT_STRING (Some a) (Some p) = Some (int n, Some (h # d @ drop n p))"
    unfolding i2c_ASN1_BIT_STRING_def option.case l Option.bind.simps prod.case if_not_P [OF big] Let_def w t ok c nat_int ..
  then show "i2c_ASN1_BIT_STRING (Some a) (Some p) = Some (int n, Some (bs @ drop n p))" by (simp add: b)
qed

section \<open>Properties\<close>

text \<open>(C22) The old parser of BIT STRINGs and the one of \<open>cbs.c\<close> agree: \<open>c2i_ASN1_BIT_STRING\<close> accepts \<open>n\<close> bytes exactly when
  \<open>CBS_is_valid_asn1_bitstring\<close> does.  It then advances the input by \<open>n\<close>, and \<open>i2c_ASN1_BIT_STRING\<close> writes the same bytes
  back, padding included; otherwise nothing changes.\<close>

theorem bit_string_round_trip:
  assumes "malloc_total malloc" "n \<le> INT_MAX_nat" "n \<le> length pp"
  shows "if CBS_is_valid_asn1_bitstring (CBS_init pp n)
    then \<exists>ret. c2i_ASN1_BIT_STRING malloc a pp (int n) =
        Some (Some ret, if a = None then None else Some (Some ret), drop n pp) \<and>
      i2c_ASN1_BIT_STRING (Some ret) None = Some (int n, None) \<and>
      (\<forall>p. n \<le> length p \<longrightarrow> i2c_ASN1_BIT_STRING (Some ret) (Some p) = Some (int n, Some (take n pp @ drop n p)))
    else c2i_ASN1_BIT_STRING malloc a pp (int n) = Some (None, a, pp)"
proof -
  have v: "CBS_is_valid_asn1_bitstring (CBS_init pp n) \<longleftrightarrow> bits_content (take n pp)"
    using valid_bitstring_eq [of "CBS_init pp n"] assms(2,3) by simp
  show ?thesis
  proof (cases "bits_content (take n pp)")
    case True
    obtain ret where r: "c2i_ASN1_BIT_STRING malloc a pp (int n) =
        Some (Some ret, if a = None then None else Some (Some ret), drop n pp)"
      "s_length ret = int (n - 1)" "block (s_data ret) = take (n - 1) (tl pp)" "s_type ret = V_ASN1_BIT_STRING"
      "s_flags ret AND ASN1_STRING_FLAG_BITS_LEFT \<noteq> 0" "s_flags ret AND 0x07 = int (unat (hd pp))"
      by (rule c2i_ASN1_BIT_STRING_eq [OF assms True])
    have "0 < n" using True by (cases n) (auto simp: bits_content_def)
    then have t: "take (n - 1) (tl pp) = tl (take n pp)" "hd pp = hd (take n pp)" by (simp_all add: tl_take)
    have l: "length (take n pp) = n" using assms(3) by simp
    note w = i2c_ASN1_BIT_STRING_eq [OF assms(2) l True r(2) r(3) [unfolded t(1)] r(5) r(6) [unfolded t(2)]]
    then show ?thesis using r(1) True unfolding v by (intro if_P [THEN iffD2] exI [of _ ret]) auto
  next
    case False
    have "c2i_ASN1_BIT_STRING malloc a pp (int n) = Some (None, a, pp)" by (rule c2i_ASN1_BIT_STRING_rejects [OF assms False])
    then show ?thesis using False unfolding v by simp
  qed
qed

theorem bit_string_round_trip_witness:
  "c2i_ASN1_BIT_STRING (\<lambda>n. Some (replicate n 0)) None [3, 0xb8, 7] 2 \<noteq> Some (None, None, [3, 0xb8, 7]) \<and>
    c2i_ASN1_BIT_STRING (\<lambda>n. Some (replicate n 0)) None [4, 0xb8, 7] 2 = Some (None, None, [4, 0xb8, 7])"
proof -
  have m: "malloc_total (\<lambda>n. Some (replicate n 0))" by (simp add: malloc_total_def malloc_ok_def)
  have "CBS_is_valid_asn1_bitstring (CBS_init [3, 0xb8, 7] 2)" "\<not> CBS_is_valid_asn1_bitstring (CBS_init [4, 0xb8, 7] 2)"
    by (simp_all add: valid_bitstring_eq bits_content_def)
  then show ?thesis using bit_string_round_trip [OF m, of 2 "[3, 0xb8, 7]" None] bit_string_round_trip [OF m, of 2 "[4, 0xb8, 7]" None]
    by auto
qed





end
