(* ===== verification/Posix_Time.thy ===== *)
theory Posix_Time
  imports C_Prelude
begin

text \<open>
  \<open>crypto/asn1/posix_time.c\<close>: conversion between POSIX seconds and broken-down UTC
  time, as used for certificate validity dates.  C's \<open>int\<close>, \<open>int64_t\<close> and \<open>time_t\<close>
  values are HOL integers here and \<open>/\<close>, \<open>%\<close> are the truncating \<open>sdiv\<close> and \<open>smod\<close>; the
  bounds lemmas show that no 64-bit computation leaves its range.  \<open>time_t\<close> is the
  64-bit one of the target.
\<close>

section \<open>The code\<close>

abbreviation SECS_PER_HOUR :: int where "SECS_PER_HOUR \<equiv> 60 * 60"
abbreviation SECS_PER_DAY :: int where "SECS_PER_DAY \<equiv> 24 * SECS_PER_HOUR"

text \<open>\<open>struct tm\<close>.\<close>

record tm =
  tm_sec :: int
  tm_min :: int
  tm_hour :: int
  tm_mday :: int
  tm_mon :: int
  tm_year :: int
  tm_wday :: int
  tm_yday :: int
  tm_isdst :: int

definition zero_tm :: tm where
  "zero_tm = \<lparr>tm_sec = 0, tm_min = 0, tm_hour = 0, tm_mday = 0, tm_mon = 0, tm_year = 0,
     tm_wday = 0, tm_yday = 0, tm_isdst = 0\<rparr>"

definition is_valid_date :: "int \<Rightarrow> int \<Rightarrow> int \<Rightarrow> bool" where
  "is_valid_date year month day =
    (if day < 1 \<or> month < 1 \<or> year < 0 \<or> year > 9999 then False
     else if month = 1 \<or> month = 3 \<or> month = 5 \<or> month = 7 \<or> month = 8 \<or> month = 10 \<or> month = 12
       then day > 0 \<and> day \<le> 31
     else if month = 4 \<or> month = 6 \<or> month = 9 \<or> month = 11
       then day > 0 \<and> day \<le> 30
     else if month = 2
       then (if (year smod 4 = 0 \<and> year smod 100 \<noteq> 0) \<or> year smod 400 = 0
             then day > 0 \<and> day \<le> 29
             else day > 0 \<and> day \<le> 28)
     else False)"

definition is_valid_time :: "int \<Rightarrow> int \<Rightarrow> int \<Rightarrow> bool" where
  "is_valid_time hours minutes seconds =
    (if hours < 0 \<or> minutes < 0 \<or> seconds < 0 \<or> hours > 23 \<or> minutes > 59 \<or> seconds > 59
     then False else True)"

definition is_valid_epoch_time :: "int \<Rightarrow> bool" where
  "is_valid_epoch_time time \<longleftrightarrow> -62167219200 \<le> time \<and> time \<le> 253402300799"

definition posix_time_from_utc ::
  "int \<Rightarrow> int \<Rightarrow> int \<Rightarrow> int \<Rightarrow> int \<Rightarrow> int \<Rightarrow> int option" where
  "posix_time_from_utc year month day hours minutes seconds =
    (if \<not> is_valid_date year month day \<or> \<not> is_valid_time hours minutes seconds then None
     else
       let year = (if month \<le> 2 then year - 1 else year);
           era = (if year \<ge> 0 then year else year - 399) sdiv 400;
           year_of_era = year - era * 400;
           day_of_year = (153 * (if month > 2 then month - 3 else month + 9) + 2) sdiv 5 + day - 1;
           day_of_era = year_of_era * 365 + year_of_era sdiv 4 - year_of_era sdiv 100 + day_of_year;
           posix_days = era * 146097 + day_of_era - 719468
       in Some (posix_days * SECS_PER_DAY + hours * SECS_PER_HOUR + minutes * 60 + seconds))"

definition utc_from_posix_time ::
  "int \<Rightarrow> (int \<times> int \<times> int \<times> int \<times> int \<times> int) option" where
  "utc_from_posix_time time =
    (if \<not> is_valid_epoch_time time then None
     else
       let days = time sdiv SECS_PER_DAY;
           leftover_seconds = time smod SECS_PER_DAY;
           (days, leftover_seconds) =
             (if leftover_seconds < 0 then (days - 1, leftover_seconds + SECS_PER_DAY)
              else (days, leftover_seconds));
           days = days + 719468;
           era = (if days > 0 then days else days - 146096) sdiv 146097;
           day_of_era = days - era * 146097;
           year_of_era = (day_of_era - day_of_era sdiv 1460 + day_of_era sdiv 36524
                          - day_of_era sdiv 146096) sdiv 365;
           year = year_of_era + era * 400;
           day_of_year = day_of_era
             - (365 * year_of_era + year_of_era sdiv 4 - year_of_era sdiv 100);
           month_of_year = (5 * day_of_year + 2) sdiv 153;
           month = (if month_of_year < 10 then month_of_year + 3 else month_of_year - 9);
           year = (if month \<le> 2 then year + 1 else year);
           day = day_of_year - (153 * month_of_year + 2) sdiv 5 + 1;
           hours = leftover_seconds sdiv SECS_PER_HOUR;
           leftover_seconds = leftover_seconds smod SECS_PER_HOUR;
           minutes = leftover_seconds sdiv 60;
           seconds = leftover_seconds smod 60
       in Some (year, month, day, hours, minutes, seconds))"

definition OPENSSL_tm_to_posix :: "tm \<Rightarrow> int option" where
  "OPENSSL_tm_to_posix t =
    posix_time_from_utc (tm_year t + 1900) (tm_mon t + 1) (tm_mday t) (tm_hour t) (tm_min t) (tm_sec t)"

definition OPENSSL_posix_to_tm :: "int \<Rightarrow> tm option" where
  "OPENSSL_posix_to_tm time =
    (case utc_from_posix_time time of
       None \<Rightarrow> None
     | Some (y, mo, d, h, mi, s) \<Rightarrow>
         Some (zero_tm\<lparr>tm_year := y - 1900, tm_mon := mo - 1, tm_mday := d,
                 tm_hour := h, tm_min := mi, tm_sec := s\<rparr>))"

text \<open>With the 64-bit \<open>time_t\<close> of the target the 32-bit range check is dead code.\<close>

definition OPENSSL_timegm :: "tm \<Rightarrow> int option" where
  "OPENSSL_timegm t =
    (case OPENSSL_tm_to_posix t of None \<Rightarrow> None | Some posix_time \<Rightarrow> Some posix_time)"

definition OPENSSL_gmtime :: "int \<Rightarrow> tm option" where
  "OPENSSL_gmtime time = OPENSSL_posix_to_tm time"

definition OPENSSL_gmtime_adj :: "tm \<Rightarrow> int \<Rightarrow> int \<Rightarrow> tm option" where
  "OPENSSL_gmtime_adj t off_day offset_sec =
    (case posix_time_from_utc (tm_year t + 1900) (tm_mon t + 1) (tm_mday t)
            (tm_hour t) (tm_min t) (tm_sec t) of
       None \<Rightarrow> None
     | Some posix_time \<Rightarrow>
         (case utc_from_posix_time (posix_time + off_day * SECS_PER_DAY + offset_sec) of
            None \<Rightarrow> None
          | Some (y, mo, d, h, mi, s) \<Rightarrow>
              Some (t\<lparr>tm_year := y - 1900, tm_mon := mo - 1, tm_mday := d,
                      tm_hour := h, tm_min := mi, tm_sec := s\<rparr>)))"

definition OPENSSL_gmtime_diff :: "tm \<Rightarrow> tm \<Rightarrow> (int \<times> int) option" where
  "OPENSSL_gmtime_diff from to =
    (case posix_time_from_utc (tm_year to + 1900) (tm_mon to + 1) (tm_mday to)
            (tm_hour to) (tm_min to) (tm_sec to) of
       None \<Rightarrow> None
     | Some time_to \<Rightarrow>
    (case posix_time_from_utc (tm_year from + 1900) (tm_mon from + 1) (tm_mday from)
            (tm_hour from) (tm_min from) (tm_sec from) of
       None \<Rightarrow> None
     | Some time_from \<Rightarrow>
         let timediff = time_to - time_from;
             daydiff = timediff sdiv SECS_PER_DAY;
             timediff = timediff smod SECS_PER_DAY
         in if daydiff > 2147483647 \<or> daydiff < -2147483648 then None
            else Some (daydiff, timediff)))"

section \<open>Truncating division where the operands have a known sign\<close>

lemma sdiv_nonneg: "0 \<le> (a :: int) \<Longrightarrow> 0 < b \<Longrightarrow> a sdiv b = a div b"
  by (cases "a = 0") (simp_all add: signed_divide_int_def)

lemma smod_nonneg: "0 \<le> (a :: int) \<Longrightarrow> 0 < b \<Longrightarrow> a smod b = a mod b"
  by (cases "a = 0") (simp_all add: signed_modulo_int_def)

lemma sdiv_neg: "(a :: int) < 0 \<Longrightarrow> 0 < b \<Longrightarrow> a sdiv b = - ((- a) div b)"
  by (simp add: signed_divide_int_def)

lemma smod_neg: "(a :: int) < 0 \<Longrightarrow> 0 < b \<Longrightarrow> a smod b = - ((- a) mod b)"
  by (simp add: signed_modulo_int_def sdiv_neg minus_div_mult_eq_mod [symmetric])

text \<open>The code's way to round towards minus infinity.\<close>

lemma floor_divmod:
  fixes t b :: int
  assumes "0 < b"
  shows "(if t smod b < 0 then (t sdiv b - 1, t smod b + b) else (t sdiv b, t smod b))
         = (t div b, t mod b)"
proof (cases "t < 0")
  case False
  with assms show ?thesis
    by (simp add: sdiv_nonneg smod_nonneg not_less)
next
  case True
  show ?thesis
  proof (cases "(- t) mod b = 0")
    case True
    then have "b dvd t" by (simp add: mod_eq_0_iff_dvd)
    then obtain k where k: "t = b * k" ..
    then have "- t = b * (- k)" by simp
    then have "(- t) div b = - k"
      using assms by (simp only: nonzero_mult_div_cancel_left)
    with k assms \<open>t < 0\<close> show ?thesis
      using True by (simp add: sdiv_neg smod_neg)
  next
    case False
    have "0 < (- t) mod b"
      using False assms by (simp add: order_less_le)
    then show ?thesis
      using \<open>t < 0\<close> assms False zdiv_zminus1_eq_if [of b "- t"] zmod_zminus1_eq_if [of "- t" b]
      by (simp add: sdiv_neg smod_neg)
  qed
qed


section \<open>The calendar: eras of 400 years that start on 1 March\<close>

text \<open>Year \<open>y\<close> of an era starts on day \<open>year_start y\<close>; only the fourth, not the hundredth,
  but the four-hundredth year has the extra day, its last.\<close>

definition year_start :: "int \<Rightarrow> int" where
  "year_start y = 365 * y + y div 4 - y div 100"

definition long_year :: "int \<Rightarrow> bool" where
  "long_year y \<longleftrightarrow> ((y + 1) mod 4 = 0 \<and> (y + 1) mod 100 \<noteq> 0) \<or> (y + 1) mod 400 = 0"

definition year_length :: "int \<Rightarrow> int" where
  "year_length y = (if long_year y then 366 else 365)"

definition month_start :: "int \<Rightarrow> int" where
  "month_start m = (153 * m + 2) div 5"

lemma div_eqI:
  fixes e n k :: int
  assumes "n * k \<le> e" "e < n * k + n"
  shows "e div n = k"
proof -
  have "e = n * k + (e - n * k)" by simp
  then show ?thesis
    using assms by (intro int_div_pos_eq [of e n k "e - n * k"]) simp_all
qed

lemma year_of_era_decomp:
  fixes y :: int
  assumes "0 \<le> y" "y < 400"
  obtains c q r where "y = 100 * c + 4 * q + r" "0 \<le> c" "c \<le> 3" "0 \<le> q" "q \<le> 24" "0 \<le> r" "r \<le> 3"
    "y div 4 = 25 * c + q" "y div 100 = c"
proof -
  define c where "c = y div 100"
  define s where "s = y mod 100"
  define q where "q = s div 4"
  define r where "r = s mod 4"
  have y: "y = 100 * c + s" and s: "s = 4 * q + r" "0 \<le> s" "s \<le> 99" and r: "0 \<le> r" "r \<le> 3"
    by (simp_all add: c_def s_def q_def r_def)
  from s r have q: "0 \<le> q" "q \<le> 24" by linarith+
  from y s assms have c: "0 \<le> c" "c \<le> 3" by linarith+
  have "y div 4 = 25 * c + q" using y s r by simp
  then show thesis
    by (intro that [of c q r]) (use y s q c r in \<open>simp_all add: c_def [symmetric]\<close>)
qed

lemma year_of_era_correct:
  fixes y d :: int
  assumes "0 \<le> y" "y < 400" "0 \<le> d" "d < year_length y"
  defines "e \<equiv> year_start y + d"
  shows "(e - e div 1460 + e div 36524 - e div 146096) div 365 = y"
proof -
  obtain c q r where y: "y = 100 * c + 4 * q + r" and c: "0 \<le> c" "c \<le> 3"
    and q: "0 \<le> q" "q \<le> 24" and r: "0 \<le> r" "r \<le> 3"
    and dv: "y div 4 = 25 * c + q" "y div 100 = c"
    using year_of_era_decomp [OF assms(1,2)] by metis
  have e: "e = 36524 * c + 1461 * q + 365 * r + d"
  proof -
    have "e = 365 * y + (25 * c + q) - c + d"
      by (simp only: e_def year_start_def dv)
    with y show ?thesis by simp
  qed
  have d: "d \<le> 365" "d = 365 \<Longrightarrow> r = 3 \<and> (q = 24 \<longrightarrow> c = 3)"
  proof -
    show "d \<le> 365" using assms(4) by (auto simp: year_length_def split: if_splits)
    assume "d = 365"
    then have "long_year y" using assms(4) by (auto simp: year_length_def split: if_splits)
    then have long: "(y + 1) mod 4 = 0" "(y + 1) mod 100 \<noteq> 0 \<or> (y + 1) mod 400 = 0"
      unfolding long_year_def by (auto simp: mod_eq_0_iff_dvd elim: dvd_trans [rotated])
    have "y + 1 = 4 * (25 * c + q) + (r + 1)" using y by simp
    moreover have "(4 * k + m) mod 4 = 0 \<Longrightarrow> m mod 4 = 0" for k m :: int by presburger
    ultimately have "(r + 1) mod 4 = 0" using long(1) by metis
    with r have "r = 3" by presburger
    moreover have "c = 3" if "q = 24"
    proof -
      from y \<open>r = 3\<close> that have y1: "y + 1 = 100 * (c + 1)" by simp
      with long(2) have "(100 * (c + 1)) mod 400 = 0" by simp
      moreover have "c = 0 \<or> c = 1 \<or> c = 2 \<or> c = 3" using c by linarith
      ultimately show "c = 3" by auto
    qed
    ultimately show "r = 3 \<and> (q = 24 \<longrightarrow> c = 3)" by blast
  qed
  have rd: "365 * r + d \<le> 1460" using r d(1) by linarith
  let ?last = "c = 3 \<and> q = 24 \<and> r = 3 \<and> d = 365"
  have small: "1461 * q + 365 * r + d < 36524" if "\<not> ?last"
    using that c q r d by (cases "d = 365"; cases "q = 24") linarith+
  have b: "e div 36524 = c + (if ?last then 1 else 0)"
  proof (cases ?last)
    case False
    from small [OF False] have "36524 * c \<le> e" "e < 36524 * c + 36524"
      using q r assms(3) by (simp_all add: e)
    then show ?thesis unfolding if_not_P [OF False] by (intro div_eqI) simp_all
  qed (simp add: e)
  have l: "e div 146096 = (if ?last then 1 else 0)"
  proof (cases ?last)
    case False
    from small [OF False] have "0 \<le> e" "e < 146096"
      using c q r assms(3) by (simp_all add: e)
    then show ?thesis unfolding if_not_P [OF False] by (intro div_eqI) simp_all
  qed (simp add: e)
  have ea: "e = 1460 * (25 * c + q) + (24 * c + q + 365 * r + d)" by (simp add: e)
  have "0 \<le> 24 * c + q + 365 * r + d" "24 * c + q + 365 * r + d < 2920"
    using rd c q r assms(3) by linarith+
  then have a: "e div 1460 = 25 * c + q + (if 1460 \<le> 24 * c + q + 365 * r + d then 1 else 0)"
    by (intro div_eqI) (simp_all add: ea)
  have ae: "24 * c + q + 365 * r + d < 1460" if "d = 0"
    using that c q r by linarith
  have be: "1460 \<le> 24 * c + q + 365 * r + d" if "d = 365"
    using that c q d(2) by simp
  have "e - e div 1460 + e div 36524 - e div 146096
      = 365 * y + d - (if 1460 \<le> 24 * c + q + 365 * r + d then 1 else 0)"
    unfolding a b l by (simp add: e y)
  moreover have "0 \<le> d - (if 1460 \<le> 24 * c + q + 365 * r + d then 1 else 0)"
    using ae assms(3) by (cases "d = 0") simp_all
  moreover have "d - (if 1460 \<le> 24 * c + q + 365 * r + d then 1 else 0) < 365"
    using be d(1) by (cases "d = 365") simp_all
  ultimately show ?thesis by (intro div_eqI) linarith+
qed


lemma year_start_400 [simp]: "year_start 0 = 0" "year_start 400 = 146096"
  by (simp_all add: year_start_def)

lemma long_year_mod: "long_year (y mod 400) = long_year y"
proof -
  have "(y mod 400 + 1) mod k = (y + 1) mod k" if "k dvd 400" for k :: int
    using that by (metis mod_add_left_eq mod_mod_cancel)
  then show ?thesis by (simp add: long_year_def)
qed

lemma div_succ:
  fixes y k :: int
  assumes "0 < k"
  shows "(y + 1) div k = y div k + (if (y + 1) mod k = 0 then 1 else 0)"
proof (cases "y mod k = k - 1")
  case True
  then have "y + 1 = k * (y div k) + k"
    using mult_div_mod_eq [of k y] by linarith
  then have "y + 1 = k * (y div k + 1)"
    by (simp add: distrib_left)
  then have "(y + 1) div k = y div k + 1" "(y + 1) mod k = 0"
    using assms by (metis nonzero_mult_div_cancel_left less_irrefl, simp)
  then show ?thesis by simp
next
  case False
  have "y + 1 = k * (y div k) + (y mod k + 1)"
    using mult_div_mod_eq [of k y] by simp
  moreover have "0 \<le> y mod k + 1" "y mod k + 1 < k" "0 < y mod k + 1"
    using False assms pos_mod_bound [OF assms, of y] pos_mod_sign [OF assms, of y] by linarith+
  ultimately have "(y + 1) div k = y div k" "(y + 1) mod k = y mod k + 1"
    using int_div_pos_eq int_mod_pos_eq by blast+
  then show ?thesis
    using \<open>0 < y mod k + 1\<close> by simp
qed

lemma year_start_Suc:
  assumes "0 \<le> y" "y < 399"
  shows "year_start (y + 1) = year_start y + year_length y"
proof -
  have not400: "\<not> (y + 1) mod 400 = 0" using assms by simp
  have imp: "(y + 1) mod 100 = 0 \<Longrightarrow> (y + 1) mod 4 = 0"
    by (auto simp: mod_eq_0_iff_dvd elim: dvd_trans [rotated])
  have "\<not> P400 \<Longrightarrow> (P100 \<Longrightarrow> P4) \<Longrightarrow> (if (P4 \<and> \<not> P100) \<or> P400 then 366 else 365)
      = 365 + (if P4 then 1 else 0) - (if P100 then 1 else (0 :: int))" for P4 P100 P400
    by auto
  from this [OF not400 imp] have ylen: "year_length y =
      365 + (if (y + 1) mod 4 = 0 then 1 else 0) - (if (y + 1) mod 100 = 0 then 1 else 0)"
    unfolding year_length_def long_year_def .
  have d4: "(y + 1) div 4 = y div 4 + (if (y + 1) mod 4 = 0 then 1 else 0)"
    by (rule div_succ) simp
  have d100: "(y + 1) div 100 = y div 100 + (if (y + 1) mod 100 = 0 then 1 else 0)"
    by (rule div_succ) simp
  have "365 * (y + 1) + (a + i) - (b + j) = 365 * y + a - b + (365 + i - j)" for a b i j :: int
    by simp
  then show ?thesis
    unfolding ylen year_start_def d4 d100 .
qed

lemma year_exists_below:
  assumes "n \<le> 399" "0 \<le> e" "e < year_start (int n)"
  shows "\<exists>y d. 0 \<le> y \<and> y < int n \<and> 0 \<le> d \<and> d < year_length y \<and> e = year_start y + d"
  using assms
proof (induction n)
  case (Suc n)
  show ?case
  proof (cases "e < year_start (int n)")
    case True
    with Suc obtain y d where "0 \<le> y" "y < int n" "0 \<le> d" "d < year_length y" "e = year_start y + d"
      by auto
    then show ?thesis by (intro exI [of _ y] exI [of _ d]) simp
  next
    case False
    then show ?thesis
      using Suc.prems year_start_Suc [of "int n"]
      by (intro exI [of _ "int n"] exI [of _ "e - year_start (int n)"]) (simp add: add.commute)
  qed
qed simp

lemma year_exists:
  assumes "0 \<le> e" "e < 146097"
  obtains y d where "0 \<le> y" "y < 400" "0 \<le> d" "d < year_length y" "e = year_start y + d"
proof (cases "e < year_start 399")
  case True
  then show ?thesis
    using year_exists_below [of 399 e] assms that by force
next
  case False
  then show ?thesis
    by (intro that [of 399 "e - year_start 399"])
      (use assms in \<open>simp_all add: year_start_def year_length_def long_year_def\<close>)
qed

lemma div_bounds:
  fixes e n :: int
  assumes "0 < n"
  shows "n * (e div n) \<le> e" "e < n * (e div n) + n"
proof -
  have "n * (e div n) + e mod n = e" by (rule mult_div_mod_eq)
  then show "n * (e div n) \<le> e" "e < n * (e div n) + n"
    using pos_mod_sign [OF assms, of e] pos_mod_bound [OF assms, of e] by linarith+
qed

lemma month_start_bounds: "5 * month_start m \<le> 153 * m + 2" "153 * m + 2 < 5 * month_start m + 5"
  unfolding month_start_def by (rule div_bounds; simp)+

lemma month_of_day:
  fixes doy m :: int
  assumes "0 \<le> doy" "doy < 366" "m = (5 * doy + 2) div 153"
  shows "0 \<le> m" "m \<le> 11" "month_start m \<le> doy" "doy < month_start (m + 1)"
proof -
  have m: "153 * m \<le> 5 * doy + 2" "5 * doy + 2 < 153 * m + 153"
    unfolding assms(3) by (rule div_bounds; simp)+
  with assms(1,2) show "0 \<le> m" "m \<le> 11" by linarith+
  from m show "month_start m \<le> doy"
    using month_start_bounds [of m] by linarith
  have "5 * (doy + 1) < 5 * (month_start (m + 1) + 1)"
    using m month_start_bounds [of "m + 1"] by simp
  then show "doy < month_start (m + 1)" by simp
qed

lemma month_of_day_unique:
  fixes m doy :: int
  assumes "month_start m \<le> doy" "doy < month_start (m + 1)"
  shows "(5 * doy + 2) div 153 = m"
proof (rule div_eqI)
  show "153 * m \<le> 5 * doy + 2"
    using assms(1) month_start_bounds [of m] by linarith
  have "5 * (doy + 1) \<le> 153 * (m + 1) + 2"
    using assms(2) month_start_bounds [of "m + 1"] by simp
  then show "5 * doy + 2 < 153 * m + 153" by simp
qed

section \<open>The conversions over the calendar\<close>

text \<open>The length of a month of the civil calendar, and the two views of a date.\<close>

definition leap_year :: "int \<Rightarrow> bool" where
  "leap_year y \<longleftrightarrow> (y mod 4 = 0 \<and> y mod 100 \<noteq> 0) \<or> y mod 400 = 0"

definition days_in_month :: "int \<Rightarrow> int \<Rightarrow> int" where
  "days_in_month y m =
    (if m = 2 then (if leap_year y then 29 else 28)
     else if m = 4 \<or> m = 6 \<or> m = 9 \<or> m = 11 then 30 else 31)"

text \<open>The date after a date, for stating what the conversion counts.\<close>

definition next_day :: "int \<Rightarrow> int \<Rightarrow> int \<Rightarrow> int \<times> int \<times> int" where
  "next_day y m d =
    (if d < days_in_month y m then (y, m, d + 1) else if m < 12 then (y, m + 1, 1) else (y + 1, 1, 1))"

lemma is_valid_date_iff:
  "is_valid_date y m d \<longleftrightarrow>
    0 \<le> y \<and> y \<le> 9999 \<and> 1 \<le> m \<and> m \<le> 12 \<and> 1 \<le> d \<and> d \<le> days_in_month y m"
proof (cases "0 \<le> y")
  case True
  have "m = 1 \<or> m = 2 \<or> m = 3 \<or> m = 4 \<or> m = 5 \<or> m = 6 \<or> m = 7 \<or> m = 8 \<or> m = 9 \<or> m = 10
      \<or> m = 11 \<or> m = 12" if "1 \<le> m" "m \<le> 12"
    using that by presburger
  with True show ?thesis
    by (auto simp: is_valid_date_def days_in_month_def leap_year_def smod_nonneg)
qed (simp add: is_valid_date_def)

lemma is_valid_time_iff:
  "is_valid_time h mi s \<longleftrightarrow> 0 \<le> h \<and> h \<le> 23 \<and> 0 \<le> mi \<and> mi \<le> 59 \<and> 0 \<le> s \<and> s \<le> 59"
  by (auto simp: is_valid_time_def)

definition march_year :: "int \<Rightarrow> int \<Rightarrow> int" where
  "march_year y m = (if m \<le> 2 then y - 1 else y)"

definition march_month :: "int \<Rightarrow> int" where
  "march_month m = (if m > 2 then m - 3 else m + 9)"

text \<open>Days since 1 March of year 0.\<close>

definition day_number :: "int \<Rightarrow> int \<Rightarrow> int \<Rightarrow> int" where
  "day_number y m d =
    146097 * (march_year y m div 400) + year_start (march_year y m mod 400)
    + month_start (march_month m) + d - 1"

lemma long_march_year: "m = 2 \<Longrightarrow> long_year (march_year y m mod 400) = leap_year y"
  by (simp add: long_year_mod) (simp add: long_year_def leap_year_def march_year_def)

lemma march_date_in_year:
  assumes "1 \<le> m" "m \<le> 12" "1 \<le> d" "d \<le> days_in_month y m"
  shows "0 \<le> march_month m" "march_month m \<le> 11"
    "0 \<le> month_start (march_month m) + d - 1"
    "month_start (march_month m) + d - 1 < month_start (march_month m + 1)"
    "month_start (march_month m) + d - 1 < year_length (march_year y m mod 400)"
proof -
  have m: "m = 1 \<or> m = 2 \<or> m = 3 \<or> m = 4 \<or> m = 5 \<or> m = 6 \<or> m = 7 \<or> m = 8 \<or> m = 9 \<or> m = 10
      \<or> m = 11 \<or> m = 12"
    using assms(1,2) by presburger
  show "0 \<le> march_month m" "march_month m \<le> 11"
    using assms(1,2) by (auto simp: march_month_def)
  then show "0 \<le> month_start (march_month m) + d - 1"
    using assms(3) by (simp add: month_start_def)
  show "month_start (march_month m) + d - 1 < month_start (march_month m + 1)"
    using m assms(4) by (elim disjE) (simp_all add: march_month_def month_start_def days_in_month_def
        split: if_splits)
  show "month_start (march_month m) + d - 1 < year_length (march_year y m mod 400)"
    using m assms(4) long_march_year [of m y]
    by (elim disjE) (simp_all add: march_month_def month_start_def days_in_month_def year_length_def
        split: if_splits)
qed

lemma posix_time_from_utc_eq:
  "posix_time_from_utc y m d h mi s =
    (if is_valid_date y m d \<and> is_valid_time h mi s
     then Some ((day_number y m d - 719468) * 86400 + h * 3600 + mi * 60 + s) else None)"
proof (cases "is_valid_date y m d \<and> is_valid_time h mi s")
  case True
  then have v: "0 \<le> y" "y \<le> 9999" "1 \<le> m" "m \<le> 12" "1 \<le> d" "d \<le> days_in_month y m"
    by (auto simp: is_valid_date_iff)
  define y' where "y' = march_year y m"
  have y': "-1 \<le> y'" using v by (simp add: y'_def march_year_def)
  have era: "(if 0 \<le> y' then y' else y' - 399) sdiv 400 = y' div 400"
  proof (cases "0 \<le> y'")
    case False
    with y' have "y' = -1" by simp
    then show ?thesis by simp
  qed (simp add: sdiv_nonneg)
  have yoe: "y' - y' div 400 * 400 = y' mod 400"
    by (simp add: minus_div_mult_eq_mod)
  have "(153 * march_month m + 2) sdiv 5 = month_start (march_month m)"
    using march_date_in_year(1) [OF v(3-6)] by (simp add: month_start_def sdiv_nonneg)
  moreover have "(y' mod 400) sdiv 4 = (y' mod 400) div 4" "(y' mod 400) sdiv 100 = (y' mod 400) div 100"
    by (simp_all add: sdiv_nonneg)
  moreover have "31536000 * y' = 12614400000 * (y' div 400) + 31536000 * (y' mod 400)"
    using mult_div_mod_eq [of 400 y'] by linarith
  ultimately show ?thesis
    using True
    by (simp add: posix_time_from_utc_def march_year_def [symmetric] march_month_def [symmetric]
        y'_def [symmetric] era yoe day_number_def year_start_def Let_def)
qed (auto simp: posix_time_from_utc_def)

text \<open>The date part of \<open>utc_from_posix_time\<close>, with floor division.\<close>

definition civil_of_days :: "int \<Rightarrow> int \<times> int \<times> int" where
  "civil_of_days n =
    (let era = n div 146097; doe = n mod 146097;
         yoe = (doe - doe div 1460 + doe div 36524 - doe div 146096) div 365;
         doy = doe - year_start yoe;
         mp = (5 * doy + 2) div 153;
         m = (if mp < 10 then mp + 3 else mp - 9);
         y = yoe + era * 400
     in (if m \<le> 2 then y + 1 else y, m, doy - month_start mp + 1))"

lemma day_of_era_range:
  assumes "0 \<le> yoe" "yoe < 400" "0 \<le> doy" "doy < year_length yoe"
  shows "0 \<le> year_start yoe + doy" "year_start yoe + doy < 146097"
proof -
  have q: "yoe div 4 \<le> 99" "0 \<le> yoe div 4" "0 \<le> yoe div 100" "yoe div 100 \<le> 3"
    using assms(1,2) by simp_all
  have "yoe div 100 \<le> yoe"
    using assms(1) int_div_less_self [of yoe 100] by (cases "yoe = 0") simp_all
  note q = q this
  show "0 \<le> year_start yoe + doy"
    using assms(1,3) q unfolding year_start_def by linarith
  show "year_start yoe + doy < 146097"
  proof (cases "yoe = 399")
    case True
    with assms(4) show ?thesis by (simp add: year_start_def year_length_def long_year_def)
  next
    case False
    with assms(2,4) have "yoe \<le> 398" "doy \<le> 365"
      by (simp_all add: year_length_def split: if_splits)
    then show ?thesis using q unfolding year_start_def by linarith
  qed
qed

lemma day_before_last_year:
  assumes "0 \<le> yoe" "yoe < 399" "doy < year_length yoe"
  shows "year_start yoe + doy < 145735"
proof -
  have "yoe div 4 \<le> 99" "0 \<le> yoe div 100" "yoe \<le> 398" "doy \<le> 365"
    using assms by (simp_all add: year_length_def split: if_splits)
  then show ?thesis unfolding year_start_def by linarith
qed

lemma civil_of_days_parts:
  assumes "0 \<le> yoe" "yoe < 400" "0 \<le> doy" "doy < year_length yoe"
  shows "civil_of_days (146097 * era + (year_start yoe + doy)) =
    (let mp = (5 * doy + 2) div 153; m = (if mp < 10 then mp + 3 else mp - 9); y = yoe + era * 400
     in (if m \<le> 2 then y + 1 else y, m, doy - month_start mp + 1))"
proof -
  let ?doe = "year_start yoe + doy"
  have doe: "0 \<le> ?doe" "?doe < 146097"
    using day_of_era_range [OF assms] .
  have dm: "(146097 * era + ?doe) div 146097 = era" "(146097 * era + ?doe) mod 146097 = ?doe"
    using doe by (auto intro: int_div_pos_eq int_mod_pos_eq)
  have yoe: "(?doe - ?doe div 1460 + ?doe div 36524 - ?doe div 146096) div 365 = yoe"
    by (rule year_of_era_correct [OF assms])
  show ?thesis
    unfolding civil_of_days_def Let_def dm yoe by (simp only: add_diff_cancel_left')
qed

lemma civil_of_day_number:
  assumes "1 \<le> m" "m \<le> 12" "1 \<le> d" "d \<le> days_in_month y m"
  shows "civil_of_days (day_number y m d) = (y, m, d)"
proof -
  note md = march_date_in_year [OF assms]
  define yoe where "yoe = march_year y m mod 400"
  define doy where "doy = month_start (march_month m) + d - 1"
  have mp: "(5 * doy + 2) div 153 = march_month m"
    using md(1,4) assms(3) by (intro month_of_day_unique) (simp_all add: doy_def)
  have "day_number y m d = 146097 * (march_year y m div 400) + (year_start yoe + doy)"
    by (simp add: day_number_def yoe_def doy_def)
  moreover have "yoe + march_year y m div 400 * 400 = march_year y m"
    by (simp add: yoe_def)
  ultimately show ?thesis
    using md assms civil_of_days_parts [of yoe doy]
    by (simp add: mp Let_def yoe_def [symmetric] doy_def [symmetric])
      (auto simp: march_month_def march_year_def doy_def)
qed


lemma day_number_of_civil:
  assumes "civil_of_days n = (y, m, d)"
  shows "day_number y m d = n" "1 \<le> m" "m \<le> 12" "1 \<le> d" "d \<le> days_in_month y m"
proof -
  define era where "era = n div 146097"
  have n: "n = 146097 * era + n mod 146097" by (simp add: era_def)
  obtain yoe doy where yd: "0 \<le> yoe" "yoe < 400" "0 \<le> doy" "doy < year_length yoe"
    and e: "n mod 146097 = year_start yoe + doy"
    using year_exists [of "n mod 146097"] by auto
  define mp where "mp = (5 * doy + 2) div 153"
  have "doy < 366" using yd(4) by (simp add: year_length_def split: if_splits)
  note mp = month_of_day [OF yd(3) this mp_def]
  have c: "y = (if m \<le> 2 then yoe + era * 400 + 1 else yoe + era * 400)"
    "m = (if mp < 10 then mp + 3 else mp - 9)" "d = doy - month_start mp + 1"
    using assms civil_of_days_parts [OF yd, of era] n e by (auto simp: Let_def mp_def)
  from c(2) mp show m: "1 \<le> m" "m \<le> 12" by auto
  have my: "march_year y m = yoe + era * 400" and mm: "march_month m = mp"
    using c mp by (auto simp: march_year_def march_month_def)
  have "march_year y m div 400 = era" "march_year y m mod 400 = yoe"
    using yd(1,2) by (simp_all add: my)
  then show "day_number y m d = n"
    using n e c(3) by (simp add: day_number_def mm)
  from c(3) mp show "1 \<le> d" by simp
  have mpc: "mp = 0 \<or> mp = 1 \<or> mp = 2 \<or> mp = 3 \<or> mp = 4 \<or> mp = 5 \<or> mp = 6 \<or> mp = 7 \<or> mp = 8
      \<or> mp = 9 \<or> mp = 10 \<or> mp = 11"
    using mp(1,2) by presburger
  have leap: "m = 2 \<Longrightarrow> long_year yoe = leap_year y"
    using long_march_year [of m y] \<open>march_year y m mod 400 = yoe\<close> by simp
  show "d \<le> days_in_month y m"
    using mpc mp(4) yd(4) c(2,3) leap
    by (elim disjE) (simp_all add: days_in_month_def month_start_def year_length_def split: if_splits)
qed

lemma era_floor:
  fixes n :: int
  assumes "-146097 \<le> n"
  shows "(if n > 0 then n else n - 146096) sdiv 146097 = n div 146097"
proof (cases "0 < n")
  case False
  show ?thesis
  proof (cases "n = 0")
    case False
    with \<open>\<not> 0 < n\<close> have n: "n < 0" by simp
    have "(146096 - n) div 146097 = 1" by (rule div_eqI) (use n assms in simp_all)
    moreover have "n div 146097 = -1" by (rule div_eqI) (use n assms in simp_all)
    ultimately show ?thesis using n by (simp add: sdiv_neg)
  qed simp
qed (simp add: sdiv_nonneg)

lemma epoch_day_range:
  "is_valid_epoch_time t \<longleftrightarrow> -719528 \<le> t div 86400 \<and> t div 86400 \<le> 2932896"
proof
  assume t: "is_valid_epoch_time t"
  have "-62167219200 div 86400 \<le> t div 86400" "t div 86400 \<le> 253402300799 div 86400"
    using t by (auto simp: is_valid_epoch_time_def intro!: zdiv_mono1)
  then show "-719528 \<le> t div 86400 \<and> t div 86400 \<le> 2932896" by simp
next
  assume d: "-719528 \<le> t div 86400 \<and> t div 86400 \<le> 2932896"
  have "t = 86400 * (t div 86400) + t mod 86400" by simp
  moreover have "0 \<le> t mod 86400" "t mod 86400 < 86400" by simp_all
  ultimately show "is_valid_epoch_time t"
    using d unfolding is_valid_epoch_time_def by linarith
qed

lemma utc_from_posix_time_eq:
  "utc_from_posix_time t =
    (if is_valid_epoch_time t
     then case civil_of_days (t div 86400 + 719468) of (y, m, d) \<Rightarrow>
       Some (y, m, d, t mod 86400 div 3600, t mod 86400 mod 3600 div 60, t mod 86400 mod 3600 mod 60)
     else None)"
proof (cases "is_valid_epoch_time t")
  case True
  define n where "n = t div 86400 + 719468"
  define doe where "doe = n mod 146097"
  have "-719528 \<le> t div 86400"
    using True epoch_day_range by blast
  then have "-146097 \<le> n" by (simp add: n_def)
  note era = era_floor [OF this]
  have era': "n - n div 146097 * 146097 = doe" by (simp add: doe_def minus_div_mult_eq_mod)
  obtain yoe doy where yd: "0 \<le> yoe" "yoe < 400" "0 \<le> doy" "doy < year_length yoe"
    and e: "doe = year_start yoe + doy"
    using year_exists [of doe] by (auto simp: doe_def)
  have y: "(doe - doe div 1460 + doe div 36524 - doe div 146096) div 365 = yoe"
    unfolding e by (rule year_of_era_correct [OF yd])
  have doe0: "0 \<le> doe" by (simp add: doe_def)
  have ys: "(doe - doe sdiv 1460 + doe sdiv 36524 - doe sdiv 146096) sdiv 365 = yoe"
  proof -
    have "0 \<le> doe - doe div 1460 + doe div 36524 - doe div 146096"
      using y yd(1) pos_imp_zdiv_nonneg_iff [of 365 "doe - doe div 1460 + doe div 36524 - doe div 146096"]
      by simp
    then show ?thesis using y doe0 by (simp add: sdiv_nonneg)
  qed
  have "doy < 366" using yd(4) by (simp add: year_length_def split: if_splits)
  note mp = month_of_day [OF yd(3) this refl]
  have dy: "doe - (365 * yoe + yoe sdiv 4 - yoe sdiv 100) = doy"
    using yd(1) by (simp add: e year_start_def sdiv_nonneg)
  have ms: "(5 * doy + 2) sdiv 153 = (5 * doy + 2) div 153"
    using yd(3) by (simp add: sdiv_nonneg)
  have mst: "(153 * ((5 * doy + 2) div 153) + 2) sdiv 5 = month_start ((5 * doy + 2) div 153)"
    using mp(1) by (simp add: month_start_def sdiv_nonneg)
  have r: "0 \<le> t mod 86400" "0 \<le> t mod 86400 mod 3600" by simp_all
  have tm: "t mod 86400 sdiv 3600 = t mod 86400 div 3600" "t mod 86400 smod 3600 = t mod 86400 mod 3600"
    "t mod 86400 mod 3600 sdiv 60 = t mod 86400 mod 3600 div 60"
    "t mod 86400 mod 3600 smod 60 = t mod 86400 mod 3600 mod 60"
    using r by (simp_all add: sdiv_nonneg smod_nonneg)
  have fl: "(if t smod 86400 < 0 then (t sdiv 86400 - 1, t smod 86400 + 86400)
      else (t sdiv 86400, t smod 86400)) = (t div 86400, t mod 86400)"
    by (rule floor_divmod) simp
  have secs: "SECS_PER_HOUR = 3600" "24 * (3600 :: int) = 86400" by simp_all
  have c: "civil_of_days n =
      (let m = (if (5 * doy + 2) div 153 < 10 then (5 * doy + 2) div 153 + 3 else (5 * doy + 2) div 153 - 9)
       in (if m \<le> 2 then yoe + n div 146097 * 400 + 1 else yoe + n div 146097 * 400, m,
           doy - month_start ((5 * doy + 2) div 153) + 1))"
    unfolding civil_of_days_def Let_def doe_def [symmetric] y
    unfolding e by (simp only: add_diff_cancel_left')
  show ?thesis
    unfolding utc_from_posix_time_def Let_def secs fl prod.case n_def [symmetric] era era' ys dy ms mst tm c
    using True by (simp only: if_True if_False not_True_eq_False prod.case)
qed (simp add: utc_from_posix_time_def)

lemma day_number_range:
  assumes "is_valid_date y m d"
  shows "-60 \<le> day_number y m d" "day_number y m d \<le> 3652364"
proof -
  have v: "0 \<le> y" "y \<le> 9999" "1 \<le> m" "m \<le> 12" "1 \<le> d" "d \<le> days_in_month y m"
    using assms by (auto simp: is_valid_date_iff)
  note md = march_date_in_year [OF v(3-6)]
  define y' where "y' = march_year y m"
  define doy where "doy = month_start (march_month m) + d - 1"
  have n: "day_number y m d = 146097 * (y' div 400) + (year_start (y' mod 400) + doy)"
    by (simp add: day_number_def y'_def doy_def)
  note de = day_of_era_range [of "y' mod 400" doy]
  have doe: "0 \<le> year_start (y' mod 400) + doy" "year_start (y' mod 400) + doy < 146097"
    using de md by (simp_all add: y'_def doy_def)
  have y': "-1 \<le> y'" "y' \<le> 9999" using v by (simp_all add: y'_def march_year_def)
  show "-60 \<le> day_number y m d"
  proof (cases "y' = -1")
    case True
    then have "y' div 400 = -1" "y' mod 400 = 399" by simp_all
    moreover have "m \<le> 2" using True v(1) by (simp add: y'_def march_year_def split: if_splits)
    then have "306 \<le> doy"
      using v(3,5) by (cases "m = 1"; cases "m = 2") (simp_all add: doy_def march_month_def month_start_def)
    ultimately show ?thesis by (simp add: n year_start_def)
  next
    case False
    then have "0 \<le> y' div 400" using y' by simp
    then show ?thesis using doe(1) unfolding n by linarith
  qed
  show "day_number y m d \<le> 3652364"
  proof (cases "9600 \<le> y'")
    case False
    then have "y' div 400 \<le> 23" by simp
    then show ?thesis using doe(2) unfolding n by linarith
  next
    case True
    then have era: "y' div 400 = 24" using y' by (intro div_eqI) simp_all
    show ?thesis
    proof (cases "y' = 9999")
      case True
      then have "m \<ge> 3" using v(2) by (simp add: y'_def march_year_def split: if_splits)
      then have "march_month m \<le> 9" using v(4) by (simp add: march_month_def)
      then have "month_start (march_month m + 1) \<le> 306"
        by (simp add: month_start_def)
      then have "doy \<le> 305" using md(4) by (simp add: doy_def)
      then show ?thesis using True by (simp add: n era year_start_def)
    next
      case False
      have "y' = 400 * (y' div 400) + y' mod 400" by simp
      then have "y' mod 400 = y' - 9600" using era by linarith
      then have "0 \<le> y' mod 400" "y' mod 400 < 399" using False y' True by linarith+
      then have "year_start (y' mod 400) + doy < 145735"
        using md by (intro day_before_last_year) (simp_all add: doy_def y'_def)
      then show ?thesis by (simp add: n era)
    qed
  qed
qed

lemma civil_year_range:
  assumes "-60 \<le> n" "n \<le> 3652364" "civil_of_days n = (y, m, d)"
  shows "0 \<le> y" "y \<le> 9999"
proof -
  note dn = day_number_of_civil [OF assms(3)]
  note md = march_date_in_year [OF dn(2-5)]
  define y' where "y' = march_year y m"
  define doy where "doy = month_start (march_month m) + d - 1"
  have n: "n = 146097 * (y' div 400) + (year_start (y' mod 400) + doy)"
    using dn(1) by (simp add: day_number_def y'_def doy_def)
  have doe: "0 \<le> year_start (y' mod 400) + doy" "year_start (y' mod 400) + doy < 146097"
    using day_of_era_range [of "y' mod 400" doy] md by (simp_all add: y'_def doy_def)
  have "146097 * (-1) \<le> 146097 * (y' div 400) + 146096" "146097 * (y' div 400) \<le> 146097 * 25 - 1"
    using n doe assms(1,2) by linarith+
  then have era: "-1 \<le> y' div 400" "y' div 400 \<le> 24" by linarith+
  have y': "y' = 400 * (y' div 400) + y' mod 400" by simp
  have r: "0 \<le> y' mod 400" "y' mod 400 < 400" by simp_all
  have late: "m \<le> 2" if "306 \<le> doy"
  proof (rule ccontr)
    assume "\<not> m \<le> 2"
    then have "march_month m \<le> 9" using dn(3) by (simp add: march_month_def)
    then have "month_start (march_month m + 1) \<le> 306" by (simp add: month_start_def)
    with md(4) that show False by (simp add: doy_def)
  qed
  have early: "m \<ge> 3" if "doy \<le> 305"
  proof (rule ccontr)
    assume "\<not> m \<ge> 3"
    then have "10 \<le> march_month m" using dn(2) by (simp add: march_month_def)
    then have "306 \<le> month_start (march_month m)" by (simp add: month_start_def)
    with that dn(4) show False by (simp add: doy_def)
  qed
  have last: "y' mod 400 = 399 \<and> 306 \<le> doy" if big: "146037 \<le> year_start (y' mod 400) + doy"
  proof -
    have "\<not> y' mod 400 < 399"
    proof
      assume "y' mod 400 < 399"
      then have "year_start (y' mod 400) + doy < 145735"
        using md r by (intro day_before_last_year) (simp_all add: doy_def y'_def)
      with big show False by simp
    qed
    with r have "y' mod 400 = 399" by linarith
    with big show ?thesis by (simp add: year_start_def)
  qed
  show "0 \<le> y"
  proof (cases "0 \<le> y' div 400")
    case True
    then have "0 \<le> y'" using y' r by linarith
    then show ?thesis by (simp add: y'_def march_year_def split: if_splits)
  next
    case False
    then have e: "y' div 400 = -1" using era by simp
    then have "y' mod 400 = 399 \<and> 306 \<le> doy" using last n assms(1) by simp
    then have "y' = -1" "m \<le> 2" using late y' e by (linarith, blast)
    then show ?thesis by (simp add: y'_def march_year_def)
  qed
  show "y \<le> 9999"
  proof (cases "y' = 9999")
    case True
    then have "doy \<le> 305"
      using n assms(2) by (simp add: year_start_def)
    then show ?thesis using early True by (simp add: y'_def march_year_def)
  next
    case False
    then have "y' \<le> 9998" using y' era r by linarith
    then show ?thesis by (simp add: y'_def march_year_def split: if_splits)
  qed
qed


section \<open>Conversion and its inverse\<close>

lemma from_utc_inverse:
  assumes "posix_time_from_utc y m d h mi s = Some t"
  shows "utc_from_posix_time t = Some (y, m, d, h, mi, s)"
proof -
  from assms have v: "is_valid_date y m d" and vt: "is_valid_time h mi s"
    and t: "t = (day_number y m d - 719468) * 86400 + (h * 3600 + mi * 60 + s)"
    by (auto simp: posix_time_from_utc_eq split: if_splits)
  define r where "r = h * 3600 + mi * 60 + s"
  have b: "0 \<le> h" "h \<le> 23" "0 \<le> mi" "mi \<le> 59" "0 \<le> s" "s \<le> 59"
    using vt by (auto simp: is_valid_time_iff)
  have r: "0 \<le> r" "r < 86400" using b by (simp_all add: r_def)
  have td: "t div 86400 = day_number y m d - 719468"
    by (rule div_eqI) (use r in \<open>simp_all add: t r_def [symmetric]\<close>)
  have tm: "t mod 86400 = r"
    using td minus_mult_div_eq_mod [of t 86400] by (simp add: t r_def)
  have h: "r div 3600 = h" by (rule div_eqI) (use b in \<open>simp_all add: r_def\<close>)
  have rm: "r mod 3600 = mi * 60 + s"
    using h minus_mult_div_eq_mod [of r 3600] by (simp add: r_def)
  have mi: "(mi * 60 + s) div 60 = mi" by (rule div_eqI) (use b in simp_all)
  have s: "s mod 60 = s" using b by simp
  have "is_valid_epoch_time t"
    using day_number_range [OF v] by (simp add: epoch_day_range td)
  moreover have "civil_of_days (t div 86400 + 719468) = (y, m, d)"
    using v civil_of_day_number by (simp add: td is_valid_date_iff)
  ultimately show ?thesis
    by (simp add: utc_from_posix_time_eq tm h rm mi s)
qed

lemma from_posix_inverse:
  assumes "utc_from_posix_time t = Some (y, m, d, h, mi, s)"
  shows "posix_time_from_utc y m d h mi s = Some t"
proof -
  have v: "is_valid_epoch_time t"
    using assms by (simp add: utc_from_posix_time_eq split: if_splits)
  obtain y' m' d' where c': "civil_of_days (t div 86400 + 719468) = (y', m', d')"
    by (cases "civil_of_days (t div 86400 + 719468)")
  have "Some (y', m', d', t mod 86400 div 3600, t mod 86400 mod 3600 div 60, t mod 86400 mod 3600 mod 60)
      = Some (y, m, d, h, mi, s)"
    using assms v by (simp only: utc_from_posix_time_eq c' if_True prod.case)
  then have hms: "h = t mod 86400 div 3600" "mi = t mod 86400 mod 3600 div 60"
      "s = t mod 86400 mod 3600 mod 60"
    and c: "civil_of_days (t div 86400 + 719468) = (y, m, d)"
    unfolding c' option.inject prod.inject by blast+
  note dn = day_number_of_civil [OF c]
  have "is_valid_date y m d"
    using dn v civil_year_range [OF _ _ c] by (simp add: is_valid_date_iff epoch_day_range)
  moreover have "is_valid_time h mi s"
  proof -
    define u where "u = t mod 86400"
    have "0 \<le> u" "u < 86400" by (simp_all add: u_def)
    then have "0 \<le> u div 3600" "u div 3600 \<le> 23" by simp_all
    moreover have "0 \<le> u mod 3600" "u mod 3600 < 3600" by simp_all
    then have "0 \<le> u mod 3600 div 60" "u mod 3600 div 60 \<le> 59" by simp_all
    moreover have "0 \<le> u mod 3600 mod 60" "u mod 3600 mod 60 < 60" by simp_all
    ultimately show ?thesis
      unfolding is_valid_time_iff hms u_def [symmetric] by linarith
  qed
  moreover have "(t div 86400) * 86400 + h * 3600 + mi * 60 + s = t"
  proof -
    have "h * 3600 + t mod 86400 mod 3600 = t mod 86400" unfolding hms by (rule div_mult_mod_eq)
    moreover have "mi * 60 + s = t mod 86400 mod 3600" unfolding hms by (rule div_mult_mod_eq)
    moreover have "t div 86400 * 86400 + t mod 86400 = t" by (rule div_mult_mod_eq)
    ultimately show ?thesis by linarith
  qed
  ultimately show ?thesis
    by (simp add: posix_time_from_utc_eq dn(1))
qed

lemma day_number_next_month:
  assumes "1 \<le> m" "m \<le> 12" "d = days_in_month y m"
  shows "day_number (if m = 12 then y + 1 else y) (if m = 12 then 1 else m + 1) 1 = day_number y m d + 1"
proof (cases "m = 2")
  case True
  define y' where "y' = y - 1"
  have y: "y = y' + 1" by (simp add: y'_def)
  define k where "k = y' mod 400"
  have k: "0 \<le> k" "k < 400" by (simp_all add: k_def)
  have y'e: "y' = 400 * (y' div 400) + k" by (simp add: k_def)
  have leap: "leap_year y = long_year k"
    using long_march_year [of 2 y] by (simp add: march_year_def k_def y)
  have d: "337 + d = year_length k"
    using True assms(3) leap by (simp add: days_in_month_def year_length_def)
  show ?thesis
  proof (cases "k = 399")
    case True
    with y'e have "y' + 1 = 400 * (y' div 400 + 1)" by simp
    then have "(y' + 1) div 400 = y' div 400 + 1" "(y' + 1) mod 400 = 0" by (simp_all only: mod_mult_self1_is_0 nonzero_mult_div_cancel_left)
    moreover have "d = 29" using d True by (simp add: year_length_def long_year_def)
    ultimately show ?thesis
      using \<open>m = 2\<close> True by (simp add: day_number_def march_year_def march_month_def month_start_def y
          k_def [symmetric] year_start_def)
  next
    case False
    have "(y' + 1) div 400 = y' div 400" by (rule div_eqI) (use y'e k False in simp_all)
    moreover from this have "(y' + 1) mod 400 = k + 1"
      using minus_mult_div_eq_mod [of "y' + 1" 400] y'e by simp
    moreover have "year_start (k + 1) = year_start k + year_length k"
      using k False by (intro year_start_Suc) simp_all
    ultimately show ?thesis
      using \<open>m = 2\<close> d by (simp add: day_number_def march_year_def march_month_def month_start_def y
          k_def [symmetric])
  qed
next
  case False
  have "m = 1 \<or> m = 3 \<or> m = 4 \<or> m = 5 \<or> m = 6 \<or> m = 7 \<or> m = 8 \<or> m = 9 \<or> m = 10
      \<or> m = 11 \<or> m = 12"
    using False assms(1,2) by presburger
  then have "march_year (if m = 12 then y + 1 else y) (if m = 12 then 1 else m + 1) = march_year y m"
    "month_start (march_month (if m = 12 then 1 else m + 1)) = month_start (march_month m) + d"
    using assms(3) by (auto simp: march_year_def march_month_def month_start_def days_in_month_def)
  then show ?thesis by (simp only: day_number_def)
qed

lemma utc_from_posix_time_None: "\<not> is_valid_epoch_time t \<Longrightarrow> utc_from_posix_time t = None"
  by (simp add: utc_from_posix_time_eq)

lemma is_valid_epoch_posix:
  "posix_time_from_utc y m d h mi s = Some t \<Longrightarrow> is_valid_epoch_time t"
  using from_utc_inverse [of y m d h mi s t] utc_from_posix_time_None [of t] by fastforce

lemma utc_total: "is_valid_epoch_time t \<Longrightarrow> \<exists>y m d h mi s. utc_from_posix_time t = Some (y, m, d, h, mi, s)"
  by (simp add: utc_from_posix_time_eq split: prod.split)

lemma tm_to_posix_of_utc:
  assumes "utc_from_posix_time p = Some (y, mo, d, h, mi, s)"
  shows "OPENSSL_tm_to_posix (t\<lparr>tm_year := y - 1900, tm_mon := mo - 1, tm_mday := d,
    tm_hour := h, tm_min := mi, tm_sec := s\<rparr>) = Some p"
  using from_posix_inverse [OF assms] by (simp add: OPENSSL_tm_to_posix_def)

lemma gmtime_adj_exact:
  assumes "OPENSSL_tm_to_posix t = Some p" and q_def: "q = p + off_day * 86400 + offset_sec"
  shows "if is_valid_epoch_time q
     then \<exists>t'. OPENSSL_gmtime_adj t off_day offset_sec = Some t' \<and> OPENSSL_tm_to_posix t' = Some q
     else OPENSSL_gmtime_adj t off_day offset_sec = None"
proof (cases "is_valid_epoch_time q")
  case False
  then have "utc_from_posix_time q = None" by (rule utc_from_posix_time_None)
  with False show ?thesis
    using assms(1) by (simp add: OPENSSL_gmtime_adj_def OPENSSL_tm_to_posix_def q_def)
next
  case True
  from utc_total [OF this] obtain y m d h mi s where u: "utc_from_posix_time q = Some (y, m, d, h, mi, s)"
    by blast
  with True show ?thesis
    using assms(1) tm_to_posix_of_utc [OF u, of t]
    by (simp add: OPENSSL_gmtime_adj_def OPENSSL_tm_to_posix_def q_def)
qed

section \<open>Properties\<close>

text \<open>
  A broken-down time that converts at all is recovered from its POSIX time: every valid
  date and time of day from year 0 to year 9999 survives \<open>OPENSSL_tm_to_posix\<close> followed by
  \<open>OPENSSL_posix_to_tm\<close>, which leaves the fields it does not compute at zero.
\<close>

theorem tm_posix_roundtrip:
  assumes "OPENSSL_tm_to_posix t = Some p"
  shows "OPENSSL_posix_to_tm p = Some (t\<lparr>tm_wday := 0, tm_yday := 0, tm_isdst := 0\<rparr>)"
proof -
  have "utc_from_posix_time p =
      Some (tm_year t + 1900, tm_mon t + 1, tm_mday t, tm_hour t, tm_min t, tm_sec t)"
    using assms by (intro from_utc_inverse) (simp add: OPENSSL_tm_to_posix_def)
  then show ?thesis by (simp add: OPENSSL_posix_to_tm_def zero_tm_def)
qed

theorem tm_posix_roundtrip_witness:
  "OPENSSL_tm_to_posix (zero_tm\<lparr>tm_year := 100, tm_mon := 1, tm_mday := 29\<rparr>) = Some 951782400 \<and>
   OPENSSL_posix_to_tm 951782400 = Some (zero_tm\<lparr>tm_year := 100, tm_mon := 1, tm_mday := 29\<rparr>)"
proof -
  have h: "OPENSSL_tm_to_posix (zero_tm\<lparr>tm_year := 100, tm_mon := 1, tm_mday := 29\<rparr>) = Some 951782400"
    by (simp add: OPENSSL_tm_to_posix_def posix_time_from_utc_def is_valid_date_def is_valid_time_def
        zero_tm_def signed_divide_int_def signed_modulo_int_def)
  show ?thesis using h tm_posix_roundtrip [OF h] by (simp add: zero_tm_def)
qed

text \<open>
  (C21) \<open>OPENSSL_posix_to_tm\<close> accepts exactly the times from 0000-01-01 00:00:00 to
  9999-12-31 23:59:59, and what it returns converts back to the same time.
\<close>

theorem posix_tm_roundtrip:
  "if -62167219200 \<le> p \<and> p \<le> 253402300799
   then \<exists>t. OPENSSL_posix_to_tm p = Some t \<and> OPENSSL_tm_to_posix t = Some p
   else OPENSSL_posix_to_tm p = None"
proof (cases "is_valid_epoch_time p")
  case True
  from utc_total [OF this] obtain y m d h mi s where u: "utc_from_posix_time p = Some (y, m, d, h, mi, s)"
    by blast
  then show ?thesis
    using True tm_to_posix_of_utc [OF u, of zero_tm]
    by (simp add: OPENSSL_posix_to_tm_def is_valid_epoch_time_def)
next
  case False
  then show ?thesis
    using utc_from_posix_time_None [OF False]
    by (auto simp: OPENSSL_posix_to_tm_def is_valid_epoch_time_def)
qed

text \<open>
  (C28) The conversion is the proleptic Gregorian calendar: midnight of 1970-01-01 is 0, the
  day after a valid date is 86400 seconds later (across month ends, leap days, centuries and
  years), and the time of day adds its seconds.
\<close>

theorem posix_time_counts_days:
  assumes "is_valid_date y m d" "next_day y m d = (y', m', d')" "y' \<le> 9999"
  shows "posix_time_from_utc 1970 1 1 0 0 0 = Some 0 \<and>
    (\<exists>p. posix_time_from_utc y m d 0 0 0 = Some p \<and>
      posix_time_from_utc y' m' d' 0 0 0 = Some (p + 86400) \<and>
      (\<forall>h mi s. is_valid_time h mi s \<longrightarrow>
        posix_time_from_utc y m d h mi s = Some (p + 3600 * h + 60 * mi + s)))"
proof -
  have epoch: "posix_time_from_utc 1970 1 1 0 0 0 = Some 0"
    by (simp add: posix_time_from_utc_def is_valid_date_def is_valid_time_def
        signed_divide_int_def signed_modulo_int_def)
  have v: "0 \<le> y" "y \<le> 9999" "1 \<le> m" "m \<le> 12" "1 \<le> d" "d \<le> days_in_month y m"
    using assms(1) by (auto simp: is_valid_date_iff)
  have "1 \<le> days_in_month y'' m''" for y'' m'' by (simp add: days_in_month_def)
  then have v': "is_valid_date y' m' d'"
    using assms(2,3) v by (auto simp: is_valid_date_iff next_day_def split: if_splits)
  have "day_number y' m' d' = day_number y m d + 1"
    using assms(2) v day_number_next_month [of m d y]
    by (auto simp: next_day_def day_number_def split: if_splits)
  then show ?thesis
    using epoch assms(1) v' by (simp add: posix_time_from_utc_eq is_valid_time_iff)
qed

theorem posix_time_counts_days_witness:
  "\<exists>p. posix_time_from_utc 1900 2 28 0 0 0 = Some p \<and> posix_time_from_utc 1900 3 1 0 0 0 = Some (p + 86400)"
proof -
  have "is_valid_date 1900 2 28" "next_day 1900 2 28 = (1900, 3, 1)"
    by (simp_all add: is_valid_date_def next_day_def days_in_month_def leap_year_def
        signed_modulo_int_def)
  from posix_time_counts_days [OF this] show ?thesis by auto
qed

text \<open>
  \<open>OPENSSL_gmtime_adj\<close> adds exactly the given days and seconds, of either sign, and
  fails exactly when the result leaves the years 0 to 9999.
\<close>

theorem gmtime_adj_adds:
  assumes "OPENSSL_tm_to_posix t = Some p" "q = p + off_day * 86400 + offset_sec"
  shows "if is_valid_epoch_time q
     then \<exists>t'. OPENSSL_gmtime_adj t off_day offset_sec = Some t' \<and> OPENSSL_tm_to_posix t' = Some q
     else OPENSSL_gmtime_adj t off_day offset_sec = None"
  using assms by (rule gmtime_adj_exact)

theorem gmtime_adj_adds_witness:
  "\<exists>t'. OPENSSL_gmtime_adj (zero_tm\<lparr>tm_year := 70, tm_mday := 1\<rparr>) (-1) 3600 = Some t' \<and>
     OPENSSL_tm_to_posix t' = Some (-82800)"
proof -
  have "OPENSSL_tm_to_posix (zero_tm\<lparr>tm_year := 70, tm_mday := 1\<rparr>) = Some 0"
    by (simp add: OPENSSL_tm_to_posix_def posix_time_from_utc_def is_valid_date_def is_valid_time_def
        zero_tm_def signed_divide_int_def signed_modulo_int_def)
  from gmtime_adj_adds [OF this, of "-82800" "-1" 3600] show ?thesis
    by (simp add: is_valid_epoch_time_def)
qed

text \<open>
  \<open>OPENSSL_gmtime_diff\<close> never fails on two valid times, splits the difference into days and
  a remainder of less than a day with the same sign, and adjusting the first time by the result
  gives the second.
\<close>

theorem gmtime_diff_exact:
  assumes "OPENSSL_tm_to_posix from = Some p" "OPENSSL_tm_to_posix to = Some q"
  shows "\<exists>days secs. OPENSSL_gmtime_diff from to = Some (days, secs) \<and>
    q - p = days * 86400 + secs \<and> \<bar>secs\<bar> < 86400 \<and> 0 \<le> days * secs \<and>
    (\<exists>t'. OPENSSL_gmtime_adj from days secs = Some t' \<and> OPENSSL_tm_to_posix t' = Some q)"
proof -
  have pq: "is_valid_epoch_time p" "is_valid_epoch_time q"
    using assms by (auto simp: OPENSSL_tm_to_posix_def intro: is_valid_epoch_posix)
  define days where "days = (q - p) sdiv 86400"
  define secs where "secs = (q - p) smod 86400"
  have eq: "q - p = days * 86400 + secs"
    by (simp add: days_def secs_def sdiv_mult_smod_eq)
  have sign: "\<bar>secs\<bar> < 86400 \<and> 0 \<le> days * secs"
  proof (cases "p \<le> q")
    case True
    then show ?thesis by (simp add: days_def secs_def sdiv_nonneg smod_nonneg)
  next
    case False
    then show ?thesis by (simp add: days_def secs_def sdiv_neg smod_neg pos_imp_zdiv_nonneg_iff)
  qed
  have "\<bar>q - p\<bar> < 315569520000" using pq by (simp add: is_valid_epoch_time_def abs_less_iff)
  then have "\<bar>days * 86400\<bar> < 315569606400" using eq sign by linarith
  then have "days \<le> 2147483647" "-2147483648 \<le> days" by linarith+
  then have "OPENSSL_gmtime_diff from to = Some (days, secs)"
    using assms by (simp add: OPENSSL_gmtime_diff_def OPENSSL_tm_to_posix_def Let_def days_def secs_def)
  moreover have "\<exists>t'. OPENSSL_gmtime_adj from days secs = Some t' \<and> OPENSSL_tm_to_posix t' = Some q"
    using gmtime_adj_exact [OF assms(1), of q days secs] pq(2) eq by simp
  ultimately show ?thesis using eq sign by blast
qed

theorem gmtime_diff_exact_witness:
  "\<exists>days secs. OPENSSL_gmtime_diff (zero_tm\<lparr>tm_year := 100, tm_mon := 1, tm_mday := 29\<rparr>)
      (zero_tm\<lparr>tm_year := 70, tm_mday := 1\<rparr>) = Some (days, secs) \<and>
    0 - 951782400 = days * 86400 + secs"
proof -
  have "OPENSSL_tm_to_posix (zero_tm\<lparr>tm_year := 100, tm_mon := 1, tm_mday := 29\<rparr>) = Some 951782400"
    "OPENSSL_tm_to_posix (zero_tm\<lparr>tm_year := 70, tm_mday := 1\<rparr>) = Some 0"
    by (simp_all add: OPENSSL_tm_to_posix_def posix_time_from_utc_def is_valid_date_def is_valid_time_def
        zero_tm_def signed_divide_int_def signed_modulo_int_def)
  from gmtime_diff_exact [OF this] show ?thesis by blast
qed

end
