(* ===== verification/Codec.thy ===== *)
theory Codec
  imports Asn1_Values
begin

text \<open>
  Readers and writers of \<open>crypto/bytestring\<close> as two sides of one contract.

  \<open>cbs_codec\<close> is what a caller of a \<open>CBS_get_*\<close> function relies on: it reads exactly the encodings
  of the valid values.  \<open>cbb_codec\<close> adds a \<open>CBB_add_*\<close> function that writes these encodings.  The
  consequences (no encoding is a prefix of another, what was written is read back) are proved once
  for every pair of functions.
\<close>

section \<open>The contract of a reader\<close>

locale cbs_codec =
  fixes get :: "(cbs, 'r) op" and view :: "'r \<Rightarrow> 'a" and enc :: "'a \<Rightarrow> u8 list" and valid :: "'a \<Rightarrow> bool"
  assumes get_sound: "cbs_ok s \<Longrightarrow> get s = (Some r, t) \<Longrightarrow>
      valid (view r) \<and> cbs_bytes s = enc (view r) @ cbs_bytes t \<and> cbs_ok t"
    and get_complete: "cbs_ok s \<Longrightarrow> valid v \<Longrightarrow> cbs_bytes s = enc v @ rest \<Longrightarrow>
      \<exists>r t. get s = (Some r, t) \<and> view r = v \<and> cbs_bytes t = rest"
begin

lemma accepts_iff:
  assumes "cbs_ok s"
  shows "fst (get s) \<noteq> None \<longleftrightarrow> (\<exists>v rest. valid v \<and> cbs_bytes s = enc v @ rest)"
proof
  assume "fst (get s) \<noteq> None"
  then obtain r t where "get s = (Some r, t)" by (cases "get s") auto
  then show "\<exists>v rest. valid v \<and> cbs_bytes s = enc v @ rest" using get_sound [OF assms] by blast
next
  assume "\<exists>v rest. valid v \<and> cbs_bytes s = enc v @ rest"
  then show "fst (get s) \<noteq> None" using get_complete [OF assms] by force
qed

lemma enc_prefix_free:
  assumes "valid v" "valid w" "enc v @ xs = enc w @ ys" "length (enc v @ xs) < SIZE_LIMIT"
  shows "v = w \<and> xs = ys"
proof -
  let ?s = "CBS_init (enc v @ xs) (length (enc v @ xs))"
  have ok: "cbs_ok ?s" using assms(4) by simp
  have b: "cbs_bytes ?s = enc v @ xs" by simp
  obtain r t where r: "get ?s = (Some r, t)" "view r = v" "cbs_bytes t = xs"
    using get_complete [OF ok assms(1) b] by blast
  have b': "cbs_bytes ?s = enc w @ ys" using b assms(3) by simp
  obtain r' t' where "get ?s = (Some r', t')" "view r' = w" "cbs_bytes t' = ys"
    using get_complete [OF ok assms(2) b'] by blast
  with r show ?thesis by simp
qed

lemma get_inverts_enc:
  assumes "valid v" "length (enc v) < SIZE_LIMIT"
  shows "\<exists>r t. get (CBS_init (enc v) (length (enc v))) = (Some r, t) \<and> view r = v \<and> cbs_bytes t = []"
proof -
  have "cbs_bytes (CBS_init (enc v) (length (enc v))) = enc v @ []" by simp
  then show ?thesis using get_complete [of "CBS_init (enc v) (length (enc v))" v "[]"] assms by simp
qed

end

section \<open>The contract of a reader and a writer\<close>

lemma init_represents:
  assumes "malloc_ok malloc" "CBB_init malloc cap = Some s" "cap < SIZE_LIMIT"
  shows "represents s (Builder [] []) \<and> b_can_resize s"
proof -
  have s: "s = cbb_init (OPENSSL_malloc malloc cap) cap True"
    and b: "cap > 0 \<Longrightarrow> OPENSSL_malloc malloc cap \<noteq> None"
    using assms(2) by (auto simp: CBB_init_def Let_def split: if_splits)
  have "cap \<le> length (buf_bytes s)"
    using b length_OPENSSL_malloc [OF assms(1) _ assms(3)]
    by (cases "OPENSSL_malloc malloc cap") (auto simp: s buf_bytes_def cbb_init_def)
  then show ?thesis
    using assms(3) by (simp add: s represents_def cbb_ok_def cbb_init_def written_def)
qed

lemma finish_represented:
  assumes m: "malloc_ok malloc" and rep: "represents s (Builder x [])"
  shows "CBB_finish malloc 0 False s = (Some (b_buf s, length x), s\<lparr>b_buf := None\<rparr>) \<and>
    take (length x) (buf_bytes s) = x"
proof -
  have c: "children s = []" using represents_length [OF rep] by simp
  have ok: "cbb_ok s" using rep by (simp add: represents_def)
  have f: "CBB_flush malloc 0 s = (Some (), s)"
    using ok by (subst CBB_flush.simps) (simp add: cbb_get_base_def cbb_ok_def c)
  have w: "written s = x" using rep by (simp add: represents_def c)
  have "b_len s = length x" using length_written [OF ok] w by simp
  then show ?thesis
    using f w by (simp add: CBB_finish_def op_bind_def written_def)
qed

locale cbb_codec = cbs_codec +
  fixes put :: "(nat \<Rightarrow> u8 list option) \<Rightarrow> nat \<Rightarrow> 'b \<Rightarrow> (cbb, unit) op" and writable :: "'b \<Rightarrow> bool"
  assumes put_adds: "malloc_ok malloc \<Longrightarrow> writable v \<Longrightarrow> adds malloc d (put malloc d v) (Some (enc v))"
    and writable_valid: "writable v \<Longrightarrow> valid v"
begin

lemma round_trip:
  assumes m: "malloc_ok malloc" and v: "writable v" and ne: "enc v \<noteq> []"
    and small: "length (enc v) < SIZE_LIMIT" "cap < SIZE_LIMIT"
    and init: "CBB_init malloc cap = Some s0" and put: "put malloc 0 v s0 = (Some u, s1)"
  shows "\<exists>buf s2 r t. CBB_finish malloc 0 False s1 = (Some (Some buf, length (enc v)), s2) \<and>
    get (CBS_init buf (length (enc v))) = (Some r, t) \<and> view r = v \<and> cbs_len t = 0"
proof -
  note rep = init_represents [OF m init small(2), THEN conjunct1]
  have dn: "0 \<le> length (bld_frames (Builder [] []))" by simp
  have fl: "bld_flush 0 (Builder [] []) = Some (Builder [] [])" by (simp add: bld_flush_flushed)
  obtain B y where "Some (enc v) = Some y" "bld_flush 0 (Builder [] []) = Some B" "represents s1 (bld_append 0 y B)"
    using adds_SomeE [OF put_adds [OF m v] rep dn FalseE put] .
  then have "represents s1 (bld_append 0 (enc v) (Builder [] []))" using fl by simp
  then have s1: "represents s1 (Builder (enc v) [])" by (simp add: bld_append_def)
  note fin = finish_represented [OF m s1]
  have "b_buf s1 \<noteq> None" using fin ne by (cases "b_buf s1") (simp_all add: buf_bytes_def)
  then obtain buf where buf: "b_buf s1 = Some buf" by auto
  then have tk: "take (length (enc v)) buf = enc v @ []" using fin by (simp add: buf_bytes_def)
  then have "length (enc v) \<le> length buf" by (metis append_Nil2 length_take min.cobounded1)
  then have ok: "cbs_ok (CBS_init buf (length (enc v)))" using small by simp
  have bs: "cbs_bytes (CBS_init buf (length (enc v))) = enc v @ []" using tk by simp
  obtain r t where r: "get (CBS_init buf (length (enc v))) = (Some r, t)" "view r = v" "cbs_bytes t = []"
    using get_complete [OF ok writable_valid [OF v] bs] by blast
  have "cbs_ok t" using get_sound [OF ok r(1)] by blast
  then have "cbs_len t = 0" using length_cbs_bytes r(3) by fastforce
  then show ?thesis using fin buf r by auto
qed

text \<open>With memory available, writing does not fail.\<close>

lemma put_total:
  assumes m: "malloc_ok malloc" "\<forall>k<SIZE_LIMIT. malloc k \<noteq> None" and v: "writable v"
    and small: "length (enc v) \<le> 2 ^ 62" "cap < SIZE_LIMIT" and init: "CBB_init malloc cap = Some s0"
  shows "\<exists>s1. put malloc 0 v s0 = (Some (), s1)"
proof (rule ccontr)
  assume no: "\<not> ?thesis"
  obtain x s1 where r: "put malloc 0 v s0 = (x, s1)" by (cases "put malloc 0 v s0")
  then have "put malloc 0 v s0 = (None, s1)" using no by (cases x) auto
  note rep = init_represents [OF m(1) init small(2)]
  have fl: "bld_flush 0 (Builder [] []) = Some (Builder [] [])" by (simp add: bld_flush_flushed)
  have "\<not> room malloc s0 (bld_len (bld_append 0 (enc v) (Builder [] [])))"
    using adds_NoneD [OF put_adds [OF m(1) v] rep [THEN conjunct1] _ FalseE \<open>put malloc 0 v s0 = (None, s1)\<close>] fl
    by simp
  moreover have "bld_len (bld_append 0 (enc v) (Builder [] [])) = length (enc v)"
    by (simp add: bld_len_def bld_append_def)
  ultimately show False using rep m(2) small(1) by (simp add: room_def)
qed

end


section \<open>The pairs of functions of the library\<close>

lemma get_u_sound:
  assumes "cbs_ok s" "n \<le> 8" "cbs_get_u n s = (Some v, t)"
  shows "unat v < 256 ^ n \<and> cbs_bytes s = be_bytes n (unat v) @ cbs_bytes t \<and> cbs_ok t"
proof -
  have n: "n \<le> cbs_len s" "v = word_of_nat (be_val (take n (cbs_bytes s)))" "t = cbs_adv n s"
    using assms(3) by (auto simp: cbs_get_u_eq [OF assms(1,2)] split: if_splits)
  have l: "length (take n (cbs_bytes s)) = n" using n(1) assms(1) by simp
  have b: "be_val (take n (cbs_bytes s)) < 256 ^ n" using be_val_bound [of "take n (cbs_bytes s)"] unfolding l .
  have "(256 :: nat) ^ n \<le> 256 ^ 8" using assms(2) by (intro power_increasing) simp_all
  with b have "be_val (take n (cbs_bytes s)) < 2 ^ 64" by simp
  then have u: "unat v = be_val (take n (cbs_bytes s))" unfolding n(2) by (simp add: unat_of_nat)
  have "be_bytes n (unat v) = take n (cbs_bytes s)" unfolding u using be_bytes_be_val [of "take n (cbs_bytes s)"] unfolding l .
  then show ?thesis using b u n assms(1) by simp
qed

lemma get_u_complete:
  assumes "cbs_ok s" "n \<le> 8" "v < 256 ^ n" "cbs_bytes s = be_bytes n v @ rest"
  shows "cbs_get_u n s = (Some (word_of_nat v), cbs_adv n s) \<and> cbs_bytes (cbs_adv n s) = rest"
proof -
  have "n \<le> cbs_len s" using arg_cong [OF assms(4), of length] assms(1) by simp
  then show ?thesis
    using assms by (simp add: cbs_get_u_eq [OF assms(1,2)] be_val_be_bytes)
qed

lemma ucast_get_sound:
  fixes w :: "'a::len word"
  assumes "cbs_ok s" "n \<le> 8" "8 * n \<le> LENGTH('a)"
    "op_bind (cbs_get_u n) (\<lambda>v. op_ret (ucast v)) s = (Some w, t)"
  shows "unat w < 256 ^ n \<and> cbs_bytes s = be_bytes n (unat w) @ cbs_bytes t \<and> cbs_ok t"
proof -
  obtain v where v: "cbs_get_u n s = (Some v, t)" "w = ucast v" using assms(4) by auto
  note g = get_u_sound [OF assms(1,2) v(1)]
  have "(256 :: nat) ^ n = 2 ^ (8 * n)" by (simp add: power_mult)
  also have "(2 :: nat) ^ (8 * n) \<le> 2 ^ LENGTH('a)" using assms(3) by (intro power_increasing) simp_all
  finally have "unat v < 2 ^ LENGTH('a)" using g by linarith
  then have "unat w = unat v" unfolding v(2) by (simp add: unsigned_ucast_eq take_bit_nat_eq_self)
  with g show ?thesis by simp
qed

lemma ucast_get_complete:
  fixes w :: "'a::len word"
  assumes "cbs_ok s" "n \<le> 8" "unat w < 256 ^ n" "LENGTH('a) \<le> 64" "cbs_bytes s = be_bytes n (unat w) @ rest"
  shows "\<exists>r t. op_bind (cbs_get_u n) (\<lambda>v. op_ret (ucast v)) s = (Some r, t) \<and> id r = w \<and> cbs_bytes t = rest"
proof -
  have "(ucast (word_of_nat (unat w) :: u64) :: 'a word) = w"
  proof -
    have "unat w < 2 ^ LENGTH('a)" by (rule unsigned_less)
    also have "(2 :: nat) ^ LENGTH('a) \<le> 2 ^ 64" using assms(4) by (intro power_increasing) simp_all
    finally show ?thesis by (simp add: word_unat_eq_iff unsigned_ucast_eq unsigned_take_bit_eq unat_of_nat take_bit_nat_eq_self unsigned_less)
  qed
  then show ?thesis using get_u_complete [OF assms(1,2,3,5)] by simp
qed

interpretation u8: cbb_codec CBS_get_u8 id "\<lambda>b. [b]" "\<lambda>_. True" CBB_add_u8 "\<lambda>_. True"
proof
  fix s r t assume "cbs_ok s" "CBS_get_u8 s = (Some r, t)"
  then show "True \<and> cbs_bytes s = [id r] @ cbs_bytes t \<and> cbs_ok t"
    using CBS_get_u8_iff [of s r t] consumes_ok [OF consumes_get_u8] unfolding append_Cons append_Nil id_def by blast
next
  fix s v rest assume "cbs_ok s" "cbs_bytes s = [v] @ rest"
  then show "\<exists>r t. CBS_get_u8 s = (Some r, t) \<and> id r = v \<and> cbs_bytes t = rest"
    by (simp add: CBS_get_u8_eq)
qed (simp_all add: adds_ints)

interpretation u16: cbb_codec CBS_get_u16 id "\<lambda>h. be_bytes 2 (unat h)" "\<lambda>_. True" CBB_add_u16 "\<lambda>_. True"
proof
  fix s r t assume "cbs_ok s" "CBS_get_u16 s = (Some r, t)"
  then show "True \<and> cbs_bytes s = be_bytes 2 (unat (id r)) @ cbs_bytes t \<and> cbs_ok t"
    unfolding CBS_get_u16_def using ucast_get_sound [of s 2 r t] by simp
next
  fix s rest and v :: u16 assume "cbs_ok s" "cbs_bytes s = be_bytes 2 (unat v) @ rest"
  then show "\<exists>r t. CBS_get_u16 s = (Some r, t) \<and> id r = v \<and> cbs_bytes t = rest"
    unfolding CBS_get_u16_def using unsigned_less [of v, where 'a = nat] by (intro ucast_get_complete [of _ 2]) simp_all
qed (simp_all add: adds_ints)

interpretation u24: cbb_codec CBS_get_u24 id "\<lambda>w. be_bytes 3 (unat w)" "\<lambda>w. unat w < 2 ^ 24" CBB_add_u24
  "\<lambda>w. unat w < 2 ^ 24"
proof
  fix s r t assume "cbs_ok s" "CBS_get_u24 s = (Some r, t)"
  then show "unat (id r) < 2 ^ 24 \<and> cbs_bytes s = be_bytes 3 (unat (id r)) @ cbs_bytes t \<and> cbs_ok t"
    unfolding CBS_get_u24_def using ucast_get_sound [of s 3 r t] by simp
next
  fix s rest and v :: u32 assume "cbs_ok s" "unat v < 2 ^ 24" "cbs_bytes s = be_bytes 3 (unat v) @ rest"
  then show "\<exists>r t. CBS_get_u24 s = (Some r, t) \<and> id r = v \<and> cbs_bytes t = rest"
    unfolding CBS_get_u24_def by (intro ucast_get_complete [of _ 3]) simp_all
next
  fix malloc d and v :: u32 assume "malloc_ok malloc" "unat v < 2 ^ 24"
  then show "adds malloc d (CBB_add_u24 malloc d v) (Some (be_bytes 3 (unat v)))"
    using adds_ints(3) [of malloc d v] by simp
qed

interpretation u32: cbb_codec CBS_get_u32 id "\<lambda>w. be_bytes 4 (unat w)" "\<lambda>_. True" CBB_add_u32 "\<lambda>_. True"
proof
  fix s r t assume "cbs_ok s" "CBS_get_u32 s = (Some r, t)"
  then show "True \<and> cbs_bytes s = be_bytes 4 (unat (id r)) @ cbs_bytes t \<and> cbs_ok t"
    unfolding CBS_get_u32_def using ucast_get_sound [of s 4 r t] by simp
next
  fix s rest and v :: u32 assume "cbs_ok s" "cbs_bytes s = be_bytes 4 (unat v) @ rest"
  then show "\<exists>r t. CBS_get_u32 s = (Some r, t) \<and> id r = v \<and> cbs_bytes t = rest"
    unfolding CBS_get_u32_def using unsigned_less [of v, where 'a = nat] by (intro ucast_get_complete [of _ 4]) simp_all
qed (simp_all add: adds_ints)

interpretation u64: cbb_codec CBS_get_u64 id "\<lambda>w. be_bytes 8 (unat w)" "\<lambda>_. True" CBB_add_u64 "\<lambda>_. True"
proof
  fix s r t assume "cbs_ok s" "CBS_get_u64 s = (Some r, t)"
  then show "True \<and> cbs_bytes s = be_bytes 8 (unat (id r)) @ cbs_bytes t \<and> cbs_ok t"
    unfolding CBS_get_u64_def using get_u_sound [of s 8 r t] by simp
next
  fix s rest and v :: u64 assume "cbs_ok s" "cbs_bytes s = be_bytes 8 (unat v) @ rest"
  then show "\<exists>r t. CBS_get_u64 s = (Some r, t) \<and> id r = v \<and> cbs_bytes t = rest"
    unfolding CBS_get_u64_def using unsigned_less [of v, where 'a = nat] get_u_complete [of s 8 "unat v" rest] by simp
qed (simp_all add: adds_ints)

text \<open>A reader proved to accept exactly the encoding of its result.\<close>

lemma codec_of_iff:
  assumes "\<And>s v t. cbs_ok s \<Longrightarrow> get s = (Some v, t) \<longleftrightarrow>
      cbs_bytes s = enc v @ cbs_bytes t \<and> t = cbs_adv (length (enc v)) s"
  shows "cbs_codec get id enc (\<lambda>_. True)"
proof
  fix s r t assume ok: "cbs_ok s" and g: "get s = (Some r, t)"
  then have b: "cbs_bytes s = enc r @ cbs_bytes t" and t: "t = cbs_adv (length (enc r)) s"
    using assms by blast+
  have "length (enc r) \<le> cbs_len s" using arg_cong [OF b, of length] ok by simp
  then show "True \<and> cbs_bytes s = enc (id r) @ cbs_bytes t \<and> cbs_ok t" using b ok unfolding t by simp
next
  fix s v rest assume ok: "cbs_ok s" and b: "cbs_bytes s = enc v @ rest"
  let ?t = "cbs_adv (length (enc v)) s"
  have r: "cbs_bytes ?t = rest" by (simp add: b)
  then have "get s = (Some v, ?t)" unfolding assms [OF ok] using b by simp
  with r show "\<exists>r t. get s = (Some r, t) \<and> id r = v \<and> cbs_bytes t = rest" by auto
qed

interpretation asn1_uint64: cbb_codec CBS_get_asn1_uint64 id
  "\<lambda>v. der_element CBS_ASN1_INTEGER (uint_content (be_bytes 8 (unat v)))" "\<lambda>_. True" CBB_add_asn1_uint64
  "\<lambda>_. True"
proof (intro cbb_codec.intro cbb_codec_axioms.intro codec_of_iff get_asn1_uint64_iff)
  fix malloc d v assume "malloc_ok malloc"
  then show "adds malloc d (CBB_add_asn1_uint64 malloc d v)
      (Some (der_element CBS_ASN1_INTEGER (uint_content (be_bytes 8 (unat v)))))"
    unfolding CBB_add_asn1_uint64_def by (rule adds_asn1_uint64)
qed

interpretation asn1_int64: cbb_codec CBS_get_asn1_int64 id
  "\<lambda>v. der_element CBS_ASN1_INTEGER (int_content v)" "\<lambda>_. True" CBB_add_asn1_int64
  "\<lambda>_. True"
proof (intro cbb_codec.intro cbb_codec_axioms.intro codec_of_iff get_asn1_int64_iff)
  fix malloc d v assume "malloc_ok malloc"
  then show "adds malloc d (CBB_add_asn1_int64 malloc d v) (Some (der_element CBS_ASN1_INTEGER (int_content v)))"
    unfolding CBB_add_asn1_int64_def by (rule adds_asn1_int64)
qed

interpretation asn1_bool: cbb_codec CBS_get_asn1_bool id
  "\<lambda>b. der_element CBS_ASN1_BOOLEAN [if b then 0xff else 0]" "\<lambda>_. True"
  "\<lambda>malloc d b. CBB_add_asn1_bool malloc d (if b then 1 else 0)" "\<lambda>_. True"
proof (intro cbb_codec.intro cbb_codec_axioms.intro codec_of_iff get_asn1_bool_iff)
  fix malloc d b assume "malloc_ok malloc"
  then show "adds malloc d (CBB_add_asn1_bool malloc d (if b then 1 else 0))
      (Some (der_element CBS_ASN1_BOOLEAN [if b then 0xff else 0]))"
    using adds_asn1_bool [of malloc d "if b then 1 else 0"] by (simp split: if_splits)
qed

lemma codec_asn1:
  assumes "tag AND NOT CBS_ASN1_CONSTRUCTED \<noteq> 0"
  shows "cbs_codec (CBS_get_asn1 tag) cbs_bytes (der_element tag) (\<lambda>c. length c < 2 ^ 32)"
proof
  fix s r t assume ok: "cbs_ok s" and g: "CBS_get_asn1 tag s = (Some r, t)"
  note gs = get_asn1_sound [OF ok g]
  have "length (der_element tag (cbs_bytes r)) \<le> cbs_len s" using arg_cong [OF gs(3), of length] ok by simp
  then show "length (cbs_bytes r) < 2 ^ 32 \<and> cbs_bytes s = der_element tag (cbs_bytes r) @ cbs_bytes t \<and> cbs_ok t"
    using gs(2,3) ok unfolding gs(4) by simp
next
  fix s and v :: "u8 list" and rest assume "cbs_ok s" "length v < 2 ^ 32" "cbs_bytes s = der_element tag v @ rest"
  then show "\<exists>r t. CBS_get_asn1 tag s = (Some r, t) \<and> cbs_bytes r = v \<and> cbs_bytes t = rest"
    using get_asn1_complete [OF _ assms] by metis
qed

text \<open>The reader takes contents of up to \<open>2 ^ 32 - 1\<close> bytes, the writer one byte less.\<close>

interpretation asn1_octet_string: cbb_codec "CBS_get_asn1 CBS_ASN1_OCTETSTRING" cbs_bytes
  "der_element CBS_ASN1_OCTETSTRING" "\<lambda>c. length c < 2 ^ 32"
  "\<lambda>malloc d c. CBB_add_asn1_octet_string malloc d c (length c)" "\<lambda>c. length c \<le> 0xfffffffe"
proof (intro cbb_codec.intro cbb_codec_axioms.intro codec_asn1 tag_octetstring_ok)
  fix malloc d and v :: "u8 list" assume "malloc_ok malloc" "length v \<le> 0xfffffffe"
  then show "adds malloc d (CBB_add_asn1_octet_string malloc d v (length v))
      (Some (der_element CBS_ASN1_OCTETSTRING v))"
    using adds_asn1_octet_string [of malloc "length v" v d] by simp
qed simp

text \<open>Length-prefixed strings: a child with a prefix of \<open>n\<close> bytes and the bytes of its content.\<close>

definition add_length_prefixed_bytes ::
  "nat \<Rightarrow> (nat \<Rightarrow> u8 list option) \<Rightarrow> nat \<Rightarrow> u8 list \<Rightarrow> (cbb, unit) op" where
  "add_length_prefixed_bytes n malloc d c =
    op_bind (cbb_add_length_prefixed malloc d n) (\<lambda>_.
      op_bind (CBB_add_bytes malloc (Suc d) c (length c)) (\<lambda>_. CBB_flush malloc d))"

lemma codec_length_prefixed:
  assumes "n \<le> 4"
  shows "cbb_codec (cbs_get_length_prefixed n) cbs_bytes (\<lambda>c. be_bytes n (length c) @ c)
    (\<lambda>c. length c < 256 ^ n) (add_length_prefixed_bytes n) (\<lambda>c. length c < 256 ^ n)"
proof
  have n8: "n \<le> 8" using assms by simp
  have p32: "(256 :: nat) ^ n \<le> 256 ^ 4" using assms by (intro power_increasing) simp_all
  {
    fix s r t assume ok: "cbs_ok s" and g: "cbs_get_length_prefixed n s = (Some r, t)"
    then obtain v u where v: "cbs_get_u n s = (Some v, u)" and r: "CBS_get_bytes (unat v) u = (Some r, t)"
      by (auto simp: cbs_get_length_prefixed_def)
    note gu = get_u_sound [OF ok n8 v]
    have r': "unat v \<le> cbs_len u" "r = CBS_init (cbs_data u) (unat v)" "t = cbs_adv (unat v) u"
      using r by (auto simp: CBS_get_bytes_eq split: if_splits)
    have br: "cbs_bytes r = take (unat v) (cbs_bytes u)"
      using cbs_data_take [of u "unat v"] gu r'(1) unfolding r'(2) by simp
    then have lr: "length (cbs_bytes r) = unat v" using r'(1) gu by simp
    have "cbs_bytes u = cbs_bytes r @ cbs_bytes t" unfolding br r'(3) by simp
    then show "length (cbs_bytes r) < 256 ^ n \<and>
      cbs_bytes s = (be_bytes n (length (cbs_bytes r)) @ cbs_bytes r) @ cbs_bytes t \<and> cbs_ok t"
      using gu r' lr by simp
  next
    fix s and v :: "u8 list" and rest
    assume ok: "cbs_ok s" and l: "length v < 256 ^ n" and b: "cbs_bytes s = (be_bytes n (length v) @ v) @ rest"
    have g: "cbs_get_u n s = (Some (word_of_nat (length v)), cbs_adv n s)" "cbs_bytes (cbs_adv n s) = v @ rest"
      using get_u_complete [OF ok n8 l, of "v @ rest"] b by simp_all
    let ?u = "cbs_adv n s"
    have oku: "cbs_ok ?u" using get_u_sound [OF ok n8 g(1)] by blast
    have lu: "length v \<le> cbs_len ?u"
      using arg_cong [OF g(2), of length] unfolding length_cbs_bytes [OF oku] by simp
    have "length v < 2 ^ 64" using l p32 by simp
    then have "unat (word_of_nat (length v) :: u64) = length v" by (simp add: unat_of_nat)
    then have "cbs_get_length_prefixed n s = (Some (CBS_init (cbs_data ?u) (length v)), cbs_adv (length v) ?u)"
      using g(1) lu by (simp add: cbs_get_length_prefixed_def op_bind_def CBS_get_bytes_eq)
    moreover have "cbs_bytes (CBS_init (cbs_data ?u) (length v)) = v"
      using cbs_data_take [OF oku lu] g(2) by simp
    moreover have "cbs_bytes (cbs_adv (length v) ?u) = rest"
      by (subst cbs_bytes_adv) (unfold g(2), simp)
    ultimately show "\<exists>r t. cbs_get_length_prefixed n s = (Some r, t) \<and> cbs_bytes r = v \<and> cbs_bytes t = rest"
      by blast
  next
    fix malloc d and v :: "u8 list" assume m: "malloc_ok malloc" and l: "length v < 256 ^ n"
    have lv: "length v < SIZE_LIMIT" using l p32 by simp
    have g: "adds_at malloc (Suc d) (CBB_add_bytes malloc (Suc d) v (length v)) (Some v)"
      using adds_adds_at [OF adds_bytes [OF m le_refl lv]] by simp
    have n64: "n < SIZE_LIMIT" using assms by simp
    show "adds malloc d (add_length_prefixed_bytes n malloc d v) (Some (be_bytes n (length v) @ v))"
      using adds_child [OF m pushes_length_prefixed [OF m n64] g] l
      unfolding add_length_prefixed_bytes_def by simp
  }
qed

interpretation u8_prefixed: cbb_codec CBS_get_u8_length_prefixed cbs_bytes "\<lambda>c. be_bytes 1 (length c) @ c"
  "\<lambda>c. length c < 256 ^ 1" "add_length_prefixed_bytes 1" "\<lambda>c. length c < 256 ^ 1"
  unfolding CBS_get_u8_length_prefixed_def by (rule codec_length_prefixed) simp

interpretation u16_prefixed: cbb_codec CBS_get_u16_length_prefixed cbs_bytes "\<lambda>c. be_bytes 2 (length c) @ c"
  "\<lambda>c. length c < 256 ^ 2" "add_length_prefixed_bytes 2" "\<lambda>c. length c < 256 ^ 2"
  unfolding CBS_get_u16_length_prefixed_def by (rule codec_length_prefixed) simp

interpretation u24_prefixed: cbb_codec CBS_get_u24_length_prefixed cbs_bytes "\<lambda>c. be_bytes 3 (length c) @ c"
  "\<lambda>c. length c < 256 ^ 3" "add_length_prefixed_bytes 3" "\<lambda>c. length c < 256 ^ 3"
  unfolding CBS_get_u24_length_prefixed_def by (rule codec_length_prefixed) simp

end
