(* ===== verification/Cbs_Safety.thy ===== *)
theory Cbs_Safety
  imports Asn1_Values
begin

text \<open>
  Memory safety of the readers of \<open>crypto/bytestring/cbs.c\<close>: no function reads a byte outside
  its string, and each only moves the start of the string forward.
\<close>

section \<open>ASN.1\<close>

lemma in_bounds_base128 [in_bounds_intros]: "in_bounds (=) (base128_loop v) (base128_loop v)"
proof (rule in_boundsI)
  fix s t assume "cbs_eq s t"
  then show "rel_option (=) (fst (base128_loop v s)) (fst (base128_loop v t)) \<and>
      cbs_eq (snd (base128_loop v s)) (snd (base128_loop v t))"
  proof (induction v s arbitrary: t rule: base128_loop.induct)
    case (1 v s)
    obtain x s' where gs: "CBS_get_u8 s = (x, s')" by fastforce
    obtain y t' where gt: "CBS_get_u8 t = (y, t')" by fastforce
    have eq: "x = y" "cbs_eq s' t'"
      using in_boundsD [OF in_bounds_get_u8 "1.prems"] by (simp_all add: gs gt option.rel_eq)
    show ?case
    proof (cases x)
      case None
      then show ?thesis using gs gt eq by (subst (1 2 3 4) base128_loop.simps) simp
    next
      case (Some b)
      let ?w = "push_bit 7 v OR ucast (b AND 0x7f)"
      let ?bad = "drop_bit (64 - 7) v \<noteq> 0 \<or> v = 0 \<and> b = 0x80"
      have loop: "base128_loop v r = (if ?bad then (None, r') else if b AND 0x80 \<noteq> 0 then base128_loop ?w r' else (Some ?w, r'))"
        if "CBS_get_u8 r = (Some b, r')" for r r'
        using that by (subst base128_loop.simps) (simp only: option.case prod.case Let_def split: if_splits, blast)
      note ls = loop [OF gs [unfolded Some]] and lt = loop [OF gt [folded eq(1), unfolded Some]]
      consider (bad) "?bad" | (stop) "\<not> ?bad" "\<not> b AND 0x80 \<noteq> 0" | (more) "\<not> ?bad" "b AND 0x80 \<noteq> 0"
        by blast
      then show ?thesis
      proof cases
        case bad
        show ?thesis unfolding ls lt if_P [OF bad] using eq(2) by simp
      next
        case stop
        show ?thesis unfolding ls lt if_not_P [OF stop(1)] if_not_P [OF stop(2)] using eq(2) by simp
      next
        case more
        show ?thesis unfolding ls lt if_not_P [OF more(1)] if_P [OF more(2)]
          by (rule "1.IH" [OF gs [symmetric] Some _ _ refl more(2) eq(2)]) (use more(1) in blast)+
      qed
    qed
  qed
qed

lemma in_bounds_parse_base128 [in_bounds_intros]: "in_bounds (=) parse_base128_integer parse_base128_integer"
  unfolding parse_base128_integer_def by (rule in_bounds_base128)

lemma in_bounds_parse_asn1_tag [in_bounds_intros]: "in_bounds (=) parse_asn1_tag parse_asn1_tag"
  unfolding parse_asn1_tag_def Let_def
proof (rule in_bounds_bind [OF in_bounds_get_u8], hypsubst)
  fix b :: u8
  have num: "in_bounds (=)
     (if ucast (b AND 0x1f) = (0x1f :: u32)
      then op_bind parse_base128_integer (\<lambda>v.
             op_bind (op_check (\<not> (v > ucast CBS_ASN1_TAG_NUMBER_MASK \<or> v < 0x1f))) (\<lambda>_. op_ret (ucast v)))
      else op_ret (ucast (b AND 0x1f)))
     (if ucast (b AND 0x1f) = (0x1f :: u32)
      then op_bind parse_base128_integer (\<lambda>v.
             op_bind (op_check (\<not> (v > ucast CBS_ASN1_TAG_NUMBER_MASK \<or> v < 0x1f))) (\<lambda>_. op_ret (ucast v)))
      else op_ret (ucast (b AND 0x1f)))"
    by (intro in_bounds_if in_bounds_bind [OF in_bounds_parse_base128] in_bounds_bind [OF in_bounds_check]
        in_bounds_ret refl) simp_all
  show "in_bounds (=)
     (op_bind
       (if ucast (b AND 0x1f) = (0x1f :: u32)
        then op_bind parse_base128_integer (\<lambda>v.
               op_bind (op_check (\<not> (v > ucast CBS_ASN1_TAG_NUMBER_MASK \<or> v < 0x1f))) (\<lambda>_. op_ret (ucast v)))
        else op_ret (ucast (b AND 0x1f)))
       (\<lambda>n. op_bind (op_check ((push_bit CBS_ASN1_TAG_SHIFT (ucast b AND 0xe0) OR n) AND NOT CBS_ASN1_CONSTRUCTED \<noteq> 0))
          (\<lambda>_. op_ret (push_bit CBS_ASN1_TAG_SHIFT (ucast b AND 0xe0) OR n))))
     (op_bind
       (if ucast (b AND 0x1f) = (0x1f :: u32)
        then op_bind parse_base128_integer (\<lambda>v.
               op_bind (op_check (\<not> (v > ucast CBS_ASN1_TAG_NUMBER_MASK \<or> v < 0x1f))) (\<lambda>_. op_ret (ucast v)))
        else op_ret (ucast (b AND 0x1f)))
       (\<lambda>n. op_bind (op_check ((push_bit CBS_ASN1_TAG_SHIFT (ucast b AND 0xe0) OR n) AND NOT CBS_ASN1_CONSTRUCTED \<noteq> 0))
          (\<lambda>_. op_ret (push_bit CBS_ASN1_TAG_SHIFT (ucast b AND 0xe0) OR n))))"
    by (rule in_bounds_bind [OF num], hypsubst)
      (intro in_bounds_bind [OF in_bounds_check] in_bounds_ret refl)
qed

definition element_eq :: "asn1_element \<Rightarrow> asn1_element \<Rightarrow> bool" where
  "element_eq e f \<longleftrightarrow> cbs_eq (el_out e) (el_out f) \<and> el_tag e = el_tag f \<and>
    el_header_len e = el_header_len f \<and> el_ber_found e = el_ber_found f \<and> el_indefinite e = el_indefinite f"

lemma in_bounds_element_at: "in_bounds element_eq (element_at n h tag ber indef) (element_at n h tag ber indef)"
  by (rule in_boundsI) (auto simp: element_at_def cbs_eq_len element_eq_def intro: cbs_eq_adv cbs_eq_init)

lemma in_bounds_any_element [in_bounds_intros]:
  "in_bounds element_eq (cbs_get_any_asn1_element ber_ok) (cbs_get_any_asn1_element ber_ok)"
proof (rule in_boundsI)
  fix s t assume st: "cbs_eq s t"
  obtain x s1 where ps: "parse_asn1_tag s = (x, s1)" by fastforce
  obtain y t1 where pt: "parse_asn1_tag t = (y, t1)" by fastforce
  have e1: "x = y" "cbs_eq s1 t1"
    using in_boundsD [OF in_bounds_parse_asn1_tag st] by (simp_all add: ps pt option.rel_eq)
  obtain u s2 where gs: "CBS_get_u8 s1 = (u, s2)" by fastforce
  obtain w t2 where gt: "CBS_get_u8 t1 = (w, t2)" by fastforce
  have e2: "u = w" "cbs_eq s2 t2"
    using in_boundsD [OF in_bounds_get_u8 e1(2)] by (simp_all add: gs gt option.rel_eq)
  show "rel_option element_eq (fst (cbs_get_any_asn1_element ber_ok s)) (fst (cbs_get_any_asn1_element ber_ok t)) \<and>
      cbs_eq (snd (cbs_get_any_asn1_element ber_ok s)) (snd (cbs_get_any_asn1_element ber_ok t))"
  proof (cases x)
    case None
    then show ?thesis using ps pt e1 st by (simp add: cbs_get_any_asn1_element_def)
  next
    case tag: (Some tag)
    show ?thesis
    proof (cases u)
      case None
      have "cbs_get_any_asn1_element ber_ok s = (None, s)" "cbs_get_any_asn1_element ber_ok t = (None, t)"
        using None tag e1(1) e2(1)
        by (simp_all only: cbs_get_any_asn1_element_def ps pt gs gt prod.case option.case)
      then show ?thesis using st by simp
    next
      case lb: (Some lb)
      note es = element_eval [OF cbs_eq_ok(1) [OF st] ps [unfolded tag] gs [unfolded lb]]
      note et = element_eval [OF cbs_eq_ok(2) [OF st] pt [folded e1(1), unfolded tag] gt [folded e2(1), unfolded lb]]
      have at: "rel_option element_eq (fst (element_at n h tag ber indef s)) (fst (element_at n h tag ber indef t)) \<and>
          cbs_eq (snd (element_at n h tag ber indef s)) (snd (element_at n h tag ber indef t))" for n h ber indef
        using in_boundsD [OF in_bounds_element_at st] by blast
      show ?thesis
        unfolding es et cbs_eq_bytes [OF e2(2)] using st at by (simp split: if_split)
    qed
  qed
qed

lemma consumes_any_element [consumes_intros]: "consumes (cbs_get_any_asn1_element ber_ok)"
proof (rule consumesI)
  fix s assume ok: "cbs_ok s"
  have at: "\<exists>m\<le>cbs_len s. snd (element_at n h tag ber indef s) = cbs_adv m s" for n h tag ber indef
    by (auto simp: element_at_def intro: exI [of _ 0] exI [of _ n])
  obtain x s1 where ps: "parse_asn1_tag s = (x, s1)" by fastforce
  obtain u s2 where gs: "CBS_get_u8 s1 = (u, s2)" by fastforce
  show "\<exists>n\<le>cbs_len s. snd (cbs_get_any_asn1_element ber_ok s) = cbs_adv n s"
  proof (cases "x = None \<or> u = None")
    case True
    then have "snd (cbs_get_any_asn1_element ber_ok s) = s"
      using ps gs by (auto simp: cbs_get_any_asn1_element_def split: option.split)
    then show ?thesis by (metis cbs_adv_0 le0)
  next
    case False
    then obtain tag lb where "x = Some tag" "u = Some lb" by auto
    note es = element_eval [OF ok ps [unfolded this(1)] gs [unfolded this(2)], of ber_ok]
    have "\<exists>n\<le>cbs_len s. s = cbs_adv n s" by (metis cbs_adv_0 le0)
    then show ?thesis unfolding es using at by (simp split: if_split)
  qed
qed


lemma in_bounds_skip_header:
  assumes "element_eq e f" "cbs_ok (el_out e)" "cbs_ok (el_out f)"
  shows "in_bounds cbs_eq (skip_header e) (skip_header f)"
proof (rule in_boundsI)
  fix s t assume st: "cbs_eq s t"
  have "cbs_eq (el_out e) (el_out f)" "el_header_len e = el_header_len f"
    using assms(1) by (simp_all add: element_eq_def)
  then show "rel_option cbs_eq (fst (skip_header e s)) (fst (skip_header f t)) \<and>
      cbs_eq (snd (skip_header e s)) (snd (skip_header f t))"
    using st cbs_eq_len [of "el_out e" "el_out f"]
    by (auto simp: skip_header_def CBS_skip_eq intro: cbs_eq_adv)
qed

lemma element_eq_ok: "element_eq e f \<Longrightarrow> cbs_ok (el_out e)" "element_eq e f \<Longrightarrow> cbs_ok (el_out f)"
  by (auto simp: element_eq_def dest: cbs_eq_ok)

lemma element_eq_tag: "element_eq e f \<Longrightarrow> el_tag e = el_tag f"
  by (simp add: element_eq_def)

lemma consumes_skip_header [consumes_intros]: "consumes (skip_header e)"
  by (rule consumesI) (auto simp: skip_header_def split: option.split prod.split intro: exI [of _ 0])

lemma in_bounds_get_any_asn1 [in_bounds_intros]:
  "in_bounds (rel_prod cbs_eq (=)) CBS_get_any_asn1 CBS_get_any_asn1"
  unfolding CBS_get_any_asn1_def CBS_get_any_asn1_element_def
proof (rule in_bounds_bind [OF in_bounds_any_element])
  fix e f assume ef: "element_eq e f"
  show "in_bounds (rel_prod cbs_eq (=)) (op_bind (skip_header e) (\<lambda>out. op_ret (out, el_tag e)))
      (op_bind (skip_header f) (\<lambda>out. op_ret (out, el_tag f)))"
    by (rule in_bounds_bind [OF in_bounds_skip_header [OF ef element_eq_ok [OF ef]]])
      (simp add: in_bounds_ret element_eq_tag [OF ef])
qed

lemma in_bounds_cbs_get_asn1: "in_bounds cbs_eq (cbs_get_asn1 tag skip) (cbs_get_asn1 tag skip)"
  unfolding cbs_get_asn1_def CBS_get_any_asn1_element_def
proof (rule in_bounds_bind [OF in_bounds_any_element])
  fix e f assume ef: "element_eq e f"
  then have "cbs_eq (el_out e) (el_out f)" by (simp add: element_eq_def)
  then show "in_bounds cbs_eq
      (op_bind (op_check (el_tag e = tag)) (\<lambda>_. if skip then skip_header e else op_ret (el_out e)))
      (op_bind (op_check (el_tag f = tag)) (\<lambda>_. if skip then skip_header f else op_ret (el_out f)))"
    using in_bounds_skip_header [OF ef element_eq_ok [OF ef]]
    by (intro in_bounds_bind [OF in_bounds_check] in_bounds_if in_bounds_ret) (simp_all add: element_eq_tag [OF ef])
qed

lemma in_bounds_get_asn1 [in_bounds_intros]: "in_bounds cbs_eq (CBS_get_asn1 tag) (CBS_get_asn1 tag)"
  unfolding CBS_get_asn1_def by (rule in_bounds_cbs_get_asn1)

lemma in_bounds_get_asn1_element [in_bounds_intros]:
  "in_bounds cbs_eq (CBS_get_asn1_element tag) (CBS_get_asn1_element tag)"
  unfolding CBS_get_asn1_element_def by (rule in_bounds_cbs_get_asn1)

lemma consumes_get_asn1 [consumes_intros]:
  "consumes CBS_get_any_asn1" "consumes (cbs_get_asn1 tag skip)"
  "consumes (CBS_get_asn1 tag)" "consumes (CBS_get_asn1_element tag)"
  unfolding CBS_get_any_asn1_def cbs_get_asn1_def CBS_get_asn1_def CBS_get_asn1_element_def
    CBS_get_any_asn1_element_def
  by (intro consumes_intros)+

section \<open>Values\<close>

text \<open>What a reader computes from a sub-string depends only on its bytes.\<close>

lemma in_bounds_result: "rel_option R x y \<Longrightarrow> in_bounds R (\<lambda>s. (x, s)) (\<lambda>s. (y, s))"
  by (simp add: in_bounds_def)

lemma consumes_result [consumes_intros]: "consumes (\<lambda>s. (x, s))"
  by (auto simp: consumes_def intro: exI [of _ 0])

lemma is_valid_asn1_integer_cong: "cbs_eq s t \<Longrightarrow> CBS_is_valid_asn1_integer s = CBS_is_valid_asn1_integer t"
  by (simp add: is_valid_asn1_integer_eq cbs_eq_def)

lemma is_unsigned_asn1_integer_cong: "cbs_eq s t \<Longrightarrow> CBS_is_unsigned_asn1_integer s = CBS_is_unsigned_asn1_integer t"
  by (simp add: CBS_is_unsigned_asn1_integer_def is_valid_asn1_integer_cong)

lemma cbs_eq_take: "cbs_eq s t \<Longrightarrow> take (cbs_len s) (cbs_data s) = take (cbs_len t) (cbs_data t)"
  by (simp add: cbs_eq_def cbs_bytes_def)

lemma cbs_eq_nth: "cbs_eq s t \<Longrightarrow> i < cbs_len s \<Longrightarrow> cbs_data s ! i = cbs_data t ! i"
  using cbs_data_nth [of s i] cbs_data_nth [of t i] cbs_eq_len [of s t] by (simp add: cbs_eq_def)

lemma in_bounds_asn1_uint64 [in_bounds_intros]: "in_bounds (=) CBS_get_asn1_uint64 CBS_get_asn1_uint64"
  unfolding CBS_get_asn1_uint64_def
proof (rule in_bounds_bind [OF in_bounds_get_asn1])
  fix a b assume ab: "cbs_eq a b"
  show "in_bounds (=)
      (op_bind (op_check (CBS_is_unsigned_asn1_integer a)) (\<lambda>_ s. (asn1_uint64_loop 0 (take (CBS_len a) (CBS_data a)), s)))
      (op_bind (op_check (CBS_is_unsigned_asn1_integer b)) (\<lambda>_ s. (asn1_uint64_loop 0 (take (CBS_len b) (CBS_data b)), s)))"
    by (rule in_bounds_bind [OF in_bounds_check [OF is_unsigned_asn1_integer_cong [OF ab]]])
      (simp add: in_bounds_result CBS_data_def cbs_eq_take [OF ab] option.rel_eq)
qed

lemma foldl_upt_cong: "(\<And>a i. i < n \<Longrightarrow> f a i = g a i) \<Longrightarrow> foldl f a [0..<n] = foldl g a [0..<(n :: nat)]"
  by (rule foldl_cong) simp_all

lemma in_bounds_asn1_int64 [in_bounds_intros]: "in_bounds (=) CBS_get_asn1_int64 CBS_get_asn1_int64"
  unfolding CBS_get_asn1_int64_def
proof (rule in_bounds_bind [OF in_bounds_get_asn1])
  fix a b assume ab: "cbs_eq a b"
  have ext: "foldl (\<lambda>se i. se[i := cbs_data a ! (cbs_len b - i - 1)]) x [0..<cbs_len b]
      = foldl (\<lambda>se i. se[i := cbs_data b ! (cbs_len b - i - 1)]) x [0..<cbs_len b]" for x
    by (rule foldl_upt_cong) (simp add: cbs_eq_nth [OF ab] cbs_eq_len [OF ab])
  show "in_bounds (=)
      (\<lambda>s. case CBS_is_valid_asn1_integer a of None \<Rightarrow> (None, s)
        | Some is_negative \<Rightarrow> let data = CBS_data a; len = CBS_len a in if len > 8 then (None, s)
            else let sign_extend = replicate 8 (if is_negative then 0xff else 0);
                sign_extend = foldl (\<lambda>se i. se[i := data ! (len - i - 1)]) sign_extend [0..<len]
              in (Some (le_u64 sign_extend), s))
      (\<lambda>s. case CBS_is_valid_asn1_integer b of None \<Rightarrow> (None, s)
        | Some is_negative \<Rightarrow> let data = CBS_data b; len = CBS_len b in if len > 8 then (None, s)
            else let sign_extend = replicate 8 (if is_negative then 0xff else 0);
                sign_extend = foldl (\<lambda>se i. se[i := data ! (len - i - 1)]) sign_extend [0..<len]
              in (Some (le_u64 sign_extend), s))"
    unfolding is_valid_asn1_integer_cong [OF ab] CBS_data_def CBS_len_eq Let_def cbs_eq_len [OF ab] ext
    by (cases "CBS_is_valid_asn1_integer b") (simp_all add: in_bounds_def)
qed

lemma in_bounds_asn1_bool [in_bounds_intros]: "in_bounds (=) CBS_get_asn1_bool CBS_get_asn1_bool"
  unfolding CBS_get_asn1_bool_def
proof (rule in_bounds_bind [OF in_bounds_get_asn1])
  fix a b assume ab: "cbs_eq a b"
  show "in_bounds (=)
      (op_bind (op_check (CBS_len a = 1)) (\<lambda>_. let value = CBS_data a ! 0
        in op_bind (op_check (\<not> (value \<noteq> 0 \<and> value \<noteq> 0xff))) (\<lambda>_. op_ret (value \<noteq> 0))))
      (op_bind (op_check (CBS_len b = 1)) (\<lambda>_. let value = CBS_data b ! 0
        in op_bind (op_check (\<not> (value \<noteq> 0 \<and> value \<noteq> 0xff))) (\<lambda>_. op_ret (value \<noteq> 0))))"
    using cbs_eq_nth [OF ab, of 0] cbs_eq_len [OF ab]
    by (cases "cbs_len a = 1") (simp_all add: in_bounds_def CBS_data_def op_bind_def Let_def)
qed

lemma peek_asn1_tag_cong: "cbs_eq s t \<Longrightarrow> CBS_peek_asn1_tag s tag = CBS_peek_asn1_tag t tag"
  using in_boundsD(1) [OF in_bounds_parse_asn1_tag, of s t]
  by (auto simp: CBS_peek_asn1_tag_def option.rel_eq split: prod.split option.split)

lemma in_bounds_optional_asn1 [in_bounds_intros]:
  "in_bounds (rel_option cbs_eq) (CBS_get_optional_asn1 tag) (CBS_get_optional_asn1 tag)"
proof (rule in_boundsI)
  fix s t assume st: "cbs_eq s t"
  have "in_bounds (rel_option cbs_eq) (op_bind (CBS_get_asn1 tag) (\<lambda>out. op_ret (Some out)))
      (op_bind (CBS_get_asn1 tag) (\<lambda>out. op_ret (Some out)))"
    by (rule in_bounds_bind [OF in_bounds_get_asn1]) (simp add: in_bounds_ret)
  from in_boundsD [OF this st] show
    "rel_option (rel_option cbs_eq) (fst (CBS_get_optional_asn1 tag s)) (fst (CBS_get_optional_asn1 tag t)) \<and>
      cbs_eq (snd (CBS_get_optional_asn1 tag s)) (snd (CBS_get_optional_asn1 tag t))"
    using st peek_asn1_tag_cong [OF st, of tag] by (simp add: CBS_get_optional_asn1_def)
qed

lemma in_bounds_in_child:
  assumes "in_bounds R f g" "cbs_eq a b"
  shows "in_bounds R (in_child f a) (in_child g b)"
proof (rule in_boundsI)
  fix s t assume st: "cbs_eq s t"
  obtain x a' y b' where fg: "f a = (x, a')" "g b = (y, b')" by fastforce
  have "rel_option R x y" "cbs_eq a' b'" using in_boundsD [OF assms] by (simp_all add: fg)
  then show "rel_option R (fst (in_child f a s)) (fst (in_child g b t)) \<and>
      cbs_eq (snd (in_child f a s)) (snd (in_child g b t))"
    using st cbs_eq_len [of a' b'] by cases (simp_all add: in_child_def fg)
qed

lemma in_bounds_optional_octet_string [in_bounds_intros]:
  "in_bounds (rel_option cbs_eq) (CBS_get_optional_asn1_octet_string tag) (CBS_get_optional_asn1_octet_string tag)"
  unfolding CBS_get_optional_asn1_octet_string_def
proof (rule in_bounds_bind [OF in_bounds_optional_asn1])
  fix a b assume "rel_option cbs_eq a b"
  then show "in_bounds (rel_option cbs_eq)
      (case a of Some child \<Rightarrow> op_bind (in_child (CBS_get_asn1 CBS_ASN1_OCTETSTRING) child) (\<lambda>out. op_ret (Some out)) | None \<Rightarrow> op_ret None)
      (case b of Some child \<Rightarrow> op_bind (in_child (CBS_get_asn1 CBS_ASN1_OCTETSTRING) child) (\<lambda>out. op_ret (Some out)) | None \<Rightarrow> op_ret None)"
    by cases (auto intro!: in_bounds_ret in_bounds_bind [OF in_bounds_in_child [OF in_bounds_get_asn1]])
qed

lemma in_bounds_optional_uint64 [in_bounds_intros]:
  "in_bounds (=) (CBS_get_optional_asn1_uint64 tag d) (CBS_get_optional_asn1_uint64 tag d)"
  unfolding CBS_get_optional_asn1_uint64_def
proof (rule in_bounds_bind [OF in_bounds_optional_asn1])
  fix a b assume "rel_option cbs_eq a b"
  then show "in_bounds (=) (case a of Some child \<Rightarrow> in_child CBS_get_asn1_uint64 child | None \<Rightarrow> op_ret d)
      (case b of Some child \<Rightarrow> in_child CBS_get_asn1_uint64 child | None \<Rightarrow> op_ret d)"
    by cases (auto intro!: in_bounds_ret in_bounds_in_child in_bounds_asn1_uint64)
qed

lemma in_bounds_optional_bool [in_bounds_intros]:
  "in_bounds (=) (CBS_get_optional_asn1_bool tag d) (CBS_get_optional_asn1_bool tag d)"
  unfolding CBS_get_optional_asn1_bool_def
proof (rule in_bounds_bind [OF in_bounds_optional_asn1])
  fix a b assume "rel_option cbs_eq a b"
  then show "in_bounds (=)
      (case a of Some child \<Rightarrow> (\<lambda>s. case CBS_get_asn1 CBS_ASN1_BOOLEAN child of (None, _) \<Rightarrow> (None, s)
        | (Some child2, child) \<Rightarrow> if CBS_len child2 \<noteq> 1 \<or> CBS_len child \<noteq> 0 then (None, s)
            else let boolean = CBS_data child2 ! 0 in if boolean = 0 then (Some 0, s)
              else if boolean = 0xff then (Some 1, s) else (None, s)) | None \<Rightarrow> op_ret d)
      (case b of Some child \<Rightarrow> (\<lambda>s. case CBS_get_asn1 CBS_ASN1_BOOLEAN child of (None, _) \<Rightarrow> (None, s)
        | (Some child2, child) \<Rightarrow> if CBS_len child2 \<noteq> 1 \<or> CBS_len child \<noteq> 0 then (None, s)
            else let boolean = CBS_data child2 ! 0 in if boolean = 0 then (Some 0, s)
              else if boolean = 0xff then (Some 1, s) else (None, s)) | None \<Rightarrow> op_ret d)"
  proof cases
    case (Some c e)
    obtain x c' y e' where g: "CBS_get_asn1 CBS_ASN1_BOOLEAN c = (x, c')" "CBS_get_asn1 CBS_ASN1_BOOLEAN e = (y, e')"
      by fastforce
    have xy: "rel_option cbs_eq x y" "cbs_eq c' e'"
      using in_boundsD [OF in_bounds_get_asn1 Some(3), of CBS_ASN1_BOOLEAN] by (simp_all add: g)
    note len = cbs_eq_len [OF xy(2)]
    from xy(1) show ?thesis
    proof cases
      case (Some p q)
      then show ?thesis
        using len cbs_eq_nth [of p q 0] cbs_eq_len [of p q] \<open>a = _\<close> \<open>b = _\<close>
        by (cases "cbs_len p = 1") (simp_all add: in_bounds_def g CBS_data_def Let_def)
    qed (simp add: \<open>a = _\<close> \<open>b = _\<close> in_bounds_def g)
  qed (simp add: in_bounds_ret)
qed

lemma consumes_in_child [consumes_intros]: "consumes (in_child f c)"
  by (rule consumesI) (auto simp: in_child_def split: option.split prod.split intro: exI [of _ 0])

lemma consumes_optional [consumes_intros]: "consumes (CBS_get_optional_asn1 tag)"
proof (rule consumesI)
  fix s assume ok: "cbs_ok s"
  have "consumes (op_bind (CBS_get_asn1 tag) (\<lambda>out. op_ret (Some out)))" by (intro consumes_intros)
  then show "\<exists>n\<le>cbs_len s. snd (CBS_get_optional_asn1 tag s) = cbs_adv n s"
    using ok unfolding consumes_def CBS_get_optional_asn1_def by (auto intro: exI [of _ 0])
qed

lemma consumes_values [consumes_intros]:
  "consumes CBS_get_asn1_uint64" "consumes CBS_get_asn1_bool"
  unfolding CBS_get_asn1_uint64_def CBS_get_asn1_bool_def Let_def by (intro consumes_intros)+

lemma consumes_asn1_int64 [consumes_intros]: "consumes CBS_get_asn1_int64"
  unfolding CBS_get_asn1_int64_def Let_def
  by (intro consumes_intros, rule consumesI) (auto split: option.split intro: exI [of _ 0])

lemma consumes_optional_values [consumes_intros]:
  "consumes (CBS_get_optional_asn1_octet_string tag)" "consumes (CBS_get_optional_asn1_uint64 tag d)"
  "consumes (CBS_get_optional_asn1_bool tag i)"
proof -
  have oct: "consumes (case p of Some child \<Rightarrow> op_bind (in_child (CBS_get_asn1 CBS_ASN1_OCTETSTRING) child)
      (\<lambda>out. op_ret (Some out)) | None \<Rightarrow> op_ret None)" for p
    by (cases p) (simp_all add: consumes_intros)
  show "consumes (CBS_get_optional_asn1_octet_string tag)"
    unfolding CBS_get_optional_asn1_octet_string_def by (intro consumes_bind consumes_optional oct)
  have uint: "consumes (case p of Some child \<Rightarrow> in_child CBS_get_asn1_uint64 child | None \<Rightarrow> op_ret d)" for p
    by (cases p) (simp_all add: consumes_intros)
  show "consumes (CBS_get_optional_asn1_uint64 tag d)"
    unfolding CBS_get_optional_asn1_uint64_def by (intro consumes_bind consumes_optional uint)
  show "consumes (CBS_get_optional_asn1_bool tag i)"
    unfolding CBS_get_optional_asn1_bool_def Let_def
  proof (intro consumes_bind consumes_optional)
    fix p :: "cbs option"
    show "consumes (case p of Some child \<Rightarrow> (\<lambda>s. case CBS_get_asn1 CBS_ASN1_BOOLEAN child of (None, _) \<Rightarrow> (None, s)
        | (Some child2, child) \<Rightarrow> if CBS_len child2 \<noteq> 1 \<or> CBS_len child \<noteq> 0 then (None, s)
            else if CBS_data child2 ! 0 = 0 then (Some 0, s)
              else if CBS_data child2 ! 0 = 0xff then (Some 1, s) else (None, s)) | None \<Rightarrow> op_ret i)"
      by (cases p) (auto intro!: consumes_intros consumesI exI [of _ 0] split: prod.split option.split)
  qed
qed

section \<open>Decimal numbers\<close>

lemma u64_decimal_step:
  assumes "cbs_ok s"
  shows "u64_decimal_loop v seen s =
    (case cbs_bytes s of
       b # _ \<Rightarrow>
         if is_digit b then
           if (v = 0 \<and> seen) \<or> v > -1 div 10 \<or> v * 10 > -1 - (ucast b - 48) then (None, cbs_adv 1 s)
           else u64_decimal_loop (v * 10 + (ucast b - 48)) True (cbs_adv 1 s)
         else (if seen then Some v else None, s)
     | [] \<Rightarrow> (if seen then Some v else None, s))"
proof (cases "cbs_bytes s")
  case Nil
  then have "cbs_len s = 0" using length_cbs_bytes [OF assms] by simp
  with Nil show ?thesis by (subst u64_decimal_loop.simps) simp
next
  case (Cons b bs)
  then have len: "cbs_len s \<noteq> 0" using length_cbs_bytes [OF assms] by auto
  then have "CBS_data s ! 0 = b"
    using cbs_data_nth [OF assms, of 0] Cons by (simp add: CBS_data_def)
  with Cons len show ?thesis
    by (subst u64_decimal_loop.simps) (simp add: CBS_skip_eq Let_def)
qed

lemma in_bounds_decimal_loop:
  "cbs_eq s t \<Longrightarrow> fst (u64_decimal_loop v seen s) = fst (u64_decimal_loop v seen t) \<and>
    cbs_eq (snd (u64_decimal_loop v seen s)) (snd (u64_decimal_loop v seen t)) \<and>
    (\<exists>n\<le>cbs_len s. snd (u64_decimal_loop v seen s) = cbs_adv n s)"
proof (induction "cbs_len s" arbitrary: v seen s t rule: less_induct)
  case less
  note ok = cbs_eq_ok [OF less.prems]
  note steps = u64_decimal_step [OF ok(1)] u64_decimal_step [OF ok(2)]
  have stay: "\<exists>n\<le>cbs_len s. s = cbs_adv n s" by (metis cbs_adv_0 le0)
  show ?case
  proof (cases "cbs_bytes s")
    case Nil
    then show ?thesis
      using less.prems stay cbs_eq_bytes [OF less.prems] by (simp add: steps)
  next
    case (Cons b bs)
    then have len: "1 \<le> cbs_len s" using length_cbs_bytes [OF ok(1)] by (cases "cbs_len s") auto
    let ?w = "v * 10 + (ucast b - 48)"
    have eq: "cbs_eq (cbs_adv 1 s) (cbs_adv 1 t)" by (rule cbs_eq_adv [OF less.prems len])
    have one: "\<exists>n\<le>cbs_len s. cbs_adv 1 s = cbs_adv n s" using len by blast
    have "fst (u64_decimal_loop ?w True (cbs_adv 1 s)) = fst (u64_decimal_loop ?w True (cbs_adv 1 t)) \<and>
        cbs_eq (snd (u64_decimal_loop ?w True (cbs_adv 1 s))) (snd (u64_decimal_loop ?w True (cbs_adv 1 t))) \<and>
        (\<exists>n\<le>cbs_len (cbs_adv 1 s). snd (u64_decimal_loop ?w True (cbs_adv 1 s)) = cbs_adv n (cbs_adv 1 s))"
      by (rule less.hyps) (use len eq in simp_all)
    moreover from this have "\<exists>n\<le>cbs_len s. snd (u64_decimal_loop ?w True (cbs_adv 1 s)) = cbs_adv n s"
      using len unfolding cbs_adv_adv cbs_len_adv
      by (metis add.commute le_diff_conv2 plus_1_eq_Suc)
    ultimately show ?thesis
      using Cons cbs_eq_bytes [OF less.prems] less.prems stay eq one by (simp only: steps list.case) auto
  qed
qed

lemma in_bounds_u64_decimal [in_bounds_intros]: "in_bounds (=) CBS_get_u64_decimal CBS_get_u64_decimal"
  unfolding CBS_get_u64_decimal_def
  by (rule in_boundsI) (use in_bounds_decimal_loop in \<open>simp add: option.rel_eq\<close>)

lemma consumes_u64_decimal [consumes_intros]: "consumes CBS_get_u64_decimal"
  unfolding CBS_get_u64_decimal_def
  by (rule consumesI) (use in_bounds_decimal_loop in \<open>simp add: cbs_eq_def\<close>)

section \<open>The properties\<close>

text \<open>(C31) No reader looks past the end of its string: given two strings with the same bytes in
  bounds, with anything at all in memory behind them, each of the readers succeeds on both or on
  neither, with the same value, sub-strings with the same bytes and the same rest.\<close>

theorem readers_stay_in_bounds:
  "in_bounds (=) CBS_get_u8 CBS_get_u8 \<and> in_bounds (=) CBS_get_u16 CBS_get_u16 \<and>
   in_bounds (=) CBS_get_u16le CBS_get_u16le \<and> in_bounds (=) CBS_get_u24 CBS_get_u24 \<and>
   in_bounds (=) CBS_get_u32 CBS_get_u32 \<and> in_bounds (=) CBS_get_u32le CBS_get_u32le \<and>
   in_bounds (=) CBS_get_u64 CBS_get_u64 \<and> in_bounds (=) CBS_get_u64le CBS_get_u64le \<and>
   in_bounds (=) CBS_get_last_u8 CBS_get_last_u8 \<and> in_bounds (=) (CBS_skip n) (CBS_skip n) \<and>
   in_bounds cbs_eq (CBS_get_bytes n) (CBS_get_bytes n) \<and>
   in_bounds (=) (CBS_copy_bytes n) (CBS_copy_bytes n) \<and>
   in_bounds cbs_eq CBS_get_u8_length_prefixed CBS_get_u8_length_prefixed \<and>
   in_bounds cbs_eq CBS_get_u16_length_prefixed CBS_get_u16_length_prefixed \<and>
   in_bounds cbs_eq CBS_get_u24_length_prefixed CBS_get_u24_length_prefixed \<and>
   in_bounds cbs_eq (CBS_get_until_first c) (CBS_get_until_first c) \<and>
   in_bounds (=) CBS_get_u64_decimal CBS_get_u64_decimal \<and>
   in_bounds (=) parse_asn1_tag parse_asn1_tag \<and>
   in_bounds element_eq CBS_get_any_asn1_element CBS_get_any_asn1_element \<and>
   in_bounds element_eq CBS_get_any_ber_asn1_element CBS_get_any_ber_asn1_element \<and>
   in_bounds (rel_prod cbs_eq (=)) CBS_get_any_asn1 CBS_get_any_asn1 \<and>
   in_bounds cbs_eq (CBS_get_asn1 tag) (CBS_get_asn1 tag) \<and>
   in_bounds cbs_eq (CBS_get_asn1_element tag) (CBS_get_asn1_element tag) \<and>
   in_bounds (=) CBS_get_asn1_uint64 CBS_get_asn1_uint64 \<and>
   in_bounds (=) CBS_get_asn1_int64 CBS_get_asn1_int64 \<and>
   in_bounds (=) CBS_get_asn1_bool CBS_get_asn1_bool \<and>
   in_bounds (rel_option cbs_eq) (CBS_get_optional_asn1 tag) (CBS_get_optional_asn1 tag) \<and>
   in_bounds (rel_option cbs_eq) (CBS_get_optional_asn1_octet_string tag) (CBS_get_optional_asn1_octet_string tag) \<and>
   in_bounds (=) (CBS_get_optional_asn1_uint64 tag d) (CBS_get_optional_asn1_uint64 tag d) \<and>
   in_bounds (=) (CBS_get_optional_asn1_bool tag i) (CBS_get_optional_asn1_bool tag i)"
  unfolding CBS_get_any_asn1_element_def CBS_get_any_ber_asn1_element_def length_prefixed_defs
  by (intro conjI in_bounds_get_u8 in_bounds_integers in_bounds_get_last_u8 in_bounds_skip in_bounds_get_bytes
      in_bounds_copy_bytes in_bounds_length_prefixed in_bounds_get_until_first in_bounds_u64_decimal
      in_bounds_parse_asn1_tag in_bounds_any_element in_bounds_get_any_asn1 in_bounds_get_asn1
      in_bounds_get_asn1_element in_bounds_asn1_uint64 in_bounds_asn1_int64 in_bounds_asn1_bool
      in_bounds_optional_asn1 in_bounds_optional_octet_string in_bounds_optional_uint64
      in_bounds_optional_bool) simp_all

text \<open>On success and on failure alike, a reader from the front leaves a suffix of the string it
  was given: it never moves the start back, never past the end, and never changes the end.\<close>

theorem readers_only_advance:
  "consumes CBS_get_u8 \<and> consumes CBS_get_u16 \<and> consumes CBS_get_u16le \<and> consumes CBS_get_u24 \<and>
   consumes CBS_get_u32 \<and> consumes CBS_get_u32le \<and> consumes CBS_get_u64 \<and> consumes CBS_get_u64le \<and>
   consumes (CBS_skip n) \<and> consumes (CBS_get_bytes n) \<and> consumes (CBS_copy_bytes n) \<and>
   consumes CBS_get_u8_length_prefixed \<and> consumes CBS_get_u16_length_prefixed \<and>
   consumes CBS_get_u24_length_prefixed \<and> consumes (CBS_get_until_first c) \<and>
   consumes CBS_get_u64_decimal \<and> consumes CBS_get_any_asn1_element \<and>
   consumes CBS_get_any_ber_asn1_element \<and> consumes CBS_get_any_asn1 \<and> consumes (CBS_get_asn1 tag) \<and>
   consumes (CBS_get_asn1_element tag) \<and> consumes CBS_get_asn1_uint64 \<and> consumes CBS_get_asn1_int64 \<and>
   consumes CBS_get_asn1_bool \<and> consumes (CBS_get_optional_asn1 tag) \<and>
   consumes (CBS_get_optional_asn1_octet_string tag) \<and> consumes (CBS_get_optional_asn1_uint64 tag d) \<and>
   consumes (CBS_get_optional_asn1_bool tag i)"
  unfolding CBS_get_any_asn1_element_def CBS_get_any_ber_asn1_element_def length_prefixed_defs
  by (intro conjI consumes_get_u8 consumes_integers consumes_skip consumes_get_bytes consumes_copy_bytes
      consumes_length_prefixed consumes_get_until_first consumes_u64_decimal consumes_any_element
      consumes_get_asn1 consumes_values consumes_asn1_int64 consumes_optional consumes_optional_values)

lemma u64_decimal_iff:
  assumes "cbs_ok s"
  shows "CBS_get_u64_decimal s = (Some v, t) \<longleftrightarrow>
    (let ds = takeWhile is_digit (cbs_bytes s)
     in ds \<noteq> [] \<and> (hd ds = 48 \<longrightarrow> length ds = 1) \<and> unat v = dec_val 0 ds \<and> t = cbs_adv (length ds) s)"
proof -
  let ?ds = "takeWhile is_digit (cbs_bytes s)"
  have len: "\<not> length ?ds > 1 \<longleftrightarrow> length ?ds = 1" if "?ds \<noteq> []"
    using that by (cases ?ds) auto
  have small: "unat v < 2 ^ 64" using unsigned_less [of v, where 'a = nat] by simp
  have val: "word_of_nat n = v \<longleftrightarrow> unat v = n" if "n < 2 ^ 64" for n
    using that by (auto simp: unat_of_nat)
  have "fst (CBS_get_u64_decimal s) = Some v \<longleftrightarrow>
      ?ds \<noteq> [] \<and> (hd ?ds = 48 \<longrightarrow> length ?ds = 1) \<and> unat v = dec_val 0 ?ds"
    unfolding CBS_get_u64_decimal_result(1) [OF assms] u64_decimal_result_def
    using len small val [of "dec_val 0 ?ds"] by (cases "dec_val 0 ?ds < 2 ^ 64") auto
  then show ?thesis
    unfolding Let_def using CBS_get_u64_decimal_result(2) [OF assms] by (metis fst_conv option.distinct(1) prod.collapse snd_conv)
qed

text \<open>\<open>CBS_get_u64_decimal\<close> reads the longest run of digits and succeeds exactly when the run is
  a decimal number below \<open>2 ^ 64\<close> without leading zeros: the overflow checks on the 64-bit
  accumulator neither refuse a number that fits nor accept one that does not.\<close>

theorem u64_decimal_exact:
  assumes "cbs_ok s"
  shows "CBS_get_u64_decimal s = (Some v, t) \<longleftrightarrow>
    (let ds = takeWhile is_digit (cbs_bytes s)
     in ds \<noteq> [] \<and> (hd ds = 48 \<longrightarrow> length ds = 1) \<and> unat v = dec_val 0 ds \<and> t = cbs_adv (length ds) s)"
  using assms by (rule u64_decimal_iff)

theorem u64_decimal_exact_witness:
  "CBS_get_u64_decimal (CBS_init [52, 50, 59] 3) = (Some 42, CBS_init [59] 1)"
  by (subst u64_decimal_exact) (simp_all add: is_digit_def CBS_init_def cbs_adv_def cbs_ok_def cbs_bytes_def)

text \<open>(C3) The DER element parser accepts exactly the elements of the DER grammar: an identifier
  with its number in the shortest form, a length in the shortest form below \<open>2 ^ 32\<close>, the content;
  its outputs are the element, its tag and the length of its header.\<close>

theorem der_reader_exact:
  assumes "cbs_ok s"
  shows "CBS_get_any_asn1_element s = (Some el, t) \<longleftrightarrow> is_der_element s el t"
  using assms by (rule der_element_iff)

theorem der_reader_exact_witness:
  "is_der_element (CBS_init [4, 2, 7, 8, 9] 5)
     \<lparr>el_out = CBS_init [4, 2, 7, 8, 9] 4, el_tag = 4, el_header_len = 2, el_ber_found = False, el_indefinite = False\<rparr>
     (CBS_init [9] 1)"
proof -
  have "CBS_get_any_asn1_element (CBS_init [4, 2, 7, 8, 9] 5) =
     (Some \<lparr>el_out = CBS_init [4, 2, 7, 8, 9] 4, el_tag = 4, el_header_len = 2, el_ber_found = False,
        el_indefinite = False\<rparr>, CBS_init [9] 1)"
    by (simp add: CBS_get_any_asn1_element_def cbs_get_any_asn1_element_def parse_asn1_tag_def CBS_get_u8_def
        cbs_get_def op_bind_def CBS_init_def CBS_get_bytes_def Let_def)
  then show ?thesis
    by (subst der_reader_exact [symmetric]) (simp_all add: cbs_ok_def CBS_init_def)
qed

lemma ber_agrees_der:
  "CBS_get_any_asn1_element s = (Some el, t) \<longleftrightarrow>
    CBS_get_any_ber_asn1_element s = (Some el, t) \<and> \<not> el_ber_found el"
proof -
  obtain x s1 where p: "parse_asn1_tag s = (x, s1)" by fastforce
  obtain y s2 where g: "CBS_get_u8 s1 = (y, s2)" by fastforce
  have finish: "op_bind (CBS_get_bytes n) (\<lambda>out. op_ret \<lparr>el_out = out, el_tag = tag, el_header_len = h,
        el_ber_found = b, el_indefinite = i\<rparr>) s = (Some el, t) \<Longrightarrow> el_ber_found el = b" for n tag h b i
    by auto
  show ?thesis
  proof (cases "x = None \<or> y = None")
    case True
    then show ?thesis
      by (auto simp: CBS_get_any_asn1_element_def CBS_get_any_ber_asn1_element_def cbs_get_any_asn1_element_def p g
          split: option.split)
  next
    case False
    then obtain tag lb where xy: "x = Some tag" "y = Some lb" by auto
    obtain z s3 where u: "cbs_get_u (unat (lb AND 0x7f)) s2 = (z, s3)" by fastforce
    show ?thesis
      unfolding CBS_get_any_asn1_element_def CBS_get_any_ber_asn1_element_def cbs_get_any_asn1_element_def p g xy
        prod.case option.case Let_def u
      by (cases z; simp only: option.case prod.case)
        (auto dest: finish)
  qed
qed

text \<open>(C35) The BER parser agrees with the DER parser wherever it finds no BER-only construct, and
  reports one wherever the DER parser fails and it does not: \<open>el_ber_found\<close> is exact.\<close>

theorem ber_reader_extends_der:
  "CBS_get_any_asn1_element s = (Some el, t) \<longleftrightarrow>
    CBS_get_any_ber_asn1_element s = (Some el, t) \<and> \<not> el_ber_found el"
  by (rule ber_agrees_der)

end
