(* ===== verification/Wire_Format.thy ===== *)
theory Wire_Format
  imports Codec Cbs_Safety
begin

text \<open>
  What the reader and the writer of \<open>crypto/bytestring\<close> promise together: flushing refines the
  abstract builder, the writers append the encodings of their values, an error is permanent, and
  what is written with memory available is read back.
\<close>

section \<open>A builder that has failed\<close>

text \<open>The operation fails, leaves the buffer alone and the builder in error.\<close>

definition latched :: "(cbb, 'a) op \<Rightarrow> bool" where
  "latched f \<longleftrightarrow> (\<forall>s. b_error s \<longrightarrow> fst (f s) = None \<and> b_error (snd (f s)) \<and>
    b_buf (snd (f s)) = b_buf s \<and> b_len (snd (f s)) = b_len s \<and> b_cap (snd (f s)) = b_cap s)"

named_theorems latched_intros \<open>operations that fail on a builder in error\<close>

lemma latched_flush [latched_intros]: "latched (CBB_flush malloc d)"
  unfolding latched_def by (simp add: CBB_flush.simps)

lemma latched_case:
  assumes "latched m" "b_error s"
  obtains s' :: cbb where "m s = (None, s')" "b_error s'" "b_buf s' = b_buf s" "b_len s' = b_len s" "b_cap s' = b_cap s"
  using assms unfolding latched_def by (metis prod.collapse)

lemma latched_bind [latched_intros]:
  assumes "latched m" shows "latched (op_bind m f)"
  unfolding latched_def
proof (intro allI impI)
  fix s :: cbb assume "b_error s"
  with assms obtain s' where "m s = (None, s')" "b_error s'" "b_buf s' = b_buf s" "b_len s' = b_len s" "b_cap s' = b_cap s"
    by (rule latched_case)
  then show "fst (op_bind m f s) = None \<and> b_error (snd (op_bind m f s)) \<and>
      b_buf (snd (op_bind m f s)) = b_buf s \<and> b_len (snd (op_bind m f s)) = b_len s \<and>
      b_cap (snd (op_bind m f s)) = b_cap s" by simp
qed

lemma latched_or_error [latched_intros]:
  assumes "latched m" shows "latched (or_cbb_error d m)"
  unfolding latched_def
proof (intro allI impI)
  fix s :: cbb assume "b_error s"
  with assms obtain s' where "m s = (None, s')" "b_error s'" "b_buf s' = b_buf s" "b_len s' = b_len s" "b_cap s' = b_cap s"
    by (rule latched_case)
  then show "fst (or_cbb_error d m s) = None \<and> b_error (snd (or_cbb_error d m s)) \<and>
      b_buf (snd (or_cbb_error d m s)) = b_buf s \<and> b_len (snd (or_cbb_error d m s)) = b_len s \<and>
      b_cap (snd (or_cbb_error d m s)) = b_cap s" by (simp add: or_cbb_error_def cbb_on_error_def)
qed

lemma latched_if [latched_intros]: "latched m \<Longrightarrow> latched n \<Longrightarrow> latched (if b then m else n)"
  by simp

lemma latched_add_space [latched_intros]: "latched (CBB_add_space malloc d n)"
  unfolding CBB_add_space_def by (intro latched_intros)

lemma latched_add_u [latched_intros]: "latched (cbb_add_u malloc d v n)"
  unfolding cbb_add_u_def by (intro latched_intros)

lemma latched_add_length_prefixed [latched_intros]: "latched (cbb_add_length_prefixed malloc d n)"
  unfolding cbb_add_length_prefixed_def by (intro latched_intros)

lemma latched_add_asn1 [latched_intros]: "latched (CBB_add_asn1 malloc d tag)"
  unfolding CBB_add_asn1_def by (intro latched_intros)

lemmas add_integer_defs = CBB_add_u8_def CBB_add_u16_def CBB_add_u16le_def CBB_add_u24_def CBB_add_u32_def
  CBB_add_u32le_def CBB_add_u64_def CBB_add_u64le_def
lemmas add_prefixed_defs = CBB_add_u8_length_prefixed_def CBB_add_u16_length_prefixed_def
  CBB_add_u24_length_prefixed_def

lemma latched_add_asn1_uint64 [latched_intros]: "latched (CBB_add_asn1_uint64_with_tag malloc d v tag)"
  unfolding CBB_add_asn1_uint64_with_tag_def by (intro latched_intros)

lemma latched_add_asn1_int64 [latched_intros]: "latched (CBB_add_asn1_int64_with_tag malloc d v tag)"
  unfolding CBB_add_asn1_int64_with_tag_def Let_def by (intro latched_intros)

lemma latched_finish [latched_intros]: "latched (CBB_finish malloc d n)"
proof (cases "d = 0")
  case True
  then show ?thesis
    unfolding CBB_finish_def by (simp add: op_check_true latched_bind latched_flush)
qed (simp add: CBB_finish_def latched_def op_bind_def)

text \<open>The operation leaves the error flag as it was.\<close>

definition keeps_error :: "(cbb, 'a) op \<Rightarrow> bool" where
  "keeps_error f \<longleftrightarrow> (\<forall>s. b_error (snd (f s)) = b_error s)"

lemma keeps_error_did_write: "keeps_error (CBB_did_write d n)"
  unfolding keeps_error_def by (simp add: CBB_did_write_def Let_def)

text \<open>\<open>CBB_did_write\<close> does not look at the flag: it moves the length of a builder in error.\<close>

lemma did_write_ignores_error:
  "\<exists>s s'. b_error s \<and> CBB_did_write 0 1 s = (Some (), s') \<and> b_len s = 0 \<and> b_len s' = 1"
  by (rule exI [of _ "CBB_init_fixed (Some [7]) 1 \<lparr>b_error := True\<rparr>"])
    (simp add: CBB_did_write_def CBB_init_fixed_def cbb_init_def sz_add_def)

text \<open>(C39) An error in a builder is permanent. On a builder whose error flag is set, whichever builder
  of the chain they are called on, each of these functions of \<open>cbb.c\<close> fails and changes neither the
  bytes written so far nor the flag: \<open>CBB_flush\<close>, \<open>CBB_finish\<close>, \<open>CBB_add_space\<close>, \<open>CBB_reserve\<close>, and
  those that add bytes, zeros, integers of every width and byte order, length-prefixed children, ASN.1
  elements, integers, octet strings and booleans. The exception is \<open>CBB_did_write\<close>, which does not look
  at the flag and can succeed (\<open>did_write_ignores_error\<close>); of it the theorem says that it never changes
  the flag, so that what is called after it still fails.\<close>

theorem builder_error_is_permanent:
  "latched (CBB_flush malloc d) \<and> latched (CBB_finish malloc d null) \<and> latched (CBB_add_space malloc d n) \<and>
   latched (CBB_reserve malloc d n) \<and> latched (CBB_add_bytes malloc d bs n) \<and> latched (CBB_add_zeros malloc d n) \<and>
   latched (CBB_add_u8 malloc d a) \<and> latched (CBB_add_u16 malloc d b) \<and> latched (CBB_add_u16le malloc d b) \<and>
   latched (CBB_add_u24 malloc d c) \<and> latched (CBB_add_u32 malloc d c) \<and> latched (CBB_add_u32le malloc d c) \<and>
   latched (CBB_add_u64 malloc d v) \<and> latched (CBB_add_u64le malloc d v) \<and>
   latched (CBB_add_u8_length_prefixed malloc d) \<and> latched (CBB_add_u16_length_prefixed malloc d) \<and>
   latched (CBB_add_u24_length_prefixed malloc d) \<and> latched (CBB_add_asn1 malloc d tag) \<and>
   latched (CBB_add_asn1_uint64 malloc d v) \<and> latched (CBB_add_asn1_int64 malloc d v) \<and>
   latched (CBB_add_asn1_uint64_with_tag malloc d v tag) \<and> latched (CBB_add_asn1_int64_with_tag malloc d v tag) \<and>
   latched (CBB_add_asn1_octet_string malloc d bs n) \<and> latched (CBB_add_asn1_bool malloc d i) \<and>
   keeps_error (CBB_did_write d n)"
  unfolding add_integer_defs add_prefixed_defs CBB_reserve_def CBB_add_bytes_def CBB_add_zeros_def
    CBB_add_asn1_uint64_def CBB_add_asn1_int64_def CBB_add_asn1_octet_string_def CBB_add_asn1_bool_def
  by (intro conjI latched_intros keeps_error_did_write)

section \<open>The writer and the abstract builder\<close>

text \<open>(C2) Flushing refines the abstract builder: on an object that represents the byte strings of its
  open frames, \<open>CBB_flush\<close> closes the frames above \<open>d\<close>, each with its length prefix in place, the
  long-form ASN.1 lengths included, for which the content moves; and it fails only when a length
  does not fit its prefix or the buffer cannot grow.\<close>

theorem flush_refines_builder:
  assumes "malloc_ok malloc" "represents s B" "d \<le> length (bld_frames B)"
  shows "case CBB_flush malloc d s of
      (Some _, s') \<Rightarrow> \<exists>B'. bld_flush d B = Some B' \<and> represents s' B' \<and> length (bld_frames B') = d
    | (None, s') \<Rightarrow> b_error s' \<and> (\<forall>B'. bld_flush d B = Some B' \<longrightarrow> \<not> room malloc s (bld_len B'))"
  using flush_represents [OF assms] by (auto split: prod.splits option.splits)

definition example_cbb :: cbb where
  "example_cbb = \<lparr>b_buf = Some [9, 0, 7, 8, 0], b_len = 4, b_cap = 5, b_can_resize = False, b_error = False,
     children = [\<lparr>ch_offset = 1, ch_pending_len_len = 1, ch_pending_is_asn1 = False\<rparr>]\<rparr>"

lemma example_represents: "represents example_cbb (Builder [9] [(Fixed 1, [7, 8])])"
proof -
  have "frames_at 1 (children example_cbb) [(Fixed 1, [7, 8])] [0, 7, 8]"
    by (simp add: example_cbb_def child_kind_def child_ok_def)
  then show ?thesis
    unfolding represents_def by (simp add: cbb_ok_def example_cbb_def buf_bytes_def written_def)
qed

theorem flush_refines_builder_witness:
  "\<exists>s'. CBB_flush (\<lambda>n. None) 0 example_cbb = (Some (), s') \<and> represents s' (Builder [9, 2, 7, 8] [])"
proof -
  have "case CBB_flush (\<lambda>n. None) 0 example_cbb of
      (Some _, s') \<Rightarrow> \<exists>B'. bld_flush 0 (Builder [9] [(Fixed 1, [7, 8])]) = Some B' \<and> represents s' B' \<and> length (bld_frames B') = 0
    | (None, s') \<Rightarrow> b_error s' \<and> (\<forall>B'. bld_flush 0 (Builder [9] [(Fixed 1, [7, 8])]) = Some B' \<longrightarrow>
        \<not> room (\<lambda>n. None) example_cbb (bld_len B'))"
    by (rule flush_refines_builder [OF _ example_represents]) (simp_all add: malloc_ok_def)
  moreover have "bld_flush 0 (Builder [9] [(Fixed 1, [7, 8])]) = Some (Builder [9, 2, 7, 8] [])"
    by (simp add: bld_flush_def bld_append_def)
  moreover have "room (\<lambda>n. None) example_cbb 4" by (simp add: room_def example_cbb_def)
  moreover have "bld_len (Builder [9, 2, 7, 8 :: u8] []) = 4" by (simp add: bld_len_def)
  ultimately show ?thesis by (auto split: prod.splits option.splits)
qed

text \<open>(C29) The writers refine appending to the abstract builder: called on the builder at depth \<open>d\<close> of
  any chain, each closes the children above \<open>d\<close> and appends to \<open>d\<close> the encoding of its value, and
  fails only when the children cannot be closed, the value has no encoding or the buffer cannot grow.\<close>

theorem writers_refine_builder:
  assumes "malloc_ok malloc"
  shows "adds malloc d (CBB_add_u8 malloc d a) (Some [a]) \<and>
    adds malloc d (CBB_add_u16 malloc d b) (Some (be_bytes 2 (unat b))) \<and>
    adds malloc d (CBB_add_u24 malloc d c) (if unat c < 2 ^ 24 then Some (be_bytes 3 (unat c)) else None) \<and>
    adds malloc d (CBB_add_u32 malloc d c) (Some (be_bytes 4 (unat c))) \<and>
    adds malloc d (CBB_add_u64 malloc d v) (Some (be_bytes 8 (unat v))) \<and>
    (n < SIZE_LIMIT \<longrightarrow> adds malloc d (CBB_add_zeros malloc d n) (Some (replicate n 0))) \<and>
    (length bs < SIZE_LIMIT \<longrightarrow> adds malloc d (CBB_add_bytes malloc d bs (length bs)) (Some bs)) \<and>
    adds malloc d (CBB_add_asn1_uint64 malloc d v) (Some (der_element CBS_ASN1_INTEGER (uint_content (be_bytes 8 (unat v))))) \<and>
    adds malloc d (CBB_add_asn1_int64 malloc d v) (Some (der_element CBS_ASN1_INTEGER (int_content v))) \<and>
    adds malloc d (CBB_add_asn1_bool malloc d i) (Some (der_element CBS_ASN1_BOOLEAN [if i \<noteq> 0 then 0xff else 0])) \<and>
    (length bs \<le> 0xfffffffe \<longrightarrow>
      adds malloc d (CBB_add_asn1_octet_string malloc d bs (length bs)) (Some (der_element CBS_ASN1_OCTETSTRING bs)))"
proof -
  note m = assms
  have bytes: "adds malloc d (CBB_add_bytes malloc d bs (length bs)) (Some bs)" if "length bs < SIZE_LIMIT"
    using adds_bytes [OF m le_refl that] by simp
  have oct: "adds malloc d (CBB_add_asn1_octet_string malloc d bs (length bs)) (Some (der_element CBS_ASN1_OCTETSTRING bs))"
    if "length bs \<le> 0xfffffffe"
    by (rule asn1_octet_string.put_adds [OF m that])
  show ?thesis
    by (intro conjI impI)
      (rule adds_ints [OF m], rule adds_ints [OF m], rule adds_ints [OF m], rule adds_ints [OF m],
        rule adds_ints [OF m], erule adds_zeros [OF m], erule bytes, rule asn1_uint64.put_adds [OF m TrueI],
        rule asn1_int64.put_adds [OF m TrueI], rule adds_asn1_bool [OF m], erule oct)
qed

theorem writers_refine_builder_witness:
  "adds (\<lambda>n. Some (replicate n 0)) 1 (CBB_add_u16 (\<lambda>n. Some (replicate n 0)) 1 258) (Some [1, 2])"
proof -
  have "malloc_ok (\<lambda>n. Some (replicate n 0))" by (simp add: malloc_ok_def)
  note put = writers_refine_builder [OF this, THEN conjunct2, THEN conjunct1, of 1 258]
  have "be_bytes (Suc (Suc 0)) 258 = [1, 2]" by simp
  moreover have "unat (258 :: u16) = 258" by simp
  ultimately have "be_bytes 2 (unat (258 :: u16)) = [1, 2]" by (simp only: numeral_2_eq_2)
  then show ?thesis using put by (simp only:)
qed

section \<open>What is written is read back\<close>

text \<open>With memory available, a value goes through a new builder and back.\<close>

context cbb_codec
begin

lemma written_read_back:
  assumes m: "malloc_ok malloc" "\<forall>k<SIZE_LIMIT. malloc k \<noteq> None" and v: "writable v" and ne: "enc v \<noteq> []"
    and small: "length (enc v) \<le> 2 ^ 62" "cap < 2 ^ 62"
  shows "\<exists>s0 s1 buf n s2 r t. CBB_init malloc cap = Some s0 \<and> put malloc 0 v s0 = (Some (), s1) \<and>
    CBB_finish malloc 0 False s1 = (Some (Some buf, n), s2) \<and>
    get (CBS_init buf n) = (Some r, t) \<and> view r = v \<and> cbs_len t = 0"
proof -
  have "OPENSSL_malloc malloc cap \<noteq> None"
    using small(2) by (intro OPENSSL_malloc_total [OF m(2)]) simp
  then obtain s0 where s0: "CBB_init malloc cap = Some s0" by (auto simp: CBB_init_def)
  have cap: "cap < SIZE_LIMIT" using small(2) by simp
  obtain s1 where s1: "put malloc 0 v s0 = (Some (), s1)"
    using put_total [OF m v small(1) cap s0] by blast
  have "length (enc v) < SIZE_LIMIT" using small(1) by simp
  from round_trip [OF m(1) v ne this cap s0 s1] s0 s1 show ?thesis by blast
qed

end

lemma der_element_ne [simp]: "der_element tag c \<noteq> []"
  by (simp add: der_element_def der_header_def tag_bytes_def Let_def)

lemma length_small_integer: "length c < 128 \<Longrightarrow> length (der_element CBS_ASN1_INTEGER c) = length c + 2"
  by (simp add: der_element_def der_header_def tag_bytes_def len_bytes_def Let_def)

text \<open>(C30) Every 64-bit integer, unsigned or signed, that is written as an ASN.1 INTEGER is read back,
  and nothing is left: with memory available the write cannot fail, the sign byte and the dropped
  leading bytes are those the reader accepts as minimal and extends to the same 64 bits.\<close>

theorem asn1_integer_round_trip:
  assumes "malloc_ok malloc" "\<forall>k<SIZE_LIMIT. malloc k \<noteq> None" "cap < 2 ^ 62"
  shows "(\<exists>s0 s1 buf n s2 t. CBB_init malloc cap = Some s0 \<and> CBB_add_asn1_int64 malloc 0 v s0 = (Some (), s1) \<and>
      CBB_finish malloc 0 False s1 = (Some (Some buf, n), s2) \<and>
      CBS_get_asn1_int64 (CBS_init buf n) = (Some v, t) \<and> cbs_len t = 0) \<and>
    (\<exists>s0 s1 buf n s2 t. CBB_init malloc cap = Some s0 \<and> CBB_add_asn1_uint64 malloc 0 v s0 = (Some (), s1) \<and>
      CBB_finish malloc 0 False s1 = (Some (Some buf, n), s2) \<and>
      CBS_get_asn1_uint64 (CBS_init buf n) = (Some v, t) \<and> cbs_len t = 0)"
proof -
  have l: "length (der_element CBS_ASN1_INTEGER (int_content v)) \<le> 2 ^ 62"
    "length (der_element CBS_ASN1_INTEGER (uint_content (be_bytes 8 (unat v)))) \<le> 2 ^ 62"
    using int_content_props [of v] length_uint_content [of "be_bytes 8 (unat v)"]
    by (simp_all add: length_small_integer)
  show ?thesis
    using asn1_int64.written_read_back [OF assms(1,2) TrueI der_element_ne l(1) assms(3)]
      asn1_uint64.written_read_back [OF assms(1,2) TrueI der_element_ne l(2) assms(3)] by auto
qed

text \<open>A string written behind an 8-, 16- or 24-bit length prefix, by opening a child, adding the
  bytes and flushing, is read back by the reader of that prefix.\<close>

theorem length_prefixed_round_trip:
  assumes "malloc_ok malloc" "\<forall>k<SIZE_LIMIT. malloc k \<noteq> None" "cap < 2 ^ 62"
    "(n, reader) \<in> {(1, CBS_get_u8_length_prefixed), (2, CBS_get_u16_length_prefixed), (3, CBS_get_u24_length_prefixed)}"
    "length bs < 256 ^ n"
  shows "\<exists>s0 s1 buf len s2 out t. CBB_init malloc cap = Some s0 \<and>
      add_length_prefixed_bytes n malloc 0 bs s0 = (Some (), s1) \<and>
      CBB_finish malloc 0 False s1 = (Some (Some buf, len), s2) \<and>
      reader (CBS_init buf len) = (Some out, t) \<and> cbs_bytes out = bs \<and> cbs_len t = 0"
proof -
  have ne: "be_bytes n (length bs) @ bs \<noteq> []" if "0 < n" for n
    using that length_be_bytes [of n "length bs"] by (metis append_is_Nil_conv length_0_conv less_nat_zero_code)
  have "length bs < 256 ^ 3" using assms(4,5) by auto
  then have l: "length (be_bytes n (length bs) @ bs) \<le> 2 ^ 62" if "n \<le> 3" for n
    using that by simp
  from assms(4) consider "n = 1" "reader = CBS_get_u8_length_prefixed" | "n = 2" "reader = CBS_get_u16_length_prefixed"
    | "n = 3" "reader = CBS_get_u24_length_prefixed" by auto
  then show ?thesis
  proof cases
    case 1
    then show ?thesis
      using u8_prefixed.written_read_back [OF assms(1,2) assms(5) [unfolded 1(1)] ne l assms(3)] by auto
  next
    case 2
    then show ?thesis
      using u16_prefixed.written_read_back [OF assms(1,2) assms(5) [unfolded 2(1)] ne l assms(3)] by auto
  next
    case 3
    then show ?thesis
      using u24_prefixed.written_read_back [OF assms(1,2) assms(5) [unfolded 3(1)] ne l assms(3)] by auto
  qed
qed

theorem asn1_integer_round_trip_witness:
  "\<exists>s0 s1 buf n s2 t. CBB_init (\<lambda>n. Some (replicate n 0)) 1 = Some s0 \<and>
      CBB_add_asn1_int64 (\<lambda>n. Some (replicate n 0)) 0 (- 129) s0 = (Some (), s1) \<and>
      CBB_finish (\<lambda>n. Some (replicate n 0)) 0 False s1 = (Some (Some buf, n), s2) \<and>
      CBS_get_asn1_int64 (CBS_init buf n) = (Some (- 129), t) \<and> cbs_len t = 0"
  by (rule asn1_integer_round_trip [THEN conjunct1]) (simp_all add: malloc_ok_def)

theorem length_prefixed_round_trip_witness:
  "\<exists>s0 s1 buf len s2 out t. CBB_init (\<lambda>n. Some (replicate n 0)) 0 = Some s0 \<and>
      add_length_prefixed_bytes 2 (\<lambda>n. Some (replicate n 0)) 0 [5, 6, 7] s0 = (Some (), s1) \<and>
      CBB_finish (\<lambda>n. Some (replicate n 0)) 0 False s1 = (Some (Some buf, len), s2) \<and>
      CBS_get_u16_length_prefixed (CBS_init buf len) = (Some out, t) \<and> cbs_bytes out = [5, 6, 7] \<and> cbs_len t = 0"
  by (rule length_prefixed_round_trip) (simp_all add: malloc_ok_def)

end
