(* ===== verification/Unicode_Text.thy ===== *)
theory Unicode_Text
  imports Wire_Format
begin

text \<open>
  The Unicode encodings of \<open>crypto/bytestring/unicode.c\<close>: UTF-8, Latin-1, UCS-2 and UTF-32, read
  from a byte string and written to a builder one code point at a time.
\<close>

section \<open>The code\<close>

definition is_valid_code_point :: "u32 \<Rightarrow> bool" where
  "is_valid_code_point v \<longleftrightarrow>
    \<not> (v > 0x10ffff \<or> v AND 0xfffe = 0xfffe \<or> v \<ge> 0xfdd0 \<and> v \<le> 0xfdef \<or> v \<ge> 0xd800 \<and> v \<le> 0xdfff)"

definition BOTTOM_BITS :: "nat \<Rightarrow> u8" where
  "BOTTOM_BITS n = ucast (push_bit n (1 :: u32) - 1)"

definition TOP_BITS :: "nat \<Rightarrow> u8" where
  "TOP_BITS n = ucast (NOT (ucast (BOTTOM_BITS (8 - n)) :: u32))"

text \<open>The loop of \<open>CBS_get_utf8\<close> over the \<open>len\<close> continuation bytes.\<close>

fun utf8_loop :: "nat \<Rightarrow> u32 \<Rightarrow> (cbs, u32) op" where
  "utf8_loop 0 v = op_ret v"
| "utf8_loop (Suc n) v =
    op_bind CBS_get_u8 (\<lambda>c.
      op_bind (op_check (c AND TOP_BITS 2 = TOP_BITS 1)) (\<lambda>_.
        utf8_loop n (push_bit 6 v OR ucast (c AND BOTTOM_BITS 6))))"

definition CBS_get_utf8 :: "(cbs, u32) op" where
  "CBS_get_utf8 =
    op_bind CBS_get_u8 (\<lambda>c.
      if c \<le> 0x7f then op_ret (ucast c)
      else
        let rest = (\<lambda>v len lower_bound.
          op_bind (utf8_loop len v) (\<lambda>v.
            op_bind (op_check (\<not> (\<not> is_valid_code_point v \<or> v < lower_bound))) (\<lambda>_. op_ret v)))
        in if c AND TOP_BITS 3 = TOP_BITS 2 then rest (ucast (c AND BOTTOM_BITS 5)) 1 0x80
           else if c AND TOP_BITS 4 = TOP_BITS 3 then rest (ucast (c AND BOTTOM_BITS 4)) 2 0x800
           else if c AND TOP_BITS 5 = TOP_BITS 4 then rest (ucast (c AND BOTTOM_BITS 3)) 3 0x10000
           else op_fail)"

definition CBS_get_latin1 :: "(cbs, u32) op" where
  "CBS_get_latin1 = op_bind CBS_get_u8 (\<lambda>c. op_ret (ucast c))"

definition CBS_get_ucs2_be :: "(cbs, u32) op" where
  "CBS_get_ucs2_be =
    op_bind CBS_get_u16 (\<lambda>c.
      op_bind (op_check (is_valid_code_point (ucast c))) (\<lambda>_. op_ret (ucast c)))"

definition CBS_get_utf32_be :: "(cbs, u32) op" where
  "CBS_get_utf32_be =
    op_bind CBS_get_u32 (\<lambda>out. op_bind (op_check (is_valid_code_point out)) (\<lambda>_. op_ret out))"

definition CBB_get_utf8_len :: "u32 \<Rightarrow> nat" where
  "CBB_get_utf8_len u = (if u \<le> 0x7f then 1 else if u \<le> 0x7ff then 2 else if u \<le> 0xffff then 3 else 4)"

text \<open>The argument of \<open>CBB_add_u8\<close>: \<open>lead | bits\<close>, cut to eight bits.\<close>

definition add_bits :: "(nat \<Rightarrow> u8 list option) \<Rightarrow> nat \<Rightarrow> u8 \<Rightarrow> u32 \<Rightarrow> (cbb, unit) op" where
  "add_bits malloc d lead bits = CBB_add_u8 malloc d (ucast (ucast lead OR bits))"

definition CBB_add_utf8 :: "(nat \<Rightarrow> u8 list option) \<Rightarrow> nat \<Rightarrow> u32 \<Rightarrow> (cbb, unit) op" where
  "CBB_add_utf8 malloc d u =
    (let low = ucast (BOTTOM_BITS 6) in
     if \<not> is_valid_code_point u then op_fail
     else if u \<le> 0x7f then CBB_add_u8 malloc d (ucast u)
     else if u \<le> 0x7ff then
       op_bind (add_bits malloc d (TOP_BITS 2) (drop_bit 6 u)) (\<lambda>_.
         add_bits malloc d (TOP_BITS 1) (u AND low))
     else if u \<le> 0xffff then
       op_bind (add_bits malloc d (TOP_BITS 3) (drop_bit 12 u)) (\<lambda>_.
         op_bind (add_bits malloc d (TOP_BITS 1) (drop_bit 6 u AND low)) (\<lambda>_.
           add_bits malloc d (TOP_BITS 1) (u AND low)))
     else if u \<le> 0x10ffff then
       op_bind (add_bits malloc d (TOP_BITS 4) (drop_bit 18 u)) (\<lambda>_.
         op_bind (add_bits malloc d (TOP_BITS 1) (drop_bit 12 u AND low)) (\<lambda>_.
           op_bind (add_bits malloc d (TOP_BITS 1) (drop_bit 6 u AND low)) (\<lambda>_.
             add_bits malloc d (TOP_BITS 1) (u AND low))))
     else op_fail)"

definition CBB_add_latin1 :: "(nat \<Rightarrow> u8 list option) \<Rightarrow> nat \<Rightarrow> u32 \<Rightarrow> (cbb, unit) op" where
  "CBB_add_latin1 malloc d u = (if u \<le> 0xff then CBB_add_u8 malloc d (ucast u) else op_fail)"

definition CBB_add_ucs2_be :: "(nat \<Rightarrow> u8 list option) \<Rightarrow> nat \<Rightarrow> u32 \<Rightarrow> (cbb, unit) op" where
  "CBB_add_ucs2_be malloc d u =
    (if u \<le> 0xffff \<and> is_valid_code_point u then CBB_add_u16 malloc d (ucast u) else op_fail)"

definition CBB_add_utf32_be :: "(nat \<Rightarrow> u8 list option) \<Rightarrow> nat \<Rightarrow> u32 \<Rightarrow> (cbb, unit) op" where
  "CBB_add_utf32_be malloc d u = (if is_valid_code_point u then CBB_add_u32 malloc d u else op_fail)"

section \<open>The encodings\<close>

text \<open>A valid code point after the Unicode standard, section 3.4: a number of the Unicode space that is
  neither a surrogate nor one of the 66 noncharacters.\<close>

definition surrogates :: "nat set" where
  "surrogates = {0xd800..0xdfff}"

definition noncharacters :: "nat set" where
  "noncharacters = {0xfdd0..0xfdef} \<union> {n. n mod 0x10000 \<in> {0xfffe, 0xffff}}"

definition code_point :: "nat \<Rightarrow> bool" where
  "code_point n \<longleftrightarrow> n < 0x110000 \<and> n \<notin> surrogates \<and> n \<notin> noncharacters"

lemma and_push_mask: "(x :: nat) AND push_bit k (mask j) = push_bit k (take_bit j (drop_bit k x))"
  by (rule bit_eqI) (auto simp: bit_simps)

lemma fffe_div: "n div 2 mod 0x8000 * 2 = 0xfffe \<longleftrightarrow> n mod 0x10000 \<in> {0xfffe, 0xffff}" for n :: nat
proof -
  define q r where "q = n div 2 mod 0x8000" and "r = n mod 2"
  have n: "n mod 0x10000 = 2 * q + r"
    using mod_mult2_eq [of n 2 32768] by (simp only: q_def r_def) simp
  have "r < 2" by (simp add: r_def)
  then consider "r = 0" | "r = 1" by linarith
  then have "n mod 0x10000 = 0xfffe \<or> n mod 0x10000 = 0xffff \<longleftrightarrow> q * 2 = 0xfffe"
    unfolding n by cases presburger+
  then show ?thesis by (simp add: q_def)
qed

lemma and_fffe: "(v :: u32) AND 0xfffe = 0xfffe \<longleftrightarrow> unat v mod 0x10000 \<in> {0xfffe, 0xffff}"
proof -
  have "(65534 :: nat) = push_bit 1 (mask 15)" by (simp add: mask_eq_exp_minus_1 push_bit_eq_mult)
  then have "unat v AND 65534 = unat v AND push_bit 1 (mask 15)" by simp
  also have "\<dots> = push_bit 1 (take_bit 15 (drop_bit 1 (unat v)))" by (rule and_push_mask)
  also have "\<dots> = unat v div 2 mod 0x8000 * 2"
    by (simp add: push_bit_eq_mult drop_bit_eq_div take_bit_eq_mod)
  finally have a: "unat v AND 65534 = unat v div 2 mod 0x8000 * 2" .
  have "v AND 0xfffe = 0xfffe \<longleftrightarrow> unat v AND 65534 = 65534"
    by (simp add: word_unat_eq_iff unsigned_and_eq)
  also have "\<dots> \<longleftrightarrow> unat v mod 0x10000 \<in> {0xfffe, 0xffff}"
    unfolding a by (rule fffe_div)
  finally show ?thesis .
qed

lemma is_valid_iff: "is_valid_code_point v \<longleftrightarrow> code_point (unat v)"
  unfolding is_valid_code_point_def and_fffe code_point_def surrogates_def noncharacters_def
  by (auto simp: word_le_nat_alt word_less_nat_alt)

text \<open>UTF-8 after table 3-6 of the Unicode standard.\<close>

definition utf8_tail :: "nat \<Rightarrow> u8" where
  "utf8_tail n = word_of_nat (128 + n mod 64)"

definition utf8 :: "nat \<Rightarrow> u8 list" where
  "utf8 u =
    (if u < 0x80 then [word_of_nat u]
     else if u < 0x800 then [word_of_nat (192 + u div 64), utf8_tail u]
     else if u < 0x10000 then [word_of_nat (224 + u div 64 ^ 2), utf8_tail (u div 64), utf8_tail u]
     else [word_of_nat (240 + u div 64 ^ 3), utf8_tail (u div 64 ^ 2), utf8_tail (u div 64), utf8_tail u])"

section \<open>Bits of a byte\<close>

lemma bits_values:
  "TOP_BITS 1 = push_bit 6 2" "TOP_BITS 2 = push_bit 6 (mask 2)" "TOP_BITS 2 = push_bit 5 6"
  "TOP_BITS 3 = push_bit 5 (mask 3)" "TOP_BITS 3 = push_bit 4 14" "TOP_BITS 4 = push_bit 4 (mask 4)"
  "TOP_BITS 4 = push_bit 3 30" "TOP_BITS 5 = push_bit 3 (mask 5)"
  "BOTTOM_BITS 3 = mask 3" "BOTTOM_BITS 4 = mask 4" "BOTTOM_BITS 5 = mask 5" "BOTTOM_BITS 6 = mask 6"
  by code_simp+

lemma unat_push_u8: "n \<le> 8 \<Longrightarrow> unat d < 2 ^ (8 - n) \<Longrightarrow> unat (push_bit n (d :: u8)) = unat d * 2 ^ n"
proof -
  assume n: "n \<le> 8" and d: "unat d < 2 ^ (8 - n)"
  then have "unat d * 2 ^ n < 2 ^ (8 - n) * 2 ^ n" by simp
  also have "(2 :: nat) ^ (8 - n) * 2 ^ n = 2 ^ 8" using n by (simp flip: power_add)
  finally have "unat d * 2 ^ n < 2 ^ LENGTH(8)" by simp
  then show ?thesis
    unfolding unsigned_push_bit_eq by (simp only: push_bit_eq_mult take_bit_nat_eq_self)
qed

lemma and_top_bits:
  assumes "n \<le> 8" "unat d < 2 ^ (8 - n)"
  shows "(c :: u8) AND push_bit n (mask (8 - n)) = push_bit n d \<longleftrightarrow> unat c div 2 ^ n = unat d"
proof -
  have "c AND push_bit n (mask (8 - n)) = push_bit n (drop_bit n c)"
    by (rule bit_word_eqI) (use assms(1) in \<open>auto simp: bit_simps\<close>)
  moreover have dc: "unat (drop_bit n c) = unat c div 2 ^ n"
    unfolding unat_drop_bit_eq by (simp only: drop_bit_eq_div)
  moreover have "unat c < 2 ^ (8 - n) * 2 ^ n"
    using u8_lt [of c] assms(1) by (simp flip: power_add)
  then have "unat c div 2 ^ n < 2 ^ (8 - n)" by (simp add: less_mult_imp_div_less)
  ultimately have "c AND push_bit n (mask (8 - n)) = push_bit n d \<longleftrightarrow> unat c div 2 ^ n * 2 ^ n = unat d * 2 ^ n"
    using assms by (simp add: word_unat_eq_iff unat_push_u8)
  then show ?thesis by simp
qed

lemma lead_bytes:
  "c AND TOP_BITS 2 = TOP_BITS 1 \<longleftrightarrow> 128 \<le> unat c \<and> unat c < 192"
  "c AND TOP_BITS 3 = TOP_BITS 2 \<longleftrightarrow> 192 \<le> unat c \<and> unat c < 224"
  "c AND TOP_BITS 4 = TOP_BITS 3 \<longleftrightarrow> 224 \<le> unat c \<and> unat c < 240"
  "c AND TOP_BITS 5 = TOP_BITS 4 \<longleftrightarrow> 240 \<le> unat c \<and> unat c < 248"
proof -
  have div: "n div k = d \<longleftrightarrow> d * k \<le> n \<and> n < Suc d * k" if "0 < k" for n k d :: nat
    using that by (metis div_nat_eqI div_times_less_eq_dividend dividend_less_times_div mult.commute mult_Suc_right)
  have "c AND push_bit 6 (mask 2) = push_bit 6 2 \<longleftrightarrow> unat c div 2 ^ 6 = 2"
    using and_top_bits [of 6 2 c] by simp
  then show "c AND TOP_BITS 2 = TOP_BITS 1 \<longleftrightarrow> 128 \<le> unat c \<and> unat c < 192"
    unfolding bits_values(2) bits_values(1) by (simp add: div)
  have "c AND push_bit 5 (mask 3) = push_bit 5 6 \<longleftrightarrow> unat c div 2 ^ 5 = 6"
    using and_top_bits [of 5 6 c] by simp
  then show "c AND TOP_BITS 3 = TOP_BITS 2 \<longleftrightarrow> 192 \<le> unat c \<and> unat c < 224"
    unfolding bits_values(4) bits_values(3) by (simp add: div)
  have "c AND push_bit 4 (mask 4) = push_bit 4 14 \<longleftrightarrow> unat c div 2 ^ 4 = 14"
    using and_top_bits [of 4 14 c] by simp
  then show "c AND TOP_BITS 4 = TOP_BITS 3 \<longleftrightarrow> 224 \<le> unat c \<and> unat c < 240"
    unfolding bits_values(6) bits_values(5) by (simp add: div)
  have "c AND push_bit 3 (mask 5) = push_bit 3 30 \<longleftrightarrow> unat c div 2 ^ 3 = 30"
    using and_top_bits [of 3 30 c] by simp
  then show "c AND TOP_BITS 5 = TOP_BITS 4 \<longleftrightarrow> 240 \<le> unat c \<and> unat c < 248"
    unfolding bits_values(8) bits_values(7) by (simp add: div)
qed

lemma low_bits: "n \<le> 8 \<Longrightarrow> unat (ucast (c AND mask n) :: u32) = unat (c :: u8) mod 2 ^ n"
proof -
  have "c AND mask n = take_bit n c" by (simp add: take_bit_eq_mask)
  then have "unat (c AND mask n) = unat c mod 2 ^ n"
    by (simp only: unsigned_take_bit_eq) (simp add: take_bit_eq_mod)
  then show ?thesis by (simp add: unat_ucast_up)
qed

lemma shift_or_6:
  assumes "unat v < 2 ^ 26"
  shows "unat (push_bit 6 v OR ucast (c AND BOTTOM_BITS 6) :: u32) = unat v * 64 + unat (c :: u8) mod 64"
proof -
  have "push_bit 6 v AND ucast (c AND mask 6) = 0"
    by (rule bit_word_eqI) (auto simp: bit_simps)
  moreover have "unat (push_bit 6 v) = unat v * 64"
    using assms unfolding unsigned_push_bit_eq by (simp add: push_bit_eq_mult take_bit_nat_eq_self)
  moreover have "unat (ucast (c AND mask 6) :: u32) = unat c mod 64"
    using low_bits [of 6 c] by simp
  ultimately show ?thesis unfolding bits_values(12) by (simp only: unat_or_disjoint)
qed

definition is_tail :: "u8 \<Rightarrow> bool" where
  "is_tail d \<longleftrightarrow> 128 \<le> unat d \<and> unat d < 192"

abbreviation tail_val :: "nat \<Rightarrow> u8 list \<Rightarrow> nat" where
  "tail_val \<equiv> foldl (\<lambda>a d. a * 64 + unat d mod 64)"

section \<open>Reading UTF-8\<close>

lemma consumes_utf8_loop [consumes_intros]: "consumes (utf8_loop n v)"
  by (induction n arbitrary: v) (auto intro!: consumes_intros)

lemma utf8_loop_iff:
  assumes "cbs_ok s" "Suc (unat v) * 64 ^ n \<le> 2 ^ 32"
  shows "utf8_loop n v s = (Some w, t) \<longleftrightarrow>
    (\<exists>ds. length ds = n \<and> list_all is_tail ds \<and> unat w = tail_val (unat v) ds \<and>
      cbs_bytes s = ds @ cbs_bytes t \<and> t = cbs_adv n s)"
  using assms
proof (induction n arbitrary: v s)
  case 0
  then show ?case by (auto simp: word_unat_eq_iff)
next
  case (Suc n)
  show ?case
  proof (cases "cbs_bytes s")
    case Nil
    then have "utf8_loop (Suc n) v s = (None, s)"
      by (simp add: CBS_get_u8_eq [OF Suc.prems(1)] op_bind_def)
    then show ?thesis using Nil by auto
  next
    case (Cons c bs)
    let ?v = "push_bit 6 v OR ucast (c AND BOTTOM_BITS 6) :: u32"
    have g: "CBS_get_u8 s = (Some c, cbs_adv 1 s)" using Cons by (simp add: CBS_get_u8_eq [OF Suc.prems(1)])
    have ok: "cbs_ok (cbs_adv 1 s)" using consumes_ok [OF consumes_get_u8 Suc.prems(1) g] .
    have "Suc (unat v) * 64 \<le> Suc (unat v) * 64 ^ Suc n" by (intro mult_le_mono2) simp
    then have "Suc (unat v) * 64 \<le> 2 ^ 32" using Suc.prems(2) by (rule le_trans)
    then have v: "unat ?v = unat v * 64 + unat c mod 64" by (intro shift_or_6) simp
    have "unat c mod 64 < 64" by simp
    then have "Suc (unat ?v) \<le> Suc (unat v) * 64" unfolding v by simp
    then have "Suc (unat ?v) * 64 ^ n \<le> Suc (unat v) * 64 * 64 ^ n" by (rule mult_le_mono1)
    then have small: "Suc (unat ?v) * 64 ^ n \<le> 2 ^ 32" using Suc.prems(2) by (simp only: power_Suc mult.assoc)
    have step: "utf8_loop (Suc n) v s = (if is_tail c then utf8_loop n ?v (cbs_adv 1 s) else (None, cbs_adv 1 s))"
      unfolding utf8_loop.simps lead_bytes(1) is_tail_def using g by (simp add: op_bind_def)
    have "utf8_loop n ?v (cbs_adv 1 s) = (Some w, t) \<longleftrightarrow>
        (\<exists>ds. length ds = n \<and> list_all is_tail ds \<and> unat w = tail_val (unat ?v) ds \<and>
          bs = ds @ cbs_bytes t \<and> t = cbs_adv n (cbs_adv 1 s))"
      using Suc.IH [OF ok small] Cons by simp
    moreover have "(\<exists>ds. length ds = Suc n \<and> list_all is_tail ds \<and> unat w = tail_val (unat v) ds \<and>
          c # bs = ds @ cbs_bytes t \<and> t = cbs_adv (Suc n) s) \<longleftrightarrow>
        is_tail c \<and> (\<exists>ds. length ds = n \<and> list_all is_tail ds \<and> unat w = tail_val (unat ?v) ds \<and>
          bs = ds @ cbs_bytes t \<and> t = cbs_adv n (cbs_adv 1 s))" (is "(\<exists>ds. ?P ds) \<longleftrightarrow> _ \<and> (\<exists>ds. ?Q ds)")
    proof -
      have "?P ds \<longleftrightarrow> (\<exists>es. ds = c # es \<and> is_tail c \<and> ?Q es)" for ds
        by (cases ds) (auto simp: v)
      then show ?thesis by blast
    qed
    ultimately show ?thesis unfolding step Cons by simp
  qed
qed

definition utf8_form :: "u8 \<Rightarrow> u8 list \<Rightarrow> nat \<Rightarrow> bool" where
  "utf8_form c ds w \<longleftrightarrow>
    (unat c < 128 \<and> ds = [] \<and> w = unat c) \<or>
    (192 \<le> unat c \<and> unat c < 224 \<and> length ds = 1 \<and> list_all is_tail ds \<and> w = tail_val (unat c mod 32) ds \<and> 0x80 \<le> w) \<or>
    (224 \<le> unat c \<and> unat c < 240 \<and> length ds = 2 \<and> list_all is_tail ds \<and> w = tail_val (unat c mod 16) ds \<and> 0x800 \<le> w) \<or>
    (240 \<le> unat c \<and> unat c < 248 \<and> length ds = 3 \<and> list_all is_tail ds \<and> w = tail_val (unat c mod 8) ds \<and> 0x10000 \<le> w)"

lemma digit64: "q < 64 \<Longrightarrow> (a * 64 + q) div 64 = a \<and> (a * 64 + q) mod 64 = (q :: nat)"
  by simp

lemma is_tail_unat: "is_tail d \<longleftrightarrow> unat d = 128 + unat d mod 64"
proof
  assume "is_tail d"
  then have r: "unat d = 2 * 64 + (unat d - 128)" "unat d - 128 < 64" unfolding is_tail_def by linarith+
  then have "unat d mod 64 = unat d - 128" using digit64 [OF r(2), of 2] by (simp only: flip: r(1))
  with r(1) show "unat d = 128 + unat d mod 64" by linarith
next
  assume d: "unat d = 128 + unat d mod 64"
  have "unat d mod 64 < 64" by simp
  with d show "is_tail d" unfolding is_tail_def by linarith
qed

lemma utf8_tail_facts: "is_tail (utf8_tail n)" "unat (utf8_tail n) mod 64 = n mod 64"
proof -
  have m: "n mod 64 < 64" by simp
  then have "unat (utf8_tail n) = 2 * 64 + n mod 64" unfolding utf8_tail_def unat_u8_of_nat by simp
  then show "is_tail (utf8_tail n)" "unat (utf8_tail n) mod 64 = n mod 64"
    using m digit64 [OF m, of 2] by (simp_all add: is_tail_def)
qed

lemma utf8_tail_eq: "is_tail d \<Longrightarrow> n mod 64 = unat d mod 64 \<Longrightarrow> utf8_tail n = d"
  unfolding utf8_tail_def is_tail_unat by (metis unat_eq_word_of_nat)

lemma lead_eq:
  assumes "a + k \<le> 256" "a \<le> unat c" "unat c < a + k" "unat c mod k = x" "a mod k = 0"
  shows "c = word_of_nat (a + x)"
proof (rule unat_eq_word_of_nat)
  obtain r where r: "unat c = a + r" using assms(2) le_Suc_ex by blast
  then have "r < k" using assms(3) by linarith
  have "(a + r) mod k = (a mod k + r) mod k" by (simp only: mod_add_left_eq)
  also have "\<dots> = r" using \<open>r < k\<close> assms(5) by simp
  finally have "r = x" using assms(4) by (simp only: r)
  then show "unat c = a + x" using r by simp
qed

lemma lead_facts:
  assumes "a + k \<le> 256" "x < k" "a mod k = 0"
  shows "unat (word_of_nat (a + x) :: u8) = a + x" "(a + x) mod k = x"
proof -
  show "unat (word_of_nat (a + x) :: u8) = a + x" unfolding unat_u8_of_nat using assms(1,2) by simp
  have "(a + x) mod k = (a mod k + x) mod k" by (simp only: mod_add_left_eq)
  then show "(a + x) mod k = x" using assms(2,3) by simp
qed

lemma length_1_iff: "length xs = 1 \<longleftrightarrow> (\<exists>a. xs = [a])"
  and length_2_iff: "length xs = 2 \<longleftrightarrow> (\<exists>a b. xs = [a, b])"
  and length_3_iff: "length xs = 3 \<longleftrightarrow> (\<exists>a b c. xs = [a, b, c])"
  by (auto simp: length_Suc_conv numeral_2_eq_2 numeral_3_eq_3)

lemma utf8_form_iff:
  assumes "w < 0x200000"
  shows "utf8_form c ds w \<longleftrightarrow> utf8 w = c # ds"
proof
  assume f: "utf8_form c ds w"
  then consider (1) "unat c < 128" "ds = []" "w = unat c"
    | (2) "192 \<le> unat c" "unat c < 224" "length ds = 1" "list_all is_tail ds" "w = tail_val (unat c mod 32) ds" "0x80 \<le> w"
    | (3) "224 \<le> unat c" "unat c < 240" "length ds = 2" "list_all is_tail ds" "w = tail_val (unat c mod 16) ds" "0x800 \<le> w"
    | (4) "240 \<le> unat c" "unat c < 248" "length ds = 3" "list_all is_tail ds" "w = tail_val (unat c mod 8) ds" "0x10000 \<le> w"
    unfolding utf8_form_def by blast
  then show "utf8 w = c # ds"
  proof cases
    case 1
    then show ?thesis by (simp add: utf8_def)
  next
    case 2
    obtain d where d: "ds = [d]" using 2(3) unfolding length_1_iff ..
    define p where "p = unat c mod 32"
    define q where "q = unat d mod 64"
    have t: "is_tail d" "w = p * 64 + q" using 2(4,5) by (simp_all add: d p_def q_def)
    have b: "p < 32" "q < 64" by (simp_all add: p_def q_def)
    then have v: "w < 0x800" "w div 64 = p" "w mod 64 = q" unfolding t(2) by simp_all
    have "word_of_nat (192 + w div 64) = c"
      unfolding v(2) using 2(1,2) by (intro lead_eq [of _ 32, symmetric]) (simp_all add: p_def)
    moreover have "utf8_tail w = d" using v(3) t(1) unfolding q_def by (intro utf8_tail_eq)
    ultimately show ?thesis unfolding utf8_def using d 2(6) v(1) by (simp del: of_nat_add)
  next
    case 3
    obtain d e where d: "ds = [d, e]" using 3(3) unfolding length_2_iff by blast
    define p where "p = unat c mod 16"
    define q where "q = unat d mod 64"
    define r where "r = unat e mod 64"
    have t: "is_tail d" "is_tail e" "w = (p * 64 + q) * 64 + r" using 3(4,5) by (simp_all add: d p_def q_def r_def)
    have b: "p < 16" "q < 64" "r < 64" by (simp_all add: p_def q_def r_def)
    have "w div 64 = p * 64 + q" "w mod 64 = r" using digit64 [OF b(3)] unfolding t(3) by blast+
    moreover have "(p * 64 + q) div 64 = p" "(p * 64 + q) mod 64 = q" using digit64 [OF b(2)] by blast+
    moreover have "w div 64 ^ 2 = w div 64 div 64" by (simp flip: div_mult2_eq)
    ultimately have v: "w div 64 ^ 2 = p" "w div 64 mod 64 = q" "w mod 64 = r" by simp_all
    have w: "w < 0x10000" unfolding t(3) using b by simp
    have "word_of_nat (224 + w div 64 ^ 2) = c"
      unfolding v(1) using 3(1,2) by (intro lead_eq [of _ 16, symmetric]) (simp_all add: p_def)
    moreover have "utf8_tail (w div 64) = d" "utf8_tail w = e"
      using v(2,3) unfolding q_def r_def by (simp_all only: utf8_tail_eq [OF t(1)] utf8_tail_eq [OF t(2)])
    ultimately show ?thesis unfolding utf8_def using d 3(6) w by (simp del: of_nat_add)
  next
    case 4
    obtain d e g where d: "ds = [d, e, g]" using 4(3) unfolding length_3_iff by blast
    define p where "p = unat c mod 8"
    define q where "q = unat d mod 64"
    define r where "r = unat e mod 64"
    define x where "x = unat g mod 64"
    have t: "is_tail d" "is_tail e" "is_tail g" "w = ((p * 64 + q) * 64 + r) * 64 + x"
      using 4(4,5) by (simp_all add: d p_def q_def r_def x_def)
    have b: "q < 64" "r < 64" "x < 64" by (simp_all add: q_def r_def x_def)
    have "w div 64 = (p * 64 + q) * 64 + r" "w mod 64 = x" using digit64 [OF b(3)] unfolding t(4) by blast+
    moreover have "((p * 64 + q) * 64 + r) div 64 = p * 64 + q" "((p * 64 + q) * 64 + r) mod 64 = r"
      using digit64 [OF b(2)] by blast+
    moreover have "(p * 64 + q) div 64 = p" "(p * 64 + q) mod 64 = q" using digit64 [OF b(1)] by blast+
    moreover have "w div 64 ^ 2 = w div 64 div 64" "w div 64 ^ 3 = w div 64 div 64 div 64" by (simp_all flip: div_mult2_eq)
    ultimately have v: "w div 64 ^ 3 = p" "w div 64 ^ 2 mod 64 = q" "w div 64 mod 64 = r" "w mod 64 = x" by simp_all
    have "word_of_nat (240 + w div 64 ^ 3) = c"
      unfolding v(1) using 4(1,2) by (intro lead_eq [of _ 8, symmetric]) (simp_all add: p_def)
    moreover have "utf8_tail (w div 64 ^ 2) = d" "utf8_tail (w div 64) = e" "utf8_tail w = g"
      using v(2-4) unfolding q_def r_def x_def
      by (simp_all only: utf8_tail_eq [OF t(1)] utf8_tail_eq [OF t(2)] utf8_tail_eq [OF t(3)])
    ultimately show ?thesis unfolding utf8_def using d 4(6) by (simp del: of_nat_add)
  qed
next
  assume u: "utf8 w = c # ds"
  have d2: "w div 64 ^ 2 = w div 64 div 64" "w div 64 ^ 3 = w div 64 div 64 div 64" by (simp_all flip: div_mult2_eq)
  consider "w < 0x80" | "0x80 \<le> w" "w < 0x800" | "0x800 \<le> w" "w < 0x10000" | "0x10000 \<le> w" by linarith
  then show "utf8_form c ds w"
  proof cases
    case 1
    then show ?thesis using u by (auto simp: utf8_def utf8_form_def unat_u8_of_nat)
  next
    case 2
    then have k: "w div 64 < 32" by simp
    note l = lead_facts [of 192 32, OF _ this]
    have c: "c = word_of_nat (192 + w div 64)" "ds = [utf8_tail w]" using u 2 by (simp_all add: utf8_def)
    have uc: "unat c = 192 + w div 64" unfolding c(1) by (rule l) simp_all
    have "unat c mod 32 = w div 64" unfolding uc by (rule l) simp_all
    moreover have "w = tail_val (w div 64) ds" by (simp add: c(2) utf8_tail_facts)
    moreover have "list_all is_tail ds" "length ds = 1" by (simp_all add: c(2) utf8_tail_facts)
    moreover have "192 \<le> unat c" "unat c < 224" using uc k by linarith+
    ultimately show ?thesis unfolding utf8_form_def using 2(1) by metis
  next
    case 3
    then have k: "w div 64 div 64 < 16" by simp
    note l = lead_facts [of 224 16, OF _ this]
    have c: "c = word_of_nat (224 + w div 64 div 64)" "ds = [utf8_tail (w div 64), utf8_tail w]"
      using u 3 unfolding utf8_def d2 by (simp_all del: of_nat_add)
    have uc: "unat c = 224 + w div 64 div 64" unfolding c(1) by (rule l) simp_all
    have "unat c mod 16 = w div 64 div 64" unfolding uc by (rule l) simp_all
    moreover have "w = tail_val (w div 64 div 64) ds" by (simp add: c(2) utf8_tail_facts)
    moreover have "list_all is_tail ds" "length ds = 2" by (simp_all add: c(2) utf8_tail_facts)
    moreover have "224 \<le> unat c" "unat c < 240" using uc k by linarith+
    ultimately show ?thesis unfolding utf8_form_def using 3(1) by metis
  next
    case 4
    then have k: "w div 64 div 64 div 64 < 8" using assms by simp
    note l = lead_facts [of 240 8, OF _ this]
    have c: "c = word_of_nat (240 + w div 64 div 64 div 64)"
        "ds = [utf8_tail (w div 64 div 64), utf8_tail (w div 64), utf8_tail w]"
      using u 4 unfolding utf8_def d2 by (simp_all del: of_nat_add)
    have uc: "unat c = 240 + w div 64 div 64 div 64" unfolding c(1) by (rule l) simp_all
    have "unat c mod 8 = w div 64 div 64 div 64" unfolding uc by (rule l) simp_all
    moreover have "w = tail_val (w div 64 div 64 div 64) ds" by (simp add: c(2) utf8_tail_facts)
    moreover have "list_all is_tail ds" "length ds = 3" by (simp_all add: c(2) utf8_tail_facts)
    moreover have "240 \<le> unat c" "unat c < 248" using uc k by linarith+
    ultimately show ?thesis unfolding utf8_form_def using 4(1) by metis
  qed
qed


text \<open>The reader: the first byte decides the number of continuation bytes.\<close>

lemma consumes_utf8 [consumes_intros]: "consumes CBS_get_utf8"
  unfolding CBS_get_utf8_def Let_def by (intro consumes_intros)

lemma valid_bound: "is_valid_code_point v \<Longrightarrow> unat v < 0x200000"
  by (auto simp: is_valid_code_point_def word_le_nat_alt word_less_nat_alt)

lemma u8_le_7f: "c \<le> 0x7f \<longleftrightarrow> unat (c :: u8) < 128"
  by (auto simp: word_le_nat_alt)

definition utf8_rest :: "u32 \<Rightarrow> nat \<Rightarrow> u32 \<Rightarrow> (cbs, u32) op" where
  "utf8_rest v n lb = op_bind (utf8_loop n v) (\<lambda>v.
    op_bind (op_check (\<not> (\<not> is_valid_code_point v \<or> v < lb))) (\<lambda>_. op_ret v))"

lemma utf8_rest_iff:
  assumes "cbs_ok s" "unat v < 32" "n \<le> 3"
  shows "utf8_rest v n lb s = (Some w, t) \<longleftrightarrow>
    is_valid_code_point w \<and> unat lb \<le> unat w \<and>
    (\<exists>ds. length ds = n \<and> list_all is_tail ds \<and> unat w = tail_val (unat v) ds \<and>
      cbs_bytes s = ds @ cbs_bytes t \<and> t = cbs_adv n s)"
proof -
  have "(64 :: nat) ^ n \<le> 64 ^ 3" using assms(3) by (intro power_increasing) simp_all
  then have "Suc (unat v) * 64 ^ n \<le> 32 * 64 ^ 3" using assms(2) by (intro mult_le_mono) simp_all
  then have small: "Suc (unat v) * 64 ^ n \<le> 2 ^ 32" by simp
  obtain r u where r: "utf8_loop n v s = (r, u)" by fastforce
  have "utf8_rest v n lb s = (Some w, t) \<longleftrightarrow> utf8_loop n v s = (Some w, t) \<and> is_valid_code_point w \<and> unat lb \<le> unat w"
    by (cases r) (auto simp: utf8_rest_def op_bind_def r word_less_nat_alt split: if_splits)
  then show ?thesis unfolding utf8_loop_iff [OF assms(1) small] by blast
qed

lemma CBS_get_utf8_iff:
  assumes ok: "cbs_ok s"
  shows "CBS_get_utf8 s = (Some u, t) \<longleftrightarrow>
    is_valid_code_point u \<and> cbs_bytes s = utf8 (unat u) @ cbs_bytes t \<and> t = cbs_adv (length (utf8 (unat u))) s"
proof (cases "cbs_bytes s")
  case Nil
  then have "CBS_get_utf8 s = (None, s)"
    by (simp add: CBS_get_utf8_def CBS_get_u8_eq [OF ok] op_bind_def)
  then show ?thesis using Nil by (simp add: utf8_def)
next
  case (Cons c bs)
  define s1 where "s1 = cbs_adv 1 s"
  have g: "CBS_get_u8 s = (Some c, s1)" using Cons by (simp add: CBS_get_u8_eq [OF ok] s1_def)
  have bs: "cbs_bytes s1 = bs" using Cons by (simp add: s1_def)
  have oks: "cbs_ok s1" using consumes_ok [OF consumes_get_u8 ok g] .
  have rhs: "is_valid_code_point u \<and> cbs_bytes s = utf8 (unat u) @ cbs_bytes t \<and> t = cbs_adv (length (utf8 (unat u))) s
      \<longleftrightarrow> is_valid_code_point u \<and> (\<exists>ds. utf8_form c ds (unat u) \<and> bs = ds @ cbs_bytes t \<and> t = cbs_adv (length ds) s1)"
    (is "_ \<longleftrightarrow> _ \<and> ?R")
  proof (cases "is_valid_code_point u")
    case True
    note f = utf8_form_iff [OF valid_bound [OF True]]
    obtain e es where e: "utf8 (unat u) = e # es"
      by (cases "utf8 (unat u)") (auto simp: utf8_def split: if_splits)
    show ?thesis unfolding f e using True Cons by (auto simp: s1_def)
  qed simp
  have low: "unat (ucast (c AND BOTTOM_BITS 5) :: u32) = unat c mod 32" "unat (ucast (c AND BOTTOM_BITS 4) :: u32) = unat c mod 16"
    "unat (ucast (c AND BOTTOM_BITS 3) :: u32) = unat c mod 8"
    unfolding bits_values using low_bits [of 5 c] low_bits [of 4 c] low_bits [of 3 c] by simp_all
  note rest = utf8_rest_iff [OF oks, unfolded bs]
  have eval: "CBS_get_utf8 s = (if c \<le> 0x7f then (Some (ucast c), s1)
      else if c AND TOP_BITS 3 = TOP_BITS 2 then utf8_rest (ucast (c AND BOTTOM_BITS 5)) 1 0x80 s1
      else if c AND TOP_BITS 4 = TOP_BITS 3 then utf8_rest (ucast (c AND BOTTOM_BITS 4)) 2 0x800 s1
      else if c AND TOP_BITS 5 = TOP_BITS 4 then utf8_rest (ucast (c AND BOTTOM_BITS 3)) 3 0x10000 s1
      else (None, s1))"
    unfolding CBS_get_utf8_def op_bind_Some [of CBS_get_u8, OF g] Let_def utf8_rest_def by simp
  have "CBS_get_utf8 s = (Some u, t) \<longleftrightarrow> is_valid_code_point u \<and> ?R"
  proof -
    consider "unat c < 128" | "128 \<le> unat c" "unat c < 192" | "192 \<le> unat c" "unat c < 224"
      | "224 \<le> unat c" "unat c < 240" | "240 \<le> unat c" "unat c < 248" | "248 \<le> unat c" by linarith
    then show ?thesis
    proof cases
      case 1
      then have f: "utf8_form c ds w \<longleftrightarrow> ds = [] \<and> w = unat c" for ds w by (auto simp: utf8_form_def)
      have cu: "u = ucast c \<longleftrightarrow> unat u = unat c" by (simp add: word_unat_eq_iff unat_ucast_up)
      have valid: "is_valid_code_point (ucast c)"
      proof -
        have u: "unat (ucast c :: u32) < 128" using 1 by (simp add: unat_ucast_up)
        have "ucast c AND (65534 :: u32) \<le> ucast c" by (rule word_and_le2)
        then have "ucast c AND (65534 :: u32) \<noteq> 65534" using u by (auto simp: word_le_nat_alt)
        then show ?thesis
          using u by (simp add: is_valid_code_point_def word_less_nat_alt word_le_nat_alt)
      qed
      show ?thesis unfolding eval f using 1 bs valid cu by (auto simp: u8_le_7f)
    next
      case 2
      then have f: "\<not> utf8_form c ds w" for ds w by (auto simp: utf8_form_def)
      show ?thesis using f 2 by (simp add: eval u8_le_7f lead_bytes)
    next
      case 3
      then have f: "utf8_form c ds w \<longleftrightarrow> length ds = 1 \<and> list_all is_tail ds \<and> w = tail_val (unat c mod 32) ds \<and> 0x80 \<le> w"
        for ds w by (auto simp: utf8_form_def)
      have "CBS_get_utf8 s = utf8_rest (ucast (c AND BOTTOM_BITS 5)) 1 0x80 s1"
        using 3 by (simp add: eval u8_le_7f lead_bytes)
      then show ?thesis
        unfolding f using rest [where v = "ucast (c AND BOTTOM_BITS 5)" and n = 1 and lb = "0x80" and w = u and t = t] by (auto simp: low )
    next
      case 4
      then have f: "utf8_form c ds w \<longleftrightarrow> length ds = 2 \<and> list_all is_tail ds \<and> w = tail_val (unat c mod 16) ds \<and> 0x800 \<le> w"
        for ds w by (auto simp: utf8_form_def)
      have "CBS_get_utf8 s = utf8_rest (ucast (c AND BOTTOM_BITS 4)) 2 0x800 s1"
        using 4 by (simp add: eval u8_le_7f lead_bytes)
      then show ?thesis
        unfolding f using rest [where v = "ucast (c AND BOTTOM_BITS 4)" and n = 2 and lb = "0x800" and w = u and t = t] by (auto simp: low )
    next
      case 5
      then have f: "utf8_form c ds w \<longleftrightarrow> length ds = 3 \<and> list_all is_tail ds \<and> w = tail_val (unat c mod 8) ds \<and> 0x10000 \<le> w"
        for ds w by (auto simp: utf8_form_def)
      have "CBS_get_utf8 s = utf8_rest (ucast (c AND BOTTOM_BITS 3)) 3 0x10000 s1"
        using 5 by (simp add: eval u8_le_7f lead_bytes)
      then show ?thesis
        unfolding f using rest [where v = "ucast (c AND BOTTOM_BITS 3)" and n = 3 and lb = "0x10000" and w = u and t = t] by (auto simp: low )
    next
      case 6
      then have f: "\<not> utf8_form c ds w" for ds w by (auto simp: utf8_form_def)
      show ?thesis using f 6 by (simp add: eval u8_le_7f lead_bytes)
    qed
  qed
  then show ?thesis unfolding rhs .
qed


section \<open>Writing\<close>

lemma unat_and_low: "unat ((x :: u32) AND ucast (BOTTOM_BITS 6)) = unat x mod 64"
proof -
  have "(ucast (mask 6 :: u8) :: u32) = mask 6" by code_simp
  then have "x AND ucast (BOTTOM_BITS 6) = take_bit 6 x" unfolding bits_values by (simp add: take_bit_eq_mask)
  then show ?thesis by (simp only: unsigned_take_bit_eq) (simp add: take_bit_eq_mod)
qed

lemma unat_drop_u32: "unat (drop_bit n (x :: u32)) = unat x div 2 ^ n"
  unfolding unat_drop_bit_eq by (simp only: drop_bit_eq_div)

lemma add_bits_eq:
  assumes "lead AND mask n = 0" "unat x < 2 ^ n" "n \<le> 8" "unat lead = k"
  shows "add_bits malloc d lead x = CBB_add_u8 malloc d (word_of_nat (k + unat x))"
proof -
  have "bit x i \<Longrightarrow> i < n" for i
  proof (rule ccontr)
    assume "bit x i" "\<not> i < n"
    then have "(2 :: nat) ^ n \<le> 2 ^ i" by (intro power_increasing) simp_all
    with assms(2) have "unat x < 2 ^ i" by (rule less_le_trans)
    then have "unat x div 2 ^ i = 0" by (rule div_less)
    moreover have "bit (unat x) i" using \<open>bit x i\<close> by (simp add: bit_unsigned_iff)
    ultimately show False by (simp add: bit_iff_odd)
  qed
  then have "ucast lead AND x = 0"
    using assms(1) bit_imp_le_length [of lead] by (auto simp: bit_eq_iff bit_simps)
  then have "unat (ucast lead OR x) = k + unat x"
    using assms(4) by (simp add: unat_or_disjoint unat_ucast_up)
  then have "ucast lead OR x = word_of_nat (k + unat x)" by (rule unat_eq_word_of_nat)
  moreover have "(ucast (word_of_nat m :: u32) :: u8) = word_of_nat m" for m
    by (simp add: unsigned_of_nat take_bit_nat_def word_unat_eq_iff mod_mod_cancel)
  ultimately show ?thesis unfolding add_bits_def by (simp only:)
qed

lemma adds_tail: "malloc_ok malloc \<Longrightarrow>
    adds malloc d (add_bits malloc d (TOP_BITS 1) (x AND ucast (BOTTOM_BITS 6))) (Some [utf8_tail (unat x)])"
proof -
  assume m: "malloc_ok malloc"
  have "add_bits malloc d (TOP_BITS 1) (x AND ucast (BOTTOM_BITS 6)) = CBB_add_u8 malloc d (utf8_tail (unat x))"
    unfolding utf8_tail_def unat_and_low [symmetric]
    by (rule add_bits_eq [of _ 6]) (code_simp, simp add: unat_and_low, simp, code_simp)
  then show ?thesis using adds_ints(1) [OF m] by simp
qed

lemma adds_lead:
  assumes "malloc_ok malloc"
  shows "unat x < 2 ^ 5 \<Longrightarrow> adds malloc d (add_bits malloc d (TOP_BITS 2) x) (Some [word_of_nat (192 + unat x)])"
    "unat x < 2 ^ 4 \<Longrightarrow> adds malloc d (add_bits malloc d (TOP_BITS 3) x) (Some [word_of_nat (224 + unat x)])"
    "unat x < 2 ^ 3 \<Longrightarrow> adds malloc d (add_bits malloc d (TOP_BITS 4) x) (Some [word_of_nat (240 + unat x)])"
proof -
  assume "unat x < 2 ^ 5"
  from this have "add_bits malloc d (TOP_BITS 2) x = CBB_add_u8 malloc d (word_of_nat (192 + unat x))"
    by (intro add_bits_eq [of _ 5]) (code_simp, assumption, simp, code_simp)
  then show "adds malloc d (add_bits malloc d (TOP_BITS 2) x) (Some [word_of_nat (192 + unat x)])"
    using adds_ints(1) [OF assms] by simp
next
  assume "unat x < 2 ^ 4"
  then have "add_bits malloc d (TOP_BITS 3) x = CBB_add_u8 malloc d (word_of_nat (224 + unat x))"
    by (intro add_bits_eq [of _ 4]) (code_simp, assumption, simp, code_simp)
  then show "adds malloc d (add_bits malloc d (TOP_BITS 3) x) (Some [word_of_nat (224 + unat x)])"
    using adds_ints(1) [OF assms] by simp
next
  assume "unat x < 2 ^ 3"
  then have "add_bits malloc d (TOP_BITS 4) x = CBB_add_u8 malloc d (word_of_nat (240 + unat x))"
    by (intro add_bits_eq [of _ 3]) (code_simp, assumption, simp, code_simp)
  then show "adds malloc d (add_bits malloc d (TOP_BITS 4) x) (Some [word_of_nat (240 + unat x)])"
    using adds_ints(1) [OF assms] by simp
qed

lemma adds_utf8:
  assumes m: "malloc_ok malloc" and v: "is_valid_code_point u"
  shows "adds malloc d (CBB_add_utf8 malloc d u) (Some (utf8 (unat u)))"
proof -
  have p: "2 ^ 6 = (64 :: nat)" "2 ^ 12 = (64 ^ 2 :: nat)" "2 ^ 18 = (64 ^ 3 :: nat)" by simp_all
  have le: "u \<le> 0x7f \<longleftrightarrow> unat u < 0x80" "u \<le> 0x7ff \<longleftrightarrow> unat u < 0x800" "u \<le> 0xffff \<longleftrightarrow> unat u < 0x10000"
    by (auto simp: word_le_nat_alt)
  have max: "u \<le> 0x10ffff" using v by (simp add: is_valid_code_point_def not_less)
  then have u: "unat u < 0x200000" by (simp add: word_le_nat_alt)
  note tl = adds_tail [OF m] and ld = adds_lead [OF m]
  note bind = adds_bind_Some [where x = "[x]" for x, simplified append_Cons append_Nil]
  consider "unat u < 0x80" | "0x80 \<le> unat u" "unat u < 0x800" | "0x800 \<le> unat u" "unat u < 0x10000" | "0x10000 \<le> unat u"
    by linarith
  then show ?thesis
  proof cases
    case 1
    have "(ucast u :: u8) = word_of_nat (unat u)" by (simp add: unsigned_of_nat)
    then show ?thesis using 1 v adds_ints(1) [OF m] by (simp add: CBB_add_utf8_def utf8_def le)
  next
    case 2
    have l: "unat (drop_bit 6 u) < 2 ^ 5" unfolding unat_drop_u32 using 2 by simp
    have "adds malloc d (op_bind (add_bits malloc d (TOP_BITS 2) (drop_bit 6 u)) (\<lambda>_.
        add_bits malloc d (TOP_BITS 1) (u AND ucast (BOTTOM_BITS 6)))) (Some (word_of_nat (192 + unat u div 2 ^ 6) # [utf8_tail (unat u)]))"
      using ld(1) [OF l] unfolding unat_drop_u32 by (rule bind) (rule adds_adds_at [OF tl])
    then show ?thesis unfolding CBB_add_utf8_def utf8_def Let_def p using 2 v by (simp add: le del: of_nat_add)
  next
    case 3
    have l: "unat (drop_bit 12 u) < 2 ^ 4" unfolding unat_drop_u32 using 3 by simp
    have "adds malloc d (op_bind (add_bits malloc d (TOP_BITS 3) (drop_bit 12 u)) (\<lambda>_.
        op_bind (add_bits malloc d (TOP_BITS 1) (drop_bit 6 u AND ucast (BOTTOM_BITS 6))) (\<lambda>_.
          add_bits malloc d (TOP_BITS 1) (u AND ucast (BOTTOM_BITS 6)))))
        (Some (word_of_nat (224 + unat u div 2 ^ 12) # utf8_tail (unat u div 2 ^ 6) # [utf8_tail (unat u)]))"
      using ld(2) [OF l] tl [where x = "drop_bit 6 u"] unfolding unat_drop_u32
      by (intro bind adds_adds_at [OF bind] adds_adds_at [OF tl])
    then show ?thesis unfolding CBB_add_utf8_def utf8_def Let_def p using 3 v by (simp add: le del: of_nat_add)
  next
    case 4
    have l: "unat (drop_bit 18 u) < 2 ^ 3" unfolding unat_drop_u32 using u by simp
    have "adds malloc d (op_bind (add_bits malloc d (TOP_BITS 4) (drop_bit 18 u)) (\<lambda>_.
        op_bind (add_bits malloc d (TOP_BITS 1) (drop_bit 12 u AND ucast (BOTTOM_BITS 6))) (\<lambda>_.
          op_bind (add_bits malloc d (TOP_BITS 1) (drop_bit 6 u AND ucast (BOTTOM_BITS 6))) (\<lambda>_.
            add_bits malloc d (TOP_BITS 1) (u AND ucast (BOTTOM_BITS 6))))))
        (Some (word_of_nat (240 + unat u div 2 ^ 18) # utf8_tail (unat u div 2 ^ 12) # utf8_tail (unat u div 2 ^ 6) # [utf8_tail (unat u)]))"
      using ld(3) [OF l] tl [where x = "drop_bit 6 u"] tl [where x = "drop_bit 12 u"] unfolding unat_drop_u32
      by (intro bind adds_adds_at [OF bind] adds_adds_at [OF tl])
    then show ?thesis unfolding CBB_add_utf8_def utf8_def Let_def p using 4 v max by (simp add: le del: of_nat_add)
  qed
qed

section \<open>The four encodings as codecs\<close>

lemma codec_of_valid_iff:
  assumes "\<And>s v t. cbs_ok s \<Longrightarrow> get s = (Some v, t) \<longleftrightarrow>
      valid v \<and> cbs_bytes s = enc v @ cbs_bytes t \<and> t = cbs_adv (length (enc v)) s"
  shows "cbs_codec get id enc valid"
proof
  fix s r t assume ok: "cbs_ok s" and g: "get s = (Some r, t)"
  then have b: "valid r" "cbs_bytes s = enc r @ cbs_bytes t" and t: "t = cbs_adv (length (enc r)) s"
    using assms by blast+
  have "length (enc r) \<le> cbs_len s" using arg_cong [OF b(2), of length] ok by simp
  then show "valid (id r) \<and> cbs_bytes s = enc (id r) @ cbs_bytes t \<and> cbs_ok t" using b ok unfolding t by simp
next
  fix s v rest assume ok: "cbs_ok s" and v: "valid v" and b: "cbs_bytes s = enc v @ rest"
  let ?t = "cbs_adv (length (enc v)) s"
  have r: "cbs_bytes ?t = rest" by (simp add: b)
  then have "get s = (Some v, ?t)" unfolding assms [OF ok] using b v by simp
  with r show "\<exists>r t. get s = (Some r, t) \<and> id r = v \<and> cbs_bytes t = rest" by auto
qed

interpretation utf8: cbb_codec CBS_get_utf8 id "\<lambda>u. utf8 (unat u)" is_valid_code_point CBB_add_utf8 is_valid_code_point
  by (intro cbb_codec.intro cbb_codec_axioms.intro codec_of_valid_iff CBS_get_utf8_iff adds_utf8)

lemma is_valid_latin1: "u \<le> 0xff \<longleftrightarrow> unat (u :: u32) < 256"
  by (auto simp: word_le_nat_alt)

interpretation latin1: cbb_codec CBS_get_latin1 id "\<lambda>u. [ucast u]" "\<lambda>u. u \<le> 0xff" CBB_add_latin1 "\<lambda>u. u \<le> 0xff"
proof (intro cbb_codec.intro cbb_codec_axioms.intro codec_of_valid_iff)
  fix s t and v :: u32 assume ok: "cbs_ok s"
  have A: "(v = ucast c) \<longleftrightarrow> v \<le> 0xff \<and> ucast v = c" for c :: u8
  proof -
    have "unat (ucast v :: u8) = unat v mod 256" by (simp add: unsigned_ucast_eq take_bit_eq_mod)
    then show ?thesis
      using u8_lt [of c] unfolding is_valid_latin1 word_unat_eq_iff [of v] word_unat_eq_iff [of _ c]
      by (auto simp: unat_ucast_up)
  qed
  show "CBS_get_latin1 s = (Some v, t) \<longleftrightarrow>
      v \<le> 0xff \<and> cbs_bytes s = [ucast v] @ cbs_bytes t \<and> t = cbs_adv (length [ucast v]) s"
  proof (cases "cbs_bytes s")
    case (Cons c bs)
    then have "CBS_get_latin1 s = (Some (ucast c), cbs_adv 1 s)"
      by (simp add: CBS_get_latin1_def op_bind_def CBS_get_u8_eq [OF ok])
    then have "CBS_get_latin1 s = (Some v, t) \<longleftrightarrow> v = ucast c \<and> t = cbs_adv 1 s" by auto
    then show ?thesis unfolding A Cons by (auto simp: Cons)
  qed (simp add: CBS_get_latin1_def op_bind_def CBS_get_u8_eq [OF ok])
next
  fix malloc d and v :: u32 assume "malloc_ok malloc" "v \<le> 0xff"
  then show "adds malloc d (CBB_add_latin1 malloc d v) (Some [ucast v])"
    by (simp add: CBB_add_latin1_def adds_ints)
qed

interpretation ucs2: cbb_codec CBS_get_ucs2_be id "\<lambda>u. be_bytes 2 (unat u)"
  "\<lambda>u. u \<le> 0xffff \<and> is_valid_code_point u" CBB_add_ucs2_be "\<lambda>u. u \<le> 0xffff \<and> is_valid_code_point u"
proof
  fix s r t assume ok: "cbs_ok s" and "CBS_get_ucs2_be s = (Some r, t)"
  then obtain c where c: "CBS_get_u16 s = (Some c, t)" "r = ucast c" "is_valid_code_point r"
    by (auto simp: CBS_get_ucs2_be_def op_bind_def split: prod.splits option.splits if_splits)
  have "unat c < 2 ^ 16" using unsigned_less [of c, where 'a = nat] by simp
  then have "r \<le> 0xffff" by (simp add: c(2) word_le_nat_alt unat_ucast_up)
  then show "(id r \<le> 0xffff \<and> is_valid_code_point (id r)) \<and> cbs_bytes s = be_bytes 2 (unat (id r)) @ cbs_bytes t \<and> cbs_ok t"
    using u16.get_sound [OF ok c(1)] c(2,3) by (simp add: unat_ucast_up)
next
  fix s rest and v :: u32
  assume ok: "cbs_ok s" and v: "v \<le> 0xffff \<and> is_valid_code_point v" and b: "cbs_bytes s = be_bytes 2 (unat v) @ rest"
  then have u: "unat (ucast v :: u16) = unat v"
    by (simp add: unsigned_ucast_eq word_le_nat_alt take_bit_nat_eq_self)
  then have "(ucast (ucast v :: u16) :: u32) = v" by (simp add: word_unat_eq_iff unat_ucast_up)
  with u16.get_complete [OF ok TrueI, of "ucast v" rest] v u b
  show "\<exists>r t. CBS_get_ucs2_be s = (Some r, t) \<and> id r = v \<and> cbs_bytes t = rest"
    by (auto simp: CBS_get_ucs2_be_def op_bind_def)
next
  fix malloc d and v :: u32 assume m: "malloc_ok malloc" and v: "v \<le> 0xffff \<and> is_valid_code_point v"
  then have u: "unat (ucast v :: u16) = unat v"
    by (simp add: unsigned_ucast_eq word_le_nat_alt take_bit_nat_eq_self)
  then show "adds malloc d (CBB_add_ucs2_be malloc d v) (Some (be_bytes 2 (unat v)))"
    using adds_ints(2) [OF m, of d "ucast v"] v by (simp add: CBB_add_ucs2_be_def)
qed

interpretation utf32: cbb_codec CBS_get_utf32_be id "\<lambda>u. be_bytes 4 (unat u)" is_valid_code_point
  CBB_add_utf32_be is_valid_code_point
proof
  fix s r t assume ok: "cbs_ok s" and "CBS_get_utf32_be s = (Some r, t)"
  then have c: "CBS_get_u32 s = (Some r, t)" "is_valid_code_point r"
    by (auto simp: CBS_get_utf32_be_def op_bind_def split: prod.splits option.splits if_splits)
  then show "is_valid_code_point (id r) \<and> cbs_bytes s = be_bytes 4 (unat (id r)) @ cbs_bytes t \<and> cbs_ok t"
    using u32.get_sound [OF ok c(1)] by simp
next
  fix s rest and v :: u32
  assume ok: "cbs_ok s" and v: "is_valid_code_point v" and b: "cbs_bytes s = be_bytes 4 (unat v) @ rest"
  with u32.get_complete [OF ok TrueI, of v rest]
  show "\<exists>r t. CBS_get_utf32_be s = (Some r, t) \<and> id r = v \<and> cbs_bytes t = rest"
    by (auto simp: CBS_get_utf32_be_def op_bind_def)
next
  fix malloc d and v :: u32 assume "malloc_ok malloc" "is_valid_code_point v"
  then show "adds malloc d (CBB_add_utf32_be malloc d v) (Some (be_bytes 4 (unat v)))"
    by (simp add: CBB_add_utf32_be_def adds_ints)
qed

section \<open>The properties\<close>

text \<open>(C38) \<open>CBS_get_utf8\<close> reads exactly the UTF-8 encodings of the valid code points of the Unicode
  standard: it refuses overlong forms, surrogates, noncharacters, values past \<open>0x10ffff\<close>, stray continuation bytes and truncated
  sequences, and what it accepts is the shortest encoding of the code point it returns.\<close>

theorem utf8_reader_exact:
  assumes "cbs_ok s"
  shows "CBS_get_utf8 s = (Some u, t) \<longleftrightarrow>
    code_point (unat u) \<and> cbs_bytes s = utf8 (unat u) @ cbs_bytes t \<and> t = cbs_adv (length (utf8 (unat u))) s"
  unfolding CBS_get_utf8_iff [OF assms] is_valid_iff ..

theorem utf8_reader_exact_witness:
  "CBS_get_utf8 (CBS_init [0xe2, 0x82, 0xac, 0x21] 4) = (Some 0x20ac, CBS_init [0x21] 1)"
proof (rule utf8_reader_exact [THEN iffD2])
  have "utf8 (unat (0x20ac :: u32)) = [0xe2, 0x82, 0xac]" by (simp add: utf8_def utf8_tail_def)
  then show "code_point (unat (0x20ac :: u32)) \<and> cbs_bytes (CBS_init [0xe2, 0x82, 0xac, 0x21] 4) = utf8 (unat (0x20ac :: u32)) @
      cbs_bytes (CBS_init [0x21] 1) \<and> CBS_init [0x21] 1 = cbs_adv (length (utf8 (unat (0x20ac :: u32)))) (CBS_init [0xe2, 0x82, 0xac, 0x21] 4)"
    by (simp add: code_point_def surrogates_def noncharacters_def CBS_init_def cbs_adv_def cbs_bytes_def)
qed simp

text \<open>(C37) In each of the four encodings, every code point the writer takes is written with memory
  available and read back, with nothing left: UTF-8 and UTF-32 for the valid code points, UCS-2 for
  those of 16 bits, Latin-1 for those of eight; and \<open>CBB_get_utf8_len\<close> is the length of the UTF-8 form.\<close>

theorem unicode_round_trip:
  assumes "malloc_ok malloc" "\<forall>k<SIZE_LIMIT. malloc k \<noteq> None" "cap < 2 ^ 62"
    and "(get, put, ok) \<in> {(CBS_get_utf8, CBB_add_utf8, \<lambda>u. code_point (unat u)), (CBS_get_latin1, CBB_add_latin1, \<lambda>u. u \<le> 0xff),
      (CBS_get_ucs2_be, CBB_add_ucs2_be, \<lambda>u. u \<le> 0xffff \<and> code_point (unat u)),
      (CBS_get_utf32_be, CBB_add_utf32_be, \<lambda>u. code_point (unat u))}" and "ok u"
  shows "(\<exists>s0 s1 buf n s2 t. CBB_init malloc cap = Some s0 \<and> put malloc 0 u s0 = (Some (), s1) \<and>
      CBB_finish malloc 0 False s1 = (Some (Some buf, n), s2) \<and>
      get (CBS_init buf n) = (Some u, t) \<and> cbs_len t = 0) \<and> CBB_get_utf8_len u = length (utf8 (unat u))"
proof
  have l: "length (utf8 k) \<le> 2 ^ 62" "utf8 k \<noteq> []" "be_bytes 2 k \<noteq> []" "be_bytes 4 k \<noteq> []" for k
  proof -
    show "be_bytes 2 k \<noteq> []" "be_bytes 4 k \<noteq> []"
      by (metis length_be_bytes list.size(3) zero_neq_numeral)+
  qed (auto simp: utf8_def)
  note rt = utf8.written_read_back [OF assms(1,2) _ l(2) l(1) assms(3)]
    latin1.written_read_back [OF assms(1,2) _ _ _ assms(3)] ucs2.written_read_back [OF assms(1,2) _ l(3) _ assms(3)]
    utf32.written_read_back [OF assms(1,2) _ l(4) _ assms(3)]
  from assms(4) consider "get = CBS_get_utf8" "put = CBB_add_utf8" "ok = (\<lambda>u. code_point (unat u))"
    | "get = CBS_get_latin1" "put = CBB_add_latin1" "ok = (\<lambda>u. u \<le> 0xff)"
    | "get = CBS_get_ucs2_be" "put = CBB_add_ucs2_be" "ok = (\<lambda>u. u \<le> 0xffff \<and> code_point (unat u))"
    | "get = CBS_get_utf32_be" "put = CBB_add_utf32_be" "ok = (\<lambda>u. code_point (unat u))" by auto
  then show "\<exists>s0 s1 buf n s2 t. CBB_init malloc cap = Some s0 \<and> put malloc 0 u s0 = (Some (), s1) \<and>
      CBB_finish malloc 0 False s1 = (Some (Some buf, n), s2) \<and> get (CBS_init buf n) = (Some u, t) \<and> cbs_len t = 0"
    by cases (use rt [of u, unfolded is_valid_iff] assms(5) in \<open>auto\<close>)
  show "CBB_get_utf8_len u = length (utf8 (unat u))"
    by (simp add: CBB_get_utf8_len_def utf8_def word_le_nat_alt)
qed

theorem unicode_round_trip_witness:
  "\<exists>s0 s1 buf n s2 t. CBB_init (\<lambda>n. Some (replicate n 0)) 0 = Some s0 \<and>
      CBB_add_utf8 (\<lambda>n. Some (replicate n 0)) 0 0x20ac s0 = (Some (), s1) \<and>
      CBB_finish (\<lambda>n. Some (replicate n 0)) 0 False s1 = (Some (Some buf, n), s2) \<and>
      CBS_get_utf8 (CBS_init buf n) = (Some 0x20ac, t) \<and> cbs_len t = 0"
  by (rule unicode_round_trip [of _ _ CBS_get_utf8 CBB_add_utf8 "\<lambda>u. code_point (unat u)", THEN conjunct1])
    (simp_all add: malloc_ok_def code_point_def surrogates_def noncharacters_def)

end
