(* ===== verification/Ber.thy ===== *)
theory Ber
  imports Wire_Format
begin

text \<open>
  The conversion from BER to DER of \<open>crypto/bytestring/ber.c\<close> and \<open>asn1_compat.c\<close>.

  The two recursive functions are partial functions whose value \<open>None\<close> means that they do not
  return; \<open>Some\<close> holds what they return: \<open>None\<close> for an error and the result otherwise.  That they
  always return is a property below, not a choice of the model.
\<close>

section \<open>The code\<close>

abbreviation kMaxDepth :: nat where "kMaxDepth \<equiv> 128"

definition is_string_type :: "u32 \<Rightarrow> bool" where
  "is_string_type tag \<longleftrightarrow>
    tag AND NOT CBS_ASN1_CONSTRUCTED \<in>
      {0x4, 0xc, 0x12, 0x13, 0x14, 0x15, 0x16, 0x19, 0x1a, 0x1b, 0x1c, 0x1e}"

text \<open>The inner result is \<open>*ber_found\<close>.\<close>

partial_function (option) cbs_find_ber :: "cbs \<Rightarrow> nat \<Rightarrow> bool option option" where
  "cbs_find_ber inn depth =
    (if depth > kMaxDepth then Some None
     else if CBS_len inn = 0 then Some (Some False)
     else
       case CBS_get_any_ber_asn1_element inn of
         (None, _) \<Rightarrow> Some None
       | (Some el, inn) \<Rightarrow>
           if el_ber_found el then Some (Some True)
           else if el_tag el AND CBS_ASN1_CONSTRUCTED \<noteq> 0 then
             if is_string_type (el_tag el) then Some (Some True)
             else
               (case CBS_skip (el_header_len el) (el_out el) of
                  (None, _) \<Rightarrow> Some None
                | (Some _, contents) \<Rightarrow>
                    Option.bind (cbs_find_ber contents (depth + 1)) (\<lambda>r.
                      case r of
                        None \<Rightarrow> Some None
                      | Some ber_found \<Rightarrow> if ber_found then Some (Some True) else cbs_find_ber inn depth))
           else cbs_find_ber inn depth)"

definition cbs_get_eoc :: "(cbs, unit) op" where
  "cbs_get_eoc s =
    (if CBS_len s \<ge> 2 \<and> CBS_data s ! 0 = 0 \<and> CBS_data s ! 1 = 0 then CBS_skip 2 s else (None, s))"

text \<open>The builder for the contents of an element with the tag \<open>tag\<close>, as its depth, and the string
  tag of its children.\<close>

definition ber_open ::
  "(nat \<Rightarrow> u8 list option) \<Rightarrow> nat \<Rightarrow> u32 \<Rightarrow> u32 \<Rightarrow> (cbb, nat \<times> u32) op" where
  "ber_open malloc out string_tag tag =
    (if string_tag \<noteq> 0 then
       op_bind (op_check (\<not> (tag AND NOT CBS_ASN1_CONSTRUCTED \<noteq> string_tag))) (\<lambda>_. op_ret (out, string_tag))
     else
       let (out_tag, child_string_tag) =
         (if tag AND CBS_ASN1_CONSTRUCTED \<noteq> 0 \<and> is_string_type tag
          then (tag AND NOT CBS_ASN1_CONSTRUCTED, tag AND NOT CBS_ASN1_CONSTRUCTED)
          else (tag, string_tag))
       in op_bind (CBB_add_asn1 malloc out out_tag) (\<lambda>_. op_ret (Suc out, child_string_tag)))"

partial_function (option) cbs_convert_ber ::
  "(nat \<Rightarrow> u8 list option) \<Rightarrow> nat \<Rightarrow> u32 \<Rightarrow> bool \<Rightarrow> nat \<Rightarrow> cbs \<Rightarrow> cbb \<Rightarrow> (unit option \<times> cbs \<times> cbb) option" where
  "cbs_convert_ber malloc out string_tag looking_for_eoc depth inn b =
    (if depth > kMaxDepth then Some (None, inn, b)
     else if CBS_len inn = 0 then Some (if looking_for_eoc then None else Some (), inn, b)
     else
       case (if looking_for_eoc then cbs_get_eoc inn else (None, inn)) of
         (Some _, inn) \<Rightarrow> Some (Some (), inn, b)
       | (None, _) \<Rightarrow>
       (case CBS_get_any_ber_asn1_element inn of
          (None, inn) \<Rightarrow> Some (None, inn, b)
        | (Some el, inn) \<Rightarrow>
        (case ber_open malloc out string_tag (el_tag el) b of
           (None, b) \<Rightarrow> Some (None, inn, b)
         | (Some (out_contents, child_string_tag), b) \<Rightarrow>
             if el_indefinite el then
               Option.bind (cbs_convert_ber malloc out_contents child_string_tag True (depth + 1) inn b) (\<lambda>(r, inn, b).
                 case (case r of None \<Rightarrow> (None, b) | Some _ \<Rightarrow> CBB_flush malloc out b) of
                   (None, b) \<Rightarrow> Some (None, inn, b)
                 | (Some _, b) \<Rightarrow> cbs_convert_ber malloc out string_tag looking_for_eoc depth inn b)
             else
               (case CBS_skip (el_header_len el) (el_out el) of
                  (None, _) \<Rightarrow> Some (None, inn, b)
                | (Some _, contents) \<Rightarrow>
                    Option.bind
                      (if el_tag el AND CBS_ASN1_CONSTRUCTED \<noteq> 0
                       then cbs_convert_ber malloc out_contents child_string_tag False (depth + 1) contents b
                       else
                         (case CBB_add_bytes malloc out_contents (CBS_data contents) (CBS_len contents) b of
                            (r, b) \<Rightarrow> Some (r, contents, b)))
                      (\<lambda>(r, _, b).
                        case (case r of None \<Rightarrow> (None, b) | Some _ \<Rightarrow> CBB_flush malloc out b) of
                          (None, b) \<Rightarrow> Some (None, inn, b)
                        | (Some _, b) \<Rightarrow> cbs_convert_ber malloc out string_tag looking_for_eoc depth inn b)))))"

text \<open>The result is \<open>*out\<close> and \<open>*out_storage\<close>.\<close>

definition CBS_asn1_ber_to_der ::
  "(nat \<Rightarrow> u8 list option) \<Rightarrow> cbs \<Rightarrow> ((cbs \<times> u8 list option) option \<times> cbs) option" where
  "CBS_asn1_ber_to_der malloc inn =
    Option.bind (cbs_find_ber inn 0) (\<lambda>r.
      case r of
        None \<Rightarrow> Some (None, inn)
      | Some conversion_needed \<Rightarrow>
          if \<not> conversion_needed then
            Some (op_bind CBS_get_any_asn1_element (\<lambda>el. op_ret (el_out el, None)) inn)
          else
            (case CBB_init malloc (CBS_len inn) of
               None \<Rightarrow> Some (None, inn)
             | Some cbb \<Rightarrow>
                 Option.bind (cbs_convert_ber malloc 0 0 False 0 inn cbb) (\<lambda>(r, inn, cbb).
                   case (case r of None \<Rightarrow> (None, cbb) | Some _ \<Rightarrow> CBB_finish malloc 0 False cbb) of
                     (None, _) \<Rightarrow> Some (None, inn)
                   | (Some (storage, len), _) \<Rightarrow>
                       Some (Some (CBS_init (case storage of None \<Rightarrow> [] | Some bs \<Rightarrow> bs) len, storage), inn))))"

text \<open>The loop of \<open>CBS_get_asn1_implicit_string\<close> over the chunks of a constructed string.\<close>

partial_function (option) implicit_string_loop ::
  "(nat \<Rightarrow> u8 list option) \<Rightarrow> u32 \<Rightarrow> cbs \<Rightarrow> cbb \<Rightarrow> (unit option \<times> cbb) option" where
  "implicit_string_loop malloc inner_tag child result =
    (if CBS_len child = 0 then Some (Some (), result)
     else
       case CBS_get_asn1 inner_tag child of
         (None, _) \<Rightarrow> Some (None, result)
       | (Some chunk, child) \<Rightarrow>
           (case CBB_add_bytes malloc 0 (CBS_data chunk) (CBS_len chunk) result of
              (None, result) \<Rightarrow> Some (None, result)
            | (Some _, result) \<Rightarrow> implicit_string_loop malloc inner_tag child result))"

definition CBS_get_asn1_implicit_string ::
  "(nat \<Rightarrow> u8 list option) \<Rightarrow> u32 \<Rightarrow> u32 \<Rightarrow> cbs \<Rightarrow> ((cbs \<times> u8 list option) option \<times> cbs) option" where
  "CBS_get_asn1_implicit_string malloc outer_tag inner_tag inn =
    (if CBS_peek_asn1_tag inn outer_tag
     then Some (op_bind (CBS_get_asn1 outer_tag) (\<lambda>out. op_ret (out, None)) inn)
     else
       case CBB_init malloc (CBS_len inn) of
         None \<Rightarrow> Some (None, inn)
       | Some result \<Rightarrow>
           (case CBS_get_asn1 (outer_tag OR CBS_ASN1_CONSTRUCTED) inn of
              (None, inn) \<Rightarrow> Some (None, inn)
            | (Some child, inn) \<Rightarrow>
                Option.bind (implicit_string_loop malloc inner_tag child result) (\<lambda>(r, result).
                  case (case r of None \<Rightarrow> (None, result) | Some _ \<Rightarrow> CBB_finish malloc 0 False result) of
                    (None, _) \<Rightarrow> Some (None, inn)
                  | (Some (data, len), _) \<Rightarrow>
                      Some (Some (CBS_init (case data of None \<Rightarrow> [] | Some bs \<Rightarrow> bs) len, data), inn))))"

text \<open>\<open>CBB_finish_i2d\<close>: \<open>outp\<close> is \<open>None\<close> for a null pointer, \<open>Some None\<close> when it points to a null
  pointer and \<open>Some (Some buf)\<close> for a buffer.  The result is the length, or -1, and what \<open>*outp\<close>
  points to: the new block, or the buffer and how far it was advanced.\<close>

definition CBB_finish_i2d ::
  "(nat \<Rightarrow> u8 list option) \<Rightarrow> u8 list option option \<Rightarrow> cbb \<Rightarrow> int \<times> (u8 list option \<times> nat) option" where
  "CBB_finish_i2d malloc outp cbb =
    (case CBB_finish malloc 0 False cbb of
       (None, _) \<Rightarrow> (-1, None)
     | (Some (der, der_len), _) \<Rightarrow>
         if der_len > INT_MAX_nat then (-1, None)
         else
           (int der_len,
            case outp of
              None \<Rightarrow> None
            | Some None \<Rightarrow> Some (der, 0)
            | Some (Some buf) \<Rightarrow>
                Some (Some (take der_len (case der of None \<Rightarrow> [] | Some bs \<Rightarrow> bs) @ drop der_len buf), der_len)))"

section \<open>BER elements\<close>

text \<open>What the element parser promises of BER: the element is a prefix of the string, at least two
  bytes of header included, so reading one is progress.\<close>

lemma ber_element_shape:
  assumes ok: "cbs_ok s" and r: "CBS_get_any_ber_asn1_element s = (Some el, t)"
  obtains n where "n \<le> cbs_len s" "el_out el = CBS_init (cbs_data s) n" "2 \<le> el_header_len el"
    "el_header_len el \<le> n" "t = cbs_adv n s" "el_tag el AND NOT CBS_ASN1_CONSTRUCTED \<noteq> 0"
    "el_indefinite el \<Longrightarrow> el_tag el AND CBS_ASN1_CONSTRUCTED \<noteq> 0"
proof -
  obtain tag h1 lb h2 where p: "parse_asn1_tag s = (Some tag, h1)" "CBS_get_u8 h1 = (Some lb, h2)"
    using any_element_parts [OF r [unfolded CBS_get_any_ber_asn1_element_def]] .
  note f = any_element_front [OF ok p]
  have k: "2 \<le> Suc (length (tag_bytes tag))" by (simp add: tag_bytes_def Let_def)
  note ev = r [unfolded CBS_get_any_ber_asn1_element_def element_eval [OF ok p]]
  have "\<exists>n h ber indef. element_at n h tag ber indef s = (Some el, t) \<and> 2 \<le> h \<and> h \<le> n \<and>
      (indef \<longrightarrow> tag AND CBS_ASN1_CONSTRUCTED \<noteq> 0)"
  proof (cases "unat lb < 128")
    case True
    show ?thesis
      by (rule exI, rule exI, rule exI, rule exI, rule conjI, rule ev [unfolded if_P [OF True]]) (use k in simp)
  next
    case long: False
    note ev = ev [unfolded if_not_P [OF long]]
    show ?thesis
    proof (cases "True \<and> tag AND CBS_ASN1_CONSTRUCTED \<noteq> 0 \<and> unat lb - 128 = 0")
      case True
      show ?thesis
        by (rule exI, rule exI, rule exI, rule exI, rule conjI, rule ev [unfolded if_P [OF True]]) (use k True in simp)
    next
      case False
      note ev = ev [unfolded if_not_P [OF False]]
      have "\<not> (unat lb - 128 = 0 \<or> unat lb - 128 > 4 \<or> length (cbs_bytes h2) < unat lb - 128)"
        using ev by (auto split: if_splits)
      note ev = ev [unfolded if_not_P [OF this] not_True_eq_False simp_thms if_False]
      show ?thesis
        by (rule exI, rule exI, rule exI, rule exI, rule conjI, rule ev) (use k in simp)
    qed
  qed
  then show thesis
    unfolding element_at_Some using f(2) that by auto
qed

lemma ber_contents:
  assumes "cbs_ok s" "CBS_get_any_ber_asn1_element s = (Some el, t)"
  obtains c where "CBS_skip (el_header_len el) (el_out el) = (Some (), c)" "cbs_ok c" "cbs_len c < cbs_len s"
    "cbs_ok t" "cbs_len t < cbs_len s" "\<exists>n\<le>cbs_len s. t = cbs_adv n s"
proof -
  obtain n where n: "n \<le> cbs_len s" "el_out el = CBS_init (cbs_data s) n" "2 \<le> el_header_len el"
    "el_header_len el \<le> n" "t = cbs_adv n s"
    using ber_element_shape [OF assms] by metis
  show thesis
  proof (rule that [of "cbs_adv (el_header_len el) (el_out el)"])
    show "CBS_skip (el_header_len el) (el_out el) = (Some (), cbs_adv (el_header_len el) (el_out el))"
      using n by (simp add: CBS_skip_eq)
    have "cbs_ok (el_out el)" using n(1) assms(1) by (simp add: n(2) cbs_ok_def CBS_init_def)
    then show "cbs_ok (cbs_adv (el_header_len el) (el_out el))" using n by simp
  qed (use n assms(1) in auto)
qed

section \<open>The quick walk\<close>

text \<open>Byte strings that are sequences of DER elements without constructed strings, nested at most
  \<open>k\<close> deep.\<close>

inductive ber_free :: "nat \<Rightarrow> u8 list \<Rightarrow> bool" where
  ber_free_Nil: "ber_free k []"
| ber_free_primitive: "tag AND NOT CBS_ASN1_CONSTRUCTED \<noteq> 0 \<Longrightarrow> tag AND CBS_ASN1_CONSTRUCTED = 0 \<Longrightarrow>
    length c < 2 ^ 32 \<Longrightarrow> ber_free k rest \<Longrightarrow> ber_free k (der_element tag c @ rest)"
| ber_free_constructed: "tag AND NOT CBS_ASN1_CONSTRUCTED \<noteq> 0 \<Longrightarrow> tag AND CBS_ASN1_CONSTRUCTED \<noteq> 0 \<Longrightarrow>
    \<not> is_string_type tag \<Longrightarrow> length c < 2 ^ 32 \<Longrightarrow> ber_free k c \<Longrightarrow> ber_free (Suc k) rest \<Longrightarrow>
    ber_free (Suc k) (der_element tag c @ rest)"

lemma skip_der_header:
  assumes "cbs_ok s" "cbs_bytes s = der_element tag c @ rest"
    "el_out el = CBS_init (cbs_data s) (length (der_element tag c))" "el_header_len el = length (der_header tag (length c))"
  shows "\<exists>x. CBS_skip (el_header_len el) (el_out el) = (Some (), x) \<and> cbs_ok x \<and> cbs_bytes x = c"
proof -
  have l: "length (der_element tag c) \<le> cbs_len s" using arg_cong [OF assms(2), of length] assms(1) by simp
  have h: "el_header_len el \<le> length (der_element tag c)" using assms(4) by (simp add: der_element_def)
  have "cbs_bytes (el_out el) = der_element tag c"
    using cbs_data_take [OF assms(1) l] by (simp add: assms(2,3))
  then have "cbs_bytes (cbs_adv (el_header_len el) (el_out el)) = c"
    by (simp add: assms(4) der_element_def)
  moreover have "cbs_ok (el_out el)" using l assms(1) unfolding assms(3) by (simp add: cbs_ok_def CBS_init_def)
  then have "cbs_ok (cbs_adv (el_header_len el) (el_out el))" using h assms(3) by simp
  ultimately show ?thesis using h by (simp add: CBS_skip_eq assms(3))
qed

lemma ber_reads_der:
  assumes "cbs_ok s" "cbs_bytes s = der_element tag c @ rest" "tag AND NOT CBS_ASN1_CONSTRUCTED \<noteq> 0" "length c < 2 ^ 32"
  obtains el t x where "CBS_get_any_ber_asn1_element s = (Some el, t)" "el_tag el = tag" "\<not> el_ber_found el"
    "CBS_skip (el_header_len el) (el_out el) = (Some (), x)" "cbs_ok x" "cbs_bytes x = c" "cbs_ok t" "cbs_bytes t = rest"
proof -
  let ?t = "cbs_adv (length (der_element tag c)) s"
  let ?el = "\<lparr>el_out = CBS_init (cbs_data s) (length (der_element tag c)), el_tag = tag,
    el_header_len = length (der_header tag (length c)), el_ber_found = False, el_indefinite = False\<rparr>"
  have t: "cbs_bytes ?t = rest" by (simp add: assms(2))
  have "is_der_element s ?el ?t"
    unfolding is_der_element_def by (rule exI [of _ c]) (use assms t in simp)
  then have "CBS_get_any_asn1_element s = (Some ?el, ?t)" using der_element_iff [OF assms(1)] by blast
  then have "CBS_get_any_ber_asn1_element s = (Some ?el, ?t)" using ber_agrees_der by blast
  moreover have "cbs_ok ?t" using ber_contents [OF assms(1) calculation] by blast
  ultimately show thesis using that [of ?el ?t] skip_der_header [OF assms(1,2), of ?el] t by auto
qed

lemma ber_reads_only_der:
  assumes "cbs_ok s" "CBS_get_any_ber_asn1_element s = (Some el, t)" "\<not> el_ber_found el"
  obtains c x where "el_tag el AND NOT CBS_ASN1_CONSTRUCTED \<noteq> 0" "length c < 2 ^ 32"
    "cbs_bytes s = der_element (el_tag el) c @ cbs_bytes t" "CBS_skip (el_header_len el) (el_out el) = (Some (), x)"
    "cbs_ok x" "cbs_bytes x = c" "cbs_len x < cbs_len s" "cbs_ok t" "cbs_len t < cbs_len s"
proof -
  have "CBS_get_any_asn1_element s = (Some el, t)" using ber_agrees_der assms(2,3) by blast
  then obtain c where c: "el_tag el AND NOT CBS_ASN1_CONSTRUCTED \<noteq> 0" "length c < 2 ^ 32"
    "cbs_bytes s = der_element (el_tag el) c @ cbs_bytes t"
    "el_out el = CBS_init (cbs_data s) (length (der_element (el_tag el) c))"
    "el_header_len el = length (der_header (el_tag el) (length c))"
    using der_element_iff [OF assms(1)] unfolding is_der_element_def by blast
  show thesis
    using ber_contents [OF assms(1,2)] skip_der_header [OF assms(1) c(3-5)] c(1-3) that by (metis option.inject prod.inject)
qed

lemma find_ber_complete:
  assumes "ber_free k bs" "k + depth \<le> kMaxDepth" "cbs_ok s" "cbs_bytes s = bs"
  shows "cbs_find_ber s depth = Some (Some False)"
  using assms
proof (induction k bs arbitrary: s depth)
  case (ber_free_Nil k)
  then have "cbs_len s = 0" using length_cbs_bytes [of s] by simp
  then show ?case using ber_free_Nil.prems by (subst cbs_find_ber.simps) simp
next
  case (ber_free_primitive tag c k rest)
  obtain el t where el: "CBS_get_any_ber_asn1_element s = (Some el, t)" "el_tag el = tag" "\<not> el_ber_found el"
      "cbs_ok t" "cbs_bytes t = rest"
    using ber_reads_der [OF ber_free_primitive.prems(2,3) ber_free_primitive.hyps(1,3)] by metis
  have "cbs_len s \<noteq> 0" using ber_contents [OF ber_free_primitive.prems(2) el(1)] by (metis not_less_zero)
  then show ?case
    using ber_free_primitive.IH [OF ber_free_primitive.prems(1) el(4,5)] ber_free_primitive.prems(1)
      ber_free_primitive.hyps(2) el
    by (subst cbs_find_ber.simps) simp
next
  case (ber_free_constructed tag c k rest)
  obtain el t x where el: "CBS_get_any_ber_asn1_element s = (Some el, t)" "el_tag el = tag" "\<not> el_ber_found el"
      "CBS_skip (el_header_len el) (el_out el) = (Some (), x)" "cbs_ok x" "cbs_bytes x = c" "cbs_ok t" "cbs_bytes t = rest"
    using ber_reads_der [OF ber_free_constructed.prems(2,3) ber_free_constructed.hyps(1,4)] by metis
  have "cbs_len s \<noteq> 0" using ber_contents [OF ber_free_constructed.prems(2) el(1)] by (metis not_less_zero)
  moreover have "k + (depth + 1) \<le> kMaxDepth" using ber_free_constructed.prems(1) by simp
  ultimately show ?case
    using ber_free_constructed.IH(1) [OF _ el(5,6)] ber_free_constructed.IH(2) [OF ber_free_constructed.prems(1) el(7,8)]
      ber_free_constructed.prems(1) ber_free_constructed.hyps(2,3) el
    by (subst cbs_find_ber.simps) simp
qed

lemma find_ber_sound:
  assumes "cbs_ok s"
  shows "\<exists>r. cbs_find_ber s depth = Some r \<and>
    (r = Some False \<longrightarrow> depth \<le> kMaxDepth \<and> ber_free (kMaxDepth - depth) (cbs_bytes s))"
  using assms
proof (induction "cbs_len s" arbitrary: s depth rule: less_induct)
  case less
  note ok = less.prems
  show ?case
  proof (cases "depth > kMaxDepth \<or> cbs_len s = 0")
    case True
    then show ?thesis
      using length_cbs_bytes [OF ok] by (subst cbs_find_ber.simps) (auto intro: ber_free_Nil)
  next
    case False
    obtain x t where g: "CBS_get_any_ber_asn1_element s = (x, t)" by fastforce
    show ?thesis
    proof (cases x)
      case None
      then show ?thesis using False g by (subst cbs_find_ber.simps) simp
    next
      case (Some el)
      note g = g [unfolded Some]
      show ?thesis
      proof (cases "el_ber_found el \<or> el_tag el AND CBS_ASN1_CONSTRUCTED \<noteq> 0 \<and> is_string_type (el_tag el)")
        case True
        then show ?thesis using False g by (subst cbs_find_ber.simps) auto
      next
        case der: False
        then have nb: "\<not> el_ber_found el" by blast
        obtain c x where c: "el_tag el AND NOT CBS_ASN1_CONSTRUCTED \<noteq> 0" "length c < 2 ^ 32"
          "cbs_bytes s = der_element (el_tag el) c @ cbs_bytes t" "CBS_skip (el_header_len el) (el_out el) = (Some (), x)"
          "cbs_ok x" "cbs_bytes x = c" "cbs_len x < cbs_len s" "cbs_ok t" "cbs_len t < cbs_len s"
          using ber_reads_only_der [OF ok g nb] .
        obtain rt where rt: "cbs_find_ber t depth = Some rt"
          "rt = Some False \<Longrightarrow> depth \<le> kMaxDepth \<and> ber_free (kMaxDepth - depth) (cbs_bytes t)"
          using less.hyps [OF c(9,8)] by blast
        show ?thesis
        proof (cases "el_tag el AND CBS_ASN1_CONSTRUCTED = 0")
          case True
          have "cbs_find_ber s depth = cbs_find_ber t depth"
            using False g nb True by (subst cbs_find_ber.simps) simp
          then show ?thesis using rt c(1,2) True unfolding c(3) by (auto intro: ber_free_primitive)
        next
          case con: False
          obtain rx where rx: "cbs_find_ber x (depth + 1) = Some rx"
            "rx = Some False \<Longrightarrow> depth + 1 \<le> kMaxDepth \<and> ber_free (kMaxDepth - (depth + 1)) c"
            using less.hyps [OF c(7,5)] c(6) by blast
          have eq: "cbs_find_ber s depth = (case rx of None \<Rightarrow> Some None
              | Some b \<Rightarrow> if b then Some (Some True) else cbs_find_ber t depth)"
            using False g nb con der c(4) rx(1) by (subst cbs_find_ber.simps) simp
          have "ber_free (kMaxDepth - depth) (der_element (el_tag el) c @ cbs_bytes t)"
            if "rx = Some False" "rt = Some False"
          proof -
            have "depth + 1 \<le> kMaxDepth" using rx(2) that(1) by blast
            then have k: "kMaxDepth - depth = Suc (kMaxDepth - (depth + 1))" by arith
            show ?thesis
              using rx(2) rt(2) that c(1,2) con der unfolding k by (intro ber_free_constructed) auto
          qed
          then show ?thesis using rt rx(2) unfolding eq c(3) by (auto split: option.split)
        qed
      qed
    qed
  qed
qed

section \<open>The conversion\<close>

lemma represents_close:
  assumes m: "malloc_ok malloc" and B: "length (bld_frames B) = d"
    and rep: "represents b (bld_append (Suc d) c (bld_push Asn1 (bld_append d x B)))"
    and fl: "CBB_flush malloc d b = (Some u, b')"
  shows "length c \<le> 0xfffffffe \<and> represents b' (bld_append d (x @ len_bytes (length c) @ c) B)"
proof -
  let ?Q = "bld_append (Suc d) c (bld_push Asn1 (bld_append d x B))"
  have B': "length (bld_frames (bld_append d x B)) = d" using B by simp
  have d: "d \<le> length (bld_frames ?Q)" using B' by (simp add: bld_push_def)
  have "case CBB_flush malloc d b of
      (Some _, s') \<Rightarrow> \<exists>B'. bld_flush d ?Q = Some B' \<and> represents s' B' \<and> same_kind b s' \<and> length (bld_frames B') = d
    | (None, s') \<Rightarrow> b_error s' \<and> (\<forall>B'. bld_flush d ?Q = Some B' \<longrightarrow> \<not> room malloc b (bld_len B'))"
    by (rule flush_represents [OF m rep d])
  then obtain B1 where B1: "bld_flush d ?Q = Some B1" "represents b' B1" unfolding fl by auto
  then obtain p where p: "length_prefix Asn1 (length c) = Some p" "B1 = bld_append d (p @ c) (bld_append d x B)"
    unfolding bld_close_pushed(1) [OF B'] by auto
  then have "length c \<le> 0xfffffffe" "p = len_bytes (length c)" by (simp_all split: if_splits)
  then show ?thesis using B1(2) p(2) B by (simp add: bld_append_append)
qed

lemma flush_flushed:
  assumes "malloc_ok malloc" "represents b B" "length (bld_frames B) = d" "CBB_flush malloc d b = (Some u, b')"
  shows "represents b' B"
proof -
  have "d \<le> length (bld_frames B)" using assms(3) by simp
  from flush_represents [OF assms(1,2) this] show ?thesis
    unfolding assms(4) using bld_flush_flushed [OF assms(3)] by auto
qed

lemma tag_without_constructed: "(tag AND NOT CBS_ASN1_CONSTRUCTED) AND CBS_ASN1_CONSTRUCTED = 0"
  "(tag AND NOT CBS_ASN1_CONSTRUCTED) AND NOT CBS_ASN1_CONSTRUCTED = tag AND NOT CBS_ASN1_CONSTRUCTED"
  by (simp_all add: and.assoc)

text \<open>Opening the builder for the contents of an element, and closing it once the contents are
  written: with a string tag nothing is opened, otherwise a DER element is added.\<close>

lemma ber_open_close:
  assumes m: "malloc_ok malloc" and rep: "represents b B" and B: "length (bld_frames B) = d"
    and tag: "tag AND NOT CBS_ASN1_CONSTRUCTED \<noteq> 0"
    and r: "ber_open malloc d st tag b = (Some (oc, cst), b1)"
  obtains Q where "represents b1 Q" "length (bld_frames Q) = oc"
    "\<And>c b2 u b3. represents b2 (bld_append oc c Q) \<Longrightarrow> CBB_flush malloc d b2 = (Some u, b3) \<Longrightarrow>
      \<exists>e. represents b3 (bld_append d e B) \<and> (st = 0 \<longrightarrow> (\<exists>otag. e = der_element otag c \<and> length c < 2 ^ 32 \<and>
        otag AND NOT CBS_ASN1_CONSTRUCTED \<noteq> 0 \<and> (otag AND CBS_ASN1_CONSTRUCTED \<noteq> 0 \<longrightarrow>
          tag AND CBS_ASN1_CONSTRUCTED \<noteq> 0 \<and> \<not> is_string_type otag \<and> cst = 0)))"
proof (cases "st = 0")
  case False
  then have "oc = d" "b1 = b" using r by (auto simp: ber_open_def op_bind_def split: if_splits)
  then show thesis
    using that [of B] rep B False flush_flushed [OF m] by (metis bld_append_frames)
next
  case True
  define string where "string \<longleftrightarrow> tag AND CBS_ASN1_CONSTRUCTED \<noteq> 0 \<and> is_string_type tag"
  define otag where "otag = (if string then tag AND NOT CBS_ASN1_CONSTRUCTED else tag)"
  have o: "CBB_add_asn1 malloc d otag b = (Some (), b1)" "oc = Suc d" "cst = (if string then otag else 0)"
    using r True by (auto simp: ber_open_def otag_def string_def op_bind_def Let_def split: prod.splits option.splits if_splits)
  have le: "d \<le> length (bld_frames B)" using B by simp
  let ?Q = "bld_push Asn1 (bld_append d (tag_bytes otag) B)"
  have rep1: "represents b1 ?Q"
    using pushes_SomeE [OF pushes_asn1 [OF m] rep le o(1)] bld_flush_flushed [OF B] by (metis option.inject)
  have otag: "otag AND NOT CBS_ASN1_CONSTRUCTED \<noteq> 0"
    using tag unfolding otag_def by (simp add: tag_without_constructed)
  have con: "otag AND CBS_ASN1_CONSTRUCTED \<noteq> 0 \<longrightarrow> tag AND CBS_ASN1_CONSTRUCTED \<noteq> 0 \<and> \<not> is_string_type otag \<and> cst = 0"
  proof (cases string)
    case True
    then have "otag AND CBS_ASN1_CONSTRUCTED = 0" unfolding otag_def by (simp only: if_True tag_without_constructed)
    then show ?thesis by blast
  next
    case False
    then have "otag = tag" "cst = 0" by (simp_all add: otag_def o(3))
    then show ?thesis using False unfolding string_def by blast
  qed
  show thesis
  proof (rule that [OF rep1])
    show "length (bld_frames ?Q) = oc" using B by (simp add: bld_push_def o(2))
    fix c b2 u b3 assume "represents b2 (bld_append oc c ?Q)" "CBB_flush malloc d b2 = (Some u, b3)"
    then have "length c \<le> 0xfffffffe" "represents b3 (bld_append d (tag_bytes otag @ len_bytes (length c) @ c) B)"
      using represents_close [OF m B] unfolding o(2) by blast+
    then show "\<exists>e. represents b3 (bld_append d e B) \<and> (st = 0 \<longrightarrow> (\<exists>otag. e = der_element otag c \<and> length c < 2 ^ 32 \<and>
        otag AND NOT CBS_ASN1_CONSTRUCTED \<noteq> 0 \<and> (otag AND CBS_ASN1_CONSTRUCTED \<noteq> 0 \<longrightarrow>
          tag AND CBS_ASN1_CONSTRUCTED \<noteq> 0 \<and> \<not> is_string_type otag \<and> cst = 0)))"
      using otag con
      by (intro exI [of _ "der_element otag c"] conjI impI exI [of _ otag]) (auto simp: der_element_def der_header_def)
  qed
qed

text \<open>\<open>cbs_convert_ber\<close> returns, and after a success has appended to its builder: with no string
  tag, a sequence of DER elements that needs no conversion.\<close>

definition converts :: "nat \<Rightarrow> u32 \<Rightarrow> bool \<Rightarrow> nat \<Rightarrow> cbs \<Rightarrow> builder \<Rightarrow> (unit option \<times> cbs \<times> cbb) option \<Rightarrow> bool" where
  "converts d st eoc depth s B res \<longleftrightarrow> (\<exists>r s' b'. res = Some (r, s', b') \<and> (\<exists>n\<le>cbs_len s. s' = cbs_adv n s) \<and>
    (r \<noteq> None \<longrightarrow> depth \<le> kMaxDepth \<and> (\<not> eoc \<longrightarrow> cbs_len s' = 0) \<and>
      (\<exists>x. represents b' (bld_append d x B) \<and> (st = 0 \<longrightarrow> ber_free (kMaxDepth - depth) x))))"

lemma convertsI:
  assumes "\<exists>n\<le>cbs_len s. s' = cbs_adv n s"
    "r \<noteq> None \<Longrightarrow> depth \<le> kMaxDepth \<and> (\<not> eoc \<longrightarrow> cbs_len s' = 0) \<and> (\<exists>x. represents b' (bld_append d x B) \<and> (st = 0 \<longrightarrow> ber_free (kMaxDepth - depth) x))"
  shows "converts d st eoc depth s B (Some (r, s', b'))"
  using assms by (auto simp: converts_def)

text \<open>After one element, the rest of the loop.\<close>

lemma converts_next:
  assumes "depth \<le> kMaxDepth" "length (bld_frames B) = d"
    and t: "\<exists>n\<le>cbs_len s. t = cbs_adv n s" and rest: "converts d st eoc depth t (bld_append d e B) res"
    and e: "st = 0 \<Longrightarrow> (\<And>rest. ber_free (kMaxDepth - depth) rest \<Longrightarrow> ber_free (kMaxDepth - depth) (e @ rest))"
  shows "converts d st eoc depth s B res"
proof -
  obtain r s' b' where res: "res = Some (r, s', b')" "\<exists>n\<le>cbs_len t. s' = cbs_adv n t"
    "r \<noteq> None \<longrightarrow> (\<not> eoc \<longrightarrow> cbs_len s' = 0) \<and> (\<exists>x. represents b' (bld_append d x (bld_append d e B)) \<and> (st = 0 \<longrightarrow> ber_free (kMaxDepth - depth) x))"
    using rest unfolding converts_def by blast
  have adv: "\<exists>n\<le>cbs_len s. s' = cbs_adv n s"
  proof -
    obtain n k where nk: "n \<le> cbs_len s" "t = cbs_adv n s" "k \<le> cbs_len t" "s' = cbs_adv k t" using t res(2) by blast
    then have "n + k \<le> cbs_len s \<and> s' = cbs_adv (n + k) s" by simp
    then show ?thesis by blast
  qed
  have le: "d \<le> length (bld_frames B)" using assms(2) by simp
  show ?thesis
    unfolding res(1)
  proof (rule convertsI [OF adv], intro conjI assms(1))
    assume "r \<noteq> None"
    then show "\<not> eoc \<longrightarrow> cbs_len s' = 0" using res(3) by blast
  next
    assume "r \<noteq> None"
    then obtain x where x: "represents b' (bld_append d x (bld_append d e B))"
        "st = 0 \<Longrightarrow> ber_free (kMaxDepth - depth) x" using res(3) by blast
    then show "\<exists>x. represents b' (bld_append d x B) \<and> (st = 0 \<longrightarrow> ber_free (kMaxDepth - depth) x)"
      using e unfolding bld_append_append [OF le] by blast
  qed
qed

lemma ber_free_element:
  assumes "tag AND NOT CBS_ASN1_CONSTRUCTED \<noteq> 0" "length c < 2 ^ 32"
    and con: "tag AND CBS_ASN1_CONSTRUCTED \<noteq> 0 \<Longrightarrow>
      \<not> is_string_type tag \<and> depth + 1 \<le> kMaxDepth \<and> ber_free (kMaxDepth - (depth + 1)) c"
    and rest: "ber_free (kMaxDepth - depth) rest"
  shows "ber_free (kMaxDepth - depth) (der_element tag c @ rest)"
proof (cases "tag AND CBS_ASN1_CONSTRUCTED = 0")
  case True
  then show ?thesis using assms(1,2) rest by (intro ber_free_primitive)
next
  case False
  note con = con [OF False]
  then have k: "kMaxDepth - depth = Suc (kMaxDepth - (depth + 1))" by arith
  show ?thesis
    unfolding k by (rule ber_free_constructed [OF assms(1) False]) (use con assms(2) rest k in \<open>auto simp only:\<close>)
qed

text \<open>The part of the loop after \<open>ber_open\<close>.\<close>

definition convert_body where
  "convert_body malloc d st eoc depth el t oc cst b1 =
    (if el_indefinite el then
       Option.bind (cbs_convert_ber malloc oc cst True (depth + 1) t b1) (\<lambda>(r, inn, b).
         case (case r of None \<Rightarrow> (None, b) | Some _ \<Rightarrow> CBB_flush malloc d b) of
           (None, b) \<Rightarrow> Some (None, inn, b)
         | (Some _, b) \<Rightarrow> cbs_convert_ber malloc d st eoc depth inn b)
     else
       (case CBS_skip (el_header_len el) (el_out el) of
          (None, _) \<Rightarrow> Some (None, t, b1)
        | (Some _, contents) \<Rightarrow>
            Option.bind
              (if el_tag el AND CBS_ASN1_CONSTRUCTED \<noteq> 0
               then cbs_convert_ber malloc oc cst False (depth + 1) contents b1
               else
                 (case CBB_add_bytes malloc oc (CBS_data contents) (CBS_len contents) b1 of
                    (r, b) \<Rightarrow> Some (r, contents, b)))
              (\<lambda>(r, _, b).
                case (case r of None \<Rightarrow> (None, b) | Some _ \<Rightarrow> CBB_flush malloc d b) of
                  (None, b) \<Rightarrow> Some (None, t, b)
                | (Some _, b) \<Rightarrow> cbs_convert_ber malloc d st eoc depth t b)))"

lemma convert_element:
  assumes m: "malloc_ok malloc" and ok: "cbs_ok s" and rep: "represents b B" and B: "length (bld_frames B) = d"
    and depth: "depth \<le> kMaxDepth" and g: "CBS_get_any_ber_asn1_element s = (Some el, t)"
    and adv: "\<exists>n\<le>cbs_len s. t = cbs_adv n s" and w: "ber_open malloc d st (el_tag el) b = (Some (oc, cst), b1)"
    and eq: "res = convert_body malloc d st eoc depth el t oc cst b1"
    and IH: "\<And>s' b B d st eoc depth. cbs_len s' < cbs_len s \<Longrightarrow> cbs_ok s' \<Longrightarrow> represents b B \<Longrightarrow>
      length (bld_frames B) = d \<Longrightarrow> converts d st eoc depth s' B (cbs_convert_ber malloc d st eoc depth s' b)"
  shows "converts d st eoc depth s B res"
proof -
  obtain x where x: "CBS_skip (el_header_len el) (el_out el) = (Some (), x)" "cbs_ok x" "cbs_len x < cbs_len s"
    and t: "cbs_ok t" "cbs_len t < cbs_len s" using ber_contents [OF ok g] .
  obtain n where tag: "el_tag el AND NOT CBS_ASN1_CONSTRUCTED \<noteq> 0"
    "el_indefinite el \<Longrightarrow> el_tag el AND CBS_ASN1_CONSTRUCTED \<noteq> 0" using ber_element_shape [OF ok g] by metis
  obtain Q where Q: "represents b1 Q" "length (bld_frames Q) = oc"
    and close: "\<And>c b2 u b3. represents b2 (bld_append oc c Q) \<Longrightarrow> CBB_flush malloc d b2 = (Some u, b3) \<Longrightarrow>
      \<exists>e. represents b3 (bld_append d e B) \<and> (st = 0 \<longrightarrow> (\<exists>otag. e = der_element otag c \<and> length c < 2 ^ 32 \<and>
        otag AND NOT CBS_ASN1_CONSTRUCTED \<noteq> 0 \<and> (otag AND CBS_ASN1_CONSTRUCTED \<noteq> 0 \<longrightarrow>
          el_tag el AND CBS_ASN1_CONSTRUCTED \<noteq> 0 \<and> \<not> is_string_type otag \<and> cst = 0)))"
    using ber_open_close [OF m rep B tag(1) w] by metis
  text \<open>What follows the contents: closing, and the rest of the loop on \<open>u\<close>.\<close>
  have finish: "converts d st eoc depth s B (case (case r of None \<Rightarrow> (None, b2) | Some _ \<Rightarrow> CBB_flush malloc d b2) of
          (None, b) \<Rightarrow> Some (None, u, b) | (Some _, b) \<Rightarrow> cbs_convert_ber malloc d st eoc depth u b)"
    if u: "\<exists>n\<le>cbs_len s. u = cbs_adv n s" "cbs_ok u" "cbs_len u < cbs_len s"
      and c: "r \<noteq> None \<Longrightarrow> \<exists>c. represents b2 (bld_append oc c Q) \<and>
        (el_tag el AND CBS_ASN1_CONSTRUCTED \<noteq> 0 \<and> cst = 0 \<longrightarrow> depth + 1 \<le> kMaxDepth \<and> ber_free (kMaxDepth - (depth + 1)) c)"
    for r u b2
  proof (cases "r = None \<or> fst (CBB_flush malloc d b2) = None")
    case True
    then show ?thesis by (cases r; cases "CBB_flush malloc d b2") (auto intro!: convertsI [OF u(1)])
  next
    case False
    then obtain v b3 where f: "CBB_flush malloc d b2 = (Some v, b3)" by (cases "CBB_flush malloc d b2") auto
    have "r \<noteq> None" using False by simp
    from c [OF this] obtain c where c: "represents b2 (bld_append oc c Q)"
        "el_tag el AND CBS_ASN1_CONSTRUCTED \<noteq> 0 \<and> cst = 0 \<longrightarrow> depth + 1 \<le> kMaxDepth \<and> ber_free (kMaxDepth - (depth + 1)) c"
      by blast
    obtain e where e: "represents b3 (bld_append d e B)"
      "st = 0 \<Longrightarrow> \<exists>otag. e = der_element otag c \<and> length c < 2 ^ 32 \<and>
        otag AND NOT CBS_ASN1_CONSTRUCTED \<noteq> 0 \<and> (otag AND CBS_ASN1_CONSTRUCTED \<noteq> 0 \<longrightarrow>
          el_tag el AND CBS_ASN1_CONSTRUCTED \<noteq> 0 \<and> \<not> is_string_type otag \<and> cst = 0)"
      using close [OF c(1) f] by blast
    have "length (bld_frames (bld_append d e B)) = d" using B by simp
    note rest = IH [OF u(3,2) e(1) this, of st eoc depth]
    have "converts d st eoc depth s B (cbs_convert_ber malloc d st eoc depth u b3)"
    proof (rule converts_next [OF depth B u(1) rest])
      fix rest assume "st = 0" "ber_free (kMaxDepth - depth) rest"
      then show "ber_free (kMaxDepth - depth) (e @ rest)"
        using e(2) c(2) ber_free_element by metis
    qed
    then show ?thesis using False f by auto
  qed
  text \<open>A recursive call on shorter input writes the contents.\<close>
  have child: "\<exists>r s' b'. cbs_convert_ber malloc oc cst ec (depth + 1) y b1 = Some (r, s', b') \<and> (\<exists>n\<le>cbs_len y. s' = cbs_adv n y) \<and>
      (r \<noteq> None \<longrightarrow> (\<exists>c. represents b' (bld_append oc c Q) \<and>
        (el_tag el AND CBS_ASN1_CONSTRUCTED \<noteq> 0 \<and> cst = 0 \<longrightarrow> depth + 1 \<le> kMaxDepth \<and> ber_free (kMaxDepth - (depth + 1)) c)))"
    if "cbs_ok y" "cbs_len y < cbs_len s" for y ec
    using IH [OF that(2,1) Q, of cst ec "depth + 1"] unfolding converts_def by metis
  show ?thesis
  proof (cases "el_indefinite el")
    case True
    obtain r s' b' where r: "cbs_convert_ber malloc oc cst True (depth + 1) t b1 = Some (r, s', b')"
        "\<exists>n\<le>cbs_len t. s' = cbs_adv n t"
      and c: "r \<noteq> None \<Longrightarrow> \<exists>c. represents b' (bld_append oc c Q) \<and>
        (el_tag el AND CBS_ASN1_CONSTRUCTED \<noteq> 0 \<and> cst = 0 \<longrightarrow> depth + 1 \<le> kMaxDepth \<and> ber_free (kMaxDepth - (depth + 1)) c)"
      using child [OF t] by metis
    obtain n k where nk: "n \<le> cbs_len s" "t = cbs_adv n s" "k \<le> cbs_len t" "s' = cbs_adv k t" using adv r(2) by blast
    then have s': "n + k \<le> cbs_len s" "s' = cbs_adv (n + k) s" by simp_all
    have u: "\<exists>n\<le>cbs_len s. s' = cbs_adv n s" "cbs_ok s'" "cbs_len s' < cbs_len s"
      using s' ok nk t by auto
    show ?thesis
      unfolding eq convert_body_def if_P [OF True] r(1) using finish [OF u, of r b'] c by simp
  next
    case False
    note body = eq [unfolded convert_body_def if_not_P [OF False] x(1) prod.case option.case]
    show ?thesis
    proof (cases "el_tag el AND CBS_ASN1_CONSTRUCTED \<noteq> 0")
      case True
      obtain r s' b' where r: "cbs_convert_ber malloc oc cst False (depth + 1) x b1 = Some (r, s', b')"
        and c: "r \<noteq> None \<Longrightarrow> \<exists>c. represents b' (bld_append oc c Q) \<and>
          (el_tag el AND CBS_ASN1_CONSTRUCTED \<noteq> 0 \<and> cst = 0 \<longrightarrow> depth + 1 \<le> kMaxDepth \<and> ber_free (kMaxDepth - (depth + 1)) c)"
        using child [OF x(2,3)] by metis
      show ?thesis unfolding body if_P [OF True] r using finish [OF adv t, of r b'] c by simp
    next
      case prim: False
      obtain r b' where r: "CBB_add_bytes malloc oc (CBS_data x) (CBS_len x) b1 = (r, b')" by fastforce
      have bounds: "cbs_len x \<le> length (CBS_data x)" "cbs_len x < SIZE_LIMIT"
        using x(2) by (simp_all add: cbs_ok_def CBS_data_def)
      have le: "oc \<le> length (bld_frames Q)" using Q(2) by simp
      have c: "\<exists>c. represents b' (bld_append oc c Q) \<and>
          (el_tag el AND CBS_ASN1_CONSTRUCTED \<noteq> 0 \<and> cst = 0 \<longrightarrow> depth + 1 \<le> kMaxDepth \<and> ber_free (kMaxDepth - (depth + 1)) c)"
        if "r \<noteq> None"
      proof -
        from that obtain v where v: "CBB_add_bytes malloc oc (CBS_data x) (CBS_len x) b1 = (Some v, b')" using r by auto
        show ?thesis
          using adds_SomeE [OF adds_bytes [OF m bounds] Q(1) le FalseE, of v b'] v bld_flush_flushed [OF Q(2)] prim
          by (metis CBS_len_eq option.inject)
      qed
      show ?thesis unfolding body if_not_P [OF prim] r using finish [OF adv t, of r b'] c by simp
    qed
  qed
qed

lemma convert_ber_converts:
  assumes m: "malloc_ok malloc"
  shows "cbs_ok s \<Longrightarrow> represents b B \<Longrightarrow> length (bld_frames B) = d \<Longrightarrow>
    converts d st eoc depth s B (cbs_convert_ber malloc d st eoc depth s b)"
proof (induction "cbs_len s" arbitrary: d st eoc depth s b B rule: less_induct)
  case less
  note ok = less.prems(1) and rep = less.prems(2) and B = less.prems(3)
  note unfold = cbs_convert_ber.simps [of malloc d st eoc depth s b]
  have stay: "\<exists>n\<le>cbs_len s. s = cbs_adv n s" by (metis cbs_adv_0 le0)
  have unchanged: "\<exists>x. represents b (bld_append d x B) \<and> (st = 0 \<longrightarrow> ber_free (kMaxDepth - depth) x)"
    using rep ber_free_Nil by (metis bld_append_Nil)
  show ?case
  proof (cases "depth > kMaxDepth \<or> cbs_len s = 0")
    case True
    then have "cbs_convert_ber malloc d st eoc depth s b = Some (None, s, b) \<or>
        depth \<le> kMaxDepth \<and> (\<not> eoc \<longrightarrow> cbs_len s = 0) \<and> cbs_convert_ber malloc d st eoc depth s b = Some (Some (), s, b)"
      unfolding unfold by auto
    moreover have "converts d st eoc depth s B (Some (None, s, b))" by (rule convertsI [OF stay]) simp
    moreover have "converts d st eoc depth s B (Some (Some (), s, b))" if "depth \<le> kMaxDepth" "\<not> eoc \<longrightarrow> cbs_len s = 0"
    proof (rule convertsI [OF stay])
      show "depth \<le> kMaxDepth \<and> (\<not> eoc \<longrightarrow> cbs_len s = 0) \<and>
          (\<exists>x. represents b (bld_append d x B) \<and> (st = 0 \<longrightarrow> ber_free (kMaxDepth - depth) x))"
        using that unchanged by (intro conjI) blast+
    qed
    ultimately show ?thesis by (elim disjE conjE) simp_all
  next
    case go: False
    then have depth: "depth \<le> kMaxDepth" by simp
    obtain z s0 where z: "(if eoc then cbs_get_eoc s else (None, s)) = (z, s0)" by fastforce
    show ?thesis
    proof (cases z)
      case (Some u)
      then have eoc: "eoc" "cbs_get_eoc s = (Some (), s0)" using z by (auto split: if_splits)
      then have "\<exists>n\<le>cbs_len s. s0 = cbs_adv n s" by (auto simp: cbs_get_eoc_def CBS_skip_eq split: if_splits)
      then show ?thesis unfolding unfold using go z Some unchanged by (auto simp: converts_def)
    next
      case None
      obtain x t where g: "CBS_get_any_ber_asn1_element s = (x, t)" by fastforce
      have adv: "\<exists>n\<le>cbs_len s. t = cbs_adv n s"
        using consumes_any_element [of True] ok g unfolding consumes_def CBS_get_any_ber_asn1_element_def by (metis snd_conv)
      show ?thesis
      proof (cases x)
        case None': None
        then show ?thesis unfolding unfold using go z None g by (auto intro!: convertsI [OF adv])
      next
        case el: (Some el)
        note g = g [unfolded el]
        obtain w b1 where w: "ber_open malloc d st (el_tag el) b = (w, b1)" by fastforce
        show ?thesis
        proof (cases w)
          case None': None
          then show ?thesis unfolding unfold using go z None g w by (auto intro!: convertsI [OF adv])
        next
          case (Some oc_cst)
          then obtain oc cst where w: "ber_open malloc d st (el_tag el) b = (Some (oc, cst), b1)"
            using w by (cases oc_cst) auto
          show ?thesis
          proof (rule convert_element [OF m ok rep B depth g adv w])
            show "cbs_convert_ber malloc d st eoc depth s b = convert_body malloc d st eoc depth el t oc cst b1"
              unfolding unfold convert_body_def using go z None g w by simp
          qed (use less.hyps in blast)
        qed
      qed
    qed
  qed
qed

lemma implicit_string_loop_returns:
  "cbs_ok s \<Longrightarrow> \<exists>r. implicit_string_loop malloc tag s b = Some r"
proof (induction "cbs_len s" arbitrary: s b rule: less_induct)
  case less
  note unfold = implicit_string_loop.simps [of malloc tag s b]
  show ?case
  proof (cases "cbs_len s = 0 \<or> fst (CBS_get_asn1 tag s) = None")
    case True
    then show ?thesis unfolding unfold by (cases "CBS_get_asn1 tag s") auto
  next
    case False
    then obtain c t where g: "CBS_get_asn1 tag s = (Some c, t)" by (cases "CBS_get_asn1 tag s") auto
    obtain r b' where a: "CBB_add_bytes malloc 0 (CBS_data c) (CBS_len c) b = (r, b')" by fastforce
    have "der_element tag (cbs_bytes c) \<noteq> []" by simp
    then have "0 < length (der_element tag (cbs_bytes c))" by (rule length_greater_0_conv [THEN iffD2])
    then have t: "cbs_ok t" "cbs_len t < cbs_len s"
      using get_asn1_sound(4) [OF less.prems g] False consumes_ok [OF consumes_get_asn1(3) less.prems g] by simp_all
    show ?thesis unfolding unfold using False g a less.hyps [OF t(2,1)] by (cases r) auto
  qed
qed

lemma ber_to_der_cases:
  assumes m: "malloc_ok malloc" and ok: "cbs_ok s"
  obtains r t where "CBS_asn1_ber_to_der malloc s = Some (r, t)"
    "\<And>out storage. r = Some (out, storage) \<Longrightarrow> cbs_ok out \<and>
      (cbs_find_ber s 0 = Some (Some False) \<and> storage = None \<and> (\<exists>el. CBS_get_any_asn1_element s = (Some el, t) \<and> out = el_out el)
       \<or> cbs_find_ber s 0 = Some (Some True) \<and> ber_free kMaxDepth (cbs_bytes out) \<and> cbs_len t = 0)"
proof -
  obtain f where f: "cbs_find_ber s 0 = Some f" using find_ber_sound [OF ok] by blast
  consider "f = None" | "f = Some False" | "f = Some True" by (cases f) auto
  then show thesis
  proof cases
    case 1
    then show ?thesis using that f by (simp add: CBS_asn1_ber_to_der_def)
  next
    case 2
    obtain r t where r: "CBS_get_any_asn1_element s = (r, t)" by fastforce
    have out: "cbs_ok (el_out el)" if "r = Some el" for el
    proof -
      have "is_der_element s el t" using der_element_iff [OF ok] r that by blast
      then obtain c where c: "cbs_bytes s = der_element (el_tag el) c @ cbs_bytes t"
          "el_out el = CBS_init (cbs_data s) (length (der_element (el_tag el) c))" unfolding is_der_element_def by blast
      have "length (cbs_bytes s) = length (der_element (el_tag el) c) + length (cbs_bytes t)" unfolding c(1) by simp
      then have "length (der_element (el_tag el) c) \<le> cbs_len s" using ok by simp
      then show ?thesis using ok unfolding c(2) by (simp add: cbs_ok_def CBS_init_def)
    qed
    show ?thesis
    proof (rule that)
      show "CBS_asn1_ber_to_der malloc s = Some (map_option (\<lambda>el. (el_out el, None)) r, t)"
        using f 2 r by (cases r) (simp_all add: CBS_asn1_ber_to_der_def op_bind_def)
    qed (use f 2 r out in auto)
  next
    case 3
    show ?thesis
    proof (cases "CBB_init malloc (cbs_len s)")
      case None
      then show ?thesis using that f 3 by (simp add: CBS_asn1_ber_to_der_def)
    next
      case (Some b)
      have "cbs_len s < SIZE_LIMIT" using ok by (simp add: cbs_ok_def)
      then have rep: "represents b (Builder [] [])" using init_represents [OF m Some] by blast
      obtain r t b' where c: "cbs_convert_ber malloc 0 0 False 0 s b = Some (r, t, b')"
        and x: "r \<noteq> None \<Longrightarrow> cbs_len t = 0 \<and> (\<exists>x. represents b' (bld_append 0 x (Builder [] [])) \<and> ber_free kMaxDepth x)"
        using convert_ber_converts [OF m ok rep, of 0 0 False 0] unfolding converts_def by auto
      show ?thesis
      proof (cases r)
        case None
        then show ?thesis using that f 3 Some c by (simp add: CBS_asn1_ber_to_der_def)
      next
        case r: (Some u)
        then obtain x where x: "cbs_len t = 0" "represents b' (Builder x [])" "ber_free kMaxDepth x"
          using x by (auto simp: bld_append_def)
        note fin = finish_represented [OF m x(2)]
        let ?bs = "case b_buf b' of None \<Rightarrow> [] | Some bs \<Rightarrow> bs"
        have tk: "take (length x) ?bs = x" using fin by (simp add: buf_bytes_def)
        have "length x < SIZE_LIMIT" using x(2) represents_len [OF x(2)] by (simp add: represents_def cbb_ok_def bld_len_def)
        moreover have "length x \<le> length ?bs" by (metis tk length_take min.cobounded1)
        ultimately have "cbs_ok (CBS_init ?bs (length x))" by simp
        then show ?thesis
          using that [of "Some (CBS_init ?bs (length x), b_buf b')" t] f 3 Some c r fin tk x(1,3)
          by (simp add: CBS_asn1_ber_to_der_def)
      qed
    qed
  qed
qed

text \<open>The first element of a sequence that needs no conversion needs none.\<close>

lemma ber_free_first:
  assumes "ber_free k bs" "bs = der_element tag c @ rest" "tag AND NOT CBS_ASN1_CONSTRUCTED \<noteq> 0" "length c < 2 ^ 32"
    "length bs < SIZE_LIMIT"
  shows "ber_free k (der_element tag c)"
proof -
  have unique: "tag' = tag \<and> c' = c" if other: "bs = der_element tag' c' @ rest'" "tag' AND NOT CBS_ASN1_CONSTRUCTED \<noteq> 0" "length c' < 2 ^ 32"
    for tag' c' rest'
  proof -
    let ?s = "CBS_init bs (length bs)"
    have ok: "cbs_ok ?s" and b: "cbs_bytes ?s = der_element tag c @ rest" "cbs_bytes ?s = der_element tag' c' @ rest'"
      using assms(2,5) other(1) by simp_all
    obtain el t x where "CBS_get_any_ber_asn1_element ?s = (Some el, t)" "el_tag el = tag"
        "CBS_skip (el_header_len el) (el_out el) = (Some (), x)" "cbs_bytes x = c"
      using ber_reads_der [OF ok b(1) assms(3,4)] by metis
    moreover obtain el' t' x' where "CBS_get_any_ber_asn1_element ?s = (Some el', t')" "el_tag el' = tag'"
        "CBS_skip (el_header_len el') (el_out el') = (Some (), x')" "cbs_bytes x' = c'"
      using ber_reads_der [OF ok b(2) other(2,3)] by metis
    ultimately show ?thesis by auto
  qed
  from assms(1) show ?thesis
  proof cases
    case ber_free_Nil
    then show ?thesis using assms(2) der_element_ne by (metis append_is_Nil_conv)
  next
    case (ber_free_primitive tag' c' rest')
    then have "tag' = tag \<and> c' = c" using unique by blast
    with ber_free_primitive show ?thesis
      using ber_free.ber_free_primitive [OF _ _ _ ber_free.ber_free_Nil, of tag c k] by simp
  next
    case (ber_free_constructed tag' c' k' rest')
    then have "tag' = tag \<and> c' = c" using unique by blast
    with ber_free_constructed show ?thesis
      using ber_free.ber_free_constructed [OF _ _ _ _ _ ber_free.ber_free_Nil, of tag c k'] by simp
  qed
qed

section \<open>The properties\<close>

text \<open>(C20) The quick walk finds no BER exactly in the byte strings that are sequences of DER elements
  without constructed strings, nested at most 128 deep; and it always returns.\<close>

theorem find_ber_exact:
  assumes "cbs_ok s"
  shows "(\<exists>r. cbs_find_ber s 0 = Some r) \<and>
    (cbs_find_ber s 0 = Some (Some False) \<longleftrightarrow> ber_free kMaxDepth (cbs_bytes s))"
  using find_ber_sound [OF assms, of 0] find_ber_complete [of kMaxDepth "cbs_bytes s" 0 s] assms by auto

theorem find_ber_exact_witness:
  "ber_free kMaxDepth [0x30, 3, 4, 1, 7] \<and> cbs_find_ber (CBS_init [0x30, 3, 4, 1, 7] 5) 0 = Some (Some False)"
proof -
  have "der_element 4 [7] = [4, 1, 7]" "der_element 0x20000010 [4, 1, 7] = [0x30, 3, 4, 1, 7]"
    by (simp_all add: der_element_def der_header_def tag_bytes_def len_bytes_def)
  moreover have "ber_free 127 (der_element 4 [7] @ [])"
    by (rule ber_free_primitive) (simp_all add: ber_free_Nil)
  moreover have "ber_free (Suc 127) (der_element 0x20000010 (der_element 4 [7] @ []) @ [])"
    by (rule ber_free_constructed)
      (use calculation in \<open>simp_all add: ber_free_Nil is_string_type_def\<close>)
  ultimately have "ber_free kMaxDepth [0x30, 3, 4, 1, 7]" by simp
  then show ?thesis using find_ber_exact [of "CBS_init [0x30, 3, 4, 1, 7] 5"] by simp
qed

text \<open>(C36) Converting BER to DER and reading an implicitly tagged string return on every input: each
  round of their loops consumes input, and the nesting is limited.\<close>

theorem ber_functions_return:
  assumes "malloc_ok malloc" "cbs_ok s"
  shows "(\<exists>r. CBS_asn1_ber_to_der malloc s = Some r) \<and>
    (\<exists>r. CBS_get_asn1_implicit_string malloc outer_tag inner_tag s = Some r)"
proof
  show "\<exists>r. CBS_asn1_ber_to_der malloc s = Some r"
    using ber_to_der_cases [OF assms] by metis
  show "\<exists>r. CBS_get_asn1_implicit_string malloc outer_tag inner_tag s = Some r"
  proof (cases "CBS_peek_asn1_tag s outer_tag \<or> CBB_init malloc (cbs_len s) = None \<or>
      fst (CBS_get_asn1 (outer_tag OR CBS_ASN1_CONSTRUCTED) s) = None")
    case True
    then show ?thesis
      by (cases "CBS_get_asn1 (outer_tag OR CBS_ASN1_CONSTRUCTED) s")
        (auto simp: CBS_get_asn1_implicit_string_def split: option.split)
  next
    case False
    then obtain b c t where bc: "CBB_init malloc (cbs_len s) = Some b"
        "CBS_get_asn1 (outer_tag OR CBS_ASN1_CONSTRUCTED) s = (Some c, t)"
      by (cases "CBS_get_asn1 (outer_tag OR CBS_ASN1_CONSTRUCTED) s") auto
    have "cbs_ok c" using get_asn1_sound(1) [OF assms(2) bc(2)] .
    then obtain r b' where "implicit_string_loop malloc inner_tag c b = Some (r, b')"
      using implicit_string_loop_returns by (metis prod.exhaust)
    then show ?thesis using False bc by (simp add: CBS_get_asn1_implicit_string_def split: prod.split option.split)
  qed
qed

theorem ber_functions_return_witness:
  "\<exists>r. CBS_asn1_ber_to_der (\<lambda>n. None) (CBS_init [0x24, 0x80, 4, 1, 7, 0, 0] 7) = Some r"
  by (rule ber_functions_return [THEN conjunct1]) (simp_all add: malloc_ok_def)

text \<open>(C6) What \<open>CBS_asn1_ber_to_der\<close> returns is DER: walking it again finds nothing to convert.
  Without a conversion it is the first element of the input.  With one, the whole input is converted
  and used up, whatever follows the first element.\<close>

theorem ber_to_der_gives_der:
  assumes "malloc_ok malloc" "cbs_ok s" "CBS_asn1_ber_to_der malloc s = Some (Some (out, storage), t)"
  shows "cbs_find_ber out 0 = Some (Some False) \<and>
    (cbs_find_ber s 0 = Some (Some False) \<longrightarrow> storage = None \<and> cbs_bytes s = cbs_bytes out @ cbs_bytes t) \<and>
    (cbs_find_ber s 0 = Some (Some True) \<longrightarrow> cbs_len t = 0)"
proof -
  have ok: "cbs_ok out" and c: "cbs_find_ber s 0 = Some (Some False) \<and> storage = None \<and>
        (\<exists>el. CBS_get_any_asn1_element s = (Some el, t) \<and> out = el_out el)
      \<or> cbs_find_ber s 0 = Some (Some True) \<and> ber_free kMaxDepth (cbs_bytes out) \<and> cbs_len t = 0"
    using ber_to_der_cases [OF assms(1,2)] assms(3) by (metis option.inject prod.inject)+
  note complete = find_ber_complete [of kMaxDepth _ 0, OF _ _ ok refl]
  from c show ?thesis
  proof (elim disjE conjE exE)
    fix el assume s: "cbs_find_ber s 0 = Some (Some False)" "storage = None" "CBS_get_any_asn1_element s = (Some el, t)" "out = el_out el"
    obtain c where d: "el_tag el AND NOT CBS_ASN1_CONSTRUCTED \<noteq> 0" "length c < 2 ^ 32"
        "cbs_bytes s = der_element (el_tag el) c @ cbs_bytes t"
        "out = CBS_init (cbs_data s) (length (der_element (el_tag el) c))"
      using der_element_iff [OF assms(2)] s(3,4) unfolding is_der_element_def by blast
    have "length (cbs_bytes s) = length (der_element (el_tag el) c) + length (cbs_bytes t)" unfolding d(3) by simp
    then have "length (der_element (el_tag el) c) \<le> cbs_len s" using assms(2) by simp
    then have o: "cbs_bytes out = der_element (el_tag el) c"
      using cbs_data_take [OF assms(2)] by (simp add: d(3,4))
    have "ber_free kMaxDepth (cbs_bytes s)" using find_ber_sound [OF assms(2), of 0] s(1) by simp
    moreover have "length (cbs_bytes s) < SIZE_LIMIT" using assms(2) by (simp add: cbs_ok_def cbs_bytes_def)
    ultimately have "ber_free kMaxDepth (der_element (el_tag el) c)"
      using ber_free_first d(1-3) by blast
    then show ?thesis using complete s d(3) o by simp
  qed (use complete in auto)
qed

lemmas element_eval_simps = CBS_get_any_ber_asn1_element_def CBS_get_any_asn1_element_def
  cbs_get_any_asn1_element_def parse_asn1_tag_def CBS_get_u8_def cbs_get_def op_bind_def CBS_init_def
  CBS_get_bytes_def Let_def

theorem ber_to_der_gives_der_witness:
  "CBS_asn1_ber_to_der (\<lambda>n. None) (CBS_init [4, 1, 7, 9] 3) = Some (Some (CBS_init [4, 1, 7, 9] 3, None), CBS_init [9] 0) \<and>
   cbs_find_ber (CBS_init [4, 1, 7, 9] 3) 0 = Some (Some False)"
proof -
  have f: "cbs_find_ber (CBS_init [4, 1, 7, 9] 3) 0 = Some (Some False)"
    by (simp add: cbs_find_ber.simps [of "\<lparr>cbs_data = _, cbs_len = _\<rparr>"] element_eval_simps)
  then have c: "CBS_asn1_ber_to_der (\<lambda>n. None) (CBS_init [4, 1, 7, 9] 3)
      = Some (Some (CBS_init [4, 1, 7, 9] 3, None), CBS_init [9] 0)"
    by (simp add: CBS_asn1_ber_to_der_def element_eval_simps)
  show ?thesis
    using c ber_to_der_gives_der [OF _ _ c] by (simp add: malloc_ok_def)
qed

end
