(* ===== verification/Const_Time.thy ===== *)
theory Const_Time
  imports C_Prelude
begin

text \<open>
  The branch-free comparisons and selections of \<open>crypto/internal.h\<close> on the 64-bit
  \<open>crypto_word_t\<close>, and the proof that they compute what their comments say.  A mask is all ones
  for true and zero for false.  \<open>value_barrier_w\<close>, which only hides a value from the optimiser, is
  the identity.
\<close>

section \<open>The code\<close>

definition constant_time_msb_w :: "u64 \<Rightarrow> u64" where
  "constant_time_msb_w a = 0 - drop_bit (8 * 8 - 1) a"

definition constant_time_lt_w :: "u64 \<Rightarrow> u64 \<Rightarrow> u64" where
  "constant_time_lt_w a b = constant_time_msb_w (a XOR ((a XOR b) OR ((a - b) XOR a)))"

definition constant_time_lt_8 :: "u64 \<Rightarrow> u64 \<Rightarrow> u8" where
  "constant_time_lt_8 a b = ucast (constant_time_lt_w a b)"

definition constant_time_ge_w :: "u64 \<Rightarrow> u64 \<Rightarrow> u64" where
  "constant_time_ge_w a b = NOT (constant_time_lt_w a b)"

definition constant_time_ge_8 :: "u64 \<Rightarrow> u64 \<Rightarrow> u8" where
  "constant_time_ge_8 a b = ucast (constant_time_ge_w a b)"

definition constant_time_is_zero_w :: "u64 \<Rightarrow> u64" where
  "constant_time_is_zero_w a = constant_time_msb_w (NOT a AND (a - 1))"

definition constant_time_is_zero_8 :: "u64 \<Rightarrow> u8" where
  "constant_time_is_zero_8 a = ucast (constant_time_is_zero_w a)"

definition constant_time_eq_w :: "u64 \<Rightarrow> u64 \<Rightarrow> u64" where
  "constant_time_eq_w a b = constant_time_is_zero_w (a XOR b)"

definition constant_time_eq_8 :: "u64 \<Rightarrow> u64 \<Rightarrow> u8" where
  "constant_time_eq_8 a b = ucast (constant_time_eq_w a b)"

definition constant_time_eq_int :: "int \<Rightarrow> int \<Rightarrow> u64" where
  "constant_time_eq_int a b = constant_time_eq_w (word_of_int a) (word_of_int b)"

definition constant_time_eq_int_8 :: "int \<Rightarrow> int \<Rightarrow> u8" where
  "constant_time_eq_int_8 a b = constant_time_eq_8 (word_of_int a) (word_of_int b)"

definition constant_time_select_w :: "u64 \<Rightarrow> u64 \<Rightarrow> u64 \<Rightarrow> u64" where
  "constant_time_select_w msk a b = (msk AND a) OR (NOT msk AND b)"

definition constant_time_select_8 :: "u64 \<Rightarrow> u8 \<Rightarrow> u8 \<Rightarrow> u8" where
  "constant_time_select_8 msk a b = (let m = ucast msk in (m AND a) OR (NOT m AND b))"

definition constant_time_select_int :: "u64 \<Rightarrow> int \<Rightarrow> int \<Rightarrow> int" where
  "constant_time_select_int msk a b =
    sint (ucast (constant_time_select_w msk (word_of_int a) (word_of_int b)) :: u32)"

text \<open>The two loops over memory, round \<open>i\<close> after the rounds before it.\<close>

fun constant_time_conditional_memcpy :: "u8 list \<Rightarrow> u8 list \<Rightarrow> nat \<Rightarrow> u64 \<Rightarrow> u8 list" where
  "constant_time_conditional_memcpy out inn 0 msk = out"
| "constant_time_conditional_memcpy out inn (Suc i) msk =
    (constant_time_conditional_memcpy out inn i msk)[i :=
       constant_time_select_8 msk (inn ! i) (constant_time_conditional_memcpy out inn i msk ! i)]"

fun constant_time_conditional_memxor :: "u8 list \<Rightarrow> u8 list \<Rightarrow> nat \<Rightarrow> u64 \<Rightarrow> u8 list" where
  "constant_time_conditional_memxor out inn 0 msk = out"
| "constant_time_conditional_memxor out inn (Suc i) msk =
    (constant_time_conditional_memxor out inn i msk)[i :=
       constant_time_conditional_memxor out inn i msk ! i XOR (ucast msk AND inn ! i)]"

section \<open>The proofs\<close>

definition ct_mask :: "bool \<Rightarrow> 'a::len word" where
  "ct_mask P = (if P then -1 else 0)"

lemma bit_63_iff: "bit (a :: u64) 63 \<longleftrightarrow> 2 ^ 63 \<le> unat a"
proof -
  have "bit a 63 \<longleftrightarrow> bit (unat a) 63" by (simp add: bit_unsigned_iff)
  also have "\<dots> \<longleftrightarrow> odd (unat a div 2 ^ 63)" by (simp only: bit_iff_odd)
  also have "\<dots> \<longleftrightarrow> 2 ^ 63 \<le> unat a"
  proof (cases "2 ^ 63 \<le> unat a")
    case True
    have "unat a < 2 ^ LENGTH(64)" by (rule unsigned_less)
    with True have "unat a div 2 ^ 63 = 1" by (intro div_nat_eqI) simp_all
    with True show ?thesis by (simp only: odd_one simp_thms)
  next
    case False
    then show ?thesis by (simp only: not_le div_less even_zero not_True_eq_False simp_thms)
  qed
  finally show ?thesis .
qed

lemma msb_w_eq: "constant_time_msb_w a = ct_mask (bit a 63)"
proof -
  have "drop_bit 63 a = (if bit a 63 then 1 else 0)"
  proof (rule bit_word_eqI)
    fix n
    have "bit a (63 + n) \<longleftrightarrow> n = 0 \<and> bit a 63"
      using bit_imp_le_length [of a "63 + n"] by (cases n) auto
    then show "bit (drop_bit 63 a) n = bit (if bit a 63 then 1 else 0 :: u64) n"
      by (auto simp: bit_simps)
  qed
  then show ?thesis by (simp add: constant_time_msb_w_def ct_mask_def)
qed

lemma bit_63_sub: "bit (a - b :: u64) 63 = (a < b)" if "bit a 63 = bit b 63"
proof -
  have la: "unat a < 2 ^ 64" "unat b < 2 ^ 64"
    using unsigned_less [of a, where 'a = nat] unsigned_less [of b, where 'a = nat] by simp_all
  show ?thesis
  proof (cases "a < b")
    case True
    then have "unat a < unat b" by (simp add: word_less_nat_alt)
    moreover have "unat (a - b) = 2 ^ 64 + unat a - unat b"
      using True by (simp add: unat_sub_if' word_le_nat_alt word_less_nat_alt)
    ultimately have "2 ^ 63 \<le> unat (a - b)" using that la unfolding bit_63_iff by simp arith
    then show ?thesis using True by (simp add: bit_63_iff)
  next
    case False
    then have "unat (a - b) = unat a - unat b" by (simp add: unat_sub not_less)
    moreover have "unat b \<le> unat a" using False by (simp add: word_less_nat_alt)
    ultimately have "\<not> 2 ^ 63 \<le> unat (a - b)" using that la unfolding bit_63_iff by simp arith
    then show ?thesis using False by (simp add: bit_63_iff)
  qed
qed

lemma lt_w_eq: "constant_time_lt_w a b = ct_mask (a < b)"
proof -
  have "bit (a XOR ((a XOR b) OR ((a - b) XOR a))) 63 = (a < b)"
  proof (cases "bit a 63 = bit b 63")
    case True
    then show ?thesis using bit_63_sub [OF True] by (auto simp: bit_simps)
  next
    case False
    then have "(a < b) = bit b 63" by (auto simp: word_less_nat_alt bit_63_iff)
    with False show ?thesis by (auto simp: bit_simps)
  qed
  then show ?thesis by (simp only: constant_time_lt_w_def msb_w_eq)
qed

lemma is_zero_w_eq: "constant_time_is_zero_w a = ct_mask (a = 0)"
proof -
  have "bit (NOT a AND (a - 1)) 63 = (a = 0)"
  proof (cases "bit a 63")
    case True
    then show ?thesis by (auto simp: bit_simps)
  next
    case False
    then have "bit (a - 1) 63 = (a < 1)" by (intro bit_63_sub) (simp add: bit_simps)
    then show ?thesis using False by (auto simp: bit_simps word_less_nat_alt unat_eq_0)
  qed
  then show ?thesis by (simp only: constant_time_is_zero_w_def msb_w_eq)
qed

lemma eq_w_eq: "constant_time_eq_w a b = ct_mask (a = b)"
proof -
  have "a XOR b = 0 \<longleftrightarrow> a = b" by (auto simp: bit_eq_iff bit_simps)
  then show ?thesis by (simp only: constant_time_eq_w_def is_zero_w_eq)
qed

lemma ucast_ct_mask [simp]: "LENGTH('b) \<le> LENGTH('a) \<Longrightarrow> ucast (ct_mask P :: 'a::len word) = (ct_mask P :: 'b::len word)"
  by (auto simp: ct_mask_def bit_eq_iff bit_simps dest: bit_imp_le_length)

lemma not_ct_mask [simp]: "NOT (ct_mask P) = ct_mask (\<not> P)"
  by (simp add: ct_mask_def)

lemma select_w_eq: "constant_time_select_w (ct_mask P) a b = (if P then a else b)"
  by (simp add: constant_time_select_w_def ct_mask_def)

lemma select_8_eq: "constant_time_select_8 (ct_mask P) a b = (if P then a else b)"
  by (simp add: constant_time_select_8_def Let_def) (simp add: ct_mask_def)

lemma conditional_memcpy_eq:
  assumes "n \<le> length out" "n \<le> length inn"
  shows "constant_time_conditional_memcpy out inn n (ct_mask P) = (if P then take n inn @ drop n out else out)"
  using assms
proof (induction n)
  case (Suc n)
  then have "constant_time_conditional_memcpy out inn n (ct_mask P) = (if P then take n inn @ drop n out else out)"
    by simp
  moreover have "drop n out = out ! n # drop (Suc n) out" using Suc.prems by (simp add: Cons_nth_drop_Suc)
  ultimately show ?case
    using Suc.prems by (simp add: select_8_eq list_update_append nth_append take_Suc_conv_app_nth)
qed simp

lemma conditional_memxor_eq:
  assumes "n \<le> length out" "n \<le> length inn"
  shows "constant_time_conditional_memxor out inn n (ct_mask P) =
    (if P then map2 (XOR) (take n out) (take n inn) @ drop n out else out)"
  using assms
proof (induction n)
  case (Suc n)
  then have "constant_time_conditional_memxor out inn n (ct_mask P) =
      (if P then map2 (XOR) (take n out) (take n inn) @ drop n out else out)" by simp
  moreover have "drop n out = out ! n # drop (Suc n) out" using Suc.prems by (simp add: Cons_nth_drop_Suc)
  ultimately show ?case
    using Suc.prems
    by (simp add: list_update_append nth_append take_Suc_conv_app_nth) (simp add: ct_mask_def)
qed simp

text \<open>The branch-free primitives compute what their comments say, on every pair of words: a mask
  of all ones exactly when the comparison holds, the selection of one of two values by a mask, and a
  copy or an exclusive or of memory that happens exactly when the mask is set.\<close>

theorem constant_time_primitives:
  assumes "n \<le> length out" "n \<le> length inn"
  shows "constant_time_lt_w a b = ct_mask (a < b) \<and> constant_time_ge_w a b = ct_mask (a \<ge> b) \<and>
   constant_time_is_zero_w a = ct_mask (a = 0) \<and> constant_time_eq_w a b = ct_mask (a = b) \<and>
   constant_time_lt_8 a b = ct_mask (a < b) \<and> constant_time_ge_8 a b = ct_mask (a \<ge> b) \<and>
   constant_time_is_zero_8 a = ct_mask (a = 0) \<and> constant_time_eq_8 a b = ct_mask (a = b) \<and>
   constant_time_select_w (ct_mask P) a b = (if P then a else b) \<and>
   constant_time_select_8 (ct_mask P) x y = (if P then x else y) \<and>
   constant_time_conditional_memcpy out inn n (ct_mask P) = (if P then take n inn @ drop n out else out) \<and>
   constant_time_conditional_memxor out inn n (ct_mask P) =
     (if P then map2 (XOR) (take n out) (take n inn) @ drop n out else out)"
  using conditional_memcpy_eq [OF assms] conditional_memxor_eq [OF assms]
  by (intro conjI) (simp_all add: lt_w_eq is_zero_w_eq eq_w_eq select_w_eq select_8_eq constant_time_ge_w_def
    constant_time_lt_8_def constant_time_ge_8_def constant_time_is_zero_8_def constant_time_eq_8_def not_less)

theorem constant_time_primitives_witness:
  "constant_time_lt_w 3 5 = ct_mask ((3 :: u64) < 5) \<and>
   constant_time_conditional_memcpy [1, 2, 3] [7, 8] 2 (ct_mask True) = [7, 8, 3]"
proof
  have l: "2 \<le> length [1 :: u8, 2, 3]" "2 \<le> length [7 :: u8, 8]" by simp_all
  note p = constant_time_primitives [OF l, of 3 5 True]
  show "constant_time_lt_w 3 5 = ct_mask ((3 :: u64) < 5)" using p by blast
  have "constant_time_conditional_memcpy [1, 2, 3] [7, 8] 2 (ct_mask True) =
      (if True then take 2 [7, 8] @ drop 2 [1, 2, 3] else [1, 2, 3])"
    using p by blast
  then show "constant_time_conditional_memcpy [1, 2, 3] [7, 8] 2 (ct_mask True) = [7, 8, 3]" by simp
qed

end
