(* ===== verification/Base64.thy ===== *)
theory Base64
  imports Const_Time
begin

text \<open>
  The base64 encoder and decoder of \<open>crypto/base64/base64.c\<close>, one-shot and streaming.

  What the C code writes through \<open>out\<close> is the list of the bytes written, from the place \<open>out\<close>
  points to at the call.  A line feed is 10, a space 32, a tab 9, a carriage return 13 and \<open>=\<close> is 61.
\<close>

section \<open>Characters\<close>

definition constant_time_lt_args_8 :: "u8 \<Rightarrow> u8 \<Rightarrow> u8" where
  "constant_time_lt_args_8 a b = (let aw = ucast a; bw = ucast b in ucast (constant_time_msb_w (aw - bw)))"

definition constant_time_in_range_8 :: "u8 \<Rightarrow> u8 \<Rightarrow> u8 \<Rightarrow> u8" where
  "constant_time_in_range_8 a lo hi = constant_time_lt_args_8 (a - lo) (hi - lo + 1)"

definition conv_bin2ascii :: "u8 \<Rightarrow> u8" where
  "conv_bin2ascii a =
    (let a = a AND 0x3f;
         ret = constant_time_select_8 (ucast (constant_time_eq_8 (ucast a) 62)) 43 47;
         ret = constant_time_select_8 (ucast (constant_time_lt_args_8 a 62)) (a - 52 + 48) ret;
         ret = constant_time_select_8 (ucast (constant_time_lt_args_8 a 52)) (a - 26 + 97) ret;
         ret = constant_time_select_8 (ucast (constant_time_lt_args_8 a 26)) (a + 65) ret
     in ret)"

definition base64_ascii_to_bin :: "u8 \<Rightarrow> u8" where
  "base64_ascii_to_bin a =
    (let is_upper = constant_time_in_range_8 a 65 90;
         is_lower = constant_time_in_range_8 a 97 122;
         is_digit = constant_time_in_range_8 a 48 57;
         is_plus = constant_time_eq_8 (ucast a) 43;
         is_slash = constant_time_eq_8 (ucast a) 47;
         is_equals = constant_time_eq_8 (ucast a) 61;
         ret = 0;
         ret = ret OR (is_upper AND (a - 65));
         ret = ret OR (is_lower AND (a - 97 + 26));
         ret = ret OR (is_digit AND (a - 48 + 52));
         ret = ret OR (is_plus AND 62);
         ret = ret OR (is_slash AND 63);
         is_valid = is_upper OR is_lower OR is_digit OR is_plus OR is_slash OR is_equals;
         ret = ret OR NOT is_valid
     in ret)"

section \<open>Encoding\<close>

record evp_encode_ctx =
  data_used :: nat
  ctx_data :: "u8 list"
  eof_seen :: bool
  error_encountered :: bool

abbreviation CTX_DATA_SIZE :: nat where "CTX_DATA_SIZE \<equiv> 48"

definition EVP_EncodeInit :: evp_encode_ctx where
  "EVP_EncodeInit = \<lparr>data_used = 0, ctx_data = replicate CTX_DATA_SIZE 0, eof_seen = False, error_encountered = False\<rparr>"

text \<open>The result is \<open>*out_len\<close>; shifts of a \<open>size_t\<close> drop the bits past 64.\<close>

definition EVP_EncodedLength :: "nat \<Rightarrow> nat option" where
  "EVP_EncodedLength len =
    (if sz_add len 2 < len then None
     else
       let len = sz_add len 2 div 3
       in if ((len * 4) mod SIZE_LIMIT) div 4 \<noteq> len then None
          else
            let len = (len * 4) mod SIZE_LIMIT
            in if sz_add len 1 < len then None else Some (sz_add len 1))"

text \<open>The loop of \<open>EVP_EncodeBlock\<close>: the bytes it writes and \<open>ret\<close>.\<close>

function encode_loop :: "u8 list \<Rightarrow> nat \<Rightarrow> nat \<Rightarrow> u8 list \<times> nat" where
  "encode_loop src remaining ret =
    (if remaining = 0 then ([], ret)
     else
       let (quad, remaining) =
         (if remaining \<ge> 3 then
            let l = (push_bit 16 (ucast (src ! 0)) OR push_bit 8 (ucast (src ! 1)) OR ucast (src ! 2)) :: u32
            in ([conv_bin2ascii (ucast (drop_bit 18 l)), conv_bin2ascii (ucast (drop_bit 12 l)),
                 conv_bin2ascii (ucast (drop_bit 6 l)), conv_bin2ascii (ucast l)], remaining - 3)
          else
            let l = push_bit 16 (ucast (src ! 0)) :: u32;
                l = (if remaining = 2 then l OR push_bit 8 (ucast (src ! 1)) else l)
            in ([conv_bin2ascii (ucast (drop_bit 18 l)), conv_bin2ascii (ucast (drop_bit 12 l)),
                 if remaining = 1 then 61 else conv_bin2ascii (ucast (drop_bit 6 l)), 61], 0));
           (rest, ret) = encode_loop (drop 3 src) remaining (sz_add ret 4)
       in (quad @ rest, ret))"
  by pat_completeness auto
termination by (relation "measure (\<lambda>(src, remaining, ret). remaining)") (auto split: if_splits simp: Let_def)

declare encode_loop.simps [simp del]

definition EVP_EncodeBlock :: "u8 list \<Rightarrow> nat \<Rightarrow> u8 list \<times> nat" where
  "EVP_EncodeBlock src src_len = (let (dst, ret) = encode_loop src src_len 0 in (dst @ [0], ret))"

text \<open>One line: the block without its final zero byte, which the line feed overwrites.\<close>

definition encode_line :: "u8 list \<Rightarrow> u8 list \<times> nat" where
  "encode_line block =
    (let (dst, encoded) = EVP_EncodeBlock block CTX_DATA_SIZE in (take encoded dst @ [10], encoded))"

text \<open>The \<open>while\<close> loop of \<open>EVP_EncodeUpdate\<close>: what it writes, the rest of the input, and \<open>total\<close>, or
  \<open>None\<close> for the early return on overflow.\<close>

function encode_lines :: "u8 list \<Rightarrow> nat \<Rightarrow> nat \<Rightarrow> u8 list \<times> u8 list \<times> nat \<times> nat option" where
  "encode_lines inn in_len tot =
    (if in_len \<ge> CTX_DATA_SIZE then
       let (line, encoded) = encode_line inn;
           inn = drop CTX_DATA_SIZE inn; in_len = in_len - CTX_DATA_SIZE
       in if sz_add (sz_add tot encoded) 1 < tot then (line, inn, in_len, None)
          else
            let (out, r) = encode_lines inn in_len (sz_add tot (sz_add encoded 1))
            in (line @ out, r)
     else ([], inn, in_len, Some tot))"
  by pat_completeness auto
termination by (relation "measure (\<lambda>(inn, in_len, tot). in_len)") auto

declare encode_lines.simps [simp del]

text \<open>The results are the bytes written (without the zero byte that follows a line), \<open>*out_len\<close> and
  the context.\<close>

definition EVP_EncodeUpdate :: "evp_encode_ctx \<Rightarrow> u8 list \<Rightarrow> nat \<Rightarrow> u8 list \<times> nat \<times> evp_encode_ctx" where
  "EVP_EncodeUpdate ctx inn in_len =
    (if in_len = 0 then ([], 0, ctx)
     else if CTX_DATA_SIZE - data_used ctx > in_len then
       ([], 0, ctx\<lparr>ctx_data := take (data_used ctx) (ctx_data ctx) @ take in_len inn @
                     drop (data_used ctx + in_len) (ctx_data ctx),
                   data_used := data_used ctx + in_len\<rparr>)
     else
       let (out0, inn, in_len, tot, ctx) =
         (if data_used ctx \<noteq> 0 then
            let todo = CTX_DATA_SIZE - data_used ctx;
                ctx = ctx\<lparr>ctx_data := take (data_used ctx) (ctx_data ctx) @ take todo inn\<rparr>;
                (line, encoded) = encode_line (ctx_data ctx)
            in (line, drop todo inn, in_len - todo, sz_add encoded 1, ctx\<lparr>data_used := 0\<rparr>)
          else ([], inn, in_len, 0, ctx));
         (out1, inn, in_len, tot) = encode_lines inn in_len tot
       in case tot of
            None \<Rightarrow> (out0 @ out1, 0, ctx)
          | Some tot \<Rightarrow>
              (out0 @ out1, if tot > INT_MAX_nat then 0 else tot,
               ctx\<lparr>ctx_data := (if in_len \<noteq> 0 then take in_len inn @ drop in_len (ctx_data ctx) else ctx_data ctx),
                   data_used := in_len\<rparr>))"

definition EVP_EncodeFinal :: "evp_encode_ctx \<Rightarrow> u8 list \<times> nat \<times> evp_encode_ctx" where
  "EVP_EncodeFinal ctx =
    (if data_used ctx = 0 then ([], 0, ctx)
     else
       let (dst, encoded) = EVP_EncodeBlock (ctx_data ctx) (data_used ctx)
       in (take encoded dst @ [10, 0], encoded + 1, ctx\<lparr>data_used := 0\<rparr>))"

section \<open>Decoding\<close>

definition EVP_DecodedLength :: "nat \<Rightarrow> nat option" where
  "EVP_DecodedLength len = (if len mod 4 \<noteq> 0 then None else Some (len div 4 * 3))"

definition EVP_DecodeInit :: evp_encode_ctx where
  "EVP_DecodeInit = \<lparr>data_used = 0, ctx_data = replicate CTX_DATA_SIZE 0, eof_seen = False, error_encountered = False\<rparr>"

text \<open>The bytes written; their number is \<open>*out_num_bytes\<close>.\<close>

definition base64_decode_quad :: "u8 list \<Rightarrow> u8 list option" where
  "base64_decode_quad inn =
    (let a = base64_ascii_to_bin (inn ! 0); b = base64_ascii_to_bin (inn ! 1);
         c = base64_ascii_to_bin (inn ! 2); d = base64_ascii_to_bin (inn ! 3)
     in if a = 0xff \<or> b = 0xff \<or> c = 0xff \<or> d = 0xff then None
        else
          let v = (push_bit 18 (ucast a) OR push_bit 12 (ucast b) OR push_bit 6 (ucast c) OR ucast d) :: u32;
              padding_pattern =
                (of_bool (inn ! 0 = 61) * 8 + of_bool (inn ! 1 = 61) * 4 + of_bool (inn ! 2 = 61) * 2 +
                 of_bool (inn ! 3 = 61) :: nat)
          in if padding_pattern = 0 then
               Some [ucast (drop_bit 16 v), ucast (drop_bit 8 v), ucast v]
             else if padding_pattern = 1 then Some [ucast (drop_bit 16 v), ucast (drop_bit 8 v)]
             else if padding_pattern = 3 then Some [ucast (drop_bit 16 v)]
             else None)"

text \<open>The loop of \<open>EVP_DecodeUpdate\<close> over the input: the bytes written, whether it returned -1, and
  the context.\<close>

fun decode_loop :: "evp_encode_ctx \<Rightarrow> u8 list \<Rightarrow> u8 list \<times> bool \<times> evp_encode_ctx" where
  "decode_loop ctx [] = ([], False, ctx)"
| "decode_loop ctx (c # inn) =
    (if c = 32 \<or> c = 9 \<or> c = 13 \<or> c = 10 then decode_loop ctx inn
     else if eof_seen ctx then ([], True, ctx\<lparr>error_encountered := True\<rparr>)
     else
       let ctx = ctx\<lparr>ctx_data := (ctx_data ctx)[data_used ctx := c], data_used := data_used ctx + 1\<rparr>
       in if data_used ctx = 4 then
            (case base64_decode_quad (ctx_data ctx) of
               None \<Rightarrow> ([], True, ctx\<lparr>error_encountered := True\<rparr>)
             | Some bytes \<Rightarrow>
                 let ctx = ctx\<lparr>data_used := 0\<rparr>;
                     ctx = (if length bytes < 3 then ctx\<lparr>eof_seen := True\<rparr> else ctx);
                     (out, r) = decode_loop ctx inn
                 in (bytes @ out, r))
          else decode_loop ctx inn)"

text \<open>The results are the return value, \<open>*out_len\<close>, the bytes written and the context.\<close>

definition EVP_DecodeUpdate ::
  "evp_encode_ctx \<Rightarrow> u8 list \<Rightarrow> nat \<Rightarrow> int \<times> nat \<times> u8 list \<times> evp_encode_ctx" where
  "EVP_DecodeUpdate ctx inn in_len =
    (if error_encountered ctx then (-1, 0, [], ctx)
     else
       let (out, failed, ctx) = decode_loop ctx (take in_len inn); bytes_out = length out
       in if failed then (-1, 0, out, ctx)
          else if bytes_out > INT_MAX_nat then (-1, 0, out, ctx\<lparr>error_encountered := True\<rparr>)
          else (if eof_seen ctx then 0 else 1, bytes_out, out, ctx))"

definition EVP_DecodeFinal :: "evp_encode_ctx \<Rightarrow> int" where
  "EVP_DecodeFinal ctx = (if error_encountered ctx \<or> data_used ctx \<noteq> 0 then -1 else 1)"

text \<open>The loop of \<open>EVP_DecodeBase64\<close>, over the input from index \<open>i\<close> on.\<close>

function decode_quads :: "u8 list \<Rightarrow> nat \<Rightarrow> nat \<Rightarrow> u8 list option" where
  "decode_quads inn in_len i =
    (if i < in_len then
       (case base64_decode_quad (drop i inn) of
          None \<Rightarrow> None
        | Some bytes \<Rightarrow>
            if length bytes \<noteq> 3 \<and> i \<noteq> in_len - 4 then None
            else map_option (\<lambda>out. bytes @ out) (decode_quads inn in_len (i + 4)))
     else Some [])"
  by pat_completeness auto
termination by (relation "measure (\<lambda>(inn, in_len, i). in_len - i)") auto

declare decode_quads.simps [simp del]

text \<open>The result is the bytes written; their number is \<open>*out_len\<close>.\<close>

definition EVP_DecodeBase64 :: "nat \<Rightarrow> u8 list \<Rightarrow> nat \<Rightarrow> u8 list option" where
  "EVP_DecodeBase64 max_out inn in_len =
    (if in_len mod 4 \<noteq> 0 then None
     else case EVP_DecodedLength in_len of
            None \<Rightarrow> None
          | Some max_len \<Rightarrow> if max_out < max_len then None else decode_quads inn in_len 0)"

text \<open>The two trimming loops of \<open>EVP_DecodeBlock\<close>.\<close>

fun trim_front :: "u8 list \<Rightarrow> nat \<Rightarrow> u8 list \<times> nat" where
  "trim_front src 0 = (src, 0)"
| "trim_front src (Suc n) =
    (if src ! 0 \<noteq> 32 \<and> src ! 0 \<noteq> 9 then (src, Suc n) else trim_front (drop 1 src) n)"

fun trim_back :: "u8 list \<Rightarrow> nat \<Rightarrow> nat" where
  "trim_back src 0 = 0"
| "trim_back src (Suc n) =
    (if src ! n = 32 \<or> src ! n = 9 \<or> src ! n = 13 \<or> src ! n = 10 then trim_back src n else Suc n)"

text \<open>The result is the bytes written and their number, the return value.\<close>

definition EVP_DecodeBlock :: "u8 list \<Rightarrow> nat \<Rightarrow> (u8 list \<times> nat) option" where
  "EVP_DecodeBlock src src_len =
    (let (src, src_len) = trim_front src src_len; src_len = trim_back src src_len
     in case EVP_DecodedLength src_len of
          None \<Rightarrow> None
        | Some dst_len \<Rightarrow>
            if dst_len > INT_MAX_nat then None
            else case EVP_DecodeBase64 dst_len src src_len of
                   None \<Rightarrow> None
                 | Some dst \<Rightarrow>
                     let pad = (3 - length dst mod 3) mod 3
                     in Some (dst @ replicate pad 0, length dst + pad))"


section \<open>The alphabet\<close>

lemma lt_args_8_eq: "constant_time_lt_args_8 a b = ct_mask (a < b)"
proof -
  have s: "\<not> bit (ucast w :: u64) 63" for w :: u8 by (simp add: bit_simps) (auto dest: bit_imp_le_length)
  then have "bit (ucast a - ucast b :: u64) 63 = ((ucast a :: u64) < ucast b)" by (intro bit_63_sub) simp
  then show ?thesis
    by (simp add: constant_time_lt_args_8_def Let_def msb_w_eq word_less_nat_alt)
qed

lemma in_range_8_eq:
  assumes "lo \<le> hi" "hi - lo \<noteq> 255"
  shows "constant_time_in_range_8 a lo hi = ct_mask (lo \<le> a \<and> a \<le> hi)"
proof -
  have "a - lo < hi - lo + 1 \<longleftrightarrow> a - lo \<le> hi - lo"
  proof -
    have "1 + (hi - lo) \<noteq> 0" using assms(2) by (auto simp: add_eq_0_iff)
    then have "unat (hi - lo + 1) = Suc (unat (hi - lo))" using unatSuc [of "hi - lo"] by (simp add: add.commute)
    then show ?thesis by (simp only: word_less_nat_alt word_le_nat_alt less_Suc_eq_le)
  qed
  also have "\<dots> \<longleftrightarrow> lo \<le> a \<and> a \<le> hi"
    using assms(1)
    by (auto simp: word_le_nat_alt unat_sub_if' split: if_splits) (use u8_lt [of hi] in linarith)
  finally show ?thesis by (simp add: constant_time_in_range_8_def lt_args_8_eq)
qed

lemma eq_8_ucast: "constant_time_eq_8 (ucast a) (ucast (b :: u8)) = ct_mask (a = (b :: u8))"
proof -
  have "((ucast a :: u64) = ucast b) = (a = b)" by (auto simp: word_unat_eq_iff)
  then show ?thesis by (simp add: constant_time_eq_8_def eq_w_eq)
qed

text \<open>The base64 alphabet of RFC 4648, by the value of its characters.\<close>

definition b64_alphabet :: "u8 list" where
  "b64_alphabet = map word_of_nat ([65..<91] @ [97..<123] @ [48..<58] @ [43, 47])"

definition b64_char :: "nat \<Rightarrow> u8" where
  "b64_char n = b64_alphabet ! (n mod 64)"

lemma select_8_ucast: "constant_time_select_8 (ucast (ct_mask P :: u8)) a b = (if P then a else b)"
proof -
  have "ucast (ucast m :: u64) = m" for m :: u8 by (auto simp: bit_eq_iff bit_simps dest: bit_imp_le_length)
  then show ?thesis by (simp only: constant_time_select_8_def Let_def) (simp add: ct_mask_def)
qed

lemma conv_bin2ascii_cases:
  "conv_bin2ascii a = (let a = a AND 0x3f in
     if a < 26 then a + 65 else if a < 52 then a - 26 + 97 else if a < 62 then a - 52 + 48
     else if a = 62 then 43 else 47)"
  using eq_8_ucast [of "a AND 0x3f" 62]
  by (simp add: conv_bin2ascii_def Let_def lt_args_8_eq select_8_ucast)

lemma ascii_to_bin_cases:
  "base64_ascii_to_bin a =
     (if 65 \<le> a \<and> a \<le> 90 then a - 65 else if 97 \<le> a \<and> a \<le> 122 then a - 97 + 26
      else if 48 \<le> a \<and> a \<le> 57 then a - 48 + 52 else if a = 43 then 62 else if a = 47 then 63
      else if a = 61 then 0 else 0xff)"
proof -
  have r: "constant_time_in_range_8 a 65 90 = ct_mask (65 \<le> a \<and> a \<le> 90)"
    "constant_time_in_range_8 a 97 122 = ct_mask (97 \<le> a \<and> a \<le> 122)"
    "constant_time_in_range_8 a 48 57 = ct_mask (48 \<le> a \<and> a \<le> 57)"
    by (rule in_range_8_eq; simp)+
  have e: "constant_time_eq_8 (ucast a) 43 = ct_mask (a = 43)" "constant_time_eq_8 (ucast a) 47 = ct_mask (a = 47)"
    "constant_time_eq_8 (ucast a) 61 = ct_mask (a = 61)"
    using eq_8_ucast [of a 43] eq_8_ucast [of a 47] eq_8_ucast [of a 61] by simp_all
  show ?thesis unfolding base64_ascii_to_bin_def Let_def r e
    by (auto simp: ct_mask_def word_le_nat_alt)
qed


lemma unat_b64_char:
  assumes "n < 64"
  shows "unat (b64_char n) =
    (if n < 26 then n + 65 else if n < 52 then n + 71 else if n < 62 then n - 4 else if n = 62 then 43 else 47)"
proof -
  have "n = 62 \<or> n = 63" if "\<not> n < 62" using that assms by arith
  then show ?thesis using assms
    by (auto simp: b64_char_def b64_alphabet_def nth_append unat_u8_of_nat simp del: upt_rec_numeral)
      (auto simp: unat_word_ariths unat_sub_if' unat_u8_of_nat word_le_nat_alt)
qed

lemma conv_bin2ascii_eq: "conv_bin2ascii a = b64_char (unat a)"
proof -
  have "a AND 0x3f = take_bit 6 a" by (simp add: take_bit_eq_mask mask_eq_exp_minus_1)
  then have u: "unat (a AND 0x3f) = unat a mod 64" by (simp only: unsigned_take_bit_eq) (simp add: take_bit_eq_mod)
  have "unat (conv_bin2ascii a) = unat (b64_char (unat a mod 64))"
    by (simp add: conv_bin2ascii_cases Let_def word_less_nat_alt u unat_b64_char word_unat_eq_iff)
      (auto simp: unat_word_ariths unat_sub_if' u)
  also have "b64_char (unat a mod 64) = b64_char (unat a)" by (simp add: b64_char_def)
  finally show ?thesis by (simp only: word_unat_eq_iff)
qed

lemma b64_char_not_pad [simp]: "b64_char n \<noteq> 61"
proof
  assume "b64_char n = 61"
  then have "unat (b64_char (n mod 64)) = 61" by (simp add: b64_char_def)
  then show False by (subst (asm) unat_b64_char) (auto split: if_splits)
qed

lemma ascii_to_bin_char:
  assumes "n < 64"
  shows "base64_ascii_to_bin (b64_char n) = word_of_nat n"
  using assms
  by (simp add: ascii_to_bin_cases word_le_nat_alt word_unat_eq_iff unat_b64_char)
    (auto simp: unat_word_ariths unat_sub_if' unat_b64_char unat_u8_of_nat)

lemma b64_alphabet_iff:
  "c \<in> set b64_alphabet \<longleftrightarrow>
    65 \<le> c \<and> c \<le> 90 \<or> 97 \<le> c \<and> c \<le> 122 \<or> 48 \<le> c \<and> c \<le> 57 \<or> c = 43 \<or> c = 47"
proof -
  have r: "c \<in> word_of_nat ` {l..<h} \<longleftrightarrow> l \<le> unat c \<and> unat c < h" if "h \<le> 256" for l h
  proof
    assume "c \<in> word_of_nat ` {l..<h}"
    then show "l \<le> unat c \<and> unat c < h" using that by (auto simp: unat_u8_of_nat)
  next
    assume "l \<le> unat c \<and> unat c < h"
    then show "c \<in> word_of_nat ` {l..<h}" by (intro image_eqI [of _ _ "unat c"]) simp_all
  qed
  have "set b64_alphabet = word_of_nat ` {65..<91} \<union> word_of_nat ` {97..<123} \<union> word_of_nat ` {48..<58} \<union> {43, 47}"
    by (simp only: b64_alphabet_def set_map set_append set_upt image_Un) auto
  then show ?thesis
    using r [of 91 65] r [of 123 97] r [of 58 48] by (auto simp: word_le_nat_alt)
qed

lemma b64_char_alphabet: "b64_char n \<in> set b64_alphabet"
proof -
  have "length b64_alphabet = 64" by (simp add: b64_alphabet_def del: upt_rec_numeral)
  then show ?thesis by (simp add: b64_char_def)
qed

text \<open>The constant-time conversions are the base64 alphabet of RFC 4648 and its inverse: the
  encoder looks up the low six bits, the decoder finds the index of every character of the alphabet,
  gives 0 for the padding character and 0xff for every other byte.\<close>

theorem base64_alphabet_exact:
  "conv_bin2ascii a = b64_alphabet ! (unat a mod 64) \<and>
   base64_ascii_to_bin (conv_bin2ascii a) = a AND 0x3f \<and>
   (base64_ascii_to_bin c = 0xff \<longleftrightarrow> c \<notin> set b64_alphabet \<and> c \<noteq> 61) \<and>
   conv_bin2ascii (base64_ascii_to_bin c) = (if c \<in> set b64_alphabet then c else if c = 61 then 65 else 47)"
proof (intro conjI)
  show "conv_bin2ascii a = b64_alphabet ! (unat a mod 64)" by (simp only: conv_bin2ascii_eq b64_char_def)
  have "a AND 0x3f = take_bit 6 a" by (simp add: take_bit_eq_mask mask_eq_exp_minus_1)
  then have u: "unat (a AND 0x3f) = unat a mod 64" by (simp only: unsigned_take_bit_eq) (simp add: take_bit_eq_mod)
  have "conv_bin2ascii a = b64_char (unat a mod 64)" by (simp add: conv_bin2ascii_eq b64_char_def)
  then have "base64_ascii_to_bin (conv_bin2ascii a) = word_of_nat (unat a mod 64)"
    by (simp add: ascii_to_bin_char)
  also have "\<dots> = a AND 0x3f" by (simp only: u [symmetric] of_nat_unat) simp
  finally show "base64_ascii_to_bin (conv_bin2ascii a) = a AND 0x3f" .
  show "base64_ascii_to_bin c = 0xff \<longleftrightarrow> c \<notin> set b64_alphabet \<and> c \<noteq> 61"
    by (simp add: ascii_to_bin_cases b64_alphabet_iff word_le_nat_alt word_unat_eq_iff)
      (auto simp: unat_word_ariths unat_sub_if')
  have "b64_char 255 = b64_char 63" by (simp add: b64_char_def)
  then have p: "unat (b64_char 255) = 47" by (simp only: unat_b64_char) simp
  show "conv_bin2ascii (base64_ascii_to_bin c) = (if c \<in> set b64_alphabet then c else if c = 61 then 65 else 47)"
    by (simp add: conv_bin2ascii_eq ascii_to_bin_cases b64_alphabet_iff word_le_nat_alt word_unat_eq_iff)
      (auto simp: unat_word_ariths unat_sub_if' unat_b64_char p)
qed


section \<open>Blocks\<close>

text \<open>The base64 encoding of a byte string by the digits in base 64 of its groups of three bytes.\<close>

fun b64 :: "u8 list \<Rightarrow> u8 list" where
  "b64 [] = []"
| "b64 [x] = (let v = unat x * 65536 in [b64_char (v div 262144), b64_char (v div 4096), 61, 61])"
| "b64 [x, y] =
    (let v = unat x * 65536 + unat y * 256
     in [b64_char (v div 262144), b64_char (v div 4096), b64_char (v div 64), 61])"
| "b64 (x # y # z # bs) =
    (let v = unat x * 65536 + (unat y * 256 + unat z)
     in [b64_char (v div 262144), b64_char (v div 4096), b64_char (v div 64), b64_char v] @ b64 bs)"

lemma length_b64: "length (b64 bs) = (length bs + 2) div 3 * 4"
proof (induction bs rule: b64.induct)
  case (4 x y z bs)
  have "(length (x # y # z # bs) + 2) div 3 = Suc ((length bs + 2) div 3)" by simp
  with 4 show ?case by (simp add: Let_def)
qed (simp_all add: Let_def)

lemma b64_append: "length xs mod 3 = 0 \<Longrightarrow> b64 (xs @ ys) = b64 xs @ b64 ys"
  by (induction xs rule: b64.induct) (simp_all add: Let_def)

lemma unat_push_or:
  assumes "unat (w :: u32) < 2 ^ n" "unat u < 2 ^ (32 - n)" "n \<le> 32"
  shows "unat (push_bit n u OR w) = unat u * 2 ^ n + unat w"
proof -
  have z: "drop_bit n w = 0" using assms(1) by (simp only: drop_bit_eq_0)
  have "push_bit n u AND w = 0"
  proof (rule bit_word_eqI)
    fix i
    have "\<not> bit w i" if "n \<le> i"
    proof -
      have "bit (drop_bit n w) (i - n) = bit w i" using that by (simp add: bit_drop_bit_eq)
      with z show ?thesis by simp
    qed
    then show "bit (push_bit n u AND w) i = bit (0 :: u32) i" by (auto simp: bit_simps)
  qed
  moreover have "unat (push_bit n u) = unat u * 2 ^ n"
  proof -
    have "unat u * 2 ^ n < 2 ^ (32 - n) * 2 ^ n" using assms(2) by simp
    also have "\<dots> = 2 ^ 32" using assms(3) by (simp add: power_add [symmetric])
    finally show ?thesis by (simp only: unsigned_push_bit_eq) (simp add: take_bit_nat_eq_self push_bit_eq_mult)
  qed
  ultimately show ?thesis by (simp only: unat_or_disjoint)
qed

lemma conv_drop: "conv_bin2ascii (ucast (drop_bit n (l :: u32))) = b64_char (unat l div 2 ^ n)"
proof -
  have "unat (ucast (drop_bit n l) :: u8) = unat l div 2 ^ n mod 256"
    by (simp only: unsigned_ucast_eq unat_drop_bit_eq) (simp add: take_bit_eq_mod drop_bit_eq_div)
  moreover have "k mod 256 mod 64 = k mod (64 :: nat)" for k by (rule mod_mod_cancel) simp
  ultimately show ?thesis by (simp only: conv_bin2ascii_eq b64_char_def)
qed

lemma conv_low: "conv_bin2ascii (ucast (l :: u32)) = b64_char (unat l)"
  using conv_drop [of 0 l] by simp

lemma unat_group:
  "unat (push_bit 16 (ucast x) OR push_bit 8 (ucast y) OR ucast z :: u32) =
     unat (x :: u8) * 65536 + (unat (y :: u8) * 256 + unat (z :: u8))"
  "unat (push_bit 16 (ucast x) OR push_bit 8 (ucast y) :: u32) = unat x * 65536 + unat y * 256"
  "unat (push_bit 16 (ucast x) :: u32) = unat x * 65536"
proof -
  have i: "unat (push_bit 8 (ucast y) OR ucast z :: u32) = unat y * 256 + unat z" for z :: u8
    by (subst unat_push_or) (simp_all add: less_le_trans [OF u8_lt])
  have o: "unat (push_bit 16 (ucast x) OR w :: u32) = unat x * 65536 + unat w" if "unat w < 65536" for w
    using that by (subst unat_push_or) (simp_all add: less_le_trans [OF u8_lt])
  have b: "unat y * 256 + unat z < 65536" for z :: u8
    using u8_lt [of y] u8_lt [of z] by linarith
  show "unat (push_bit 16 (ucast x) OR push_bit 8 (ucast y) OR ucast z :: u32) =
     unat x * 65536 + (unat y * 256 + unat z)"
    using o [of "push_bit 8 (ucast y) OR ucast z"] by (simp only: i b simp_thms)
  show "unat (push_bit 16 (ucast x) OR push_bit 8 (ucast y) :: u32) = unat x * 65536 + unat y * 256"
    using o [of "push_bit 8 (ucast y)"] i [of 0] b [of 0] by simp
  show "unat (push_bit 16 (ucast x) :: u32) = unat x * 65536"
    using o [of 0] by simp
qed

lemma encode_loop_b64:
  assumes "n \<le> length src" "ret + (n + 2) div 3 * 4 < SIZE_LIMIT"
  shows "encode_loop src n ret = (b64 (take n src), ret + (n + 2) div 3 * 4)"
  using assms
proof (induction n arbitrary: src ret rule: less_induct)
  case (less n)
  have e0: "encode_loop s 0 r = ([], r)" for s r by (simp add: encode_loop.simps)
  consider "n = 0" | "n = 1" | "n = 2" | "3 \<le> n" by arith
  then show ?case
  proof cases
    case 1
    then show ?thesis by (simp add: e0)
  next
    case 2
    with less.prems(1) obtain x s where "src = x # s" by (cases src) auto
    with 2 less.prems(2) show ?thesis unfolding encode_loop.simps [of src n]
      by (simp add: e0 Let_def conv_drop unat_group)
  next
    case 3
    with less.prems(1) obtain x y s where "src = x # y # s" by (cases src; cases "tl src") auto
    with 3 less.prems(2) show ?thesis unfolding encode_loop.simps [of src n]
      by (simp add: e0 Let_def conv_drop unat_group)
  next
    case 4
    define m where "m = n - 3"
    with 4 have n: "n = Suc (Suc (Suc m))" by arith
    with less.prems(1) obtain x y z s where src: "src = x # y # z # s"
      by (metis Suc_le_length_iff)
    have c: "(Suc (Suc (Suc m)) + 2) div 3 = Suc ((m + 2) div 3)" by simp
    have r: "sz_add ret 4 = ret + 4" using less.prems(2) unfolding n c by (intro sz_add_small) simp
    have "m < n" "m \<le> length s" "ret + 4 + (m + 2) div 3 * 4 < SIZE_LIMIT"
      using less.prems unfolding n c src by simp_all
    then have IH: "encode_loop s m (ret + 4) = (b64 (take m s), ret + 4 + (m + 2) div 3 * 4)"
      by (rule less.IH)
    have "encode_loop src n ret = ([conv_bin2ascii (ucast (drop_bit 18 l)), conv_bin2ascii (ucast (drop_bit 12 l)),
        conv_bin2ascii (ucast (drop_bit 6 l)), conv_bin2ascii (ucast l)] @ b64 (take m s), ret + 4 + (m + 2) div 3 * 4)"
      if "l = push_bit 16 (ucast x) OR push_bit 8 (ucast y) OR ucast z" for l :: u32
      unfolding encode_loop.simps [of src n] using that by (simp add: n src r IH Let_def del: drop_bit_or)
    then show ?thesis unfolding conv_drop
      by (simp only: conv_low unat_group n src take_Suc_Cons b64.simps Let_def c) (simp del: drop_bit_or)
  qed
qed


lemma bin_of_b64_char: "base64_ascii_to_bin (b64_char n) = word_of_nat (n mod 64)"
proof -
  have "b64_char n = b64_char (n mod 64)" by (simp add: b64_char_def)
  then show ?thesis by (simp only:) (rule ascii_to_bin_char, simp)
qed

lemma unat_bin_of_b64_char: "unat (base64_ascii_to_bin (b64_char n)) = n mod 64"
proof -
  have "n mod 64 < 256" by (rule less_trans [of _ 64]) simp_all
  then show ?thesis by (simp only: bin_of_b64_char unat_u8_of_nat mod_less)
qed

lemma bin_of_b64_char_valid: "base64_ascii_to_bin (b64_char n) \<noteq> 0xff"
proof
  assume "base64_ascii_to_bin (b64_char n) = 0xff"
  then have "n mod 64 = 255" using unat_bin_of_b64_char [of n] by simp
  moreover have "n mod 64 < 64" by simp
  ultimately show False by simp
qed

lemma bin_of_pad: "base64_ascii_to_bin 61 = 0"
  by (simp add: ascii_to_bin_cases)

lemma quad_value:
  assumes "unat (a :: u8) < 64" "unat (b :: u8) < 64" "unat (c :: u8) < 64" "unat (d :: u8) < 64"
  shows "unat (push_bit 18 (ucast a) OR push_bit 12 (ucast b) OR push_bit 6 (ucast c) OR ucast d :: u32) =
    unat a * 262144 + (unat b * 4096 + (unat c * 64 + unat d))"
proof -
  have 1: "unat (push_bit 6 (ucast c) OR ucast d :: u32) = unat c * 64 + unat d"
    using assms by (subst unat_push_or) simp_all
  have 2: "unat (push_bit 12 (ucast b) OR push_bit 6 (ucast c) OR ucast d :: u32) =
      unat b * 4096 + (unat c * 64 + unat d)"
    using assms by (subst unat_push_or) (simp_all add: 1)
  show ?thesis
    using assms by (subst unat_push_or) (simp_all add: 2)
qed

lemma digits_64:
  assumes "(v :: nat) < 16777216"
  shows "v div 262144 mod 64 * 262144 + (v div 4096 mod 64 * 4096 + (v div 64 mod 64 * 64 + v mod 64)) = v"
proof -
  have s: "w div 64 * 64 + w mod 64 = w" for w :: nat by (rule div_mult_mod_eq)
  have d: "v div 64 div 64 = v div 4096" "v div 4096 div 64 = v div 262144"
    by (simp_all only: div_mult2_eq [symmetric]) simp_all
  have "v div 262144 < 64" using assms by (simp add: less_mult_imp_div_less)
  then have m: "v div 262144 mod 64 = v div 262144" by simp
  show ?thesis using s [of v] s [of "v div 64"] s [of "v div 4096"] unfolding d m by linarith
qed

lemma ucast_drop: "(ucast (drop_bit n (l :: u32)) :: u8) = word_of_nat (unat l div 2 ^ n)"
proof -
  have "unat (ucast (drop_bit n l) :: u8) = unat l div 2 ^ n mod 256"
    by (simp only: unsigned_ucast_eq unat_drop_bit_eq) (simp add: take_bit_eq_mod drop_bit_eq_div)
  then show ?thesis by (simp only: word_unat_eq_iff unat_u8_of_nat)
qed

lemma ucast_low: "(ucast (l :: u32) :: u8) = word_of_nat (unat l)"
  using ucast_drop [of 0 l] by simp

lemma quad_value_chars:
  assumes "v < 16777216"
  shows "unat (push_bit 18 (ucast (base64_ascii_to_bin (b64_char (v div 262144)))) OR
     push_bit 12 (ucast (base64_ascii_to_bin (b64_char (v div 4096)))) OR
     push_bit 6 (ucast (base64_ascii_to_bin (b64_char (v div 64)))) OR
     ucast (base64_ascii_to_bin (b64_char v)) :: u32) = v"
  by (subst quad_value) (simp_all only: unat_bin_of_b64_char digits_64 [OF assms])

lemma b64_char_0: "base64_ascii_to_bin (b64_char v) = 0" if "v mod 64 = 0"
  using that by (simp add: bin_of_b64_char)

lemma decode_quad_val:
  assumes "base64_ascii_to_bin w \<noteq> 0xff" "base64_ascii_to_bin x \<noteq> 0xff"
    "base64_ascii_to_bin y \<noteq> 0xff" "base64_ascii_to_bin z \<noteq> 0xff"
    and v: "unat (push_bit 18 (ucast (base64_ascii_to_bin w)) OR push_bit 12 (ucast (base64_ascii_to_bin x)) OR
      push_bit 6 (ucast (base64_ascii_to_bin y)) OR ucast (base64_ascii_to_bin z) :: u32) = v"
    and p: "w \<noteq> 61" "x \<noteq> 61" "y = 61 \<Longrightarrow> z = 61"
  shows "base64_decode_quad (w # x # y # z # r) =
    Some (take (if y = 61 then 1 else if z = 61 then 2 else 3)
      [word_of_nat (v div 65536), word_of_nat (v div 256), word_of_nat v])"
proof -
  define V :: u32 where "V = (push_bit 18 (ucast (base64_ascii_to_bin w)) OR push_bit 12 (ucast (base64_ascii_to_bin x)) OR
      push_bit 6 (ucast (base64_ascii_to_bin y)) OR ucast (base64_ascii_to_bin z))"
  have "base64_decode_quad (w # x # y # z # r) =
    Some (take (if y = 61 then 1 else if z = 61 then 2 else 3)
      [ucast (drop_bit 16 V), ucast (drop_bit 8 V), ucast V])"
    unfolding base64_decode_quad_def Let_def
    using assms(1-4) p by (cases "y = 61"; cases "z = 61") (simp_all add: V_def del: drop_bit_or)
  also have V: "unat V = v" using v by (simp only: V_def)
  have "(2 :: nat) ^ 16 = 65536" "(2 :: nat) ^ 8 = 256" by simp_all
  then have "[ucast (drop_bit 16 V), ucast (drop_bit 8 V), ucast V] =
      [word_of_nat (v div 65536), word_of_nat (v div 256), word_of_nat v :: u8]"
    unfolding ucast_drop by (simp only: ucast_low V)
  finally show ?thesis .
qed

lemma take_3: "take 3 [a, b, c] = [a, b, c]" "take 2 [a, b, c] = [a, b]" "take 1 [a, b, c] = [a]"
  by simp_all

lemma decode_quad_full:
  assumes "v < 16777216"
  shows "base64_decode_quad (b64_char (v div 262144) # b64_char (v div 4096) # b64_char (v div 64) # b64_char v # r) =
    Some [word_of_nat (v div 65536), word_of_nat (v div 256), word_of_nat v]"
proof -
  note q = decode_quad_val [OF bin_of_b64_char_valid bin_of_b64_char_valid bin_of_b64_char_valid
      bin_of_b64_char_valid quad_value_chars [OF assms] b64_char_not_pad b64_char_not_pad]
  show ?thesis by (rule trans [OF q]) (simp_all only: b64_char_not_pad if_False take_3)
qed

lemma pad_valid: "base64_ascii_to_bin 61 \<noteq> 0xff"
  by (simp add: bin_of_pad)

lemma decode_quad_pad1:
  assumes "v < 16777216" "v mod 64 = 0"
  shows "base64_decode_quad (b64_char (v div 262144) # b64_char (v div 4096) # b64_char (v div 64) # 61 # r) =
    Some [word_of_nat (v div 65536), word_of_nat (v div 256)]"
proof -
  note q = decode_quad_val [OF bin_of_b64_char_valid bin_of_b64_char_valid bin_of_b64_char_valid
      pad_valid quad_value_chars [OF assms(1), unfolded b64_char_0 [OF assms(2)], folded bin_of_pad]
      b64_char_not_pad b64_char_not_pad]
  show ?thesis by (rule trans [OF q]) (simp_all only: b64_char_not_pad if_False if_True take_3 simp_thms)
qed

lemma decode_quad_pad2:
  assumes "v < 16777216" "v mod 4096 = 0"
  shows "base64_decode_quad (b64_char (v div 262144) # b64_char (v div 4096) # 61 # 61 # r) =
    Some [word_of_nat (v div 65536)]"
proof -
  have e: "v = v div 4096 * 4096" using assms(2) by (metis add.right_neutral div_mult_mod_eq)
  define u where "u = v div 4096"
  have "v = u * 64 * 64" using e by (simp only: u_def)
  then have m: "v mod 64 = 0" "v div 64 mod 64 = 0" by simp_all
  note q = decode_quad_val [OF bin_of_b64_char_valid bin_of_b64_char_valid pad_valid pad_valid
      quad_value_chars [OF assms(1), unfolded b64_char_0 [OF m(1)] b64_char_0 [OF m(2)], folded bin_of_pad]
      b64_char_not_pad b64_char_not_pad]
  show ?thesis by (rule trans [OF q]) (simp_all only: if_True take_3 simp_thms)
qed


lemma b64_rec: "bs \<noteq> [] \<Longrightarrow> b64 bs = b64 (take 3 bs) @ b64 (drop 3 bs)"
  by (cases bs rule: b64.cases) (simp_all add: Let_def)

lemma decode_quad_group:
  assumes "g \<noteq> []" "length g \<le> 3"
  shows "base64_decode_quad (b64 g @ r) = Some g"
proof -
  have e: "(word_of_nat (v div 65536) :: u8) = x" if "v = unat x * 65536 + w" "w < 65536" for v w and x :: u8
    using that by simp
  have m: "(word_of_nat (v div 256) :: u8) = y" if "v = unat x * 65536 + (unat y * 256 + w)" "w < 256"
    for v w and x y :: u8
  proof -
    have "v div 256 = unat x * 256 + unat y" using that by simp
    then show ?thesis by (simp add: word_unat_eq_iff unat_u8_of_nat del: of_nat_add)
  qed
  consider x where "g = [x]" | x y where "g = [x, y]" | x y z where "g = [x, y, z]"
    using assms by (cases g rule: b64.cases) auto
  then show ?thesis
  proof cases
    case (1 x)
    define v where "v = unat x * 65536"
    have "v < 16777216" "v mod 4096 = 0" using u8_lt [of x] by (simp_all add: v_def)
    from decode_quad_pad2 [OF this] e [of v x 0] show ?thesis by (simp add: 1 Let_def v_def)
  next
    case (2 x y)
    define v where "v = unat x * 65536 + unat y * 256"
    have "v = (unat x * 1024 + unat y * 4) * 64" by (simp add: v_def)
    then have "v mod 64 = 0" by simp
    moreover have "v < 16777216" unfolding v_def using u8_lt [of x] u8_lt [of y] by linarith
    ultimately have "base64_decode_quad (b64 g @ r) = Some [word_of_nat (v div 65536), word_of_nat (v div 256)]"
      by (simp add: 2 Let_def v_def [symmetric] decode_quad_pad1)
    also have "unat y * 256 < 65536" using u8_lt [of y] by linarith
    then have "(word_of_nat (v div 65536) :: u8) = x" by (intro e) (simp_all only: v_def)
    moreover have "(word_of_nat (v div 256) :: u8) = y" by (rule m [of _ x _ 0]) (simp_all add: v_def)
    ultimately show ?thesis by (simp only: 2)
  next
    case (3 x y z)
    define v where "v = unat x * 65536 + (unat y * 256 + unat z)"
    have l: "unat y * 256 + unat z < 65536" using u8_lt [of y] u8_lt [of z] by linarith
    have "v < 16777216" unfolding v_def using u8_lt [of x] l by linarith
    then have "base64_decode_quad (b64 g @ r) =
        Some [word_of_nat (v div 65536), word_of_nat (v div 256), word_of_nat v]"
      by (simp add: 3 Let_def v_def [symmetric] decode_quad_full)
    also have "(word_of_nat (v div 65536) :: u8) = x" using l by (intro e) (simp_all only: v_def)
    also have "(word_of_nat (v div 256) :: u8) = y"
      by (rule m [of _ x _ "unat z"]) (simp_all only: v_def u8_lt)
    also have "(word_of_nat v :: u8) = z"
    proof -
      have "v = (unat x * 256 + unat y) * 256 + unat z" by (simp add: v_def)
      then have "v mod 256 = unat z mod 256" by (simp only: mod_mult_self3)
      then have "v mod 256 = unat z" using u8_lt [of z] by simp
      then show ?thesis by (simp only: word_unat_eq_iff unat_u8_of_nat)
    qed
    finally show ?thesis by (simp only: 3)
  qed
qed

lemma length_b64_group: "g \<noteq> [] \<Longrightarrow> length g \<le> 3 \<Longrightarrow> length (b64 g) = 4"
  by (cases g rule: b64.cases) (auto simp: Let_def)

lemma b64_Nil_iff [simp]: "b64 bs = [] \<longleftrightarrow> bs = []"
  by (cases bs rule: b64.cases) (simp_all add: Let_def)

lemma decode_quads_b64:
  "decode_quads (pre @ b64 bs @ post) (length pre + length (b64 bs)) (length pre) = Some bs"
proof (induction "length bs" arbitrary: pre bs rule: less_induct)
  case less
  show ?case
  proof (cases "bs = []")
    case True
    then show ?thesis by (simp add: decode_quads.simps)
  next
    case False
    define g h where "g = take 3 bs" and "h = drop 3 bs"
    have g: "g \<noteq> []" "length g \<le> 3" "bs = g @ h" "b64 bs = b64 g @ b64 h"
      using False b64_rec [OF False] by (simp_all add: g_def h_def)
    have l: "length (b64 g) = 4" by (rule length_b64_group) (fact g)+
    have d: "base64_decode_quad (b64 bs @ post) = Some g" by (simp add: g(4) decode_quad_group [OF g(1,2)])
    have "length h < length bs" using g by simp
    from less [OF this, of "pre @ b64 g"]
    have IH: "decode_quads (pre @ b64 bs @ post) (length pre + length (b64 bs)) (length pre + 4) = Some h"
      by (simp add: g(4) l add.assoc)
    have lb: "length (b64 bs) = 4 + length (b64 h)" by (simp add: g(4) l)
    have "h = [] \<or> length g = 3" by (simp add: g_def h_def) arith
    then have "decode_quads (pre @ b64 bs @ post) (length pre + length (b64 bs)) (length pre) =
        map_option ((@) g) (decode_quads (pre @ b64 bs @ post) (length pre + length (b64 bs)) (length pre + 4))"
      by (subst decode_quads.simps) (auto simp: d lb)
    then show ?thesis by (simp only: IH option.map g(3) [symmetric])
  qed
qed

lemma length_b64_mod: "length (b64 bs) mod 4 = 0"
  by (simp add: length_b64)

lemma DecodeBase64_b64:
  assumes "length (b64 bs) div 4 * 3 \<le> max_out"
  shows "EVP_DecodeBase64 max_out (b64 bs @ post) (length (b64 bs)) = Some bs"
  using assms decode_quads_b64 [of "[]" bs post]
  by (simp add: EVP_DecodeBase64_def EVP_DecodedLength_def length_b64_mod)

lemma EncodeBlock_b64:
  assumes "(n + 2) div 3 * 4 < SIZE_LIMIT" "n \<le> length src"
  shows "EVP_EncodeBlock src n = (b64 (take n src) @ [0], length (b64 (take n src)))"
  using assms encode_loop_b64 [of n src 0]
  by (simp add: EVP_EncodeBlock_def length_b64 min_absorb2)

lemma trim_front_eq:
  assumes "\<forall>c\<in>set pre. c = 32 \<or> c = 9" "n = length src" "src = [] \<or> (hd src \<noteq> 32 \<and> hd src \<noteq> 9)"
  shows "trim_front (pre @ src) (length pre + n) = (src, n)"
  using assms
proof (induction pre)
  case Nil
  then show ?case by (cases src) auto
qed auto

lemma trim_back_eq:
  assumes "\<forall>c\<in>set post. c = 32 \<or> c = 9 \<or> c = 13 \<or> c = 10"
    "src = [] \<or> last src \<notin> {32, 9, 13, 10}"
  shows "trim_back (src @ post) (length src + length post) = length src"
  using assms
proof (induction post rule: rev_induct)
  case Nil
  show ?case
  proof (cases src rule: rev_cases)
    case (snoc s c)
    with Nil show ?thesis by (simp add: nth_append)
  qed simp
next
  case (snoc c post)
  have n: "(src @ post @ [c]) ! (length src + length post) = c" by (simp add: nth_append)
  have t: "trim_back (src @ post @ [c]) k = trim_back (src @ post) k" if "k \<le> length src + length post" for k
    using that
  proof (induction k)
    case (Suc k)
    then have "((src @ post) @ [c]) ! k = (src @ post) ! k" by (subst nth_append) simp
    with Suc show ?case by simp
  qed simp
  from snoc n t [of "length src + length post"] show ?case by simp
qed

lemma b64_chars: "c \<in> set (b64 bs) \<Longrightarrow> c \<in> set b64_alphabet \<or> c = 61"
  by (induction bs rule: b64.induct) (auto simp: Let_def b64_char_alphabet)

lemma b64_not_blank: "c \<in> set (b64 bs) \<Longrightarrow> c \<notin> {32, 9, 13, 10}"
  using b64_chars [of c bs] by (auto simp: b64_alphabet_iff)

lemma length_b64_bound: "length bs \<le> length (b64 bs) div 4 * 3"
  by (simp add: length_b64)

lemma pad_of_b64:
  "bs @ replicate ((3 - length bs mod 3) mod 3) 0 = take ((length bs + 2) div 3 * 3) (bs @ [0, 0])"
  "length bs + (3 - length bs mod 3) mod 3 = (length bs + 2) div 3 * 3"
proof -
  define q r where "q = length bs div 3" and "r = length bs mod 3"
  have l: "length bs = 3 * q + r" "r < 3" by (simp_all add: q_def r_def)
  consider "r = 0" | "r = 1" | "r = 2" using l(2) by arith
  then have "(length bs + 2) div 3 * 3 = length bs + (3 - r) mod 3 \<and>
      ((3 - r) mod 3 = 0 \<or> (3 - r) mod 3 = 1 \<or> (3 - r) mod 3 = 2)"
    by cases (simp_all add: l(1))
  then show "bs @ replicate ((3 - length bs mod 3) mod 3) 0 = take ((length bs + 2) div 3 * 3) (bs @ [0, 0])"
    "length bs + (3 - length bs mod 3) mod 3 = (length bs + 2) div 3 * 3"
    by (auto simp: r_def [symmetric] numeral_2_eq_2)
qed

lemma trim_blank:
  assumes "\<forall>c\<in>set xs. c = 32 \<or> c = 9 \<or> c = 13 \<or> c = 10" "trim_front xs (length xs) = (s, k)"
  shows "trim_back s k = 0"
proof -
  have d: "\<exists>j. trim_front ys (length ys) = (drop j ys, length ys - j)" for ys
  proof (induction ys)
    case (Cons y ys)
    then obtain j where "trim_front ys (length ys) = (drop j ys, length ys - j)" by blast
    then have "trim_front (y # ys) (length (y # ys)) = (y # ys, length (y # ys)) \<or>
        trim_front (y # ys) (length (y # ys)) = (drop (Suc j) (y # ys), length (y # ys) - Suc j)" by simp
    then show ?case by (metis drop0 minus_nat.diff_0)
  qed simp
  obtain j where "trim_front xs (length xs) = (drop j xs, length xs - j)" using d [of xs] by blast
  with assms(2) have "s = drop j xs" "k = length s" by auto
  with trim_back_eq [of s "[]"] assms(1) show ?thesis by (auto dest: in_set_dropD)
qed

text \<open>One-shot base64: the encoder writes the base 64 digits of the input in groups of three bytes
  and a zero byte, and returns the number of characters; \<open>EVP_EncodedLength\<close> is exactly the room
  that takes, or fails when a \<open>size_t\<close> cannot hold it; and both decoders give the input back, the
  lenient one from among blanks and with zeros for the padding.\<close>

theorem base64_block_round_trip:
  assumes "n = length bs" "(n + 2) div 3 * 4 + 1 < SIZE_LIMIT"
    and "\<forall>c\<in>set pre. c = 32 \<or> c = 9" "\<forall>c\<in>set post. c = 32 \<or> c = 9 \<or> c = 13 \<or> c = 10"
  shows "EVP_EncodeBlock bs n = (b64 bs @ [0], length (b64 bs)) \<and>
    EVP_EncodedLength n = Some (length (b64 bs) + 1) \<and>
    EVP_DecodeBase64 ((n + 2) div 3 * 3) (b64 bs) (length (b64 bs)) = Some bs \<and>
    ((n + 2) div 3 * 3 \<le> INT_MAX_nat \<longrightarrow>
     EVP_DecodeBlock (pre @ b64 bs @ post) (length (pre @ b64 bs @ post)) =
       Some (take ((n + 2) div 3 * 3) (bs @ [0, 0]), (n + 2) div 3 * 3))"
proof (intro conjI impI)
  define m where "m = (n + 2) div 3"
  have l: "length (b64 bs) = m * 4" by (simp add: length_b64 assms(1) m_def)
  have m: "m * 4 + 1 < SIZE_LIMIT" using assms(2) by (simp only: m_def)
  show "EVP_EncodeBlock bs n = (b64 bs @ [0], length (b64 bs))"
    using EncodeBlock_b64 [of n bs] assms(1,2) by simp
  have nn: "n + 2 < SIZE_LIMIT"
  proof -
    have "n + 2 \<le> m * 3 + 2" unfolding m_def by arith
    then show ?thesis using m by simp
  qed
  have "EVP_EncodedLength n = Some (m * 4 + 1)"
  proof -
    have a: "sz_add n 2 = n + 2" using nn by (rule sz_add_small)
    have "m * 4 mod SIZE_LIMIT = m * 4" using m by (intro mod_less) simp
    moreover have "sz_add (m * 4) 1 = m * 4 + 1" using m by (rule sz_add_small)
    moreover have "m * 4 div 4 = m" by simp
    ultimately show ?thesis unfolding EVP_EncodedLength_def Let_def a m_def [symmetric] by (simp only:) simp
  qed
  then show "EVP_EncodedLength n = Some (length (b64 bs) + 1)" by (simp only: l)
  show d: "EVP_DecodeBase64 ((n + 2) div 3 * 3) (b64 bs) (length (b64 bs)) = Some bs"
    using DecodeBase64_b64 [of bs "(n + 2) div 3 * 3" "[]"] by (simp add: l m_def)
  assume i: "(n + 2) div 3 * 3 \<le> INT_MAX_nat"
  let ?b = "b64 bs"
  obtain src k where f: "trim_front (pre @ ?b @ post) (length (pre @ ?b @ post)) = (src, k)" by fastforce
  have t: "trim_back src k = length ?b \<and> (bs = [] \<or> src = ?b @ post)"
  proof (cases "bs = []")
    case True
    then show ?thesis using trim_blank [OF _ f] assms(3,4) by auto
  next
    case False
    then have "trim_front (pre @ ?b @ post) (length (pre @ ?b @ post)) = (?b @ post, length (?b @ post))"
      using trim_front_eq [OF assms(3), of "length (?b @ post)" "?b @ post"] b64_not_blank [of "hd ?b" bs] by auto
    with f show ?thesis
      using trim_back_eq [OF assms(4), of ?b] b64_not_blank [of "last ?b" bs] False by auto
  qed
  then have "EVP_DecodeBase64 (m * 3) src (m * 4) = Some bs"
    using DecodeBase64_b64 [of bs "m * 3" post] DecodeBase64_b64 [of "[]" "m * 3" src] l by auto
  then have "EVP_DecodeBlock (pre @ ?b @ post) (length (pre @ ?b @ post)) =
      Some (bs @ replicate ((3 - length bs mod 3) mod 3) 0, length bs + (3 - length bs mod 3) mod 3)"
    unfolding EVP_DecodeBlock_def f using t i [folded m_def]
    by (simp add: EVP_DecodedLength_def l Let_def)
  then show "EVP_DecodeBlock (pre @ ?b @ post) (length (pre @ ?b @ post)) =
      Some (take ((n + 2) div 3 * 3) (bs @ [0, 0]), (n + 2) div 3 * 3)"
    by (simp only: pad_of_b64 assms(1))
qed

theorem base64_block_round_trip_witness:
  "EVP_EncodeBlock [77, 97] 2 = ([84, 87, 69, 61, 0], 4) \<and> EVP_EncodedLength 2 = Some 5 \<and>
   EVP_DecodeBlock [32, 84, 87, 69, 61, 13, 10] 7 = Some ([77, 97, 0], 3)"
proof -
  have h: "(2 :: nat) = length [77 :: u8, 97]" "((2 :: nat) + 2) div 3 * 4 + 1 < SIZE_LIMIT"
    "\<forall>c\<in>set [32 :: u8]. c = 32 \<or> c = 9" "\<forall>c\<in>set [13 :: u8, 10]. c = 32 \<or> c = 9 \<or> c = 13 \<or> c = 10"
    by simp_all
  have e: "b64 [77, 97] = [84, 87, 69, 61]" by (simp add: b64_char_def b64_alphabet_def)
  have l: "length ([32] @ [84, 87, 69, 61] @ [13, 10 :: u8]) = 7" "length [84 :: u8, 87, 69, 61] = 4"
    "((2 :: nat) + 2) div 3 * 3 = 3" "take 3 ([77, 97] @ [0, 0]) = [77, 97, 0 :: u8]" by simp_all
  note p = base64_block_round_trip [OF h, unfolded e l]
  show ?thesis
  proof (intro conjI)
    show "EVP_EncodeBlock [77, 97] 2 = ([84, 87, 69, 61, 0], 4)" using p [THEN conjunct1] by simp
    show "EVP_EncodedLength 2 = Some 5" using p [THEN conjunct2, THEN conjunct1] by simp
    show "EVP_DecodeBlock [32, 84, 87, 69, 61, 13, 10] 7 = Some ([77, 97, 0], 3)"
      using p [THEN conjunct2, THEN conjunct2, THEN conjunct2] by simp
  qed
qed

end
