(* ===== verification/Base64_Stream.thy ===== *)
theory Base64_Stream
  imports Base64
begin

text \<open>
  The streaming base64 encoder and decoder: however the input is cut into pieces, the encoder writes
  the same lines and the decoder gives back what was encoded.
\<close>

section \<open>The encoder\<close>

text \<open>The lines of a text: 48 bytes each, the last one possibly shorter.\<close>

function b64_lines :: "u8 list \<Rightarrow> u8 list" where
  "b64_lines bs = (if bs = [] then [] else b64 (take 48 bs) @ 10 # b64_lines (drop 48 bs))"
  by pat_completeness auto
termination by (relation "measure length") auto

declare b64_lines.simps [simp del]

lemma b64_lines_Nil [simp]: "b64_lines [] = []"
  by (simp add: b64_lines.simps)

lemma b64_lines_line: "length l = 48 \<Longrightarrow> b64_lines (l @ bs) = b64 l @ 10 # b64_lines bs"
  by (subst b64_lines.simps) (auto simp: b64_lines.simps [of bs])

lemma b64_lines_short: "p \<noteq> [] \<Longrightarrow> length p < 48 \<Longrightarrow> b64_lines p = b64 p @ [10]"
  by (subst b64_lines.simps) simp

definition whole_lines :: "u8 list \<Rightarrow> u8 list" where
  "whole_lines bs = take (length bs div 48 * 48) bs"

definition rest_of_line :: "u8 list \<Rightarrow> u8 list" where
  "rest_of_line bs = drop (length bs div 48 * 48) bs"

lemma whole_rest: "whole_lines bs @ rest_of_line bs = bs"
  by (simp add: whole_lines_def rest_of_line_def)

lemma length_rest: "length (rest_of_line bs) = length bs mod 48"
  by (simp add: rest_of_line_def minus_div_mult_eq_mod)

lemma rest_dvd: "48 dvd length bs \<Longrightarrow> rest_of_line bs = []"
  using length_rest [of bs] by (simp add: dvd_eq_mod_eq_0)

lemma length_whole: "length (whole_lines bs) = length bs div 48 * 48"
  by (simp add: whole_lines_def min_absorb2)

lemma whole_short: "length bs < 48 \<Longrightarrow> whole_lines bs = [] \<and> rest_of_line bs = bs"
  by (simp add: whole_lines_def rest_of_line_def)

lemma whole_append:
  assumes "length u mod 48 = 0"
  shows "whole_lines (u @ v) = u @ whole_lines v" "rest_of_line (u @ v) = rest_of_line v"
proof -
  obtain q where q: "length u = q * 48" using assms by (metis mod_0_imp_dvd dvd_def mult.commute)
  have "(q * 48 + length v) div 48 * 48 = q * 48 + length v div 48 * 48" by simp
  then show "whole_lines (u @ v) = u @ whole_lines v" "rest_of_line (u @ v) = rest_of_line v"
    by (simp_all only: whole_lines_def rest_of_line_def length_append q) (simp_all add: q)
qed

lemma b64_lines_append:
  assumes "length u mod 48 = 0"
  shows "b64_lines (u @ v) = b64_lines u @ b64_lines v"
  using assms
proof (induction u rule: b64_lines.induct)
  case (1 u)
  show ?case
  proof (cases "u = []")
    case False
    with "1.prems" have "48 \<le> length u" by (cases "length u < 48") simp_all
    then obtain l w where u: "u = l @ w" "length l = 48"
      by (metis append_take_drop_id length_take min_absorb2)
    then have "length w mod 48 = 0" using "1.prems" by simp
    with 1 False u have "b64_lines (w @ v) = b64_lines w @ b64_lines v" by simp
    then show ?thesis by (simp add: u b64_lines_line)
  qed simp
qed

lemma encode_line_eq:
  assumes "48 \<le> length block"
  shows "encode_line block = (b64 (take 48 block) @ [10], 64)"
  using EncodeBlock_b64 [of 48 block] assms by (simp add: encode_line_def length_b64)

lemma encode_lines_eq:
  assumes "tot + length inn div 48 * 65 < SIZE_LIMIT"
  shows "encode_lines inn (length inn) tot =
    (b64_lines (whole_lines inn), rest_of_line inn, length (rest_of_line inn), Some (tot + length inn div 48 * 65))"
  using assms
proof (induction "length inn" arbitrary: inn tot rule: less_induct)
  case less
  show ?case
  proof (cases "48 \<le> length inn")
    case False
    then show ?thesis by (simp add: encode_lines.simps whole_short)
  next
    case True
    then obtain l w where u: "inn = l @ w" "length l = 48"
      by (metis append_take_drop_id length_take min_absorb2)
    have c: "length inn div 48 = Suc (length w div 48)" by (simp add: u)
    have c': "(48 + length w) div 48 = Suc (length w div 48)" by simp
    have b: "tot + 65 + length w div 48 * 65 < SIZE_LIMIT" using less.prems unfolding c by simp
    have s: "sz_add 64 1 = 65" "sz_add tot 64 = tot + 64" "sz_add (tot + 64) 1 = tot + 65" "sz_add tot 65 = tot + 65"
      "sz_add 64 (Suc 0) = 65" "sz_add (tot + 64) (Suc 0) = tot + 65"
      using b by (simp_all add: sz_add_def)
    have "length w < length inn" by (simp add: u)
    from less.hyps [OF this b] have IH: "encode_lines w (length w) (tot + 65) =
      (b64_lines (whole_lines w), rest_of_line w, length (rest_of_line w), Some (tot + 65 + length w div 48 * 65))" .
    have "encode_lines inn (length inn) tot =
      (b64 l @ [10] @ b64_lines (whole_lines w), rest_of_line w, length (rest_of_line w), Some (tot + 65 + length w div 48 * 65))"
      by (subst encode_lines.simps) (simp add: encode_line_eq u IH s Let_def)
    then show ?thesis by (simp add: u(1) whole_append u(2) b64_lines_line c')
  qed
qed

text \<open>The state between two calls: \<open>p\<close> is the part of a line seen so far.\<close>

definition enc_inv :: "evp_encode_ctx \<Rightarrow> u8 list \<Rightarrow> bool" where
  "enc_inv ctx p \<longleftrightarrow>
    data_used ctx = length p \<and> length p < 48 \<and> length (ctx_data ctx) = 48 \<and> take (length p) (ctx_data ctx) = p"

lemma enc_inv_init: "enc_inv EVP_EncodeInit []"
  by (simp add: enc_inv_def EVP_EncodeInit_def)

lemma EncodeUpdate_eq:
  assumes inv: "enc_inv ctx p" and b: "length (p @ c) div 48 * 65 \<le> INT_MAX_nat"
  shows "\<exists>ctx'. EVP_EncodeUpdate ctx c (length c) =
      (b64_lines (whole_lines (p @ c)), length (p @ c) div 48 * 65, ctx') \<and> enc_inv ctx' (rest_of_line (p @ c))"
proof -
  have p: "data_used ctx = length p" "length p < 48" "length (ctx_data ctx) = 48" "take (length p) (ctx_data ctx) = p"
    using inv by (simp_all add: enc_inv_def)
  consider (short) "length (p @ c) < 48" | (aligned) "p = []" "48 \<le> length c" | (line) "p \<noteq> []" "48 \<le> length (p @ c)"
    by fastforce
  then show ?thesis
  proof cases
    case short
    then show ?thesis using p by (auto simp: EVP_EncodeUpdate_def whole_short enc_inv_def)
  next
    case aligned
    have "0 + length c div 48 * 65 < SIZE_LIMIT" using b aligned(1) by simp
    note e = encode_lines_eq [OF this]
    show ?thesis using p b aligned
      by (auto simp: EVP_EncodeUpdate_def e enc_inv_def Let_def length_rest rest_dvd)
  next
    case line
    define todo where "todo = 48 - length p"
    define l where "l = p @ take todo c"
    define w where "w = drop todo c"
    have c: "p @ c = l @ w" "length l = 48" "length w = length c - todo" "todo \<le> length c"
      using line(2) p(2) by (simp_all add: l_def w_def todo_def)
    have t: "length (p @ c) div 48 = Suc (length w div 48)" unfolding c(1) using c(2) by simp
    have "65 + length w div 48 * 65 < SIZE_LIMIT" using b unfolding t by simp
    note e = encode_lines_eq [OF this]
    have s: "sz_add 64 1 = 65" "sz_add 64 (Suc 0) = 65" by (simp_all add: sz_add_def)
    have u: "EVP_EncodeUpdate ctx c (length c) = (b64 l @ [10] @ b64_lines (whole_lines w), 65 + length w div 48 * 65,
        ctx\<lparr>ctx_data := rest_of_line w @ drop (length w mod 48) l, data_used := length w mod 48\<rparr>)"
    proof -
      have f: "length c \<noteq> 0" "\<not> 48 - length p > length c" "length p \<noteq> 0" "length c - todo = length w"
        using line p(2) c(3) by auto
      have d: "take (length p) (ctx_data ctx) @ take todo c = l" by (simp add: p l_def)
      have b': "\<not> INT_MAX_nat < 65 + length w div 48 * 65" using b unfolding t by simp
      have n: "length l = 48" "take 48 l = l" using c(2) by simp_all
      show ?thesis unfolding EVP_EncodeUpdate_def p(1)
        using f b' by (simp add: Let_def d encode_line_eq n todo_def [symmetric] w_def [symmetric] e s length_rest rest_dvd
          rest_dvd [unfolded dvd_eq_mod_eq_0])
    qed
    have c': "(48 + length w) div 48 = Suc (length w div 48)" by simp
    show ?thesis unfolding u using c(2)
      by (auto simp: c' c(1) t [unfolded c(1)] whole_append b64_lines_line enc_inv_def length_rest simp del: append_assoc)
  qed
qed

lemma EncodeFinal_eq:
  assumes "enc_inv ctx p"
  shows "(case EVP_EncodeFinal ctx of (out, n, ctx') \<Rightarrow> take n out) = b64_lines p"
proof (cases "p = []")
  case False
  have "length p + 2 < 51" using assms by (simp add: enc_inv_def)
  then have "(length p + 2) div 3 * 4 < SIZE_LIMIT" by simp
  with assms False EncodeBlock_b64 [of "length p" "ctx_data ctx"] show ?thesis
    by (simp add: EVP_EncodeFinal_def enc_inv_def b64_lines_short)
qed (use assms in \<open>simp add: EVP_EncodeFinal_def enc_inv_def\<close>)

text \<open>A caller that encodes its input in pieces and keeps \<open>*out_len\<close> bytes of each call.\<close>

fun encode_pieces :: "evp_encode_ctx \<Rightarrow> u8 list list \<Rightarrow> u8 list \<times> evp_encode_ctx" where
  "encode_pieces ctx [] = ([], ctx)"
| "encode_pieces ctx (c # cs) =
    (let (out, n, ctx) = EVP_EncodeUpdate ctx c (length c); (rest, ctx) = encode_pieces ctx cs
     in (take n out @ rest, ctx))"

definition encode_stream :: "u8 list list \<Rightarrow> u8 list" where
  "encode_stream cs =
    (let (out, ctx) = encode_pieces EVP_EncodeInit cs; (end, n, ctx) = EVP_EncodeFinal ctx in out @ take n end)"

lemma length_b64_lines:
  "length bs mod 48 = 0 \<Longrightarrow> length (b64_lines bs) = length bs div 48 * 65"
proof (induction bs rule: b64_lines.induct)
  case (1 bs)
  show ?case
  proof (cases "bs = []")
    case False
    with "1.prems" have "48 \<le> length bs" by (cases "length bs < 48") simp_all
    then obtain l w where u: "bs = l @ w" "length l = 48"
      by (metis append_take_drop_id length_take min_absorb2)
    have "(48 + length w) div 48 = Suc (length w div 48)" by simp
    with 1 False u show ?thesis by (simp add: b64_lines_line length_b64)
  qed simp
qed

lemma encode_pieces_eq:
  assumes "enc_inv ctx p" "length (p @ concat cs) div 48 * 65 \<le> INT_MAX_nat"
  shows "\<exists>ctx'. encode_pieces ctx cs = (b64_lines (whole_lines (p @ concat cs)), ctx') \<and>
    enc_inv ctx' (rest_of_line (p @ concat cs))"
  using assms
proof (induction cs arbitrary: ctx p)
  case Nil
  then have "length p < 48" by (simp add: enc_inv_def)
  with Nil show ?case by (simp add: whole_short)
next
  case (Cons c cs)
  let ?w = "whole_lines (p @ c)" and ?r = "rest_of_line (p @ c)"
  have m: "length ?w mod 48 = 0" by (simp add: length_whole)
  have e: "p @ concat (c # cs) = ?w @ (?r @ concat cs)" using whole_rest [of "p @ c"] by simp
  have "length (p @ c) div 48 \<le> length (p @ concat (c # cs)) div 48" by (intro div_le_mono) simp
  then have "length (p @ c) div 48 * 65 \<le> INT_MAX_nat" using Cons.prems(2) by linarith
  from EncodeUpdate_eq [OF Cons.prems(1) this] obtain ctx1 where
    u: "EVP_EncodeUpdate ctx c (length c) = (b64_lines ?w, length (p @ c) div 48 * 65, ctx1)" "enc_inv ctx1 ?r"
    by blast
  have "length (?r @ concat cs) div 48 \<le> length (p @ concat (c # cs)) div 48"
    unfolding e by (intro div_le_mono) simp
  then have "length (?r @ concat cs) div 48 * 65 \<le> INT_MAX_nat" using Cons.prems(2) by linarith
  from Cons.IH [OF u(2) this] obtain ctx2 where
    i: "encode_pieces ctx1 cs = (b64_lines (whole_lines (?r @ concat cs)), ctx2)"
      "enc_inv ctx2 (rest_of_line (?r @ concat cs))" by blast
  have "length (b64_lines ?w) = length (p @ c) div 48 * 65"
    using length_b64_lines [OF m] by (simp add: length_whole)
  with i(2) show ?case
    unfolding e whole_append [OF m] b64_lines_append [OF m] by (simp add: u i Let_def del: length_append)
qed

lemma encode_stream_lines:
  assumes "length (concat cs) div 48 * 65 \<le> INT_MAX_nat"
  shows "encode_stream cs = b64_lines (concat cs)"
proof -
  have "length ([] @ concat cs) div 48 * 65 \<le> INT_MAX_nat" using assms by simp
  from encode_pieces_eq [OF enc_inv_init this] obtain ctx where
    e: "encode_pieces EVP_EncodeInit cs = (b64_lines (whole_lines (concat cs)), ctx)"
      "enc_inv ctx (rest_of_line (concat cs))" by auto
  have "length (whole_lines (concat cs)) mod 48 = 0" by (simp add: length_whole)
  from b64_lines_append [OF this, of "rest_of_line (concat cs)"]
  have "b64_lines (concat cs) = b64_lines (whole_lines (concat cs)) @ b64_lines (rest_of_line (concat cs))"
    by (simp only: whole_rest)
  then show ?thesis
    using EncodeFinal_eq [OF e(2)] by (simp add: encode_stream_def e(1) Let_def split_beta)
qed

section \<open>The decoder\<close>

lemma decode_loop_append:
  "decode_loop ctx (xs @ ys) =
    (case decode_loop ctx xs of
       (out, True, c) \<Rightarrow> (out, True, c)
     | (out, False, c) \<Rightarrow> (case decode_loop c ys of (out', f, c') \<Rightarrow> (out @ out', f, c')))"
proof (induction ctx xs rule: decode_loop.induct)
  case (2 ctx c inn)
  then show ?case
    by (auto simp: Let_def split: option.splits prod.splits bool.splits)
qed (simp split: prod.splits)

lemma decode_loop_no_error:
  "decode_loop ctx xs = (out, False, c) \<Longrightarrow> error_encountered c = error_encountered ctx"
proof (induction ctx xs arbitrary: out rule: decode_loop.induct)
  case (2 ctx c inn)
  then show ?case by (auto simp: Let_def split: option.splits prod.splits if_splits)
qed simp

definition dec_inv :: "evp_encode_ctx \<Rightarrow> bool \<Rightarrow> bool" where
  "dec_inv ctx e \<longleftrightarrow>
    data_used ctx = 0 \<and> eof_seen ctx = e \<and> 4 \<le> length (ctx_data ctx) \<and> \<not> error_encountered ctx"

lemma decode_group:
  assumes "g \<noteq> []" "length g \<le> 3" "dec_inv ctx False"
  shows "\<exists>ctx'. decode_loop ctx (b64 g) = (g, False, ctx') \<and> dec_inv ctx' (length g < 3)"
proof -
  have "length (b64 g) = 4" by (rule length_b64_group) (fact assms)+
  then obtain a b c d where q: "b64 g = [a, b, c, d]"
    by (auto simp: numeral_eq_Suc length_Suc_conv)
  have nb: "a \<notin> {32, 9, 13, 10}" "b \<notin> {32, 9, 13, 10}" "c \<notin> {32, 9, 13, 10}" "d \<notin> {32, 9, 13, 10}"
    by (rule b64_not_blank [of _ g]; simp add: q)+
  from assms(3) obtain w x y z r where l: "ctx_data ctx = w # x # y # z # r"
    by (auto simp: dec_inv_def numeral_eq_Suc Suc_le_length_iff)
  have dq: "base64_decode_quad (a # b # c # d # r) = Some g"
    using decode_quad_group [OF assms(1,2), of r] by (simp add: q)
  show ?thesis using assms(3) nb
    by (simp add: q dec_inv_def l dq Let_def)
qed

lemma decode_b64:
  assumes "dec_inv ctx False"
  shows "\<exists>ctx'. decode_loop ctx (b64 bs) = (bs, False, ctx') \<and> dec_inv ctx' (length bs mod 3 \<noteq> 0)"
  using assms
proof (induction "length bs" arbitrary: bs ctx rule: less_induct)
  case less
  show ?case
  proof (cases "bs = []")
    case False
    define g h where "g = take 3 bs" and "h = drop 3 bs"
    have g: "g \<noteq> []" "length g \<le> 3" "b64 bs = b64 g @ b64 h" "bs = g @ h" "length g < 3 \<Longrightarrow> h = []"
      using False b64_rec [OF False] by (auto simp: g_def h_def)
    from decode_group [OF g(1,2) less.prems] obtain c1 where
      c1: "decode_loop ctx (b64 g) = (g, False, c1)" "dec_inv c1 (length g < 3)" by blast
    show ?thesis
    proof (cases "length g < 3")
      case True
      with g(1,5) have "h = []" "length g mod 3 \<noteq> 0" by simp_all
      with True g(4) c1 show ?thesis by simp
    next
      case long: False
      have "length h < length bs" using False by (simp add: h_def)
      moreover have "dec_inv c1 False" using c1(2) long by simp
      ultimately obtain c2 where "decode_loop c1 (b64 h) = (h, False, c2)" "dec_inv c2 (length h mod 3 \<noteq> 0)"
        using less.hyps by blast
      moreover have "length bs mod 3 = length h mod 3" using long g(2,4) by simp
      ultimately show ?thesis
        by (simp add: g(3) decode_loop_append c1(1)) (simp add: g(4))
    qed
  qed (use less.prems in simp)
qed

lemma decode_lines:
  assumes "dec_inv ctx False"
  shows "\<exists>ctx'. decode_loop ctx (b64_lines bs) = (bs, False, ctx') \<and> dec_inv ctx' (length bs mod 3 \<noteq> 0)"
  using assms
proof (induction "length bs" arbitrary: bs ctx rule: less_induct)
  case less
  have nl: "decode_loop c [10] = ([], False, c)" for c by simp
  consider (empty) "bs = []" | (short) "bs \<noteq> []" "length bs < 48" | (long) "48 \<le> length bs" by fastforce
  then show ?case
  proof cases
    case empty
    then show ?thesis using less.prems by simp
  next
    case short
    from decode_b64 [OF less.prems, of bs] short show ?thesis
      by (auto simp: b64_lines_short decode_loop_append nl simp del: decode_loop.simps)
  next
    case long
    then obtain l w where u: "bs = l @ w" "length l = 48"
      by (metis append_take_drop_id length_take min_absorb2)
    from decode_b64 [OF less.prems, of l] u(2) obtain c1 where
      c1: "decode_loop ctx (b64 l) = (l, False, c1)" "dec_inv c1 False" by auto
    have "length w < length bs" by (simp add: u)
    from less.hyps [OF this c1(2)] obtain c2 where
      c2: "decode_loop c1 (b64_lines w) = (w, False, c2)" "dec_inv c2 (length w mod 3 \<noteq> 0)" by blast
    have "(48 + length w) mod 3 = length w mod 3" by presburger
    with c2 show ?thesis by (simp add: u b64_lines_line decode_loop_append c1(1))
  qed
qed

text \<open>A caller that decodes its input in pieces and keeps \<open>*out_len\<close> bytes of each call.\<close>

fun decode_pieces :: "evp_encode_ctx \<Rightarrow> u8 list list \<Rightarrow> u8 list \<times> evp_encode_ctx" where
  "decode_pieces ctx [] = ([], ctx)"
| "decode_pieces ctx (c # cs) =
    (let (rv, n, out, ctx) = EVP_DecodeUpdate ctx c (length c); (rest, ctx) = decode_pieces ctx cs
     in (take n out @ rest, ctx))"

lemma decode_pieces_eq:
  assumes "\<not> error_encountered ctx" "decode_loop ctx (concat cs) = (out, False, ctx')" "length out \<le> INT_MAX_nat"
  shows "decode_pieces ctx cs = (out, ctx')"
  using assms
proof (induction cs arbitrary: ctx out)
  case (Cons c cs)
  obtain o1 f c1 where d: "decode_loop ctx c = (o1, f, c1)" by (metis prod_cases3)
  with Cons.prems(2) have f: "\<not> f" by (simp add: decode_loop_append split: bool.splits)
  obtain o2 where o2: "decode_loop c1 (concat cs) = (o2, False, ctx')" "out = o1 @ o2"
    using Cons.prems(2) d f by (auto simp: decode_loop_append split: prod.splits)
  have "\<not> error_encountered c1" using decode_loop_no_error [of ctx c o1 c1] d f Cons.prems(1) by simp
  with Cons.IH [OF _ o2(1)] o2(2) Cons.prems(3) have "decode_pieces c1 cs = (o2, ctx')" by simp
  then show ?case using Cons.prems(1,3) d f o2(2) by (simp add: EVP_DecodeUpdate_def Let_def)
qed simp

text \<open>The streaming encoder refines the specification of its output by lines: for every way to
  cut the input into pieces, the calls write the base64 lines of 48 input bytes each, with a line feed
  after every line, provided no call has to report more than \<open>INT_MAX\<close> bytes.\<close>

theorem base64_encoder_writes_lines:
  assumes "length (concat cs) div 48 * 65 \<le> INT_MAX_nat"
  shows "encode_stream cs = b64_lines (concat cs)"
  by (rule encode_stream_lines) (fact assms)

theorem base64_encoder_writes_lines_witness:
  "encode_stream [[77, 97], [], [110, 77]] = [84, 87, 70, 117, 84, 81, 61, 61, 10]"
proof -
  have "length (concat [[77 :: u8, 97], [], [110, 77]]) div 48 * 65 \<le> INT_MAX_nat" by simp
  from base64_encoder_writes_lines [OF this] show ?thesis
    by (simp add: b64_lines_short b64_char_def b64_alphabet_def)
qed

text \<open>(C5) What the streaming encoder wrote, the streaming decoder reads back, however the text is
  cut again: the decoded pieces are the input and \<open>EVP_DecodeFinal\<close> reports success.\<close>

theorem base64_stream_round_trip:
  assumes "length (concat cs) div 48 * 65 \<le> INT_MAX_nat" "concat ds = encode_stream cs"
  shows "\<exists>ctx. decode_pieces EVP_DecodeInit ds = (concat cs, ctx) \<and> EVP_DecodeFinal ctx = 1"
proof -
  have i: "dec_inv EVP_DecodeInit False" by (simp add: dec_inv_def EVP_DecodeInit_def)
  from decode_lines [OF i] obtain ctx where
    d: "decode_loop EVP_DecodeInit (concat ds) = (concat cs, False, ctx)" "dec_inv ctx (length (concat cs) mod 3 \<noteq> 0)"
    unfolding assms(2) encode_stream_lines [OF assms(1)] by blast
  have "length (concat cs) div 48 * 48 + 48 \<le> INT_MAX_nat" using assms(1) by linarith
  then have "length (concat cs) \<le> INT_MAX_nat" using div_mult_mod_eq [of "length (concat cs)" 48] by linarith
  with d decode_pieces_eq [OF _ d(1)] show ?thesis
    by (auto simp: EVP_DecodeFinal_def dec_inv_def EVP_DecodeInit_def)
qed

theorem base64_stream_round_trip_witness:
  "\<exists>ctx. decode_pieces EVP_DecodeInit [[84, 87], [70, 117, 84], [81, 61, 61, 10]] = ([77, 97, 110, 77], ctx) \<and>
     EVP_DecodeFinal ctx = 1"
proof -
  have "length (concat [[77 :: u8, 97], [110, 77]]) div 48 * 65 \<le> INT_MAX_nat" by simp
  moreover from encode_stream_lines [OF this]
  have "concat [[84, 87], [70, 117, 84], [81, 61, 61, 10]] = encode_stream [[77, 97], [110, 77]]"
    by (simp add: b64_lines_short b64_char_def b64_alphabet_def)
  ultimately show ?thesis using base64_stream_round_trip by fastforce
qed

end
