(* ===== verification/Bio_Pair.thy ===== *)
theory Bio_Pair
  imports Mem "HOL-Library.Monad_Syntax"
begin

text \<open>
  \<open>crypto/bio/pair.c\<close>, two connected BIOs with a ring buffer for each direction, and the part of
  \<open>crypto/bio/bio.c\<close> that dispatches to it.

  The heap is a map from addresses to BIOs, each with the \<open>bio_bio_st\<close> its \<open>ptr\<close> owns; every BIO of the
  heap has the method \<open>methods_biop\<close>.  An operation is a partial function of the heap: its value is
  \<open>None\<close> when an assertion of the code fails, when a null or freed pointer is followed, or when a loop
  does not end.  A call that reads into a buffer gives the bytes it wrote there.
\<close>

section \<open>Data\<close>

record bio_bio_st =
  b_peer :: "nat option"
  b_closed :: bool
  b_len :: nat
  b_offset :: nat
  b_size :: nat
  b_buf :: "u8 list option"
  b_request :: nat

record bio =
  bio_init :: bool
  bio_shutdown :: int
  bio_flags :: u32
  bio_retry_reason :: int
  bio_references :: u32
  bio_ptr :: "bio_bio_st option"
  bio_next_bio :: "nat option"
  bio_num_read :: nat
  bio_num_write :: nat

type_synonym store = "nat \<Rightarrow> bio option"

abbreviation BIO_FLAGS_READ :: u32 where "BIO_FLAGS_READ \<equiv> 1"
abbreviation BIO_FLAGS_WRITE :: u32 where "BIO_FLAGS_WRITE \<equiv> 2"
abbreviation BIO_FLAGS_IO_SPECIAL :: u32 where "BIO_FLAGS_IO_SPECIAL \<equiv> 4"
abbreviation BIO_FLAGS_SHOULD_RETRY :: u32 where "BIO_FLAGS_SHOULD_RETRY \<equiv> 8"
abbreviation kRetryFlags :: u32 where
  "kRetryFlags \<equiv> BIO_FLAGS_READ OR BIO_FLAGS_WRITE OR BIO_FLAGS_IO_SPECIAL OR BIO_FLAGS_SHOULD_RETRY"

text \<open>The conversion of a \<open>size_t\<close> to \<open>int\<close>.\<close>

definition int_of_size :: "nat \<Rightarrow> int" where
  "int_of_size n = sint (word_of_nat n :: u32)"

definition upd_bio :: "nat \<Rightarrow> (bio \<Rightarrow> bio) \<Rightarrow> store \<Rightarrow> store option" where
  "upd_bio a f st = do { bio \<leftarrow> st a; Some (st(a \<mapsto> f bio)) }"

definition upd_b :: "nat \<Rightarrow> (bio_bio_st \<Rightarrow> bio_bio_st) \<Rightarrow> store \<Rightarrow> store option" where
  "upd_b a f st = do { bio \<leftarrow> st a; b \<leftarrow> bio_ptr bio; Some (st(a \<mapsto> bio\<lparr>bio_ptr := Some (f b)\<rparr>)) }"

definition get_b :: "nat \<Rightarrow> store \<Rightarrow> bio_bio_st option" where
  "get_b a st = do { bio \<leftarrow> st a; bio_ptr bio }"

section \<open>Flags (bio.c)\<close>

definition BIO_set_flags :: "bio \<Rightarrow> u32 \<Rightarrow> bio" where
  "BIO_set_flags bio flags = bio\<lparr>bio_flags := bio_flags bio OR flags\<rparr>"

definition BIO_test_flags :: "bio \<Rightarrow> u32 \<Rightarrow> u32" where
  "BIO_test_flags bio flags = bio_flags bio AND flags"

definition BIO_should_read :: "bio \<Rightarrow> u32" where
  "BIO_should_read bio = BIO_test_flags bio BIO_FLAGS_READ"

definition BIO_should_write :: "bio \<Rightarrow> u32" where
  "BIO_should_write bio = BIO_test_flags bio BIO_FLAGS_WRITE"

definition BIO_should_retry :: "bio \<Rightarrow> u32" where
  "BIO_should_retry bio = BIO_test_flags bio BIO_FLAGS_SHOULD_RETRY"

definition BIO_should_io_special :: "bio \<Rightarrow> u32" where
  "BIO_should_io_special bio = BIO_test_flags bio BIO_FLAGS_IO_SPECIAL"

definition BIO_set_retry_reason :: "bio \<Rightarrow> int \<Rightarrow> bio" where
  "BIO_set_retry_reason bio reason = bio\<lparr>bio_retry_reason := reason\<rparr>"

definition BIO_clear_flags :: "bio \<Rightarrow> u32 \<Rightarrow> bio" where
  "BIO_clear_flags bio flags = bio\<lparr>bio_flags := bio_flags bio AND NOT flags\<rparr>"

definition BIO_set_retry_read :: "bio \<Rightarrow> bio" where
  "BIO_set_retry_read bio = bio\<lparr>bio_flags := bio_flags bio OR (BIO_FLAGS_READ OR BIO_FLAGS_SHOULD_RETRY)\<rparr>"

definition BIO_set_retry_write :: "bio \<Rightarrow> bio" where
  "BIO_set_retry_write bio = bio\<lparr>bio_flags := bio_flags bio OR (BIO_FLAGS_WRITE OR BIO_FLAGS_SHOULD_RETRY)\<rparr>"

definition BIO_get_retry_flags :: "bio \<Rightarrow> u32" where
  "BIO_get_retry_flags bio = bio_flags bio AND kRetryFlags"

definition BIO_clear_retry_flags :: "bio \<Rightarrow> bio" where
  "BIO_clear_retry_flags bio = bio\<lparr>bio_flags := bio_flags bio AND NOT kRetryFlags, bio_retry_reason := 0\<rparr>"

definition BIO_copy_next_retry :: "nat \<Rightarrow> store \<Rightarrow> store option" where
  "BIO_copy_next_retry a st = do {
     st \<leftarrow> upd_bio a BIO_clear_retry_flags st;
     bio \<leftarrow> st a; n \<leftarrow> bio_next_bio bio; next_bio \<leftarrow> st n;
     st \<leftarrow> upd_bio a (\<lambda>bio. BIO_set_flags bio (BIO_get_retry_flags next_bio)) st;
     next_bio \<leftarrow> st n;
     upd_bio a (\<lambda>bio. bio\<lparr>bio_retry_reason := bio_retry_reason next_bio\<rparr>) st }"

section \<open>The pair (pair.c)\<close>

abbreviation SIZEOF_BIO :: nat where "SIZEOF_BIO \<equiv> 72"
abbreviation SIZEOF_BIO_BIO_ST :: nat where "SIZEOF_BIO_BIO_ST \<equiv> 56"

definition bio_new :: "(nat \<Rightarrow> u8 list option) \<Rightarrow> bio \<Rightarrow> bio option" where
  "bio_new malloc bio =
    (case OPENSSL_zalloc malloc SIZEOF_BIO_BIO_ST of
       None \<Rightarrow> None
     | Some _ \<Rightarrow>
         Some (bio\<lparr>bio_ptr := Some \<lparr>b_peer = None, b_closed = False, b_len = 0, b_offset = 0, b_size = 17 * 1024,
                                    b_buf = None, b_request = 0\<rparr>\<rparr>))"

definition bio_destroy_pair :: "nat \<Rightarrow> store \<Rightarrow> store option" where
  "bio_destroy_pair a st = do {
     bio \<leftarrow> st a;
     (case bio_ptr bio of
        None \<Rightarrow> Some st
      | Some b \<Rightarrow>
          (case b_peer b of
             None \<Rightarrow> Some st
           | Some p \<Rightarrow> do {
               peer_b \<leftarrow> get_b p st;
               assert (b_peer peer_b = Some a);
               st \<leftarrow> upd_b p (\<lambda>b. b\<lparr>b_peer := None\<rparr>) st;
               st \<leftarrow> upd_bio p (\<lambda>bio. bio\<lparr>bio_init := False\<rparr>) st;
               peer_b \<leftarrow> get_b p st;
               assert (b_buf peer_b \<noteq> None);
               st \<leftarrow> upd_b p (\<lambda>b. b\<lparr>b_len := 0, b_offset := 0\<rparr>) st;
               st \<leftarrow> upd_b a (\<lambda>b. b\<lparr>b_peer := None\<rparr>) st;
               st \<leftarrow> upd_bio a (\<lambda>bio. bio\<lparr>bio_init := False\<rparr>) st;
               b \<leftarrow> get_b a st;
               assert (b_buf b \<noteq> None);
               upd_b a (\<lambda>b. b\<lparr>b_len := 0, b_offset := 0\<rparr>) st })) }"

text \<open>The structure of the BIO is freed with its buffer; the BIO itself is freed by \<open>BIO_free\<close>.\<close>

definition bio_free :: "nat \<Rightarrow> store \<Rightarrow> store option" where
  "bio_free a st = do {
     b \<leftarrow> get_b a st;
     st \<leftarrow> (if b_peer b \<noteq> None then bio_destroy_pair a st else Some st);
     upd_bio a (\<lambda>bio. bio\<lparr>bio_ptr := None\<rparr>) st }"

text \<open>The loop of \<open>bio_read\<close> on the writer's structure: the bytes copied out and the structure.\<close>

partial_function (option) read_loop :: "bio_bio_st \<Rightarrow> nat \<Rightarrow> (u8 list \<times> bio_bio_st) option" where
  "read_loop peer_b rest = do {
     bf \<leftarrow> b_buf peer_b;
     assert (rest \<le> b_len peer_b);
     let chunk = (if sz_add (b_offset peer_b) rest \<le> b_size peer_b then rest else b_size peer_b - b_offset peer_b);
     assert (sz_add (b_offset peer_b) chunk \<le> b_size peer_b);
     let out = take chunk (drop (b_offset peer_b) bf);
     let peer_b = peer_b\<lparr>b_len := b_len peer_b - chunk\<rparr>;
     peer_b \<leftarrow> (if b_len peer_b \<noteq> 0 then do {
                   let peer_b = peer_b\<lparr>b_offset := sz_add (b_offset peer_b) chunk\<rparr>;
                   assert (b_offset peer_b \<le> b_size peer_b);
                   Some (if b_offset peer_b = b_size peer_b then peer_b\<lparr>b_offset := 0\<rparr> else peer_b) }
                 else do { assert (chunk = rest); Some (peer_b\<lparr>b_offset := 0\<rparr>) });
     if rest - chunk = 0 then Some (out, peer_b)
     else do { (more, peer_b) \<leftarrow> read_loop peer_b (rest - chunk); Some (out @ more, peer_b) } }"

definition bio_read :: "nat \<Rightarrow> bool \<Rightarrow> int \<Rightarrow> store \<Rightarrow> (int \<times> u8 list \<times> store) option" where
  "bio_read a buf_nonnull count st = do {
     let size = size_of_int count;
     st \<leftarrow> upd_bio a BIO_clear_retry_flags st;
     bio \<leftarrow> st a;
     if \<not> bio_init bio then Some (0, [], st)
     else do {
       b \<leftarrow> bio_ptr bio;
       p \<leftarrow> b_peer b;
       peer_b \<leftarrow> get_b p st;
       assert (b_buf peer_b \<noteq> None);
       st \<leftarrow> upd_b p (\<lambda>b. b\<lparr>b_request := 0\<rparr>) st;
       if \<not> buf_nonnull \<or> size = 0 then Some (0, [], st)
       else do {
         peer_b \<leftarrow> get_b p st;
         if b_len peer_b = 0 then
           if b_closed peer_b then Some (0, [], st)
           else do {
             st \<leftarrow> upd_bio a BIO_set_retry_read st;
             st \<leftarrow> upd_b p (\<lambda>b. b\<lparr>b_request := (if size \<le> b_size b then size else b_size b)\<rparr>) st;
             Some (-1, [], st) }
         else do {
           let size = (if b_len peer_b < size then b_len peer_b else size);
           (out, peer_b) \<leftarrow> read_loop peer_b size;
           st \<leftarrow> upd_b p (\<lambda>_. peer_b) st;
           Some (int_of_size size, out, st) } } } }"

text \<open>The loop of \<open>bio_write\<close> on the writer's structure.\<close>

partial_function (option) write_loop :: "bio_bio_st \<Rightarrow> u8 list \<Rightarrow> nat \<Rightarrow> bio_bio_st option" where
  "write_loop b data rest = do {
     bf \<leftarrow> b_buf b;
     assert (sz_add (b_len b) rest \<le> b_size b);
     let write_offset = sz_add (b_offset b) (b_len b);
     let write_offset = (if write_offset \<ge> b_size b then write_offset - b_size b else write_offset);
     let chunk = (if sz_add write_offset rest \<le> b_size b then rest else b_size b - write_offset);
     let b = b\<lparr>b_buf := Some (take write_offset bf @ take chunk data @ drop (write_offset + chunk) bf),
               b_len := b_len b + chunk\<rparr>;
     assert (b_len b \<le> b_size b);
     if rest - chunk = 0 then Some b else write_loop b (drop chunk data) (rest - chunk) }"

definition bio_write :: "nat \<Rightarrow> u8 list option \<Rightarrow> int \<Rightarrow> store \<Rightarrow> (int \<times> store) option" where
  "bio_write a data count st = do {
     let num = size_of_int count;
     st \<leftarrow> upd_bio a BIO_clear_retry_flags st;
     bio \<leftarrow> st a;
     (case data of
        None \<Rightarrow> Some (0, st)
      | Some data \<Rightarrow>
          if \<not> bio_init bio \<or> num = 0 then Some (0, st)
          else do {
            b \<leftarrow> bio_ptr bio;
            assert (b_peer b \<noteq> None);
            assert (b_buf b \<noteq> None);
            let b = b\<lparr>b_request := 0\<rparr>;
            st \<leftarrow> upd_b a (\<lambda>_. b) st;
            if b_closed b then Some (-1, st)
            else do {
              assert (b_len b \<le> b_size b);
              if b_len b = b_size b then do {
                st \<leftarrow> upd_bio a BIO_set_retry_write st;
                Some (-1, st) }
              else do {
                let num = (if num > b_size b - b_len b then b_size b - b_len b else num);
                b \<leftarrow> write_loop b data num;
                st \<leftarrow> upd_b a (\<lambda>_. b) st;
                Some (int_of_size num, st) } } }) }"

text \<open>The buffer of one side of a new pair; false when the allocation fails.\<close>

definition make_buf :: "(nat \<Rightarrow> u8 list option) \<Rightarrow> nat \<Rightarrow> nat \<Rightarrow> store \<Rightarrow> (bool \<times> store) option" where
  "make_buf malloc a writebuf_len st = do {
     b \<leftarrow> get_b a st;
     if b_buf b \<noteq> None then Some (True, st)
     else do {
       let b = (if writebuf_len \<noteq> 0 then b\<lparr>b_size := writebuf_len\<rparr> else b);
       (case OPENSSL_malloc malloc (b_size b) of
          None \<Rightarrow> do { st \<leftarrow> upd_b a (\<lambda>_. b) st; Some (False, st) }
        | Some bf \<Rightarrow> do { st \<leftarrow> upd_b a (\<lambda>_. b\<lparr>b_buf := Some bf, b_len := 0, b_offset := 0\<rparr>) st; Some (True, st) }) } }"

definition bio_make_pair ::
  "(nat \<Rightarrow> u8 list option) \<Rightarrow> nat \<Rightarrow> nat \<Rightarrow> nat \<Rightarrow> nat \<Rightarrow> store \<Rightarrow> (bool \<times> store) option" where
  "bio_make_pair malloc bio1 bio2 writebuf1_len writebuf2_len st = do {
     b1 \<leftarrow> get_b bio1 st;
     b2 \<leftarrow> get_b bio2 st;
     if b_peer b1 \<noteq> None \<or> b_peer b2 \<noteq> None then Some (False, st)
     else do {
       (ok, st) \<leftarrow> make_buf malloc bio1 writebuf1_len st;
       if \<not> ok then Some (False, st)
       else do {
         (ok, st) \<leftarrow> make_buf malloc bio2 writebuf2_len st;
         if \<not> ok then Some (False, st)
         else do {
           st \<leftarrow> upd_b bio1 (\<lambda>b. b\<lparr>b_peer := Some bio2, b_closed := False, b_request := 0\<rparr>) st;
           st \<leftarrow> upd_b bio2 (\<lambda>b. b\<lparr>b_peer := Some bio1, b_closed := False, b_request := 0\<rparr>) st;
           st \<leftarrow> upd_bio bio1 (\<lambda>bio. bio\<lparr>bio_init := True\<rparr>) st;
           st \<leftarrow> upd_bio bio2 (\<lambda>bio. bio\<lparr>bio_init := True\<rparr>) st;
           Some (True, st) } } } }"

text \<open>The commands the pair knows, and any other.\<close>

datatype bio_cmd =
    BIO_C_GET_WRITE_BUF_SIZE | BIO_C_GET_WRITE_GUARANTEE | BIO_C_GET_READ_REQUEST
  | BIO_C_RESET_READ_REQUEST | BIO_C_SHUTDOWN_WR | BIO_CTRL_GET_CLOSE | BIO_CTRL_SET_CLOSE
  | BIO_CTRL_PENDING | BIO_CTRL_WPENDING | BIO_CTRL_FLUSH | BIO_CTRL_EOF | BIO_CTRL_OTHER

definition bio_ctrl :: "nat \<Rightarrow> bio_cmd \<Rightarrow> int \<Rightarrow> nat option \<Rightarrow> store \<Rightarrow> (int \<times> store) option" where
  "bio_ctrl a cmd num ptr st = do {
     bio \<leftarrow> st a;
     b \<leftarrow> bio_ptr bio;
     (case cmd of
        BIO_C_GET_WRITE_BUF_SIZE \<Rightarrow> Some (int (b_size b), st)
      | BIO_C_GET_WRITE_GUARANTEE \<Rightarrow>
          Some (if b_peer b = None \<or> b_closed b then 0 else int (b_size b) - int (b_len b), st)
      | BIO_C_GET_READ_REQUEST \<Rightarrow> Some (int (b_request b), st)
      | BIO_C_RESET_READ_REQUEST \<Rightarrow> do { st \<leftarrow> upd_b a (\<lambda>b. b\<lparr>b_request := 0\<rparr>) st; Some (1, st) }
      | BIO_C_SHUTDOWN_WR \<Rightarrow> do { st \<leftarrow> upd_b a (\<lambda>b. b\<lparr>b_closed := True\<rparr>) st; Some (1, st) }
      | BIO_CTRL_GET_CLOSE \<Rightarrow> Some (bio_shutdown bio, st)
      | BIO_CTRL_SET_CLOSE \<Rightarrow>
          do { st \<leftarrow> upd_bio a (\<lambda>bio. bio\<lparr>bio_shutdown := sint (word_of_int num :: u32)\<rparr>) st; Some (1, st) }
      | BIO_CTRL_PENDING \<Rightarrow>
          (case b_peer b of
             None \<Rightarrow> Some (0, st)
           | Some p \<Rightarrow> do { peer_b \<leftarrow> get_b p st; Some (int (b_len peer_b), st) })
      | BIO_CTRL_WPENDING \<Rightarrow> Some (if b_buf b \<noteq> None then int (b_len b) else 0, st)
      | BIO_CTRL_FLUSH \<Rightarrow> Some (1, st)
      | BIO_CTRL_EOF \<Rightarrow>
          (case ptr of
             None \<Rightarrow> Some (1, st)
           | Some other_bio \<Rightarrow>
               do { other_b \<leftarrow> get_b other_bio st; Some (of_bool (b_len other_b = 0 \<and> b_closed other_b), st) })
      | BIO_CTRL_OTHER \<Rightarrow> Some (0, st)) }"


section \<open>Dispatch (bio.c)\<close>

text \<open>A null pointer to a BIO is \<open>None\<close>.  The address \<open>a\<close> is where the allocator puts the BIO.\<close>

definition BIO_new :: "(nat \<Rightarrow> u8 list option) \<Rightarrow> nat \<Rightarrow> store \<Rightarrow> nat option \<times> store" where
  "BIO_new malloc a st =
    (case OPENSSL_zalloc malloc SIZEOF_BIO of
       None \<Rightarrow> (None, st)
     | Some _ \<Rightarrow>
         let ret = \<lparr>bio_init = False, bio_shutdown = 1, bio_flags = 0, bio_retry_reason = 0, bio_references = 1,
                    bio_ptr = None, bio_next_bio = None, bio_num_read = 0, bio_num_write = 0\<rparr>
         in case bio_new malloc ret of None \<Rightarrow> (None, st) | Some ret \<Rightarrow> (Some a, st(a \<mapsto> ret)))"

text \<open>The reference count of \<open>crypto/refcount.c\<close>, one thread at a time; a count of zero aborts.\<close>

definition refcount_inc :: "u32 \<Rightarrow> u32" where
  "refcount_inc count = (if count \<noteq> 0xffffffff then count + 1 else count)"

definition refcount_dec_and_test_zero :: "u32 \<Rightarrow> (bool \<times> u32) option" where
  "refcount_dec_and_test_zero count =
    (if count = 0 then None else if count = 0xffffffff then Some (False, count)
     else Some (count - 1 = 0, count - 1))"

definition BIO_up_ref :: "nat \<Rightarrow> store \<Rightarrow> (int \<times> store) option" where
  "BIO_up_ref a st = do {
     st \<leftarrow> upd_bio a (\<lambda>bio. bio\<lparr>bio_references := refcount_inc (bio_references bio)\<rparr>) st;
     Some (1, st) }"

definition BIO_next :: "nat option \<Rightarrow> store \<Rightarrow> nat option option" where
  "BIO_next bio st = (case bio of None \<Rightarrow> Some None | Some a \<Rightarrow> map_option bio_next_bio (st a))"

definition BIO_pop :: "nat option \<Rightarrow> store \<Rightarrow> (nat option \<times> store) option" where
  "BIO_pop bio st =
    (case bio of
       None \<Rightarrow> Some (None, st)
     | Some a \<Rightarrow> do {
         b \<leftarrow> st a;
         st \<leftarrow> upd_bio a (\<lambda>bio. bio\<lparr>bio_next_bio := None\<rparr>) st;
         Some (bio_next_bio b, st) })"

partial_function (option) last_bio :: "nat \<Rightarrow> store \<Rightarrow> nat option" where
  "last_bio a st = do { bio \<leftarrow> st a; case bio_next_bio bio of None \<Rightarrow> Some a | Some n \<Rightarrow> last_bio n st }"

definition BIO_push :: "nat option \<Rightarrow> nat option \<Rightarrow> store \<Rightarrow> (nat option \<times> store) option" where
  "BIO_push bio appended_bio st =
    (case bio of
       None \<Rightarrow> Some (bio, st)
     | Some a \<Rightarrow> do {
         l \<leftarrow> last_bio a st;
         st \<leftarrow> upd_bio l (\<lambda>bio. bio\<lparr>bio_next_bio := appended_bio\<rparr>) st;
         Some (bio, st) })"

partial_function (option) BIO_free :: "nat option \<Rightarrow> store \<Rightarrow> (int \<times> store) option" where
  "BIO_free bio st =
    (case bio of
       None \<Rightarrow> Some (1, st)
     | Some a \<Rightarrow> do {
         b \<leftarrow> st a;
         (zero, count) \<leftarrow> refcount_dec_and_test_zero (bio_references b);
         st \<leftarrow> upd_bio a (\<lambda>bio. bio\<lparr>bio_references := count\<rparr>) st;
         if \<not> zero then Some (0, st)
         else do {
           (next_bio, st) \<leftarrow> BIO_pop (Some a) st;
           st \<leftarrow> bio_free a st;
           BIO_free next_bio (st(a := None)) } })"

definition BIO_new_bio_pair ::
  "(nat \<Rightarrow> u8 list option) \<Rightarrow> nat \<Rightarrow> nat \<Rightarrow> nat \<Rightarrow> nat \<Rightarrow> store \<Rightarrow>
     (bool \<times> nat option \<times> nat option \<times> store) option" where
  "BIO_new_bio_pair malloc a1 writebuf1_len a2 writebuf2_len st = do {
     let (bio1, st) = BIO_new malloc a1 st;
     let (bio2, st) = BIO_new malloc a2 st;
     (ok, st) \<leftarrow>
       (case (bio1, bio2) of
          (Some b1, Some b2) \<Rightarrow> bio_make_pair malloc b1 b2 writebuf1_len writebuf2_len st
        | _ \<Rightarrow> Some (False, st));
     if ok then Some (True, bio1, bio2, st)
     else do {
       (_, st) \<leftarrow> BIO_free bio1 st;
       (_, st) \<leftarrow> BIO_free bio2 st;
       Some (False, None, None, st) } }"

definition BIO_read :: "nat option \<Rightarrow> bool \<Rightarrow> int \<Rightarrow> store \<Rightarrow> (int \<times> u8 list \<times> store) option" where
  "BIO_read bio buf_nonnull count st =
    (case bio of
       None \<Rightarrow> Some (-2, [], st)
     | Some a \<Rightarrow> do {
         b \<leftarrow> st a;
         if \<not> bio_init b then Some (-2, [], st)
         else if count \<le> 0 then Some (0, [], st)
         else do {
           (ret, out, st) \<leftarrow> bio_read a buf_nonnull count st;
           st \<leftarrow> (if ret > 0 then upd_bio a (\<lambda>b. b\<lparr>bio_num_read := sz_add (bio_num_read b) (nat ret)\<rparr>) st
                  else Some st);
           Some (ret, out, st) } })"

definition BIO_write :: "nat option \<Rightarrow> u8 list option \<Rightarrow> int \<Rightarrow> store \<Rightarrow> (int \<times> store) option" where
  "BIO_write bio inn inl st =
    (case bio of
       None \<Rightarrow> Some (-2, st)
     | Some a \<Rightarrow> do {
         b \<leftarrow> st a;
         if \<not> bio_init b then Some (-2, st)
         else if inl \<le> 0 then Some (0, st)
         else do {
           (ret, st) \<leftarrow> bio_write a inn inl st;
           st \<leftarrow> (if ret > 0 then upd_bio a (\<lambda>b. b\<lparr>bio_num_write := sz_add (bio_num_write b) (nat ret)\<rparr>) st
                  else Some st);
           Some (ret, st) } })"

partial_function (option) BIO_write_all :: "nat option \<Rightarrow> u8 list \<Rightarrow> nat \<Rightarrow> store \<Rightarrow> (int \<times> store) option" where
  "BIO_write_all bio data n st =
    (if n > 0 then do {
       (ret, st) \<leftarrow> BIO_write bio (Some data) (if n > INT_MAX_nat then int INT_MAX_nat else int n) st;
       if ret \<le> 0 then Some (0, st) else BIO_write_all bio (drop (nat ret) data) (n - nat ret) st }
     else Some (1, st))"

definition BIO_puts :: "nat option \<Rightarrow> u8 list \<Rightarrow> store \<Rightarrow> (int \<times> store) option" where
  "BIO_puts bio inn st = do {
     n \<leftarrow> c_strlen inn;
     if n > INT_MAX_nat then Some (-1, st) else BIO_write bio (Some inn) (int n) st }"

fun indent_loop :: "nat option \<Rightarrow> nat \<Rightarrow> store \<Rightarrow> (int \<times> store) option" where
  "indent_loop bio 0 st = Some (1, st)"
| "indent_loop bio (Suc n) st = do {
     (ret, st) \<leftarrow> BIO_puts bio [32, 0] st;
     if ret \<noteq> 1 then Some (0, st) else indent_loop bio n st }"

definition BIO_indent :: "nat option \<Rightarrow> nat \<Rightarrow> nat \<Rightarrow> store \<Rightarrow> (int \<times> store) option" where
  "BIO_indent bio indent max_indent st = indent_loop bio (if indent > max_indent then max_indent else indent) st"

definition BIO_ctrl :: "nat option \<Rightarrow> bio_cmd \<Rightarrow> int \<Rightarrow> nat option \<Rightarrow> store \<Rightarrow> (int \<times> store) option" where
  "BIO_ctrl bio cmd larg parg st = (case bio of None \<Rightarrow> Some (0, st) | Some a \<Rightarrow> bio_ctrl a cmd larg parg st)"

definition BIO_flush :: "nat option \<Rightarrow> store \<Rightarrow> (int \<times> store) option" where
  "BIO_flush bio st = BIO_ctrl bio BIO_CTRL_FLUSH 0 None st"

definition BIO_eof :: "nat option \<Rightarrow> store \<Rightarrow> (int \<times> store) option" where
  "BIO_eof bio st = BIO_ctrl bio BIO_CTRL_EOF 0 None st"

definition BIO_pending :: "nat option \<Rightarrow> store \<Rightarrow> (nat \<times> store) option" where
  "BIO_pending bio st = do {
     (r, st) \<leftarrow> BIO_ctrl bio BIO_CTRL_PENDING 0 None st;
     assert (r \<ge> 0);
     Some (if r < 0 then 0 else nat r, st) }"

definition BIO_wpending :: "nat option \<Rightarrow> store \<Rightarrow> (nat \<times> store) option" where
  "BIO_wpending bio st = do {
     (r, st) \<leftarrow> BIO_ctrl bio BIO_CTRL_WPENDING 0 None st;
     assert (r \<ge> 0);
     Some (if r < 0 then 0 else nat r, st) }"

definition BIO_set_close :: "nat option \<Rightarrow> int \<Rightarrow> store \<Rightarrow> (int \<times> store) option" where
  "BIO_set_close bio close_flag st = BIO_ctrl bio BIO_CTRL_SET_CLOSE close_flag None st"

definition BIO_ctrl_get_read_request :: "nat option \<Rightarrow> store \<Rightarrow> (nat \<times> store) option" where
  "BIO_ctrl_get_read_request bio st = do {
     (r, st) \<leftarrow> BIO_ctrl bio BIO_C_GET_READ_REQUEST 0 None st; Some (size_of_int r, st) }"

definition BIO_ctrl_get_write_guarantee :: "nat option \<Rightarrow> store \<Rightarrow> (nat \<times> store) option" where
  "BIO_ctrl_get_write_guarantee bio st = do {
     (r, st) \<leftarrow> BIO_ctrl bio BIO_C_GET_WRITE_GUARANTEE 0 None st; Some (size_of_int r, st) }"

definition BIO_shutdown_wr :: "nat option \<Rightarrow> store \<Rightarrow> (int \<times> store) option" where
  "BIO_shutdown_wr bio st = BIO_ctrl bio BIO_C_SHUTDOWN_WR 0 None st"

text \<open>\<open>bio_read_full\<close>: the return value, the bytes written to \<open>out\<close>, and \<open>*out_eof_on_first_read\<close>
  when it is set.\<close>

partial_function (option) read_full_loop ::
  "nat option \<Rightarrow> nat \<Rightarrow> bool \<Rightarrow> store \<Rightarrow> (bool \<times> u8 list \<times> bool option \<times> store) option" where
  "read_full_loop bio n first_read st =
    (if n > 0 then do {
       (ret, out, st) \<leftarrow> BIO_read bio True (if n \<le> INT_MAX_nat then int n else int INT_MAX_nat) st;
       if ret \<le> 0 then Some (False, out, Some (first_read \<and> ret = 0), st)
       else do {
         (ok, more, eof, st) \<leftarrow> read_full_loop bio (n - nat ret) False st;
         Some (ok, out @ more, eof, st) } }
     else Some (True, [], None, st))"

definition bio_read_full :: "nat option \<Rightarrow> nat \<Rightarrow> store \<Rightarrow> (bool \<times> u8 list \<times> bool option \<times> store) option" where
  "bio_read_full bio n st = read_full_loop bio n True st"

end
