(* ===== verification/Bio_Fifo.thy ===== *)
theory Bio_Fifo
  imports Bio_Pair
begin

text \<open>
  What the BIO pair promises: each direction is a bounded first-in first-out queue of bytes.  The
  ring buffer operations implement the queue interface of the locale \<open>byte_fifo\<close>, and so do the two
  directions of a pair; the comments on the fields of \<open>bio_bio_st\<close> are an invariant of every sequence
  of calls; no call fails an assertion; what is sent arrives.
\<close>

section \<open>The queue interface\<close>

locale byte_fifo =
  fixes ok :: "'q \<Rightarrow> bool" and content :: "'q \<Rightarrow> u8 list" and cap :: "'q \<Rightarrow> nat"
    and put :: "'q \<Rightarrow> u8 list \<Rightarrow> (nat \<times> 'q) option" and get :: "'q \<Rightarrow> nat \<Rightarrow> (u8 list \<times> 'q) option"
  assumes put_law: "ok q \<Longrightarrow> \<exists>q'. put q bs = Some (min (length bs) (cap q - length (content q)), q') \<and> ok q' \<and>
      content q' = content q @ take (cap q - length (content q)) bs \<and> cap q' = cap q"
    and get_law: "ok q \<Longrightarrow> \<exists>q'. get q n = Some (take n (content q), q') \<and> ok q' \<and>
      content q' = drop n (content q) \<and> cap q' = cap q"

text \<open>A sender that offers what is left of its data and a receiver that takes what has arrived, in
  turns; \<open>None\<close> when the rounds do not suffice.\<close>

fun fifo_pump ::
  "('q \<Rightarrow> u8 list \<Rightarrow> (nat \<times> 'q) option) \<Rightarrow> ('q \<Rightarrow> nat \<Rightarrow> (u8 list \<times> 'q) option) \<Rightarrow>
     nat \<Rightarrow> u8 list \<Rightarrow> 'q \<Rightarrow> (u8 list \<times> 'q) option" where
  "fifo_pump put get 0 data q = (if data = [] then Some ([], q) else None)"
| "fifo_pump put get (Suc rounds) data q =
    (if data = [] then Some ([], q)
     else do {
       (k, q) \<leftarrow> put q data;
       (out, q) \<leftarrow> get q (length data);
       (rest, q) \<leftarrow> fifo_pump put get rounds (drop k data) q;
       Some (out @ rest, q) })"

context byte_fifo
begin

lemma round_trip:
  assumes "ok q" "content q = []"
  shows "\<exists>q1 q2. put q data = Some (min (length data) (cap q), q1) \<and>
    get q1 (length data) = Some (take (cap q) data, q2) \<and> ok q2 \<and> content q2 = [] \<and> cap q2 = cap q"
proof -
  obtain q1 where q1: "put q data = Some (min (length data) (cap q), q1)" "ok q1"
    "content q1 = take (cap q) data" "cap q1 = cap q"
    using put_law [OF assms(1), of data] assms(2) by auto
  from get_law [OF q1(2), of "length data"] obtain q2 where
    "get q1 (length data) = Some (take (length data) (content q1), q2)" "ok q2"
    "content q2 = drop (length data) (content q1)" "cap q2 = cap q1" by blast
  moreover have "take (min (length data) (cap q)) data = take (cap q) data" by (simp add: min_def)
  ultimately show ?thesis using q1 by - (rule exI [of _ q1], rule exI [of _ q2], simp)
qed

lemma pump_delivers:
  assumes "ok q" "content q = []" "length data \<le> rounds * cap q"
  shows "\<exists>q'. fifo_pump put get rounds data q = Some (data, q') \<and> ok q' \<and> content q' = [] \<and> cap q' = cap q"
  using assms
proof (induction rounds arbitrary: data q)
  case (Suc rounds)
  show ?case
  proof (cases "data = []")
    case False
    obtain q1 q2 where q: "put q data = Some (min (length data) (cap q), q1)"
      "get q1 (length data) = Some (take (cap q) data, q2)" "ok q2" "content q2 = []" "cap q2 = cap q"
      using round_trip [OF Suc.prems(1,2)] by blast
    have "length (drop (min (length data) (cap q)) data) \<le> rounds * cap q2" using Suc.prems(3) q(5) by simp
    from Suc.IH [OF q(3,4) this] obtain q' where
      r: "fifo_pump put get rounds (drop (min (length data) (cap q)) data) q2 = Some (drop (min (length data) (cap q)) data, q')"
      "ok q'" "content q' = []" "cap q' = cap q2" by blast
    have "take (cap q) data @ drop (min (length data) (cap q)) data = data"
      by (cases "length data \<le> cap q") (simp_all add: min_def)
    then show ?thesis using False q r by simp
  qed (use Suc.prems in simp)
qed simp

end

section \<open>The ring buffer\<close>

definition ring_index :: "bio_bio_st \<Rightarrow> nat \<Rightarrow> nat" where
  "ring_index b i = (if b_offset b + i < b_size b then b_offset b + i else b_offset b + i - b_size b)"

definition ring_content :: "bio_bio_st \<Rightarrow> u8 list" where
  "ring_content b = map (\<lambda>i. the (b_buf b) ! ring_index b i) [0..<b_len b]"

text \<open>The comments on the fields, and that the sizes fit in an \<open>int\<close>.\<close>

definition ring_ok :: "bio_bio_st \<Rightarrow> bool" where
  "ring_ok b \<longleftrightarrow>
    (case b_buf b of None \<Rightarrow> False | Some bf \<Rightarrow> length bf = b_size b) \<and>
    0 < b_size b \<and> b_size b \<le> INT_MAX_nat \<and> b_len b \<le> b_size b \<and> b_offset b < b_size b \<and>
    (b_len b = 0 \<longrightarrow> b_offset b = 0) \<and> (b_len b \<noteq> 0 \<longrightarrow> b_request b = 0) \<and> b_request b \<le> b_size b - b_len b"

lemma length_ring_content [simp]: "length (ring_content b) = b_len b"
  by (simp add: ring_content_def)

text \<open>One chunk, which does not wrap around.\<close>

lemma read_chunk:
  assumes bf: "b_buf b = Some bf" "length bf = b_size b"
    and c: "c \<le> b_len b" "b_offset b + c \<le> b_size b" "b_len b \<le> b_size b"
    and o: "off = b_offset b + c \<or> (off = 0 \<and> (b_offset b + c = b_size b \<or> b_len b = c))"
  shows "take c (drop (b_offset b) bf) = take c (ring_content b)"
    "ring_content (b\<lparr>b_len := b_len b - c, b_offset := off\<rparr>) = drop c (ring_content b)"
proof -
  show "take c (drop (b_offset b) bf) = take c (ring_content b)"
    using bf c by (intro nth_equalityI) (auto simp: ring_content_def ring_index_def)
  show "ring_content (b\<lparr>b_len := b_len b - c, b_offset := off\<rparr>) = drop c (ring_content b)"
    using bf c o by (intro nth_equalityI) (auto simp: ring_content_def ring_index_def add.assoc [symmetric])
qed

lemma write_chunk:
  assumes bf: "b_buf b = Some bf" "length bf = b_size b"
    and c: "b_len b + c \<le> b_size b" "ring_index b (b_len b) + c \<le> b_size b" "b_offset b < b_size b"
    and d: "c \<le> length data"
    and w: "w = ring_index b (b_len b)"
  shows "ring_content (b\<lparr>b_buf := Some (take w bf @ take c data @ drop (w + c) bf), b_len := b_len b + c\<rparr>) =
    ring_content b @ take c data"
proof (rule nth_equalityI)
  fix i
  assume i: "i < length (ring_content (b\<lparr>b_buf := Some (take w bf @ take c data @ drop (w + c) bf), b_len := b_len b + c\<rparr>))"
  then have il: "i < b_len b + c" by simp
  have wl: "w + c \<le> length bf" using c bf w by simp
  have n: "(take w bf @ take c data @ drop (w + c) bf) ! k =
      (if k < w then bf ! k else if k < w + c then data ! (k - w) else bf ! k)" for k
    using wl d by (auto simp: nth_append min_absorb2)
  show "ring_content (b\<lparr>b_buf := Some (take w bf @ take c data @ drop (w + c) bf), b_len := b_len b + c\<rparr>) ! i =
      (ring_content b @ take c data) ! i"
    using il c bf w d by (auto simp: ring_content_def ring_index_def nth_append n split: if_splits)
qed (use d in simp)

lemma read_nowrap:
  assumes bf: "b_buf b = Some bf" "length bf = b_size b"
    and n: "0 < n" "n \<le> b_len b" "b_len b \<le> b_size b" "b_offset b + n \<le> b_size b" "b_size b \<le> INT_MAX_nat"
  shows "read_loop b n = Some (take n (ring_content b),
    b\<lparr>b_len := b_len b - n, b_offset := (if b_len b = n \<or> b_offset b + n = b_size b then 0 else b_offset b + n)\<rparr>)"
proof -
  have a: "sz_add (b_offset b) n = b_offset b + n" using n by (intro sz_add_small) simp
  have "take n (drop (b_offset b) bf) = take n (ring_content b)"
    by (rule read_chunk(1) [of _ _ _ "b_offset b + n"]) (use bf n in auto)
  then show ?thesis using bf n
    by (subst read_loop.simps) (auto simp: a assert_def Let_def)
qed

lemma read_loop_eq:
  assumes ok: "ring_ok b" and n: "0 < n" "n \<le> b_len b"
  shows "\<exists>b'. read_loop b n = Some (take n (ring_content b), b') \<and> ring_ok b' \<and> ring_content b' = drop n (ring_content b) \<and>
    b_peer b' = b_peer b \<and> b_closed b' = b_closed b \<and> b_size b' = b_size b"
proof -
  obtain bf where bf: "b_buf b = Some bf" "length bf = b_size b"
    using ok by (auto simp: ring_ok_def split: option.splits)
  have b: "b_len b \<le> b_size b" "b_offset b < b_size b" "b_size b \<le> INT_MAX_nat" "b_request b = 0"
    using ok n by (auto simp: ring_ok_def)
  show ?thesis
  proof (cases "b_offset b + n \<le> b_size b")
    case True
    let ?o = "if b_len b = n \<or> b_offset b + n = b_size b then 0 else b_offset b + n"
    have "ring_content (b\<lparr>b_len := b_len b - n, b_offset := ?o\<rparr>) = drop n (ring_content b)"
      by (rule read_chunk(2)) (use bf b n True in auto)
    moreover have "ring_ok (b\<lparr>b_len := b_len b - n, b_offset := ?o\<rparr>)"
      using ok bf b n True by (auto simp: ring_ok_def)
    ultimately show ?thesis using read_nowrap [OF bf n b(1) True b(3)] by auto
  next
    case False
    define c where "c = b_size b - b_offset b"
    define b1 where "b1 = b\<lparr>b_len := b_len b - c, b_offset := 0\<rparr>"
    have c: "0 < c" "c < n" "b_offset b + c = b_size b" "c \<le> b_len b" using False b n by (auto simp: c_def)
    have r1: "take c (drop (b_offset b) bf) = take c (ring_content b)" "ring_content b1 = drop c (ring_content b)"
      unfolding b1_def using bf b c by (intro read_chunk; auto)+
    have a: "sz_add (b_offset b) n = b_offset b + n" "sz_add (b_offset b) c = b_size b"
      using n b c False by (simp_all add: sz_add_def)
    have s1: "read_loop b n = do { (more, b') \<leftarrow> read_loop b1 (n - c); Some (take c (ring_content b) @ more, b') }"
      using bf n b c False
      by (subst read_loop.simps) (auto simp: a assert_def Let_def c_def [symmetric] r1(1) b1_def)
    let ?o = "if b_len b1 = n - c \<or> b_offset b1 + (n - c) = b_size b1 then 0 else b_offset b1 + (n - c)"
    have s2: "read_loop b1 (n - c) = Some (take (n - c) (ring_content b1), b1\<lparr>b_len := b_len b1 - (n - c), b_offset := ?o\<rparr>)"
      by (rule read_nowrap [of _ bf]) (use bf n b c in \<open>auto simp: b1_def\<close>)
    have "ring_content (b1\<lparr>b_len := b_len b1 - (n - c), b_offset := ?o\<rparr>) = drop (n - c) (ring_content b1)"
      by (rule read_chunk(2) [of _ bf]) (use bf n b c in \<open>auto simp: b1_def\<close>)
    then have "ring_content (b1\<lparr>b_len := b_len b1 - (n - c), b_offset := ?o\<rparr>) = drop n (ring_content b)"
      using c by (simp add: r1(2))
    moreover have "ring_ok (b1\<lparr>b_len := b_len b1 - (n - c), b_offset := ?o\<rparr>)"
      using ok bf b n c by (auto simp: ring_ok_def b1_def)
    moreover have "take c (ring_content b) @ take (n - c) (ring_content b1) = take n (ring_content b)"
      unfolding r1(2) using c by (metis le_add_diff_inverse less_imp_le take_add)
    ultimately show ?thesis using s1 s2 by (auto simp: b1_def)
  qed
qed

lemma write_nowrap:
  assumes bf: "b_buf b = Some bf" "length bf = b_size b"
    and n: "0 < n" "b_len b + n \<le> b_size b" "ring_index b (b_len b) + n \<le> b_size b" "b_offset b < b_size b"
      "b_size b \<le> INT_MAX_nat" "n \<le> length data"
  defines "w \<equiv> ring_index b (b_len b)"
  shows "write_loop b data n = Some (b\<lparr>b_buf := Some (take w bf @ take n data @ drop (w + n) bf), b_len := b_len b + n\<rparr>)"
proof -
  have a: "sz_add (b_offset b) (b_len b) = b_offset b + b_len b" "sz_add (b_len b) n = b_len b + n" "sz_add w n = w + n"
    using n unfolding w_def by (intro sz_add_small; simp)+
  have "(if b_offset b + b_len b \<ge> b_size b then b_offset b + b_len b - b_size b else b_offset b + b_len b) = w"
    by (auto simp: w_def ring_index_def)
  then show ?thesis using bf n
    by (subst write_loop.simps) (simp add: a assert_def Let_def w_def [symmetric])
qed

lemma write_loop_eq:
  assumes ok: "ring_ok b" and n: "0 < n" "b_len b + n \<le> b_size b" "n \<le> length data" and r: "b_request b = 0"
  shows "\<exists>b'. write_loop b data n = Some b' \<and> ring_ok b' \<and> ring_content b' = ring_content b @ take n data \<and>
    b_peer b' = b_peer b \<and> b_closed b' = b_closed b \<and> b_size b' = b_size b"
proof -
  obtain bf where bf: "b_buf b = Some bf" "length bf = b_size b"
    using ok by (auto simp: ring_ok_def split: option.splits)
  have b: "b_len b \<le> b_size b" "b_offset b < b_size b" "b_size b \<le> INT_MAX_nat"
    using ok n by (auto simp: ring_ok_def)
  define w where "w = ring_index b (b_len b)"
  have w: "w < b_size b" using n b by (auto simp: w_def ring_index_def)
  show ?thesis
  proof (cases "w + n \<le> b_size b")
    case True
    let ?b = "b\<lparr>b_buf := Some (take w bf @ take n data @ drop (w + n) bf), b_len := b_len b + n\<rparr>"
    have "ring_content ?b = ring_content b @ take n data"
      by (rule write_chunk) (use bf n b True w_def in auto)
    moreover have "ring_ok ?b" using ok n b True bf r by (auto simp: ring_ok_def)
    ultimately show ?thesis
      using write_nowrap [OF bf n(1,2) _ b(2,3) n(3)] True by (auto simp: w_def)
  next
    case False
    define c where "c = b_size b - w"
    define b1 where "b1 = b\<lparr>b_buf := Some (take w bf @ take c data @ drop (w + c) bf), b_len := b_len b + c\<rparr>"
    have c: "0 < c" "c < n" "w + c = b_size b" using False w by (auto simp: c_def)
    have r1: "ring_content b1 = ring_content b @ take c data"
      unfolding b1_def by (rule write_chunk) (use bf n b c w_def in auto)
    have i1: "ring_index b1 (b_len b1) = 0" using c n b by (auto simp: b1_def ring_index_def w_def split: if_splits)
    have a: "sz_add (b_offset b) (b_len b) = b_offset b + b_len b" "sz_add (b_len b) n = b_len b + n" "sz_add w n = w + n"
      using n b w by (simp_all add: sz_add_def)
    have e: "(if b_offset b + b_len b \<ge> b_size b then b_offset b + b_len b - b_size b else b_offset b + b_len b) = w"
      by (auto simp: w_def ring_index_def)
    have s1: "write_loop b data n = write_loop b1 (drop c data) (n - c)"
      using bf n b c False
      by (subst write_loop.simps) (simp add: a assert_def Let_def e c_def [symmetric] b1_def)
    obtain bf1 where bf1: "b_buf b1 = Some bf1" "length bf1 = b_size b1"
      using bf n c b by (simp add: b1_def min_def)
    let ?b = "b1\<lparr>b_buf := Some (take 0 bf1 @ take (n - c) (drop c data) @ drop (0 + (n - c)) bf1), b_len := b_len b1 + (n - c)\<rparr>"
    have p1: "0 < n - c" "b_len b1 + (n - c) \<le> b_size b1" "ring_index b1 (b_len b1) + (n - c) \<le> b_size b1"
      "b_offset b1 < b_size b1" "b_size b1 \<le> INT_MAX_nat" "n - c \<le> length (drop c data)"
      unfolding i1 using n b c by (simp_all add: b1_def)
    have s2: "write_loop b1 (drop c data) (n - c) = Some ?b"
      using write_nowrap [OF bf1 p1] by (simp only: i1)
    have "ring_content ?b = ring_content b1 @ take (n - c) (drop c data)"
      using write_chunk [OF bf1 p1(2,3,4,6)] by (simp only: i1)
    also have "\<dots> = ring_content b @ take n data"
      unfolding r1 using c by (simp add: take_add [of c "n - c", symmetric])
    finally have "ring_content ?b = ring_content b @ take n data" .
    moreover have "ring_ok ?b" using ok n b c bf1 r by (auto simp: ring_ok_def b1_def)
    ultimately show ?thesis using s1 s2 by (auto simp: b1_def)
  qed
qed

section \<open>A pair\<close>

text \<open>The half of a pair at \<open>a\<close>, and both halves.\<close>

definition half_ok :: "nat \<Rightarrow> nat \<Rightarrow> store \<Rightarrow> bool" where
  "half_ok a b st \<longleftrightarrow>
    (case st a of
       None \<Rightarrow> False
     | Some A \<Rightarrow> bio_init A \<and> (case bio_ptr A of None \<Rightarrow> False | Some S \<Rightarrow> b_peer S = Some b \<and> ring_ok S))"

definition pair_ok :: "nat \<Rightarrow> nat \<Rightarrow> store \<Rightarrow> bool" where
  "pair_ok a b st \<longleftrightarrow> a \<noteq> b \<and> half_ok a b st \<and> half_ok b a st"

text \<open>What is on its way from \<open>a\<close>, the room of its buffer, and whether \<open>a\<close> has shut down writing.\<close>

definition pending :: "nat \<Rightarrow> store \<Rightarrow> u8 list" where
  "pending a st = (case get_b a st of None \<Rightarrow> [] | Some S \<Rightarrow> ring_content S)"

definition capacity :: "nat \<Rightarrow> store \<Rightarrow> nat" where
  "capacity a st = (case get_b a st of None \<Rightarrow> 0 | Some S \<Rightarrow> b_size S)"

definition shut :: "nat \<Rightarrow> store \<Rightarrow> bool" where
  "shut a st = (case get_b a st of None \<Rightarrow> False | Some S \<Rightarrow> b_closed S)"

text \<open>How many bytes the other end last asked for in vain, and the close flag.\<close>

definition request :: "nat \<Rightarrow> store \<Rightarrow> nat" where
  "request a st = (case get_b a st of None \<Rightarrow> 0 | Some S \<Rightarrow> b_request S)"

definition close_flag :: "nat \<Rightarrow> store \<Rightarrow> int" where
  "close_flag a st = (case st a of None \<Rightarrow> 0 | Some A \<Rightarrow> bio_shutdown A)"

lemma half_okE:
  assumes "half_ok a b st"
  obtains A S where "st a = Some A" "bio_init A" "bio_ptr A = Some S" "b_peer S = Some b" "ring_ok S"
    "pending a st = ring_content S" "capacity a st = b_size S" "shut a st = b_closed S"
  using assms by (auto simp: half_ok_def get_b_def pending_def capacity_def shut_def split: option.splits)

lemma half_ok_upd:
  assumes "bio_init A" "bio_ptr A = Some S" "b_peer S = Some b" "ring_ok S"
  shows "half_ok a b (st(a \<mapsto> A))" "pending a (st(a \<mapsto> A)) = ring_content S" "capacity a (st(a \<mapsto> A)) = b_size S"
    "shut a (st(a \<mapsto> A)) = b_closed S"
  using assms by (simp_all add: half_ok_def pending_def capacity_def shut_def get_b_def)

lemma other_upd [simp]:
  assumes "x \<noteq> a"
  shows "half_ok x b (st(a := v)) = half_ok x b st" "pending x (st(a := v)) = pending x st"
    "capacity x (st(a := v)) = capacity x st" "shut x (st(a := v)) = shut x st"
  using assms by (simp_all add: half_ok_def pending_def capacity_def shut_def get_b_def)

lemma pair_ok_sym: "pair_ok a b st = pair_ok b a st"
  by (auto simp: pair_ok_def)

lemma ring_ok_buf: "ring_ok S \<Longrightarrow> b_buf S \<noteq> None"
  by (auto simp: ring_ok_def split: option.splits)

lemma retry_fields [simp]:
  "bio_init (BIO_clear_retry_flags A) = bio_init A" "bio_ptr (BIO_clear_retry_flags A) = bio_ptr A"
  "bio_init (BIO_set_retry_read A) = bio_init A" "bio_ptr (BIO_set_retry_read A) = bio_ptr A"
  "bio_init (BIO_set_retry_write A) = bio_init A" "bio_ptr (BIO_set_retry_write A) = bio_ptr A"
  by (simp_all add: BIO_clear_retry_flags_def BIO_set_retry_read_def BIO_set_retry_write_def)

lemma ring_request_0: "ring_ok S \<Longrightarrow> ring_ok (S\<lparr>b_request := 0\<rparr>)"
  by (auto simp: ring_ok_def split: option.splits)

lemma ring_content_request [simp]:
  "ring_content (S\<lparr>b_request := r\<rparr>) = ring_content S" "ring_content (S\<lparr>b_closed := c\<rparr>) = ring_content S"
  by (simp_all add: ring_content_def ring_index_def)

lemma int_of_size_small: "n \<le> INT_MAX_nat \<Longrightarrow> int_of_size n = int n"
proof -
  assume "n \<le> INT_MAX_nat"
  then have "signed_take_bit 31 (int n) = int n" by (intro signed_take_bit_int_eq_self) simp_all
  then show ?thesis by (simp add: int_of_size_def signed_of_nat)
qed

text \<open>A write, on a pair: it appends what fits, or fails when the writer has shut down or the buffer is
  full, in the latter case with the flag to retry.\<close>

lemma bio_write_pair:
  assumes ok: "pair_ok a b st" and n: "0 < n" "n \<le> INT_MAX_nat" "n \<le> length data"
  defines "k \<equiv> min n (capacity a st - length (pending a st))"
  shows "\<exists>A S. bio_write a (Some data) (int n) st = Some (if shut a st \<or> k = 0 then -1 else int k, st(a \<mapsto> A)) \<and>
    bio_init A \<and> bio_ptr A = Some S \<and> b_peer S = Some b \<and> ring_ok S \<and>
    ring_content S = pending a st @ (if shut a st then [] else take k data) \<and> b_size S = capacity a st \<and>
    b_closed S = shut a st \<and> (\<not> shut a st \<and> k = 0 \<longrightarrow> BIO_should_retry A \<noteq> 0 \<and> BIO_should_write A \<noteq> 0)"
proof -
  from ok obtain A S where A: "st a = Some A" "bio_init A" "bio_ptr A = Some S" "b_peer S = Some b" "ring_ok S"
    "pending a st = ring_content S" "capacity a st = b_size S" "shut a st = b_closed S"
    by (auto simp: pair_ok_def elim: half_okE)
  define A' S' where "A' = BIO_clear_retry_flags A" and "S' = S\<lparr>b_request := 0\<rparr>"
  have S': "ring_ok S'" "b_len S \<le> b_size S" "b_size S \<le> INT_MAX_nat"
    using A(5) by (simp_all add: S'_def ring_request_0) (simp_all add: ring_ok_def)
  have sz: "size_of_int (int n) = n" using n(2) by (simp add: size_of_int_small)
  obtain bf where bf: "b_buf S = Some bf" using ring_ok_buf [OF A(5)] by blast
  show ?thesis
  proof (cases "b_closed S")
    case True
    have "bio_write a (Some data) (int n) st = Some (-1, st(a \<mapsto> A'\<lparr>bio_ptr := Some S'\<rparr>))"
      using A n True bf
      by (simp add: bio_write_def upd_bio_def upd_b_def sz assert_def Let_def A'_def S'_def)
    then show ?thesis using A True S'
      by (intro exI [of _ "A'\<lparr>bio_ptr := Some S'\<rparr>"] exI [of _ S']) (simp add: A'_def S'_def)
  next
    case op: False
    show ?thesis
    proof (cases "b_len S = b_size S")
      case True
      have "bio_write a (Some data) (int n) st = Some (-1, st(a \<mapsto> BIO_set_retry_write (A'\<lparr>bio_ptr := Some S'\<rparr>)))"
        using A n op True bf
        by (simp add: bio_write_def upd_bio_def upd_b_def sz assert_def Let_def A'_def S'_def)
      moreover have "BIO_should_retry (BIO_set_retry_write B) \<noteq> 0 \<and> BIO_should_write (BIO_set_retry_write B) \<noteq> 0" for B
      proof -
        have b: "bit (BIO_should_retry (BIO_set_retry_write B)) 3" "bit (BIO_should_write (BIO_set_retry_write B)) 1"
          by (simp_all add: BIO_should_retry_def BIO_should_write_def BIO_test_flags_def BIO_set_retry_write_def bit_simps)
        then show ?thesis by (metis bit_0_eq bot_apply bot_bool_def)
      qed
      ultimately show ?thesis using A op True S'
        by (intro exI [of _ "BIO_set_retry_write (A'\<lparr>bio_ptr := Some S'\<rparr>)"] exI [of _ S'])
          (simp add: A'_def S'_def k_def)
    next
      case False
      with S' n have k: "0 < k" "b_len S' + k \<le> b_size S'" "k \<le> length data" "k \<le> INT_MAX_nat"
        by (auto simp: k_def A S'_def)
      have kk: "b_size S - b_len S < n \<Longrightarrow> k = b_size S - b_len S" "\<not> b_size S - b_len S < n \<Longrightarrow> k = n"
        by (simp_all add: k_def A min_def)
      from write_loop_eq [OF S'(1) k(1-3)] obtain T where T: "write_loop S' data k = Some T" "ring_ok T"
        "ring_content T = ring_content S' @ take k data" "b_peer T = b_peer S'" "b_closed T = b_closed S'" "b_size T = b_size S'"
        by (auto simp: S'_def)
      have "bio_write a (Some data) (int n) st = Some (int k, st(a \<mapsto> A'\<lparr>bio_ptr := Some T\<rparr>))"
        using A n op False bf S' T(1) k(4) kk
        by (cases "b_size S - b_len S < n")
          (simp_all add: bio_write_def upd_bio_def upd_b_def sz assert_def Let_def A'_def S'_def int_of_size_small)
      then show ?thesis using A op k T
        by (intro exI [of _ "A'\<lparr>bio_ptr := Some T\<rparr>"] exI [of _ T]) (simp add: A'_def S'_def)
    qed
  qed
qed

text \<open>A read by \<open>b\<close> of what \<open>a\<close> has sent: it takes what is there, up to the count; with nothing there
  it is the end of the data when \<open>a\<close> has shut down, and otherwise fails with the flag to retry and
  tells \<open>a\<close> how much it wanted.\<close>

lemma bio_read_pair:
  assumes ok: "pair_ok a b st" and n: "0 < n" "n \<le> INT_MAX_nat"
  shows "\<exists>B A S. bio_read b True (int n) st =
      Some (if pending a st = [] then (if shut a st then 0 else -1) else int (min n (length (pending a st))),
        take n (pending a st), st(b \<mapsto> B, a \<mapsto> A)) \<and>
    bio_init B \<and> bio_ptr B = (case st b of Some B \<Rightarrow> bio_ptr B) \<and>
    bio_init A \<and> bio_ptr A = Some S \<and> b_peer S = Some b \<and> ring_ok S \<and>
    ring_content S = drop n (pending a st) \<and> b_size S = capacity a st \<and> b_closed S = shut a st \<and>
    (pending a st = [] \<and> \<not> shut a st \<longrightarrow>
      BIO_should_retry B \<noteq> 0 \<and> BIO_should_read B \<noteq> 0 \<and> b_request S = min n (capacity a st))"
proof -
  from ok obtain A S where A: "st a = Some A" "bio_init A" "bio_ptr A = Some S" "b_peer S = Some b" "ring_ok S"
    "pending a st = ring_content S" "capacity a st = b_size S" "shut a st = b_closed S"
    by (auto simp: pair_ok_def elim: half_okE)
  from ok obtain B T where B: "st b = Some B" "bio_init B" "bio_ptr B = Some T" "b_peer T = Some a"
    by (auto simp: pair_ok_def elim: half_okE)
  have ab: "a \<noteq> b" using ok by (simp add: pair_ok_def)
  define B' S' where "B' = BIO_clear_retry_flags B" and "S' = S\<lparr>b_request := 0\<rparr>"
  have S': "ring_ok S'" "b_len S \<le> b_size S" "b_size S \<le> INT_MAX_nat"
    using A(5) by (simp_all add: S'_def ring_request_0) (simp_all add: ring_ok_def)
  have sz: "size_of_int (int n) = n" using n(2) by (simp add: size_of_int_small)
  obtain bf where bf: "b_buf S = Some bf" using ring_ok_buf [OF A(5)] by blast
  have e: "ring_content S = [] \<longleftrightarrow> b_len S = 0" by (metis length_0_conv length_ring_content)
  note defs = bio_read_def upd_bio_def upd_b_def get_b_def sz assert_def Let_def
  show ?thesis
  proof (cases "b_len S = 0")
    case True
    show ?thesis
    proof (cases "b_closed S")
      case cl: True
      have "bio_read b True (int n) st = Some (0, [], st(b \<mapsto> B', a \<mapsto> A\<lparr>bio_ptr := Some S'\<rparr>))"
        using A B ab n True cl bf by (simp add: defs B'_def S'_def)
      then show ?thesis using A B True cl S' e
        by (intro exI [of _ B'] exI [of _ "A\<lparr>bio_ptr := Some S'\<rparr>"] exI [of _ S']) (simp add: B'_def S'_def)
    next
      case op: False
      let ?S = "S'\<lparr>b_request := (if n \<le> b_size S then n else b_size S)\<rparr>"
      have "bio_read b True (int n) st = Some (-1, [], st(b \<mapsto> BIO_set_retry_read B', a \<mapsto> A\<lparr>bio_ptr := Some ?S\<rparr>))"
        using A B ab n True op bf by (simp add: defs B'_def S'_def fun_upd_twist)
      moreover have "BIO_should_retry (BIO_set_retry_read C) \<noteq> 0 \<and> BIO_should_read (BIO_set_retry_read C) \<noteq> 0" for C
      proof -
        have "bit (BIO_should_retry (BIO_set_retry_read C)) 3" "bit (BIO_should_read (BIO_set_retry_read C)) 0"
          by (simp_all add: BIO_should_retry_def BIO_should_read_def BIO_test_flags_def BIO_set_retry_read_def bit_simps)
        then show ?thesis by (metis bit_0_eq bot_apply bot_bool_def)
      qed
      moreover have "ring_ok ?S" using S' True by (auto simp: ring_ok_def S'_def split: option.splits)
      ultimately show ?thesis using A B True op S' e
        by (intro exI [of _ "BIO_set_retry_read B'"] exI [of _ "A\<lparr>bio_ptr := Some ?S\<rparr>"] exI [of _ ?S])
          (simp add: B'_def S'_def)
    qed
  next
    case False
    define k where "k = min n (b_len S)"
    have k: "0 < k" "k \<le> b_len S'" "k \<le> INT_MAX_nat" using False n S' by (auto simp: k_def S'_def)
    have kk: "b_len S < n \<Longrightarrow> k = b_len S" "\<not> b_len S < n \<Longrightarrow> k = n" by (simp_all add: k_def)
    from read_loop_eq [OF S'(1) k(1,2)] obtain U where U: "read_loop S' k = Some (take k (ring_content S'), U)" "ring_ok U"
      "ring_content U = drop k (ring_content S')" "b_peer U = b_peer S'" "b_closed U = b_closed S'" "b_size U = b_size S'"
      by blast
    have t: "take k (ring_content S) = take n (ring_content S)" "drop k (ring_content S) = drop n (ring_content S)"
      by (simp_all add: k_def min_def)
    have "bio_read b True (int n) st = Some (int k, take k (ring_content S), st(b \<mapsto> B', a \<mapsto> A\<lparr>bio_ptr := Some U\<rparr>))"
      using A B ab n False bf U(1) k(3) kk
      by (cases "b_len S < n") (simp_all add: defs B'_def S'_def int_of_size_small)
    then show ?thesis using A B False U e t
      by (intro exI [of _ B'] exI [of _ "A\<lparr>bio_ptr := Some U\<rparr>"] exI [of _ U]) (simp add: B'_def S'_def k_def)
  qed
qed

section \<open>The calls of the API on a pair\<close>

text \<open>What every call keeps: the pair, and the sizes of its buffers.\<close>

definition same_pair :: "nat \<Rightarrow> nat \<Rightarrow> store \<Rightarrow> store \<Rightarrow> bool" where
  "same_pair a b st st' \<longleftrightarrow> pair_ok a b st' \<and> capacity a st' = capacity a st \<and> capacity b st' = capacity b st"

lemma same_pair_sym: "same_pair a b st st' = same_pair b a st st'"
  by (auto simp: same_pair_def pair_ok_sym)

lemma pair_upd:
  assumes "pair_ok a b st" "bio_init A" "bio_ptr A = Some S" "b_peer S = Some b" "ring_ok S" "b_size S = capacity a st"
  shows "same_pair a b st (st(a \<mapsto> A))" "pending a (st(a \<mapsto> A)) = ring_content S"
    "shut a (st(a \<mapsto> A)) = b_closed S" "pending b (st(a \<mapsto> A)) = pending b st" "shut b (st(a \<mapsto> A)) = shut b st"
  using assms by (simp_all add: same_pair_def pair_ok_def half_ok_upd)

lemma pair_upd_same:
  assumes "pair_ok a b st" "st a = Some A" "bio_init A'" "bio_ptr A' = bio_ptr A"
  shows "same_pair a b st (st(a \<mapsto> A'))" "pending x (st(a \<mapsto> A')) = pending x st"
    "shut x (st(a \<mapsto> A')) = shut x st" "capacity x (st(a \<mapsto> A')) = capacity x st"
proof -
  show "pending x (st(a \<mapsto> A')) = pending x st" "shut x (st(a \<mapsto> A')) = shut x st"
    "capacity x (st(a \<mapsto> A')) = capacity x st" for x
    using assms(2,4) by (cases "x = a"; simp add: pending_def shut_def capacity_def get_b_def)+
  moreover have "pair_ok a b (st(a \<mapsto> A'))"
    using assms by (auto simp: pair_ok_def half_ok_def split: option.splits)
  ultimately show "same_pair a b st (st(a \<mapsto> A'))" by (simp add: same_pair_def)
qed

lemma same_pair_trans: "same_pair a b s1 s2 \<Longrightarrow> same_pair a b s2 s3 \<Longrightarrow> same_pair a b s1 s3"
  by (simp add: same_pair_def)

definition data_bytes :: "u8 list option \<Rightarrow> u8 list" where
  "data_bytes data = (case data of None \<Rightarrow> [] | Some bs \<Rightarrow> bs)"

definition write_room :: "nat \<Rightarrow> int \<Rightarrow> store \<Rightarrow> nat" where
  "write_room a count st = min (nat count) (capacity a st - length (pending a st))"

lemma BIO_write_pair:
  assumes ok: "pair_ok a b st" and n: "count \<le> int INT_MAX_nat" "data \<noteq> None \<Longrightarrow> nat count \<le> length (data_bytes data)"
  shows "\<exists>st'. BIO_write (Some a) data count st =
      Some (if data = None \<or> count \<le> 0 then 0
            else if shut a st \<or> write_room a count st = 0 then -1 else int (write_room a count st), st') \<and>
    same_pair a b st st' \<and> shut a st' = shut a st \<and> shut b st' = shut b st \<and> pending b st' = pending b st \<and>
    pending a st' = pending a st @ (if shut a st then [] else take (write_room a count st) (data_bytes data))"
proof -
  from ok obtain A S where A: "st a = Some A" "bio_init A" "bio_ptr A = Some S"
    by (auto simp: pair_ok_def elim: half_okE)
  have refl: "same_pair a b st st" using ok by (simp add: same_pair_def)
  show ?thesis
  proof (cases "count \<le> 0")
    case True
    then show ?thesis using A refl by (simp add: BIO_write_def write_room_def)
  next
    case pos: False
    show ?thesis
    proof (cases data)
      case None
      have "bio_write a None count st = Some (0, st(a \<mapsto> BIO_clear_retry_flags A))"
        using A by (simp add: bio_write_def upd_bio_def Let_def)
      then show ?thesis using A pos None pair_upd_same [OF ok A(1), of "BIO_clear_retry_flags A"]
        by (simp add: BIO_write_def data_bytes_def)
    next
      case (Some bs)
      define m where "m = nat count"
      have m: "0 < m" "m \<le> INT_MAX_nat" "m \<le> length bs" "count = int m"
        using pos n Some by (auto simp: m_def data_bytes_def)
      have w: "write_room a count st = min m (capacity a st - length (pending a st))" by (simp add: write_room_def m_def)
      from bio_write_pair [OF ok m(1-3)] obtain A1 S1 where
        r: "bio_write a (Some bs) count st = Some (if shut a st \<or> write_room a count st = 0 then -1
              else int (write_room a count st), st(a \<mapsto> A1))"
        and s: "bio_init A1" "bio_ptr A1 = Some S1" "b_peer S1 = Some b" "ring_ok S1"
          "ring_content S1 = pending a st @ (if shut a st then [] else take (write_room a count st) bs)"
          "b_size S1 = capacity a st" "b_closed S1 = shut a st"
        unfolding w unfolding m(4) by blast
      define A2 where "A2 = A1\<lparr>bio_num_write := sz_add (bio_num_write A1) (write_room a count st)\<rparr>"
      have s2: "bio_init A2" "bio_ptr A2 = Some S1" using s by (simp_all add: A2_def)
      have "BIO_write (Some a) data count st =
          (if shut a st \<or> write_room a count st = 0 then Some (-1, st(a \<mapsto> A1))
           else Some (int (write_room a count st), st(a \<mapsto> A2)))"
        using A pos r by (simp add: BIO_write_def Some upd_bio_def A2_def)
      then show ?thesis
        using pos pair_upd [OF ok s(1-4,6)] pair_upd [OF ok s2 s(3,4,6)] s(5,7)
        by (auto simp: Some data_bytes_def)
    qed
  qed
qed

lemma BIO_read_pair:
  assumes ok: "pair_ok a b st" and n: "count \<le> int INT_MAX_nat"
  shows "\<exists>st'. BIO_read (Some b) True count st =
      Some (if count \<le> 0 then 0 else if pending a st = [] then (if shut a st then 0 else -1)
            else int (min (nat count) (length (pending a st))), take (nat count) (pending a st), st') \<and>
    same_pair a b st st' \<and> shut a st' = shut a st \<and> shut b st' = shut b st \<and> pending b st' = pending b st \<and>
    pending a st' = drop (nat count) (pending a st)"
proof -
  from ok obtain B T where B: "st b = Some B" "bio_init B" "bio_ptr B = Some T"
    by (auto simp: pair_ok_def elim: half_okE)
  have ab: "a \<noteq> b" using ok by (simp add: pair_ok_def)
  have refl: "same_pair a b st st" using ok by (simp add: same_pair_def)
  show ?thesis
  proof (cases "count \<le> 0")
    case True
    then show ?thesis using B refl by (simp add: BIO_read_def)
  next
    case pos: False
    define m where "m = nat count"
    have m: "0 < m" "m \<le> INT_MAX_nat" "count = int m" using pos n by (auto simp: m_def)
    from bio_read_pair [OF ok m(1,2)] obtain B1 A1 S1 where
      r: "bio_read b True count st = Some (if pending a st = [] then (if shut a st then 0 else -1)
            else int (min m (length (pending a st))), take m (pending a st), st(b \<mapsto> B1, a \<mapsto> A1))"
      and b: "bio_init B1" "bio_ptr B1 = bio_ptr B"
      and s: "bio_init A1" "bio_ptr A1 = Some S1" "b_peer S1 = Some b" "ring_ok S1"
        "ring_content S1 = drop m (pending a st)" "b_size S1 = capacity a st" "b_closed S1 = shut a st"
      unfolding m(3) using B(1) by auto
    define st1 where "st1 = st(b \<mapsto> B1)"
    note okb = ok [unfolded pair_ok_sym [of a]]
    note u1 = pair_upd_same [OF okb B(1) b, folded st1_def, unfolded same_pair_sym [of b]]
    have ok1: "pair_ok a b st1" using u1(1) by (simp add: same_pair_def)
    have s6: "b_size S1 = capacity a st1" using s(6) u1 by simp
    note u2 = pair_upd [OF ok1 s(1-4) s6]
    define st2 where "st2 = st1(a \<mapsto> A1)"
    have ok2: "pair_ok b a st2" using u2(1) by (simp add: same_pair_def pair_ok_sym st2_def)
    have B1: "st2 b = Some B1" using ab by (simp add: st2_def st1_def)
    define B2 where "B2 = B1\<lparr>bio_num_read := sz_add (bio_num_read B1) (min m (length (pending a st)))\<rparr>"
    have b2: "bio_init B2" "bio_ptr B2 = bio_ptr B1" using b by (simp_all add: B2_def)
    note u3 = pair_upd_same [OF ok2 B1 b2, unfolded same_pair_sym [of b]]
    have "BIO_read (Some b) True count st =
        (if pending a st = [] then Some (if shut a st then 0 else -1, [], st2)
         else Some (int (min m (length (pending a st))), take m (pending a st), st2(b \<mapsto> B2)))"
      using B pos r m(1) ab by (auto simp: BIO_read_def upd_bio_def B2_def st2_def st1_def)
    moreover have "same_pair a b st st2" "same_pair a b st (st2(b \<mapsto> B2))"
      using u1(1) u2(1) u3(1) by (metis same_pair_trans st2_def)+
    moreover have "pending a st2 = drop m (pending a st)" "pending b st2 = pending b st"
      "shut a st2 = shut a st" "shut b st2 = shut b st"
      using u1 u2 s(5,7) by (simp_all add: st2_def)
    ultimately show ?thesis using pos u3 by (auto simp: m_def)
  qed
qed

lemma bio_ctrl_pair_side:
  assumes ok: "pair_ok a b st" and p: "ptr \<in> {None, Some a, Some b}"
  shows "\<exists>ret st'. BIO_ctrl (Some a) cmd larg ptr st = Some (ret, st') \<and> same_pair a b st st' \<and>
    pending a st' = pending a st \<and> pending b st' = pending b st \<and> shut b st' = shut b st \<and>
    shut a st' = (shut a st \<or> cmd = BIO_C_SHUTDOWN_WR)"
proof -
  from ok obtain A S where A: "st a = Some A" "bio_init A" "bio_ptr A = Some S" "b_peer S = Some b" "ring_ok S"
    "pending a st = ring_content S" "capacity a st = b_size S" "shut a st = b_closed S"
    by (auto simp: pair_ok_def elim: half_okE)
  from ok obtain B T where B: "st b = Some B" "bio_ptr B = Some T"
    by (auto simp: pair_ok_def elim: half_okE)
  have refl: "same_pair a b st st" using ok by (simp add: same_pair_def)
  consider (reset) "cmd = BIO_C_RESET_READ_REQUEST" | (shut) "cmd = BIO_C_SHUTDOWN_WR"
    | (set_close) "cmd = BIO_CTRL_SET_CLOSE"
    | (query) "cmd \<notin> {BIO_C_RESET_READ_REQUEST, BIO_C_SHUTDOWN_WR, BIO_CTRL_SET_CLOSE}" by blast
  then show ?thesis
  proof cases
    case reset
    have "ring_ok (S\<lparr>b_request := 0\<rparr>)" by (rule ring_request_0 [OF A(5)])
    then show ?thesis using A reset pair_upd [OF ok, of "A\<lparr>bio_ptr := Some (S\<lparr>b_request := 0\<rparr>)\<rparr>" "S\<lparr>b_request := 0\<rparr>"]
      by (simp add: BIO_ctrl_def bio_ctrl_def upd_b_def)
  next
    case shut
    have "ring_ok (S\<lparr>b_closed := True\<rparr>)" using A(5) by (auto simp: ring_ok_def split: option.splits)
    then show ?thesis using A shut pair_upd [OF ok, of "A\<lparr>bio_ptr := Some (S\<lparr>b_closed := True\<rparr>)\<rparr>" "S\<lparr>b_closed := True\<rparr>"]
      by (simp add: BIO_ctrl_def bio_ctrl_def upd_b_def)
  next
    case set_close
    then show ?thesis using A pair_upd_same [OF ok A(1), of "A\<lparr>bio_shutdown := sint (word_of_int larg :: u32)\<rparr>"]
      by (simp add: BIO_ctrl_def bio_ctrl_def upd_bio_def)
  next
    case query
    have "\<exists>ret. BIO_ctrl (Some a) cmd larg ptr st = Some (ret, st)"
      using A B p query by (cases cmd) (auto simp: BIO_ctrl_def bio_ctrl_def get_b_def)
    then show ?thesis using refl query by auto
  qed
qed

text \<open>What a control call on the end \<open>s\<close> of a pair returns; \<open>t\<close> is the other end.\<close>

definition ctrl_result :: "nat \<Rightarrow> nat \<Rightarrow> bio_cmd \<Rightarrow> nat option \<Rightarrow> store \<Rightarrow> int" where
  "ctrl_result s t cmd ptr st =
    (case cmd of
       BIO_C_GET_WRITE_BUF_SIZE \<Rightarrow> int (capacity s st)
     | BIO_C_GET_WRITE_GUARANTEE \<Rightarrow> if shut s st then 0 else int (capacity s st - length (pending s st))
     | BIO_C_GET_READ_REQUEST \<Rightarrow> int (request s st)
     | BIO_CTRL_GET_CLOSE \<Rightarrow> close_flag s st
     | BIO_CTRL_PENDING \<Rightarrow> int (length (pending t st))
     | BIO_CTRL_WPENDING \<Rightarrow> int (length (pending s st))
     | BIO_CTRL_EOF \<Rightarrow> (case ptr of None \<Rightarrow> 1 | Some e \<Rightarrow> if pending e st = [] \<and> shut e st then 1 else 0)
     | BIO_C_RESET_READ_REQUEST \<Rightarrow> 1
     | BIO_C_SHUTDOWN_WR \<Rightarrow> 1
     | BIO_CTRL_SET_CLOSE \<Rightarrow> 1
     | BIO_CTRL_FLUSH \<Rightarrow> 1
     | BIO_CTRL_OTHER \<Rightarrow> 0)"

text \<open>The value returned, and what the call changes.\<close>

lemma BIO_ctrl_exact:
  assumes ok: "pair_ok s t st" and p: "ptr \<in> {None, Some s, Some t}"
  shows "\<exists>st'. BIO_ctrl (Some s) cmd larg ptr st = Some (ctrl_result s t cmd ptr st, st') \<and>
    request s st' = (if cmd = BIO_C_RESET_READ_REQUEST then 0 else request s st) \<and>
    close_flag s st' = (if cmd = BIO_CTRL_SET_CLOSE then sint (word_of_int larg :: u32) else close_flag s st) \<and>
    st' t = st t"
proof -
  from ok obtain A S where A: "st s = Some A" "bio_ptr A = Some S" "b_peer S = Some t" "ring_ok S"
    by (auto simp: pair_ok_def elim: half_okE)
  from ok obtain B T where B: "st t = Some B" "bio_ptr B = Some T" by (auto simp: pair_ok_def elim: half_okE)
  have n: "s \<noteq> t" using ok by (simp add: pair_ok_def)
  have q: "get_b s st = Some S" "get_b t st = Some T" using A B by (simp_all add: get_b_def)
  have e: "ring_content X = [] \<longleftrightarrow> b_len X = 0" for X by (metis length_0_conv length_ring_content)
  have l: "b_len S \<le> b_size S" "b_buf S \<noteq> None" using A(4) by (auto simp: ring_ok_def split: option.splits)
  note c = ctrl_result_def capacity_def pending_def shut_def request_def close_flag_def q
  note d = BIO_ctrl_def bio_ctrl_def upd_b_def upd_bio_def get_b_def c
  show ?thesis
  proof (cases cmd)
    case BIO_CTRL_EOF
    then show ?thesis using p A B n by (auto simp: d e)
  qed (use A B n l in \<open>simp_all add: d of_nat_diff\<close>)
qed

text \<open>A read in vain notes the size of the request.\<close>

lemma BIO_read_in_vain:
  assumes ok: "pair_ok s t st" and n: "count \<le> int INT_MAX_nat" "0 < count" and e: "pending s st = []" "\<not> shut s st"
    and r: "BIO_read (Some t) True count st = Some (ret, out, st')"
  shows "request s st' = min (nat count) (capacity s st)"
proof -
  from ok obtain A S where A: "st s = Some A" "bio_ptr A = Some S" "ring_ok S" by (auto simp: pair_ok_def elim: half_okE)
  from ok obtain B T where B: "st t = Some B" "bio_init B" "bio_ptr B = Some T" "b_peer T = Some s"
    by (auto simp: pair_ok_def elim: half_okE)
  have ab: "s \<noteq> t" using ok by (simp add: pair_ok_def)
  have q: "get_b s st = Some S" using A by (simp add: get_b_def)
  have l: "b_len S = 0" "\<not> b_closed S" "b_buf S \<noteq> None"
    using e A(3) q by (auto simp: pending_def shut_def ring_ok_def split: option.splits dest: arg_cong [of _ _ length])
  have c: "nat count \<noteq> 0" "size_of_int count = nat count" using n by (simp_all add: size_of_int_small)
  show ?thesis using r A B ab n(2) l c
    by (auto simp: BIO_read_def bio_read_def upd_bio_def upd_b_def get_b_def request_def capacity_def q Let_def assert_def
        BIO_clear_retry_flags_def BIO_set_retry_read_def min_def)
qed

lemma BIO_ctrl_pair:
  assumes "pair_ok a b st" "s \<in> {a, b}" "ptr \<in> {None, Some a, Some b}"
  shows "\<exists>ret st'. BIO_ctrl (Some s) cmd larg ptr st = Some (ret, st') \<and> same_pair a b st st' \<and>
    pending a st' = pending a st \<and> pending b st' = pending b st"
proof (cases "s = a")
  case True
  then show ?thesis using bio_ctrl_pair_side [OF assms(1,3), of cmd larg] by blast
next
  case False
  have "ptr \<in> {None, Some b, Some a}" using assms(3) by blast
  with False assms(2) show ?thesis
    using bio_ctrl_pair_side [of b a st ptr cmd larg] assms(1) by (auto simp: pair_ok_sym [of a] same_pair_sym [of b])
qed

section \<open>A new pair\<close>

lemma OPENSSL_malloc_length: "malloc_ok malloc \<Longrightarrow> OPENSSL_malloc malloc n = Some bs \<Longrightarrow> n + 8 < SIZE_LIMIT \<Longrightarrow> length bs = n"
  by (auto simp: OPENSSL_malloc_def malloc_ok_def split: if_splits option.splits)

definition default_size :: "nat \<Rightarrow> nat" where
  "default_size n = (if n = 0 then 17 * 1024 else n)"

definition fresh_b :: bio_bio_st where
  "fresh_b = \<lparr>b_peer = None, b_closed = False, b_len = 0, b_offset = 0, b_size = 17 * 1024, b_buf = None, b_request = 0\<rparr>"

definition fresh_bio :: "bio_bio_st \<Rightarrow> bio" where
  "fresh_bio b = \<lparr>bio_init = False, bio_shutdown = 1, bio_flags = 0, bio_retry_reason = 0, bio_references = 1,
     bio_ptr = Some b, bio_next_bio = None, bio_num_read = 0, bio_num_write = 0\<rparr>"

lemma BIO_new_cases:
  "BIO_new malloc a st = (None, st) \<or> BIO_new malloc a st = (Some a, st(a \<mapsto> fresh_bio fresh_b))"
  by (auto simp: BIO_new_def bio_new_def fresh_bio_def fresh_b_def Let_def split: option.splits)

definition new_b :: "nat \<Rightarrow> u8 list \<Rightarrow> bio_bio_st" where
  "new_b n bf = fresh_b\<lparr>b_size := default_size n, b_buf := Some bf\<rparr>"

lemma make_buf_fresh:
  assumes "st a = Some (fresh_bio fresh_b)" "make_buf malloc a n st = Some (True, st')"
  shows "\<exists>bf. OPENSSL_malloc malloc (default_size n) = Some bf \<and> st' = st(a \<mapsto> fresh_bio (new_b n bf))"
  using assms
  by (auto simp: make_buf_def get_b_def upd_b_def fresh_bio_def fresh_b_def new_b_def default_size_def Let_def
      split: option.splits if_splits)

lemma new_pair_ok:
  assumes m: "malloc_ok malloc" and n: "a \<noteq> b" "l1 \<le> INT_MAX_nat" "l2 \<le> INT_MAX_nat"
    and r: "BIO_new_bio_pair malloc a l1 b l2 st = Some (True, p, q, st')"
  shows "p = Some a \<and> q = Some b \<and> pair_ok a b st' \<and> pending a st' = [] \<and> pending b st' = [] \<and>
    \<not> shut a st' \<and> \<not> shut b st' \<and> capacity a st' = default_size l1 \<and> capacity b st' = default_size l2 \<and>
    (\<exists>A. st' a = Some A \<and> bio_references A = 1 \<and> bio_next_bio A = None)"
proof -
  let ?F = "fresh_bio fresh_b" and ?st = "st(a \<mapsto> fresh_bio fresh_b, b \<mapsto> fresh_bio fresh_b)"
  have new: "p = Some a \<and> q = Some b \<and> bio_make_pair malloc a b l1 l2 ?st = Some (True, st')"
    using r BIO_new_cases [of malloc a st] BIO_new_cases [of malloc b "st(a \<mapsto> ?F)"] BIO_new_cases [of malloc b st]
    by (auto simp: BIO_new_bio_pair_def Let_def split: if_splits Option.bind_splits)
  have g: "get_b a ?st = Some fresh_b" "get_b b ?st = Some fresh_b" "b_peer fresh_b = None"
    using n(1) by (simp_all add: get_b_def fresh_bio_def fresh_b_def)
  obtain st1 st2 where s: "make_buf malloc a l1 ?st = Some (True, st1)" "make_buf malloc b l2 st1 = Some (True, st2)"
    using new g by (auto simp: bio_make_pair_def split: if_splits Option.bind_splits)
  have "?st a = Some ?F" using n(1) by simp
  from make_buf_fresh [OF this s(1)] obtain bf1 where
    1: "OPENSSL_malloc malloc (default_size l1) = Some bf1" "st1 = ?st(a \<mapsto> fresh_bio (new_b l1 bf1))" by blast
  have "st1 b = Some ?F" using n(1) 1(2) by simp
  from make_buf_fresh [OF this s(2)] obtain bf2 where
    2: "OPENSSL_malloc malloc (default_size l2) = Some bf2" "st2 = st1(b \<mapsto> fresh_bio (new_b l2 bf2))" by blast
  define A B where "A = (fresh_bio (new_b l1 bf1\<lparr>b_peer := Some b\<rparr>))\<lparr>bio_init := True\<rparr>"
    and "B = (fresh_bio (new_b l2 bf2\<lparr>b_peer := Some a\<rparr>))\<lparr>bio_init := True\<rparr>"
  have st': "st' a = Some A" "st' b = Some B"
    using new g s n(1) unfolding bio_make_pair_def
    by (auto simp: 1(2) 2(2) upd_b_def upd_bio_def A_def B_def fresh_bio_def new_b_def fresh_b_def)
  have l: "default_size l1 \<le> INT_MAX_nat" "default_size l2 \<le> INT_MAX_nat" "0 < default_size l1" "0 < default_size l2"
    using n by (simp_all add: default_size_def)
  then have "length bf1 = default_size l1" "length bf2 = default_size l2"
    using OPENSSL_malloc_length [OF m 1(1)] OPENSSL_malloc_length [OF m 2(1)] by simp_all
  with l have "ring_ok (new_b l1 bf1\<lparr>b_peer := Some b\<rparr>)" "ring_ok (new_b l2 bf2\<lparr>b_peer := Some a\<rparr>)"
    by (simp_all add: ring_ok_def new_b_def fresh_b_def)
  then show ?thesis using new n(1) st'
    by (simp add: pair_ok_def half_ok_def pending_def capacity_def shut_def get_b_def A_def B_def fresh_bio_def
        new_b_def fresh_b_def ring_content_def)
qed

section \<open>The state machine\<close>

text \<open>The calls on the two ends of a pair as labelled steps: which end wrote which bytes, and which end
  read which bytes.  The buffers passed are those of a C caller: not null for a read, and as long as
  the count says for a write.\<close>

datatype pair_event = Sent nat "u8 list" | Received nat "u8 list" | Controlled nat

inductive pair_step :: "nat \<Rightarrow> nat \<Rightarrow> store \<Rightarrow> pair_event \<Rightarrow> store \<Rightarrow> bool" for a b where
  wr: "\<lbrakk>s \<in> {a, b}; count \<le> int INT_MAX_nat; data \<noteq> None \<longrightarrow> nat count \<le> length (data_bytes data);
     BIO_write (Some s) data count st = Some (ret, st')\<rbrakk>
    \<Longrightarrow> pair_step a b st (Sent s (take (nat ret) (data_bytes data))) st'"
| rd: "\<lbrakk>s \<in> {a, b}; count \<le> int INT_MAX_nat; BIO_read (Some s) True count st = Some (ret, out, st')\<rbrakk>
    \<Longrightarrow> pair_step a b st (Received s out) st'"
| ctrl: "\<lbrakk>s \<in> {a, b}; ptr \<in> {None, Some a, Some b}; BIO_ctrl (Some s) cmd larg ptr st = Some (ret, st')\<rbrakk>
    \<Longrightarrow> pair_step a b st (Controlled s) st'"

inductive pair_run :: "nat \<Rightarrow> nat \<Rightarrow> store \<Rightarrow> pair_event list \<Rightarrow> store \<Rightarrow> bool" for a b where
  start: "pair_run a b st [] st"
| step: "pair_run a b st evs st' \<Longrightarrow> pair_step a b st' ev st'' \<Longrightarrow> pair_run a b st (evs @ [ev]) st''"

fun sent :: "nat \<Rightarrow> pair_event list \<Rightarrow> u8 list" where
  "sent s [] = []"
| "sent s (Sent t bs # evs) = (if t = s then bs else []) @ sent s evs"
| "sent s (_ # evs) = sent s evs"

fun received :: "nat \<Rightarrow> pair_event list \<Rightarrow> u8 list" where
  "received s [] = []"
| "received s (Received t bs # evs) = (if t = s then bs else []) @ received s evs"
| "received s (_ # evs) = received s evs"

lemma sent_append [simp]: "sent s (xs @ ys) = sent s xs @ sent s ys"
  by (induction s xs rule: sent.induct) simp_all

lemma received_append [simp]: "received s (xs @ ys) = received s xs @ received s ys"
  by (induction s xs rule: received.induct) simp_all

lemma write_side:
  assumes ok: "pair_ok a b st" and n: "count \<le> int INT_MAX_nat" "data \<noteq> None \<longrightarrow> nat count \<le> length (data_bytes data)"
    and r: "BIO_write (Some a) data count st = Some (ret, st')"
  shows "same_pair a b st st' \<and> pending a st' = pending a st @ take (nat ret) (data_bytes data) \<and> pending b st' = pending b st"
proof -
  have n2: "data \<noteq> None \<Longrightarrow> nat count \<le> length (data_bytes data)" using n(2) by blast
  show ?thesis
    using BIO_write_pair [OF ok n(1) n2] r
    by (auto simp: data_bytes_def write_room_def split: if_splits)
qed

lemma pair_step_keeps:
  assumes ok: "pair_ok a b st" and s: "pair_step a b st ev st'"
  shows "same_pair a b st st' \<and> pending a st @ sent a [ev] = received b [ev] @ pending a st' \<and>
    pending b st @ sent b [ev] = received a [ev] @ pending b st'"
  using s
proof (cases rule: pair_step.cases)
  case (wr s count data ret)
  have ab: "a \<noteq> b" using ok by (simp add: pair_ok_def)
  show ?thesis
  proof (cases "s = a")
    case True
    with write_side [OF ok wr(3,4)] wr ab show ?thesis by simp
  next
    case False
    with wr have "s = b" by simp
    with write_side [OF ok [unfolded pair_ok_sym [of a]] wr(3,4)] wr ab show ?thesis
      by (simp add: same_pair_sym [of b])
  qed
next
  case (rd s count ret out)
  have ab: "a \<noteq> b" using ok by (simp add: pair_ok_def)
  show ?thesis
  proof (cases "s = b")
    case True
    with BIO_read_pair [OF ok rd(3)] rd ab show ?thesis by auto
  next
    case False
    with rd have "s = a" by simp
    with BIO_read_pair [OF ok [unfolded pair_ok_sym [of a]] rd(3)] rd ab show ?thesis
      by (auto simp: same_pair_sym [of b])
  qed
next
  case (ctrl s ptr cmd larg ret)
  with BIO_ctrl_pair [OF ok ctrl(2,3), of cmd larg] show ?thesis by auto
qed

lemma pair_run_keeps:
  assumes "pair_run a b st evs st'" "pair_ok a b st"
  shows "same_pair a b st st' \<and> pending a st @ sent a evs = received b evs @ pending a st' \<and>
    pending b st @ sent b evs = received a evs @ pending b st'"
  using assms
proof (induction rule: pair_run.induct)
  case (start st)
  then show ?case by (simp add: same_pair_def)
next
  case (step st evs st' ev st'')
  then have i: "same_pair a b st st'" "pending a st @ sent a evs = received b evs @ pending a st'"
    "pending b st @ sent b evs = received a evs @ pending b st'" by simp_all
  then have "pair_ok a b st'" by (simp add: same_pair_def)
  from pair_step_keeps [OF this step.hyps(2)] i show ?case
    by (metis append.assoc received_append same_pair_trans sent_append)
qed

section \<open>The directions of a pair are queues\<close>

text \<open>What a caller does with one direction: offer bytes, as many as an \<open>int\<close> can count, and take bytes.\<close>

definition pair_put :: "nat \<Rightarrow> store \<Rightarrow> u8 list \<Rightarrow> (nat \<times> store) option" where
  "pair_put a st bs = do {
     (ret, st) \<leftarrow> BIO_write (Some a) (Some bs) (int (min (length bs) INT_MAX_nat)) st; Some (nat ret, st) }"

definition pair_get :: "nat \<Rightarrow> store \<Rightarrow> nat \<Rightarrow> (u8 list \<times> store) option" where
  "pair_get b st n = do {
     (ret, out, st) \<leftarrow> BIO_read (Some b) True (int (min n INT_MAX_nat)) st; Some (out, st) }"

lemma pending_bounds:
  assumes "pair_ok a b st"
  shows "length (pending a st) \<le> capacity a st" "capacity a st \<le> INT_MAX_nat" "0 < capacity a st"
  using assms by (auto simp: pair_ok_def ring_ok_def elim!: half_okE)

lemma pair_put_law:
  assumes ok: "pair_ok a b st" "\<not> shut a st"
  shows "\<exists>st'. pair_put a st bs = Some (min (length bs) (capacity a st - length (pending a st)), st') \<and>
    (pair_ok a b st' \<and> \<not> shut a st') \<and>
    pending a st' = pending a st @ take (capacity a st - length (pending a st)) bs \<and> capacity a st' = capacity a st"
proof -
  define n room where "n = min (length bs) INT_MAX_nat" and "room = capacity a st - length (pending a st)"
  have "capacity a st \<le> INT_MAX_nat" by (rule pending_bounds [OF ok(1)])
  then have w: "write_room a (int n) st = min (length bs) room" by (simp add: write_room_def room_def n_def)
  have n: "int n \<le> int INT_MAX_nat" "Some bs \<noteq> None \<Longrightarrow> nat (int n) \<le> length (data_bytes (Some bs))"
    by (simp_all add: data_bytes_def n_def)
  have n0: "n = 0 \<Longrightarrow> bs = []" by (simp add: n_def min_def split: if_splits)
  have t: "take (min (length bs) room) bs = take room bs" by (simp add: min_def)
  obtain st' where r: "BIO_write (Some a) (Some bs) (int n) st =
      Some (if int n \<le> 0 then 0 else if min (length bs) room = 0 then -1 else int (min (length bs) room), st')"
      "same_pair a b st st'" "\<not> shut a st'" "pending a st' = pending a st @ take room bs"
    using BIO_write_pair [OF ok(1) n] ok(2) unfolding w by (auto simp: data_bytes_def t)
  have "nat (if int n \<le> 0 then 0 else if min (length bs) room = 0 then -1 else int (min (length bs) room)) =
      min (length bs) room" using n0 by auto
  with r(1) have "pair_put a st bs = Some (min (length bs) room, st')"
    by (simp only: pair_put_def n_def [symmetric] bind.bind_lunit case_prod_conv) 
  then show ?thesis using r by (simp add: room_def same_pair_def)
qed

lemma pair_get_law:
  assumes ok: "pair_ok a b st"
  shows "\<exists>st'. pair_get b st n = Some (take n (pending a st), st') \<and> pair_ok a b st' \<and> shut a st' = shut a st \<and>
    pending a st' = drop n (pending a st) \<and> capacity a st' = capacity a st"
proof -
  let ?n = "min n INT_MAX_nat"
  have b: "length (pending a st) \<le> INT_MAX_nat" using pending_bounds [OF ok] by linarith
  then have t: "take ?n (pending a st) = take n (pending a st)" "drop ?n (pending a st) = drop n (pending a st)"
    by (simp_all add: min_def)
  have "int ?n \<le> int INT_MAX_nat" by simp
  from BIO_read_pair [OF ok this] obtain ret st' where
    "BIO_read (Some b) True (int ?n) st = Some (ret, take ?n (pending a st), st')"
    "same_pair a b st st'" "shut a st' = shut a st" "pending a st' = drop ?n (pending a st)"
    by (auto simp: nat_int)
  then show ?thesis by (simp only: t pair_get_def same_pair_def) simp
qed

interpretation pipe: byte_fifo "\<lambda>st. pair_ok a b st \<and> \<not> shut a st" "pending a" "capacity a" "pair_put a" "pair_get b" for a b
proof
  show "\<exists>q'. pair_put a q bs = Some (min (length bs) (capacity a q - length (pending a q)), q') \<and>
      (pair_ok a b q' \<and> \<not> shut a q') \<and> pending a q' = pending a q @ take (capacity a q - length (pending a q)) bs \<and>
      capacity a q' = capacity a q" if "pair_ok a b q \<and> \<not> shut a q" for q bs
    using pair_put_law that by blast
  show "\<exists>q'. pair_get b q n = Some (take n (pending a q), q') \<and> (pair_ok a b q' \<and> \<not> shut a q') \<and>
      pending a q' = drop n (pending a q) \<and> capacity a q' = capacity a q" if "pair_ok a b q \<and> \<not> shut a q" for q n
    using pair_get_law [of a b q n] that by auto
qed

section \<open>The properties\<close>

lemma new_pair_succeeds:
  assumes "\<forall>n. malloc n \<noteq> None" "a \<noteq> b" "l1 \<le> INT_MAX_nat" "l2 \<le> INT_MAX_nat"
  shows "\<exists>st'. BIO_new_bio_pair malloc a l1 b l2 st = Some (True, Some a, Some b, st')"
proof -
  have m: "\<exists>bf. OPENSSL_malloc malloc n = Some bf" if "n \<le> INT_MAX_nat" for n
  proof -
    have "sz_add n 8 = n + 8" using that by (intro sz_add_small) simp
    then show ?thesis using assms(1) by (auto simp: OPENSSL_malloc_def split: option.splits)
  qed
  obtain z1 z2 where z: "OPENSSL_malloc malloc SIZEOF_BIO = Some z1" "OPENSSL_malloc malloc SIZEOF_BIO_BIO_ST = Some z2"
    using m [of SIZEOF_BIO] m [of SIZEOF_BIO_BIO_ST] by auto
  have n: "BIO_new malloc x s = (Some x, s(x \<mapsto> fresh_bio fresh_b))" for x s
    using z by (simp add: BIO_new_def bio_new_def OPENSSL_zalloc_def fresh_bio_def fresh_b_def)
  obtain bf1 bf2 where bf: "OPENSSL_malloc malloc (default_size l1) = Some bf1" "OPENSSL_malloc malloc (default_size l2) = Some bf2"
    using m [of "default_size l1"] m [of "default_size l2"] assms(3,4) by (fastforce simp: default_size_def)
  have d: "make_buf malloc x l s = Some (True, s(x \<mapsto> fresh_bio (new_b l bf)))"
    if "s x = Some (fresh_bio fresh_b)" "OPENSSL_malloc malloc (default_size l) = Some bf" for x l s bf
    using that by (auto simp: make_buf_def get_b_def upd_b_def fresh_bio_def fresh_b_def new_b_def default_size_def Let_def)
  have g: "bio_ptr (fresh_bio b) = Some b" "b_peer fresh_b = None" for b by (simp_all add: fresh_bio_def fresh_b_def)
  show ?thesis using assms(2) bf
    by (simp add: BIO_new_bio_pair_def n bio_make_pair_def get_b_def d g upd_b_def upd_bio_def)
qed

text \<open>(C33) The comments on the fields of \<open>bio_bio_st\<close> are an invariant of the two ends of a pair: after
  \<open>BIO_new_bio_pair\<close> and any interleaving of writes, reads and control calls on its ends, each end is the
  peer of the other, both are initialised, \<open>len\<close> and \<open>offset\<close> stay within the buffer, \<open>offset\<close> is 0 when
  \<open>len\<close> is 0, and \<open>request\<close> is 0 when \<open>len\<close> is not and never more than the free space.\<close>

theorem pair_invariant:
  assumes "malloc_ok malloc" "a \<noteq> b" "l1 \<le> INT_MAX_nat" "l2 \<le> INT_MAX_nat"
    and "BIO_new_bio_pair malloc a l1 b l2 st0 = Some (True, p, q, st)" "pair_run a b st evs st'"
    and "(s, t) \<in> {(a, b), (b, a)}"
  shows "\<exists>A S bf. st' s = Some A \<and> bio_init A \<and> bio_ptr A = Some S \<and> b_peer S = Some t \<and> b_buf S = Some bf \<and>
    length bf = b_size S \<and> b_len S \<le> b_size S \<and> b_offset S < b_size S \<and> (b_len S = 0 \<longrightarrow> b_offset S = 0) \<and>
    (b_len S \<noteq> 0 \<longrightarrow> b_request S = 0) \<and> b_request S \<le> b_size S - b_len S"
proof -
  have "pair_ok a b st'"
    using new_pair_ok [OF assms(1-5)] pair_run_keeps [OF assms(6)] by (simp add: same_pair_def)
  then have "half_ok s t st'" using assms(7) by (auto simp: pair_ok_def)
  then show ?thesis by (auto simp: ring_ok_def elim!: half_okE split: option.splits)
qed

text \<open>(C1) A pair is two bounded first-in first-out queues of bytes: whatever the calls and their order,
  the bytes one end has accepted are those the other has read, in order, followed by those still in
  the buffer, and these are never more than its size.\<close>

theorem pair_is_two_fifos:
  assumes "malloc_ok malloc" "a \<noteq> b" "l1 \<le> INT_MAX_nat" "l2 \<le> INT_MAX_nat"
    and "BIO_new_bio_pair malloc a l1 b l2 st0 = Some (True, p, q, st)" "pair_run a b st evs st'"
  shows "sent a evs = received b evs @ pending a st' \<and> sent b evs = received a evs @ pending b st' \<and>
    length (pending a st') \<le> default_size l1 \<and> length (pending b st') \<le> default_size l2"
proof -
  note n = new_pair_ok [OF assms(1-5)]
  then have k: "same_pair a b st st'" "pending a st @ sent a evs = received b evs @ pending a st'"
    "pending b st @ sent b evs = received a evs @ pending b st'"
    using pair_run_keeps [OF assms(6)] by blast+
  then have ok: "pair_ok a b st'" by (simp add: same_pair_def)
  with pending_bounds(1) [OF ok] pending_bounds(1) [OF ok [unfolded pair_ok_sym [of a]]] n k
  show ?thesis by (simp add: same_pair_def)
qed

text \<open>(C19) On the ends of a pair every call returns: no assertion fails, no null or freed pointer is
  followed, the copy loops end, and the return values are those documented.  A write takes what there is
  room for and a read what there is, or they return -1 to retry and 0 at the end of the data; a read in
  vain notes how much was asked for.  Each control command returns the number of bytes, the flag or the
  1 it stands for, \<open>ctrl_result\<close>.  No command touches the bytes under way; of the end it is called on
  \<open>BIO_C_SHUTDOWN_WR\<close> alone sets the mark of the end of the data, \<open>BIO_C_RESET_READ_REQUEST\<close> alone clears
  the request and \<open>BIO_CTRL_SET_CLOSE\<close> alone sets the close flag.\<close>

theorem pair_calls_return:
  assumes "malloc_ok malloc" "a \<noteq> b" "l1 \<le> INT_MAX_nat" "l2 \<le> INT_MAX_nat"
    and "BIO_new_bio_pair malloc a l1 b l2 st0 = Some (True, p, q, st)" "pair_run a b st evs st'"
    and "(s, t) \<in> {(a, b), (b, a)}" "count \<le> int INT_MAX_nat" "nat count \<le> length data" "0 < count"
    and "ptr \<in> {None, Some a, Some b}"
  shows "(\<exists>st''. BIO_write (Some s) (Some data) count st' =
        Some (if shut s st' \<or> length (pending s st') = capacity s st' then -1
              else int (min (nat count) (capacity s st' - length (pending s st'))), st'')) \<and>
    (\<exists>st''. BIO_read (Some t) True count st' =
        Some (if pending s st' \<noteq> [] then int (min (nat count) (length (pending s st'))) else if shut s st' then 0 else -1,
              take (nat count) (pending s st'), st'') \<and>
        (pending s st' = [] \<and> \<not> shut s st' \<longrightarrow> request s st'' = min (nat count) (capacity s st'))) \<and>
    (\<exists>st''. BIO_ctrl (Some s) cmd larg ptr st' = Some (ctrl_result s t cmd ptr st', st'') \<and>
        pending s st'' = pending s st' \<and> pending t st'' = pending t st' \<and>
        shut s st'' = (shut s st' \<or> cmd = BIO_C_SHUTDOWN_WR) \<and> shut t st'' = shut t st' \<and>
        request s st'' = (if cmd = BIO_C_RESET_READ_REQUEST then 0 else request s st') \<and>
        close_flag s st'' = (if cmd = BIO_CTRL_SET_CLOSE then sint (word_of_int larg :: u32) else close_flag s st'))"
proof -
  have ab: "pair_ok a b st'"
    using new_pair_ok [OF assms(1-5)] pair_run_keeps [OF assms(6)] by (simp add: same_pair_def)
  with assms(7) have ok: "pair_ok s t st'" by (auto simp: pair_ok_sym [of a])
  have d: "Some data \<noteq> None \<Longrightarrow> nat count \<le> length (data_bytes (Some data))" using assms(9) by (simp add: data_bytes_def)
  have p: "ptr \<in> {None, Some s, Some t}" using assms(7,11) by auto
  have w: "write_room s count st' = min (nat count) (capacity s st' - length (pending s st'))" by (simp add: write_room_def)
  have z: "write_room s count st' = 0 \<longleftrightarrow> length (pending s st') = capacity s st'"
    using assms(10) pending_bounds(1) [OF ok] unfolding w by auto
  show ?thesis
  proof (intro conjI)
    show "\<exists>st''. BIO_write (Some s) (Some data) count st' =
        Some (if shut s st' \<or> length (pending s st') = capacity s st' then -1
              else int (min (nat count) (capacity s st' - length (pending s st'))), st'')"
      using BIO_write_pair [OF ok assms(8) d] assms(10) unfolding z unfolding w by auto
    show "\<exists>st''. BIO_read (Some t) True count st' =
        Some (if pending s st' \<noteq> [] then int (min (nat count) (length (pending s st'))) else if shut s st' then 0 else -1,
              take (nat count) (pending s st'), st'') \<and>
        (pending s st' = [] \<and> \<not> shut s st' \<longrightarrow> request s st'' = min (nat count) (capacity s st'))"
      using BIO_read_pair [OF ok assms(8)] BIO_read_in_vain [OF ok assms(8,10)] assms(10) by auto
    show "\<exists>st''. BIO_ctrl (Some s) cmd larg ptr st' = Some (ctrl_result s t cmd ptr st', st'') \<and>
        pending s st'' = pending s st' \<and> pending t st'' = pending t st' \<and>
        shut s st'' = (shut s st' \<or> cmd = BIO_C_SHUTDOWN_WR) \<and> shut t st'' = shut t st' \<and>
        request s st'' = (if cmd = BIO_C_RESET_READ_REQUEST then 0 else request s st') \<and>
        close_flag s st'' = (if cmd = BIO_CTRL_SET_CLOSE then sint (word_of_int larg :: u32) else close_flag s st')"
      using bio_ctrl_pair_side [OF ok p, of cmd larg] BIO_ctrl_exact [OF ok p, of cmd larg] by auto
  qed
qed

text \<open>(C34) What is sent arrives: when a sender offers the rest of its data and the receiver reads, in
  turns, all the data has arrived, in order and complete, after as many rounds as the buffer's size
  needs.\<close>

theorem pair_delivers:
  assumes "malloc_ok malloc" "a \<noteq> b" "l1 \<le> INT_MAX_nat" "l2 \<le> INT_MAX_nat"
    and "BIO_new_bio_pair malloc a l1 b l2 st0 = Some (True, p, q, st)" "length data \<le> rounds * default_size l1"
  shows "\<exists>st'. fifo_pump (pair_put a) (pair_get b) rounds data st = Some (data, st') \<and> pending a st' = []"
proof -
  have "pair_ok a b st \<and> \<not> shut a st" "pending a st = []" "length data \<le> rounds * capacity a st"
    using new_pair_ok [OF assms(1-5)] assms(6) by simp_all
  from pipe.pump_delivers [OF this] show ?thesis by blast
qed

text \<open>When one end is freed, the other stays safe to use: no pointer to the freed end is left, its
  data is gone, and every read or write fails with -2.\<close>

theorem freed_end_disconnects:
  assumes "pair_ok a b st" "st a = Some A" "bio_references A = 1" "bio_next_bio A = None"
  shows "\<exists>st'. BIO_free (Some a) st = Some (1, st') \<and> st' a = None \<and>
    BIO_write (Some b) data n st' = Some (-2, st') \<and> BIO_read (Some b) nonnull n st' = Some (-2, [], st') \<and>
    BIO_pending (Some b) st' = Some (0, st') \<and> BIO_ctrl_get_write_guarantee (Some b) st' = Some (0, st')"
proof -
  from assms(1) have ab: "a \<noteq> b" "half_ok a b st" "half_ok b a st" by (simp_all add: pair_ok_def)
  from ab(2) obtain S where A: "bio_ptr A = Some S" "b_peer S = Some b" "ring_ok S" "bio_init A"
    using assms(2) by (auto elim: half_okE)
  from ab(3) obtain B T where B: "st b = Some B" "bio_ptr B = Some T" "b_peer T = Some a" "ring_ok T"
    by (auto elim: half_okE)
  obtain bf1 bf2 where bf: "b_buf S = Some bf1" "b_buf T = Some bf2"
    using ring_ok_buf [OF A(3)] ring_ok_buf [OF B(4)] by blast
  define B' where "B' = B\<lparr>bio_init := False, bio_ptr := Some (T\<lparr>b_peer := None, b_len := 0, b_offset := 0\<rparr>)\<rparr>"
  have f: "BIO_free None s = Some (1, s)" for s by (subst BIO_free.simps) simp
  have r: "refcount_dec_and_test_zero 1 = Some (True, 0)" by (simp add: refcount_dec_and_test_zero_def)
  have "\<exists>st1. BIO_free (Some a) st = Some (1, st1(a := None)) \<and> st1 b = Some B'"
    using ab(1) assms(2-4) A B bf
    by (intro exI [of _ "st(b \<mapsto> B')"], subst BIO_free.simps)
      (simp add: fun_upd_twist r upd_bio_def BIO_pop_def bio_free_def get_b_def bio_destroy_pair_def upd_b_def assert_def f B'_def)
  then obtain st1 where s: "BIO_free (Some a) st = Some (1, st1(a := None))" "st1 b = Some B'" by blast
  show ?thesis
    using ab(1) s
    by (intro exI [of _ "st1(a := None)"])
      (simp add: B'_def BIO_write_def BIO_read_def BIO_pending_def BIO_ctrl_get_write_guarantee_def BIO_ctrl_def
        bio_ctrl_def assert_def size_of_int_def)
qed

section \<open>The properties at a concrete pair\<close>

text \<open>An allocator that never fails, and the pair it gives: the first end has a buffer of 4 bytes.\<close>

definition zero_malloc :: "nat \<Rightarrow> u8 list option" where
  "zero_malloc n = Some (replicate n 0)"

lemma zero_malloc_ok: "malloc_ok zero_malloc"
  by (simp add: malloc_ok_def zero_malloc_def)

lemma example_pair: "\<exists>st. BIO_new_bio_pair zero_malloc 0 4 1 0 (\<lambda>_. None) = Some (True, Some 0, Some 1, st)"
  by (rule new_pair_succeeds) (simp_all add: zero_malloc_def)

lemma example_sizes: "(0 :: nat) \<noteq> 1" "(4 :: nat) \<le> INT_MAX_nat" "(0 :: nat) \<le> INT_MAX_nat"
  by simp_all

theorem pair_invariant_witness:
  "\<exists>st A S. BIO_new_bio_pair zero_malloc 0 4 1 0 (\<lambda>_. None) = Some (True, Some 0, Some 1, st) \<and>
    st 0 = Some A \<and> bio_init A \<and> bio_ptr A = Some S \<and> b_peer S = Some 1"
proof -
  from example_pair obtain st where n: "BIO_new_bio_pair zero_malloc 0 4 1 0 (\<lambda>_. None) = Some (True, Some 0, Some 1, st)"
    by blast
  have "(0, 1) \<in> {(0 :: nat, 1 :: nat), (1, 0)}" by simp
  from pair_invariant [OF zero_malloc_ok example_sizes n pair_run.start this] n show ?thesis by blast
qed

theorem pair_is_two_fifos_witness:
  "\<exists>st st'. pair_run 0 1 st [Sent 0 [1, 2, 3]] st' \<and> pending 0 st' = [1, 2, 3] \<and> length (pending 0 st') \<le> 4"
proof -
  from example_pair obtain st where n: "BIO_new_bio_pair zero_malloc 0 4 1 0 (\<lambda>_. None) = Some (True, Some 0, Some 1, st)"
    by blast
  note ok = new_pair_ok [OF zero_malloc_ok example_sizes n]
  have w: "write_room 0 3 st = 3" using ok by (simp add: write_room_def default_size_def)
  from BIO_write_pair [of 0 1 st 3 "Some [1, 2, 3]"] ok obtain st' where
    "BIO_write (Some 0) (Some [1, 2, 3]) 3 st = Some (3, st')"
    by (auto simp: data_bytes_def w)
  then have "pair_step 0 1 st (Sent 0 (take (nat 3) (data_bytes (Some [1, 2, 3])))) st'"
    by (intro pair_step.wr [of _ _ _ 3]) (simp_all add: data_bytes_def)
  then have "pair_step 0 1 st (Sent 0 [1, 2, 3]) st'" by (simp add: data_bytes_def)
  from pair_run.step [OF pair_run.start this] have r: "pair_run 0 1 st [Sent 0 [1, 2, 3]] st'" by simp
  from pair_is_two_fifos [OF zero_malloc_ok example_sizes n r] r show ?thesis
    by (auto simp: default_size_def)
qed

theorem pair_calls_return_witness:
  "\<exists>st st''. BIO_new_bio_pair zero_malloc 0 4 1 0 (\<lambda>_. None) = Some (True, Some 0, Some 1, st) \<and>
    BIO_write (Some 0) (Some [1, 2, 3, 4, 5, 6]) 6 st = Some (4, st'')"
proof -
  from example_pair obtain st where n: "BIO_new_bio_pair zero_malloc 0 4 1 0 (\<lambda>_. None) = Some (True, Some 0, Some 1, st)"
    by blast
  note ok = new_pair_ok [OF zero_malloc_ok example_sizes n]
  have h: "(0, 1) \<in> {(0 :: nat, 1 :: nat), (1, 0)}" "(6 :: int) \<le> int INT_MAX_nat"
    "nat 6 \<le> length [1 :: u8, 2, 3, 4, 5, 6]" "(0 :: int) < 6" "None \<in> {None, Some (0 :: nat), Some 1}" by simp_all
  note c = pair_calls_return [OF zero_malloc_ok example_sizes n pair_run.start h, THEN conjunct1]
  have "(if shut 0 st \<or> length (pending 0 st) = capacity 0 st then -1
         else int (min (nat 6) (capacity 0 st - length (pending 0 st)))) = 4"
    using ok by (simp add: default_size_def)
  with c n show ?thesis by auto
qed

theorem pair_delivers_witness:
  "\<exists>st st'. BIO_new_bio_pair zero_malloc 0 4 1 0 (\<lambda>_. None) = Some (True, Some 0, Some 1, st) \<and>
    fifo_pump (pair_put 0) (pair_get 1) 2 [1, 2, 3, 4, 5, 6, 7] st = Some ([1, 2, 3, 4, 5, 6, 7], st')"
proof -
  from example_pair obtain st where n: "BIO_new_bio_pair zero_malloc 0 4 1 0 (\<lambda>_. None) = Some (True, Some 0, Some 1, st)"
    by blast
  have "length [1 :: u8, 2, 3, 4, 5, 6, 7] \<le> 2 * default_size 4" by (simp add: default_size_def)
  from pair_delivers [OF zero_malloc_ok example_sizes n this] n show ?thesis by blast
qed

theorem freed_end_disconnects_witness:
  "\<exists>st st'. BIO_new_bio_pair zero_malloc 0 4 1 0 (\<lambda>_. None) = Some (True, Some 0, Some 1, st) \<and>
    BIO_free (Some 0) st = Some (1, st') \<and> BIO_write (Some 1) (Some [7]) 1 st' = Some (-2, st')"
proof -
  from example_pair obtain st where n: "BIO_new_bio_pair zero_malloc 0 4 1 0 (\<lambda>_. None) = Some (True, Some 0, Some 1, st)"
    by blast
  note ok = new_pair_ok [OF zero_malloc_ok example_sizes n]
  then obtain A where A: "st 0 = Some A" "bio_references A = 1" "bio_next_bio A = None" by blast
  have "pair_ok 0 1 st" using ok by blast
  from freed_end_disconnects [OF this A, of "Some [7]" 1 True] n show ?thesis by blast
qed

end
