(* ===== verification/Oid.thy ===== *)
theory Oid
  imports Wire_Format
begin

text \<open>
  Object identifiers in \<open>crypto/bytestring\<close>: \<open>CBB_add_asn1_oid_from_text\<close> of \<open>cbb.c\<close> reads the
  dotted decimal form and writes the DER contents, \<open>CBS_asn1_oid_to_text\<close> of \<open>cbs.c\<close> goes back, and
  \<open>CBS_is_valid_asn1_oid\<close> checks the form of the contents.  Both directions are exact.

  \<open>snprintf\<close> of the C library with the format \<open>%PRIu64\<close> is \<open>decimal\<close>.
\<close>

section \<open>Reading the text\<close>

definition parse_dotted_decimal :: "(cbs, u64) op" where
  "parse_dotted_decimal =
    op_bind CBS_get_u64_decimal (\<lambda>out cbs.
      case CBS_get_u8 cbs of
        (None, cbs) \<Rightarrow> (Some out, cbs)
      | (Some dot, cbs) \<Rightarrow> (if dot = 46 \<and> CBS_len cbs > 0 then Some out else None, cbs))"

lemma decimal_loop_shortens:
  "u64_decimal_loop v seen s = (Some w, t) \<Longrightarrow> cbs_len t < cbs_len s \<or> seen \<and> t = s"
proof (induction v seen s rule: u64_decimal_loop.induct)
  case (1 v seen s)
  have sk: "cbs_len (snd (CBS_skip 1 s)) < cbs_len s" if "cbs_len s \<noteq> 0"
    using that by (auto simp: CBS_skip_def cbs_get_def op_bind_def)
  show ?case
  proof (cases "CBS_len s \<noteq> 0 \<and> OPENSSL_isdigit (uint (CBS_data s ! 0))")
    case True
    then show ?thesis
      using "1.prems" "1.IH" [OF True refl refl] sk
      by (subst (asm) u64_decimal_loop.simps) (fastforce simp: Let_def split: if_splits)
  next
    case False
    then show ?thesis using "1.prems" by (subst (asm) u64_decimal_loop.simps) (simp split: if_splits)
  qed
qed

lemma parse_dotted_shortens: "parse_dotted_decimal s = (Some v, t) \<Longrightarrow> cbs_len t < cbs_len s"
proof -
  assume p: "parse_dotted_decimal s = (Some v, t)"
  then obtain w r where w: "CBS_get_u64_decimal s = (Some w, r)"
    "(case CBS_get_u8 r of (None, cbs) \<Rightarrow> (Some w, cbs)
      | (Some dot, cbs) \<Rightarrow> (if dot = 46 \<and> CBS_len cbs > 0 then Some w else None, cbs)) = (Some v, t)"
    unfolding parse_dotted_decimal_def by blast
  have "cbs_len r < cbs_len s" using decimal_loop_shortens [of 0 False s w r] w(1) by (simp add: CBS_get_u64_decimal_def)
  moreover have "cbs_len t \<le> cbs_len r"
    using w(2) by (auto simp: CBS_get_u8_def cbs_get_def op_bind_def split: if_splits)
  ultimately show ?thesis by simp
qed

function oid_text_loop :: "(nat \<Rightarrow> u8 list option) \<Rightarrow> nat \<Rightarrow> cbs \<Rightarrow> cbb \<Rightarrow> unit option \<times> cbb" where
  "oid_text_loop malloc d cbs s =
    (if CBS_len cbs > 0 then
       (case parse_dotted_decimal cbs of
          (None, _) \<Rightarrow> (None, s)
        | (Some a, cbs) \<Rightarrow> op_bind (add_base128_integer malloc d a) (\<lambda>_. oid_text_loop malloc d cbs) s)
     else (Some (), s))"
  by pat_completeness auto
termination
  by (relation "measure (\<lambda>(malloc, d, cbs, s). cbs_len cbs)") (auto dest: parse_dotted_shortens [OF sym])

declare oid_text_loop.simps [simp del]

definition CBB_add_asn1_oid_from_text :: "(nat \<Rightarrow> u8 list option) \<Rightarrow> nat \<Rightarrow> u8 list \<Rightarrow> nat \<Rightarrow> (cbb, unit) op" where
  "CBB_add_asn1_oid_from_text malloc d txt len =
    op_bind (CBB_flush malloc d) (\<lambda>_ s.
      case parse_dotted_decimal (CBS_init txt len) of
        (None, _) \<Rightarrow> (None, s)
      | (Some a, cbs) \<Rightarrow>
     (case parse_dotted_decimal cbs of
        (None, _) \<Rightarrow> (None, s)
      | (Some b, cbs) \<Rightarrow>
          if a > 2 \<or> (a < 2 \<and> b > 39) \<or> b > -1 - 80 then (None, s)
          else op_bind (add_base128_integer malloc d (40 * a + b)) (\<lambda>_. oid_text_loop malloc d cbs) s))"

section \<open>Writing the text\<close>

fun decimal :: "nat \<Rightarrow> u8 list" where
  "decimal v = (if v < 10 then [] else decimal (v div 10)) @ [word_of_nat (48 + v mod 10)]"

declare decimal.simps [simp del]

definition add_decimal :: "(nat \<Rightarrow> u8 list option) \<Rightarrow> nat \<Rightarrow> u64 \<Rightarrow> (cbb, unit) op" where
  "add_decimal malloc out v =
    (let buf = decimal (unat v) in CBB_add_bytes malloc out buf (length buf))"

text \<open>The loop of \<open>CBS_is_valid_asn1_oid\<close> with its variable \<open>prev\<close>; its value is the value of
  \<open>prev\<close> after it.\<close>

function valid_oid_loop :: "cbs \<Rightarrow> u8 \<Rightarrow> u8 option" where
  "valid_oid_loop copy prev =
    (case CBS_get_u8 copy of
       (None, _) \<Rightarrow> Some prev
     | (Some v, copy) \<Rightarrow> if prev AND 0x80 = 0 \<and> v = 0x80 then None else valid_oid_loop copy v)"
  by pat_completeness auto
termination
  by (relation "measure (\<lambda>(copy, prev). cbs_len copy)") (auto dest: CBS_get_u8_shortens [OF sym])

declare valid_oid_loop.simps [simp del]

definition CBS_is_valid_asn1_oid :: "cbs \<Rightarrow> bool" where
  "CBS_is_valid_asn1_oid cbs \<longleftrightarrow>
    (if CBS_len cbs = 0 then False
     else case valid_oid_loop cbs 0 of None \<Rightarrow> False | Some prev \<Rightarrow> prev AND 0x80 = 0)"

lemma base128_loop_shortens: "base128_loop v s = (Some w, t) \<Longrightarrow> cbs_len t < cbs_len s"
proof (induction v s rule: base128_loop.induct)
  case (1 v s)
  obtain x r where g: "CBS_get_u8 s = (x, r)" by fastforce
  with "1.prems" obtain b where b: "x = Some b" by (subst (asm) base128_loop.simps) (auto split: option.splits)
  have r: "cbs_len r < cbs_len s" using CBS_get_u8_shortens g b by blast
  let ?w = "push_bit 7 v OR ucast (b AND 0x7f)"
  have step: "base128_loop v s = (if drop_bit (64 - 7) v \<noteq> 0 \<or> v = 0 \<and> b = 0x80 then (None, r)
      else if b AND 0x80 \<noteq> 0 then base128_loop ?w r else (Some ?w, r))"
    using g b by (subst base128_loop.simps) (simp only: option.case prod.case Let_def split: if_splits, blast)
  then consider "base128_loop ?w r = (Some w, t)" "\<not> drop_bit (64 - 7) v \<noteq> 0" "\<not> (v = 0 \<and> b = 0x80)" "b AND 0x80 \<noteq> 0" | "t = r"
    using "1.prems" by (metis option.distinct(1) prod.inject)
  then show ?case
  proof cases
    case 1
    then show ?thesis using "1.IH" [OF g [symmetric] b _ _ refl] r by fastforce
  qed (use r in simp)
qed

lemma parse_base128_shortens: "parse_base128_integer s = (Some w, t) \<Longrightarrow> cbs_len t < cbs_len s"
  by (simp add: parse_base128_integer_def base128_loop_shortens)

function oid_components_loop :: "(nat \<Rightarrow> u8 list option) \<Rightarrow> cbs \<Rightarrow> cbb \<Rightarrow> unit option \<times> cbb" where
  "oid_components_loop malloc copy cbb =
    (if CBS_len copy \<noteq> 0 then
       (case parse_base128_integer copy of
          (None, _) \<Rightarrow> (None, cbb)
        | (Some v, copy) \<Rightarrow>
            op_bind (CBB_add_u8 malloc 0 46) (\<lambda>_.
              op_bind (add_decimal malloc 0 v) (\<lambda>_. oid_components_loop malloc copy)) cbb)
     else (Some (), cbb))"
  by pat_completeness auto
termination
  by (relation "measure (\<lambda>(malloc, copy, cbb). cbs_len copy)") (auto dest: parse_base128_shortens [OF sym])

declare oid_components_loop.simps [simp del]

text \<open>The first two components, and all that \<open>CBS_asn1_oid_to_text\<close> writes up to the null byte.\<close>

definition oid_first_components :: "(nat \<Rightarrow> u8 list option) \<Rightarrow> u64 \<Rightarrow> (cbb, unit) op" where
  "oid_first_components malloc v =
    (if v \<ge> 80
     then op_bind (CBB_add_bytes malloc 0 [50, 46] 2) (\<lambda>_. add_decimal malloc 0 (v - 80))
     else op_bind (add_decimal malloc 0 (v div 40)) (\<lambda>_.
            op_bind (CBB_add_u8 malloc 0 46) (\<lambda>_. add_decimal malloc 0 (v mod 40))))"

definition CBS_asn1_oid_to_text :: "(nat \<Rightarrow> u8 list option) \<Rightarrow> cbs \<Rightarrow> u8 list option" where
  "CBS_asn1_oid_to_text malloc cbs =
    (case CBB_init malloc 32 of
       None \<Rightarrow> None
     | Some cbb \<Rightarrow>
    (case parse_base128_integer cbs of
       (None, _) \<Rightarrow> None
     | (Some v, copy) \<Rightarrow>
    (case op_bind (oid_first_components malloc v) (\<lambda>_.
            op_bind (oid_components_loop malloc copy) (\<lambda>_.
              op_bind (CBB_add_u8 malloc 0 0) (\<lambda>_. CBB_finish malloc 0 False))) cbb of
       (None, _) \<Rightarrow> None
     | (Some (txt, txt_len), _) \<Rightarrow> txt)))"

section \<open>Decimal numbers\<close>

lemma decimal_nonempty [simp]: "decimal n \<noteq> []"
  by (subst decimal.simps) simp

lemma digit_of: "k < 10 \<Longrightarrow> is_digit (word_of_nat (48 + k)) \<and> unat (word_of_nat (48 + k) :: u8) = 48 + k"
  by (simp add: is_digit_def unat_u8_of_nat del: of_nat_add)

lemma decimal_digits: "b \<in> set (decimal n) \<Longrightarrow> is_digit b"
proof (induction n rule: decimal.induct)
  case (1 v)
  then show ?case using digit_of [of "v mod 10"] by (subst (asm) decimal.simps) (auto split: if_splits)
qed

lemma dec_val_append: "dec_val a (xs @ ys) = dec_val (dec_val a xs) ys"
  by (induction xs arbitrary: a) simp_all

lemma dec_val_decimal: "dec_val 0 (decimal n) = n"
proof (induction n rule: decimal.induct)
  case (1 v)
  have "dec_val a [word_of_nat (48 + v mod 10)] = a * 10 + v mod 10" for a
    using digit_of [of "v mod 10"] by simp
  then show ?case using 1 by (subst decimal.simps) (auto simp: dec_val_append)
qed

lemma hd_decimal: "hd (decimal n) = 48 \<Longrightarrow> n = 0"
proof (induction n rule: decimal.induct)
  case (1 v)
  show ?case
  proof (cases "v < 10")
    case True
    then have "hd (decimal v) = word_of_nat (48 + v)" by (subst decimal.simps) simp
    then show ?thesis using "1.prems" digit_of [of v] True by simp
  next
    case False
    then have "hd (decimal v) = hd (decimal (v div 10))" by (subst decimal.simps) (simp add: hd_append)
    then show ?thesis using "1.IH" False "1.prems" by simp
  qed
qed

lemma length_decimal: "n < 10 ^ Suc k \<Longrightarrow> length (decimal n) \<le> Suc k"
proof (induction k arbitrary: n)
  case 0
  then show ?case by (subst decimal.simps) simp
next
  case (Suc k)
  then have "n div 10 < 10 ^ Suc k" by (simp add: div_less_iff_less_mult mult.commute)
  then show ?case using Suc.IH by (subst decimal.simps) simp
qed

lemma decimal_dec_val:
  assumes "ds \<noteq> []" "\<forall>d\<in>set ds. is_digit d" "hd ds = 48 \<longrightarrow> length ds = 1"
  shows "decimal (dec_val 0 ds) = ds"
  using assms
proof (induction ds rule: rev_induct)
  case (snoc d ds)
  have d: "is_digit d" using snoc.prems by simp
  then obtain k where k: "unat d = 48 + k" "k < 10" unfolding is_digit_def using le_Suc_ex by fastforce
  then have dk: "d = word_of_nat (48 + k)" by (rule_tac unat_eq_word_of_nat)
  have val: "dec_val 0 (ds @ [d]) = dec_val 0 ds * 10 + k" using k by (simp add: dec_val_append)
  show ?case
  proof (cases "ds = []")
    case True
    then show ?thesis using k dk by (subst decimal.simps) simp
  next
    case False
    then have IH: "decimal (dec_val 0 ds) = ds" using snoc by (auto simp: hd_append)
    have "dec_val 0 ds \<noteq> 0"
    proof
      assume z: "dec_val 0 ds = 0"
      have "ds = [48]" using IH unfolding z by (subst (asm) decimal.simps) simp
      then show False using snoc.prems(3) by simp
    qed
    then have "\<not> dec_val 0 ds * 10 + k < 10" by simp
    then show ?thesis unfolding val using k dk IH by (subst decimal.simps) simp
  qed
qed simp

lemma takeWhile_decimal:
  "takeWhile is_digit (decimal n) = decimal n"
  "\<not> is_digit b \<Longrightarrow> takeWhile is_digit (decimal n @ b # bs) = decimal n"
  using decimal_digits by (auto simp: takeWhile_append takeWhile_eq_all_conv)

section \<open>Object identifiers\<close>

fun dotted :: "nat list \<Rightarrow> u8 list" where
  "dotted [] = []"
| "dotted [n] = decimal n"
| "dotted (n # ns) = decimal n @ 46 # dotted ns"

fun valid_oid :: "nat list \<Rightarrow> bool" where
  "valid_oid (a # b # ns) \<longleftrightarrow> a \<le> 2 \<and> (a < 2 \<longrightarrow> b \<le> 39) \<and> 40 * a + b < 2 ^ 64 \<and> (\<forall>n\<in>set ns. n < 2 ^ 64)"
| "valid_oid _ \<longleftrightarrow> False"

fun oid_der :: "nat list \<Rightarrow> u8 list" where
  "oid_der (a # b # ns) = b128 (40 * a + b) @ concat (map b128 ns)"
| "oid_der _ = []"

lemma dotted_nonempty: "dotted ns = [] \<longleftrightarrow> ns = []"
  by (induction ns rule: dotted.induct) simp_all

lemma dotted_Cons: "dotted (n # ns) = decimal n @ concat (map (\<lambda>n. 46 # decimal n) ns)"
  by (induction ns arbitrary: n) simp_all

section \<open>One component of the text\<close>

lemma u64_decimal_text:
  assumes ok: "cbs_ok s" and b: "cbs_bytes s = decimal n @ rest" "rest = [] \<or> \<not> is_digit (hd rest)" "n < 2 ^ 64"
  shows "CBS_get_u64_decimal s = (Some (word_of_nat n), cbs_adv (length (decimal n)) s)"
proof -
  have "takeWhile is_digit (cbs_bytes s) = decimal n"
    using b takeWhile_decimal by (cases rest) auto
  moreover have "hd (decimal n) = 48 \<longrightarrow> length (decimal n) = 1"
    using hd_decimal [of n] by (auto simp: decimal.simps [of 0])
  moreover have "unat (word_of_nat n :: u64) = n" using b(3) by (simp add: unat_of_nat)
  ultimately show ?thesis using u64_decimal_iff [OF ok] by (simp add: Let_def dec_val_decimal)
qed

lemma parse_dotted_complete:
  assumes ok: "cbs_ok s" and b: "cbs_bytes s = dotted (n # ns)" and n: "n < 2 ^ 64"
  obtains t where "parse_dotted_decimal s = (Some (word_of_nat n), t)" "cbs_bytes t = dotted ns" "cbs_ok t"
proof (cases ns)
  case Nil
  let ?t = "cbs_adv (length (decimal n)) s"
  have p: "CBS_get_u64_decimal s = (Some (word_of_nat n), ?t)"
    using u64_decimal_text [OF ok, of n "[]"] b n Nil by simp
  have l: "length (decimal n) = cbs_len s" using length_cbs_bytes [OF ok] b Nil by simp
  then have t: "cbs_ok ?t" "cbs_bytes ?t = []" using ok b Nil by simp_all
  then have "CBS_get_u8 ?t = (None, ?t)" using CBS_get_u8_eq [OF t(1)] by simp
  then have "parse_dotted_decimal s = (Some (word_of_nat n), ?t)"
    using p by (simp add: parse_dotted_decimal_def)
  then show thesis using that t Nil by simp
next
  case (Cons m ms)
  let ?t = "cbs_adv (length (decimal n)) s"
  have b': "cbs_bytes s = decimal n @ 46 # dotted ns" using b Cons by simp
  have p: "CBS_get_u64_decimal s = (Some (word_of_nat n), ?t)"
    using u64_decimal_text [OF ok b'] n by (simp add: is_digit_def)
  have l: "cbs_len s = length (decimal n) + Suc (length (dotted ns))" using length_cbs_bytes [OF ok] b' by simp
  then have t: "cbs_ok ?t" "cbs_bytes ?t = 46 # dotted ns" using ok b' by simp_all
  have "CBS_get_u8 ?t = (Some 46, cbs_adv 1 ?t)" using CBS_get_u8_eq [OF t(1)] t(2) by simp
  moreover have "cbs_len (cbs_adv 1 ?t) > 0" using l Cons dotted_nonempty [of ns] by (cases "dotted ns") simp_all
  ultimately have "parse_dotted_decimal s = (Some (word_of_nat n), cbs_adv 1 ?t)"
    using p by (simp add: parse_dotted_decimal_def)
  then show thesis using that t l ok b' by simp
qed

lemma parse_dotted_sound:
  assumes ok: "cbs_ok s" and p: "parse_dotted_decimal s = (Some v, t)"
  shows "cbs_ok t \<and> (\<forall>ns. cbs_bytes t = dotted ns \<longrightarrow> cbs_bytes s = dotted (unat v # ns))"
proof -
  obtain w r where w: "CBS_get_u64_decimal s = (Some w, r)"
    "(case CBS_get_u8 r of (None, cbs) \<Rightarrow> (Some w, cbs)
      | (Some dot, cbs) \<Rightarrow> (if dot = 46 \<and> CBS_len cbs > 0 then Some w else None, cbs)) = (Some v, t)"
    using p unfolding parse_dotted_decimal_def by blast
  define ds where "ds = takeWhile is_digit (cbs_bytes s)"
  have d: "ds \<noteq> []" "hd ds = 48 \<longrightarrow> length ds = 1" "unat w = dec_val 0 ds" "r = cbs_adv (length ds) s"
    using u64_decimal_iff [OF ok, of w r] w(1) by (simp_all add: Let_def ds_def)
  obtain rest where bs: "cbs_bytes s = ds @ rest"
    by (metis ds_def takeWhile_dropWhile_id)
  have dd: "decimal (unat w) = ds"
    using decimal_dec_val [OF d(1) _ d(2)] d(3) set_takeWhileD unfolding ds_def by metis
  have "length ds \<le> cbs_len s" using length_cbs_bytes [OF ok] bs by simp
  then have r: "cbs_ok r" "cbs_bytes r = rest" using ok d(4) bs by simp_all
  show ?thesis
  proof (cases "cbs_bytes r")
    case Nil
    then have "t = r" "v = w" using w(2) CBS_get_u8_eq [OF r(1)] by simp_all
    moreover have "cbs_bytes s = dotted [unat w]" using Nil r(2) bs dd by simp
    moreover have "ns = []" if "[] = dotted ns" for ns using that dotted_nonempty [of ns] by simp
    ultimately show ?thesis using r(1) Nil by metis
  next
    case (Cons b bs')
    then have t: "b = 46" "t = cbs_adv 1 r" "v = w" "cbs_len t > 0"
      using w(2) CBS_get_u8_eq [OF r(1)] by (auto split: if_splits)
    have okt: "cbs_ok t" using r(1) t(2,4) by simp
    have bt: "cbs_bytes t = bs'" "bs' \<noteq> []"
      using t(2,4) Cons length_cbs_bytes [OF okt] by auto
    have "cbs_bytes s = dotted (unat v # ns)" if tn: "cbs_bytes t = dotted ns" for ns
    proof -
      obtain m ms where ns: "ns = m # ms" using tn bt by (cases ns) auto
      have "cbs_bytes s = ds @ 46 # dotted ns" using bs r(2) Cons t(1) bt(1) tn by simp
      then show ?thesis unfolding ns t(3) by (simp add: dd)
    qed
    then show ?thesis using okt by blast
  qed
qed

section \<open>From text to encoding\<close>

lemma adds_oid_text_loop:
  assumes m: "malloc_ok malloc"
  shows "cbs_ok c \<Longrightarrow> cbs_bytes c = dotted ns \<Longrightarrow> \<forall>n\<in>set ns. n < 2 ^ 64 \<Longrightarrow>
    adds_at malloc d (oid_text_loop malloc d c) (Some (concat (map b128 ns)))"
proof (induction ns arbitrary: c)
  case Nil
  then have "cbs_len c = 0" using length_cbs_bytes by fastforce
  then have "oid_text_loop malloc d c = op_ret ()" by (intro ext) (subst oid_text_loop.simps, simp)
  then show ?case using adds_at_ret [of malloc d "()"] by (simp only: list.map concat.simps)
next
  case (Cons n ns)
  obtain t where t: "parse_dotted_decimal c = (Some (word_of_nat n), t)" "cbs_bytes t = dotted ns" "cbs_ok t"
    using parse_dotted_complete [OF Cons.prems(1,2)] Cons.prems(3) by auto
  have "cbs_len c > 0" using parse_dotted_shortens [OF t(1)] by simp
  then have e: "oid_text_loop malloc d c =
      op_bind (add_base128_integer malloc d (word_of_nat n)) (\<lambda>_. oid_text_loop malloc d t)"
    using t(1) by (intro ext) (subst oid_text_loop.simps, simp)
  have u: "unat (word_of_nat n :: u64) = n" using Cons.prems(3) by (simp add: unat_of_nat)
  have "adds_at malloc d (oid_text_loop malloc d c) (Some (b128 (unat (word_of_nat n :: u64)) @ concat (map b128 ns)))"
    unfolding e using Cons.IH [OF t(3,2)] Cons.prems(3)
    by (intro adds_bind_Some adds_adds_at [OF adds_base128] m) simp
  then show ?case unfolding u by simp
qed

lemma oid_text_loop_sound:
  "cbs_ok c \<Longrightarrow> fst (oid_text_loop malloc d c s) \<noteq> None \<Longrightarrow> \<exists>ns. cbs_bytes c = dotted ns \<and> (\<forall>n\<in>set ns. n < 2 ^ 64)"
proof (induction "cbs_len c" arbitrary: c s rule: less_induct)
  case less
  show ?case
  proof (cases "cbs_len c = 0")
    case True
    then have "cbs_bytes c = dotted []" by (simp add: cbs_bytes_def)
    then show ?thesis by (intro exI [of _ "[]"]) simp
  next
    case False
    obtain x t where p: "parse_dotted_decimal c = (x, t)" by fastforce
    then obtain v where v: "x = Some v"
      using less.prems(2) False by (subst (asm) oid_text_loop.simps) (auto split: option.splits)
    have "oid_text_loop malloc d c s = op_bind (add_base128_integer malloc d v) (\<lambda>_. oid_text_loop malloc d t) s"
      using p v False by (subst oid_text_loop.simps) simp
    then obtain s' where "fst (oid_text_loop malloc d t s') \<noteq> None"
      using less.prems(2) by (auto simp: op_bind_def split: prod.splits option.splits)
    moreover note snd = parse_dotted_sound [OF less.prems(1) p [unfolded v]]
    ultimately obtain ns where "cbs_bytes t = dotted ns" "\<forall>n\<in>set ns. n < 2 ^ 64"
      using less.hyps [OF parse_dotted_shortens [OF p [unfolded v]]] by blast
    then have "cbs_bytes c = dotted (unat v # ns)" "\<forall>n\<in>set (unat v # ns). n < 2 ^ 64"
      using snd unsigned_less [of v, where 'a = nat] by simp_all
    then show ?thesis by blast
  qed
qed

lemma oid_first_word:
  assumes "a \<le> 2" "a < 2 \<longrightarrow> b \<le> 39" "40 * a + b < 2 ^ 64"
  shows "\<not> (word_of_nat a > (2 :: u64) \<or> (word_of_nat a < (2 :: u64) \<and> word_of_nat b > (39 :: u64)) \<or>
      word_of_nat b > (-1 - 80 :: u64))"
    "unat (40 * word_of_nat a + word_of_nat b :: u64) = 40 * a + b"
proof -
  have u: "unat (word_of_nat a :: u64) = a" "unat (word_of_nat b :: u64) = b" using assms by (simp_all add: unat_of_nat)
  show "\<not> (word_of_nat a > (2 :: u64) \<or> (word_of_nat a < (2 :: u64) \<and> word_of_nat b > (39 :: u64)) \<or>
      word_of_nat b > (-1 - 80 :: u64))"
    unfolding word_less_nat_alt u using assms by auto
  have "(40 * word_of_nat a + word_of_nat b :: u64) = word_of_nat (40 * a + b)" by simp
  then show "unat (40 * word_of_nat a + word_of_nat b :: u64) = 40 * a + b"
    using assms(3) by (simp only: unat_of_nat) simp
qed

lemma oid_first_word_sound:
  fixes a b :: u64
  assumes "\<not> (a > 2 \<or> (a < 2 \<and> b > 39) \<or> b > -1 - 80)"
  shows "unat a \<le> 2" "unat a < 2 \<longrightarrow> unat b \<le> 39" "40 * unat a + unat b < 2 ^ 64"
proof -
  have m: "unat (-1 - 80 :: u64) = 2 ^ 64 - 81" by simp
  have "unat a \<le> 2 \<and> (unat a < 2 \<longrightarrow> unat b \<le> 39) \<and> unat b \<le> 2 ^ 64 - 81"
    using assms unfolding word_less_nat_alt m by auto
  then show "unat a \<le> 2" "unat a < 2 \<longrightarrow> unat b \<le> 39" "40 * unat a + unat b < 2 ^ 64" by simp_all
qed

lemma adds_oid_from_text:
  assumes m: "malloc_ok malloc" and v: "valid_oid os" and l: "len \<le> length txt" "len < SIZE_LIMIT" "take len txt = dotted os"
  shows "adds malloc d (CBB_add_asn1_oid_from_text malloc d txt len) (Some (oid_der os))"
proof -
  obtain a b ns where os: "os = a # b # ns" "a \<le> 2" "a < 2 \<longrightarrow> b \<le> 39" "40 * a + b < 2 ^ 64" "\<forall>n\<in>set ns. n < 2 ^ 64"
    using v by (cases os rule: valid_oid.cases) simp_all
  define c where "c = CBS_init txt len"
  have c: "cbs_ok c" "cbs_bytes c = dotted (a # b # ns)" using l by (simp_all add: c_def os(1))
  have "a < 2 ^ 64" "b < 2 ^ 64" using os by simp_all
  then obtain t where t: "parse_dotted_decimal c = (Some (word_of_nat a), t)" "cbs_bytes t = dotted (b # ns)" "cbs_ok t"
    using parse_dotted_complete [OF c] by blast
  obtain u where u: "parse_dotted_decimal t = (Some (word_of_nat b), u)" "cbs_bytes u = dotted ns" "cbs_ok u"
    using parse_dotted_complete [OF t(3,2) \<open>b < 2 ^ 64\<close>] .
  note fw = oid_first_word [OF os(2-4)]
  have e: "CBB_add_asn1_oid_from_text malloc d txt len =
      op_bind (CBB_flush malloc d) (\<lambda>_. op_bind (add_base128_integer malloc d (40 * word_of_nat a + word_of_nat b))
        (\<lambda>_. oid_text_loop malloc d u))"
    unfolding CBB_add_asn1_oid_from_text_def c_def [symmetric] t(1) prod.case option.case u(1) if_not_P [OF fw(1)] ..
  have "adds malloc d (op_bind (CBB_flush malloc d) (\<lambda>_. op_bind (add_base128_integer malloc d (40 * word_of_nat a + word_of_nat b))
        (\<lambda>_. oid_text_loop malloc d u)))
      (Some ([] @ b128 (unat (40 * word_of_nat a + word_of_nat b :: u64)) @ concat (map b128 ns)))"
    by (intro adds_bind_Some adds_flush adds_adds_at [OF adds_base128] adds_oid_text_loop m u os(5))
  then show ?thesis unfolding e by (simp add: fw(2) os(1))
qed

lemma oid_from_text_sound:
  assumes len: "len \<le> length txt" "len < SIZE_LIMIT" and r: "fst (CBB_add_asn1_oid_from_text malloc d txt len s) \<noteq> None"
  shows "\<exists>os. valid_oid os \<and> take len txt = dotted os"
proof -
  define c where "c = CBS_init txt len"
  have c: "cbs_ok c" "cbs_bytes c = take len txt" using len by (simp_all add: c_def)
  obtain x s1 where f: "CBB_flush malloc d s = (x, s1)" by fastforce
  obtain y t where t: "parse_dotted_decimal c = (y, t)" by fastforce
  obtain z u where u: "parse_dotted_decimal t = (z, u)" by fastforce
  have "x \<noteq> None \<and> y \<noteq> None \<and> z \<noteq> None"
    using r f t u by (auto simp: CBB_add_asn1_oid_from_text_def c_def op_bind_def split: option.splits)
  then obtain a b where ab: "y = Some a" "z = Some b" "x = Some ()" by auto
  let ?bad = "a > 2 \<or> (a < 2 \<and> b > 39) \<or> b > -1 - 80"
  have e: "CBB_add_asn1_oid_from_text malloc d txt len s = (if ?bad then (None, s1)
      else op_bind (add_base128_integer malloc d (40 * a + b)) (\<lambda>_. oid_text_loop malloc d u) s1)"
    using f t u ab by (simp add: CBB_add_asn1_oid_from_text_def c_def)
  have bad: "\<not> ?bad" using r unfolding e by (auto split: if_splits)
  obtain s2 where "fst (oid_text_loop malloc d u s2) \<noteq> None"
    using r unfolding e if_not_P [OF bad] by (auto simp: op_bind_def split: prod.splits option.splits)
  moreover note p = parse_dotted_sound [OF c(1) t [unfolded ab]]
  moreover note q = parse_dotted_sound [OF p [THEN conjunct1] u [unfolded ab]]
  ultimately obtain ns where ns: "cbs_bytes u = dotted ns" "\<forall>n\<in>set ns. n < 2 ^ 64"
    using oid_text_loop_sound by blast
  then have "take len txt = dotted (unat a # unat b # ns)" using p q c(2) by metis
  moreover have "valid_oid (unat a # unat b # ns)" using oid_first_word_sound [OF bad] ns(2) by simp
  ultimately show ?thesis by blast
qed

section \<open>From encoding to text\<close>

lemma adds_decimal [adds_intros]:
  assumes "malloc_ok malloc"
  shows "adds malloc d (add_decimal malloc d v) (Some (decimal (unat v)))"
proof -
  have "unat v < 2 ^ 64" using unsigned_less [of v, where 'a = nat] by simp
  then have "unat v < 10 ^ Suc 19" by simp
  then have "length (decimal (unat v)) \<le> Suc 19" by (rule length_decimal)
  then show ?thesis
    unfolding add_decimal_def Let_def using adds_bytes [OF assms, of "length (decimal (unat v))" "decimal (unat v)" d] by simp
qed

lemma parse_base128_complete:
  assumes "cbs_ok s" "cbs_bytes s = b128 n @ rest" "n < 2 ^ 64"
  obtains t where "parse_base128_integer s = (Some (word_of_nat n), t)" "cbs_bytes t = rest" "cbs_ok t"
proof -
  let ?t = "cbs_adv (length (b128 n)) s"
  have u: "unat (word_of_nat n :: u64) = n" using assms(3) by (simp add: unat_of_nat)
  have "cbs_bytes ?t = rest" "length (b128 n) \<le> cbs_len s" using assms(2) length_cbs_bytes [OF assms(1)] by simp_all
  moreover from this have "parse_base128_integer s = (Some (word_of_nat n), ?t)"
    using parse_base128_iff [OF assms(1), of "word_of_nat n" ?t] assms(2) u by simp
  ultimately show thesis using that assms(1) by simp
qed

lemma adds_oid_components:
  assumes m: "malloc_ok malloc"
  shows "cbs_ok c \<Longrightarrow> cbs_bytes c = concat (map b128 ns) \<Longrightarrow> \<forall>n\<in>set ns. n < 2 ^ 64 \<Longrightarrow>
    adds_at malloc 0 (oid_components_loop malloc c) (Some (concat (map (\<lambda>n. 46 # decimal n) ns)))"
proof (induction ns arbitrary: c)
  case Nil
  then have "cbs_len c = 0" using length_cbs_bytes by fastforce
  then have "oid_components_loop malloc c = op_ret ()" by (intro ext) (subst oid_components_loop.simps, simp)
  then show ?case using adds_at_ret [of malloc 0 "()"] by (simp only: list.map concat.simps)
next
  case (Cons n ns)
  obtain t where t: "parse_base128_integer c = (Some (word_of_nat n), t)" "cbs_bytes t = concat (map b128 ns)" "cbs_ok t"
    using parse_base128_complete [OF Cons.prems(1), of n "concat (map b128 ns)"] Cons.prems(2,3) by auto
  have "cbs_len c \<noteq> 0" using parse_base128_shortens [OF t(1)] by simp
  then have e: "oid_components_loop malloc c = op_bind (CBB_add_u8 malloc 0 46) (\<lambda>_.
      op_bind (add_decimal malloc 0 (word_of_nat n)) (\<lambda>_. oid_components_loop malloc t))"
    using t(1) by (intro ext) (subst oid_components_loop.simps, simp)
  have u: "unat (word_of_nat n :: u64) = n" using Cons.prems(3) by (simp add: unat_of_nat)
  have "adds_at malloc 0 (oid_components_loop malloc c)
      (Some ([46] @ decimal (unat (word_of_nat n :: u64)) @ concat (map (\<lambda>n. 46 # decimal n) ns)))"
    unfolding e using Cons.IH [OF t(3,2)] Cons.prems(3)
    by (intro adds_bind_Some adds_adds_at [OF adds_decimal] adds_adds_at [OF adds_ints(1)] m) simp
  then show ?case unfolding u by simp
qed

lemma oid_components_sound:
  "cbs_ok c \<Longrightarrow> fst (oid_components_loop malloc c s) \<noteq> None \<Longrightarrow>
    \<exists>ns. cbs_bytes c = concat (map b128 ns) \<and> (\<forall>n\<in>set ns. n < 2 ^ 64)"
proof (induction "cbs_len c" arbitrary: c s rule: less_induct)
  case less
  show ?case
  proof (cases "cbs_len c = 0")
    case True
    then have "cbs_bytes c = concat (map b128 [])" by (simp add: cbs_bytes_def)
    then show ?thesis by (intro exI [of _ "[]"]) simp
  next
    case False
    obtain x t where p: "parse_base128_integer c = (x, t)" by fastforce
    then obtain v where v: "x = Some v"
      using less.prems(2) False by (subst (asm) oid_components_loop.simps) (auto split: option.splits)
    have "oid_components_loop malloc c s = op_bind (CBB_add_u8 malloc 0 46) (\<lambda>_.
        op_bind (add_decimal malloc 0 v) (\<lambda>_. oid_components_loop malloc t)) s"
      using p v False by (subst oid_components_loop.simps) simp
    then obtain s' where s': "fst (oid_components_loop malloc t s') \<noteq> None"
      using less.prems(2) by (auto simp: op_bind_def split: prod.splits option.splits)
    have b: "cbs_bytes c = b128 (unat v) @ cbs_bytes t" "t = cbs_adv (length (b128 (unat v))) c"
      using parse_base128_iff [OF less.prems(1)] p v by blast+
    have "length (b128 (unat v)) \<le> length (cbs_bytes c)" by (subst b(1)) simp
    then have "cbs_ok t" using b(2) less.prems(1) by simp
    then obtain ns where "cbs_bytes t = concat (map b128 ns)" "\<forall>n\<in>set ns. n < 2 ^ 64"
      using less.hyps [OF parse_base128_shortens [OF p [unfolded v]] _ s'] by blast
    then have "cbs_bytes c = concat (map b128 (unat v # ns))" "\<forall>n\<in>set (unat v # ns). n < 2 ^ 64"
      using b(1) unsigned_less [of v, where 'a = nat] by simp_all
    then show ?thesis by blast
  qed
qed

text \<open>The first two components of the number that encodes both.\<close>

definition first_two :: "nat \<Rightarrow> nat \<times> nat" where
  "first_two n = (if n \<ge> 80 then (2, n - 80) else (n div 40, n mod 40))"

lemma first_two_valid:
  assumes "n < 2 ^ 64" "first_two n = (a, b)"
  shows "40 * a + b = n" "a \<le> 2" "a < 2 \<longrightarrow> b \<le> 39"
  using assms by (auto simp: first_two_def split: if_splits)

lemma first_two_unique: "a \<le> 2 \<Longrightarrow> a < 2 \<longrightarrow> b \<le> 39 \<Longrightarrow> first_two (40 * a + b) = (a, b)"
proof -
  assume "a \<le> 2" and b: "a < 2 \<longrightarrow> b \<le> 39"
  then have "a = 0 \<or> a = 1 \<or> a = 2" by linarith
  then show ?thesis using b by (elim disjE) (simp_all add: first_two_def)
qed

lemma adds_first_components:
  assumes m: "malloc_ok malloc" and ab: "first_two (unat v) = (a, b)"
  shows "adds malloc 0 (oid_first_components malloc v) (Some (decimal a @ 46 # decimal b))"
proof (cases "v \<ge> 80")
  case True
  then have u: "80 \<le> unat v" by (simp add: word_le_nat_alt)
  then have ab': "a = 2" "b = unat (v - 80)" using ab True by (simp_all add: first_two_def unat_sub)
  have d: "decimal 2 = [50]" by (subst decimal.simps) simp
  have "adds malloc 0 (oid_first_components malloc v) (Some (take 2 [50, 46] @ decimal (unat (v - 80))))"
    unfolding oid_first_components_def if_P [OF True]
    by (intro adds_bind_Some adds_bytes adds_adds_at [OF adds_decimal] m) simp_all
  then show ?thesis by (simp add: ab' d)
next
  case False
  then have u: "\<not> 80 \<le> unat v" by (simp add: word_le_nat_alt)
  then have ab': "a = unat (v div 40)" "b = unat (v mod 40)"
    using ab by (simp_all add: first_two_def unat_div unat_mod)
  have "adds malloc 0 (oid_first_components malloc v) (Some (decimal a @ [46] @ decimal b))"
    unfolding oid_first_components_def if_not_P [OF False] ab'
    by (intro adds_bind_Some adds_decimal adds_adds_at [OF adds_decimal] adds_adds_at [OF adds_ints(1)] m)
  then show ?thesis by simp
qed

lemma adds_oid_to_text:
  assumes m: "malloc_ok malloc" and v: "valid_oid os" and c: "cbs_ok c" "cbs_bytes c = oid_der os"
  obtains w t where "parse_base128_integer c = (Some w, t)"
    "adds malloc 0 (op_bind (oid_first_components malloc w) (\<lambda>_. op_bind (oid_components_loop malloc t) (\<lambda>_. CBB_add_u8 malloc 0 0)))
      (Some (dotted os @ [0]))"
proof -
  obtain a b ns where os: "os = a # b # ns" "a \<le> 2" "a < 2 \<longrightarrow> b \<le> 39" "40 * a + b < 2 ^ 64" "\<forall>n\<in>set ns. n < 2 ^ 64"
    using v by (cases os rule: valid_oid.cases) simp_all
  obtain t where t: "parse_base128_integer c = (Some (word_of_nat (40 * a + b)), t)" "cbs_bytes t = concat (map b128 ns)" "cbs_ok t"
    using parse_base128_complete [OF c(1), of "40 * a + b" "concat (map b128 ns)"] c(2) os by auto
  have u: "unat (word_of_nat (40 * a + b) :: u64) = 40 * a + b" using os(4) by (simp only: unat_of_nat) simp
  have f: "first_two (unat (word_of_nat (40 * a + b) :: u64)) = (a, b)" unfolding u by (rule first_two_unique [OF os(2,3)])
  have "adds malloc 0 (op_bind (oid_first_components malloc (word_of_nat (40 * a + b)))
        (\<lambda>_. op_bind (oid_components_loop malloc t) (\<lambda>_. CBB_add_u8 malloc 0 0)))
      (Some ((decimal a @ 46 # decimal b) @ concat (map (\<lambda>n. 46 # decimal n) ns) @ [0]))"
    by (intro adds_bind_Some adds_first_components m f adds_oid_components t(2,3) os(5) adds_adds_at [OF adds_ints(1)])
  then show thesis using that t(1) by (simp only: os(1) dotted_Cons) simp
qed

lemma oid_to_text_sound:
  assumes c: "cbs_ok c" and p: "parse_base128_integer c = (Some v, t)"
    and r: "fst (oid_components_loop malloc t s) \<noteq> None"
  shows "\<exists>os. valid_oid os \<and> cbs_bytes c = oid_der os"
proof -
  have b: "cbs_bytes c = b128 (unat v) @ cbs_bytes t" "t = cbs_adv (length (b128 (unat v))) c"
    using parse_base128_iff [OF c] p by blast+
  have "length (b128 (unat v)) \<le> length (cbs_bytes c)" by (subst b(1)) simp
  then have "cbs_ok t" using b(2) c by simp
  then obtain ns where ns: "cbs_bytes t = concat (map b128 ns)" "\<forall>n\<in>set ns. n < 2 ^ 64"
    using oid_components_sound r by blast
  obtain x y where xy: "first_two (unat v) = (x, y)" by fastforce
  have lt: "unat v < 2 ^ 64" using unsigned_less [of v, where 'a = nat] by simp
  note f = first_two_valid [OF lt xy]
  have "valid_oid (x # y # ns)" "cbs_bytes c = oid_der (x # y # ns)"
    using f ns lt b(1) by simp_all
  then show ?thesis by blast
qed

text \<open>What \<open>CBS_asn1_oid_to_text\<close> returns: a block that starts with the text and a null byte.\<close>

lemma oid_to_text_valid:
  assumes m: "malloc_ok malloc" and c: "cbs_ok c" and os: "valid_oid os" "cbs_bytes c = oid_der os"
  shows "case CBS_asn1_oid_to_text malloc c of
      Some txt \<Rightarrow> take (length (dotted os) + 1) txt = dotted os @ [0]
    | None \<Rightarrow> \<not> ((\<forall>k<SIZE_LIMIT. malloc k \<noteq> None) \<and> length (dotted os) < 2 ^ 62)"
proof (cases "CBB_init malloc 32")
  case None
  then have "malloc 40 = None"
    by (auto simp: CBB_init_def Let_def OPENSSL_malloc_def split: option.splits if_splits)
  then have "\<not> (\<forall>k<SIZE_LIMIT. malloc k \<noteq> None)" by (auto intro!: exI [of _ 40])
  then show ?thesis using None by (simp add: CBS_asn1_oid_to_text_def)
next
  case (Some s0)
  define f where "f w t = op_bind (oid_first_components malloc w) (\<lambda>_. op_bind (oid_components_loop malloc t) (\<lambda>_. CBB_add_u8 malloc 0 0))" for w t
  have eval: "CBS_asn1_oid_to_text malloc c = (case parse_base128_integer c of (None, _) \<Rightarrow> None
     | (Some w, t) \<Rightarrow> (case op_bind (f w t) (\<lambda>_. CBB_finish malloc 0 False) s0 of
         (None, _) \<Rightarrow> None | (Some (txt, txt_len), _) \<Rightarrow> txt))"
    unfolding CBS_asn1_oid_to_text_def Some option.case f_def op_bind_assoc ..
  have rep: "represents s0 (Builder [] [])" "b_can_resize s0" using init_represents [OF m Some] by simp_all
  have B: "bld_flush 0 (Builder [] []) = Some (Builder [] [])" "0 \<le> length (bld_frames (Builder [] []))"
    by (simp_all add: bld_flush_flushed)
  obtain w u where w: "parse_base128_integer c = (Some w, u)" "adds malloc 0 (f w u) (Some (dotted os @ [0]))"
    using adds_oid_to_text [OF m os(1) c os(2)] unfolding f_def by blast
  obtain r s1 where r: "f w u s0 = (r, s1)" by fastforce
  show ?thesis
  proof (cases r)
    case None
    then have "\<not> room malloc s0 (bld_len (bld_append 0 (dotted os @ [0]) (Builder [] [])))"
      using adds_NoneD [OF w(2) rep(1) B(2) FalseE] r B(1) by blast
    then have "\<not> ((\<forall>k<SIZE_LIMIT. malloc k \<noteq> None) \<and> length (dotted os) < 2 ^ 62)"
      using rep(2) by (auto simp: room_def bld_len_def bld_append_def)
    then show ?thesis using eval w(1) r None by simp
  next
    case (Some un)
    then have "represents s1 (bld_append 0 (dotted os @ [0]) (Builder [] []))"
      using adds_SomeE [OF w(2) rep(1) B(2) FalseE r [unfolded Some]] B(1) by auto
    then have s1: "represents s1 (Builder (dotted os @ [0]) [])" by (simp add: bld_append_def)
    note fin = finish_represented [OF m s1]
    obtain buf where buf: "b_buf s1 = Some buf" using fin by (cases "b_buf s1") (simp_all add: buf_bytes_def)
    then have "CBS_asn1_oid_to_text malloc c = Some buf" using eval w(1) r Some fin by simp
    then show ?thesis using fin buf by (simp add: buf_bytes_def)
  qed
qed

lemma oid_to_text_exact:
  assumes m: "malloc_ok malloc" and c: "cbs_ok c"
  shows "case CBS_asn1_oid_to_text malloc c of
      Some txt \<Rightarrow> \<exists>os. valid_oid os \<and> cbs_bytes c = oid_der os \<and>
        take (length (dotted os) + 1) txt = dotted os @ [0]
    | None \<Rightarrow> \<forall>os. valid_oid os \<and> cbs_bytes c = oid_der os \<longrightarrow>
        \<not> ((\<forall>k<SIZE_LIMIT. malloc k \<noteq> None) \<and> length (dotted os) < 2 ^ 62)"
proof (cases "CBS_asn1_oid_to_text malloc c")
  case None
  then show ?thesis using oid_to_text_valid [OF m c] by auto
next
  case (Some out)
  then obtain s0 where s0: "CBB_init malloc 32 = Some s0" by (auto simp: CBS_asn1_oid_to_text_def split: option.splits)
  obtain x t where p: "parse_base128_integer c = (x, t)" by fastforce
  then obtain w where w: "x = Some w" using Some s0 by (cases x) (simp_all add: CBS_asn1_oid_to_text_def)
  then obtain s1 where "fst (oid_components_loop malloc t s1) \<noteq> None"
    using Some s0 p w unfolding CBS_asn1_oid_to_text_def
    by (auto simp: op_bind_def split: prod.splits option.splits) (metis fst_conv)
  then obtain os where os: "valid_oid os" "cbs_bytes c = oid_der os" using oid_to_text_sound [OF c p [unfolded w]] by blast
  from oid_to_text_valid [OF m c os] Some os show ?thesis by auto
qed

section \<open>The check\<close>

fun valid_bytes :: "u8 list \<Rightarrow> u8 \<Rightarrow> bool" where
  "valid_bytes [] prev \<longleftrightarrow> unat prev < 128"
| "valid_bytes (b # bs) prev \<longleftrightarrow> \<not> (unat prev < 128 \<and> unat b = 128) \<and> valid_bytes bs b"

lemma valid_loop_bytes:
  "cbs_ok c \<Longrightarrow> (\<exists>p. valid_oid_loop c prev = Some p \<and> p AND 0x80 = 0) \<longleftrightarrow> valid_bytes (cbs_bytes c) prev"
proof (induction "cbs_bytes c" arbitrary: c prev)
  case Nil
  then have "valid_oid_loop c prev = Some prev"
    by (subst valid_oid_loop.simps) (simp add: CBS_get_u8_eq)
  then show ?case by (simp add: Nil(1) [symmetric] u8_msb_0)
next
  case (Cons b bs)
  have g: "CBS_get_u8 c = (Some b, cbs_adv 1 c)" using CBS_get_u8_eq [OF Cons.prems] by (simp flip: Cons.hyps(2))
  have l: "1 \<le> cbs_len c" using length_cbs_bytes [OF Cons.prems] by (simp flip: Cons.hyps(2))
  have "unat b = 128 \<longleftrightarrow> b = 0x80" by (auto simp: word_unat_eq_iff)
  then have "valid_oid_loop c prev = (if unat prev < 128 \<and> unat b = 128 then None else valid_oid_loop (cbs_adv 1 c) b)"
    using g by (subst valid_oid_loop.simps) (simp add: u8_msb_0)
  moreover have "cbs_bytes (cbs_adv 1 c) = bs" by (simp flip: Cons.hyps(2))
  ultimately show ?case
    using Cons.hyps(1) [of "cbs_adv 1 c" b] Cons.prems l by (simp flip: Cons.hyps(2))
qed

lemma b128_hi_high: "b \<in> set (b128_hi v) \<Longrightarrow> 128 \<le> unat b"
proof (induction v rule: b128_hi.induct)
  case (1 v)
  have "unat (word_of_nat (128 + v mod 128) :: u8) = 128 + v mod 128"
    by (simp add: unat_u8_of_nat del: of_nat_add)
  then show ?case using 1 by (subst (asm) b128_hi.simps) (auto split: if_splits)
qed

lemma b128_hi_hd: "v \<noteq> 0 \<Longrightarrow> unat (hd (b128_hi v)) \<noteq> 128"
proof (induction v rule: b128_hi.induct)
  case (1 v)
  show ?case
  proof (cases "v < 128")
    case True
    then have "b128_hi v = [word_of_nat (128 + v)]" using "1.prems" by (subst b128_hi.simps) simp
    then show ?thesis using True "1.prems" by (simp add: unat_u8_of_nat del: of_nat_add)
  next
    case False
    then have n: "v div 128 \<noteq> 0" by simp
    then have "b128_hi (v div 128) \<noteq> []" by (subst b128_hi.simps) simp
    then have "hd (b128_hi v) = hd (b128_hi (v div 128))" using "1.prems" by (subst b128_hi.simps) simp
    then show ?thesis using "1.IH" "1.prems" n by simp
  qed
qed

lemma b128_snoc: "unat b < 128 \<Longrightarrow> b128 (a * 128 + unat b) = b128_hi a @ [b]"
  by (simp add: b128_def)

lemma b128_append_eq:
  assumes "b128 m @ xs = b128 n @ ys" shows "xs = ys"
proof -
  have "\<exists>hs l. b128 k = hs @ [l] \<and> (\<forall>b\<in>set hs. 128 \<le> unat b) \<and> unat l < 128" for k
    unfolding b128_def using b128_hi_high by (fastforce simp: unat_u8_of_nat)
  then obtain hs l gs k where h: "b128 m = hs @ [l]" "\<forall>b\<in>set hs. 128 \<le> unat b" "unat l < 128"
    and g: "b128 n = gs @ [k]" "\<forall>b\<in>set gs. 128 \<le> unat b" "unat k < 128" by metis
  have e: "hs @ l # xs = gs @ k # ys" using assms h(1) g(1) by simp
  have "dropWhile (\<lambda>b. 128 \<le> unat b) (hs @ l # xs) = l # xs" "dropWhile (\<lambda>b. 128 \<le> unat b) (gs @ k # ys) = k # ys"
    using h g by (simp_all add: dropWhile_append2)
  then show ?thesis using e by simp
qed

lemma valid_bytes_b128:
  assumes "unat prev < 128 \<longleftrightarrow> a = 0"
  shows "valid_bytes bs prev \<longleftrightarrow> (\<exists>ms. b128_hi a @ bs = concat (map b128 ms))"
  using assms
proof (induction bs arbitrary: a prev)
  case Nil
  show ?case
  proof (cases "a = 0")
    case True
    then show ?thesis using Nil by (auto intro: exI [of _ "[]"])
  next
    case False
    have "b128_hi a \<noteq> concat (map b128 ms)" for ms
    proof
      assume e: "b128_hi a = concat (map b128 ms)"
      have "b128_hi a \<noteq> []" using False by (subst b128_hi.simps) simp
      then obtain m ns where "ms = m # ns" using e by (cases ms) auto
      then have "word_of_nat (m mod 128) \<in> set (b128_hi a)" unfolding e by (simp add: b128_def)
      then show False using b128_hi_high by (fastforce simp: unat_u8_of_nat)
    qed
    then show ?thesis using Nil False by simp
  qed
next
  case (Cons b bs)
  show ?case
  proof (cases "unat b < 128")
    case True
    have v: "valid_bytes (b # bs) prev \<longleftrightarrow> (\<exists>ms. bs = concat (map b128 ms))"
      using Cons.IH [of b 0] True by simp
    have e: "b128_hi a @ b # bs = b128 (a * 128 + unat b) @ bs" using b128_snoc [OF True] by simp
    have "(\<exists>ms. b128 n @ bs = concat (map b128 ms)) \<longleftrightarrow> (\<exists>ms. bs = concat (map b128 ms))" for n
    proof
      assume "\<exists>ms. b128 n @ bs = concat (map b128 ms)"
      then obtain ms where e: "b128 n @ bs = concat (map b128 ms)" by blast
      obtain k ks where "ms = k # ks" using e by (cases ms) (auto simp: b128_def)
      then have "bs = concat (map b128 ks)" using e b128_append_eq by simp
      then show "\<exists>ms. bs = concat (map b128 ms)" by blast
    next
      assume "\<exists>ms. bs = concat (map b128 ms)"
      then obtain ms where "bs = concat (map b128 ms)" by blast
      then have "b128 n @ bs = concat (map b128 (n # ms))" by simp
      then show "\<exists>ms. b128 n @ bs = concat (map b128 ms)" by blast
    qed
    then show ?thesis unfolding e v by simp
  next
    case False
    show ?thesis
    proof (cases "a = 0 \<and> unat b = 128")
      case True
      have "b # bs \<noteq> concat (map b128 ms)" for ms
      proof
        assume e: "b # bs = concat (map b128 ms)"
        then obtain m ns where "ms = m # ns" by (cases ms) auto
        then have "b = hd (b128 m)" using e by (cases "b128_hi (m div 128)") (auto simp: b128_def)
        moreover have "b128_hi k \<noteq> []" if "k \<noteq> 0" for k using that by (subst b128_hi.simps) simp
        ultimately show False
          using True b128_hi_hd [of "m div 128"] by (cases "m div 128 = 0") (auto simp: b128_def unat_u8_of_nat)
      qed
      then show ?thesis using True Cons.prems by simp
    next
      case nz: False
      have e: "b128_hi a @ b # bs = b128_hi (a * 128 + unat b mod 128) @ bs"
        using b128_hi_snoc [of b a] False nz by simp
      have nz': "a * 128 + unat b mod 128 \<noteq> 0"
      proof (cases "a = 0")
        case True
        then have "unat b \<noteq> 128" using nz by simp
        then have "128 < unat b" "unat b < 256" using False u8_lt [of b] by linarith+
        then have "unat b - 128 < 128" "128 \<le> unat b" by linarith+
        then have "unat b mod 128 = unat b - 128" using le_mod_geq [of 128 "unat b"] mod_less by metis
        then show ?thesis using \<open>128 < unat b\<close> by simp
      qed simp
      have v: "valid_bytes (b # bs) prev = valid_bytes bs b" using nz Cons.prems by auto
      show ?thesis unfolding e v by (rule Cons.IH) (use False nz' in simp)
    qed
  qed
qed

lemma valid_oid_exact:
  assumes "cbs_ok c"
  shows "CBS_is_valid_asn1_oid c \<longleftrightarrow> (\<exists>ms. ms \<noteq> [] \<and> cbs_bytes c = concat (map b128 ms))"
proof -
  have "CBS_is_valid_asn1_oid c \<longleftrightarrow> cbs_len c \<noteq> 0 \<and> (\<exists>p. valid_oid_loop c 0 = Some p \<and> p AND 0x80 = 0)"
    by (auto simp: CBS_is_valid_asn1_oid_def split: option.split)
  also have "\<dots> \<longleftrightarrow> cbs_len c \<noteq> 0 \<and> (\<exists>ms. cbs_bytes c = concat (map b128 ms))"
    unfolding valid_loop_bytes [OF assms] using valid_bytes_b128 [of 0 0 "cbs_bytes c"] by simp
  also have "\<dots> \<longleftrightarrow> (\<exists>ms. ms \<noteq> [] \<and> cbs_bytes c = concat (map b128 ms))"
  proof -
    have "concat (map b128 ms) = [] \<longleftrightarrow> ms = []" for ms by (cases ms) (simp_all add: b128_def)
    then show ?thesis using length_cbs_bytes [OF assms] by (metis length_0_conv)
  qed
  finally show ?thesis .
qed

section \<open>The conversions\<close>

lemma oid_from_text_exact:
  assumes m: "malloc_ok malloc" and rep: "represents s B" "d \<le> length (bld_frames B)"
    and l: "len \<le> length txt" "len < SIZE_LIMIT"
  shows "case CBB_add_asn1_oid_from_text malloc d txt len s of
      (Some _, s') \<Rightarrow> \<exists>os B'. valid_oid os \<and> take len txt = dotted os \<and> bld_flush d B = Some B' \<and>
        represents s' (bld_append d (oid_der os) B')
    | (None, _) \<Rightarrow> \<forall>os B'. valid_oid os \<and> take len txt = dotted os \<and> bld_flush d B = Some B' \<longrightarrow>
        \<not> room malloc s (bld_len (bld_append d (oid_der os) B'))"
proof -
  obtain r s' where r: "CBB_add_asn1_oid_from_text malloc d txt len s = (r, s')" by fastforce
  show ?thesis
  proof (cases r)
    case None
    have "\<not> room malloc s (bld_len (bld_append d (oid_der os) B'))"
      if "valid_oid os" "take len txt = dotted os" "bld_flush d B = Some B'" for os B'
      using adds_NoneD [OF adds_oid_from_text [OF m that(1) l that(2)] rep FalseE] r None that by blast
    then show ?thesis using r None by auto
  next
    case (Some u)
    then obtain os where os: "valid_oid os" "take len txt = dotted os"
      using oid_from_text_sound [OF l, of malloc d s] r by auto
    obtain B' where "bld_flush d B = Some B'" "represents s' (bld_append d (oid_der os) B')"
      using adds_SomeE [OF adds_oid_from_text [OF m os(1) l os(2)] rep FalseE r [unfolded Some]] by blast
    then show ?thesis using r Some os by auto
  qed
qed

text \<open>(C10) Object identifiers are converted exactly, both ways.  From text: the writer accepts precisely
  the dotted decimal forms of the identifiers whose components fit, and appends the DER contents;
  otherwise it fails, or there was no room.  To text: the reader accepts precisely those contents, and
  returns the dotted form with a null byte; so each direction inverts the other.  The validity check
  accepts precisely the non-empty sequences of shortest base-128 numbers, of any size.\<close>

theorem oid_conversions_exact:
  assumes "malloc_ok malloc" "represents s B" "d \<le> length (bld_frames B)" "length txt < SIZE_LIMIT" "cbs_ok c"
  shows "(case CBB_add_asn1_oid_from_text malloc d txt (length txt) s of
      (Some _, s') \<Rightarrow> \<exists>os B'. valid_oid os \<and> txt = dotted os \<and> bld_flush d B = Some B' \<and>
        represents s' (bld_append d (oid_der os) B')
    | (None, _) \<Rightarrow> \<forall>os B'. valid_oid os \<and> txt = dotted os \<and> bld_flush d B = Some B' \<longrightarrow>
        \<not> room malloc s (bld_len (bld_append d (oid_der os) B'))) \<and>
   (case CBS_asn1_oid_to_text malloc c of
      Some out \<Rightarrow> \<exists>os. valid_oid os \<and> cbs_bytes c = oid_der os \<and>
        take (length (dotted os) + 1) out = dotted os @ [0]
    | None \<Rightarrow> \<forall>os. valid_oid os \<and> cbs_bytes c = oid_der os \<longrightarrow>
        \<not> ((\<forall>k<SIZE_LIMIT. malloc k \<noteq> None) \<and> length (dotted os) < 2 ^ 62)) \<and>
   (CBS_is_valid_asn1_oid c \<longleftrightarrow> (\<exists>ms. ms \<noteq> [] \<and> cbs_bytes c = concat (map b128 ms)))"
  using oid_from_text_exact [OF assms(1-3) order_refl assms(4)] oid_to_text_exact [OF assms(1,5)] valid_oid_exact [OF assms(5)]
  by (simp only: take_all [OF order_refl])

text \<open>The identifier 1.2.840 (ISO, US) and its encoding.\<close>

theorem oid_conversions_exact_witness:
  "(\<exists>s'. CBB_add_asn1_oid_from_text (\<lambda>n. Some (replicate n 0)) 0 (dotted [1, 2, 840]) (length (dotted [1, 2, 840]))
      (cbb_init (Some [0, 0, 0, 0]) 4 False) = (Some (), s')) \<and>
   (\<exists>out. CBS_asn1_oid_to_text (\<lambda>n. Some (replicate n 0)) (CBS_init [42, 134, 72] 3) = Some out) \<and>
   CBS_is_valid_asn1_oid (CBS_init [42, 134, 72] 3)"
proof -
  have d: "dotted [1, 2, 840] = [49, 46, 50, 46, 56, 52, 48]" by (simp add: decimal.simps)
  have e: "oid_der [1, 2, 840] = [42, 134, 72]" by (simp add: b128_def b128_hi.simps)
  have v: "valid_oid [1, 2, 840]" by simp
  let ?m = "\<lambda>n. Some (replicate n (0 :: u8))"
  let ?s = "cbb_init (Some [0, 0, 0, 0]) 4 False"
  let ?c = "CBS_init [42, 134, 72] 3"
  have rep: "represents ?s (Builder [] [])"
    by (simp add: represents_def cbb_ok_def cbb_init_def written_def buf_bytes_def)
  have fl: "bld_flush 0 (Builder [] []) = Some (Builder [] [])" by (simp add: bld_flush_flushed)
  have rm: "room ?m ?s (bld_len (bld_append 0 (oid_der [1, 2, 840]) (Builder [] [])))"
    unfolding e by (simp add: room_def bld_len_def bld_append_def cbb_init_def)
  have c: "cbs_ok ?c" "cbs_bytes ?c = oid_der [1, 2, 840]" unfolding e by simp_all
  note T = oid_conversions_exact [of ?m ?s "Builder [] []" 0 "dotted [1, 2, 840]" ?c, OF _ rep _ _ c(1)]
  have T1: "case CBB_add_asn1_oid_from_text ?m 0 (dotted [1, 2, 840]) (length (dotted [1, 2, 840])) ?s of
      (Some _, s') \<Rightarrow> \<exists>os B'. valid_oid os \<and> dotted [1, 2, 840] = dotted os \<and> bld_flush 0 (Builder [] []) = Some B' \<and>
        represents s' (bld_append 0 (oid_der os) B')
    | (None, _) \<Rightarrow> \<forall>os B'. valid_oid os \<and> dotted [1, 2, 840] = dotted os \<and> bld_flush 0 (Builder [] []) = Some B' \<longrightarrow>
        \<not> room ?m ?s (bld_len (bld_append 0 (oid_der os) B'))"
    by (rule T [THEN conjunct1]) (use d in \<open>simp_all add: malloc_ok_def del: dotted.simps\<close>)
  have T2: "case CBS_asn1_oid_to_text ?m ?c of
      Some out \<Rightarrow> \<exists>os. valid_oid os \<and> cbs_bytes ?c = oid_der os \<and>
        take (length (dotted os) + 1) out = dotted os @ [0]
    | None \<Rightarrow> \<forall>os. valid_oid os \<and> cbs_bytes ?c = oid_der os \<longrightarrow>
        \<not> ((\<forall>k<SIZE_LIMIT. ?m k \<noteq> None) \<and> length (dotted os) < 2 ^ 62)"
    by (rule T [THEN conjunct2, THEN conjunct1]) (use d in \<open>simp_all add: malloc_ok_def del: dotted.simps\<close>)
  have "length (dotted [1, 2, 840]) < 2 ^ 62" unfolding d by simp
  have "CBS_asn1_oid_to_text ?m ?c \<noteq> None"
  proof
    assume "CBS_asn1_oid_to_text ?m ?c = None"
    note T2 [unfolded this option.case, rule_format, OF conjI [OF v c(2)]]
    then show False using \<open>length (dotted [1, 2, 840]) < 2 ^ 62\<close> by simp
  qed
  moreover obtain r s' where r: "CBB_add_asn1_oid_from_text ?m 0 (dotted [1, 2, 840]) (length (dotted [1, 2, 840])) ?s = (r, s')"
    by (cases "CBB_add_asn1_oid_from_text ?m 0 (dotted [1, 2, 840]) (length (dotted [1, 2, 840])) ?s")
  moreover have "r \<noteq> None"
  proof
    assume "r = None"
    then have "\<not> room ?m ?s (bld_len (bld_append 0 (oid_der [1, 2, 840]) (Builder [] [])))"
      using T1 v fl unfolding r by (simp del: dotted.simps valid_oid.simps oid_der.simps)
    then show False using rm by contradiction
  qed
  moreover have "CBS_is_valid_asn1_oid ?c"
  proof -
    have "CBS_is_valid_asn1_oid ?c \<longleftrightarrow> (\<exists>ms. ms \<noteq> [] \<and> cbs_bytes ?c = concat (map b128 ms))"
      by (rule T [THEN conjunct2, THEN conjunct2]) (use d in \<open>simp_all add: malloc_ok_def del: dotted.simps\<close>)
    moreover have "cbs_bytes ?c = concat (map b128 [42, 840])" by (simp add: b128_def b128_hi.simps)
    ultimately show ?thesis by blast
  qed
  ultimately show ?thesis by auto
qed

end
