(* ===== verification/Stack.thy ===== *)
theory Stack
  imports C_Prelude "HOL-Library.Multiset"
begin

text \<open>
  \<open>crypto/stack/stack.c\<close>: the array of pointers that grows, its heap sort and its binary search.

  A pointer is its address, 0 is the null pointer.  \<open>data\<close> is the whole allocated array, of which the
  first \<open>num\<close> places are in use.  A comparison function is named by its address; what it returns when
  \<open>call_cmp_func\<close> calls it is the parameter \<open>call_cmp\<close>.  The allocator is the parameter \<open>alloc\<close>, from the
  number of bytes to a block of pointers.  A null \<open>OPENSSL_STACK *\<close> is \<open>None\<close>; an operation that
  modifies the stack returns the stack after the call.
\<close>

section \<open>Data\<close>

type_synonym ptr = nat

record stack =
  num :: nat
  data :: "ptr list"
  sorted_flag :: bool
  num_alloc :: nat
  comp :: "nat option"

abbreviation kMinSize :: nat where "kMinSize \<equiv> 4"
abbreviation SIZEOF_STACK :: nat where "SIZEOF_STACK \<equiv> 40"
abbreviation SIZEOF_PTR :: nat where "SIZEOF_PTR \<equiv> 8"

text \<open>The documented behaviour of the allocator.\<close>

definition alloc_ok :: "(nat \<Rightarrow> ptr list option) \<Rightarrow> bool" where
  "alloc_ok alloc \<longleftrightarrow> (\<forall>n blk. alloc n = Some blk \<longrightarrow> length blk = n div SIZEOF_PTR)"

section \<open>Creation and access\<close>

definition OPENSSL_sk_new :: "(nat \<Rightarrow> ptr list option) \<Rightarrow> nat option \<Rightarrow> stack option" where
  "OPENSSL_sk_new alloc cmp =
    (case alloc SIZEOF_STACK of
       None \<Rightarrow> None
     | Some _ \<Rightarrow>
         (case alloc (kMinSize * SIZEOF_PTR) of
            None \<Rightarrow> None
          | Some blk \<Rightarrow>
              Some \<lparr>num = 0, data = replicate (length blk) 0, sorted_flag = False, num_alloc = kMinSize, comp = cmp\<rparr>))"

definition OPENSSL_sk_new_null :: "(nat \<Rightarrow> ptr list option) \<Rightarrow> stack option" where
  "OPENSSL_sk_new_null alloc = OPENSSL_sk_new alloc None"

definition OPENSSL_sk_num :: "stack option \<Rightarrow> nat" where
  "OPENSSL_sk_num sk = (case sk of None \<Rightarrow> 0 | Some sk \<Rightarrow> num sk)"

definition OPENSSL_sk_zero :: "stack option \<Rightarrow> stack option" where
  "OPENSSL_sk_zero sk =
    (case sk of
       None \<Rightarrow> None
     | Some sk \<Rightarrow>
         if num sk = 0 then Some sk
         else Some (sk\<lparr>data := replicate (num sk) 0 @ drop (num sk) (data sk), num := 0, sorted_flag := False\<rparr>))"

definition OPENSSL_sk_value :: "stack option \<Rightarrow> nat \<Rightarrow> ptr" where
  "OPENSSL_sk_value sk i = (case sk of None \<Rightarrow> 0 | Some sk \<Rightarrow> if i \<ge> num sk then 0 else data sk ! i)"

definition OPENSSL_sk_set :: "stack option \<Rightarrow> nat \<Rightarrow> ptr \<Rightarrow> ptr \<times> stack option" where
  "OPENSSL_sk_set sk i v =
    (case sk of
       None \<Rightarrow> (0, None)
     | Some sk \<Rightarrow> if i \<ge> num sk then (0, Some sk) else (v, Some (sk\<lparr>data := (data sk)[i := v]\<rparr>)))"

text \<open>The pointers \<open>call_free_func\<close> is called with, in order.\<close>

definition OPENSSL_sk_pop_free_ex :: "stack option \<Rightarrow> ptr list" where
  "OPENSSL_sk_pop_free_ex sk =
    (case sk of None \<Rightarrow> [] | Some sk \<Rightarrow> filter (\<lambda>p. p \<noteq> 0) (take (num sk) (data sk)))"

section \<open>Insertion and deletion\<close>

text \<open>The growth of the array; \<open>None\<close> is the return of 0.\<close>

definition sk_grow :: "(nat \<Rightarrow> ptr list option) \<Rightarrow> stack \<Rightarrow> stack option" where
  "sk_grow alloc sk =
    (if num_alloc sk \<le> sz_add (num sk) 1 then
       let new_alloc = (num_alloc sk * 2) mod SIZE_LIMIT;
           alloc_size = (new_alloc * SIZEOF_PTR) mod SIZE_LIMIT;
           (new_alloc, alloc_size) =
             (if new_alloc < num_alloc sk \<or> alloc_size div SIZEOF_PTR \<noteq> new_alloc
              then (sz_add (num_alloc sk) 1, (sz_add (num_alloc sk) 1 * SIZEOF_PTR) mod SIZE_LIMIT)
              else (new_alloc, alloc_size))
       in if new_alloc < num_alloc sk \<or> alloc_size div SIZEOF_PTR \<noteq> new_alloc then None
          else (case alloc alloc_size of
                  None \<Rightarrow> None
                | Some blk \<Rightarrow>
                    Some (sk\<lparr>data := take new_alloc (data sk) @ drop (length (data sk)) blk, num_alloc := new_alloc\<rparr>))
     else Some sk)"

definition OPENSSL_sk_insert ::
  "(nat \<Rightarrow> ptr list option) \<Rightarrow> stack option \<Rightarrow> ptr \<Rightarrow> nat \<Rightarrow> nat \<times> stack option" where
  "OPENSSL_sk_insert alloc sk p pos =
    (case sk of
       None \<Rightarrow> (0, None)
     | Some sk \<Rightarrow>
         if num sk \<ge> INT_MAX_nat then (0, Some sk)
         else (case sk_grow alloc sk of
                 None \<Rightarrow> (0, Some sk)
               | Some sk \<Rightarrow>
                   let d = data sk; n = num sk;
                       d = (if pos \<ge> n then d[n := p]
                            else take pos d @ p # take (n - pos) (drop pos d) @ drop (n + 1) d)
                   in (n + 1, Some (sk\<lparr>data := d, num := n + 1, sorted_flag := False\<rparr>))))"

definition OPENSSL_sk_delete :: "stack option \<Rightarrow> nat \<Rightarrow> ptr \<times> stack option" where
  "OPENSSL_sk_delete sk pos =
    (case sk of
       None \<Rightarrow> (0, None)
     | Some sk \<Rightarrow>
         if pos \<ge> num sk then (0, Some sk)
         else
           let d = data sk; n = num sk; ret = d ! pos;
               d = (if pos \<noteq> n - 1 then take pos d @ take (n - pos - 1) (drop (pos + 1) d) @ drop (n - 1) d else d)
           in (ret, Some (sk\<lparr>data := d, num := n - 1\<rparr>)))"

text \<open>The index of the first place from \<open>i\<close> on that satisfies a test.\<close>

fun first_index :: "(ptr \<Rightarrow> bool) \<Rightarrow> ptr list \<Rightarrow> nat \<Rightarrow> nat option" where
  "first_index P [] i = None"
| "first_index P (x # xs) i = (if P x then Some i else first_index P xs (i + 1))"

definition OPENSSL_sk_delete_ptr :: "stack option \<Rightarrow> ptr \<Rightarrow> ptr \<times> stack option" where
  "OPENSSL_sk_delete_ptr sk p =
    (case sk of
       None \<Rightarrow> (0, None)
     | Some s \<Rightarrow>
         (case first_index (\<lambda>x. x = p) (take (num s) (data s)) 0 of
            None \<Rightarrow> (0, sk)
          | Some i \<Rightarrow> OPENSSL_sk_delete sk i))"

text \<open>The loop of \<open>OPENSSL_sk_delete_if\<close> at index \<open>i\<close>, with \<open>k\<close> rounds to go; \<open>del\<close> is the callback.\<close>

fun delete_if_loop :: "(ptr \<Rightarrow> bool) \<Rightarrow> nat \<Rightarrow> nat \<Rightarrow> nat \<Rightarrow> ptr list \<Rightarrow> nat \<times> ptr list" where
  "delete_if_loop del 0 i new_num d = (new_num, d)"
| "delete_if_loop del (Suc k) i new_num d =
    (if \<not> del (d ! i) then delete_if_loop del k (i + 1) (new_num + 1) (d[new_num := d ! i])
     else delete_if_loop del k (i + 1) new_num d)"

definition OPENSSL_sk_delete_if :: "stack option \<Rightarrow> (ptr \<Rightarrow> bool) \<Rightarrow> stack option" where
  "OPENSSL_sk_delete_if sk del =
    (case sk of
       None \<Rightarrow> None
     | Some sk \<Rightarrow>
         let (new_num, d) = delete_if_loop del (num sk) 0 0 (data sk) in Some (sk\<lparr>data := d, num := new_num\<rparr>))"

definition OPENSSL_sk_shift :: "stack option \<Rightarrow> ptr \<times> stack option" where
  "OPENSSL_sk_shift sk =
    (case sk of None \<Rightarrow> (0, None) | Some s \<Rightarrow> if num s = 0 then (0, sk) else OPENSSL_sk_delete sk 0)"

definition OPENSSL_sk_push :: "(nat \<Rightarrow> ptr list option) \<Rightarrow> stack \<Rightarrow> ptr \<Rightarrow> nat \<times> stack option" where
  "OPENSSL_sk_push alloc sk p = OPENSSL_sk_insert alloc (Some sk) p (num sk)"

definition OPENSSL_sk_pop :: "stack option \<Rightarrow> ptr \<times> stack option" where
  "OPENSSL_sk_pop sk =
    (case sk of None \<Rightarrow> (0, None) | Some s \<Rightarrow> if num s = 0 then (0, sk) else OPENSSL_sk_delete sk (num s - 1))"

section \<open>Search\<close>

definition OPENSSL_sk_is_sorted :: "stack option \<Rightarrow> bool" where
  "OPENSSL_sk_is_sorted sk =
    (case sk of None \<Rightarrow> True | Some sk \<Rightarrow> sorted_flag sk \<or> (comp sk \<noteq> None \<and> num sk < 2))"

text \<open>The binary search of \<open>OPENSSL_sk_find\<close>; \<open>cmp\<close> compares \<open>p\<close> with an element.\<close>

function bsearch :: "('a \<Rightarrow> int) \<Rightarrow> 'a list \<Rightarrow> nat \<Rightarrow> nat \<Rightarrow> nat option" where
  "bsearch cmp d lo hi =
    (if lo < hi then
       let mid = lo + (hi - lo - 1) div 2; r = cmp (d ! mid)
       in if r > 0 then bsearch cmp d (mid + 1) hi
          else if r < 0 then bsearch cmp d lo mid
          else if hi - lo = 1 then Some mid
          else bsearch cmp d lo (mid + 1)
     else None)"
  by pat_completeness auto
termination
proof (relation "measure (\<lambda>(cmp, d, lo, hi). hi - lo)")
  fix cmp :: "'a \<Rightarrow> int" and d :: "'a list" and lo hi mid :: nat and r :: int
  assume a: "lo < hi" "mid = lo + (hi - lo - 1) div 2" "hi - lo \<noteq> 1"
  then have "mid + 1 < hi" by linarith
  then show "((cmp, d, lo, mid + 1), cmp, d, lo, hi) \<in> measure (\<lambda>(cmp, d, lo, hi). hi - lo)"
    using a by simp
qed auto

declare bsearch.simps [simp del]

definition OPENSSL_sk_find :: "(nat \<Rightarrow> ptr \<Rightarrow> ptr \<Rightarrow> int) \<Rightarrow> stack option \<Rightarrow> ptr \<Rightarrow> nat option" where
  "OPENSSL_sk_find call_cmp sk p =
    (case sk of
       None \<Rightarrow> None
     | Some s \<Rightarrow>
         (case comp s of
            None \<Rightarrow> first_index (\<lambda>x. x = p) (take (num s) (data s)) 0
          | Some c \<Rightarrow>
              if p = 0 then None
              else if \<not> OPENSSL_sk_is_sorted sk then first_index (\<lambda>x. call_cmp c p x = 0) (take (num s) (data s)) 0
              else bsearch (call_cmp c p) (data s) 0 (num s)))"

section \<open>Heap sort\<close>

definition parent_idx :: "nat \<Rightarrow> nat" where
  "parent_idx idx = (idx - 1) div 2"

definition left_idx :: "nat \<Rightarrow> nat" where
  "left_idx idx = 2 * idx + 1"

definition swap_at :: "nat \<Rightarrow> nat \<Rightarrow> 'a list \<Rightarrow> 'a list" where
  "swap_at i j d = d[i := d ! j, j := d ! i]"

text \<open>The child to swap with, or \<open>i\<close>.\<close>

definition heap_next :: "('a \<Rightarrow> 'a \<Rightarrow> int) \<Rightarrow> nat \<Rightarrow> nat \<Rightarrow> 'a list \<Rightarrow> nat" where
  "heap_next cmp i n d =
    (let left = left_idx i; nxt = i;
         nxt = (if cmp (d ! nxt) (d ! left) < 0 then left else nxt);
         right = left + 1
     in if right < n \<and> cmp (d ! nxt) (d ! right) < 0 then right else nxt)"

lemma heap_next_le: "heap_next cmp i n d \<noteq> i \<Longrightarrow> left_idx i < n \<Longrightarrow> i < heap_next cmp i n d \<and> heap_next cmp i n d < n"
  by (auto simp: heap_next_def left_idx_def Let_def split: if_splits)

function down_heap :: "('a \<Rightarrow> 'a \<Rightarrow> int) \<Rightarrow> nat \<Rightarrow> nat \<Rightarrow> 'a list \<Rightarrow> 'a list" where
  "down_heap cmp i n d =
    (if left_idx i \<ge> n then d
     else let nxt = heap_next cmp i n d
          in if i = nxt then d else down_heap cmp nxt n (swap_at i nxt d))"
  by pat_completeness auto
termination
proof (relation "measure (\<lambda>(cmp, i, n, d). n - i)")
  fix cmp :: "'a \<Rightarrow> 'a \<Rightarrow> int" and i n nxt :: nat and d :: "'a list"
  assume a: "\<not> n \<le> left_idx i" "nxt = heap_next cmp i n d" "i \<noteq> nxt"
  then have "i < nxt \<and> nxt < n" using heap_next_le [of cmp i n d] by simp
  then show "((cmp, nxt, n, swap_at i nxt d), cmp, i, n, d) \<in> measure (\<lambda>(cmp, i, n, d). n - i)" by simp linarith
qed simp

declare down_heap.simps [simp del]

text \<open>The two loops of \<open>OPENSSL_sk_sort\<close>, from index \<open>i\<close> down.\<close>

fun build_heap :: "('a \<Rightarrow> 'a \<Rightarrow> int) \<Rightarrow> nat \<Rightarrow> nat \<Rightarrow> 'a list \<Rightarrow> 'a list" where
  "build_heap cmp 0 n d = down_heap cmp 0 n d"
| "build_heap cmp (Suc i) n d = build_heap cmp i n (down_heap cmp (Suc i) n d)"

fun extract_max :: "('a \<Rightarrow> 'a \<Rightarrow> int) \<Rightarrow> nat \<Rightarrow> 'a list \<Rightarrow> 'a list" where
  "extract_max cmp 0 d = d"
| "extract_max cmp (Suc i) d = extract_max cmp i (down_heap cmp 0 (Suc i) (swap_at 0 (Suc i) d))"

definition OPENSSL_sk_sort :: "(nat \<Rightarrow> ptr \<Rightarrow> ptr \<Rightarrow> int) \<Rightarrow> stack option \<Rightarrow> stack option" where
  "OPENSSL_sk_sort call_cmp sk =
    (case sk of
       None \<Rightarrow> None
     | Some s \<Rightarrow>
         (case comp s of
            None \<Rightarrow> sk
          | Some c \<Rightarrow>
              if sorted_flag s then sk
              else
                let d = (if num s \<ge> 2
                         then extract_max (call_cmp c) (num s - 1) (build_heap (call_cmp c) (parent_idx (num s - 1)) (num s) (data s))
                         else data s)
                in Some (s\<lparr>data := d, sorted_flag := True\<rparr>)))"

section \<open>Copies\<close>

definition OPENSSL_sk_set_cmp_func :: "stack \<Rightarrow> nat option \<Rightarrow> nat option \<times> stack" where
  "OPENSSL_sk_set_cmp_func sk c =
    (let old = comp sk;
         sk = (if comp sk \<noteq> c then sk\<lparr>sorted_flag := False\<rparr> else sk)
     in (old, sk\<lparr>comp := c\<rparr>))"

definition OPENSSL_sk_dup :: "(nat \<Rightarrow> ptr list option) \<Rightarrow> stack option \<Rightarrow> stack option" where
  "OPENSSL_sk_dup alloc sk =
    (case sk of
       None \<Rightarrow> None
     | Some sk \<Rightarrow>
         (case alloc SIZEOF_STACK of
            None \<Rightarrow> None
          | Some _ \<Rightarrow>
              let size = (SIZEOF_PTR * num_alloc sk) mod SIZE_LIMIT
              in if size = 0 then None
                 else (case alloc size of
                         None \<Rightarrow> None
                       | Some blk \<Rightarrow>
                           Some \<lparr>num = num sk, data = take (num_alloc sk) (data sk), sorted_flag = sorted_flag sk,
                                 num_alloc = num_alloc sk, comp = comp sk\<rparr>)))"

text \<open>The loop of \<open>OPENSSL_sk_deep_copy\<close> at index \<open>i\<close>, with \<open>k\<close> rounds to go: the array, and \<open>None\<close> with
  the pointers freed when a copy fails.\<close>

fun deep_copy_loop :: "(ptr \<Rightarrow> ptr) \<Rightarrow> nat \<Rightarrow> nat \<Rightarrow> ptr list \<Rightarrow> ptr list option \<times> ptr list" where
  "deep_copy_loop copy 0 i d = (Some d, [])"
| "deep_copy_loop copy (Suc k) i d =
    (if d ! i = 0 then deep_copy_loop copy k (i + 1) d
     else
       let p = copy (d ! i); d = d[i := p]
       in if p = 0 then (None, filter (\<lambda>p. p \<noteq> 0) (take i d)) else deep_copy_loop copy k (i + 1) d)"

definition OPENSSL_sk_deep_copy ::
  "(nat \<Rightarrow> ptr list option) \<Rightarrow> (ptr \<Rightarrow> ptr) \<Rightarrow> stack option \<Rightarrow> stack option \<times> ptr list" where
  "OPENSSL_sk_deep_copy alloc copy sk =
    (case OPENSSL_sk_dup alloc sk of
       None \<Rightarrow> (None, [])
     | Some ret \<Rightarrow>
         (case deep_copy_loop copy (num ret) 0 (data ret) of
            (None, freed) \<Rightarrow> (None, freed)
          | (Some d, freed) \<Rightarrow> (Some (ret\<lparr>data := d\<rparr>), freed)))"

end
