(* ===== verification/Lhash.thy ===== *)
theory Lhash
  imports Stack "HOL-Library.Monad_Syntax"
begin

text \<open>
  \<open>crypto/lhash/lhash.c\<close>: the chained hash table that grows and shrinks.

  The record \<open>lhash\<close> is \<open>lhash_st\<close> together with the part of memory that holds the items, a map from
  addresses: freeing an item removes its address, and following a freed pointer, failing an assertion
  or not returning is the value \<open>None\<close>.  A pointer to a pointer to an item, which the code walks along
  a chain, is a \<open>slot\<close>: a place in the array of buckets, or the \<open>next\<close> field of an item.

  Parameters: \<open>alloc\<close> for arrays of pointers as in \<open>Stack\<close>, \<open>new_item\<close> for the address of a new item,
  and \<open>call_hash\<close> and \<open>call_cmp\<close>, which call the functions the table was made with.
\<close>

section \<open>Data\<close>

record lhash_item =
  li_data :: ptr
  li_next :: ptr
  li_hash :: u32

record lhash =
  num_items :: nat
  buckets :: "ptr list"
  num_buckets :: nat
  callback_depth :: u32
  lh_comp :: nat
  lh_hash :: nat
  items :: "ptr \<Rightarrow> lhash_item option"

datatype slot = Bucket nat | Next ptr

abbreviation (input) kMinNumBuckets :: nat where "kMinNumBuckets \<equiv> 16"
abbreviation (input) kMaxAverageChainLength :: nat where "kMaxAverageChainLength \<equiv> 2"
abbreviation (input) kMinAverageChainLength :: nat where "kMinAverageChainLength \<equiv> 1"
abbreviation (input) SIZEOF_LHASH :: nat where "SIZEOF_LHASH \<equiv> 48"

type_synonym hash_fun = "nat \<Rightarrow> ptr \<Rightarrow> u32"
type_synonym cmp_fun = "nat \<Rightarrow> ptr \<Rightarrow> ptr \<Rightarrow> int"

section \<open>Creation and search\<close>

text \<open>\<open>OPENSSL_zalloc\<close> for an array of pointers.\<close>

definition zalloc_ptrs :: "(nat \<Rightarrow> ptr list option) \<Rightarrow> nat \<Rightarrow> ptr list option" where
  "zalloc_ptrs alloc n = map_option (\<lambda>blk. replicate (length blk) 0) (alloc n)"

definition OPENSSL_lh_new :: "(nat \<Rightarrow> ptr list option) \<Rightarrow> nat \<Rightarrow> nat \<Rightarrow> lhash option" where
  "OPENSSL_lh_new alloc hash cmp =
    (case alloc SIZEOF_LHASH of
       None \<Rightarrow> None
     | Some _ \<Rightarrow>
         (case zalloc_ptrs alloc (kMinNumBuckets * SIZEOF_PTR) of
            None \<Rightarrow> None
          | Some bs \<Rightarrow>
              Some \<lparr>num_items = 0, buckets = bs, num_buckets = kMinNumBuckets, callback_depth = 0,
                    lh_comp = cmp, lh_hash = hash, items = Map.empty\<rparr>))"

definition OPENSSL_lh_num_items :: "lhash \<Rightarrow> nat" where
  "OPENSSL_lh_num_items s = num_items s"

definition read_slot :: "lhash \<Rightarrow> slot \<Rightarrow> ptr option" where
  "read_slot s r =
    (case r of Bucket i \<Rightarrow> (if i < length (buckets s) then Some (buckets s ! i) else None)
     | Next p \<Rightarrow> map_option li_next (items s p))"

definition write_slot :: "slot \<Rightarrow> ptr \<Rightarrow> lhash \<Rightarrow> lhash option" where
  "write_slot r v s =
    (case r of Bucket i \<Rightarrow> (if i < length (buckets s) then Some (s\<lparr>buckets := (buckets s)[i := v]\<rparr>) else None)
     | Next p \<Rightarrow> map_option (\<lambda>it. s\<lparr>items := (items s)(p \<mapsto> it\<lparr>li_next := v\<rparr>)\<rparr>) (items s p))"

text \<open>The loop of the two searches: \<open>found\<close> is the test on the data of an item.\<close>

partial_function (option) chain_loop :: "(ptr \<Rightarrow> bool) \<Rightarrow> lhash \<Rightarrow> slot \<Rightarrow> slot option" where
  "chain_loop found s ret = do {
     cur \<leftarrow> read_slot s ret;
     if cur = 0 then Some ret
     else do {
       it \<leftarrow> items s cur;
       if found (li_data it) then Some ret else chain_loop found s (Next cur) } }"

definition get_next_ptr_and_hash :: "hash_fun \<Rightarrow> cmp_fun \<Rightarrow> lhash \<Rightarrow> ptr \<Rightarrow> (slot \<times> u32) option" where
  "get_next_ptr_and_hash call_hash call_cmp s d = do {
     let hash = call_hash (lh_hash s) d;
     ret \<leftarrow> chain_loop (\<lambda>x. call_cmp (lh_comp s) x d = 0) s (Bucket (unat hash mod num_buckets s));
     Some (ret, hash) }"

definition get_next_ptr_by_key :: "lhash \<Rightarrow> u32 \<Rightarrow> (ptr \<Rightarrow> int) \<Rightarrow> slot option" where
  "get_next_ptr_by_key s key_hash cmp_key =
    chain_loop (\<lambda>x. cmp_key x = 0) s (Bucket (unat key_hash mod num_buckets s))"

text \<open>\<open>*next_ptr == NULL ? NULL : ( *next_ptr )->data\<close>\<close>

definition slot_data :: "lhash \<Rightarrow> slot \<Rightarrow> ptr option" where
  "slot_data s r = do {
     p \<leftarrow> read_slot s r;
     if p = 0 then Some 0 else do { it \<leftarrow> items s p; Some (li_data it) } }"

definition OPENSSL_lh_retrieve :: "hash_fun \<Rightarrow> cmp_fun \<Rightarrow> lhash \<Rightarrow> ptr \<Rightarrow> ptr option" where
  "OPENSSL_lh_retrieve call_hash call_cmp s d = do {
     (next_ptr, _) \<leftarrow> get_next_ptr_and_hash call_hash call_cmp s d;
     slot_data s next_ptr }"

definition OPENSSL_lh_retrieve_key :: "lhash \<Rightarrow> u32 \<Rightarrow> (ptr \<Rightarrow> int) \<Rightarrow> ptr option" where
  "OPENSSL_lh_retrieve_key s key_hash cmp_key = do {
     next_ptr \<leftarrow> get_next_ptr_by_key s key_hash cmp_key;
     slot_data s next_ptr }"

section \<open>Resizing\<close>

text \<open>The two loops of \<open>lh_rebucket\<close>: over a chain, and over the old buckets.\<close>

partial_function (option) rebucket_chain ::
  "nat \<Rightarrow> ptr \<Rightarrow> ptr list \<Rightarrow> (ptr \<Rightarrow> lhash_item option) \<Rightarrow> (ptr list \<times> (ptr \<Rightarrow> lhash_item option)) option" where
  "rebucket_chain new_num_buckets cur new_buckets h =
    (if cur = 0 then Some (new_buckets, h)
     else do {
       it \<leftarrow> h cur;
       let new_bucket = unat (li_hash it) mod new_num_buckets;
       let h = h(cur \<mapsto> it\<lparr>li_next := new_buckets ! new_bucket\<rparr>);
       rebucket_chain new_num_buckets (li_next it) (new_buckets[new_bucket := cur]) h })"

fun rebucket_all ::
  "nat \<Rightarrow> ptr list \<Rightarrow> ptr list \<Rightarrow> (ptr \<Rightarrow> lhash_item option) \<Rightarrow> (ptr list \<times> (ptr \<Rightarrow> lhash_item option)) option" where
  "rebucket_all n [] new_buckets h = Some (new_buckets, h)"
| "rebucket_all n (cur # bs) new_buckets h = do {
     (new_buckets, h) \<leftarrow> rebucket_chain n cur new_buckets h;
     rebucket_all n bs new_buckets h }"

definition lh_rebucket :: "(nat \<Rightarrow> ptr list option) \<Rightarrow> nat \<Rightarrow> lhash \<Rightarrow> lhash option" where
  "lh_rebucket alloc new_num_buckets s =
    (let alloc_size = (SIZEOF_PTR * new_num_buckets) mod SIZE_LIMIT
     in if alloc_size div SIZEOF_PTR \<noteq> new_num_buckets then Some s
        else (case zalloc_ptrs alloc alloc_size of
                None \<Rightarrow> Some s
              | Some new_buckets \<Rightarrow> do {
                  (bs, h) \<leftarrow> rebucket_all new_num_buckets (take (num_buckets s) (buckets s)) new_buckets (items s);
                  Some (s\<lparr>num_buckets := new_num_buckets, buckets := bs, items := h\<rparr>) }))"

definition lh_maybe_resize :: "(nat \<Rightarrow> ptr list option) \<Rightarrow> lhash \<Rightarrow> lhash option" where
  "lh_maybe_resize alloc s =
    (if callback_depth s > 0 then Some s
     else do {
       assert (num_buckets s \<ge> kMinNumBuckets);
       let avg_chain_length = num_items s div num_buckets s;
       if avg_chain_length > kMaxAverageChainLength then
         let new_num_buckets = (num_buckets s * 2) mod SIZE_LIMIT
         in if new_num_buckets > num_buckets s then lh_rebucket alloc new_num_buckets s else Some s
       else if avg_chain_length < kMinAverageChainLength \<and> num_buckets s > kMinNumBuckets then
         let new_num_buckets = num_buckets s div 2;
             new_num_buckets = (if new_num_buckets < kMinNumBuckets then kMinNumBuckets else new_num_buckets)
         in lh_rebucket alloc new_num_buckets s
       else Some s })"

section \<open>Insertion, deletion and iteration\<close>

text \<open>The result is the return value, \<open>*old_data\<close> and the table.\<close>

definition OPENSSL_lh_insert ::
  "(nat \<Rightarrow> ptr list option) \<Rightarrow> (lhash \<Rightarrow> ptr option) \<Rightarrow> hash_fun \<Rightarrow> cmp_fun \<Rightarrow> ptr \<Rightarrow> lhash \<Rightarrow>
    (int \<times> ptr \<times> lhash) option" where
  "OPENSSL_lh_insert alloc new_item call_hash call_cmp d s = do {
     (next_ptr, hash) \<leftarrow> get_next_ptr_and_hash call_hash call_cmp s d;
     cur \<leftarrow> read_slot s next_ptr;
     if cur \<noteq> 0 then do {
       it \<leftarrow> items s cur;
       Some (1, li_data it, s\<lparr>items := (items s)(cur \<mapsto> it\<lparr>li_data := d\<rparr>)\<rparr>) }
     else
       (case new_item s of
          None \<Rightarrow> Some (0, 0, s)
        | Some item \<Rightarrow> do {
            let s = s\<lparr>items := (items s)(item \<mapsto> \<lparr>li_data = d, li_next = 0, li_hash = hash\<rparr>)\<rparr>;
            s \<leftarrow> write_slot next_ptr item s;
            s \<leftarrow> lh_maybe_resize alloc (s\<lparr>num_items := sz_add (num_items s) 1\<rparr>);
            Some (1, 0, s) }) }"

text \<open>The decrement of \<open>num_items\<close> is on a \<open>size_t\<close>.\<close>

definition OPENSSL_lh_delete ::
  "(nat \<Rightarrow> ptr list option) \<Rightarrow> hash_fun \<Rightarrow> cmp_fun \<Rightarrow> ptr \<Rightarrow> lhash \<Rightarrow> (ptr \<times> lhash) option" where
  "OPENSSL_lh_delete alloc call_hash call_cmp d s = do {
     (next_ptr, _) \<leftarrow> get_next_ptr_and_hash call_hash call_cmp s d;
     item \<leftarrow> read_slot s next_ptr;
     if item = 0 then Some (0, s)
     else do {
       it \<leftarrow> items s item;
       s \<leftarrow> write_slot next_ptr (li_next it) s;
       let s = s\<lparr>items := (items s)(item := None)\<rparr>;
       s \<leftarrow> lh_maybe_resize alloc (s\<lparr>num_items := sz_add (num_items s) (SIZE_LIMIT - 1)\<rparr>);
       Some (li_data it, s) } }"

text \<open>The loops of \<open>OPENSSL_lh_doall_arg\<close>.  The callback may change its argument and the table.\<close>

partial_function (option) doall_chain ::
  "(ptr \<Rightarrow> 'a \<Rightarrow> lhash \<Rightarrow> ('a \<times> lhash) option) \<Rightarrow> ptr \<Rightarrow> 'a \<Rightarrow> lhash \<Rightarrow> ('a \<times> lhash) option" where
  "doall_chain func cur arg s =
    (if cur = 0 then Some (arg, s)
     else do {
       it \<leftarrow> items s cur;
       (arg, s) \<leftarrow> func (li_data it) arg s;
       doall_chain func (li_next it) arg s })"

partial_function (option) doall_buckets ::
  "(ptr \<Rightarrow> 'a \<Rightarrow> lhash \<Rightarrow> ('a \<times> lhash) option) \<Rightarrow> nat \<Rightarrow> 'a \<Rightarrow> lhash \<Rightarrow> ('a \<times> lhash) option" where
  "doall_buckets func i arg s =
    (if i < num_buckets s then do {
       cur \<leftarrow> read_slot s (Bucket i);
       (arg, s) \<leftarrow> doall_chain func cur arg s;
       doall_buckets func (i + 1) arg s }
     else Some (arg, s))"

definition OPENSSL_lh_doall_arg ::
  "(nat \<Rightarrow> ptr list option) \<Rightarrow> (ptr \<Rightarrow> 'a \<Rightarrow> lhash \<Rightarrow> ('a \<times> lhash) option) \<Rightarrow> 'a \<Rightarrow> lhash option \<Rightarrow>
    ('a \<times> lhash option) option" where
  "OPENSSL_lh_doall_arg alloc func arg s0 =
    (case s0 of
       None \<Rightarrow> Some (arg, None)
     | Some s \<Rightarrow> do {
         let s = (if callback_depth s < -1 then s\<lparr>callback_depth := callback_depth s + 1\<rparr> else s);
         (arg, s) \<leftarrow> doall_buckets func 0 arg s;
         let s = (if callback_depth s < -1 then s\<lparr>callback_depth := callback_depth s - 1\<rparr> else s);
         s \<leftarrow> lh_maybe_resize alloc s;
         Some (arg, Some s) })"

text \<open>The items \<open>OPENSSL_lh_free\<close> frees: \<open>next\<close> is read before.\<close>

partial_function (option) free_chain :: "ptr \<Rightarrow> (ptr \<Rightarrow> lhash_item option) \<Rightarrow> (ptr \<Rightarrow> lhash_item option) option" where
  "free_chain n h =
    (if n = 0 then Some h
     else do { it \<leftarrow> h n; free_chain (li_next it) (h(n := None)) })"

fun free_all :: "ptr list \<Rightarrow> (ptr \<Rightarrow> lhash_item option) \<Rightarrow> (ptr \<Rightarrow> lhash_item option) option" where
  "free_all [] h = Some h"
| "free_all (b # bs) h = do { h \<leftarrow> free_chain b h; free_all bs h }"

text \<open>What \<open>OPENSSL_lh_free\<close> leaves of the items.\<close>

definition OPENSSL_lh_free :: "lhash option \<Rightarrow> (ptr \<Rightarrow> lhash_item option) option" where
  "OPENSSL_lh_free s =
    (case s of None \<Rightarrow> Some Map.empty | Some s \<Rightarrow> free_all (take (num_buckets s) (buckets s)) (items s))"

end
