(* ===== verification/Lhash_Chains.thy ===== *)
theory Lhash_Chains
  imports Lhash "HOL-Library.Multiset"
begin

text \<open>
  The hash table as lists of cells: the chain of a bucket is a list of cells (address, data and hash of an
  item), and following, splicing and freeing a chain, and resizing the table, are proved to be operations on
  these lists.  \<open>table\<close> is the invariant of the memory of a table.
\<close>

section \<open>Chains of items\<close>

type_synonym cell = "ptr \<times> ptr \<times> u32"

abbreviation cell_at :: "cell \<Rightarrow> ptr" where "cell_at c \<equiv> fst c"
abbreviation cell_data :: "cell \<Rightarrow> ptr" where "cell_data c \<equiv> fst (snd c)"
abbreviation cell_hash :: "cell \<Rightarrow> u32" where "cell_hash c \<equiv> snd (snd c)"

text \<open>The items from pointer \<open>p\<close> to pointer \<open>q\<close>.\<close>

fun seg :: "(ptr \<Rightarrow> lhash_item option) \<Rightarrow> ptr \<Rightarrow> cell list \<Rightarrow> ptr \<Rightarrow> bool" where
  "seg h p [] q \<longleftrightarrow> p = q"
| "seg h p (c # cs) q \<longleftrightarrow> p = cell_at c \<and> p \<noteq> 0 \<and>
     (\<exists>n. h p = Some \<lparr>li_data = cell_data c, li_next = n, li_hash = cell_hash c\<rparr> \<and> seg h n cs q)"

abbreviation ats :: "cell list \<Rightarrow> ptr list" where "ats cs \<equiv> List.map fst cs"

lemma seg_append: "seg h p (as @ bs) q \<longleftrightarrow> (\<exists>r. seg h p as r \<and> seg h r bs q)"
  by (induction as arbitrary: p) auto

lemma seg_frame: "(\<And>a. a \<in> set (ats cs) \<Longrightarrow> h' a = h a) \<Longrightarrow> seg h' p cs q \<longleftrightarrow> seg h p cs q"
  by (induction cs arbitrary: p) auto

lemma seg_upd [simp]: "a \<notin> set (ats cs) \<Longrightarrow> seg (h(a := x)) p cs q \<longleftrightarrow> seg h p cs q"
  by (rule seg_frame) auto

lemma segs_frame:
  "(\<And>a. a \<in> set (ats (concat C)) \<Longrightarrow> h' a = h a) \<Longrightarrow>
    list_all2 (\<lambda>b cs. seg h' b cs 0) bs C \<longleftrightarrow> list_all2 (\<lambda>b cs. seg h b cs 0) bs C"
  by (intro list.rel_cong refl seg_frame) auto

lemma segs_upd:
  "a \<notin> set (ats (concat C)) \<Longrightarrow>
    list_all2 (\<lambda>b cs. seg (h(a := x)) b cs 0) bs C \<longleftrightarrow> list_all2 (\<lambda>b cs. seg h b cs 0) bs C"
  by (rule segs_frame) auto

text \<open>The slot after the items \<open>pre\<close> of bucket \<open>i\<close>.\<close>

definition slot_after :: "nat \<Rightarrow> cell list \<Rightarrow> slot" where
  "slot_after i pre = (if pre = [] then Bucket i else Next (cell_at (last pre)))"

lemma seg_relink:
  assumes "seg h p pre q" "pre \<noteq> []" "distinct (ats pre)"
  shows "\<exists>it. h (cell_at (last pre)) = Some it \<and> li_next it = q \<and>
    seg (h(cell_at (last pre) \<mapsto> it\<lparr>li_next := v\<rparr>)) p pre v"
  using assms
proof (induction pre arbitrary: p)
  case Nil
  then show ?case by simp
next
  case (Cons c cs)
  then obtain n where n: "p = cell_at c" "p \<noteq> 0"
      "h p = Some \<lparr>li_data = cell_data c, li_next = n, li_hash = cell_hash c\<rparr>" "seg h n cs q" by auto
  show ?case
  proof (cases "cs = []")
    case True
    with n show ?thesis by simp
  next
    case False
    with Cons.IH [OF n(4)] Cons.prems(3) obtain it where it: "h (cell_at (last cs)) = Some it" "li_next it = q"
        "seg (h(cell_at (last cs) \<mapsto> it\<lparr>li_next := v\<rparr>)) n cs v" by (auto simp del: fun_upd_apply)
    have "cell_at (last cs) \<noteq> cell_at c" using Cons.prems(3) imageI [OF last_in_set [OF False], of fst] by (metis distinct.simps(2) list.set_map list.simps(9))
    with it n False show ?thesis by (simp del: fun_upd_apply add: fun_upd_other)
  qed
qed

lemma seg_start: "seg h p cs 0 \<Longrightarrow> p = (if cs = [] then 0 else cell_at (hd cs))"
  by (cases cs) auto

section \<open>Tables\<close>

text \<open>\<open>C\<close> are the chains of the table: each bucket starts its chain, no item is in two places, all items
  allocated are in a chain, \<open>num_items\<close> counts them, and an item is in the bucket its hash gives.\<close>

definition shape :: "(ptr \<Rightarrow> lhash_item option) \<Rightarrow> ptr list \<Rightarrow> cell list list \<Rightarrow> bool" where
  "shape h bs C \<longleftrightarrow> list_all2 (\<lambda>b cs. seg h b cs 0) bs C \<and> distinct (ats (concat C)) \<and>
     dom h = set (ats (concat C))"

definition placed :: "cell list list \<Rightarrow> bool" where
  "placed C \<longleftrightarrow> (\<forall>i<length C. \<forall>c\<in>set (C ! i). unat (cell_hash c) mod length C = i)"

lemma placed_upd:
  "placed C \<Longrightarrow> i < length C \<Longrightarrow> (\<And>c. c \<in> set ys \<Longrightarrow> unat (cell_hash c) mod length C = i) \<Longrightarrow>
    placed (C[i := ys])"
  by (simp add: placed_def nth_list_update)

definition table :: "lhash \<Rightarrow> cell list list \<Rightarrow> bool" where
  "table s C \<longleftrightarrow> shape (items s) (buckets s) C \<and> length C = num_buckets s \<and>
     num_items s = length (concat C) \<and> (\<exists>k. num_buckets s = kMinNumBuckets * 2 ^ k) \<and> num_buckets s < SIZE_LIMIT \<and>
     (\<forall>a\<in>set (ats (concat C)). a < SIZE_LIMIT) \<and>
     placed C"

lemma tableD:
  assumes "table s C"
  shows "list_all2 (\<lambda>b cs. seg (items s) b cs 0) (buckets s) C" "distinct (ats (concat C))"
    "dom (items s) = set (ats (concat C))" "length C = num_buckets s" "num_items s = length (concat C)"
    "\<forall>a\<in>set (ats (concat C)). a < SIZE_LIMIT" "placed C"
  using assms unfolding table_def shape_def by blast+

text \<open>What is assumed of memory: a new item has an address that no item has.\<close>

definition new_item_ok :: "(lhash \<Rightarrow> ptr option) \<Rightarrow> bool" where
  "new_item_ok new_item \<longleftrightarrow> (\<forall>s a. new_item s = Some a \<longrightarrow> a \<noteq> 0 \<and> a < SIZE_LIMIT \<and> a \<notin> dom (items s))"

lemma seg_nonzero: "seg h b cs 0 \<Longrightarrow> 0 \<notin> set (ats cs)"
  by (induction cs arbitrary: b) auto

lemma table_length:
  assumes "table s C" shows "num_items s < SIZE_LIMIT"
proof -
  define A where "A = set (ats (concat C))"
  have b: "\<forall>a\<in>A. a < SIZE_LIMIT" and d: "distinct (ats (concat C))" and n: "num_items s = length (ats (concat C))"
      and C: "list_all2 (\<lambda>b cs. seg (items s) b cs 0) (buckets s) C"
    using assms unfolding table_def shape_def length_map A_def by blast+
  have "0 \<notin> set (ats cs)" if "cs \<in> set C" for cs
    using C that by (metis in_set_conv_nth list_all2_conv_all_nth seg_nonzero)
  then have "0 \<notin> A" by (auto simp: A_def)
  then have "A \<subseteq> {1..<SIZE_LIMIT}" using b by (auto simp: Suc_le_eq intro: gr0I)
  then have "card A \<le> card {1..<SIZE_LIMIT}" by (intro card_mono finite_atLeastLessThan)
  moreover have "card A = num_items s" unfolding n A_def by (rule distinct_card [OF d])
  ultimately show ?thesis by simp
qed

lemma table_bucket:
  assumes "table s C" "i < num_buckets s"
  shows "read_slot s (Bucket i) = Some (buckets s ! i) \<and> seg (items s) (buckets s ! i) (C ! i) 0"
  using assms by (auto simp: table_def shape_def read_slot_def list_all2_conv_all_nth)

lemma table_buckets: "table s C \<Longrightarrow> kMinNumBuckets \<le> num_buckets s \<and> 0 < num_buckets s \<and> length C = num_buckets s"
  by (auto simp: table_def)

section \<open>Searching a chain\<close>

abbreviation before :: "(ptr \<Rightarrow> bool) \<Rightarrow> cell list \<Rightarrow> cell list" where
  "before found cs \<equiv> takeWhile (\<lambda>c. \<not> found (cell_data c)) cs"

abbreviation after :: "(ptr \<Rightarrow> bool) \<Rightarrow> cell list \<Rightarrow> cell list" where
  "after found cs \<equiv> dropWhile (\<lambda>c. \<not> found (cell_data c)) cs"

lemma chain_loop_eq:
  assumes "read_slot s r = Some p" "seg (items s) p cs 0"
  shows "chain_loop found s r =
    Some (if before found cs = [] then r else Next (cell_at (last (before found cs))))"
  using assms
proof (induction cs arbitrary: r p)
  case Nil
  then show ?case by (subst chain_loop.simps) simp
next
  case (Cons c cs)
  then obtain n where n: "p = cell_at c" "p \<noteq> 0"
      "items s p = Some \<lparr>li_data = cell_data c, li_next = n, li_hash = cell_hash c\<rparr>" "seg (items s) n cs 0" by auto
  have r: "read_slot s (Next p) = Some n" using n(3) by (simp add: read_slot_def)
  from n Cons.prems(1) Cons.IH [OF r n(4)] show ?case by (subst chain_loop.simps) auto
qed

lemma read_slot_after:
  assumes "read_slot s (Bucket i) = Some p" "seg (items s) p pre q" "distinct (ats pre)"
  shows "read_slot s (slot_after i pre) = Some q"
proof (cases "pre = []")
  case True
  with assms show ?thesis by (simp add: slot_after_def)
next
  case False
  with seg_relink [OF assms(2) False assms(3)] show ?thesis by (auto simp: slot_after_def read_slot_def)
qed

lemma distinct_chain: "distinct (ats (concat C)) \<Longrightarrow> i < length C \<Longrightarrow> distinct (ats (C ! i))"
  by (subst (asm) id_take_nth_drop [of i C]) auto

lemma find_in_bucket:
  fixes found :: "ptr \<Rightarrow> bool"
  assumes "table s C" "i < num_buckets s"
  defines "pre \<equiv> before found (C ! i)" and "post \<equiv> after found (C ! i)"
  shows "chain_loop found s (Bucket i) = Some (slot_after i pre) \<and> C ! i = pre @ post \<and>
    (\<exists>q. read_slot s (slot_after i pre) = Some q \<and> seg (items s) q post 0) \<and>
    (post \<noteq> [] \<longrightarrow> found (cell_data (hd post))) \<and> (\<forall>c\<in>set pre. \<not> found (cell_data c))"
proof -
  note b = table_bucket [OF assms(1,2)]
  have C: "C ! i = pre @ post" by (simp add: pre_def post_def)
  have "i < length C" using assms(1,2) by (simp add: table_def)
  then have d: "distinct (ats (C ! i))" using assms(1) by (simp add: table_def shape_def distinct_chain del: map_concat)
  from b C obtain q where q: "seg (items s) (buckets s ! i) pre q" "seg (items s) q post 0" by (auto simp: seg_append)
  have "read_slot s (slot_after i pre) = Some q" using b q(1) d unfolding C by (intro read_slot_after) auto
  moreover have "chain_loop found s (Bucket i) = Some (slot_after i pre)"
    using b chain_loop_eq [of s "Bucket i" _ "C ! i" found] by (simp add: slot_after_def pre_def)
  moreover have "post \<noteq> [] \<longrightarrow> found (cell_data (hd post))"
    using hd_dropWhile [of "\<lambda>c. \<not> found (cell_data c)" "C ! i"] unfolding post_def by blast
  moreover have "\<forall>c\<in>set pre. \<not> found (cell_data c)" unfolding pre_def by (intro ballI) (drule set_takeWhileD, blast)
  ultimately show ?thesis using C q(2) by blast
qed

lemma slot_data_eq: "read_slot s r = Some q \<Longrightarrow> seg (items s) q post 0 \<Longrightarrow>
    slot_data s r = Some (if post = [] then 0 else cell_data (hd post))"
  by (cases post) (auto simp: slot_data_def)

section \<open>Changing a chain\<close>

lemma mset_concat_upd:
  "i < length C \<Longrightarrow> mset (concat (C[i := ys])) + mset (C ! i) = mset (concat C) + mset ys"
  by (subst (2) id_take_nth_drop [of i C]) (simp_all add: upd_conv_take_nth_drop)

text \<open>Taking a cell out of its chain, or another one in its place.\<close>

lemma mset_concat_splice:
  assumes "i < length C" "C ! i = pre @ c # post"
  shows "mset (concat C) = add_mset c (mset (concat (C[i := pre @ post])))"
    "mset (concat (C[i := pre @ e # post])) = add_mset e (mset (concat (C[i := pre @ post])))"
proof -
  show *: "mset (concat C) = add_mset c (mset (concat (C[i := pre @ post])))"
    using mset_concat_upd [OF assms(1), of "pre @ post"] unfolding assms(2) by simp
  show "mset (concat (C[i := pre @ e # post])) = add_mset e (mset (concat (C[i := pre @ post])))"
    using mset_concat_upd [OF assms(1), of "pre @ e # post"] unfolding assms(2) * by simp
qed

lemma set_concat_splice:
  assumes "i < length C" "C ! i = pre @ c # post"
  shows "set (concat C) = insert c (set (concat (C[i := pre @ post])))"
    "set (concat (C[i := pre @ e # post])) = insert e (set (concat (C[i := pre @ post])))"
    "distinct (ats (concat C)) \<Longrightarrow> c \<notin> set (concat (C[i := pre @ post]))"
proof -
  note m = mset_concat_splice [OF assms]
  show "set (concat C) = insert c (set (concat (C[i := pre @ post])))"
    using m(1) by (metis set_mset_add_mset_insert set_mset_mset)
  show "set (concat (C[i := pre @ e # post])) = insert e (set (concat (C[i := pre @ post])))"
    using m(2) by (metis set_mset_add_mset_insert set_mset_mset)
  show "c \<notin> set (concat (C[i := pre @ post]))" if "distinct (ats (concat C))"
  proof -
    have "distinct (concat C)" using that by (simp only: distinct_map)
    moreover have "mset (concat C) = mset (c # concat (C[i := pre @ post]))" using m(1) by (simp del: mset_concat)
    ultimately show ?thesis using mset_eq_imp_distinct_iff by fastforce
  qed
qed

lemma distinct_chains:
  assumes "distinct (ats (concat C))" "i < length C" "j < length C" "i \<noteq> j" "c \<in> set (C ! i)"
  shows "cell_at c \<notin> set (ats (C ! j))"
proof -
  have d: "distinct (ats (concat (take i C)) @ ats (C ! i) @ ats (concat (drop (Suc i) C)))"
    using assms(1) by (subst (asm) id_take_nth_drop [OF assms(2)]) (simp del: map_concat)
  have c: "cell_at c \<in> set (ats (C ! i))" using assms(5) by simp
  have "C ! j \<in> set (take i C) \<union> set (drop (Suc i) C)"
  proof (cases "j < i")
    case True
    then show ?thesis using nth_mem [of j "take i C"] assms(3) by simp
  next
    case False
    then show ?thesis using nth_mem [of "j - Suc i" "drop (Suc i) C"] assms(3,4) by simp
  qed
  then have "set (ats (C ! j)) \<subseteq> set (ats (concat (take i C))) \<union> set (ats (concat (drop (Suc i) C)))" by auto
  then show ?thesis using d c by (simp del: map_concat set_map) blast
qed

lemma write_slot_splice:
  assumes "list_all2 (\<lambda>b cs. seg (items s) b cs 0) (buckets s) C" "distinct (ats (concat C))"
    "i < length C" "C ! i = pre @ post" "seg (items s) v post' 0" "set (ats pre) \<inter> set (ats post') = {}"
  obtains b' h' where "write_slot (slot_after i pre) v s = Some (s\<lparr>buckets := b', items := h'\<rparr>)"
    "list_all2 (\<lambda>b cs. seg h' b cs 0) b' (C[i := pre @ post'])" "dom h' = dom (items s)"
proof (cases "pre = []")
  case True
  have l: "i < length (buckets s)" using assms(1,3) by (simp add: list_all2_lengthD)
  show ?thesis
  proof (rule that)
    show "write_slot (slot_after i pre) v s = Some (s\<lparr>buckets := (buckets s)[i := v], items := items s\<rparr>)"
      using True l by (simp add: write_slot_def slot_after_def)
    show "list_all2 (\<lambda>b cs. seg (items s) b cs 0) ((buckets s)[i := v]) (C[i := pre @ post'])"
      using assms(1,5) True by (intro list_all2_update_cong) simp_all
  qed simp
next
  case False
  let ?a = "cell_at (last pre)"
  have all: "seg (items s) (buckets s ! j) (C ! j) 0" if "j < length C" for j
    using assms(1) that by (simp add: list_all2_conv_all_nth)
  from all [OF assms(3)] obtain q where q: "seg (items s) (buckets s ! i) pre q"
    unfolding assms(4) seg_append by blast
  have dp: "distinct (ats pre)" using distinct_chain [OF assms(2,3)] unfolding assms(4) by simp
  from seg_relink [OF q False dp] obtain it where it: "items s ?a = Some it"
      "seg ((items s)(?a \<mapsto> it\<lparr>li_next := v\<rparr>)) (buckets s ! i) pre v" by blast
  define h' where "h' = (items s)(?a \<mapsto> it\<lparr>li_next := v\<rparr>)"
  have "last pre \<in> set pre" using False by simp
  then have a: "?a \<in> set (ats pre)" "last pre \<in> set (C ! i)" using assms(4) by simp_all
  then have "?a \<notin> set (ats post')" using assms(6) by blast
  then have "seg h' v post' 0" using assms(5) unfolding h'_def by (rule seg_upd [THEN iffD2])
  then have "seg h' (buckets s ! i) (pre @ post') 0" using it(2) unfolding seg_append h'_def by blast
  moreover have "seg h' (buckets s ! j) (C ! j) 0" if "j < length C" "i \<noteq> j" for j
    unfolding h'_def using all [OF that(1)] distinct_chains [OF assms(2,3) that a(2)] by (rule seg_upd [THEN iffD2, rotated])
  ultimately have "seg h' (buckets s ! j) (C[i := pre @ post'] ! j) 0" if "j < length C" for j
    using that by (cases "i = j") simp_all
  then have "list_all2 (\<lambda>b cs. seg h' b cs 0) (buckets s) (C[i := pre @ post'])"
    using list_all2_lengthD [OF assms(1)] by (simp add: list_all2_conv_all_nth)
  moreover have "write_slot (slot_after i pre) v s = Some (s\<lparr>buckets := buckets s, items := h'\<rparr>)"
    using False it(1) by (simp add: write_slot_def slot_after_def h'_def)
  moreover have "dom h' = dom (items s)" using it(1) by (auto simp: h'_def)
  ultimately show ?thesis by (intro that)
qed

section \<open>Resizing\<close>

text \<open>What \<open>lh_rebucket\<close> does with an item.\<close>

definition put :: "nat \<Rightarrow> cell \<Rightarrow> cell list list \<Rightarrow> cell list list" where
  "put n c C = (let j = unat (cell_hash c) mod n in C[j := c # C ! j])"

lemma length_put [simp]: "length (put n c C) = length C" "length (fold (put n) cs C) = length C"
  by (simp add: put_def Let_def) (induction cs arbitrary: C, simp_all add: put_def Let_def)

lemma mset_put: "length C = n \<Longrightarrow> 0 < n \<Longrightarrow> mset (concat (put n c C)) = add_mset c (mset (concat C))"
  using mset_concat_upd [of "unat (cell_hash c) mod n" C "c # C ! (unat (cell_hash c) mod n)"]
  by (simp add: put_def Let_def del: mset_concat)

lemma mset_puts: "length C = n \<Longrightarrow> 0 < n \<Longrightarrow> mset (concat (fold (put n) cs C)) = mset cs + mset (concat C)"
  by (induction cs arbitrary: C) (simp_all add: mset_put del: mset_concat)

lemma put_hashed:
  assumes "length C = n" "\<forall>i<n. \<forall>c\<in>set (C ! i). unat (cell_hash c) mod n = i"
  shows "\<forall>i<n. \<forall>c\<in>set (fold (put n) cs C ! i). unat (cell_hash c) mod n = i"
  using assms
proof (induction cs arbitrary: C)
  case (Cons c cs)
  have "\<forall>i<n. \<forall>x\<in>set (put n c C ! i). unat (cell_hash x) mod n = i"
    using Cons.prems by (auto simp: put_def Let_def nth_list_update split: if_splits)
  with Cons.IH [OF _ this] Cons.prems(1) show ?case by simp
qed simp

lemma ats_mset_distinct: "mset xs = mset ys \<Longrightarrow> distinct (ats xs) \<longleftrightarrow> distinct (ats ys)"
  by (intro mset_eq_imp_distinct_iff) (simp add: mset_map)

lemma rebucket_chain_eq:
  assumes "seg h cur cs 0" "list_all2 (\<lambda>b cs. seg h b cs 0) nb C" "distinct (ats (cs @ concat C))"
    "length C = n" "0 < n"
  shows "\<exists>nb' h'. rebucket_chain n cur nb h = Some (nb', h') \<and>
    list_all2 (\<lambda>b cs. seg h' b cs 0) nb' (fold (put n) cs C) \<and> dom h' = dom h \<and>
    (\<forall>a. a \<notin> set (ats cs) \<longrightarrow> h' a = h a)"
  using assms
proof (induction cs arbitrary: cur nb h C)
  case Nil
  then show ?case by (subst rebucket_chain.simps) simp
next
  case (Cons c cs)
  then obtain m where m: "cur = cell_at c" "cur \<noteq> 0"
      "h cur = Some \<lparr>li_data = cell_data c, li_next = m, li_hash = cell_hash c\<rparr>" "seg h m cs 0" by auto
  define j where "j = unat (cell_hash c) mod n"
  have j: "j < length C" using Cons.prems(4,5) by (simp add: j_def)
  define h1 where "h1 = h(cur \<mapsto> \<lparr>li_data = cell_data c, li_next = nb ! j, li_hash = cell_hash c\<rparr>)"
  have fresh: "cur \<notin> set (ats cs)" "cur \<notin> set (ats (concat C))" using Cons.prems(3) m(1) by auto
  have old: "list_all2 (\<lambda>b cs. seg h1 b cs 0) nb C"
    unfolding h1_def using Cons.prems(2) fresh(2) by (rule segs_upd [THEN iffD2, rotated])
  then have "seg h1 (nb ! j) (C ! j) 0" using j by (simp add: list_all2_conv_all_nth)
  then have "seg h1 cur (c # C ! j) 0" using m(1,2) by (simp add: h1_def)
  with old have segs: "list_all2 (\<lambda>b cs. seg h1 b cs 0) (nb[j := cur]) (put n c C)"
    unfolding put_def Let_def j_def [symmetric] by (intro list_all2_update_cong)
  have rest: "seg h1 m cs 0" using m(4) fresh(1) by (simp add: h1_def)
  have dist: "distinct (ats (cs @ concat (put n c C)))"
    using Cons.prems(3) ats_mset_distinct [of "cs @ concat (put n c C)" "(c # cs) @ concat C"]
    by (simp only: mset_append mset_put [OF Cons.prems(4,5)]) simp
  have "length (put n c C) = n" using Cons.prems(4) by simp
  from Cons.IH [OF rest segs dist this Cons.prems(5)] obtain nb' h' where r: "rebucket_chain n m (nb[j := cur]) h1 = Some (nb', h')"
      "list_all2 (\<lambda>b cs. seg h' b cs 0) nb' (fold (put n) cs (put n c C))" "dom h' = dom h1"
      "\<forall>a. a \<notin> set (ats cs) \<longrightarrow> h' a = h1 a"
    by blast
  have "rebucket_chain n cur nb h = Some (nb', h')"
    using m r(1) by (subst rebucket_chain.simps) (simp add: Let_def j_def h1_def)
  then show ?case using r(2-4) m(3) by (auto simp: h1_def m(1))
qed

lemma rebucket_all_eq:
  assumes "list_all2 (\<lambda>b cs. seg h b cs 0) bs Cs" "list_all2 (\<lambda>b cs. seg h b cs 0) nb C"
    "distinct (ats (concat Cs @ concat C))" "length C = n" "0 < n"
  shows "\<exists>nb' h'. rebucket_all n bs nb h = Some (nb', h') \<and>
    list_all2 (\<lambda>b cs. seg h' b cs 0) nb' (fold (put n) (concat Cs) C) \<and> dom h' = dom h"
  using assms
proof (induction bs Cs arbitrary: nb h C rule: list_induct2')
  case (4 b bs cs Cs)
  have p: "seg h b cs 0" "list_all2 (\<lambda>b cs. seg h b cs 0) bs Cs" "distinct (ats (cs @ concat C))"
    using "4.prems"(1,3) by (simp_all del: set_map set_concat map_concat) blast
  from rebucket_chain_eq [OF p(1) "4.prems"(2) p(3) "4.prems"(4,5)] obtain nb' h' where
      r: "rebucket_chain n b nb h = Some (nb', h')" "list_all2 (\<lambda>b cs. seg h' b cs 0) nb' (fold (put n) cs C)"
      "dom h' = dom h" "\<forall>a. a \<notin> set (ats cs) \<longrightarrow> h' a = h a" by blast
  have "h' a = h a" if "a \<in> set (ats (concat Cs))" for a
  proof -
    have "a \<notin> set (ats cs)" using that "4.prems"(3) by (simp del: set_map set_concat map_concat) blast
    with r(4) show ?thesis by blast
  qed
  then have s: "list_all2 (\<lambda>b cs. seg h' b cs 0) bs Cs" using p(2) segs_frame by blast
  have "distinct (ats (concat Cs @ concat (fold (put n) cs C)))"
    using "4.prems"(3) ats_mset_distinct [of "concat Cs @ concat (fold (put n) cs C)" "concat (cs # Cs) @ concat C"]
    by (simp only: mset_append mset_puts [OF "4.prems"(4,5)] concat.simps) (simp add: ac_simps)
  from "4.IH" [OF s r(2) this] "4.prems"(4,5) r show ?case by auto
qed auto

lemma lh_rebucket_ok:
  assumes "table s C" "alloc_ok alloc" "n = kMinNumBuckets * 2 ^ k" "n < SIZE_LIMIT"
  shows "\<exists>s' C'. lh_rebucket alloc n s = Some s' \<and> table s' C' \<and> mset (concat C') = mset (concat C) \<and>
    callback_depth s' = callback_depth s \<and> lh_hash s' = lh_hash s \<and> lh_comp s' = lh_comp s \<and>
    (SIZEOF_PTR * n < SIZE_LIMIT \<and> alloc (SIZEOF_PTR * n) \<noteq> None \<longrightarrow> num_buckets s' = n)"
proof (cases "SIZEOF_PTR * n < SIZE_LIMIT \<and> alloc (SIZEOF_PTR * n) \<noteq> None")
  case False
  have "lh_rebucket alloc n s = Some s"
  proof (cases "SIZEOF_PTR * n < SIZE_LIMIT")
    case True
    with False show ?thesis by (simp add: lh_rebucket_def Let_def zalloc_ptrs_def)
  next
    case big: False
    define x where "x = (SIZEOF_PTR * n) mod SIZE_LIMIT"
    have "x < SIZE_LIMIT" by (simp add: x_def)
    moreover have "x div SIZEOF_PTR * SIZEOF_PTR \<le> x" by simp
    ultimately have "x div SIZEOF_PTR \<noteq> n" using big by linarith
    then show ?thesis by (simp add: lh_rebucket_def Let_def x_def)
  qed
  with False assms(1) show ?thesis by auto
next
  case True
  then obtain blk where blk: "alloc (SIZEOF_PTR * n) = Some blk" "length blk = n" using assms(2) by (auto simp: alloc_ok_def)
  have n: "0 < n" using assms(3) by simp
  note T = tableD [OF assms(1)]
  let ?E = "replicate n [] :: cell list list"
  have e: "list_all2 (\<lambda>b cs. seg (items s) b cs 0) (replicate n 0) ?E" "concat ?E = []"
    by (simp_all add: list_all2_conv_all_nth)
  from rebucket_all_eq [OF T(1) e(1) _ _ n] T(2) e(2) obtain nb' h' where
      r: "rebucket_all n (buckets s) (replicate n 0) (items s) = Some (nb', h')"
      "list_all2 (\<lambda>b cs. seg h' b cs 0) nb' (fold (put n) (concat C) ?E)" "dom h' = dom (items s)" by fastforce
  define C' where "C' = fold (put n) (concat C) ?E"
  define s' where "s' = s\<lparr>num_buckets := n, buckets := nb', items := h'\<rparr>"
  have m: "mset (concat C') = mset (concat C)" unfolding C'_def using mset_puts [of ?E n] n by simp
  then have st: "set (ats (concat C')) = set (ats (concat C))" by (metis mset_map set_mset_mset)
  have "lh_rebucket alloc n s = Some s'"
    using True blk r(1) list_all2_lengthD [OF T(1)] T(4)
    by (simp add: lh_rebucket_def Let_def zalloc_ptrs_def s'_def)
  moreover have "table s' C'"
  proof -
    have "shape h' nb' C'" using r(2,3) T(2,3) st ats_mset_distinct [OF m] unfolding shape_def C'_def by simp
    moreover have "length C' = n" by (simp add: C'_def)
    moreover have "num_items s = length (concat C')" using T(5) m by (metis size_mset)
    moreover have "\<forall>a\<in>set (ats (concat C')). a < SIZE_LIMIT" using T(6) unfolding st .
    moreover have "placed C'" unfolding C'_def placed_def length_put length_replicate by (rule put_hashed) simp_all
    ultimately show ?thesis using assms(3,4) unfolding table_def s'_def by auto
  qed
  ultimately show ?thesis using m by (intro exI [of _ s'] exI [of _ C']) (simp add: s'_def)
qed

text \<open>After a change the table is resized at most once; then the average length of a chain is in bounds
  if it nearly was.\<close>

lemma lh_maybe_resize_unfold:
  assumes "num_buckets s = kMinNumBuckets * 2 ^ k" "num_buckets s < SIZE_LIMIT" "callback_depth s = 0"
  defines "avg \<equiv> num_items s div num_buckets s"
  shows "lh_maybe_resize alloc s =
    (if avg > 2 then if num_buckets s * 2 < SIZE_LIMIT then lh_rebucket alloc (num_buckets s * 2) s else Some s
     else if avg < 1 \<and> kMinNumBuckets < num_buckets s then lh_rebucket alloc (num_buckets s div 2) s else Some s)"
proof -
  define n where "n = num_buckets s"
  have g: "\<not> n < n * 2 mod SIZE_LIMIT" if "\<not> n * 2 < SIZE_LIMIT"
    using assms(2) that by (simp add: n_def le_mod_geq)
  have h: "\<not> n div 2 < kMinNumBuckets" if "n > kMinNumBuckets" using that assms(1) by (cases k) (simp_all add: n_def)
  have "kMinNumBuckets \<le> n" "n < SIZE_LIMIT" using assms(1,2) by (simp_all add: n_def)
  then show ?thesis using assms(3) h g
    by (cases "n * 2 < SIZE_LIMIT") (simp_all add: lh_maybe_resize_def assert_def Let_def avg_def flip: n_def)
qed

lemma lh_maybe_resize_ok:
  assumes "table s C" "alloc_ok alloc"
  shows "\<exists>s' C'. lh_maybe_resize alloc s = Some s' \<and> table s' C' \<and> mset (concat C') = mset (concat C) \<and>
    callback_depth s' = callback_depth s \<and> lh_hash s' = lh_hash s \<and> lh_comp s' = lh_comp s \<and>
    (callback_depth s > 0 \<longrightarrow> s' = s \<and> C' = C)"
proof -
  let ?n = "num_buckets s"
  obtain k where k: "?n = kMinNumBuckets * 2 ^ k" "?n < SIZE_LIMIT" using assms(1) by (auto simp: table_def)
  consider (same) "lh_maybe_resize alloc s = Some s"
    | (grow) "callback_depth s = 0" "?n * 2 < SIZE_LIMIT" "lh_maybe_resize alloc s = lh_rebucket alloc (?n * 2) s"
    | (shrink) k' where "callback_depth s = 0" "k = Suc k'" "lh_maybe_resize alloc s = lh_rebucket alloc (?n div 2) s"
  proof (cases "callback_depth s = 0")
    case True
    note u = lh_maybe_resize_unfold [OF k True, of alloc]
    have "k \<noteq> 0" if "kMinNumBuckets < ?n" using that k(1) by (cases k) simp_all
    then show thesis using that True u by (metis not0_implies_Suc)
  next
    case False
    then show thesis using same by (simp add: lh_maybe_resize_def word_gt_0)
  qed
  then show ?thesis
  proof cases
    case same
    then show ?thesis using assms(1) by blast
  next
    case grow
    have "?n * 2 = kMinNumBuckets * 2 ^ Suc k" using k(1) by simp
    from lh_rebucket_ok [OF assms this grow(2)] grow show ?thesis by auto
  next
    case shrink
    have "?n div 2 = kMinNumBuckets * 2 ^ k'" "?n div 2 < SIZE_LIMIT" using k shrink(2) by simp_all
    from lh_rebucket_ok [OF assms this] shrink show ?thesis by auto
  qed
qed

section \<open>Freeing\<close>

lemma free_chain_eq:
  "seg h p cs 0 \<Longrightarrow> distinct (ats cs) \<Longrightarrow> free_chain p h = Some (h |` (- set (ats cs)))"
proof (induction cs arbitrary: p h)
  case Nil
  then show ?case by (subst free_chain.simps) (simp add: restrict_map_def)
next
  case (Cons c cs)
  then obtain n where n: "p = cell_at c" "p \<noteq> 0"
      "h p = Some \<lparr>li_data = cell_data c, li_next = n, li_hash = cell_hash c\<rparr>" "seg h n cs 0" by auto
  have "p \<notin> set (ats cs)" using Cons.prems(2) n(1) by simp
  then have "seg (h(p := None)) n cs 0" using n(4) by (rule seg_upd [THEN iffD2])
  moreover have "h(p := None) |` (- set (ats cs)) = h |` (- set (ats (c # cs)))"
    using n(1) by (auto simp: restrict_map_def fun_eq_iff)
  ultimately show ?case using n Cons.IH [of "h(p := None)" n] Cons.prems(2) by (subst free_chain.simps) (simp del: fun_upd_apply)
qed

lemma free_all_eq:
  "list_all2 (\<lambda>b cs. seg h b cs 0) bs C \<Longrightarrow> distinct (ats (concat C)) \<Longrightarrow>
    free_all bs h = Some (h |` (- set (ats (concat C))))"
proof (induction bs C arbitrary: h rule: list_induct2')
  case 1
  then show ?case by (simp add: restrict_map_def)
next
  case (4 b bs cs C)
  define h' where "h' = h |` (- set (ats cs))"
  have d: "distinct (ats cs)" "distinct (ats (concat C))" "set (ats cs) \<inter> set (ats (concat C)) = {}"
    using "4.prems"(2) by (simp_all del: set_map set_concat map_concat)
  have "free_chain b h = Some h'" using free_chain_eq [OF _ d(1)] "4.prems"(1) by (simp add: h'_def)
  moreover have "list_all2 (\<lambda>b cs. seg h' b cs 0) bs C"
  proof -
    have "h' a = h a" if "a \<in> set (ats (concat C))" for a
      using that d(3) unfolding h'_def by (metis ComplI disjoint_iff restrict_in)
    moreover have "list_all2 (\<lambda>b cs. seg h b cs 0) bs C" using "4.prems"(1) by simp
    ultimately show ?thesis by (rule segs_frame [THEN iffD2])
  qed
  moreover have "h' |` (- set (ats (concat C))) = h |` (- set (ats (concat (cs # C))))"
    unfolding h'_def by (auto simp: restrict_map_def fun_eq_iff)
  ultimately show ?case using "4.IH" d(2) by simp
qed auto

lemma free_ok:
  assumes "table s C" shows "OPENSSL_lh_free (Some s) = Some Map.empty"
proof -
  note T = tableD [OF assms]
  have "items s |` (- dom (items s)) = Map.empty" by (auto simp: restrict_map_def fun_eq_iff)
  then show ?thesis using free_all_eq [OF T(1,2)] list_all2_lengthD [OF T(1)] T(3,4)
    by (simp add: OPENSSL_lh_free_def)
qed

end
