(* ===== verification/Lhash_Spec.thy ===== *)
theory Lhash_Spec
  imports Lhash_Chains
begin

text \<open>
  What the hash table promises: for functions that hash and compare consistently (the locale \<open>lh_keys\<close>)
  it is a finite set of pairwise unequal elements.
\<close>

section \<open>Calls\<close>

text \<open>What a search for \<open>d\<close> in \<open>S\<close> yields: the element that is equal, or \<open>NULL\<close>.\<close>

definition found_in :: "(ptr \<Rightarrow> ptr \<Rightarrow> int) \<Rightarrow> ptr set \<Rightarrow> ptr \<Rightarrow> ptr \<Rightarrow> bool" where
  "found_in cmp S d x \<longleftrightarrow> (x \<in> S \<and> cmp x d = 0) \<or> (x = 0 \<and> (\<forall>y\<in>S. cmp y d \<noteq> 0))"

datatype lh_call = Lh_insert ptr | Lh_delete ptr | Lh_retrieve ptr

fun call_key :: "lh_call \<Rightarrow> ptr" where
  "call_key (Lh_insert d) = d"
| "call_key (Lh_delete d) = d"
| "call_key (Lh_retrieve d) = d"

text \<open>A call yields its return value as an \<open>int\<close> (1 where it returns a pointer) and a pointer: the element
  replaced, deleted or found.\<close>

fun lh_step :: "(nat \<Rightarrow> ptr list option) \<Rightarrow> (lhash \<Rightarrow> ptr option) \<Rightarrow> hash_fun \<Rightarrow> cmp_fun \<Rightarrow> lh_call \<Rightarrow> lhash \<Rightarrow>
    (int \<times> ptr \<times> lhash) option" where
  "lh_step alloc new_item call_hash call_cmp (Lh_insert d) s = OPENSSL_lh_insert alloc new_item call_hash call_cmp d s"
| "lh_step alloc new_item call_hash call_cmp (Lh_delete d) s =
    map_option (\<lambda>(x, s'). (1, x, s')) (OPENSSL_lh_delete alloc call_hash call_cmp d s)"
| "lh_step alloc new_item call_hash call_cmp (Lh_retrieve d) s =
    map_option (\<lambda>x. (1, x, s)) (OPENSSL_lh_retrieve call_hash call_cmp s d)"

fun lh_run :: "(nat \<Rightarrow> ptr list option) \<Rightarrow> (lhash \<Rightarrow> ptr option) \<Rightarrow> hash_fun \<Rightarrow> cmp_fun \<Rightarrow> lh_call list \<Rightarrow> lhash \<Rightarrow>
    ((int \<times> ptr) list \<times> lhash) option" where
  "lh_run alloc new_item call_hash call_cmp [] s = Some ([], s)"
| "lh_run alloc new_item call_hash call_cmp (c # cs) s = do {
     (r, x, s) \<leftarrow> lh_step alloc new_item call_hash call_cmp c s;
     (rs, s) \<leftarrow> lh_run alloc new_item call_hash call_cmp cs s;
     Some ((r, x) # rs, s) }"

text \<open>What the calls do to a set of unequal elements.  Only an insertion may fail, and then changes nothing.\<close>

fun set_step :: "(ptr \<Rightarrow> ptr \<Rightarrow> int) \<Rightarrow> ptr set \<Rightarrow> lh_call \<Rightarrow> int \<Rightarrow> ptr \<Rightarrow> ptr set \<Rightarrow> bool" where
  "set_step cmp S (Lh_insert d) r x S' \<longleftrightarrow> found_in cmp S d x \<and>
     (r = 1 \<and> S' = insert d (S - {x}) \<or> r = 0 \<and> x = 0 \<and> S' = S)"
| "set_step cmp S (Lh_delete d) r x S' \<longleftrightarrow> found_in cmp S d x \<and> r = 1 \<and> S' = S - {x}"
| "set_step cmp S (Lh_retrieve d) r x S' \<longleftrightarrow> found_in cmp S d x \<and> r = 1 \<and> S' = S"

inductive set_run :: "(ptr \<Rightarrow> ptr \<Rightarrow> int) \<Rightarrow> ptr set \<Rightarrow> lh_call list \<Rightarrow> (int \<times> ptr) list \<Rightarrow> ptr set \<Rightarrow> bool"
  for cmp where
  stop: "set_run cmp S [] [] S"
| step: "set_step cmp S c r x S1 \<Longrightarrow> set_run cmp S1 cs rs S2 \<Longrightarrow> set_run cmp S (c # cs) ((r, x) # rs) S2"

lemma set_step_card: "set_step cmp S c r x S' \<Longrightarrow> finite S \<Longrightarrow> finite S' \<and> card S' \<le> Suc (card S)"
proof (cases c)
  case (Lh_insert d)
  assume "set_step cmp S c r x S'" "finite S"
  moreover have "card (insert d (S - {x})) \<le> Suc (card S)"
    using \<open>finite S\<close> card_Diff1_le [of S x] by (simp add: card_insert_if)
  ultimately show ?thesis using Lh_insert by auto
next
  case (Lh_delete d)
  assume "set_step cmp S c r x S'" "finite S"
  then show ?thesis using Lh_delete card_Diff1_le [of S x] by auto
qed simp

section \<open>Tables of unequal keys\<close>

text \<open>The elements of a table.\<close>

definition lh_set :: "cell list list \<Rightarrow> ptr set" where
  "lh_set C = cell_data ` set (concat C)"

text \<open>The cells \<open>X\<close> hold unequal keys, with their hashes.\<close>

definition keyed :: "(ptr \<Rightarrow> u32) \<Rightarrow> (ptr \<Rightarrow> ptr \<Rightarrow> int) \<Rightarrow> ptr set \<Rightarrow> cell set \<Rightarrow> bool" where
  "keyed hash cmp D X \<longleftrightarrow> (\<forall>c\<in>X. cell_data c \<in> D \<and> cell_hash c = hash (cell_data c)) \<and>
     (\<forall>x\<in>X. \<forall>y\<in>X. cmp (cell_data x) (cell_data y) = 0 \<longrightarrow> x = y)"

definition lh_ok :: "hash_fun \<Rightarrow> cmp_fun \<Rightarrow> nat \<Rightarrow> nat \<Rightarrow> ptr set \<Rightarrow> lhash \<Rightarrow> cell list list \<Rightarrow> bool" where
  "lh_ok call_hash call_cmp hf cf D s C \<longleftrightarrow>
     table s C \<and> lh_hash s = hf \<and> lh_comp s = cf \<and> keyed (call_hash hf) (call_cmp cf) D (set (concat C))"

lemma keyed_mono: "keyed hash cmp D X \<Longrightarrow> Y \<subseteq> X \<Longrightarrow> keyed hash cmp D Y"
  unfolding keyed_def by blast

lemma keyed_D: "keyed hash cmp D X \<Longrightarrow> c \<in> X \<Longrightarrow> cell_data c \<in> D"
  unfolding keyed_def by blast

lemma lh_ok_D: "lh_ok call_hash call_cmp hf cf D s C \<Longrightarrow> lh_set C \<subseteq> D"
  unfolding lh_ok_def keyed_def lh_set_def by blast

text \<open>A callback for \<open>OPENSSL_lh_doall_arg\<close>: it notes the element and deletes it if \<open>del\<close> says so.\<close>

definition visitor ::
  "(nat \<Rightarrow> ptr list option) \<Rightarrow> hash_fun \<Rightarrow> cmp_fun \<Rightarrow> (ptr \<Rightarrow> bool) \<Rightarrow> ptr \<Rightarrow> ptr list \<Rightarrow> lhash \<Rightarrow>
    (ptr list \<times> lhash) option" where
  "visitor alloc call_hash call_cmp del d visited s =
    (if del d then map_option (\<lambda>(_, s'). (visited @ [d], s')) (OPENSSL_lh_delete alloc call_hash call_cmp d s)
     else Some (visited @ [d], s))"

text \<open>What the functions of a table promise on the elements \<open>D\<close>: comparison is an equivalence that the
  hash respects.\<close>

locale lh_keys =
  fixes call_hash :: hash_fun and call_cmp :: cmp_fun and hf cf :: nat and D :: "ptr set"
  assumes cmp_refl: "x \<in> D \<Longrightarrow> call_cmp cf x x = 0"
    and cmp_sym: "x \<in> D \<Longrightarrow> y \<in> D \<Longrightarrow> call_cmp cf x y = 0 \<Longrightarrow> call_cmp cf y x = 0"
    and cmp_trans: "x \<in> D \<Longrightarrow> y \<in> D \<Longrightarrow> z \<in> D \<Longrightarrow> call_cmp cf x y = 0 \<Longrightarrow> call_cmp cf y z = 0 \<Longrightarrow>
      call_cmp cf x z = 0"
    and hash_eq: "x \<in> D \<Longrightarrow> y \<in> D \<Longrightarrow> call_cmp cf x y = 0 \<Longrightarrow> call_hash hf x = call_hash hf y"
    and null_not_key: "0 \<notin> D"
begin

lemma keyed_insert:
  assumes "keyed (call_hash hf) (call_cmp cf) D X" "cell_data c \<in> D" "cell_hash c = call_hash hf (cell_data c)"
    "\<And>x. x \<in> X \<Longrightarrow> call_cmp cf (cell_data x) (cell_data c) \<noteq> 0"
  shows "keyed (call_hash hf) (call_cmp cf) D (insert c X)"
proof -
  have "call_cmp cf (cell_data c) (cell_data x) \<noteq> 0" if "x \<in> X" for x
    using cmp_sym [OF assms(2) keyed_D [OF assms(1) that]] assms(4) [OF that] by blast
  with assms show ?thesis unfolding keyed_def by blast
qed

lemma key_in_bucket:
  assumes "lh_ok call_hash call_cmp hf cf D s C" "d \<in> D" "c \<in> set (concat C)" "call_cmp cf (cell_data c) d = 0"
  shows "c \<in> set (C ! (unat (call_hash hf d) mod num_buckets s))"
proof -
  from assms(3) obtain i where i: "i < length C" "c \<in> set (C ! i)" by (metis UN_E in_set_conv_nth set_concat)
  have "cell_data c \<in> D" using assms(1,3) by (auto simp: lh_ok_def keyed_def)
  then have "call_hash hf (cell_data c) = call_hash hf d" using hash_eq assms(2,4) by blast
  moreover have "cell_hash c = call_hash hf (cell_data c)" "unat (cell_hash c) mod length C = i" "length C = num_buckets s"
    using assms(1,3) i unfolding lh_ok_def keyed_def table_def placed_def by blast+
  ultimately show ?thesis using i(2) by simp
qed

lemma key_unique:
  assumes "lh_ok call_hash call_cmp hf cf D s C" "d \<in> D" "c \<in> set (concat C)" "c' \<in> set (concat C)"
    "call_cmp cf (cell_data c) d = 0" "call_cmp cf (cell_data c') d = 0"
  shows "c' = c"
proof -
  have "cell_data c \<in> D" "cell_data c' \<in> D" using assms(1,3,4) unfolding lh_ok_def keyed_def by blast+
  then have "call_cmp cf (cell_data c') (cell_data c) = 0" using assms(2,5,6) cmp_sym cmp_trans by blast
  then show ?thesis using assms(1,3,4) unfolding lh_ok_def keyed_def by blast
qed

text \<open>A search ends at the one element that is equal, or at the end of the chain.\<close>

lemma find_key:
  assumes "lh_ok call_hash call_cmp hf cf D s C" "d \<in> D"
  defines "i \<equiv> unat (call_hash hf d) mod num_buckets s"
  obtains pre post q where "get_next_ptr_and_hash call_hash call_cmp s d = Some (slot_after i pre, call_hash hf d)"
    "i < length C" "C ! i = pre @ post" "read_slot s (slot_after i pre) = Some q" "seg (items s) q post 0"
    "post = [] \<Longrightarrow> \<forall>x\<in>lh_set C. call_cmp cf x d \<noteq> 0"
    "post \<noteq> [] \<Longrightarrow> hd post \<in> set (concat C) \<and> call_cmp cf (cell_data (hd post)) d = 0"
proof -
  have t: "table s C" "lh_hash s = hf" "lh_comp s = cf" using assms(1) by (simp_all add: lh_ok_def)
  have i: "i < num_buckets s" "i < length C" using table_buckets [OF t(1)] by (simp_all add: i_def)
  let ?found = "\<lambda>x. call_cmp cf x d = 0"
  let ?pre = "before ?found (C ! i)" and ?post = "after ?found (C ! i)"
  note f = find_in_bucket [OF t(1) i(1), of ?found]
  from f obtain q where q: "read_slot s (slot_after i ?pre) = Some q" "seg (items s) q ?post 0" by blast
  have C: "C ! i = ?pre @ ?post" by simp
  have "get_next_ptr_and_hash call_hash call_cmp s d = Some (slot_after i ?pre, call_hash hf d)"
    using f by (simp add: get_next_ptr_and_hash_def Let_def t i_def)
  moreover have "\<forall>x\<in>lh_set C. call_cmp cf x d \<noteq> 0" if "?post = []"
  proof
    fix x assume "x \<in> lh_set C"
    then obtain c where c: "c \<in> set (concat C)" "x = cell_data c" unfolding lh_set_def by blast
    show "call_cmp cf x d \<noteq> 0"
    proof
      assume "call_cmp cf x d = 0"
      then have "c \<in> set (C ! i)" using key_in_bucket [OF assms(1,2) c(1)] c(2) by (simp add: i_def)
      then show False using that \<open>call_cmp cf x d = 0\<close> c(2) by auto
    qed
  qed
  moreover have "hd ?post \<in> set (concat C) \<and> call_cmp cf (cell_data (hd ?post)) d = 0" if "?post \<noteq> []"
  proof -
    have "hd ?post \<in> set (C ! i)" by (rule set_dropWhileD [OF hd_in_set [OF that]])
    then have "hd ?post \<in> set (concat C)" using nth_mem [OF i(2)] by auto
    then show ?thesis using f that by blast
  qed
  ultimately show ?thesis using that [OF _ i(2) C q] by blast
qed

lemma delete_found:
  assumes "lh_ok call_hash call_cmp hf cf D s C" "d \<in> D" "c \<in> set (concat C)" "call_cmp cf (cell_data c) d = 0"
  obtains i pre post s1 where "i < length C" "C ! i = pre @ c # post"
    "lh_ok call_hash call_cmp hf cf D s1 (C[i := pre @ post])"
    "callback_depth s1 = callback_depth s" "num_buckets s1 = num_buckets s"
    "OPENSSL_lh_delete alloc call_hash call_cmp d s =
      Option.bind (lh_maybe_resize alloc s1) (\<lambda>s'. Some (cell_data c, s'))"
proof -
  from find_key [OF assms(1,2)] obtain i pre post0 q where
      f: "get_next_ptr_and_hash call_hash call_cmp s d = Some (slot_after i pre, call_hash hf d)"
        "i < length C" "C ! i = pre @ post0" "read_slot s (slot_after i pre) = Some q" "seg (items s) q post0 0"
        "post0 = [] \<Longrightarrow> \<forall>x\<in>lh_set C. call_cmp cf x d \<noteq> 0"
        "post0 \<noteq> [] \<Longrightarrow> hd post0 \<in> set (concat C) \<and> call_cmp cf (cell_data (hd post0)) d = 0" by metis
  have "post0 \<noteq> []" using f(6) assms(3,4) unfolding lh_set_def by blast
  moreover have "hd post0 = c" using f(7) [OF calculation] key_unique [OF assms(1,2,3) _ assms(4)] by blast
  ultimately obtain post where post: "post0 = c # post" by (cases post0) auto
  from assms(1) have T: "table s C" "lh_hash s = hf" "lh_comp s = cf" and
      K: "keyed (call_hash hf) (call_cmp cf) D (set (concat C))" unfolding lh_ok_def by blast+
  note T' = tableD [OF T(1)]
  from f(5) post obtain n where n: "q = cell_at c" "q \<noteq> 0"
      "items s q = Some \<lparr>li_data = cell_data c, li_next = n, li_hash = cell_hash c\<rparr>" "seg (items s) n post 0" by auto
  have dc: "distinct (ats (pre @ c # post))" using distinct_chain [OF T'(2) f(2)] f(3) post by simp
  then have "set (ats pre) \<inter> set (ats post) = {}" by (simp del: set_map)
  from write_slot_splice [OF T'(1,2) f(2) f(3) n(4) this] obtain b' h' where
      w: "write_slot (slot_after i pre) n s = Some (s\<lparr>buckets := b', items := h'\<rparr>)"
        "list_all2 (\<lambda>b cs. seg h' b cs 0) b' (C[i := pre @ post])" "dom h' = dom (items s)" .
  define C' where "C' = C[i := pre @ post]"
  define s1 where "s1 = s\<lparr>buckets := b', items := h'(q := None), num_items := num_items s - 1\<rparr>"
  have Ci: "C ! i = pre @ c # post" using f(3) post by simp
  note m = mset_concat_splice(1) [OF f(2) Ci, folded C'_def]
  note st = set_concat_splice(1) [OF f(2) Ci, folded C'_def]
  from st have sa: "set (ats (concat C)) = insert (cell_at c) (set (ats (concat C')))" by (simp only: set_map image_insert)
  have d1: "distinct (cell_at c # ats (concat C'))"
    using T'(2) ats_mset_distinct [of "concat C" "c # concat C'"] m by simp
  have len: "length (concat C) = Suc (length (concat C'))" using arg_cong [OF m, of size] by simp
  have "num_items s < SIZE_LIMIT" using T(1) by (rule table_length)
  then have dec: "sz_add (num_items s) (SIZE_LIMIT - 1) = num_items s - 1"
    using len T'(5) by (simp add: sz_add_def)
  have "table s1 C'"
  proof -
    have "cell_at c \<notin> set (ats (concat C'))" using d1 by simp
    then have "list_all2 (\<lambda>b cs. seg (h'(q := None)) b cs 0) b' C'"
      using w(2) unfolding n(1) C'_def by (rule segs_upd [THEN iffD2])
    moreover have "dom (h'(q := None)) = set (ats (concat C'))"
      using d1 unfolding dom_fun_upd w(3) T'(3) sa n(1) by simp
    ultimately have "shape (h'(q := None)) b' C'" using d1 unfolding shape_def by simp
    moreover have "placed C'"
      unfolding C'_def using T'(7) f(2,3) post by (intro placed_upd) (auto simp: placed_def)
    moreover have "\<forall>x\<in>set (ats (concat C')). x < SIZE_LIMIT" using T'(6) unfolding sa by blast
    ultimately show ?thesis using T(1) T'(4,5) len unfolding table_def s1_def C'_def
      by (simp del: set_map set_concat map_concat)
  qed
  moreover have "OPENSSL_lh_delete alloc call_hash call_cmp d s =
      Option.bind (lh_maybe_resize alloc s1) (\<lambda>s'. Some (cell_data c, s'))"
    using f(1,4) n(1-3) w(1) dec by (simp add: OPENSSL_lh_delete_def Let_def s1_def)
  moreover have "lh_ok call_hash call_cmp hf cf D s1 C'"
    using T(2,3) \<open>table s1 C'\<close> keyed_mono [OF K, of "set (concat C')"] st unfolding lh_ok_def s1_def by auto
  ultimately show ?thesis using that [of i pre post s1] f(2,3) post by (simp add: C'_def s1_def)
qed

text \<open>A new element goes to the end of its chain.\<close>

lemma insert_new:
  assumes "lh_ok call_hash call_cmp hf cf D s C" "d \<in> D" "\<forall>x\<in>lh_set C. call_cmp cf x d \<noteq> 0"
    "new_item_ok new_item" "new_item s = Some a"
  obtains i s1 where "i < length C"
    "lh_ok call_hash call_cmp hf cf D s1 (C[i := C ! i @ [(a, d, call_hash hf d)]])"
    "callback_depth s1 = callback_depth s" "num_buckets s1 = num_buckets s" "num_items s1 = Suc (num_items s)"
    "OPENSSL_lh_insert alloc new_item call_hash call_cmp d s =
      Option.bind (lh_maybe_resize alloc s1) (\<lambda>s'. Some (1, 0, s'))"
proof -
  from find_key [OF assms(1,2)] obtain pre post q where
      f: "get_next_ptr_and_hash call_hash call_cmp s d =
          Some (slot_after (unat (call_hash hf d) mod num_buckets s) pre, call_hash hf d)"
        "unat (call_hash hf d) mod num_buckets s < length C"
        "C ! (unat (call_hash hf d) mod num_buckets s) = pre @ post"
        "read_slot s (slot_after (unat (call_hash hf d) mod num_buckets s) pre) = Some q" "seg (items s) q post 0"
        "post \<noteq> [] \<Longrightarrow> hd post \<in> set (concat C) \<and> call_cmp cf (cell_data (hd post)) d = 0" by metis
  define i where "i = unat (call_hash hf d) mod num_buckets s"
  note f = f [folded i_def]
  have post: "post = []" using f(6) assms(3) unfolding lh_set_def by blast
  then have q: "q = 0" "C ! i = pre" using f(3,5) by simp_all
  from assms(1) have T: "table s C" "lh_hash s = hf" "lh_comp s = cf" and
      K: "keyed (call_hash hf) (call_cmp cf) D (set (concat C))" unfolding lh_ok_def by blast+
  note T' = tableD [OF T(1)]
  have a: "a \<noteq> 0" "a < SIZE_LIMIT" "a \<notin> set (ats (concat C))"
    using assms(4,5) unfolding new_item_ok_def T'(3) [symmetric] by blast+
  define c where "c = (a, d, call_hash hf d)"
  define s0 where "s0 = s\<lparr>items := (items s)(a \<mapsto> \<lparr>li_data = d, li_next = 0, li_hash = call_hash hf d\<rparr>)\<rparr>"
  have "list_all2 (\<lambda>b cs. seg (items s0) b cs 0) (buckets s0) C"
    unfolding s0_def using segs_upd [OF a(3)] T'(1) by simp
  note segs0 = this
  have seg0: "seg (items s0) a [c] 0" using a(1) by (simp add: s0_def c_def)
  have "a \<notin> set (ats pre)" using a(3) q(2) nth_mem [OF f(2)] by fastforce
  then have disj: "set (ats pre) \<inter> set (ats [c]) = {}" by (simp add: c_def)
  have Ci: "C ! i = pre @ []" using q(2) by simp
  from write_slot_splice [OF segs0 T'(2) f(2) Ci seg0 disj] obtain b' h' where
      w: "write_slot (slot_after i pre) a s0 = Some (s0\<lparr>buckets := b', items := h'\<rparr>)"
        "list_all2 (\<lambda>b cs. seg h' b cs 0) b' (C[i := pre @ [c]])" "dom h' = dom (items s0)" .
  define C' where "C' = C[i := pre @ [c]]"
  define s1 where "s1 = s0\<lparr>buckets := b', items := h', num_items := Suc (num_items s)\<rparr>"
  have m: "mset (concat C') = add_mset c (mset (concat C))"
    using mset_concat_upd [OF f(2), of "pre @ [c]"] unfolding C'_def q(2) by simp
  then have st: "set (concat C') = insert c (set (concat C))" by (metis set_mset_add_mset_insert set_mset_mset)
  have d1: "distinct (ats (concat C'))"
    using T'(2) a(3) ats_mset_distinct [of "concat C'" "c # concat C"] m by (simp add: c_def)
  have "length (concat C') = Suc (length (concat C))" using arg_cong [OF m, of size] by simp
  moreover have "shape h' b' C'"
    using w(2,3) d1 st T'(3) unfolding shape_def C'_def [symmetric] set_map by (auto simp: s0_def c_def)
  moreover have "placed C'" unfolding C'_def
    using T'(4,7) f(2) q(2) by (intro placed_upd) (auto simp: placed_def c_def i_def)
  moreover have "\<forall>x\<in>set (ats (concat C')). x < SIZE_LIMIT"
    using T'(6) a(2) unfolding set_map st by (simp add: c_def)
  ultimately have "table s1 C'" using T(1) T'(4,5) unfolding table_def s1_def s0_def C'_def
    by (simp del: set_map set_concat map_concat)
  moreover have "keyed (call_hash hf) (call_cmp cf) D (set (concat C'))" unfolding st
    by (rule keyed_insert [OF K]) (use assms(2,3) in \<open>auto simp: c_def lh_set_def\<close>)
  ultimately have "lh_ok call_hash call_cmp hf cf D s1 C'"
    using T(2,3) unfolding lh_ok_def by (simp add: s1_def s0_def)
  moreover have "num_items s1 < SIZE_LIMIT" using \<open>table s1 C'\<close> by (rule table_length)
  then have "OPENSSL_lh_insert alloc new_item call_hash call_cmp d s =
      Option.bind (lh_maybe_resize alloc s1) (\<lambda>s'. Some (1, 0, s'))"
    using f(1,4) q(1) w(1) assms(5)
    by (simp add: OPENSSL_lh_insert_def Let_def s1_def s0_def sz_add_def)
  ultimately show ?thesis using that [of i s1] f(2) q(2) by (simp add: C'_def s1_def s0_def c_def)
qed

text \<open>An element that is there is replaced.\<close>

lemma insert_old:
  assumes "lh_ok call_hash call_cmp hf cf D s C" "d \<in> D" "c \<in> set (concat C)" "call_cmp cf (cell_data c) d = 0"
  obtains i pre post s1 where "i < length C" "C ! i = pre @ c # post"
    "lh_ok call_hash call_cmp hf cf D s1 (C[i := pre @ (cell_at c, d, cell_hash c) # post])"
    "callback_depth s1 = callback_depth s" "num_buckets s1 = num_buckets s" "num_items s1 = num_items s"
    "OPENSSL_lh_insert alloc new_item call_hash call_cmp d s = Some (1, cell_data c, s1)"
proof -
  from find_key [OF assms(1,2)] obtain i pre post0 q where
      f: "get_next_ptr_and_hash call_hash call_cmp s d = Some (slot_after i pre, call_hash hf d)"
        "i < length C" "C ! i = pre @ post0" "read_slot s (slot_after i pre) = Some q" "seg (items s) q post0 0"
        "post0 = [] \<Longrightarrow> \<forall>x\<in>lh_set C. call_cmp cf x d \<noteq> 0"
        "post0 \<noteq> [] \<Longrightarrow> hd post0 \<in> set (concat C) \<and> call_cmp cf (cell_data (hd post0)) d = 0" by metis
  have "post0 \<noteq> []" using f(6) assms(3,4) unfolding lh_set_def by blast
  moreover have "hd post0 = c" using f(7) [OF calculation] key_unique [OF assms(1,2,3) _ assms(4)] by blast
  ultimately obtain post where post: "post0 = c # post" by (cases post0) auto
  from f(5) post obtain n where n: "q = cell_at c" "q \<noteq> 0"
      "items s q = Some \<lparr>li_data = cell_data c, li_next = n, li_hash = cell_hash c\<rparr>" by auto
  define e where "e = (cell_at c, d, cell_hash c)"
  define s1 where "s1 = s\<lparr>items := (items s)(q \<mapsto> \<lparr>li_data = d, li_next = n, li_hash = cell_hash c\<rparr>)\<rparr>"
  have "OPENSSL_lh_insert alloc new_item call_hash call_cmp d s = Some (1, cell_data c, s1)"
    using f(1,4) n by (simp add: OPENSSL_lh_insert_def s1_def)
  moreover have "lh_ok call_hash call_cmp hf cf D s1 (C[i := pre @ e # post])"
  proof -
    from assms(1) have T: "table s C" "lh_hash s = hf" "lh_comp s = cf" and
      K: "keyed (call_hash hf) (call_cmp cf) D (set (concat C))" unfolding lh_ok_def by blast+
    note T' = tableD [OF T(1)]
    define C' where "C' = C[i := pre @ e # post]"
    have Ci: "C ! i = pre @ c # post" using f(3) post by simp
    note m = mset_concat_splice(1) [OF f(2) Ci] mset_concat_splice(2) [OF f(2) Ci, of e, folded C'_def]
    define X where "X = set (concat (C[i := pre @ post]))"
    note st = set_concat_splice(1) [OF f(2) Ci, folded X_def] set_concat_splice(2) [OF f(2) Ci, of e, folded C'_def X_def]
    note cX = set_concat_splice(3) [OF f(2) Ci T'(2), folded X_def]
    have ma: "mset (ats (concat C')) = mset (ats (concat C))" unfolding mset_map m by (simp add: e_def)
    then have sa: "set (ats (concat C')) = set (ats (concat C))" "distinct (ats (concat C'))"
        "length (concat C') = length (concat C)"
      using T'(2) mset_eq_setD mset_eq_imp_distinct_iff mset_eq_length by (metis, metis, metis length_map)
    have K1: "keyed (call_hash hf) (call_cmp cf) D (set (concat C'))" unfolding st
    proof (rule keyed_insert)
      show "keyed (call_hash hf) (call_cmp cf) D (X)" using K st(1) by (intro keyed_mono [OF K]) blast
      have "call_hash hf (cell_data c) = call_hash hf d" "cell_hash c = call_hash hf (cell_data c)"
        using hash_eq [OF keyed_D [OF K assms(3)] assms(2,4)] K assms(3) unfolding keyed_def by blast+
      then show "cell_hash e = call_hash hf (cell_data e)" "cell_data e \<in> D" using assms(2) by (simp_all add: e_def)
      show "call_cmp cf (cell_data x) (cell_data e) \<noteq> 0" if "x \<in> X" for x
        using key_unique [OF assms(1,2,3) _ assms(4), of x] that st(1) cX by (auto simp: e_def simp del: set_concat)
    qed
    have segi: "seg (items s) (buckets s ! i) (pre @ c # post) 0"
      using table_bucket [OF T(1), of i] f(2,3) T'(4) post by simp
    have "distinct (ats (pre @ c # post))" using distinct_chain [OF T'(2) f(2)] f(3) post by simp
    then have "q \<notin> set (ats pre)" "q \<notin> set (ats post)" by (simp_all add: n(1))
    then have new: "seg (items s1) (buckets s ! i) (pre @ e # post) 0"
      using segi n(1,3) unfolding seg_append by (auto simp: s1_def e_def fun_upd_same simp del: fun_upd_apply set_map)
    have "seg (items s1) (buckets s ! k) (C' ! k) 0" if k: "k < length C" for k
    proof (cases "k = i")
      case False
      have "q \<notin> set (ats (C ! k))" using distinct_chains [OF T'(2) f(2) k, of c] False f(3) post n(1) by simp
      then show ?thesis using False table_bucket [OF T(1), of k] k T'(4) by (simp add: s1_def C'_def)
    qed (use new f(2) in \<open>simp add: C'_def\<close>)
    then have "list_all2 (\<lambda>b cs. seg (items s1) b cs 0) (buckets s1) C'"
      using list_all2_lengthD [OF T'(1)] by (simp add: list_all2_conv_all_nth C'_def s1_def)
    moreover have "dom (items s1) = set (ats (concat C))" using n(3) T'(3) by (auto simp: s1_def simp del: set_map)
    moreover have "placed C'" unfolding C'_def
    proof (rule placed_upd [OF T'(7) f(2)])
      have "\<forall>x\<in>set (pre @ c # post). unat (cell_hash x) mod length C = i"
        using T'(7) f(2) unfolding placed_def Ci [symmetric] by blast
      then show "unat (cell_hash x) mod length C = i" if "x \<in> set (pre @ e # post)" for x
        using that by (auto simp: e_def)
    qed
    ultimately have "table s1 C'" using T(1) sa T'(4-6) unfolding table_def shape_def
      by (simp add: s1_def C'_def del: set_map set_concat map_concat)
    then show ?thesis using K1 T(2,3) unfolding lh_ok_def C'_def by (simp add: s1_def)
  qed
  ultimately show ?thesis using that [of i pre post s1] f(2,3) post by (simp add: s1_def e_def)
qed

section \<open>The operations on the set\<close>

lemma retrieve_ok:
  assumes "lh_ok call_hash call_cmp hf cf D s C" "d \<in> D"
  shows "\<exists>x. OPENSSL_lh_retrieve call_hash call_cmp s d = Some x \<and> found_in (call_cmp cf) (lh_set C) d x"
proof -
  from find_key [OF assms] obtain i pre post q where
      f: "get_next_ptr_and_hash call_hash call_cmp s d = Some (slot_after i pre, call_hash hf d)"
        "read_slot s (slot_after i pre) = Some q" "seg (items s) q post 0"
        "post = [] \<Longrightarrow> \<forall>x\<in>lh_set C. call_cmp cf x d \<noteq> 0"
        "post \<noteq> [] \<Longrightarrow> hd post \<in> set (concat C) \<and> call_cmp cf (cell_data (hd post)) d = 0" by metis
  have r: "OPENSSL_lh_retrieve call_hash call_cmp s d = Some (if post = [] then 0 else cell_data (hd post))"
    by (simp add: OPENSSL_lh_retrieve_def f(1) slot_data_eq [OF f(2,3)])
  show ?thesis
  proof (cases "post = []")
    case True
    with r f(4) show ?thesis by (simp add: found_in_def)
  next
    case False
    with r f(5) show ?thesis by (simp add: found_in_def lh_set_def del: set_concat)
  qed
qed

lemma found_in_unique:
  assumes "lh_ok call_hash call_cmp hf cf D s C" "d \<in> D" "c \<in> set (concat C)" "call_cmp cf (cell_data c) d = 0"
  shows "found_in (call_cmp cf) (lh_set C) d x \<longleftrightarrow> x = cell_data c"
proof -
  have "cell_data c \<in> lh_set C" using assms(3) unfolding lh_set_def by blast
  moreover have "y = cell_data c" if "y \<in> lh_set C" "call_cmp cf y d = 0" for y
    using that key_unique [OF assms(1-3) _ assms(4)] unfolding lh_set_def by blast
  moreover have "0 \<notin> lh_set C" using lh_ok_D [OF assms(1)] null_not_key by blast
  ultimately show ?thesis using assms(4) unfolding found_in_def by blast
qed

lemma data_distinct:
  assumes "lh_ok call_hash call_cmp hf cf D s C"
  shows "distinct (List.map cell_data (concat C))"
proof -
  have t: "table s C" and K: "keyed (call_hash hf) (call_cmp cf) D (set (concat C))" using assms by (simp_all add: lh_ok_def)
  have "distinct (concat C)" using tableD(2) [OF t] unfolding distinct_map by blast
  moreover have "inj_on cell_data (set (concat C))"
  proof (rule inj_onI)
    fix x y assume xy: "x \<in> set (concat C)" "y \<in> set (concat C)" "cell_data x = cell_data y"
    then show "x = y" using key_unique [OF assms keyed_D [OF K xy(2)] xy(2,1)] cmp_refl [OF keyed_D [OF K xy(2)]] by simp
  qed
  ultimately show ?thesis by (simp only: distinct_map)
qed

lemma num_items_card:
  assumes "lh_ok call_hash call_cmp hf cf D s C"
  shows "finite (lh_set C) \<and> num_items s = card (lh_set C)"
proof -
  have "num_items s = length (List.map cell_data (concat C))"
    using tableD(5) assms unfolding lh_ok_def length_map by blast
  then show ?thesis using distinct_card [OF data_distinct [OF assms]] by (simp add: lh_set_def)
qed

lemma lh_ok_resize:
  assumes "lh_ok call_hash call_cmp hf cf D s C" "alloc_ok alloc"
  obtains s' C' where "lh_maybe_resize alloc s = Some s'" "lh_ok call_hash call_cmp hf cf D s' C'"
    "lh_set C' = lh_set C" "callback_depth s' = callback_depth s" "callback_depth s > 0 \<Longrightarrow> s' = s \<and> C' = C"
proof -
  have T: "table s C" "lh_hash s = hf" "lh_comp s = cf" "keyed (call_hash hf) (call_cmp cf) D (set (concat C))"
    using assms(1) unfolding lh_ok_def by blast+
  from lh_maybe_resize_ok [OF T(1) assms(2)] obtain s' C' where
      r: "lh_maybe_resize alloc s = Some s'" "table s' C'" "mset (concat C') = mset (concat C)"
        "callback_depth s' = callback_depth s" "lh_hash s' = lh_hash s" "lh_comp s' = lh_comp s"
        "callback_depth s > 0 \<longrightarrow> s' = s \<and> C' = C" by blast
  have "set (concat C') = set (concat C)" using r(3) by (rule mset_eq_setD)
  with r T that [of s' C'] show ?thesis unfolding lh_ok_def lh_set_def by metis
qed

lemma not_found:
  assumes "lh_ok call_hash call_cmp hf cf D s C" "d \<in> D" "\<forall>x\<in>lh_set C. call_cmp cf x d \<noteq> 0"
  shows "OPENSSL_lh_delete alloc call_hash call_cmp d s = Some (0, s)"
    "new_item s = None \<Longrightarrow> OPENSSL_lh_insert alloc new_item call_hash call_cmp d s = Some (0, 0, s)"
    "found_in (call_cmp cf) (lh_set C) d 0" "lh_set C - {0} = lh_set C"
proof -
  from find_key [OF assms(1,2)] obtain i pre post q where
      f: "get_next_ptr_and_hash call_hash call_cmp s d = Some (slot_after i pre, call_hash hf d)"
        "read_slot s (slot_after i pre) = Some q" "seg (items s) q post 0"
        "post \<noteq> [] \<Longrightarrow> hd post \<in> set (concat C) \<and> call_cmp cf (cell_data (hd post)) d = 0" by metis
  have "post = []" using f(4) assms(3) unfolding lh_set_def by blast
  with f(3) have "q = 0" by simp
  with f(1,2) show "OPENSSL_lh_delete alloc call_hash call_cmp d s = Some (0, s)"
    "new_item s = None \<Longrightarrow> OPENSSL_lh_insert alloc new_item call_hash call_cmp d s = Some (0, 0, s)"
    by (simp_all add: OPENSSL_lh_delete_def OPENSSL_lh_insert_def)
  show "found_in (call_cmp cf) (lh_set C) d 0" using assms(3) by (simp add: found_in_def)
  show "lh_set C - {0} = lh_set C" using lh_ok_D [OF assms(1)] null_not_key by blast
qed

lemma delete_ok:
  assumes "lh_ok call_hash call_cmp hf cf D s C" "d \<in> D" "alloc_ok alloc"
  shows "\<exists>x s' C'. OPENSSL_lh_delete alloc call_hash call_cmp d s = Some (x, s') \<and>
    lh_ok call_hash call_cmp hf cf D s' C' \<and> found_in (call_cmp cf) (lh_set C) d x \<and>
    lh_set C' = lh_set C - {x} \<and> callback_depth s' = callback_depth s"
proof (cases "\<exists>c\<in>set (concat C). call_cmp cf (cell_data c) d = 0")
  case True
  then obtain c where c: "c \<in> set (concat C)" "call_cmp cf (cell_data c) d = 0" by blast
  from delete_found [OF assms(1,2) c] obtain i pre post s1 where
      f: "i < length C" "C ! i = pre @ c # post" "lh_ok call_hash call_cmp hf cf D s1 (C[i := pre @ post])"
        "callback_depth s1 = callback_depth s" "OPENSSL_lh_delete alloc call_hash call_cmp d s =
          Option.bind (lh_maybe_resize alloc s1) (\<lambda>s'. Some (cell_data c, s'))" by metis
  from lh_ok_resize [OF f(3) assms(3)] obtain s' C' where
      g: "lh_maybe_resize alloc s1 = Some s'" "lh_ok call_hash call_cmp hf cf D s' C'"
        "lh_set C' = lh_set (C[i := pre @ post])" "callback_depth s' = callback_depth s1" by metis
  note st = set_concat_splice(1) [OF f(1,2)]
  have "distinct (ats (concat C))" using tableD(2) assms(1) unfolding lh_ok_def by blast
  note cX = set_concat_splice(3) [OF f(1,2) this]
  have "lh_set C' = lh_set C - {cell_data c}"
  proof -
    have "cell_data c \<notin> lh_set (C[i := pre @ post])"
    proof
      assume "cell_data c \<in> lh_set (C[i := pre @ post])"
      then obtain y where "y \<in> set (concat (C[i := pre @ post]))" "cell_data y = cell_data c"
        unfolding lh_set_def by force
      with key_unique [OF assms(1,2) c(1) _ c(2), of y] c(2) st
cX show False by auto
    qed
    then show ?thesis unfolding g(3) using st unfolding lh_set_def by simp
  qed
  moreover have "found_in (call_cmp cf) (lh_set C) d (cell_data c)" using found_in_unique [OF assms(1,2) c] by blast
  ultimately show ?thesis using f(4,5) g by auto
next
  case False
  then have "\<forall>x\<in>lh_set C. call_cmp cf x d \<noteq> 0" unfolding lh_set_def by blast
  note z = not_found [OF assms(1,2) this]
  from z(1) [of alloc] z(3,4) assms(1) show ?thesis by auto
qed

lemma insert_ok:
  assumes "lh_ok call_hash call_cmp hf cf D s C" "d \<in> D" "alloc_ok alloc" "new_item_ok new_item"
  shows "\<exists>r old s' C'. OPENSSL_lh_insert alloc new_item call_hash call_cmp d s = Some (r, old, s') \<and>
    lh_ok call_hash call_cmp hf cf D s' C' \<and> found_in (call_cmp cf) (lh_set C) d old \<and>
    callback_depth s' = callback_depth s \<and>
    (r = 1 \<and> lh_set C' = insert d (lh_set C - {old}) \<or> r = 0 \<and> old = 0 \<and> new_item s = None \<and> s' = s \<and> C' = C)"
proof (cases "\<exists>c\<in>set (concat C). call_cmp cf (cell_data c) d = 0")
  case True
  then obtain c where c: "c \<in> set (concat C)" "call_cmp cf (cell_data c) d = 0" by blast
  from insert_old [OF assms(1,2) c] obtain i pre post s1 where
      f: "i < length C" "C ! i = pre @ c # post"
        "lh_ok call_hash call_cmp hf cf D s1 (C[i := pre @ (cell_at c, d, cell_hash c) # post])"
        "callback_depth s1 = callback_depth s"
        "OPENSSL_lh_insert alloc new_item call_hash call_cmp d s = Some (1, cell_data c, s1)" by metis
  let ?e = "(cell_at c, d, cell_hash c)"
  define X where "X = set (concat (C[i := pre @ post]))"
  note st = set_concat_splice(1) [OF f(1,2), folded X_def] set_concat_splice(2) [OF f(1,2), of ?e, folded X_def]
  have "distinct (ats (concat C))" using tableD(2) assms(1) unfolding lh_ok_def by blast
  note cX = set_concat_splice(3) [OF f(1,2) this, folded X_def]
  have "cell_data x \<noteq> cell_data c" if "x \<in> X" for x
    using key_unique [OF assms(1,2) c(1) _ c(2), of x] c(2) cX that unfolding st by auto
  then have "lh_set (C[i := pre @ ?e # post]) = insert d (lh_set C - {cell_data c})"
    unfolding lh_set_def st by auto
  moreover have "found_in (call_cmp cf) (lh_set C) d (cell_data c)" using found_in_unique [OF assms(1,2) c] by blast
  ultimately show ?thesis using f by auto
next
  case False
  then have n: "\<forall>x\<in>lh_set C. call_cmp cf x d \<noteq> 0" unfolding lh_set_def by blast
  note z = not_found [OF assms(1,2) n]
  show ?thesis
  proof (cases "new_item s")
    case None
    with z(2) [of new_item alloc] z(3) assms(1) show ?thesis by auto
  next
    case (Some a)
    from insert_new [OF assms(1,2) n assms(4) Some] obtain i s1 where
        f: "i < length C" "lh_ok call_hash call_cmp hf cf D s1 (C[i := C ! i @ [(a, d, call_hash hf d)]])"
          "callback_depth s1 = callback_depth s" "OPENSSL_lh_insert alloc new_item call_hash call_cmp d s =
            Option.bind (lh_maybe_resize alloc s1) (\<lambda>s'. Some (1, 0, s'))" by metis
    from lh_ok_resize [OF f(2) assms(3)] obtain s' C' where
        g: "lh_maybe_resize alloc s1 = Some s'" "lh_ok call_hash call_cmp hf cf D s' C'"
          "lh_set C' = lh_set (C[i := C ! i @ [(a, d, call_hash hf d)]])" "callback_depth s' = callback_depth s1" by metis
    let ?c = "(a, d, call_hash hf d)"
    have "mset (concat (C[i := C ! i @ [?c]])) = add_mset ?c (mset (concat C))"
      using mset_concat_upd [OF f(1), of "C ! i @ [?c]"] by simp
    then have "set (concat (C[i := C ! i @ [?c]])) = insert ?c (set (concat C))"
      by (metis set_mset_add_mset_insert set_mset_mset)
    then have "lh_set C' = insert d (lh_set C)" unfolding g(3) unfolding lh_set_def by simp
    then show ?thesis using z(3,4) f(3,4) g by auto
  qed
qed

text \<open>A search by a key of another type: its hash is that of the elements it matches.\<close>

lemma retrieve_key_ok:
  assumes "lh_ok call_hash call_cmp hf cf D s C"
    "\<And>x. x \<in> lh_set C \<Longrightarrow> cmp_key x = 0 \<Longrightarrow> call_hash hf x = key_hash"
  shows "\<exists>x. OPENSSL_lh_retrieve_key s key_hash cmp_key = Some x \<and> found_in (\<lambda>x _. cmp_key x) (lh_set C) d x"
proof -
  have t: "table s C" and K: "keyed (call_hash hf) (call_cmp cf) D (set (concat C))" using assms(1) by (simp_all add: lh_ok_def)
  define i where "i = unat key_hash mod num_buckets s"
  have i: "i < num_buckets s" "i < length C" using table_buckets [OF t] by (simp_all add: i_def)
  let ?found = "\<lambda>x. cmp_key x = 0"
  let ?pre = "before ?found (C ! i)" and ?post = "after ?found (C ! i)"
  note f = find_in_bucket [OF t i(1), of ?found]
  from f obtain q where q: "read_slot s (slot_after i ?pre) = Some q" "seg (items s) q ?post 0" by blast
  have r: "OPENSSL_lh_retrieve_key s key_hash cmp_key = Some (if ?post = [] then 0 else cell_data (hd ?post))"
    using f slot_data_eq [OF q] by (simp add: OPENSSL_lh_retrieve_key_def get_next_ptr_by_key_def i_def)
  have inb: "c \<in> set (C ! i)" if c: "c \<in> set (concat C)" "cmp_key (cell_data c) = 0" for c
  proof -
    from c(1) obtain j where j: "j < length C" "c \<in> set (C ! j)" by (metis UN_E in_set_conv_nth set_concat)
    have "unat (cell_hash c) mod length C = j" using tableD(7) [OF t] j unfolding placed_def by blast
    moreover have "cell_hash c = call_hash hf (cell_data c)" using K c(1) unfolding keyed_def by blast
    moreover have "call_hash hf (cell_data c) = key_hash" using assms(2) c unfolding lh_set_def by blast
    ultimately show ?thesis using j(2) tableD(4) [OF t] by (simp add: i_def)
  qed
  show ?thesis
  proof (cases "?post = []")
    case True
    have "cmp_key x \<noteq> 0" if x: "x \<in> lh_set C" for x
    proof
      assume "cmp_key x = 0"
      then obtain c where "c \<in> set (C ! i)" "cell_data c = x" using x inb unfolding lh_set_def by blast
      then show False using True \<open>cmp_key x = 0\<close> by auto
    qed
    with r True show ?thesis by (simp add: found_in_def)
  next
    case False
    have "hd ?post \<in> set (C ! i)" by (rule set_dropWhileD [OF hd_in_set [OF False]])
    then have "cell_data (hd ?post) \<in> lh_set C" using nth_mem [OF i(2)] unfolding lh_set_def by auto
    moreover have "cmp_key (cell_data (hd ?post)) = 0" using f False by blast
    moreover have "OPENSSL_lh_retrieve_key s key_hash cmp_key = Some (cell_data (hd ?post))"
      using r False by (simp only: if_False)
    ultimately show ?thesis unfolding found_in_def by blast
  qed
qed

section \<open>Visiting all elements\<close>

lemma doall_chain_ok:
  assumes "lh_ok call_hash call_cmp hf cf D s C" "callback_depth s > 0" "i < length C" "C ! i = pre @ rest"
    "seg (items s) cur rest 0"
  shows "\<exists>s'. doall_chain (visitor alloc call_hash call_cmp del) cur vis s = Some (vis @ List.map cell_data rest, s') \<and>
    lh_ok call_hash call_cmp hf cf D s' (C[i := pre @ filter (\<lambda>c. \<not> del (cell_data c)) rest]) \<and>
    callback_depth s' = callback_depth s \<and> num_buckets s' = num_buckets s"
  using assms
proof (induction rest arbitrary: pre cur vis s C)
  case Nil
  have "C[i := pre] = C" using Nil.prems(4) by (metis append_Nil2 list_update_id)
  with Nil show ?case by (subst doall_chain.simps) simp
next
  case (Cons c rest)
  from Cons.prems(5) obtain n where n: "cur = cell_at c" "cur \<noteq> 0"
      "items s cur = Some \<lparr>li_data = cell_data c, li_next = n, li_hash = cell_hash c\<rparr>" "seg (items s) n rest 0" by auto
  show ?case
  proof (cases "del (cell_data c)")
    case False
    have "C ! i = (pre @ [c]) @ rest" using Cons.prems(4) by simp
    note IH = Cons.IH [OF Cons.prems(1-3) this n(4), of "vis @ [cell_data c]"]
    have "visitor alloc call_hash call_cmp del (cell_data c) vis s = Some (vis @ [cell_data c], s)"
      using False by (simp add: visitor_def)
    with IH n False show ?thesis by (subst doall_chain.simps) simp
  next
    case True
    have T: "table s C" "keyed (call_hash hf) (call_cmp cf) D (set (concat C))"
      using Cons.prems(1) by (simp_all add: lh_ok_def)
    have c: "c \<in> set (C ! i)" using Cons.prems(4) by simp
    then have cC: "c \<in> set (concat C)" using nth_mem [OF Cons.prems(3)] unfolding set_concat by blast
    have cD: "cell_data c \<in> D" using T(2) cC by (rule keyed_D)
    from delete_found [OF Cons.prems(1) cD cC cmp_refl [OF cD]] obtain i' pre' post' s1 where
        f: "i' < length C" "C ! i' = pre' @ c # post'" "lh_ok call_hash call_cmp hf cf D s1 (C[i' := pre' @ post'])"
          "callback_depth s1 = callback_depth s" "num_buckets s1 = num_buckets s"
          "OPENSSL_lh_delete alloc call_hash call_cmp (cell_data c) s =
            Option.bind (lh_maybe_resize alloc s1) (\<lambda>s'. Some (cell_data c, s'))" by metis
    note dC = tableD(2) [OF T(1)]
    have "i' = i"
    proof (rule ccontr)
      assume "i' \<noteq> i"
      then have "cell_at c \<notin> set (ats (C ! i'))" using distinct_chains [OF dC Cons.prems(3) f(1) _ c] by blast
      then show False using f(2) by simp
    qed
    have "pre' = pre \<and> post' = rest"
    proof -
      have "distinct (C ! i)" using distinct_chain [OF dC Cons.prems(3)] by (simp only: distinct_map)
      then show ?thesis using f(2) Cons.prems(4) \<open>i' = i\<close> by (simp add: append_Cons_eq_iff)
    qed
    note f = f [unfolded \<open>i' = i\<close> this [THEN conjunct1] this [THEN conjunct2]]
    let ?C = "C[i := pre @ rest]"
    have d: "callback_depth s1 > 0" using f(4) Cons.prems(2) by simp
    then have "OPENSSL_lh_delete alloc call_hash call_cmp (cell_data c) s = Some (cell_data c, s1)"
      using f(6) by (simp add: lh_maybe_resize_def)
    then have v: "visitor alloc call_hash call_cmp del (cell_data c) vis s = Some (vis @ [cell_data c], s1)"
      using True by (simp add: visitor_def)
    have "table s1 ?C" using f(3) by (simp add: lh_ok_def)
    from table_bucket [OF this, of i] Cons.prems(3) f(5) tableD(4) [OF T(1)]
    obtain b r where "seg (items s1) b pre r" "seg (items s1) r rest 0" by (auto simp: seg_append)
    then have "seg (items s1) n rest 0" using seg_start n(4) by metis
    from Cons.IH [OF f(3) d _ _ this, of pre "vis @ [cell_data c]"] Cons.prems(3) f(4,5) v n True show ?thesis
      by (subst doall_chain.simps) simp
  qed
qed

lemma doall_buckets_ok:
  assumes "lh_ok call_hash call_cmp hf cf D s C" "callback_depth s > 0" "i \<le> length C"
  shows "\<exists>s'. doall_buckets (visitor alloc call_hash call_cmp del) i vis s =
      Some (vis @ List.map cell_data (concat (drop i C)), s') \<and>
    lh_ok call_hash call_cmp hf cf D s' (take i C @ List.map (filter (\<lambda>c. \<not> del (cell_data c))) (drop i C)) \<and>
    callback_depth s' = callback_depth s"
  using assms
proof (induction "length C - i" arbitrary: i s vis C)
  case 0
  then have "length C = num_buckets s" unfolding lh_ok_def by (metis tableD(4))
  with 0 show ?case by (subst doall_buckets.simps) simp
next
  case (Suc k)
  have t: "table s C" using Suc.prems(1) by (simp add: lh_ok_def)
  have i: "i < length C" "i < num_buckets s" using Suc.hyps(2) tableD(4) [OF t] by simp_all
  note b = table_bucket [OF t i(2)]
  let ?F = "filter (\<lambda>c. \<not> del (cell_data c))"
  from b have b2: "seg (items s) (buckets s ! i) (C ! i) 0" by blast
  have e: "C ! i = [] @ C ! i" by simp
  from doall_chain_ok [OF Suc.prems(1,2) i(1) e b2, of alloc del vis] obtain s1 where
      r: "doall_chain (visitor alloc call_hash call_cmp del) (buckets s ! i) vis s = Some (vis @ List.map cell_data (C ! i), s1)"
        "lh_ok call_hash call_cmp hf cf D s1 (C[i := ?F (C ! i)])" "callback_depth s1 = callback_depth s" by auto
  have "k = length (C[i := ?F (C ! i)]) - (i + 1)" "callback_depth s1 > 0" "i + 1 \<le> length (C[i := ?F (C ! i)])"
    using Suc.hyps(2) i r(3) Suc.prems(2) by simp_all
  from Suc.hyps(1) [OF this(1) r(2) this(2,3), of "vis @ List.map cell_data (C ! i)"] obtain s' where
      r': "doall_buckets (visitor alloc call_hash call_cmp del) (i + 1) (vis @ List.map cell_data (C ! i)) s1 =
            Some (vis @ List.map cell_data (concat (drop i C)), s')"
        "lh_ok call_hash call_cmp hf cf D s' (take i C @ List.map ?F (drop i C))" "callback_depth s' = callback_depth s"
    using i(1) r(3) by (auto simp: take_Suc_conv_app_nth simp flip: Cons_nth_drop_Suc)
  then show ?case using b r(1) i(2) by (subst doall_buckets.simps) simp
qed

lemma doall_ok:
  assumes "lh_ok call_hash call_cmp hf cf D s C" "alloc_ok alloc"
  shows "\<exists>vis s' C'. OPENSSL_lh_doall_arg alloc (visitor alloc call_hash call_cmp del) [] (Some s) = Some (vis, Some s') \<and>
    lh_ok call_hash call_cmp hf cf D s' C' \<and> distinct vis \<and> set vis = lh_set C \<and>
    lh_set C' = {x \<in> lh_set C. \<not> del x} \<and> (callback_depth s < -2 \<longrightarrow> callback_depth s' = callback_depth s)"
proof -
  let ?up = "\<lambda>s. if callback_depth s < -1 then s\<lparr>callback_depth := callback_depth s + 1\<rparr> else s"
  let ?down = "\<lambda>s. if callback_depth s < -1 then s\<lparr>callback_depth := callback_depth s - 1\<rparr> else s"
  have depth: "lh_ok call_hash call_cmp hf cf D (t\<lparr>callback_depth := k\<rparr>) C \<longleftrightarrow> lh_ok call_hash call_cmp hf cf D t C"
    for t k C by (simp add: lh_ok_def table_def)
  define t where "t = ?up s"
  have t: "lh_ok call_hash call_cmp hf cf D t C" using assms(1) by (simp add: t_def depth)
  have td: "callback_depth t > 0"
  proof (cases "callback_depth s < -1")
    case True
    have "callback_depth s + 1 \<noteq> 0" using True by (metis eq_neg_iff_add_eq_0 less_irrefl)
    with True show ?thesis by (simp add: t_def word_gt_0)
  next
    case False
    then have "callback_depth s \<noteq> 0" by (auto simp: word_gt_0)
    with False show ?thesis by (simp add: t_def word_gt_0)
  qed
  let ?F = "filter (\<lambda>c. \<not> del (cell_data c))"
  from doall_buckets_ok [OF t td, of 0 alloc del "[]"] obtain u where
      u: "doall_buckets (visitor alloc call_hash call_cmp del) 0 [] t = Some (List.map cell_data (concat C), u)"
        "lh_ok call_hash call_cmp hf cf D u (List.map ?F C)" "callback_depth u = callback_depth t" by auto
  have v: "lh_ok call_hash call_cmp hf cf D (?down u) (List.map ?F C)" using u(2) by (simp add: depth)
  from lh_ok_resize [OF v assms(2)] obtain s' C' where
      r: "lh_maybe_resize alloc (?down u) = Some s'" "lh_ok call_hash call_cmp hf cf D s' C'"
        "lh_set C' = lh_set (List.map ?F C)" "callback_depth s' = callback_depth (?down u)" by metis
  have "OPENSSL_lh_doall_arg alloc (visitor alloc call_hash call_cmp del) [] (Some s) =
      Some (List.map cell_data (concat C), Some s')"
    using u(1) r(1) unfolding OPENSSL_lh_doall_arg_def t_def by simp
  note run = this
  have "lh_set C' = {x \<in> lh_set C. \<not> del x}" unfolding r(3) unfolding lh_set_def by auto
  moreover have "callback_depth s < -2 \<longrightarrow> callback_depth s' = callback_depth s"
  proof
    assume that: "callback_depth s < -2"
    have "callback_depth s < -1" "callback_depth s + 1 < -1" using that by (simp_all add: word_less_nat_alt unat_word_ariths unsigned_minus_1_eq_mask mask_eq_exp_minus_1)
    then show "callback_depth s' = callback_depth s" using r(4) u(3) by (simp add: t_def)
  qed
  moreover have "set (List.map cell_data (concat C)) = lh_set C" by (simp add: lh_set_def)
  ultimately show ?thesis using run data_distinct [OF assms(1)] r(2) by meson
qed

end

section \<open>The average length of a chain\<close>

definition load_ok :: "lhash \<Rightarrow> bool" where
  "load_ok s \<longleftrightarrow> callback_depth s = 0 \<and> num_items s < 3 * num_buckets s \<and>
     (num_buckets s = kMinNumBuckets \<or> num_buckets s \<le> num_items s)"

lemma lh_maybe_resize_load:
  assumes "table s C" "alloc_ok alloc" "\<And>n. alloc n \<noteq> None" "callback_depth s = 0"
    "num_items s \<le> 3 * num_buckets s" "num_buckets s = kMinNumBuckets \<or> num_buckets s \<le> num_items s + 1"
    "num_items s < 2 ^ 60"
  shows "\<exists>s'. lh_maybe_resize alloc s = Some s' \<and> load_ok s'"
proof -
  let ?n = "num_buckets s" and ?m = "num_items s"
  obtain k where k: "?n = kMinNumBuckets * 2 ^ k" "?n < SIZE_LIMIT" using assms(1) by (auto simp: table_def)
  have n: "16 \<le> ?n" "?n < 2 ^ 60 + 2" using k(1) assms(6,7) by auto
  define avg where "avg = ?m div ?n"
  note u = lh_maybe_resize_unfold [OF k assms(4), of alloc, folded avg_def]
  have items: "num_items s' = ?m" if "table s' C'" "mset (concat C') = mset (concat C)" for s' C'
    using tableD(5) [OF that(1)] tableD(5) [OF assms(1)] that(2) by (metis size_mset)
  have to: "\<exists>s'. lh_rebucket alloc n' s = Some s' \<and> num_items s' = ?m \<and> num_buckets s' = n' \<and> callback_depth s' = 0"
    if "n' = kMinNumBuckets * 2 ^ k'" "n' < 2 ^ 61" for n' k'
  proof -
    have "n' < SIZE_LIMIT" "SIZEOF_PTR * n' < SIZE_LIMIT" using that(2) by simp_all
    from lh_rebucket_ok [OF assms(1,2) that(1) this(1)] this(2) assms(3,4) items show ?thesis by auto
  qed
  have big: "avg > 2 \<longleftrightarrow> ?m = 3 * ?n"
  proof -
    have "avg > 2 \<longleftrightarrow> 3 \<le> avg" by auto
    also have "\<dots> \<longleftrightarrow> 3 * ?n \<le> ?m" unfolding avg_def using n(1) by (subst less_eq_div_iff_mult_less_eq) auto
    finally show ?thesis using assms(5) by auto
  qed
  have small: "avg < 1 \<longleftrightarrow> ?m < ?n" using n(1) by (auto simp: avg_def div_eq_0_iff)
  consider (grow) "?m = 3 * ?n" | (shrink) "?m < ?n" "16 < ?n" | (same) "?m < 3 * ?n" "?n = 16 \<or> ?n \<le> ?m"
    using assms(5,6) n(1) by linarith
  then show ?thesis
  proof cases
    case grow
    have "?n * 2 = kMinNumBuckets * 2 ^ Suc k" "?n * 2 < 2 ^ 61" using k(1) grow assms(7) by simp_all
    from to [OF this] grow u big this(2) n(1) show ?thesis by (auto simp: load_ok_def)
  next
    case shrink
    then obtain k' where k': "k = Suc k'" using k(1) by (cases k) auto
    have h: "?n div 2 = kMinNumBuckets * 2 ^ k'" "?n div 2 < 2 ^ 61" using k(1) k' n(2) by simp_all
    have "?n = 2 * (?n div 2)" "16 \<le> ?n div 2" "?m + 1 = ?n" using k(1) k' shrink assms(6) by simp_all
    with to [OF h] shrink u big small show ?thesis by (auto simp: load_ok_def)
  next
    case same
    then have "lh_maybe_resize alloc s = Some s" using u big small n(1) by auto
    with same assms(4) show ?thesis by (auto simp: load_ok_def)
  qed
qed

context lh_keys
begin

lemma insert_load:
  assumes "lh_ok call_hash call_cmp hf cf D s C" "d \<in> D" "alloc_ok alloc" "\<And>n. alloc n \<noteq> None"
    "new_item_ok new_item" "load_ok s" "num_items s < 2 ^ 60 - 1"
    "OPENSSL_lh_insert alloc new_item call_hash call_cmp d s = Some (r, old, s')"
  shows "load_ok s'"
proof (cases "\<exists>c\<in>set (concat C). call_cmp cf (cell_data c) d = 0")
  case True
  then obtain c where c: "c \<in> set (concat C)" "call_cmp cf (cell_data c) d = 0" by blast
  show ?thesis using assms(6,8) by (rule_tac insert_old [OF assms(1,2) c, of alloc new_item]) (auto simp: load_ok_def)
next
  case False
  then have n: "\<forall>x\<in>lh_set C. call_cmp cf x d \<noteq> 0" unfolding lh_set_def by blast
  show ?thesis
  proof (cases "new_item s")
    case None
    with not_found(2) [OF assms(1,2) n] assms(6,8) show ?thesis by auto
  next
    case (Some a)
    from insert_new [OF assms(1,2) n assms(5) Some, of alloc] obtain i s1 where
        f: "lh_ok call_hash call_cmp hf cf D s1 (C[i := C ! i @ [(a, d, call_hash hf d)]])"
          "callback_depth s1 = callback_depth s" "num_buckets s1 = num_buckets s" "num_items s1 = Suc (num_items s)"
          "OPENSSL_lh_insert alloc new_item call_hash call_cmp d s =
            Option.bind (lh_maybe_resize alloc s1) (\<lambda>s'. Some (1, 0, s'))" by metis
    have t: "table s1 (C[i := C ! i @ [(a, d, call_hash hf d)]])" using f(1) by (simp add: lh_ok_def)
    have "callback_depth s1 = 0" "num_items s1 \<le> 3 * num_buckets s1" "num_items s1 < 2 ^ 60"
        "num_buckets s1 = kMinNumBuckets \<or> num_buckets s1 \<le> num_items s1 + 1"
      using assms(6,7) f(2-4) by (auto simp: load_ok_def)
    from lh_maybe_resize_load [OF t assms(3,4) this(1,2,4,3)] f(5) assms(8) show ?thesis by auto
  qed
qed

lemma delete_load:
  assumes "lh_ok call_hash call_cmp hf cf D s C" "d \<in> D" "alloc_ok alloc" "\<And>n. alloc n \<noteq> None"
    "load_ok s" "num_items s < 2 ^ 60" "OPENSSL_lh_delete alloc call_hash call_cmp d s = Some (x, s')"
  shows "load_ok s'"
proof (cases "\<exists>c\<in>set (concat C). call_cmp cf (cell_data c) d = 0")
  case True
  then obtain c where c: "c \<in> set (concat C)" "call_cmp cf (cell_data c) d = 0" by blast
  from delete_found [OF assms(1,2) c, of alloc] obtain i pre post s1 where
      f: "i < length C" "C ! i = pre @ c # post" "lh_ok call_hash call_cmp hf cf D s1 (C[i := pre @ post])"
        "callback_depth s1 = callback_depth s" "num_buckets s1 = num_buckets s"
        "OPENSSL_lh_delete alloc call_hash call_cmp d s =
          Option.bind (lh_maybe_resize alloc s1) (\<lambda>s'. Some (cell_data c, s'))" by metis
  have t: "table s1 (C[i := pre @ post])" "table s C" using f(3) assms(1) by (simp_all add: lh_ok_def)
  have "num_items s = Suc (num_items s1)"
    using arg_cong [OF mset_concat_splice(1) [OF f(1,2)], of size] tableD(5) [OF t(1)] tableD(5) [OF t(2)] by simp
  then have "callback_depth s1 = 0" "num_items s1 \<le> 3 * num_buckets s1" "num_items s1 < 2 ^ 60"
      "num_buckets s1 = kMinNumBuckets \<or> num_buckets s1 \<le> num_items s1 + 1"
    using assms(5,6) f(4,5) by (auto simp: load_ok_def)
  from lh_maybe_resize_load [OF t(1) assms(3,4) this(1,2,4,3)] f(6) assms(7) show ?thesis by auto
next
  case False
  then have "\<forall>x\<in>lh_set C. call_cmp cf x d \<noteq> 0" unfolding lh_set_def by blast
  from not_found(1) [OF assms(1,2) this, of alloc] assms(5,7) show ?thesis by simp
qed

lemma step_ok:
  assumes "lh_ok call_hash call_cmp hf cf D s C" "call_key c \<in> D" "alloc_ok alloc" "new_item_ok new_item"
  obtains r x s' C' where "lh_step alloc new_item call_hash call_cmp c s = Some (r, x, s')"
    "lh_ok call_hash call_cmp hf cf D s' C'" "set_step (call_cmp cf) (lh_set C) c r x (lh_set C')"
proof (cases c)
  case (Lh_insert d)
  from insert_ok [OF assms(1) _ assms(3,4), of d] assms(2) Lh_insert that show ?thesis by fastforce
next
  case (Lh_delete d)
  from delete_ok [OF assms(1) _ assms(3), of d] assms(2) Lh_delete that show ?thesis by fastforce
next
  case (Lh_retrieve d)
  from retrieve_ok [OF assms(1), of d] assms(1,2) Lh_retrieve that show ?thesis by fastforce
qed

lemma run_ok:
  assumes "lh_ok call_hash call_cmp hf cf D s C" "\<forall>c\<in>set cs. call_key c \<in> D" "alloc_ok alloc" "new_item_ok new_item"
  shows "\<exists>rs s' C'. lh_run alloc new_item call_hash call_cmp cs s = Some (rs, s') \<and>
    lh_ok call_hash call_cmp hf cf D s' C' \<and> set_run (call_cmp cf) (lh_set C) cs rs (lh_set C')"
  using assms(1,2)
proof (induction cs arbitrary: s C)
  case Nil
  then show ?case by (auto intro: set_run.stop)
next
  case (Cons c cs)
  from Cons.prems(2) have "call_key c \<in> D" by simp
  from step_ok [OF Cons.prems(1) this assms(3,4)] obtain r x s1 C1 where
      st: "lh_step alloc new_item call_hash call_cmp c s = Some (r, x, s1)"
        "lh_ok call_hash call_cmp hf cf D s1 C1" "set_step (call_cmp cf) (lh_set C) c r x (lh_set C1)" .
  from Cons.IH [OF st(2)] Cons.prems(2) obtain rs s' C' where
      "lh_run alloc new_item call_hash call_cmp cs s1 = Some (rs, s')"
      "lh_ok call_hash call_cmp hf cf D s' C'" "set_run (call_cmp cf) (lh_set C1) cs rs (lh_set C')" by auto
  with st show ?case by (auto intro: set_run.step)
qed

lemma run_load:
  assumes "lh_ok call_hash call_cmp hf cf D s C" "\<forall>c\<in>set cs. call_key c \<in> D" "alloc_ok alloc" "\<And>n. alloc n \<noteq> None"
    "new_item_ok new_item" "load_ok s" "num_items s + length cs < 2 ^ 60"
    "lh_run alloc new_item call_hash call_cmp cs s = Some (rs, s')"
  shows "load_ok s'"
  using assms(1,2,6-8)
proof (induction cs arbitrary: s C rs)
  case (Cons c cs)
  from Cons.prems(2) have k: "call_key c \<in> D" by simp
  from step_ok [OF Cons.prems(1) this assms(3,5)] obtain r x s1 C1 where
      st: "lh_step alloc new_item call_hash call_cmp c s = Some (r, x, s1)"
        "lh_ok call_hash call_cmp hf cf D s1 C1" "set_step (call_cmp cf) (lh_set C) c r x (lh_set C1)" .
  have "num_items s1 \<le> Suc (num_items s)"
    using set_step_card [OF st(3)] num_items_card [OF Cons.prems(1)] num_items_card [OF st(2)] by simp
  moreover have "load_ok s1"
    using st(1) k Cons.prems(3,4) insert_load [OF Cons.prems(1) _ assms(3,4,5) Cons.prems(3)]
      delete_load [OF Cons.prems(1) _ assms(3,4) Cons.prems(3)] by (cases c) auto
  moreover obtain rs1 where "lh_run alloc new_item call_hash call_cmp cs s1 = Some (rs1, s')"
    using Cons.prems(5) st(1) by (auto split: bind_splits)
  ultimately show ?case using Cons.IH [OF st(2)] Cons.prems(2,4) by simp
qed simp

end

lemma lh_new_ok:
  assumes "OPENSSL_lh_new alloc hf cf = Some s" "alloc_ok alloc"
  shows "lh_ok call_hash call_cmp hf cf D s (replicate kMinNumBuckets []) \<and> load_ok s \<and> num_items s = 0 \<and>
    num_buckets s = kMinNumBuckets"
proof -
  let ?C = "replicate kMinNumBuckets [] :: cell list list"
  obtain blk where b: "alloc (kMinNumBuckets * SIZEOF_PTR) = Some blk" "buckets s = replicate (length blk) 0"
      "num_items s = 0" "num_buckets s = kMinNumBuckets" "callback_depth s = 0" "items s = Map.empty"
      "lh_hash s = hf" "lh_comp s = cf"
    using assms(1) by (auto simp: OPENSSL_lh_new_def zalloc_ptrs_def split: option.splits)
  have "length blk = kMinNumBuckets" using assms(2) b(1) by (auto simp: alloc_ok_def)
  then have "list_all2 (\<lambda>b cs. seg (items s) b cs 0) (buckets s) ?C"
    unfolding b(2) by (simp add: list_all2_conv_all_nth)
  moreover have "concat ?C = []" "placed ?C" by (simp_all add: placed_def)
  moreover have "\<exists>k. num_buckets s = kMinNumBuckets * 2 ^ k" using b(4) by (intro exI [of _ 0]) simp
  ultimately have "table s ?C" using b(3-6) unfolding table_def shape_def by simp
  then show ?thesis using b \<open>concat ?C = []\<close> unfolding lh_ok_def keyed_def load_ok_def by simp
qed

text \<open>What holds after any calls on a new table.\<close>

context lh_keys
begin

lemma reached:
  assumes "alloc_ok alloc" "new_item_ok new_item" "OPENSSL_lh_new alloc hf cf = Some s" "\<forall>c\<in>set cs. call_key c \<in> D"
  obtains rs s' C where "lh_run alloc new_item call_hash call_cmp cs s = Some (rs, s')"
    "lh_ok call_hash call_cmp hf cf D s' C" "set_run (call_cmp cf) {} cs rs (lh_set C)"
proof -
  have "lh_set (replicate kMinNumBuckets []) = {}" by (simp add: lh_set_def)
  with lh_new_ok [OF assms(3,1), of call_hash call_cmp D] run_ok [OF _ assms(4,1,2), of s] that show ?thesis by metis
qed

lemma refines_set:
  assumes "alloc_ok alloc" "new_item_ok new_item" "OPENSSL_lh_new alloc hf cf = Some s" "\<forall>c\<in>set cs. call_key c \<in> D"
  shows "\<exists>rs s' S. lh_run alloc new_item call_hash call_cmp cs s = Some (rs, s') \<and>
    set_run (call_cmp cf) {} cs rs S \<and> OPENSSL_lh_num_items s' = card S"
  using reached [OF assms] num_items_card unfolding OPENSSL_lh_num_items_def by metis

lemma load_bounded:
  assumes "alloc_ok alloc" "\<And>n. alloc n \<noteq> None" "new_item_ok new_item" "OPENSSL_lh_new alloc hf cf = Some s"
    "\<forall>c\<in>set cs. call_key c \<in> D" "length cs < 2 ^ 60" "lh_run alloc new_item call_hash call_cmp cs s = Some (rs, s')"
  shows "num_items s' < 3 * num_buckets s' \<and> (num_buckets s' = kMinNumBuckets \<or> num_buckets s' \<le> num_items s')"
  using lh_new_ok [OF assms(4,1), of call_hash call_cmp D]
    run_load [OF _ assms(5,1,2,3) _ _ assms(7), of "replicate kMinNumBuckets []"] assms(6)
  by (simp add: load_ok_def)

lemma doall_visits:
  assumes "alloc_ok alloc" "new_item_ok new_item" "OPENSSL_lh_new alloc hf cf = Some s" "\<forall>c\<in>set cs. call_key c \<in> D"
    "lh_run alloc new_item call_hash call_cmp cs s = Some (rs, s')"
  shows "\<exists>S vis s''. set_run (call_cmp cf) {} cs rs S \<and>
    OPENSSL_lh_doall_arg alloc (visitor alloc call_hash call_cmp del) [] (Some s') = Some (vis, Some s'') \<and>
    distinct vis \<and> set vis = S \<and> OPENSSL_lh_num_items s'' = card {x \<in> S. \<not> del x} \<and>
    OPENSSL_lh_free (Some s'') = Some Map.empty"
proof -
  from reached [OF assms(1-4)] assms(5) obtain C where
      r: "lh_ok call_hash call_cmp hf cf D s' C" "set_run (call_cmp cf) {} cs rs (lh_set C)" by (metis option.inject prod.inject)
  from doall_ok [OF r(1) assms(1), of del] obtain vis s'' C' where
      v: "OPENSSL_lh_doall_arg alloc (visitor alloc call_hash call_cmp del) [] (Some s') = Some (vis, Some s'')"
        "lh_ok call_hash call_cmp hf cf D s'' C'" "distinct vis" "set vis = lh_set C"
        "lh_set C' = {x \<in> lh_set C. \<not> del x}" by blast
  moreover have "OPENSSL_lh_free (Some s'') = Some Map.empty" using v(2) free_ok unfolding lh_ok_def by blast
  moreover have "OPENSSL_lh_num_items s'' = card {x \<in> lh_set C. \<not> del x}"
    using num_items_card [OF v(2)] v(5) by (simp add: OPENSSL_lh_num_items_def)
  ultimately show ?thesis using r(2) by blast
qed

end

section \<open>Properties\<close>

text \<open>
  (C4) From a new table, any sequence of insertions, deletions and searches never follows a bad pointer,
  returns, and does what it would do to a set of pairwise unequal elements: a search finds the element equal to
  the key or nothing, an insertion replaces the equal element and returns it, a deletion removes and returns
  it; only an insertion may fail, and then nothing changes.  \<open>num_items\<close> counts the set.
\<close>

theorem lhash_refines_set:
  assumes "lh_keys call_hash call_cmp hf cf D" "alloc_ok alloc" "new_item_ok new_item"
    "OPENSSL_lh_new alloc hf cf = Some s" "\<forall>c\<in>set cs. call_key c \<in> D"
  shows "\<exists>rs s' S. lh_run alloc new_item call_hash call_cmp cs s = Some (rs, s') \<and>
    set_run (call_cmp cf) {} cs rs S \<and> OPENSSL_lh_num_items s' = card S"
  using assms by (rule lh_keys.refines_set)

text \<open>
  (C27) As long as memory can be had and there are fewer than \<open>2 ^ 60\<close> calls, the table keeps its chains short:
  after any sequence of calls the number of items is less than three times the number of buckets, and it is at
  least the number of buckets once there are more than the smallest number of them.
\<close>

theorem lhash_load_bounded:
  assumes "lh_keys call_hash call_cmp hf cf D" "alloc_ok alloc" "\<And>n. alloc n \<noteq> None" "new_item_ok new_item"
    "OPENSSL_lh_new alloc hf cf = Some s" "\<forall>c\<in>set cs. call_key c \<in> D" "length cs < 2 ^ 60"
    "lh_run alloc new_item call_hash call_cmp cs s = Some (rs, s')"
  shows "num_items s' < 3 * num_buckets s' \<and> (num_buckets s' = kMinNumBuckets \<or> num_buckets s' \<le> num_items s')"
  using assms by (rule lh_keys.load_bounded)


section \<open>Witnesses\<close>

text \<open>Keys that are their own hashes, arrays of zeros, and memory with room for two items.\<close>

definition own_hash :: hash_fun where "own_hash f d = of_nat d"
definition own_cmp :: cmp_fun where "own_cmp f x y = int x - int y"
definition zeros :: "nat \<Rightarrow> ptr list option" where "zeros n = Some (replicate (n div SIZEOF_PTR) 0)"

definition two_items :: "lhash \<Rightarrow> ptr option" where
  "two_items s = (if items s 100 = None then Some 100 else if items s 200 = None then Some 200 else None)"

definition small_table :: lhash where
  "small_table = \<lparr>num_items = 0, buckets = replicate 16 0, num_buckets = 16, callback_depth = 0,
    lh_comp = 0, lh_hash = 0, items = Map.empty\<rparr>"

lemma own_keys: "lh_keys own_hash own_cmp 0 0 {5, 21}"
  by unfold_locales (auto simp: own_hash_def own_cmp_def)

lemma zeros_ok: "alloc_ok zeros" "zeros n \<noteq> None"
  by (simp_all add: alloc_ok_def zeros_def)

lemma two_items_ok: "new_item_ok two_items"
  by (auto simp: new_item_ok_def two_items_def split: if_splits)

lemma small_table_new: "OPENSSL_lh_new zeros 0 0 = Some small_table"
  by (simp add: OPENSSL_lh_new_def zalloc_ptrs_def zeros_def small_table_def)

text \<open>Two elements of one bucket.\<close>

definition two_calls :: "lh_call list" where
  "two_calls = [Lh_insert 5, Lh_insert 21, Lh_retrieve 21]"

lemma two_calls_keys: "\<forall>c\<in>set two_calls. call_key c \<in> {5, 21}"
  by (simp add: two_calls_def)

theorem lhash_refines_set_witness:
  "\<exists>rs s' S. lh_run zeros two_items own_hash own_cmp two_calls small_table = Some (rs, s') \<and>
    set_run (own_cmp 0) {} two_calls rs S \<and> OPENSSL_lh_num_items s' = card S"
  by (rule lhash_refines_set [OF own_keys zeros_ok(1) two_items_ok small_table_new two_calls_keys])

lemma two_calls_run: "\<exists>rs s'. lh_run zeros two_items own_hash own_cmp two_calls small_table = Some (rs, s')"
  using lh_keys.refines_set [OF own_keys zeros_ok(1) two_items_ok small_table_new two_calls_keys] by blast

theorem lhash_load_bounded_witness:
  "\<exists>rs s'. lh_run zeros two_items own_hash own_cmp two_calls small_table = Some (rs, s') \<and>
    num_items s' < 3 * num_buckets s' \<and> (num_buckets s' = kMinNumBuckets \<or> num_buckets s' \<le> num_items s')"
proof -
  obtain rs s' where r: "lh_run zeros two_items own_hash own_cmp two_calls small_table = Some (rs, s')"
    using two_calls_run by blast
  have "length two_calls < 2 ^ 60" by (simp add: two_calls_def)
  from lhash_load_bounded [OF own_keys zeros_ok two_items_ok small_table_new two_calls_keys this r] r
  show ?thesis by blast
qed


end
