(* ===== verification/Objects.thy ===== *)
theory Objects
  imports Oid Ber Lhash_Spec
begin

text \<open>
  \<open>crypto/obj/obj.c\<close> and \<open>crypto/asn1/a_object.c\<close>: ASN.1 objects, and the tables that give an object for a
  number, a name or an encoding.

  The record \<open>objects\<close> is the state: the memory that holds objects, static ones too, as a map from
  addresses, and the globals of \<open>obj.c\<close>.  The locks around the globals are left out: one thread runs at a
  time.  A string or an encoding is the list of its bytes, \<open>None\<close> for a null pointer.  An operation that may
  follow a bad pointer or fail a check yields an option, \<open>None\<close> for that.

  The tables of \<open>obj_dat.h\<close>, a file that is generated, are the parameter \<open>T\<close>: the addresses of the built-in
  objects and the arrays of their numbers by encoding and by name.  Further parameters: \<open>malloc\<close>, \<open>alloc\<close> and
  \<open>new_item\<close> as elsewhere, \<open>new_obj\<close> for the address of a new object, \<open>stack\<close> for the address of a local
  variable and \<open>junk\<close> for its contents before it is set.
\<close>

section \<open>Data\<close>

record asn1_object =
  o_sn :: "u8 list option"
  o_ln :: "u8 list option"
  o_nid :: int
  o_length :: int
  o_data :: "u8 list option"
  o_flags :: u32

record objects =
  objs :: "ptr \<Rightarrow> asn1_object option"
  by_data :: "lhash option"
  by_nid :: "lhash option"
  by_short_name :: "lhash option"
  by_long_name :: "lhash option"
  next_nid :: u32

record builtins =
  kObjects :: "nat \<Rightarrow> ptr"
  kUndef :: ptr
  kNIDsInOIDOrder :: "nat list"
  kNIDsInShortNameOrder :: "nat list"
  kNIDsInLongNameOrder :: "nat list"

abbreviation (input) NUM_NID :: int where "NUM_NID \<equiv> 965"
abbreviation (input) NID_undef :: int where "NID_undef \<equiv> 0"

definition ASN1_OBJECT_FLAG_DYNAMIC :: u32 where "ASN1_OBJECT_FLAG_DYNAMIC = 0x01"
definition ASN1_OBJECT_FLAG_DYNAMIC_STRINGS :: u32 where "ASN1_OBJECT_FLAG_DYNAMIC_STRINGS = 0x04"
definition ASN1_OBJECT_FLAG_DYNAMIC_DATA :: u32 where "ASN1_OBJECT_FLAG_DYNAMIC_DATA = 0x08"

definition DYNAMIC_ALL :: u32 where
  "DYNAMIC_ALL = ASN1_OBJECT_FLAG_DYNAMIC OR ASN1_OBJECT_FLAG_DYNAMIC_STRINGS OR ASN1_OBJECT_FLAG_DYNAMIC_DATA"

definition bytes_at :: "u8 list option \<Rightarrow> u8 list" where
  "bytes_at p = (case p of None \<Rightarrow> [] | Some bs \<Rightarrow> bs)"

section \<open>Comparison and hashing\<close>

text \<open>\<open>strcmp\<close> of the C library, on strings that are terminated.\<close>

fun strcmp :: "u8 list \<Rightarrow> u8 list \<Rightarrow> int" where
  "strcmp (x # s) (y # t) = (if x < y then -1 else if x > y then 1 else if x = 0 then 0 else strcmp s t)"
| "strcmp _ _ = 0"

definition OBJ_cmp :: "asn1_object \<Rightarrow> asn1_object \<Rightarrow> int" where
  "OBJ_cmp a b =
    (if o_length a < o_length b then -1
     else if o_length a > o_length b then 1
     else OPENSSL_memcmp (bytes_at (o_data a)) (bytes_at (o_data b)) (size_of_int (o_length a)))"

definition hash_nid :: "asn1_object \<Rightarrow> u32" where
  "hash_nid obj = word_of_int (o_nid obj)"

definition cmp_nid :: "asn1_object \<Rightarrow> asn1_object \<Rightarrow> int" where
  "cmp_nid a b = o_nid a - o_nid b"

definition hash_data :: "asn1_object \<Rightarrow> u32" where
  "hash_data obj = OPENSSL_hash32 (bytes_at (o_data obj)) (size_of_int (o_length obj))"

definition hash_name :: "u8 list option \<Rightarrow> u32" where
  "hash_name s = the (OPENSSL_strhash (bytes_at s))"

definition hash_short_name :: "asn1_object \<Rightarrow> u32" where
  "hash_short_name obj = hash_name (o_sn obj)"

definition cmp_short_name :: "asn1_object \<Rightarrow> asn1_object \<Rightarrow> int" where
  "cmp_short_name a b = strcmp (bytes_at (o_sn a)) (bytes_at (o_sn b))"

definition hash_long_name :: "asn1_object \<Rightarrow> u32" where
  "hash_long_name obj = hash_name (o_ln obj)"

definition cmp_long_name :: "asn1_object \<Rightarrow> asn1_object \<Rightarrow> int" where
  "cmp_long_name a b = strcmp (bytes_at (o_ln a)) (bytes_at (o_ln b))"

text \<open>The pointers to these functions are numbers; the casts of \<open>DEFINE_LHASH_OF\<close> call the function for one.\<close>

abbreviation (input) FN_nid :: nat where "FN_nid \<equiv> 0"
abbreviation (input) FN_data :: nat where "FN_data \<equiv> 1"
abbreviation (input) FN_short_name :: nat where "FN_short_name \<equiv> 2"
abbreviation (input) FN_long_name :: nat where "FN_long_name \<equiv> 3"

definition lh_ASN1_OBJECT_call_hash_func :: "(ptr \<Rightarrow> asn1_object option) \<Rightarrow> hash_fun" where
  "lh_ASN1_OBJECT_call_hash_func h func a =
    (let obj = the (h a)
     in if func = FN_nid then hash_nid obj else if func = FN_data then hash_data obj
        else if func = FN_short_name then hash_short_name obj else hash_long_name obj)"

definition lh_ASN1_OBJECT_call_cmp_func :: "(ptr \<Rightarrow> asn1_object option) \<Rightarrow> cmp_fun" where
  "lh_ASN1_OBJECT_call_cmp_func h func a b =
    (let a = the (h a); b = the (h b)
     in if func = FN_nid then cmp_nid a b else if func = FN_data then OBJ_cmp a b
        else if func = FN_short_name then cmp_short_name a b else cmp_long_name a b)"

definition lh_ASN1_OBJECT_retrieve :: "(ptr \<Rightarrow> asn1_object option) \<Rightarrow> lhash \<Rightarrow> ptr \<Rightarrow> ptr option" where
  "lh_ASN1_OBJECT_retrieve h lh d =
    OPENSSL_lh_retrieve (lh_ASN1_OBJECT_call_hash_func h) (lh_ASN1_OBJECT_call_cmp_func h) lh d"

definition lh_ASN1_OBJECT_insert ::
  "(nat \<Rightarrow> ptr list option) \<Rightarrow> (lhash \<Rightarrow> ptr option) \<Rightarrow> (ptr \<Rightarrow> asn1_object option) \<Rightarrow> lhash \<Rightarrow> ptr \<Rightarrow>
    (int \<times> ptr \<times> lhash) option" where
  "lh_ASN1_OBJECT_insert alloc new_item h lh d =
    OPENSSL_lh_insert alloc new_item (lh_ASN1_OBJECT_call_hash_func h) (lh_ASN1_OBJECT_call_cmp_func h) d lh"

section \<open>Making and freeing objects\<close>

definition ASN1_OBJECT_new :: "(objects \<Rightarrow> ptr option) \<Rightarrow> objects \<Rightarrow> ptr \<times> objects" where
  "ASN1_OBJECT_new new_obj st =
    (case new_obj st of None \<Rightarrow> (0, st)
     | Some ret \<Rightarrow>
         (ret, st\<lparr>objs := (objs st)(ret \<mapsto> \<lparr>o_sn = None, o_ln = None, o_nid = 0, o_length = 0, o_data = None,
            o_flags = ASN1_OBJECT_FLAG_DYNAMIC\<rparr>)\<rparr>))"

definition ASN1_OBJECT_free :: "ptr \<Rightarrow> objects \<Rightarrow> objects option" where
  "ASN1_OBJECT_free a st =
    (if a = 0 then Some st
     else do {
       x \<leftarrow> objs st a;
       let y = (if o_flags x AND ASN1_OBJECT_FLAG_DYNAMIC_STRINGS \<noteq> 0 then x\<lparr>o_sn := None, o_ln := None\<rparr> else x);
       let z = (if o_flags y AND ASN1_OBJECT_FLAG_DYNAMIC_DATA \<noteq> 0 then y\<lparr>o_data := None, o_length := 0\<rparr> else y);
       Some (st\<lparr>objs := (objs st)(a := if o_flags z AND ASN1_OBJECT_FLAG_DYNAMIC \<noteq> 0 then None else Some z)\<rparr>) })"

text \<open>\<open>OBJ_dup\<close> of an object \<open>ob\<close> at address \<open>a\<close>.  At \<open>err\<close> the new object is freed.\<close>

definition dup_object ::
  "(nat \<Rightarrow> u8 list option) \<Rightarrow> (objects \<Rightarrow> ptr option) \<Rightarrow> ptr \<Rightarrow> asn1_object \<Rightarrow> objects \<Rightarrow> ptr \<times> objects" where
  "dup_object malloc new_obj a ob st =
    (if o_flags ob AND ASN1_OBJECT_FLAG_DYNAMIC = 0 then (a, st)
     else let (r, st1) = ASN1_OBJECT_new new_obj st
     in if r = 0 then (0, st1)
     else let err = (0, st1\<lparr>objs := (objs st1)(r := None)\<rparr>);
              d = OPENSSL_memdup malloc (bytes_at (o_data ob)) (size_of_int (o_length ob))
     in if o_length ob \<noteq> 0 \<and> d = None then err
     else let ln = (if o_ln ob \<noteq> None then OPENSSL_strdup malloc (o_ln ob) else None)
     in if o_ln ob \<noteq> None \<and> ln = None then err
     else let sn = (if o_sn ob \<noteq> None then OPENSSL_strdup malloc (o_sn ob) else None)
     in if o_sn ob \<noteq> None \<and> sn = None then err
     else (r, st1\<lparr>objs := (objs st1)(r \<mapsto> \<lparr>o_sn = sn, o_ln = ln, o_nid = o_nid ob, o_length = o_length ob,
            o_data = d, o_flags = o_flags ob OR DYNAMIC_ALL\<rparr>)\<rparr>))"

definition OBJ_dup ::
  "(nat \<Rightarrow> u8 list option) \<Rightarrow> (objects \<Rightarrow> ptr option) \<Rightarrow> ptr \<Rightarrow> objects \<Rightarrow> (ptr \<times> objects) option" where
  "OBJ_dup malloc new_obj a st =
    (if a = 0 then Some (0, st)
     else do { ob \<leftarrow> objs st a; Some (dup_object malloc new_obj a ob st) })"

definition ASN1_OBJECT_create ::
  "(nat \<Rightarrow> u8 list option) \<Rightarrow> (objects \<Rightarrow> ptr option) \<Rightarrow> ptr \<Rightarrow> int \<Rightarrow> u8 list option \<Rightarrow> nat \<Rightarrow>
    u8 list option \<Rightarrow> u8 list option \<Rightarrow> objects \<Rightarrow> ptr \<times> objects" where
  "ASN1_OBJECT_create malloc new_obj stack nid d len sn ln st =
    (if len > INT_MAX_nat then (0, st)
     else dup_object malloc new_obj stack
       \<lparr>o_sn = sn, o_ln = ln, o_nid = nid, o_length = int len, o_data = d, o_flags = DYNAMIC_ALL\<rparr> st)"

section \<open>Lookup\<close>

definition OBJ_get0_data :: "ptr \<Rightarrow> objects \<Rightarrow> u8 list option option" where
  "OBJ_get0_data obj st = (if obj = 0 then Some None else do { x \<leftarrow> objs st obj; Some (o_data x) })"

definition OBJ_length :: "ptr \<Rightarrow> objects \<Rightarrow> nat option" where
  "OBJ_length obj st =
    (if obj = 0 then Some 0
     else do { x \<leftarrow> objs st obj; Some (if o_length x < 0 then 0 else size_of_int (o_length x)) })"

definition get_builtin_object :: "builtins \<Rightarrow> int \<Rightarrow> ptr option" where
  "get_builtin_object T nid = do { assert (nid > 0 \<and> nid < NUM_NID); Some (kObjects T (nat nid - 1)) }"

text \<open>\<open>bsearch\<close> of the C library, whose comparison may fail a check.\<close>

function c_bsearch :: "(nat \<Rightarrow> int option) \<Rightarrow> nat list \<Rightarrow> nat \<Rightarrow> nat \<Rightarrow> nat option option" where
  "c_bsearch cmp d lo hi =
    (if lo < hi then do {
       r \<leftarrow> cmp (d ! ((lo + hi) div 2));
       if r < 0 then c_bsearch cmp d lo ((lo + hi) div 2)
       else if r > 0 then c_bsearch cmp d ((lo + hi) div 2 + 1) hi
       else Some (Some (d ! ((lo + hi) div 2))) }
     else Some None)"
  by pat_completeness auto
termination
  by (relation "measure (\<lambda>(cmp, d, lo, hi). hi - lo)") auto

declare c_bsearch.simps [simp del]

definition obj_cmp :: "builtins \<Rightarrow> objects \<Rightarrow> asn1_object \<Rightarrow> nat \<Rightarrow> int option" where
  "obj_cmp T st key nid = do { p \<leftarrow> get_builtin_object T (int nid); x \<leftarrow> objs st p; Some (OBJ_cmp key x) }"

definition short_name_cmp :: "builtins \<Rightarrow> objects \<Rightarrow> u8 list \<Rightarrow> nat \<Rightarrow> int option" where
  "short_name_cmp T st name nid =
    do { p \<leftarrow> get_builtin_object T (int nid); x \<leftarrow> objs st p; Some (strcmp name (bytes_at (o_sn x))) }"

definition long_name_cmp :: "builtins \<Rightarrow> objects \<Rightarrow> u8 list \<Rightarrow> nat \<Rightarrow> int option" where
  "long_name_cmp T st name nid =
    do { p \<leftarrow> get_builtin_object T (int nid); x \<leftarrow> objs st p; Some (strcmp name (bytes_at (o_ln x))) }"

text \<open>The end of the three searches: the number of the built-in object at the position found.\<close>

definition builtin_nid :: "builtins \<Rightarrow> objects \<Rightarrow> nat option \<Rightarrow> int option" where
  "builtin_nid T st nid_ptr =
    (case nid_ptr of None \<Rightarrow> Some NID_undef
     | Some nid \<Rightarrow> do { p \<leftarrow> get_builtin_object T (int nid); x \<leftarrow> objs st p; Some (o_nid x) })"

text \<open>The search of a table of added objects: the address of the match, 0 for none or no table.\<close>

definition added :: "lhash option \<Rightarrow> (ptr \<Rightarrow> asn1_object option) \<Rightarrow> ptr \<Rightarrow> ptr option" where
  "added tbl h key = (case tbl of None \<Rightarrow> Some 0 | Some lh \<Rightarrow> lh_ASN1_OBJECT_retrieve h lh key)"

definition OBJ_obj2nid :: "builtins \<Rightarrow> ptr \<Rightarrow> objects \<Rightarrow> int option" where
  "OBJ_obj2nid T obj st =
    (if obj = 0 then Some NID_undef
     else do {
       x \<leftarrow> objs st obj;
       if o_nid x \<noteq> 0 then Some (o_nid x)
       else do {
         match \<leftarrow> added (by_data st) (objs st) obj;
         if match \<noteq> 0 then do { y \<leftarrow> objs st match; Some (o_nid y) }
         else do {
           nid_ptr \<leftarrow> c_bsearch (obj_cmp T st x) (kNIDsInOIDOrder T) 0 (length (kNIDsInOIDOrder T));
           builtin_nid T st nid_ptr } } })"

definition OBJ_cbs2nid :: "builtins \<Rightarrow> ptr \<Rightarrow> cbs \<Rightarrow> objects \<Rightarrow> int option" where
  "OBJ_cbs2nid T stack cbs st =
    (if CBS_len cbs > INT_MAX_nat then Some NID_undef
     else OBJ_obj2nid T stack
       (st\<lparr>objs := (objs st)(stack \<mapsto> \<lparr>o_sn = None, o_ln = None, o_nid = 0, o_length = int (CBS_len cbs),
          o_data = Some (CBS_data cbs), o_flags = 0\<rparr>)\<rparr>))"

definition OBJ_sn2nid :: "builtins \<Rightarrow> ptr \<Rightarrow> asn1_object \<Rightarrow> u8 list \<Rightarrow> objects \<Rightarrow> int option" where
  "OBJ_sn2nid T stack junk short_name st = do {
     let h = (objs st)(stack \<mapsto> junk\<lparr>o_sn := Some short_name\<rparr>);
     match \<leftarrow> added (by_short_name st) h stack;
     if match \<noteq> 0 then do { y \<leftarrow> h match; Some (o_nid y) }
     else do {
       nid_ptr \<leftarrow> c_bsearch (short_name_cmp T st short_name) (kNIDsInShortNameOrder T) 0
         (length (kNIDsInShortNameOrder T));
       builtin_nid T st nid_ptr } }"

definition OBJ_ln2nid :: "builtins \<Rightarrow> ptr \<Rightarrow> asn1_object \<Rightarrow> u8 list \<Rightarrow> objects \<Rightarrow> int option" where
  "OBJ_ln2nid T stack junk long_name st = do {
     let h = (objs st)(stack \<mapsto> junk\<lparr>o_ln := Some long_name\<rparr>);
     match \<leftarrow> added (by_long_name st) h stack;
     if match \<noteq> 0 then do { y \<leftarrow> h match; Some (o_nid y) }
     else do {
       nid_ptr \<leftarrow> c_bsearch (long_name_cmp T st long_name) (kNIDsInLongNameOrder T) 0
         (length (kNIDsInLongNameOrder T));
       builtin_nid T st nid_ptr } }"

definition OBJ_nid2obj :: "builtins \<Rightarrow> ptr \<Rightarrow> asn1_object \<Rightarrow> int \<Rightarrow> objects \<Rightarrow> ptr option" where
  "OBJ_nid2obj T stack junk nid st =
    (if nid = NID_undef then Some (kUndef T)
     else if nid > 0 \<and> nid < NUM_NID
     then do {
       p \<leftarrow> get_builtin_object T nid;
       x \<leftarrow> objs st p;
       Some (if nid \<noteq> NID_undef \<and> o_nid x = NID_undef then 0 else p) }
     else added (by_nid st) ((objs st)(stack \<mapsto> junk\<lparr>o_nid := nid\<rparr>)) stack)"

definition OBJ_nid2sn :: "builtins \<Rightarrow> ptr \<Rightarrow> asn1_object \<Rightarrow> int \<Rightarrow> objects \<Rightarrow> u8 list option option" where
  "OBJ_nid2sn T stack junk nid st = do {
     obj \<leftarrow> OBJ_nid2obj T stack junk nid st;
     if obj = 0 then Some None else do { x \<leftarrow> objs st obj; Some (o_sn x) } }"

definition OBJ_nid2ln :: "builtins \<Rightarrow> ptr \<Rightarrow> asn1_object \<Rightarrow> int \<Rightarrow> objects \<Rightarrow> u8 list option option" where
  "OBJ_nid2ln T stack junk nid st = do {
     obj \<leftarrow> OBJ_nid2obj T stack junk nid st;
     if obj = 0 then Some None else do { x \<leftarrow> objs st obj; Some (o_ln x) } }"

section \<open>Text\<close>

definition obj_next_nid :: "objects \<Rightarrow> int \<times> objects" where
  "obj_next_nid st = (sint (next_nid st), st\<lparr>next_nid := next_nid st + 1\<rparr>)"

text \<open>\<open>get_nid\<close> is a null pointer or \<open>obj_next_nid\<close>.\<close>

definition create_object_with_text_oid ::
  "(nat \<Rightarrow> u8 list option) \<Rightarrow> (objects \<Rightarrow> ptr option) \<Rightarrow> ptr \<Rightarrow> (objects \<Rightarrow> int \<times> objects) option \<Rightarrow> u8 list \<Rightarrow>
    u8 list option \<Rightarrow> u8 list option \<Rightarrow> objects \<Rightarrow> (ptr \<times> objects) option" where
  "create_object_with_text_oid malloc new_obj stack get_nid oid short_name long_name st = do {
     n \<leftarrow> c_strlen oid;
     Some
      (case CBB_init malloc 32 of
         None \<Rightarrow> (0, st)
       | Some cbb \<Rightarrow>
      (case op_bind (CBB_add_asn1_oid_from_text malloc 0 oid n) (\<lambda>_. CBB_finish malloc 0 False) cbb of
         (None, _) \<Rightarrow> (0, st)
       | (Some (buf, len), _) \<Rightarrow>
           let (nid, st) = (case get_nid of None \<Rightarrow> (NID_undef, st) | Some get \<Rightarrow> get st)
           in ASN1_OBJECT_create malloc new_obj stack nid buf len short_name long_name st)) }"

definition OBJ_txt2obj ::
  "builtins \<Rightarrow> (nat \<Rightarrow> u8 list option) \<Rightarrow> (objects \<Rightarrow> ptr option) \<Rightarrow> ptr \<Rightarrow> asn1_object \<Rightarrow> u8 list \<Rightarrow> bool \<Rightarrow>
    objects \<Rightarrow> (ptr \<times> objects) option" where
  "OBJ_txt2obj T malloc new_obj stack junk s dont_search_names st = do {
     nid \<leftarrow> (if dont_search_names then Some NID_undef
            else do {
              nid \<leftarrow> OBJ_sn2nid T stack junk s st;
              if nid = NID_undef then OBJ_ln2nid T stack junk s st else Some nid });
     if nid \<noteq> NID_undef then do { p \<leftarrow> OBJ_nid2obj T stack junk nid st; Some (p, st) }
     else create_object_with_text_oid malloc new_obj stack None s None None st }"

definition OBJ_txt2nid ::
  "builtins \<Rightarrow> (nat \<Rightarrow> u8 list option) \<Rightarrow> (objects \<Rightarrow> ptr option) \<Rightarrow> ptr \<Rightarrow> asn1_object \<Rightarrow> u8 list \<Rightarrow>
    objects \<Rightarrow> (int \<times> objects) option" where
  "OBJ_txt2nid T malloc new_obj stack junk s st = do {
     (obj, st) \<leftarrow> OBJ_txt2obj T malloc new_obj stack junk s False st;
     nid \<leftarrow> OBJ_obj2nid T obj st;
     st \<leftarrow> ASN1_OBJECT_free obj st;
     Some (nid, st) }"

text \<open>The destination \<open>dst\<close> is the object the pointer points into; the result is its new contents and the
  return value.\<close>

definition strlcpy_int :: "u8 list \<Rightarrow> u8 list \<Rightarrow> int \<Rightarrow> (u8 list \<times> int) option" where
  "strlcpy_int dst src dst_size = do {
     (dst, ret) \<leftarrow> OPENSSL_strlcpy dst src (if dst_size < 0 then 0 else size_of_int dst_size);
     Some (dst, if ret > INT_MAX_nat then -1 else int ret) }"

definition OBJ_obj2txt ::
  "builtins \<Rightarrow> (nat \<Rightarrow> u8 list option) \<Rightarrow> ptr \<Rightarrow> asn1_object \<Rightarrow> u8 list \<Rightarrow> int \<Rightarrow> ptr \<Rightarrow> bool \<Rightarrow> objects \<Rightarrow>
    (u8 list \<times> int) option" where
  "OBJ_obj2txt T malloc stack junk out out_len obj always_return_oid st = do {
     len \<leftarrow> (if obj = 0 then Some 0 else do { x \<leftarrow> objs st obj; Some (o_length x) });
     if obj = 0 \<or> len = 0 then strlcpy_int out [0] out_len
     else do {
       name \<leftarrow> (if always_return_oid then Some None
              else do {
                nid \<leftarrow> OBJ_obj2nid T obj st;
                if nid \<noteq> NID_undef
                then do {
                  name \<leftarrow> OBJ_nid2ln T stack junk nid st;
                  if name = None then OBJ_nid2sn T stack junk nid st else Some name }
                else Some None });
       case name of
         Some name \<Rightarrow> strlcpy_int out name out_len
       | None \<Rightarrow> do {
           x \<leftarrow> objs st obj;
           case CBS_asn1_oid_to_text malloc (CBS_init (bytes_at (o_data x)) (size_of_int (o_length x))) of
             None \<Rightarrow> Some (if out_len > 0 then out[0 := 0] else out, -1)
           | Some txt \<Rightarrow> strlcpy_int out txt out_len } } }"

section \<open>Adding objects\<close>

definition or_new :: "(nat \<Rightarrow> ptr list option) \<Rightarrow> nat \<Rightarrow> lhash option \<Rightarrow> lhash option" where
  "or_new alloc func tbl = (case tbl of None \<Rightarrow> OPENSSL_lh_new alloc func func | Some lh \<Rightarrow> Some lh)"

text \<open>\<open>ok &= lh_ASN1_OBJECT_insert(...)\<close>, if \<open>c\<close> holds.\<close>

definition insert_if ::
  "(nat \<Rightarrow> ptr list option) \<Rightarrow> (lhash \<Rightarrow> ptr option) \<Rightarrow> (ptr \<Rightarrow> asn1_object option) \<Rightarrow> bool \<Rightarrow> lhash option \<Rightarrow> ptr \<Rightarrow>
    int \<Rightarrow> (int \<times> lhash option) option" where
  "insert_if alloc new_item h c tbl obj ok =
    (if c then do {
       lh \<leftarrow> tbl;
       (r, _, lh) \<leftarrow> lh_ASN1_OBJECT_insert alloc new_item h lh obj;
       Some (ok AND r, Some lh) }
     else Some (ok, tbl))"

definition obj_add_object ::
  "(nat \<Rightarrow> ptr list option) \<Rightarrow> (lhash \<Rightarrow> ptr option) \<Rightarrow> ptr \<Rightarrow> objects \<Rightarrow> (int \<times> objects) option" where
  "obj_add_object alloc new_item obj st = do {
     x \<leftarrow> objs st obj;
     let x = x\<lparr>o_flags := o_flags x AND NOT DYNAMIC_ALL\<rparr>;
     let h = (objs st)(obj \<mapsto> x);
     let st = st\<lparr>objs := h,
       by_nid := or_new alloc FN_nid (by_nid st),
       by_data := or_new alloc FN_data (by_data st),
       by_short_name := or_new alloc FN_short_name (by_short_name st),
       by_long_name := or_new alloc FN_long_name (by_long_name st)\<rparr>;
     if by_nid st = None \<or> by_data st = None \<or> by_short_name st = None \<or> by_long_name st = None
     then Some (0, st)
     else do {
       (ok, t) \<leftarrow> insert_if alloc new_item h True (by_nid st) obj (-1);
       let st = st\<lparr>by_nid := t\<rparr>;
       (ok, t) \<leftarrow> insert_if alloc new_item h (o_length x \<noteq> 0 \<and> o_data x \<noteq> None) (by_data st) obj ok;
       let st = st\<lparr>by_data := t\<rparr>;
       (ok, t) \<leftarrow> insert_if alloc new_item h (o_sn x \<noteq> None) (by_short_name st) obj ok;
       let st = st\<lparr>by_short_name := t\<rparr>;
       (ok, t) \<leftarrow> insert_if alloc new_item h (o_ln x \<noteq> None) (by_long_name st) obj ok;
       let st = st\<lparr>by_long_name := t\<rparr>;
       Some (ok, st) } }"

definition OBJ_create ::
  "(nat \<Rightarrow> u8 list option) \<Rightarrow> (objects \<Rightarrow> ptr option) \<Rightarrow> (nat \<Rightarrow> ptr list option) \<Rightarrow> (lhash \<Rightarrow> ptr option) \<Rightarrow> ptr \<Rightarrow>
    u8 list \<Rightarrow> u8 list option \<Rightarrow> u8 list option \<Rightarrow> objects \<Rightarrow> (int \<times> objects) option" where
  "OBJ_create malloc new_obj alloc new_item stack oid short_name long_name st = do {
     (p, st) \<leftarrow> create_object_with_text_oid malloc new_obj stack (Some obj_next_nid) oid short_name long_name st;
     if p = 0 then Some (NID_undef, st)
     else do {
       (ok, st) \<leftarrow> obj_add_object alloc new_item p st;
       if ok = 0 then Some (NID_undef, st)
       else do { x \<leftarrow> objs st p; Some (o_nid x, st) } } }"

end
