(* ===== verification/Objects_Spec.thy ===== *)
theory Objects_Spec
  imports Objects
begin

text \<open>
  What the tables of objects promise: an object that was created is found by its number, its names and its
  encoding, and the text of an object identifier is read and written without loss.  Each table is an
  interpretation of the contract of the hash table, \<open>lh_keys\<close>.
\<close>

section \<open>The keys of an object\<close>

definition cstr :: "u8 list \<Rightarrow> u8 list" where
  "cstr s = takeWhile (\<lambda>b. b \<noteq> 0) s"

definition terminated :: "u8 list option \<Rightarrow> bool" where
  "terminated s \<longleftrightarrow> (case s of None \<Rightarrow> False | Some s \<Rightarrow> 0 \<in> set s)"

lemma c_strlen_cstr: "0 \<in> set s \<Longrightarrow> c_strlen s = Some (length (cstr s))"
  by (induction s) (auto simp: cstr_def)

lemma c_strlen_terminated: "c_strlen s = Some n \<Longrightarrow> 0 \<in> set s"
  by (induction s arbitrary: n) (auto split: if_splits)

lemma take_cstr: "take (length (cstr s)) s = cstr s"
  by (simp add: cstr_def takeWhile_eq_take [symmetric])

lemma strcmp_zero: "0 \<in> set s \<Longrightarrow> 0 \<in> set t \<Longrightarrow> strcmp s t = 0 \<longleftrightarrow> cstr s = cstr t"
  by (induction s t rule: strcmp.induct) (auto simp: cstr_def)

lemma hash32_take: "n \<le> length s \<Longrightarrow> OPENSSL_hash32 s n = OPENSSL_hash32 (take n s) n"
  by (auto simp: OPENSSL_hash32_def intro!: foldl_cong)

lemma memcmp_zero:
  "n \<le> length s \<Longrightarrow> n \<le> length t \<Longrightarrow> OPENSSL_memcmp s t n = 0 \<longleftrightarrow> take n s = take n t"
proof -
  have "memcmp_sign s t n = 0 \<longleftrightarrow> take n s = take n t" if "n \<le> length s" "n \<le> length t"
    using that by (induction s t n rule: memcmp_sign.induct) auto
  then show "n \<le> length s \<Longrightarrow> n \<le> length t \<Longrightarrow> OPENSSL_memcmp s t n = 0 \<longleftrightarrow> take n s = take n t"
    by (simp add: OPENSSL_memcmp_def)
qed

definition enc :: "asn1_object \<Rightarrow> u8 list" where
  "enc x = take (nat (o_length x)) (bytes_at (o_data x))"

text \<open>The objects that may be in the table with function \<open>f\<close>, and what the functions of the table look at.\<close>

definition has_key :: "nat \<Rightarrow> asn1_object \<Rightarrow> bool" where
  "has_key f x \<longleftrightarrow>
    (if f = FN_nid then True
     else if f = FN_data then 0 \<le> o_length x \<and> o_length x < int SIZE_LIMIT \<and> nat (o_length x) \<le> length (bytes_at (o_data x))
     else if f = FN_short_name then terminated (o_sn x) else terminated (o_ln x))"

definition key_val :: "nat \<Rightarrow> asn1_object \<Rightarrow> int \<times> u8 list" where
  "key_val f x =
    (if f = FN_nid then (o_nid x, [])
     else if f = FN_data then (0, enc x)
     else if f = FN_short_name then (0, cstr (bytes_at (o_sn x))) else (0, cstr (bytes_at (o_ln x))))"

definition key_objects :: "nat \<Rightarrow> (ptr \<Rightarrow> asn1_object option) \<Rightarrow> ptr set" where
  "key_objects f h = {p. p \<noteq> 0 \<and> (\<exists>x. h p = Some x \<and> has_key f x)}"

lemma obj_cmp_zero:
  assumes "has_key FN_data x" "has_key FN_data y"
  shows "OBJ_cmp x y = 0 \<longleftrightarrow> enc x = enc y"
proof -
  have l: "length (enc x) = nat (o_length x)" "length (enc y) = nat (o_length y)" "0 \<le> o_length x" "0 \<le> o_length y"
      "size_of_int (o_length x) = nat (o_length x)"
    using assms size_of_int_small by (simp_all add: enc_def has_key_def)
  show ?thesis
  proof (cases "o_length x = o_length y")
    case True
    then show ?thesis using assms l memcmp_zero [of "nat (o_length x)" "bytes_at (o_data x)" "bytes_at (o_data y)"]
      by (simp add: OBJ_cmp_def enc_def has_key_def)
  next
    case False
    then have "enc x \<noteq> enc y" using l by (metis eq_nat_nat_iff)
    with False show ?thesis by (simp add: OBJ_cmp_def)
  qed
qed

lemma cmp_func_zero:
  assumes "p \<in> key_objects f h" "q \<in> key_objects f h"
  shows "lh_ASN1_OBJECT_call_cmp_func h f p q = 0 \<longleftrightarrow> key_val f (the (h p)) = key_val f (the (h q))"
  using assms strcmp_zero obj_cmp_zero
  by (auto simp: key_objects_def lh_ASN1_OBJECT_call_cmp_func_def key_val_def cmp_nid_def cmp_short_name_def
    cmp_long_name_def has_key_def terminated_def bytes_at_def Let_def split: if_splits option.splits)

lemma hash_name_cstr: "terminated s \<Longrightarrow> hash_name s = OPENSSL_hash32 (cstr (bytes_at s)) (length (cstr (bytes_at s)))"
proof -
  assume "terminated s"
  then obtain t where t: "s = Some t" "0 \<in> set t" by (auto simp: terminated_def split: option.splits)
  have "length (cstr t) \<le> length t" by (simp add: cstr_def length_takeWhile_le)
  then show ?thesis using t hash32_take [of "length (cstr t)" t]
    by (simp add: hash_name_def bytes_at_def OPENSSL_strhash_def c_strlen_cstr take_cstr)
qed

lemma hash_func_key:
  assumes "p \<in> key_objects f h"
  shows "lh_ASN1_OBJECT_call_hash_func h f p =
    (let (n, bs) = key_val f (the (h p)) in if f = FN_nid then word_of_int n else OPENSSL_hash32 bs (length bs))"
proof -
  from assms obtain x where x: "h p = Some x" "has_key f x" by (auto simp: key_objects_def)
  have "hash_data x = OPENSSL_hash32 (enc x) (length (enc x))" if "f = FN_data"
    using x(2) that hash32_take [of "nat (o_length x)" "bytes_at (o_data x)"]
    by (simp add: hash_data_def enc_def has_key_def size_of_int_small)
  then show ?thesis using x hash_name_cstr
    by (auto simp: lh_ASN1_OBJECT_call_hash_func_def key_val_def hash_nid_def hash_short_name_def hash_long_name_def
      has_key_def Let_def)
qed

lemma null_key: "0 \<notin> key_objects f h"
  by (simp add: key_objects_def)

text \<open>The functions of every table hash and compare consistently.\<close>

interpretation obj_table: lh_keys "lh_ASN1_OBJECT_call_hash_func h" "lh_ASN1_OBJECT_call_cmp_func h" f f "key_objects f h"
  for h f
  by unfold_locales (simp_all add: cmp_func_zero hash_func_key null_key)

section \<open>Changes of memory that keep the keys\<close>

text \<open>Objects are only added, and only their flags change.\<close>

definition agrees :: "(ptr \<Rightarrow> asn1_object option) \<Rightarrow> (ptr \<Rightarrow> asn1_object option) \<Rightarrow> bool" where
  "agrees h h' \<longleftrightarrow> (\<forall>p x. h p = Some x \<longrightarrow> (\<exists>fl. h' p = Some (x\<lparr>o_flags := fl\<rparr>)))"

lemma key_flags [simp]: "has_key f (x\<lparr>o_flags := fl\<rparr>) = has_key f x" "key_val f (x\<lparr>o_flags := fl\<rparr>) = key_val f x"
  by (simp_all add: has_key_def key_val_def enc_def)

lemma agrees_refl [simp]: "agrees h h"
  unfolding agrees_def by (metis asn1_object.surjective asn1_object.update_convs(6))

lemma agrees_new: "h p = None \<Longrightarrow> agrees h (h(p := x))"
  using agrees_refl unfolding agrees_def by fastforce

lemma agrees_flags: "h p = Some x \<Longrightarrow> agrees h (h(p \<mapsto> x\<lparr>o_flags := fl\<rparr>))"
  using agrees_refl unfolding agrees_def by fastforce

lemma agrees_trans: "agrees h h1 \<Longrightarrow> agrees h1 h2 \<Longrightarrow> agrees h h2"
  unfolding agrees_def by (metis asn1_object.update_convs(6) asn1_object.surjective)

lemma agrees_key:
  assumes "agrees h h'" "p \<in> key_objects f h"
  shows "p \<in> key_objects f h'" "key_val f (the (h' p)) = key_val f (the (h p))"
proof -
  from assms(2) obtain x where x: "p \<noteq> 0" "h p = Some x" "has_key f x" by (auto simp: key_objects_def)
  with assms(1) obtain fl where "h' p = Some (x\<lparr>o_flags := fl\<rparr>)" unfolding agrees_def by blast
  with x show "p \<in> key_objects f h'" "key_val f (the (h' p)) = key_val f (the (h p))"
    by (simp_all add: key_objects_def)
qed

abbreviation table_holds :: "nat \<Rightarrow> (ptr \<Rightarrow> asn1_object option) \<Rightarrow> lhash \<Rightarrow> cell list list \<Rightarrow> bool" where
  "table_holds f h lh C \<equiv>
    lh_ok (lh_ASN1_OBJECT_call_hash_func h) (lh_ASN1_OBJECT_call_cmp_func h) f f (key_objects f h) lh C"

lemma table_holds_agrees:
  assumes "agrees h h'" "table_holds f h lh C"
  shows "table_holds f h' lh C"
proof -
  let ?X = "set (concat C)"
  have K: "\<And>c. c \<in> ?X \<Longrightarrow> cell_data c \<in> key_objects f h"
      "\<And>c. c \<in> ?X \<Longrightarrow> cell_hash c = lh_ASN1_OBJECT_call_hash_func h f (cell_data c)"
      "\<And>x y. x \<in> ?X \<Longrightarrow> y \<in> ?X \<Longrightarrow> lh_ASN1_OBJECT_call_cmp_func h f (cell_data x) (cell_data y) = 0 \<Longrightarrow> x = y"
    using assms(2) unfolding lh_ok_def keyed_def by blast+
  have "lh_ASN1_OBJECT_call_hash_func h' f (cell_data c) = lh_ASN1_OBJECT_call_hash_func h f (cell_data c)"
    if "c \<in> ?X" for c
    using hash_func_key [OF K(1) [OF that]] hash_func_key [OF agrees_key(1) [OF assms(1) K(1) [OF that]]]
      agrees_key(2) [OF assms(1) K(1) [OF that]] by simp
  moreover have "lh_ASN1_OBJECT_call_cmp_func h' f (cell_data x) (cell_data y) = 0 \<longleftrightarrow>
      lh_ASN1_OBJECT_call_cmp_func h f (cell_data x) (cell_data y) = 0" if "x \<in> ?X" "y \<in> ?X" for x y
    using cmp_func_zero [OF K(1) K(1)] cmp_func_zero [OF agrees_key(1) agrees_key(1), OF assms(1) K(1) assms(1) K(1)]
      agrees_key(2) [OF assms(1) K(1)] that by simp
  moreover have "cell_data c \<in> key_objects f h'" if "c \<in> ?X" for c
    using agrees_key(1) [OF assms(1) K(1) [OF that]] .
  ultimately have "keyed (lh_ASN1_OBJECT_call_hash_func h' f) (lh_ASN1_OBJECT_call_cmp_func h' f) (key_objects f h') ?X"
    using K(2,3) unfolding keyed_def by metis
  then show ?thesis using assms(2) unfolding lh_ok_def by blast
qed

section \<open>The tables of added objects\<close>

definition table_ok :: "nat \<Rightarrow> (ptr \<Rightarrow> asn1_object option) \<Rightarrow> lhash option \<Rightarrow> bool" where
  "table_ok f h tbl \<longleftrightarrow> (case tbl of None \<Rightarrow> True | Some lh \<Rightarrow> \<exists>C. table_holds f h lh C)"

text \<open>The object \<open>p\<close> is in the table.\<close>

definition in_table :: "nat \<Rightarrow> (ptr \<Rightarrow> asn1_object option) \<Rightarrow> lhash option \<Rightarrow> ptr \<Rightarrow> bool" where
  "in_table f h tbl p \<longleftrightarrow> (\<exists>lh C. tbl = Some lh \<and> table_holds f h lh C \<and> p \<in> lh_set C)"

definition objects_ok :: "ptr \<Rightarrow> objects \<Rightarrow> bool" where
  "objects_ok stack st \<longleftrightarrow> objs st 0 = None \<and> objs st stack = None \<and> stack \<noteq> 0 \<and>
     table_ok FN_nid (objs st) (by_nid st) \<and> table_ok FN_data (objs st) (by_data st) \<and>
     table_ok FN_short_name (objs st) (by_short_name st) \<and> table_ok FN_long_name (objs st) (by_long_name st)"

definition new_obj_ok :: "ptr \<Rightarrow> (objects \<Rightarrow> ptr option) \<Rightarrow> bool" where
  "new_obj_ok stack new_obj \<longleftrightarrow> (\<forall>st p. new_obj st = Some p \<longrightarrow> p \<noteq> 0 \<and> p \<noteq> stack \<and> objs st p = None)"

lemma table_ok_agrees: "agrees h h' \<Longrightarrow> table_ok f h tbl \<Longrightarrow> table_ok f h' tbl"
  using table_holds_agrees by (fastforce simp: table_ok_def split: option.splits)

lemma in_table_agrees: "agrees h h' \<Longrightarrow> in_table f h tbl p \<Longrightarrow> in_table f h' tbl p"
  using table_holds_agrees by (fastforce simp: in_table_def)

lemma added_found:
  assumes "in_table f h tbl p" "agrees h h'" "key \<in> key_objects f h'"
    "key_val f (the (h' key)) = key_val f (the (h p))"
  shows "added tbl h' key = Some p"
proof -
  from assms(1) obtain lh C where t: "tbl = Some lh" "table_holds f h lh C" "p \<in> lh_set C" unfolding in_table_def by blast
  have t': "table_holds f h' lh C" using assms(2) t(2) by (rule table_holds_agrees)
  have p: "p \<in> key_objects f h" using lh_ok_D [OF t(2)] t(3) by blast
  have e: "lh_ASN1_OBJECT_call_cmp_func h' f p key = 0"
    using cmp_func_zero [OF agrees_key(1) [OF assms(2) p] assms(3)] agrees_key(2) [OF assms(2) p] assms(4) by simp
  from t(3) obtain c where c: "c \<in> set (concat C)" "p = cell_data c" unfolding lh_set_def by blast
  from obj_table.retrieve_ok [OF t' assms(3)] obj_table.found_in_unique [OF t' assms(3) c(1)] e c(2)
  show ?thesis by (auto simp: added_def t(1) lh_ASN1_OBJECT_retrieve_def)
qed

lemma or_new_ok:
  assumes "alloc_ok alloc" "table_ok f h tbl" shows "table_ok f h (or_new alloc f tbl)"
proof (cases tbl)
  case None
  then show ?thesis using lh_new_ok [OF _ assms(1)] by (fastforce simp: or_new_def table_ok_def split: option.splits)
qed (use assms(2) in \<open>simp add: or_new_def\<close>)

lemma and_one_zero: "r = 0 \<or> r = (1 :: int) \<Longrightarrow> ok = -1 \<or> ok = 0 \<or> ok = 1 \<Longrightarrow>
    (ok AND r \<noteq> 0 \<longleftrightarrow> ok \<noteq> 0 \<and> r \<noteq> 0) \<and> (ok AND r = 0 \<or> ok AND r = 1)"
  by auto

lemma insert_if_ok:
  assumes "alloc_ok alloc" "new_item_ok new_item" "table_ok f h tbl" "ok = -1 \<or> ok = 0 \<or> ok = 1"
    "tbl \<noteq> None" "c \<Longrightarrow> p \<in> key_objects f h"
  shows "\<exists>ok' tbl'. insert_if alloc new_item h c tbl p ok = Some (ok', tbl') \<and> table_ok f h tbl' \<and>
    (ok' = -1 \<or> ok' = 0 \<or> ok' = 1) \<and> (ok' \<noteq> 0 \<longrightarrow> ok \<noteq> 0 \<and> (c \<longrightarrow> in_table f h tbl' p)) \<and>
    (ok \<noteq> 0 \<and> new_item (the tbl) \<noteq> None \<longrightarrow> ok' \<noteq> 0)"
proof (cases c)
  case False
  then show ?thesis using assms by (auto simp: insert_if_def)
next
  case True
  from assms(3,5) obtain lh C where t: "tbl = Some lh" "table_holds f h lh C" unfolding table_ok_def by auto
  from obj_table.insert_ok [OF t(2) assms(6) [OF True] assms(1,2)] obtain r old lh' C' where
      r: "lh_ASN1_OBJECT_insert alloc new_item h lh p = Some (r, old, lh')" "table_holds f h lh' C'"
        "r = 1 \<and> lh_set C' = insert p (lh_set C - {old}) \<or> r = 0 \<and> new_item lh = None"
    unfolding lh_ASN1_OBJECT_insert_def by blast
  have i: "insert_if alloc new_item h c tbl p ok = Some (ok AND r, Some lh')"
    using True t(1) r(1) by (simp add: insert_if_def)
  have a: "(ok AND r \<noteq> 0 \<longleftrightarrow> ok \<noteq> 0 \<and> r \<noteq> 0) \<and> (ok AND r = 0 \<or> ok AND r = 1)"
    using and_one_zero r(3) assms(4) by blast
  have "table_ok f h (Some lh')" using r(2) by (auto simp: table_ok_def)
  moreover have "ok AND r \<noteq> 0 \<longrightarrow> ok \<noteq> 0 \<and> (c \<longrightarrow> in_table f h (Some lh') p)"
    using a r(2,3) by (auto simp: in_table_def)
  moreover have "ok \<noteq> 0 \<and> new_item (the tbl) \<noteq> None \<longrightarrow> ok AND r \<noteq> 0" using a r(3) t(1) by auto
  ultimately show ?thesis using i a by blast
qed

text \<open>The tables can be made, and an item can be added to each.\<close>

definition tables_left :: "(nat \<Rightarrow> ptr list option) \<Rightarrow> (lhash \<Rightarrow> ptr option) \<Rightarrow> objects \<Rightarrow> bool" where
  "tables_left alloc new_item st \<longleftrightarrow>
    (\<forall>(f, tbl)\<in>{(FN_nid, by_nid st), (FN_data, by_data st), (FN_short_name, by_short_name st), (FN_long_name, by_long_name st)}.
      or_new alloc f tbl \<noteq> None \<and> new_item (the (or_new alloc f tbl)) \<noteq> None)"

lemma obj_add_object_ok:
  assumes "objects_ok stack st" "alloc_ok alloc" "new_item_ok new_item" "objs st p = Some x" "p \<noteq> 0"
    "o_length x \<noteq> 0 \<and> o_data x \<noteq> None \<longrightarrow> has_key FN_data x" "o_sn x \<noteq> None \<longrightarrow> terminated (o_sn x)"
    "o_ln x \<noteq> None \<longrightarrow> terminated (o_ln x)"
  obtains ok st' y where "obj_add_object alloc new_item p st = Some (ok, st')" "objects_ok stack st'"
    "objs st' = (objs st)(p \<mapsto> y)" "y = x\<lparr>o_flags := o_flags x AND NOT DYNAMIC_ALL\<rparr>" "next_nid st' = next_nid st"
    "ok \<noteq> 0 \<Longrightarrow> in_table FN_nid (objs st') (by_nid st') p"
    "ok \<noteq> 0 \<Longrightarrow> o_length x \<noteq> 0 \<Longrightarrow> o_data x \<noteq> None \<Longrightarrow> in_table FN_data (objs st') (by_data st') p"
    "ok \<noteq> 0 \<Longrightarrow> o_sn x \<noteq> None \<Longrightarrow> in_table FN_short_name (objs st') (by_short_name st') p"
    "ok \<noteq> 0 \<Longrightarrow> o_ln x \<noteq> None \<Longrightarrow> in_table FN_long_name (objs st') (by_long_name st') p"
    "tables_left alloc new_item st \<Longrightarrow> ok \<noteq> 0"
proof -
  define y where "y = x\<lparr>o_flags := o_flags x AND NOT DYNAMIC_ALL\<rparr>"
  define h where "h = (objs st)(p \<mapsto> y)"
  have a: "agrees (objs st) h" unfolding h_def y_def using assms(4) by (rule agrees_flags)
  have hp: "h p = Some y" by (simp add: h_def)
  define st1 where "st1 = st\<lparr>objs := h, by_nid := or_new alloc FN_nid (by_nid st), by_data := or_new alloc FN_data (by_data st),
      by_short_name := or_new alloc FN_short_name (by_short_name st),
      by_long_name := or_new alloc FN_long_name (by_long_name st)\<rparr>"
  have t: "table_ok FN_nid h (by_nid st1)" "table_ok FN_data h (by_data st1)"
      "table_ok FN_short_name h (by_short_name st1)" "table_ok FN_long_name h (by_long_name st1)"
    using assms(1) a unfolding objects_ok_def st1_def by (simp_all add: or_new_ok [OF assms(2)] table_ok_agrees)
  have z: "h 0 = None" "h stack = None" "stack \<noteq> 0"
    using assms(1,4,5) unfolding objects_ok_def h_def by auto
  have k: "p \<in> key_objects f h \<longleftrightarrow> has_key f x" for f using hp assms(5) by (auto simp: key_objects_def y_def)
  let ?none = "by_nid st1 = None \<or> by_data st1 = None \<or> by_short_name st1 = None \<or> by_long_name st1 = None"
  have body: "obj_add_object alloc new_item p st =
      (if ?none then Some (0, st1)
       else do {
         (ok, t) \<leftarrow> insert_if alloc new_item h True (by_nid st1) p (-1);
         let st = st1\<lparr>by_nid := t\<rparr>;
         (ok, t) \<leftarrow> insert_if alloc new_item h (o_length x \<noteq> 0 \<and> o_data x \<noteq> None) (by_data st) p ok;
         let st = st\<lparr>by_data := t\<rparr>;
         (ok, t) \<leftarrow> insert_if alloc new_item h (o_sn x \<noteq> None) (by_short_name st) p ok;
         let st = st\<lparr>by_short_name := t\<rparr>;
         (ok, t) \<leftarrow> insert_if alloc new_item h (o_ln x \<noteq> None) (by_long_name st) p ok;
         let st = st\<lparr>by_long_name := t\<rparr>;
         Some (ok, st) })"
    unfolding obj_add_object_def st1_def h_def y_def Let_def using assms(4) by simp
  show ?thesis
  proof (cases ?none)
    case True
    have "objects_ok stack st1" using t z unfolding objects_ok_def by (simp add: st1_def)
    moreover have "\<not> tables_left alloc new_item st" using True by (auto simp: tables_left_def st1_def)
    ultimately show ?thesis using that [of 0 st1 y] body True by (simp add: st1_def h_def y_def)
  next
    case False
    have "p \<in> key_objects FN_nid h" unfolding k by (simp add: has_key_def)
    with False obtain ok1 t1 where i1: "insert_if alloc new_item h True (by_nid st1) p (-1) = Some (ok1, t1)"
        "table_ok FN_nid h t1" "ok1 = -1 \<or> ok1 = 0 \<or> ok1 = 1" "ok1 \<noteq> 0 \<Longrightarrow> in_table FN_nid h t1 p"
        "new_item (the (by_nid st1)) \<noteq> None \<Longrightarrow> ok1 \<noteq> 0"
      using insert_if_ok [OF assms(2,3) t(1), of "-1" True p] by auto
    have "o_length x \<noteq> 0 \<and> o_data x \<noteq> None \<Longrightarrow> p \<in> key_objects FN_data h" using k assms(6) by blast
    with False obtain ok2 t2 where i2:
        "insert_if alloc new_item h (o_length x \<noteq> 0 \<and> o_data x \<noteq> None) (by_data st1) p ok1 = Some (ok2, t2)"
        "table_ok FN_data h t2" "ok2 = -1 \<or> ok2 = 0 \<or> ok2 = 1"
        "ok2 \<noteq> 0 \<Longrightarrow> ok1 \<noteq> 0 \<and> (o_length x \<noteq> 0 \<and> o_data x \<noteq> None \<longrightarrow> in_table FN_data h t2 p)"
        "ok1 \<noteq> 0 \<and> new_item (the (by_data st1)) \<noteq> None \<longrightarrow> ok2 \<noteq> 0"
      using insert_if_ok [OF assms(2,3) t(2) i1(3), of "o_length x \<noteq> 0 \<and> o_data x \<noteq> None" p] by blast
    have "o_sn x \<noteq> None \<Longrightarrow> p \<in> key_objects FN_short_name h" using k assms(7) by (simp add: has_key_def)
    with False obtain ok3 t3 where i3:
        "insert_if alloc new_item h (o_sn x \<noteq> None) (by_short_name st1) p ok2 = Some (ok3, t3)"
        "table_ok FN_short_name h t3" "ok3 = -1 \<or> ok3 = 0 \<or> ok3 = 1"
        "ok3 \<noteq> 0 \<Longrightarrow> ok2 \<noteq> 0 \<and> (o_sn x \<noteq> None \<longrightarrow> in_table FN_short_name h t3 p)"
        "ok2 \<noteq> 0 \<and> new_item (the (by_short_name st1)) \<noteq> None \<longrightarrow> ok3 \<noteq> 0"
      using insert_if_ok [OF assms(2,3) t(3) i2(3), of "o_sn x \<noteq> None" p] by blast
    have "o_ln x \<noteq> None \<Longrightarrow> p \<in> key_objects FN_long_name h" using k assms(8) by (simp add: has_key_def)
    with False obtain ok4 t4 where i4:
        "insert_if alloc new_item h (o_ln x \<noteq> None) (by_long_name st1) p ok3 = Some (ok4, t4)"
        "table_ok FN_long_name h t4" "ok4 = -1 \<or> ok4 = 0 \<or> ok4 = 1"
        "ok4 \<noteq> 0 \<Longrightarrow> ok3 \<noteq> 0 \<and> (o_ln x \<noteq> None \<longrightarrow> in_table FN_long_name h t4 p)"
        "ok3 \<noteq> 0 \<and> new_item (the (by_long_name st1)) \<noteq> None \<longrightarrow> ok4 \<noteq> 0"
      using insert_if_ok [OF assms(2,3) t(4) i3(3), of "o_ln x \<noteq> None" p] by blast
    define st' where "st' = st1\<lparr>by_nid := t1, by_data := t2, by_short_name := t3, by_long_name := t4\<rparr>"
    have "obj_add_object alloc new_item p st = Some (ok4, st')"
      unfolding body if_not_P [OF False] i1(1) st'_def Let_def by (simp add: i2(1) i3(1) i4(1) del: not_None_eq)
    moreover have "objects_ok stack st'" using i1(2) i2(2) i3(2) i4(2) z unfolding objects_ok_def by (simp add: st'_def st1_def)
    moreover have "ok4 \<noteq> 0" if "tables_left alloc new_item st"
      using that i1(5) i2(5) i3(5) i4(5) by (simp add: tables_left_def st1_def)
    ultimately show ?thesis using that [of ok4 st' y] i1(4) i2(4) i3(4) i4(4)
      by (simp add: st'_def st1_def h_def y_def)
  qed
qed

section \<open>Objects from text\<close>

lemma strdup_terminated:
  assumes "malloc_ok malloc" "OPENSSL_strdup malloc s = Some t" "case s of None \<Rightarrow> True | Some s \<Rightarrow> length s < SIZE_LIMIT"
  shows "terminated (Some t) \<and> cstr t = cstr (bytes_at s) \<and> terminated s"
proof -
  from assms(2) obtain u n where u: "s = Some u" "c_strlen u = Some n"
      "OPENSSL_strdup malloc s = (case OPENSSL_malloc malloc (sz_add n 1) of None \<Rightarrow> None
        | Some ret \<Rightarrow> Some (take (sz_add n 1) u @ drop (sz_add n 1) ret))"
    by (auto simp: OPENSSL_strdup_def Let_def split: option.splits)
  have n: "n = length (cstr u)" "0 \<in> set u" using c_strlen_cstr c_strlen_terminated u(2) by fastforce+
  have "n < length u" "u ! n = 0" "\<forall>i<n. u ! i \<noteq> 0" using u(2) by (simp_all add: c_strlen_Some)
  have "n + 1 < SIZE_LIMIT \<or> n + 1 = SIZE_LIMIT" using \<open>n < length u\<close> assms(3) u(1) by auto
  then have sz: "sz_add n 1 = n + 1" using \<open>n < length u\<close> assms(3) u(1) by (intro sz_add_small) auto
  from u(3) assms(2) obtain ret where ret: "OPENSSL_malloc malloc (n + 1) = Some ret" "t = take (n + 1) u @ drop (n + 1) ret"
    unfolding sz by (auto split: option.splits)
  have "length ret = n + 1" using length_OPENSSL_malloc [OF assms(1) ret(1)] \<open>n < length u\<close> assms(3) u(1) by simp
  then have t: "t = cstr u @ [0]"
    using ret(2) take_cstr [of u] n(1) \<open>n < length u\<close> \<open>u ! n = 0\<close> by (simp add: take_Suc_conv_app_nth)
  moreover have "\<forall>b\<in>set (cstr u). b \<noteq> 0" unfolding cstr_def by (auto dest: set_takeWhileD)
  ultimately have "cstr t = cstr u" by (simp add: cstr_def takeWhile_append2)
  then show ?thesis using t n(2) u(1) by (simp add: terminated_def bytes_at_def)
qed

lemma text_to_der:
  assumes "malloc_ok malloc" "CBB_init malloc 32 = Some cbb" "n \<le> length txt" "n < SIZE_LIMIT"
    "op_bind (CBB_add_asn1_oid_from_text malloc 0 txt n) (\<lambda>_. CBB_finish malloc 0 False) cbb = (Some (buf, len), cbb')"
  shows "\<exists>os. valid_oid os \<and> take n txt = dotted os"
    "valid_oid os \<Longrightarrow> take n txt = dotted os \<Longrightarrow>
      len = length (oid_der os) \<and> take len (bytes_at buf) = oid_der os \<and> buf \<noteq> None"
proof -
  have rep: "represents cbb (Builder [] [])" using init_represents [OF assms(1,2)] by simp
  have B: "bld_flush 0 (Builder [] []) = Some (Builder [] [])" "0 \<le> length (bld_frames (Builder [] []))"
    by (simp_all add: bld_flush_flushed)
  obtain u s1 where a: "CBB_add_asn1_oid_from_text malloc 0 txt n cbb = (Some u, s1)"
      "CBB_finish malloc 0 False s1 = (Some (buf, len), cbb')"
    using assms(5) by (auto simp: op_bind_def split: prod.splits option.splits)
  show "\<exists>os. valid_oid os \<and> take n txt = dotted os"
    using oid_from_text_sound [OF assms(3,4), of malloc 0 cbb] a(1) by simp
  show "len = length (oid_der os) \<and> take len (bytes_at buf) = oid_der os \<and> buf \<noteq> None"
    if os: "valid_oid os" "take n txt = dotted os"
  proof -
    have "represents s1 (bld_append 0 (oid_der os) (Builder [] []))"
      using adds_SomeE [OF adds_oid_from_text [OF assms(1) os(1) assms(3,4) os(2)] rep B(2) FalseE a(1)] B(1) by auto
    then have s1: "represents s1 (Builder (oid_der os) [])" by (simp add: bld_append_def)
    note f = finish_represented [OF assms(1) s1]
    have b: "buf = b_buf s1" "len = length (oid_der os)" using f a(2) by simp_all
    have tk: "take len (bytes_at buf) = oid_der os" using f b by (simp add: buf_bytes_def bytes_at_def)
    have "oid_der os \<noteq> []" using os(1) by (cases os rule: valid_oid.cases) (simp_all add: b128_def)
    then have "buf \<noteq> None" using tk by (cases buf) (simp_all add: bytes_at_def)
    with b tk show ?thesis by blast
  qed
qed

text \<open>A copy of a name.\<close>

definition name_copied :: "u8 list option \<Rightarrow> u8 list option \<Rightarrow> bool" where
  "name_copied s t \<longleftrightarrow> (s = None \<longleftrightarrow> t = None) \<and> (t \<noteq> None \<longrightarrow> terminated s \<and> terminated t \<and> cstr (bytes_at t) = cstr (bytes_at s))"

definition name_fits :: "u8 list option \<Rightarrow> bool" where
  "name_fits s \<longleftrightarrow> length (bytes_at s) < SIZE_LIMIT"

lemma strdup_copied:
  assumes "malloc_ok malloc" "name_fits s" "t = (if s \<noteq> None then OPENSSL_strdup malloc s else None)" "\<not> (s \<noteq> None \<and> t = None)"
  shows "name_copied s t"
proof (cases t)
  case (Some u)
  with assms have d: "OPENSSL_strdup malloc s = Some u" "s \<noteq> None" by (auto split: if_splits)
  have "case s of None \<Rightarrow> True | Some s \<Rightarrow> length s < SIZE_LIMIT"
    using assms(2) by (auto simp: name_fits_def bytes_at_def split: option.splits)
  from strdup_terminated [OF assms(1) d(1) this] d(2) Some show ?thesis by (simp add: name_copied_def bytes_at_def)
qed (use assms(4) in \<open>simp add: name_copied_def\<close>)

lemma dup_object_ok:
  assumes "malloc_ok malloc" "new_obj_ok stack new_obj" "o_flags ob AND ASN1_OBJECT_FLAG_DYNAMIC \<noteq> 0"
    "has_key FN_data ob" "name_fits (o_sn ob)" "name_fits (o_ln ob)"
    "dup_object malloc new_obj a ob st = (r, st')"
  shows "st' = st\<lparr>objs := objs st'\<rparr> \<and>
    (r = 0 \<and> st' = st \<or>
     r \<noteq> 0 \<and> r \<noteq> stack \<and> objs st r = None \<and> (\<exists>y. objs st' = (objs st)(r \<mapsto> y) \<and> o_nid y = o_nid ob \<and>
       o_length y = o_length ob \<and> enc y = enc ob \<and> (o_length ob \<noteq> 0 \<longrightarrow> o_data y \<noteq> None \<and> has_key FN_data y) \<and>
       name_copied (o_sn ob) (o_sn y) \<and> name_copied (o_ln ob) (o_ln y)))"
proof (cases "new_obj st")
  case None
  then show ?thesis using assms(3,7) by (auto simp: dup_object_def ASN1_OBJECT_new_def)
next
  case (Some q)
  then have q: "q \<noteq> 0" "q \<noteq> stack" "objs st q = None" using assms(2) unfolding new_obj_ok_def by blast+
  have len: "0 \<le> o_length ob" "o_length ob < int SIZE_LIMIT" "nat (o_length ob) \<le> length (bytes_at (o_data ob))"
    using assms(4) by (simp_all add: has_key_def)
  then have sz: "size_of_int (o_length ob) = nat (o_length ob)" by (intro size_of_int_small)
  define d where "d = OPENSSL_memdup malloc (bytes_at (o_data ob)) (nat (o_length ob))"
  define ln where "ln = (if o_ln ob \<noteq> None then OPENSSL_strdup malloc (o_ln ob) else None)"
  define sn where "sn = (if o_sn ob \<noteq> None then OPENSSL_strdup malloc (o_sn ob) else None)"
  have undo: "(objs st)(q := None) = objs st" using q(3) by auto
  define y where "y = \<lparr>o_sn = sn, o_ln = ln, o_nid = o_nid ob, o_length = o_length ob, o_data = d,
    o_flags = o_flags ob OR DYNAMIC_ALL\<rparr>"
  let ?bad = "o_length ob \<noteq> 0 \<and> d = None \<or> o_ln ob \<noteq> None \<and> ln = None \<or> o_sn ob \<noteq> None \<and> sn = None"
  have e: "(r, st') = (if ?bad then (0, st) else (q, st\<lparr>objs := (objs st)(q \<mapsto> y)\<rparr>))"
    using assms(3,7) Some q(1) undo
    by (auto simp: dup_object_def ASN1_OBJECT_new_def Let_def sz y_def d_def [symmetric] ln_def [symmetric] sn_def [symmetric]
      simp del: not_None_eq split: if_splits)
  show ?thesis
  proof (cases ?bad)
    case True
    then show ?thesis using e by simp
  next
    case False
    have "name_copied (o_sn ob) sn" using False by (intro strdup_copied [OF assms(1,5) sn_def]) blast
    moreover have "name_copied (o_ln ob) ln" using False by (intro strdup_copied [OF assms(1,6) ln_def]) blast
    moreover have "d = (if o_length ob = 0 then None else Some (enc ob))"
    proof (cases "o_length ob = 0")
      case True
      then show ?thesis by (simp add: d_def OPENSSL_memdup_def)
    next
      case nz: False
      then obtain bs where "OPENSSL_memdup malloc (bytes_at (o_data ob)) (nat (o_length ob)) = Some bs"
        using False unfolding d_def by auto
      then show ?thesis using OPENSSL_memdup_SomeD [OF assms(1) _ len(3)] len(1,2) nz by (simp add: d_def enc_def)
    qed
    then have "enc y = enc ob" "o_length ob \<noteq> 0 \<longrightarrow> o_data y \<noteq> None \<and> has_key FN_data y"
      using len by (auto simp: enc_def y_def bytes_at_def has_key_def)
    ultimately show ?thesis using e False q by (auto simp: y_def)
  qed
qed

text \<open>What \<open>create_object_with_text_oid\<close> returns.\<close>

lemma create_object_ok:
  assumes "malloc_ok malloc" "new_obj_ok stack new_obj" "length oid < SIZE_LIMIT" "0 \<in> set oid" "name_fits sn" "name_fits ln"
  obtains p st' where "create_object_with_text_oid malloc new_obj stack get_nid oid sn ln st = Some (p, st')"
    "p = 0 \<Longrightarrow> st' = st \<or> (\<exists>get. get_nid = Some get \<and> st' = snd (get st))"
    "p \<noteq> 0 \<Longrightarrow> \<exists>os st1 nid y. valid_oid os \<and> cstr oid = dotted os \<and>
      (nid, st1) = (case get_nid of None \<Rightarrow> (NID_undef, st) | Some get \<Rightarrow> get st) \<and>
      p \<noteq> stack \<and> objs st1 p = None \<and> st' = st1\<lparr>objs := (objs st1)(p \<mapsto> y)\<rparr> \<and> o_nid y = nid \<and> enc y = oid_der os \<and>
      o_length y = int (length (oid_der os)) \<and> o_data y \<noteq> None \<and> has_key FN_data y \<and> oid_der os \<noteq> [] \<and>
      length (oid_der os) \<le> INT_MAX_nat \<and> name_copied sn (o_sn y) \<and> name_copied ln (o_ln y)"
proof -
  let ?n = "length (cstr oid)"
  have n: "c_strlen oid = Some ?n" "?n \<le> length oid" "?n < SIZE_LIMIT" "take ?n oid = cstr oid"
    using c_strlen_cstr [OF assms(4)] assms(3) take_cstr [of oid] length_takeWhile_le [of "\<lambda>b. b \<noteq> 0" oid]
    by (simp_all add: cstr_def)
  show ?thesis
  proof (cases "CBB_init malloc 32")
    case None
    then show ?thesis using that [of 0 st] n(1) by (simp add: create_object_with_text_oid_def)
  next
    case (Some cbb)
    obtain x cbb' where x: "op_bind (CBB_add_asn1_oid_from_text malloc 0 oid ?n) (\<lambda>_. CBB_finish malloc 0 False) cbb = (x, cbb')"
      by fastforce
    show ?thesis
    proof (cases x)
      case None
      then show ?thesis using that [of 0 st] n(1) Some x by (simp add: create_object_with_text_oid_def)
    next
      case (Some bl)
      obtain buf len where bl: "bl = (buf, len)" by fastforce
      note der = text_to_der [OF assms(1) \<open>CBB_init malloc 32 = Some cbb\<close> n(2,3) x [unfolded Some bl], unfolded n(4)]
      from der obtain os where
          os: "valid_oid os" "cstr oid = dotted os" "len = length (oid_der os)" "take len (bytes_at buf) = oid_der os" by blast
      obtain nid st1 where g: "(nid, st1) = (case get_nid of None \<Rightarrow> (NID_undef, st) | Some get \<Rightarrow> get st)"
        by (metis surj_pair)
      define ob where "ob = \<lparr>o_sn = sn, o_ln = ln, o_nid = nid, o_length = int len, o_data = buf, o_flags = DYNAMIC_ALL\<rparr>"
      have c: "create_object_with_text_oid malloc new_obj stack get_nid oid sn ln st =
          Some (if len > INT_MAX_nat then (0, st1) else dup_object malloc new_obj stack ob st1)"
        using n(1) \<open>CBB_init malloc 32 = Some cbb\<close> x Some bl
        by (simp add: create_object_with_text_oid_def ASN1_OBJECT_create_def ob_def flip: g)
      have st1: "st1 = st \<or> (\<exists>get. get_nid = Some get \<and> st1 = snd (get st))" using g by (cases get_nid) (auto, metis snd_conv)
      have ne: "oid_der os \<noteq> []" using os(1) by (cases os rule: valid_oid.cases) (simp_all add: b128_def)
      show ?thesis
      proof (cases "len > INT_MAX_nat")
        case True
        then show ?thesis using that [of 0 st1] c st1 by simp
      next
        case False
        obtain r st' where d: "dup_object malloc new_obj stack ob st1 = (r, st')" by fastforce
        have lb: "len \<le> length (bytes_at buf)" using os(3,4) by (metis length_take min.cobounded1)
        have "o_flags ob AND ASN1_OBJECT_FLAG_DYNAMIC \<noteq> 0"
          by (simp add: ob_def DYNAMIC_ALL_def ASN1_OBJECT_FLAG_DYNAMIC_def ASN1_OBJECT_FLAG_DYNAMIC_STRINGS_def
            ASN1_OBJECT_FLAG_DYNAMIC_DATA_def)
        moreover have "has_key FN_data ob" using False lb by (simp add: has_key_def ob_def)
        ultimately have D: "st' = st1\<lparr>objs := objs st'\<rparr> \<and>
            (r = 0 \<and> st' = st1 \<or>
             r \<noteq> 0 \<and> r \<noteq> stack \<and> objs st1 r = None \<and> (\<exists>y. objs st' = (objs st1)(r \<mapsto> y) \<and> o_nid y = nid \<and>
               o_length y = int len \<and> enc y = enc ob \<and> (len \<noteq> 0 \<longrightarrow> o_data y \<noteq> None \<and> has_key FN_data y) \<and>
               name_copied sn (o_sn y) \<and> name_copied ln (o_ln y)))"
          using dup_object_ok [OF assms(1,2) _ _ _ _ d] assms(5,6) by (simp add: ob_def)
        have eo: "enc ob = oid_der os" using os(4) by (simp add: enc_def ob_def)
        show ?thesis
        proof (cases "r = 0")
          case True
          then show ?thesis using that [of 0 st1] c d D False st1 by simp
        next
          case r: False
          from D r obtain y where y: "r \<noteq> stack" "objs st1 r = None" "objs st' = (objs st1)(r \<mapsto> y)" "o_nid y = nid"
              "o_length y = int len" "enc y = enc ob" "len \<noteq> 0 \<longrightarrow> o_data y \<noteq> None \<and> has_key FN_data y"
              "name_copied sn (o_sn y)" "name_copied ln (o_ln y)" "st' = st1\<lparr>objs := objs st'\<rparr>" by blast
          have "create_object_with_text_oid malloc new_obj stack get_nid oid sn ln st = Some (r, st')"
            using c d False by simp
          moreover have "valid_oid os \<and> cstr oid = dotted os \<and>
              (nid, st1) = (case get_nid of None \<Rightarrow> (NID_undef, st) | Some get \<Rightarrow> get st) \<and>
              r \<noteq> stack \<and> objs st1 r = None \<and> st' = st1\<lparr>objs := (objs st1)(r \<mapsto> y)\<rparr> \<and> o_nid y = nid \<and>
              enc y = oid_der os \<and> o_length y = int (length (oid_der os)) \<and> o_data y \<noteq> None \<and> has_key FN_data y \<and>
              oid_der os \<noteq> [] \<and> length (oid_der os) \<le> INT_MAX_nat \<and> name_copied sn (o_sn y) \<and> name_copied ln (o_ln y)"
            using y os(1-3) g False ne eo by (simp del: oid_der.simps valid_oid.simps dotted.simps)
          ultimately show ?thesis using that [of r st'] r by blast
        qed
      qed
    qed
  qed
qed

text \<open>With memory left, the text of an identifier is accepted.\<close>

definition bytes_left :: "(nat \<Rightarrow> u8 list option) \<Rightarrow> bool" where
  "bytes_left malloc \<longleftrightarrow> (\<forall>k<SIZE_LIMIT. malloc k \<noteq> None)"

lemma OPENSSL_malloc_left: "bytes_left malloc \<Longrightarrow> n + 8 < SIZE_LIMIT \<Longrightarrow> OPENSSL_malloc malloc n \<noteq> None"
  by (auto simp: bytes_left_def OPENSSL_malloc_def split: option.splits)

lemma strdup_left:
  assumes "bytes_left malloc" "terminated s" "length (bytes_at s) < 2 ^ 62"
  shows "OPENSSL_strdup malloc s \<noteq> None"
proof -
  from assms(2) obtain u where u: "s = Some u" "0 \<in> set u" by (auto simp: terminated_def split: option.splits)
  have n: "c_strlen u = Some (length (cstr u))" using u(2) by (rule c_strlen_cstr)
  have "length (cstr u) + 1 + 8 < SIZE_LIMIT"
    using assms(3) length_takeWhile_le [of "\<lambda>b. b \<noteq> 0" u] by (simp add: u(1) bytes_at_def cstr_def)
  then have "OPENSSL_malloc malloc (sz_add (length (cstr u)) 1) \<noteq> None"
    using OPENSSL_malloc_left [OF assms(1)] by simp
  then show ?thesis using u(1) n by (auto simp: OPENSSL_strdup_def Let_def)
qed

lemma dup_object_left:
  assumes "bytes_left malloc" "new_obj st = Some q" "q \<noteq> 0" "0 \<le> o_length ob" "o_length ob < 2 ^ 62" "a \<noteq> 0"
    "o_sn ob \<noteq> None \<Longrightarrow> terminated (o_sn ob) \<and> length (bytes_at (o_sn ob)) < 2 ^ 62"
    "o_ln ob \<noteq> None \<Longrightarrow> terminated (o_ln ob) \<and> length (bytes_at (o_ln ob)) < 2 ^ 62"
  shows "fst (dup_object malloc new_obj a ob st) \<noteq> 0"
proof -
  have sz: "size_of_int (o_length ob) = nat (o_length ob)" using assms(4,5) by (intro size_of_int_small) simp_all
  have "OPENSSL_malloc malloc (nat (o_length ob)) \<noteq> None" using assms(1,5) by (intro OPENSSL_malloc_left) auto
  then have "o_length ob \<noteq> 0 \<longrightarrow> OPENSSL_memdup malloc (bytes_at (o_data ob)) (nat (o_length ob)) \<noteq> None"
    using assms(4) by (auto simp: OPENSSL_memdup_def)
  moreover have "o_sn ob \<noteq> None \<longrightarrow> OPENSSL_strdup malloc (o_sn ob) \<noteq> None"
      "o_ln ob \<noteq> None \<longrightarrow> OPENSSL_strdup malloc (o_ln ob) \<noteq> None"
    using strdup_left [OF assms(1)] assms(7,8) by blast+
  ultimately show ?thesis using assms(2,3,6)
    by (auto simp: dup_object_def ASN1_OBJECT_new_def Let_def sz simp del: not_None_eq)
qed

lemma text_to_der_left:
  assumes "malloc_ok malloc" "bytes_left malloc" "CBB_init malloc 32 = Some cbb" "n \<le> length txt" "n < SIZE_LIMIT"
    "valid_oid os" "take n txt = dotted os" "length (oid_der os) < 2 ^ 62"
  shows "fst (op_bind (CBB_add_asn1_oid_from_text malloc 0 txt n) (\<lambda>_. CBB_finish malloc 0 False) cbb) \<noteq> None"
proof -
  have rep: "represents cbb (Builder [] [])" "b_can_resize cbb" using init_represents [OF assms(1,3)] by simp_all
  have B: "bld_flush 0 (Builder [] []) = Some (Builder [] [])" by (simp add: bld_flush_flushed)
  obtain x s1 where x: "CBB_add_asn1_oid_from_text malloc 0 txt n cbb = (x, s1)" by fastforce
  have "x \<noteq> None"
  proof
    assume "x = None"
    then have "\<not> room malloc cbb (bld_len (bld_append 0 (oid_der os) (Builder [] [])))"
      using oid_from_text_exact [OF assms(1) rep(1) _ assms(4,5), of 0] x assms(6,7) B
      by (simp del: oid_der.simps valid_oid.simps dotted.simps)
    then show False using rep(2) assms(2,8) by (auto simp: room_def bld_len_def bld_append_def bytes_left_def)
  qed
  then obtain os' where "represents s1 (bld_append 0 (oid_der os') (Builder [] []))"
    using oid_from_text_exact [OF assms(1) rep(1) _ assms(4,5), of 0] x B by auto
  then have s1: "represents s1 (Builder (oid_der os') [])" by (simp add: bld_append_def)
  show ?thesis using finish_represented [OF assms(1) s1] x \<open>x \<noteq> None\<close> by (auto simp: op_bind_def)
qed

lemma create_object_left:
  assumes "malloc_ok malloc" "bytes_left malloc" "length oid < SIZE_LIMIT" "0 \<in> set oid" "valid_oid os" "cstr oid = dotted os"
    "length (oid_der os) \<le> INT_MAX_nat" "stack \<noteq> 0" "new_obj_ok stack new_obj" "new_obj (case get_nid of None \<Rightarrow> st | Some get \<Rightarrow> snd (get st)) \<noteq> None"
    "sn \<noteq> None \<Longrightarrow> terminated sn \<and> length (bytes_at sn) < 2 ^ 62"
    "ln \<noteq> None \<Longrightarrow> terminated ln \<and> length (bytes_at ln) < 2 ^ 62"
    "create_object_with_text_oid malloc new_obj stack get_nid oid sn ln st = Some (p, st')"
  shows "p \<noteq> 0"
proof -
  let ?n = "length (cstr oid)"
  have n: "c_strlen oid = Some ?n" "?n \<le> length oid" "?n < SIZE_LIMIT" "take ?n oid = cstr oid"
    using c_strlen_cstr [OF assms(4)] assms(3) take_cstr [of oid] length_takeWhile_le [of "\<lambda>b. b \<noteq> 0" oid]
    by (simp_all add: cstr_def)
  have "OPENSSL_malloc malloc 32 \<noteq> None" using assms(2) by (intro OPENSSL_malloc_left) simp_all
  then obtain cbb where cbb: "CBB_init malloc 32 = Some cbb" by (auto simp: CBB_init_def)
  have "length (oid_der os) < 2 ^ 62" using assms(7) by simp
  note L = text_to_der_left [OF assms(1,2) cbb n(2,3) assms(5) _ this]
  obtain buf len cbb' where x: "op_bind (CBB_add_asn1_oid_from_text malloc 0 oid ?n) (\<lambda>_. CBB_finish malloc 0 False) cbb =
      (Some (buf, len), cbb')" using L n(4) assms(6) by (metis not_None_eq prod.collapse)
  have "len \<le> INT_MAX_nat" using text_to_der(2) [OF assms(1) cbb n(2,3) x assms(5)] n(4) assms(6,7) by simp
  obtain nid st1 where g: "(case get_nid of None \<Rightarrow> (NID_undef, st) | Some get \<Rightarrow> get st) = (nid, st1)" by fastforce
  then have "st1 = (case get_nid of None \<Rightarrow> st | Some get \<Rightarrow> snd (get st))" by (cases get_nid) auto
  then obtain q where q: "new_obj st1 = Some q" using assms(10) by blast
  then have "q \<noteq> 0" using assms(9) unfolding new_obj_ok_def by blast
  define ob where "ob = \<lparr>o_sn = sn, o_ln = ln, o_nid = nid, o_length = int len, o_data = buf, o_flags = DYNAMIC_ALL\<rparr>"
  have "fst (dup_object malloc new_obj stack ob st1) \<noteq> 0"
    by (rule dup_object_left [where st = st1 and q = q and new_obj = new_obj, OF assms(2) q \<open>q \<noteq> 0\<close>])
      (use assms(8,11,12) \<open>len \<le> INT_MAX_nat\<close> in \<open>simp_all add: ob_def\<close>)
  then show ?thesis using \<open>len \<le> INT_MAX_nat\<close> assms(13) n(1) cbb x
    by (simp add: create_object_with_text_oid_def ASN1_OBJECT_create_def g ob_def)
qed

section \<open>A created object is found\<close>

text \<open>There is memory for everything, the text is that of an identifier, and the names are strings.\<close>

definition can_create ::
  "(nat \<Rightarrow> u8 list option) \<Rightarrow> (nat \<Rightarrow> ptr list option) \<Rightarrow> (lhash \<Rightarrow> ptr option) \<Rightarrow> (objects \<Rightarrow> ptr option) \<Rightarrow>
    u8 list \<Rightarrow> u8 list option \<Rightarrow> u8 list option \<Rightarrow> objects \<Rightarrow> bool" where
  "can_create malloc alloc new_item new_obj oid sn ln st \<longleftrightarrow>
    bytes_left malloc \<and> tables_left alloc new_item st \<and> new_obj (st\<lparr>next_nid := next_nid st + 1\<rparr>) \<noteq> None \<and>
    (\<exists>os. valid_oid os \<and> cstr oid = dotted os \<and> length (oid_der os) \<le> INT_MAX_nat) \<and> sint (next_nid st) \<noteq> 0 \<and>
    (sn \<noteq> None \<longrightarrow> terminated sn \<and> length (bytes_at sn) < 2 ^ 62) \<and>
    (ln \<noteq> None \<longrightarrow> terminated ln \<and> length (bytes_at ln) < 2 ^ 62)"

lemma obj_create_ok:
  assumes "objects_ok stack st" "malloc_ok malloc" "alloc_ok alloc" "new_item_ok new_item" "new_obj_ok stack new_obj"
    "length oid < SIZE_LIMIT" "0 \<in> set oid" "name_fits sn" "name_fits ln"
  obtains n st' where "OBJ_create malloc new_obj alloc new_item stack oid sn ln st = Some (n, st')" "objects_ok stack st'"
    "n \<noteq> 0 \<Longrightarrow> \<exists>os p y. valid_oid os \<and> cstr oid = dotted os \<and> n = sint (next_nid st) \<and> p \<noteq> 0 \<and>
      objs st p = None \<and> objs st' = (objs st)(p \<mapsto> y) \<and> o_nid y = n \<and> enc y = oid_der os \<and> has_key FN_data y \<and>
      length (oid_der os) \<le> INT_MAX_nat \<and> name_copied sn (o_sn y) \<and> name_copied ln (o_ln y) \<and>
      next_nid st' = next_nid st + 1 \<and>
      in_table FN_nid (objs st') (by_nid st') p \<and> in_table FN_data (objs st') (by_data st') p \<and>
      (sn \<noteq> None \<longrightarrow> in_table FN_short_name (objs st') (by_short_name st') p) \<and>
      (ln \<noteq> None \<longrightarrow> in_table FN_long_name (objs st') (by_long_name st') p)"
    "can_create malloc alloc new_item new_obj oid sn ln st \<Longrightarrow> n \<noteq> 0"
proof -
  obtain p st1 where
      c: "create_object_with_text_oid malloc new_obj stack (Some obj_next_nid) oid sn ln st = Some (p, st1)"
        "p = 0 \<Longrightarrow> st1 = st \<or> (\<exists>get. Some obj_next_nid = Some get \<and> st1 = snd (get st))"
        "p \<noteq> 0 \<Longrightarrow> \<exists>os st2 nid y. valid_oid os \<and> cstr oid = dotted os \<and>
          (nid, st2) = (case Some obj_next_nid of None \<Rightarrow> (NID_undef, st) | Some get \<Rightarrow> get st) \<and>
          p \<noteq> stack \<and> objs st2 p = None \<and> st1 = st2\<lparr>objs := (objs st2)(p \<mapsto> y)\<rparr> \<and> o_nid y = nid \<and> enc y = oid_der os \<and>
          o_length y = int (length (oid_der os)) \<and> o_data y \<noteq> None \<and> has_key FN_data y \<and> oid_der os \<noteq> [] \<and>
          length (oid_der os) \<le> INT_MAX_nat \<and> name_copied sn (o_sn y) \<and> name_copied ln (o_ln y)"
    by (rule create_object_ok [OF assms(2,5-9), of "Some obj_next_nid" st]) (rule that)
  let ?left = "can_create malloc alloc new_item new_obj oid sn ln st"
  have stack: "stack \<noteq> 0" using assms(1) by (simp add: objects_ok_def)
  have left: "p \<noteq> 0" if L: ?left
  proof -
    note L = L [unfolded can_create_def]
    from L obtain os where "valid_oid os" "cstr oid = dotted os" "length (oid_der os) \<le> INT_MAX_nat" by blast
    from create_object_left [OF assms(2) _ assms(6,7) this stack assms(5) _ _ _ c(1)] L
    show ?thesis by (simp add: obj_next_nid_def)
  qed
  define st2 where "st2 = st\<lparr>next_nid := next_nid st + 1\<rparr>"
  have ok2: "objects_ok stack st2" using assms(1) by (simp add: objects_ok_def st2_def)
  show ?thesis
  proof (cases "p = 0")
    case True
    then have "st1 = st \<or> st1 = st2" using c(2) by (simp add: obj_next_nid_def st2_def)
    then have "objects_ok stack st1" using assms(1) ok2 by blast
    moreover have "\<not> ?left" using left True by blast
    ultimately show ?thesis using that [of 0 st1] c(1) True by (simp add: OBJ_create_def)
  next
    case False
    from c(3) [OF False] obtain os y where
        y: "valid_oid os" "cstr oid = dotted os" "p \<noteq> stack" "objs st p = None"
          "st1 = st2\<lparr>objs := (objs st)(p \<mapsto> y)\<rparr>" "o_nid y = sint (next_nid st)" "enc y = oid_der os"
          "o_length y = int (length (oid_der os))" "o_data y \<noteq> None" "has_key FN_data y" "oid_der os \<noteq> []"
          "length (oid_der os) \<le> INT_MAX_nat" "name_copied sn (o_sn y)" "name_copied ln (o_ln y)"
      by (auto simp: obj_next_nid_def st2_def)
    have ag: "agrees (objs st) ((objs st)(p \<mapsto> y))" using y(4) by (rule agrees_new)
    have ok1: "objects_ok stack st1" using assms(1) y(3,4) False ag table_ok_agrees
      unfolding objects_ok_def y(5) st2_def by simp
    have p1: "objs st1 p = Some y" by (simp add: y(5))
    have k: "o_length y \<noteq> 0 \<and> o_data y \<noteq> None \<longrightarrow> has_key FN_data y"
        "o_sn y \<noteq> None \<longrightarrow> terminated (o_sn y)" "o_ln y \<noteq> None \<longrightarrow> terminated (o_ln y)"
      using y(10,13,14) by (simp_all add: name_copied_def)
    note added = obj_add_object_ok [OF ok1 assms(3,4) p1 False k]
    obtain ok st' z where
        a: "obj_add_object alloc new_item p st1 = Some (ok, st')" "objects_ok stack st'"
          "objs st' = (objs st1)(p \<mapsto> z)" "z = y\<lparr>o_flags := o_flags y AND NOT DYNAMIC_ALL\<rparr>" "next_nid st' = next_nid st1"
          "ok \<noteq> 0 \<Longrightarrow> in_table FN_nid (objs st') (by_nid st') p"
          "ok \<noteq> 0 \<Longrightarrow> o_length y \<noteq> 0 \<Longrightarrow> o_data y \<noteq> None \<Longrightarrow> in_table FN_data (objs st') (by_data st') p"
          "ok \<noteq> 0 \<Longrightarrow> o_sn y \<noteq> None \<Longrightarrow> in_table FN_short_name (objs st') (by_short_name st') p"
          "ok \<noteq> 0 \<Longrightarrow> o_ln y \<noteq> None \<Longrightarrow> in_table FN_long_name (objs st') (by_long_name st') p"
          "tables_left alloc new_item st1 \<Longrightarrow> ok \<noteq> 0"
      by (rule added) (rule that)
    have o': "objs st' = (objs st)(p \<mapsto> z)" using a(3) by (simp add: y(5))
    show ?thesis
    proof (cases "ok = 0")
      case True
      moreover have "tables_left alloc new_item st1 = tables_left alloc new_item st"
        by (simp add: tables_left_def y(5) st2_def)
      ultimately have "\<not> ?left" using a(10) unfolding can_create_def by blast
      then show ?thesis using that [of 0 st'] c(1) False True a(1,2) by (simp add: OBJ_create_def)
    next
      case ok: False
      have "OBJ_create malloc new_obj alloc new_item stack oid sn ln st = Some (sint (next_nid st), st')"
        using c(1) False a(1) ok o' a(4) y(6) by (simp add: OBJ_create_def)
      moreover have "valid_oid os \<and> cstr oid = dotted os \<and> sint (next_nid st) = sint (next_nid st) \<and> p \<noteq> 0 \<and>
          objs st p = None \<and> objs st' = (objs st)(p \<mapsto> z) \<and> o_nid z = sint (next_nid st) \<and> enc z = oid_der os \<and>
          has_key FN_data z \<and> length (oid_der os) \<le> INT_MAX_nat \<and> name_copied sn (o_sn z) \<and> name_copied ln (o_ln z) \<and>
          next_nid st' = next_nid st + 1 \<and>
          in_table FN_nid (objs st') (by_nid st') p \<and> in_table FN_data (objs st') (by_data st') p \<and>
          (sn \<noteq> None \<longrightarrow> in_table FN_short_name (objs st') (by_short_name st') p) \<and>
          (ln \<noteq> None \<longrightarrow> in_table FN_long_name (objs st') (by_long_name st') p)"
        using y a(5) o' False a(6-9) ok
        by (simp add: a(4) enc_def name_copied_def st2_def del: oid_der.simps valid_oid.simps dotted.simps)
      moreover have "?left \<Longrightarrow> sint (next_nid st) \<noteq> 0" by (simp add: can_create_def)
      ultimately show ?thesis using that [of "sint (next_nid st)" st'] a(2) by blast
    qed
  qed
qed

text \<open>Searches in the state after.  The key is an object on the stack.\<close>

lemma stack_key:
  assumes "objects_ok stack st" "objs st p = Some y" "p \<noteq> 0" "has_key f x"
  shows "agrees (objs st) ((objs st)(stack \<mapsto> x))" "stack \<in> key_objects f ((objs st)(stack \<mapsto> x))"
    "((objs st)(stack \<mapsto> x)) p = Some y"
proof -
  have s: "objs st stack = None" "stack \<noteq> 0" using assms(1) by (simp_all add: objects_ok_def)
  show "agrees (objs st) ((objs st)(stack \<mapsto> x))" using s(1) by (rule agrees_new)
  show "stack \<in> key_objects f ((objs st)(stack \<mapsto> x))" using assms(4) s(2) by (simp add: key_objects_def)
  show "((objs st)(stack \<mapsto> x)) p = Some y" using assms(2) s(1) by auto
qed

lemma search_found:
  assumes "objects_ok stack st" "objs st p = Some y" "p \<noteq> 0" "in_table f (objs st) tbl p" "has_key f x"
    "key_val f x = key_val f y"
  shows "added tbl ((objs st)(stack \<mapsto> x)) stack = Some p"
  using added_found [OF assms(4) stack_key(1,2) [OF assms(1-3,5)]] assms(2,6) by simp

lemma created_found:
  assumes ok: "objects_ok stack st" and p: "objs st p = Some y" "p \<noteq> 0"
  shows "in_table FN_nid (objs st) (by_nid st) p \<Longrightarrow> NUM_NID \<le> o_nid y \<Longrightarrow> OBJ_nid2obj T stack junk (o_nid y) st = Some p"
    "in_table FN_short_name (objs st) (by_short_name st) p \<Longrightarrow> name_copied (Some s) (o_sn y) \<Longrightarrow>
      OBJ_sn2nid T stack junk s st = Some (o_nid y)"
    "in_table FN_long_name (objs st) (by_long_name st) p \<Longrightarrow> name_copied (Some s) (o_ln y) \<Longrightarrow>
      OBJ_ln2nid T stack junk s st = Some (o_nid y)"
    "in_table FN_data (objs st) (by_data st) p \<Longrightarrow> cbs_ok c \<Longrightarrow> cbs_len c \<le> INT_MAX_nat \<Longrightarrow> cbs_bytes c = enc y \<Longrightarrow>
      OBJ_cbs2nid T stack c st = Some (o_nid y)"
proof -
  have q: "((objs st)(stack \<mapsto> x)) p = Some y" for x
    using ok p(1) by (auto simp: objects_ok_def)
  show "OBJ_nid2obj T stack junk (o_nid y) st = Some p"
    if "in_table FN_nid (objs st) (by_nid st) p" "NUM_NID \<le> o_nid y"
    using search_found [OF ok p that(1), of "junk\<lparr>o_nid := o_nid y\<rparr>"] that(2)
    by (simp add: OBJ_nid2obj_def has_key_def key_val_def)
  show "OBJ_sn2nid T stack junk s st = Some (o_nid y)"
    if "in_table FN_short_name (objs st) (by_short_name st) p" "name_copied (Some s) (o_sn y)"
  proof -
    have "added (by_short_name st) ((objs st)(stack \<mapsto> junk\<lparr>o_sn := Some s\<rparr>)) stack = Some p"
      by (rule search_found [OF ok p that(1)])
        (use that(2) in \<open>auto simp: has_key_def key_val_def name_copied_def bytes_at_def\<close>)
    with q p(2) show ?thesis by (simp add: OBJ_sn2nid_def Let_def del: fun_upd_apply)
  qed
  show "OBJ_ln2nid T stack junk s st = Some (o_nid y)"
    if "in_table FN_long_name (objs st) (by_long_name st) p" "name_copied (Some s) (o_ln y)"
  proof -
    have "added (by_long_name st) ((objs st)(stack \<mapsto> junk\<lparr>o_ln := Some s\<rparr>)) stack = Some p"
      by (rule search_found [OF ok p that(1)])
        (use that(2) in \<open>auto simp: has_key_def key_val_def name_copied_def bytes_at_def\<close>)
    with q p(2) show ?thesis by (simp add: OBJ_ln2nid_def Let_def del: fun_upd_apply)
  qed
  show "OBJ_cbs2nid T stack c st = Some (o_nid y)"
    if "in_table FN_data (objs st) (by_data st) p" "cbs_ok c" "cbs_len c \<le> INT_MAX_nat" "cbs_bytes c = enc y"
  proof -
    let ?x = "\<lparr>o_sn = None, o_ln = None, o_nid = 0, o_length = int (CBS_len c), o_data = Some (CBS_data c), o_flags = 0\<rparr>"
    have x: "has_key FN_data ?x" "key_val FN_data ?x = key_val FN_data y"
      using that(2-4) by (simp_all add: has_key_def key_val_def enc_def bytes_at_def CBS_len_def CBS_data_def cbs_ok_def cbs_bytes_def)
    have a: "added (by_data st) ((objs st)(stack \<mapsto> ?x)) stack = Some p" by (rule search_found [OF ok p that(1) x])
    have "stack \<noteq> 0" using ok by (simp add: objects_ok_def)
    with a q p(2) that(3) show ?thesis by (simp add: OBJ_cbs2nid_def OBJ_obj2nid_def CBS_len_def)
  qed
qed

section \<open>The text of an object\<close>

lemma strlcpy_int_eq:
  assumes "c_strlen src = Some n" "n \<le> INT_MAX_nat" "0 \<le> k" "k \<le> int (length dst)" "k < int SIZE_LIMIT"
  shows "strlcpy_int dst src k = Some
    (if k = 0 then dst else take (min n (nat k - 1)) src @ 0 # drop (Suc (min n (nat k - 1))) dst, int n)"
proof -
  have "size_of_int k = nat k" using assms(3,5) by (rule size_of_int_small)
  then show ?thesis using assms strlcpy_loop_eq [OF assms(1), of "nat k" dst 0]
    by (auto simp: strlcpy_int_def OPENSSL_strlcpy_def)
qed

lemma dotted_no_zero: "0 \<notin> set (dotted os)"
proof (induction os rule: dotted.induct)
  case (2 n)
  then show ?case using decimal_digits [of 0 n] by (auto simp: is_digit_def)
next
  case (3 n m ns)
  then show ?case using decimal_digits [of 0 n] by (auto simp: is_digit_def)
qed simp

lemma obj2txt_eq:
  assumes "malloc_ok malloc" "objs st p = Some y" "p \<noteq> 0" "has_key FN_data y" "enc y = oid_der os" "valid_oid os"
    "bytes_left malloc" "length (dotted os) \<le> INT_MAX_nat" "0 \<le> k" "k \<le> int (length out)" "k < int SIZE_LIMIT"
  shows "OBJ_obj2txt T malloc stack junk out k p True st = Some
    (if k = 0 then out
     else take (min (length (dotted os)) (nat k - 1)) (dotted os) @ 0 # drop (Suc (min (length (dotted os)) (nat k - 1))) out,
     int (length (dotted os)))"
proof -
  let ?n = "length (dotted os)"
  have y: "0 \<le> o_length y" "o_length y < int SIZE_LIMIT" "nat (o_length y) \<le> length (bytes_at (o_data y))"
    using assms(4) by (simp_all add: has_key_def)
  have sz: "size_of_int (o_length y) = nat (o_length y)" using y(1,2) by (rule size_of_int_small)
  define c where "c = CBS_init (bytes_at (o_data y)) (nat (o_length y))"
  have c: "cbs_ok c" "cbs_bytes c = oid_der os" using y assms(5) by (simp_all add: c_def enc_def)
  have ne: "oid_der os \<noteq> []" using assms(6) by (cases os rule: valid_oid.cases) (simp_all add: b128_def)
  then have "o_length y \<noteq> 0" using assms(5) by (auto simp: enc_def)
  from oid_to_text_valid [OF assms(1) c(1) assms(6) c(2)] assms(7,8) obtain out' where
      t: "CBS_asn1_oid_to_text malloc c = Some out'" "take (?n + 1) out' = dotted os @ [0]"
    by (cases "CBS_asn1_oid_to_text malloc c") (auto simp: bytes_left_def)
  have l: "?n < length out'" using arg_cong [OF t(2), of length] by (simp add: min_def split: if_splits)
  then have s: "take ?n out' = dotted os" "out' ! ?n = 0" using t(2) by (simp_all add: take_Suc_conv_app_nth)
  have "\<forall>i<?n. out' ! i \<noteq> 0" using s(1) dotted_no_zero by (metis nth_mem nth_take)
  then have "c_strlen out' = Some ?n" using l s(2) by (simp add: c_strlen_Some)
  have tk: "take (min ?n m) out' = take (min ?n m) (dotted os)" for m
  proof -
    have "min (min ?n m) ?n = min ?n m" by simp
    then show ?thesis using arg_cong [OF s(1), of "take (min ?n m)"] by (simp only: take_take)
  qed
  from strlcpy_int_eq [OF \<open>c_strlen out' = Some ?n\<close> assms(8-11)]
  have "strlcpy_int out out' k = Some (if k = 0 then out
      else take (min ?n (nat k - 1)) (dotted os) @ 0 # drop (Suc (min ?n (nat k - 1))) out, int ?n)"
    unfolding tk .
  then show ?thesis using assms(2,3) \<open>o_length y \<noteq> 0\<close> t(1) by (simp add: OBJ_obj2txt_def c_def sz)
qed

section \<open>Properties\<close>

text \<open>
  (C7) \<open>OBJ_create\<close> never follows a bad pointer and keeps the tables well formed.  It succeeds whenever there is
  memory and the text is an object identifier.  The object it made has the next number, the DER encoding of the
  identifier and the names given, and it is what the lookups by number, by short name, by long name and by
  encoding find afterwards.
\<close>

theorem created_object_is_found:
  assumes "objects_ok stack st" "malloc_ok malloc" "alloc_ok alloc" "new_item_ok new_item" "new_obj_ok stack new_obj"
    "length oid < SIZE_LIMIT" "0 \<in> set oid" "length sn < SIZE_LIMIT" "length ln < SIZE_LIMIT"
    "965 \<le> unat (next_nid st)" "unat (next_nid st) < 2 ^ 31"
  shows "\<exists>n st'. OBJ_create malloc new_obj alloc new_item stack oid (Some sn) (Some ln) st = Some (n, st') \<and>
    objects_ok stack st' \<and>
    (can_create malloc alloc new_item new_obj oid (Some sn) (Some ln) st \<longrightarrow> n \<noteq> 0) \<and>
    (n \<noteq> 0 \<longrightarrow> n = int (unat (next_nid st)) \<and> next_nid st' = next_nid st + 1 \<and>
      OBJ_sn2nid T stack junk sn st' = Some n \<and> OBJ_ln2nid T stack junk ln st' = Some n \<and>
      (\<exists>os. valid_oid os \<and> cstr oid = dotted os \<and>
        (\<exists>p y. OBJ_nid2obj T stack junk n st' = Some p \<and> objs st' p = Some y \<and> o_nid y = n \<and> enc y = oid_der os) \<and>
        (\<forall>c. cbs_ok c \<and> cbs_bytes c = oid_der os \<longrightarrow> OBJ_cbs2nid T stack c st' = Some n)))"
proof -
  have fits: "name_fits (Some sn)" "name_fits (Some ln)" using assms(8,9) by (simp_all add: name_fits_def bytes_at_def)
  have "int (unat (next_nid st)) < 2 ^ 31" using of_nat_less_iff [where 'a = int, THEN iffD2, OF assms(11)] by simp
  moreover have "- (2 ^ 31) \<le> int (unat (next_nid st))" by (rule order_trans [of _ 0]) simp_all
  ultimately have "signed_take_bit 31 (int (unat (next_nid st))) = int (unat (next_nid st))"
    by (intro signed_take_bit_int_eq_self)
  then have nid: "sint (next_nid st) = int (unat (next_nid st))" by (simp add: sint_uint)
  show ?thesis
  proof (rule obj_create_ok [OF assms(1-7) fits])
    fix n st'
    assume c: "OBJ_create malloc new_obj alloc new_item stack oid (Some sn) (Some ln) st = Some (n, st')" "objects_ok stack st'"
      and ex: "n \<noteq> 0 \<Longrightarrow> \<exists>os p y. valid_oid os \<and> cstr oid = dotted os \<and> n = sint (next_nid st) \<and> p \<noteq> 0 \<and>
      objs st p = None \<and> objs st' = (objs st)(p \<mapsto> y) \<and> o_nid y = n \<and> enc y = oid_der os \<and> has_key FN_data y \<and>
      length (oid_der os) \<le> INT_MAX_nat \<and> name_copied (Some sn) (o_sn y) \<and> name_copied (Some ln) (o_ln y) \<and>
      next_nid st' = next_nid st + 1 \<and>
      in_table FN_nid (objs st') (by_nid st') p \<and> in_table FN_data (objs st') (by_data st') p \<and>
      (Some sn \<noteq> None \<longrightarrow> in_table FN_short_name (objs st') (by_short_name st') p) \<and>
      (Some ln \<noteq> None \<longrightarrow> in_table FN_long_name (objs st') (by_long_name st') p)"
      and can: "can_create malloc alloc new_item new_obj oid (Some sn) (Some ln) st \<Longrightarrow> n \<noteq> 0"
    have "n = int (unat (next_nid st)) \<and> next_nid st' = next_nid st + 1 \<and>
      OBJ_sn2nid T stack junk sn st' = Some n \<and> OBJ_ln2nid T stack junk ln st' = Some n \<and>
      (\<exists>os. valid_oid os \<and> cstr oid = dotted os \<and>
        (\<exists>p y. OBJ_nid2obj T stack junk n st' = Some p \<and> objs st' p = Some y \<and> o_nid y = n \<and> enc y = oid_der os) \<and>
        (\<forall>c. cbs_ok c \<and> cbs_bytes c = oid_der os \<longrightarrow> OBJ_cbs2nid T stack c st' = Some n))" if "n \<noteq> 0"
    proof -
      from ex [OF that] obtain os p y where e: "valid_oid os" "cstr oid = dotted os" "n = sint (next_nid st)" "p \<noteq> 0"
          "objs st' = (objs st)(p \<mapsto> y)" "o_nid y = n" "enc y = oid_der os" "length (oid_der os) \<le> INT_MAX_nat"
          "name_copied (Some sn) (o_sn y)" "name_copied (Some ln) (o_ln y)" "next_nid st' = next_nid st + 1"
          "in_table FN_nid (objs st') (by_nid st') p" "in_table FN_data (objs st') (by_data st') p"
          "in_table FN_short_name (objs st') (by_short_name st') p" "in_table FN_long_name (objs st') (by_long_name st') p"
        by blast
      have p: "objs st' p = Some y" by (simp add: e(5))
      note F = created_found [OF c(2) p e(4)]
      have "OBJ_cbs2nid T stack c st' = Some n" if "cbs_ok c" "cbs_bytes c = oid_der os" for c
        using F(4) [OF e(13) that(1)] that e(6-8) length_cbs_bytes [OF that(1)] by simp
      moreover have "965 \<le> n" unfolding e(3) nid using assms(10) by linarith
      then have "OBJ_nid2obj T stack junk n st' = Some p" using F(1) [OF e(12)] unfolding e(6) by blast
      moreover have "n = int (unat (next_nid st))" using e(3) nid by simp
      moreover have "OBJ_sn2nid T stack junk sn st' = Some n" "OBJ_ln2nid T stack junk ln st' = Some n"
        using F(2) [OF e(14,9)] F(3) [OF e(15,10)] unfolding e(6) by blast+
      ultimately show ?thesis using e(1,2,6,7,11) p by blast
    qed
    with c can show ?thesis by blast
  qed
qed

text \<open>
  (C25) The text of an object identifier survives: \<open>OBJ_txt2obj\<close> makes an object from it, and \<open>OBJ_obj2txt\<close> writes
  for this object the same text, as much of it as fits before a null byte, and returns the length of the
  whole.  Nothing outside the \<open>out_len\<close> bytes of the buffer is written.
\<close>

theorem object_text_round_trip:
  assumes "objects_ok stack st" "malloc_ok malloc" "bytes_left malloc" "new_obj_ok stack new_obj" "new_obj st \<noteq> None"
    "length s < 2 ^ 31" "0 \<in> set s" "valid_oid os" "cstr s = dotted os" "length (oid_der os) \<le> INT_MAX_nat"
    "0 \<le> out_len" "out_len \<le> int (length out)" "out_len \<le> int INT_MAX_nat"
  shows "\<exists>p st'. OBJ_txt2obj T malloc new_obj stack junk s True st = Some (p, st') \<and> p \<noteq> 0 \<and>
    OBJ_obj2txt T malloc stack junk out out_len p True st' = Some
      (if out_len = 0 then out
       else take (min (length (dotted os)) (nat out_len - 1)) (dotted os) @
         0 # drop (Suc (min (length (dotted os)) (nat out_len - 1))) out, int (length (dotted os)))"
proof -
  have n: "length s < SIZE_LIMIT" "length (dotted os) \<le> INT_MAX_nat" "out_len < int SIZE_LIMIT"
    using assms(6,13) length_takeWhile_le [of "\<lambda>b. b \<noteq> 0" s] by (simp_all add: cstr_def flip: assms(9))
  have fits: "name_fits None" by (simp add: name_fits_def bytes_at_def)
  show ?thesis
  proof (rule create_object_ok [OF assms(2,4) n(1) assms(7) fits fits, of None st])
    fix p st'
    assume c: "create_object_with_text_oid malloc new_obj stack None s None None st = Some (p, st')"
      and y: "p \<noteq> 0 \<Longrightarrow> \<exists>os st1 nid y. valid_oid os \<and> cstr s = dotted os \<and>
      (nid, st1) = (case None of None \<Rightarrow> (NID_undef, st) | Some get \<Rightarrow> get st) \<and>
      p \<noteq> stack \<and> objs st1 p = None \<and> st' = st1\<lparr>objs := (objs st1)(p \<mapsto> y)\<rparr> \<and> o_nid y = nid \<and> enc y = oid_der os \<and>
      o_length y = int (length (oid_der os)) \<and> o_data y \<noteq> None \<and> has_key FN_data y \<and> oid_der os \<noteq> [] \<and>
      length (oid_der os) \<le> INT_MAX_nat \<and> name_copied None (o_sn y) \<and> name_copied None (o_ln y)"
    have "stack \<noteq> 0" using assms(1) by (simp add: objects_ok_def)
    then have p: "p \<noteq> 0"
      using create_object_left [OF assms(2,3) n(1) assms(7-10) _ assms(4) _ _ _ c] assms(5) by simp
    from y [OF p] obtain os' y where y': "valid_oid os'" "cstr s = dotted os'" "objs st' p = Some y" "enc y = oid_der os'"
        "has_key FN_data y" by auto
    have "OBJ_txt2obj T malloc new_obj stack junk s True st = Some (p, st')" using c by (simp add: OBJ_txt2obj_def)
    moreover have "dotted os' = dotted os" using y'(2) assms(9) by simp
    ultimately show ?thesis
      using obj2txt_eq [OF assms(2) y'(3) p y'(5,4,1) assms(3) _ assms(11,12) n(3)] n(2) p by metis
  qed
qed

section \<open>Witnesses\<close>

text \<open>No object yet, built in or added, and memory with room for one object and for two items in each table.\<close>

definition no_builtins :: builtins where
  "no_builtins = \<lparr>kObjects = (\<lambda>_. 0), kUndef = 0, kNIDsInOIDOrder = [], kNIDsInShortNameOrder = [], kNIDsInLongNameOrder = []\<rparr>"

definition blank_object :: asn1_object where
  "blank_object = \<lparr>o_sn = None, o_ln = None, o_nid = 0, o_length = 0, o_data = None, o_flags = 0\<rparr>"

definition no_objects :: objects where
  "no_objects = \<lparr>objs = Map.empty, by_data = None, by_nid = None, by_short_name = None, by_long_name = None, next_nid = 965\<rparr>"

definition one_object :: "objects \<Rightarrow> ptr option" where
  "one_object st = (if objs st 2 = None then Some 2 else None)"

definition zero_bytes :: "nat \<Rightarrow> u8 list option" where
  "zero_bytes n = Some (replicate n 0)"

definition oid_text :: "u8 list" where "oid_text = [49, 46, 50, 46, 56, 52, 48, 0]"

theorem created_object_is_found_witness:
  "\<exists>st'. OBJ_create zero_bytes one_object zeros two_items 1 oid_text (Some [73, 0]) (Some [85, 83, 0]) no_objects = Some (965, st') \<and>
    OBJ_sn2nid no_builtins 1 blank_object [73, 0] st' = Some 965 \<and> OBJ_ln2nid no_builtins 1 blank_object [85, 83, 0] st' = Some 965"
proof -
  have h: "objects_ok 1 no_objects" "malloc_ok zero_bytes" "new_obj_ok 1 one_object"
    by (simp_all add: objects_ok_def no_objects_def table_ok_def malloc_ok_def zero_bytes_def new_obj_ok_def one_object_def)
  have u: "965 \<le> unat (next_nid no_objects)" "unat (next_nid no_objects) < 2 ^ 31" by (simp_all add: no_objects_def)
  have o: "cstr oid_text = dotted [1, 2, 840]" "valid_oid [1, 2, 840]" "length (oid_der [1, 2, 840]) \<le> INT_MAX_nat"
    by (simp_all add: cstr_def oid_text_def decimal.simps b128_def b128_hi.simps)
  have "tables_left zeros two_items no_objects"
    by (simp add: tables_left_def no_objects_def or_new_def small_table_new OPENSSL_lh_new_def zalloc_ptrs_def zeros_def two_items_def)
  then have can: "can_create zero_bytes zeros two_items one_object oid_text (Some [73, 0]) (Some [85, 83, 0]) no_objects"
    using o by (auto simp: can_create_def bytes_left_def zero_bytes_def one_object_def no_objects_def terminated_def bytes_at_def
      simp del: oid_der.simps valid_oid.simps dotted.simps)
  have "0 \<in> set oid_text" "length oid_text < SIZE_LIMIT" "length [73 :: u8, 0] < SIZE_LIMIT" "length [85 :: u8, 83, 0] < SIZE_LIMIT"
    by (simp_all add: oid_text_def)
  from created_object_is_found [OF h(1,2) zeros_ok(1) two_items_ok h(3) this(2,1,3,4) u, of no_builtins blank_object] can
  show ?thesis by (auto simp: no_objects_def)
qed

theorem object_text_round_trip_witness:
  "\<exists>p st'. OBJ_txt2obj no_builtins zero_bytes one_object 1 blank_object oid_text True no_objects = Some (p, st') \<and> p \<noteq> 0 \<and>
    OBJ_obj2txt no_builtins zero_bytes 1 blank_object [9, 9, 9, 9, 9] 4 p True st' = Some ([49, 46, 50, 0, 9], 7)"
proof -
  have h: "objects_ok 1 no_objects" "malloc_ok zero_bytes" "bytes_left zero_bytes" "new_obj_ok 1 one_object" "one_object no_objects \<noteq> None"
    by (simp_all add: objects_ok_def no_objects_def table_ok_def malloc_ok_def bytes_left_def zero_bytes_def new_obj_ok_def one_object_def)
  have d: "dotted [1, 2, 840] = [49, 46, 50, 46, 56, 52, 48]" by (simp add: decimal.simps)
  have o: "valid_oid [1, 2, 840]" "cstr oid_text = dotted [1, 2, 840]" "length (oid_der [1, 2, 840]) \<le> INT_MAX_nat"
      "length oid_text < 2 ^ 31" "0 \<in> set oid_text"
    unfolding d by (simp_all add: cstr_def oid_text_def b128_def b128_hi.simps)
  have k: "(0 :: int) \<le> 4" "4 \<le> int (length [9 :: u8, 9, 9, 9, 9])" "(4 :: int) \<le> int INT_MAX_nat" by simp_all
  from object_text_round_trip [OF h o(4,5,1-3) k, of no_builtins blank_object] show ?thesis unfolding d by simp
qed

end
