(* ===== verification/Objects_Search.thy ===== *)
theory Objects_Search
  imports Objects_Spec "HOL-Library.List_Lexorder"
begin

text \<open>
  The binary searches of \<open>obj.c\<close> in the tables of built-in objects: on tables in the order that
  \<open>objects.go\<close> generates, they find what is there and nothing else.
\<close>

section \<open>Orders\<close>

lemma strcmp_less:
  "0 \<in> set s \<Longrightarrow> 0 \<in> set t \<Longrightarrow> (strcmp s t < 0 \<longleftrightarrow> cstr s < cstr t) \<and> (strcmp s t > 0 \<longleftrightarrow> cstr t < cstr s)"
  by (induction s t rule: strcmp.induct) (auto simp: cstr_def word_gt_0 dest: less_imp_neq)

lemma memcmp_less:
  "n \<le> length s \<Longrightarrow> n \<le> length t \<Longrightarrow> (OPENSSL_memcmp s t n < 0 \<longleftrightarrow> take n s < take n t) \<and>
    (OPENSSL_memcmp s t n > 0 \<longleftrightarrow> take n t < take n s)"
proof -
  have "(memcmp_sign s t n < 0 \<longleftrightarrow> take n s < take n t) \<and> (memcmp_sign s t n > 0 \<longleftrightarrow> take n t < take n s)"
    if "n \<le> length s" "n \<le> length t"
    using that by (induction s t n rule: memcmp_sign.induct) (auto dest: less_imp_neq)
  then show "n \<le> length s \<Longrightarrow> n \<le> length t \<Longrightarrow> (OPENSSL_memcmp s t n < 0 \<longleftrightarrow> take n s < take n t) \<and>
    (OPENSSL_memcmp s t n > 0 \<longleftrightarrow> take n t < take n s)"
    by (simp add: OPENSSL_memcmp_def)
qed

text \<open>Encodings are ordered by length first.\<close>

definition enc_less :: "u8 list \<Rightarrow> u8 list \<Rightarrow> bool" where
  "enc_less a b \<longleftrightarrow> length a < length b \<or> length a = length b \<and> a < b"

lemma obj_cmp_less:
  assumes "has_key FN_data x" "has_key FN_data y"
  shows "OBJ_cmp x y < 0 \<longleftrightarrow> enc_less (enc x) (enc y)" "OBJ_cmp x y > 0 \<longleftrightarrow> enc_less (enc y) (enc x)"
proof -
  have l: "length (enc x) = nat (o_length x)" "length (enc y) = nat (o_length y)" "0 \<le> o_length x" "0 \<le> o_length y"
      "size_of_int (o_length x) = nat (o_length x)" "nat (o_length x) \<le> length (bytes_at (o_data x))"
      "nat (o_length y) \<le> length (bytes_at (o_data y))"
    using assms size_of_int_small by (simp_all add: enc_def has_key_def)
  show "OBJ_cmp x y < 0 \<longleftrightarrow> enc_less (enc x) (enc y)" "OBJ_cmp x y > 0 \<longleftrightarrow> enc_less (enc y) (enc x)"
    using l memcmp_less [of "nat (o_length x)" "bytes_at (o_data x)" "bytes_at (o_data y)"]
    by (auto simp: OBJ_cmp_def enc_less_def enc_def)
qed

section \<open>Binary search\<close>

lemma c_bsearch_finds:
  assumes "\<And>i. i < length d \<Longrightarrow> f (d ! i) = Some (g i)"
    "\<And>i j. i < j \<Longrightarrow> j < length d \<Longrightarrow> g i < 0 \<Longrightarrow> g j < 0" "\<And>i j. i < j \<Longrightarrow> j < length d \<Longrightarrow> g j > 0 \<Longrightarrow> g i > 0"
  shows "hi \<le> length d \<Longrightarrow> (\<exists>i. lo \<le> i \<and> i < hi \<and> g i = (0 :: int) \<and> c_bsearch f d lo hi = Some (Some (d ! i))) \<or>
    (\<forall>i. lo \<le> i \<and> i < hi \<longrightarrow> g i \<noteq> 0) \<and> c_bsearch f d lo hi = Some None"
proof (induction "hi - lo" arbitrary: lo hi rule: less_induct)
  case less
  show ?case
  proof (cases "lo < hi")
    case False
    then show ?thesis by (subst (1 2) c_bsearch.simps) simp
  next
    case True
    define mid where "mid = (lo + hi) div 2"
    have m: "lo \<le> mid" "mid < hi" "mid < length d" using True less.prems by (auto simp: mid_def)
    have e: "c_bsearch f d lo hi = (if g mid < 0 then c_bsearch f d lo mid else if g mid > 0 then c_bsearch f d (mid + 1) hi
        else Some (Some (d ! mid)))"
      using True assms(1) [OF m(3)] by (subst c_bsearch.simps) (simp add: mid_def [symmetric])
    consider "g mid < 0" | "g mid > 0" | "g mid = 0" by linarith
    then show ?thesis
    proof cases
      case 1
      have "g i \<noteq> 0" if "mid \<le> i" "i < hi" for i
        using assms(2) [of mid i] 1 that less.prems by (cases "i = mid") auto
      then have "(\<forall>i. lo \<le> i \<and> i < mid \<longrightarrow> g i \<noteq> 0) \<Longrightarrow> (\<forall>i. lo \<le> i \<and> i < hi \<longrightarrow> g i \<noteq> 0)"
        by (meson not_le)
      then show ?thesis using less.hyps [of mid lo] m less.prems 1 unfolding e by fastforce
    next
      case 2
      have "g i \<noteq> 0" if "lo \<le> i" "i < mid + 1" for i
        using assms(3) [of i mid] 2 that m by (cases "i = mid") auto
      then have "(\<forall>i. mid + 1 \<le> i \<and> i < hi \<longrightarrow> g i \<noteq> 0) \<Longrightarrow> (\<forall>i. lo \<le> i \<and> i < hi \<longrightarrow> g i \<noteq> 0)"
        by (meson not_le)
      then show ?thesis using less.hyps [of hi "mid + 1"] m less.prems 2 unfolding e by fastforce
    next
      case 3
      then show ?thesis using m unfolding e by auto
    qed
  qed
qed

text \<open>A table sorted by a key, searched with a comparison of keys.\<close>

lemma sorted_search:
  assumes "\<And>k. k \<in> set d \<Longrightarrow> f k = Some (g k)" "sorted_wrt (\<lambda>a b. \<not> lt (key b) (key a)) d"
    "\<And>k. k \<in> set d \<Longrightarrow> (g k < 0 \<longleftrightarrow> lt x (key k)) \<and> (g k > (0 :: int) \<longleftrightarrow> lt (key k) x)"
    "\<And>a b c. lt a b \<Longrightarrow> \<not> lt c b \<Longrightarrow> lt a c" "\<And>a b c. lt b c \<Longrightarrow> \<not> lt b a \<Longrightarrow> lt a c"
    "\<And>k. k \<in> set d \<Longrightarrow> g k = 0 \<longleftrightarrow> key k = x"
  shows "(\<exists>k\<in>set d. key k = x \<and> c_bsearch f d 0 (length d) = Some (Some k)) \<or>
    (\<forall>k\<in>set d. key k \<noteq> x) \<and> c_bsearch f d 0 (length d) = Some None"
proof -
  have s: "\<not> lt (key (d ! j)) (key (d ! i))" if "i < j" "j < length d" for i j
    using assms(2) that by (simp add: sorted_wrt_iff_nth_less)
  have "g (d ! j) < 0" if "i < j" "j < length d" "g (d ! i) < 0" for i j
    using s [OF that(1,2)] assms(3) [OF nth_mem] assms(4) [of x "key (d ! i)" "key (d ! j)"] that by simp
  moreover have "g (d ! i) > 0" if "i < j" "j < length d" "g (d ! j) > 0" for i j
    using s [OF that(1,2)] assms(3) [OF nth_mem] assms(5) [of "key (d ! j)" x "key (d ! i)"] that by simp
  ultimately consider i where "i < length d" "g (d ! i) = 0" "c_bsearch f d 0 (length d) = Some (Some (d ! i))"
    | "\<forall>i<length d. g (d ! i) \<noteq> 0" "c_bsearch f d 0 (length d) = Some None"
    using c_bsearch_finds [of d f "\<lambda>i. g (d ! i)" "length d" 0] assms(1) by auto
  then show ?thesis
  proof cases
    case (1 i)
    then show ?thesis using assms(6) [of "d ! i"] nth_mem [of i d] by blast
  next
    case 2
    then have "key k \<noteq> x" if "k \<in> set d" for k using assms(6) [OF that] that by (metis in_set_conv_nth)
    then show ?thesis using 2(2) by blast
  qed
qed

section \<open>The built-in objects\<close>

abbreviation builtin :: "builtins \<Rightarrow> objects \<Rightarrow> nat \<Rightarrow> asn1_object" where
  "builtin T st k \<equiv> the (objs st (kObjects T (k - 1)))"

text \<open>What the generated tables promise: the objects are there, with their own number or none, and the three
  arrays list numbers of objects in order of their encodings and of their names.  Objects may share a key:
  in \<open>obj_dat.h\<close>, 379 and 676 are both the object identifier 1.3.\<close>

definition builtins_ok :: "builtins \<Rightarrow> objects \<Rightarrow> bool" where
  "builtins_ok T st \<longleftrightarrow>
    (\<forall>k\<in>{1..<965}. kObjects T (k - 1) \<noteq> 0 \<and> objs st (kObjects T (k - 1)) \<noteq> None \<and>
      (o_nid (builtin T st k) = int k \<or> o_nid (builtin T st k) = 0)) \<and>
    (\<forall>k\<in>set (kNIDsInOIDOrder T). k \<in> {1..<965} \<and> o_nid (builtin T st k) = int k \<and> has_key FN_data (builtin T st k)) \<and>
    sorted_wrt (\<lambda>a b. \<not> enc_less (enc (builtin T st b)) (enc (builtin T st a))) (kNIDsInOIDOrder T) \<and>
    (\<forall>k\<in>set (kNIDsInShortNameOrder T). k \<in> {1..<965} \<and> o_nid (builtin T st k) = int k \<and> terminated (o_sn (builtin T st k))) \<and>
    sorted_wrt (\<lambda>a b. \<not> cstr (bytes_at (o_sn (builtin T st b))) < cstr (bytes_at (o_sn (builtin T st a)))) (kNIDsInShortNameOrder T) \<and>
    (\<forall>k\<in>set (kNIDsInLongNameOrder T). k \<in> {1..<965} \<and> o_nid (builtin T st k) = int k \<and> terminated (o_ln (builtin T st k))) \<and>
    sorted_wrt (\<lambda>a b. \<not> cstr (bytes_at (o_ln (builtin T st b))) < cstr (bytes_at (o_ln (builtin T st a)))) (kNIDsInLongNameOrder T)"

lemma builtin_at:
  assumes "builtins_ok T st" "k \<in> {1..<965}"
  shows "get_builtin_object T (int k) = Some (kObjects T (k - 1))" "objs st (kObjects T (k - 1)) = Some (builtin T st k)"
    "kObjects T (k - 1) \<noteq> 0"
  using assms by (auto simp: builtins_ok_def get_builtin_object_def assert_def)

lemma oid_search:
  assumes "builtins_ok T st" "has_key FN_data x"
  shows "(\<exists>k\<in>set (kNIDsInOIDOrder T). enc (builtin T st k) = enc x \<and>
      c_bsearch (obj_cmp T st x) (kNIDsInOIDOrder T) 0 (length (kNIDsInOIDOrder T)) = Some (Some k)) \<or>
    (\<forall>k\<in>set (kNIDsInOIDOrder T). enc (builtin T st k) \<noteq> enc x) \<and>
      c_bsearch (obj_cmp T st x) (kNIDsInOIDOrder T) 0 (length (kNIDsInOIDOrder T)) = Some None"
proof (rule sorted_search [where lt = enc_less and g = "\<lambda>k. OBJ_cmp x (builtin T st k)"])
  fix k assume "k \<in> set (kNIDsInOIDOrder T)"
  then have k: "k \<in> {1..<965}" "has_key FN_data (builtin T st k)" using assms(1) unfolding builtins_ok_def by blast+
  show "obj_cmp T st x k = Some (OBJ_cmp x (builtin T st k))"
    unfolding obj_cmp_def builtin_at(1) [OF assms(1) k(1)] bind.bind_lunit
    by (metis builtin_at(2) [OF assms(1) k(1)] bind.bind_lunit)
  show "(OBJ_cmp x (builtin T st k) < 0 \<longleftrightarrow> enc_less (enc x) (enc (builtin T st k))) \<and>
      (OBJ_cmp x (builtin T st k) > 0 \<longleftrightarrow> enc_less (enc (builtin T st k)) (enc x))"
    using obj_cmp_less [OF assms(2) k(2)] by blast
  show "OBJ_cmp x (builtin T st k) = 0 \<longleftrightarrow> enc (builtin T st k) = enc x" using obj_cmp_zero [OF assms(2) k(2)] by auto
qed (use assms(1) in \<open>auto simp: builtins_ok_def enc_less_def\<close>)

lemma name_search:
  assumes "\<forall>k\<in>set d. cmp k = Some (strcmp s (bytes_at (name k))) \<and> terminated (name k)" "0 \<in> set s"
    "sorted_wrt (\<lambda>a b. \<not> cstr (bytes_at (name b)) < cstr (bytes_at (name a))) d"
  shows "(\<exists>k\<in>set d. cstr (bytes_at (name k)) = cstr s \<and> c_bsearch cmp d 0 (length d) = Some (Some k)) \<or>
    (\<forall>k\<in>set d. cstr (bytes_at (name k)) \<noteq> cstr s) \<and> c_bsearch cmp d 0 (length d) = Some None"
proof (rule sorted_search [where lt = "(<)" and g = "\<lambda>k. strcmp s (bytes_at (name k))"])
  fix k assume k: "k \<in> set d"
  then have z: "0 \<in> set (bytes_at (name k))" using assms(1) by (auto simp: terminated_def bytes_at_def split: option.splits)
  show "cmp k = Some (strcmp s (bytes_at (name k)))" using assms(1) k by blast
  show "(strcmp s (bytes_at (name k)) < 0 \<longleftrightarrow> cstr s < cstr (bytes_at (name k))) \<and>
      (strcmp s (bytes_at (name k)) > 0 \<longleftrightarrow> cstr (bytes_at (name k)) < cstr s)"
    by (rule strcmp_less [OF assms(2) z])
  show "strcmp s (bytes_at (name k)) = 0 \<longleftrightarrow> cstr (bytes_at (name k)) = cstr s" using strcmp_zero [OF assms(2) z] by auto
qed (use assms(3) in auto)

section \<open>Searches that find no added object\<close>

definition none_added :: "nat \<Rightarrow> objects \<Rightarrow> lhash option \<Rightarrow> int \<times> u8 list \<Rightarrow> bool" where
  "none_added f st tbl v \<longleftrightarrow> (\<forall>p. in_table f (objs st) tbl p \<longrightarrow> key_val f (the (objs st p)) \<noteq> v)"

lemma added_none:
  assumes "objects_ok stack st" "table_ok f (objs st) tbl" "none_added f st tbl (key_val f x)" "has_key f x"
  shows "added tbl ((objs st)(stack \<mapsto> x)) stack = Some 0"
proof (cases tbl)
  case None
  then show ?thesis by (simp add: added_def)
next
  case (Some lh)
  let ?h = "(objs st)(stack \<mapsto> x)"
  have s: "objs st stack = None" "stack \<noteq> 0" using assms(1) by (simp_all add: objects_ok_def)
  have a: "agrees (objs st) ?h" using s(1) by (rule agrees_new)
  have k: "stack \<in> key_objects f ?h" using assms(4) s(2) by (simp add: key_objects_def)
  from assms(2) Some obtain C where C: "table_holds f (objs st) lh C" by (auto simp: table_ok_def)
  have C': "table_holds f ?h lh C" using a C by (rule table_holds_agrees)
  have "lh_ASN1_OBJECT_call_cmp_func ?h f y stack \<noteq> 0" if "y \<in> lh_set C" for y
  proof -
    have y: "y \<in> key_objects f (objs st)" using lh_ok_D [OF C] that by blast
    have "in_table f (objs st) tbl y" using Some C that unfolding in_table_def by blast
    then have "key_val f (the (objs st y)) \<noteq> key_val f x" using assms(3) unfolding none_added_def by blast
    then show ?thesis using cmp_func_zero [OF agrees_key(1) [OF a y] k] agrees_key(2) [OF a y] by simp
  qed
  moreover from obj_table.retrieve_ok [OF C' k] obtain y where
      "OPENSSL_lh_retrieve (lh_ASN1_OBJECT_call_hash_func ?h) (lh_ASN1_OBJECT_call_cmp_func ?h) lh stack = Some y"
      "found_in (lh_ASN1_OBJECT_call_cmp_func ?h f) (lh_set C) stack y" by blast
  ultimately show ?thesis unfolding found_in_def by (auto simp: added_def Some lh_ASN1_OBJECT_retrieve_def)
qed

text \<open>The number that a search in an array of built-in objects ends with.\<close>

definition listed :: "nat list \<Rightarrow> (nat \<Rightarrow> bool) \<Rightarrow> int \<Rightarrow> bool" where
  "listed ks P n \<longleftrightarrow> (\<exists>k\<in>set ks. P k \<and> n = int k) \<or> (n = NID_undef \<and> (\<forall>k\<in>set ks. \<not> P k))"

lemma builtin_nid_eq:
  assumes "builtins_ok T st" "k \<in> {1..<965}" "o_nid (builtin T st k) = int k"
  shows "builtin_nid T st (Some k) = Some (int k)"
  unfolding builtin_nid_def option.case builtin_at(1) [OF assms(1,2)] bind.bind_lunit
  by (metis builtin_at(2) [OF assms(1,2)] bind.bind_lunit assms(3))

lemma search_listed:
  assumes "builtins_ok T st" "\<forall>k\<in>set ks. k \<in> {1..<965} \<and> o_nid (builtin T st k) = int k"
    "(\<exists>k\<in>set ks. P k \<and> r = Some (Some k)) \<or> (\<forall>k\<in>set ks. \<not> P k) \<and> r = Some None"
  shows "\<exists>n. r \<bind> builtin_nid T st = Some n \<and> listed ks P n"
  using assms(3)
proof (elim disjE bexE conjE)
  fix k assume k: "k \<in> set ks" "P k" "r = Some (Some k)"
  then have "builtin_nid T st (Some k) = Some (int k)" using builtin_nid_eq [OF assms(1)] assms(2) by blast
  with k show ?thesis by (auto simp: listed_def)
qed (auto simp: listed_def builtin_nid_def)

lemma builtins_D:
  assumes "builtins_ok T st"
  shows "\<forall>k\<in>set (kNIDsInOIDOrder T). k \<in> {1..<965} \<and> o_nid (builtin T st k) = int k"
    "\<forall>k\<in>set (kNIDsInShortNameOrder T). k \<in> {1..<965} \<and> o_nid (builtin T st k) = int k \<and> terminated (o_sn (builtin T st k))"
    "\<forall>k\<in>set (kNIDsInLongNameOrder T). k \<in> {1..<965} \<and> o_nid (builtin T st k) = int k \<and> terminated (o_ln (builtin T st k))"
    "sorted_wrt (\<lambda>a b. \<not> cstr (bytes_at (o_sn (builtin T st b))) < cstr (bytes_at (o_sn (builtin T st a)))) (kNIDsInShortNameOrder T)"
    "sorted_wrt (\<lambda>a b. \<not> cstr (bytes_at (o_ln (builtin T st b))) < cstr (bytes_at (o_ln (builtin T st a)))) (kNIDsInLongNameOrder T)"
  using assms unfolding builtins_ok_def by blast+

text \<open>A key on the stack leaves the built-in objects as they were.\<close>

lemma builtin_not_stack:
  assumes "builtins_ok T st" "objects_ok stack st" "k \<in> {1..<965}" shows "kObjects T (k - 1) \<noteq> stack"
  using builtin_at(2) [OF assms(1,3)] assms(2) by (auto simp: objects_ok_def)

lemma builtins_ok_stack:
  assumes "builtins_ok T st" "objects_ok stack st"
  shows "builtins_ok T (st\<lparr>objs := (objs st)(stack \<mapsto> x)\<rparr>)"
proof -
  have b: "objs (st\<lparr>objs := (objs st)(stack \<mapsto> x)\<rparr>) (kObjects T (k - 1)) = objs st (kObjects T (k - 1))" if "k \<in> {1..<965}" for k
    using builtin_not_stack [OF assms that] by simp
  have srt: "sorted_wrt (\<lambda>a b. R (builtin T (st\<lparr>objs := (objs st)(stack \<mapsto> x)\<rparr>) a) (builtin T (st\<lparr>objs := (objs st)(stack \<mapsto> x)\<rparr>) b)) d"
    if "sorted_wrt (\<lambda>a b. R (builtin T st a) (builtin T st b)) d" "\<forall>k\<in>set d. k \<in> {1..<965}" for R d
    using that(1) by (rule sorted_wrt_mono_rel [rotated]) (use that(2) b in \<open>simp del: objects.simps\<close>)
  show ?thesis unfolding builtins_ok_def
    by (intro conjI ballI srt) (use assms(1) b in \<open>simp_all only: builtins_ok_def simp_thms\<close>)
qed

lemma cbs_search:
  assumes "builtins_ok T st" "objects_ok stack st" "cbs_ok c" "cbs_len c \<le> INT_MAX_nat"
    "none_added FN_data st (by_data st) (0, cbs_bytes c)"
  shows "\<exists>n. OBJ_cbs2nid T stack c st = Some n \<and> listed (kNIDsInOIDOrder T) (\<lambda>k. enc (builtin T st k) = cbs_bytes c) n"
proof -
  let ?x = "\<lparr>o_sn = None, o_ln = None, o_nid = 0, o_length = int (CBS_len c), o_data = Some (CBS_data c), o_flags = 0\<rparr>"
  let ?st = "st\<lparr>objs := (objs st)(stack \<mapsto> ?x)\<rparr>"
  let ?P = "\<lambda>k. enc (builtin T st k) = cbs_bytes c"
  have x: "has_key FN_data ?x" "key_val FN_data ?x = (0, cbs_bytes c)" "enc ?x = cbs_bytes c"
    using assms(3,4) by (simp_all add: has_key_def key_val_def enc_def bytes_at_def CBS_len_def CBS_data_def cbs_ok_def cbs_bytes_def)
  have t: "table_ok FN_data (objs st) (by_data st)" using assms(2) by (simp add: objects_ok_def)
  have a: "added (by_data st) ((objs st)(stack \<mapsto> ?x)) stack = Some 0"
    by (rule added_none [OF assms(2) t _ x(1)]) (simp only: x(2) assms(5))
  have b: "builtins_ok T ?st" by (rule builtins_ok_stack [OF assms(1,2)])
  have e: "enc (builtin T ?st k) = enc (builtin T st k)" if "k \<in> set (kNIDsInOIDOrder T)" for k
    using builtin_not_stack [OF assms(1,2)] builtins_D(1) [OF assms(1)] that by simp
  let ?r = "c_bsearch (obj_cmp T ?st ?x) (kNIDsInOIDOrder T) 0 (length (kNIDsInOIDOrder T))"
  have "(\<exists>k\<in>set (kNIDsInOIDOrder T). enc (builtin T ?st k) = cbs_bytes c \<and> ?r = Some (Some k)) \<or>
      (\<forall>k\<in>set (kNIDsInOIDOrder T). enc (builtin T ?st k) \<noteq> cbs_bytes c) \<and> ?r = Some None"
    using oid_search [OF b x(1)] unfolding x(3) .
  from search_listed [OF b builtins_D(1) [OF b] this] obtain n where
      n: "?r \<bind> builtin_nid T ?st = Some n" "listed (kNIDsInOIDOrder T) (\<lambda>k. enc (builtin T ?st k) = cbs_bytes c) n" by blast
  have "stack \<noteq> 0" using assms(2) by (simp add: objects_ok_def)
  then have "OBJ_cbs2nid T stack c st = ?r \<bind> builtin_nid T ?st"
    using a assms(4) by (simp add: OBJ_cbs2nid_def OBJ_obj2nid_def CBS_len_def)
  moreover have "listed (kNIDsInOIDOrder T) ?P n" using n(2) e by (auto simp: listed_def)
  ultimately show ?thesis using n(1) by metis
qed

lemma name_cmp_eq:
  assumes "builtins_ok T st" "k \<in> {1..<965}"
  shows "short_name_cmp T st s k = Some (strcmp s (bytes_at (o_sn (builtin T st k))))"
    "long_name_cmp T st s k = Some (strcmp s (bytes_at (o_ln (builtin T st k))))"
  unfolding short_name_cmp_def long_name_cmp_def builtin_at(1) [OF assms] bind.bind_lunit
  by (metis builtin_at(2) [OF assms] bind.bind_lunit)+

lemma name_searches:
  assumes "builtins_ok T st" "objects_ok stack st" "0 \<in> set s"
  shows "none_added FN_short_name st (by_short_name st) (0, cstr s) \<Longrightarrow> \<exists>n. OBJ_sn2nid T stack junk s st = Some n \<and>
      listed (kNIDsInShortNameOrder T) (\<lambda>k. cstr (bytes_at (o_sn (builtin T st k))) = cstr s) n"
    "none_added FN_long_name st (by_long_name st) (0, cstr s) \<Longrightarrow> \<exists>n. OBJ_ln2nid T stack junk s st = Some n \<and>
      listed (kNIDsInLongNameOrder T) (\<lambda>k. cstr (bytes_at (o_ln (builtin T st k))) = cstr s) n"
proof -
  note D = builtins_D [OF assms(1)]
  have t: "table_ok FN_short_name (objs st) (by_short_name st)" "table_ok FN_long_name (objs st) (by_long_name st)"
    using assms(2) by (simp_all add: objects_ok_def)
  show "\<exists>n. OBJ_sn2nid T stack junk s st = Some n \<and>
      listed (kNIDsInShortNameOrder T) (\<lambda>k. cstr (bytes_at (o_sn (builtin T st k))) = cstr s) n"
    if "none_added FN_short_name st (by_short_name st) (0, cstr s)"
  proof -
    have "added (by_short_name st) ((objs st)(stack \<mapsto> junk\<lparr>o_sn := Some s\<rparr>)) stack = Some 0"
      by (rule added_none [OF assms(2) t(1)])
        (use that assms(3) in \<open>simp_all add: key_val_def has_key_def terminated_def bytes_at_def\<close>)
    then have "OBJ_sn2nid T stack junk s st = c_bsearch (short_name_cmp T st s) (kNIDsInShortNameOrder T) 0
        (length (kNIDsInShortNameOrder T)) \<bind> builtin_nid T st"
      by (simp add: OBJ_sn2nid_def Let_def)
    moreover have "\<forall>k\<in>set (kNIDsInShortNameOrder T). short_name_cmp T st s k = Some (strcmp s (bytes_at (o_sn (builtin T st k)))) \<and>
        terminated (o_sn (builtin T st k))" using name_cmp_eq(1) [OF assms(1)] D(2) by blast
    ultimately show ?thesis
      using search_listed [OF assms(1) _ name_search [OF _ assms(3) D(4)]] D(2) by auto
  qed
  show "\<exists>n. OBJ_ln2nid T stack junk s st = Some n \<and>
      listed (kNIDsInLongNameOrder T) (\<lambda>k. cstr (bytes_at (o_ln (builtin T st k))) = cstr s) n"
    if "none_added FN_long_name st (by_long_name st) (0, cstr s)"
  proof -
    have "added (by_long_name st) ((objs st)(stack \<mapsto> junk\<lparr>o_ln := Some s\<rparr>)) stack = Some 0"
      by (rule added_none [OF assms(2) t(2)])
        (use that assms(3) in \<open>simp_all add: key_val_def has_key_def terminated_def bytes_at_def\<close>)
    then have "OBJ_ln2nid T stack junk s st = c_bsearch (long_name_cmp T st s) (kNIDsInLongNameOrder T) 0
        (length (kNIDsInLongNameOrder T)) \<bind> builtin_nid T st"
      by (simp add: OBJ_ln2nid_def Let_def)
    moreover have "\<forall>k\<in>set (kNIDsInLongNameOrder T). long_name_cmp T st s k = Some (strcmp s (bytes_at (o_ln (builtin T st k)))) \<and>
        terminated (o_ln (builtin T st k))" using name_cmp_eq(2) [OF assms(1)] D(3) by blast
    ultimately show ?thesis
      using search_listed [OF assms(1) _ name_search [OF _ assms(3) D(5)]] D(3) by auto
  qed
qed

lemma nid2obj_builtin:
  assumes "builtins_ok T st" "k \<in> {1..<965}"
  shows "OBJ_nid2obj T stack junk (int k) st = Some (if o_nid (builtin T st k) = 0 then 0 else kObjects T (k - 1))"
  using builtin_at(1,3) [OF assms] assms(2) unfolding OBJ_nid2obj_def
  by (subst builtin_at(1) [OF assms], subst bind.bind_lunit, subst builtin_at(2) [OF assms]) auto

lemma found_name:
  assumes "builtins_ok T st"
    "listed (kNIDsInShortNameOrder T) (\<lambda>k. cstr (bytes_at (o_sn (builtin T st k))) = cstr s) n" "n \<noteq> NID_undef"
  shows "\<exists>t. OBJ_nid2sn T stack junk n st = Some (Some t) \<and> cstr t = cstr s"
proof -
  from assms(2,3) obtain k where k: "k \<in> set (kNIDsInShortNameOrder T)" "cstr (bytes_at (o_sn (builtin T st k))) = cstr s" "n = int k"
    unfolding listed_def by blast
  with builtins_D(2) [OF assms(1)] have r: "k \<in> {1..<965}" "o_nid (builtin T st k) = int k" "terminated (o_sn (builtin T st k))"
    by blast+
  then obtain t where t: "o_sn (builtin T st k) = Some t" by (auto simp: terminated_def split: option.splits)
  have "o_nid (builtin T st k) \<noteq> 0" using r(1,2) by simp
  then have o: "OBJ_nid2obj T stack junk n st = Some (kObjects T (k - 1))"
    unfolding k(3) nid2obj_builtin [OF assms(1) r(1)] by simp
  from builtin_at(2) [OF assms(1) r(1)] obtain x where x: "objs st (kObjects T (k - 1)) = Some x" "builtin T st k = x" by blast
  then have "OBJ_nid2sn T stack junk n st = Some (Some t)"
    using builtin_at(3) [OF assms(1) r(1)] t by (simp add: OBJ_nid2sn_def o)
  with t k(2) show ?thesis by (simp add: bytes_at_def)
qed

section \<open>Property\<close>

text \<open>
  (C17) The lookups find the built-in objects.  When no added object has the key, the lookup by encoding, by short
  name and by long name returns the number of the built-in object with that encoding or name if the array
  for the search lists one, and \<open>NID_undef\<close> if not: the binary search misses nothing.  A number is turned
  back into its object, a null pointer for a number that is not in use, and the short name of the number
  found for a short name is that name.
\<close>

theorem builtin_objects_found:
  assumes "builtins_ok T st" "objects_ok stack st"
  shows "(cbs_ok c \<and> cbs_len c \<le> INT_MAX_nat \<and> none_added FN_data st (by_data st) (0, cbs_bytes c) \<longrightarrow>
      (\<exists>n. OBJ_cbs2nid T stack c st = Some n \<and>
        listed (kNIDsInOIDOrder T) (\<lambda>k. enc (builtin T st k) = cbs_bytes c) n)) \<and>
    (0 \<in> set s \<and> none_added FN_short_name st (by_short_name st) (0, cstr s) \<longrightarrow>
      (\<exists>n. OBJ_sn2nid T stack junk s st = Some n \<and>
        listed (kNIDsInShortNameOrder T) (\<lambda>k. cstr (bytes_at (o_sn (builtin T st k))) = cstr s) n \<and>
        (n \<noteq> NID_undef \<longrightarrow> (\<exists>t. OBJ_nid2sn T stack junk n st = Some (Some t) \<and> cstr t = cstr s)))) \<and>
    (0 \<in> set s \<and> none_added FN_long_name st (by_long_name st) (0, cstr s) \<longrightarrow>
      (\<exists>n. OBJ_ln2nid T stack junk s st = Some n \<and>
        listed (kNIDsInLongNameOrder T) (\<lambda>k. cstr (bytes_at (o_ln (builtin T st k))) = cstr s) n)) \<and>
    (1 \<le> k \<and> k < 965 \<longrightarrow>
      OBJ_nid2obj T stack junk (int k) st = Some (if o_nid (builtin T st k) = 0 then 0 else kObjects T (k - 1)))"
proof (intro conjI impI; elim conjE)
  assume "0 \<in> set s" "none_added FN_short_name st (by_short_name st) (0, cstr s)"
  from name_searches(1) [OF assms this, of junk] obtain n where
      n: "OBJ_sn2nid T stack junk s st = Some n" "listed (kNIDsInShortNameOrder T) (\<lambda>k. cstr (bytes_at (o_sn (builtin T st k))) = cstr s) n"
    by (elim exE conjE)
  show "\<exists>n. OBJ_sn2nid T stack junk s st = Some n \<and>
      listed (kNIDsInShortNameOrder T) (\<lambda>k. cstr (bytes_at (o_sn (builtin T st k))) = cstr s) n \<and>
      (n \<noteq> NID_undef \<longrightarrow> (\<exists>t. OBJ_nid2sn T stack junk n st = Some (Some t) \<and> cstr t = cstr s))"
    by (intro exI [of _ n] conjI impI n) (rule found_name [OF assms(1) n(2)])
next
  assume k: "1 \<le> k" "k < 965"
  show "OBJ_nid2obj T stack junk (int k) st = Some (if o_nid (builtin T st k) = 0 then 0 else kObjects T (k - 1))"
    by (rule nid2obj_builtin [OF assms(1)]) (use k in simp)
qed (rule cbs_search [OF assms] name_searches(2) [OF assms]; assumption)+

section \<open>Witness\<close>

text \<open>A table with the objects of \<open>rsadsi\<close> and \<open>pkcs\<close>, numbers 1 and 2, and other numbers not in use.\<close>

definition small_builtins :: builtins where
  "small_builtins = \<lparr>kObjects = (\<lambda>i. i + 10), kUndef = 2, kNIDsInOIDOrder = [1, 2],
     kNIDsInShortNameOrder = [2, 1], kNIDsInLongNameOrder = [1, 2]\<rparr>"

definition small_objects :: objects where
  "small_objects = \<lparr>objs = (\<lambda>p. if p < 10 then None
       else if p = 10 then Some \<lparr>o_sn = Some [114, 115, 0], o_ln = Some [82, 0], o_nid = 1, o_length = 2,
         o_data = Some [42, 3], o_flags = 0\<rparr>
       else if p = 11 then Some \<lparr>o_sn = Some [112, 0], o_ln = Some [82, 83, 0], o_nid = 2, o_length = 3,
         o_data = Some [42, 3, 1], o_flags = 0\<rparr>
       else Some \<lparr>o_sn = None, o_ln = None, o_nid = 0, o_length = 0, o_data = None, o_flags = 0\<rparr>),
     by_data = None, by_nid = None, by_short_name = None, by_long_name = None, next_nid = 965\<rparr>"

lemma small_builtin:
  "the (objs small_objects (kObjects small_builtins 0)) = \<lparr>o_sn = Some [114, 115, 0], o_ln = Some [82, 0], o_nid = 1, o_length = 2,
     o_data = Some [42, 3], o_flags = 0\<rparr>"
  "the (objs small_objects (kObjects small_builtins (Suc 0))) = \<lparr>o_sn = Some [112, 0], o_ln = Some [82, 83, 0], o_nid = 2, o_length = 3,
     o_data = Some [42, 3, 1], o_flags = 0\<rparr>"
  "3 \<le> k \<Longrightarrow> o_nid (builtin small_builtins small_objects k) = 0"
  "kNIDsInOIDOrder small_builtins = [1, 2]" "kNIDsInShortNameOrder small_builtins = [2, 1]"
  "kNIDsInLongNameOrder small_builtins = [1, 2]"
  by (simp_all add: small_builtins_def small_objects_def)

lemma small_ok: "builtins_ok small_builtins small_objects" "objects_ok 1 small_objects"
proof -
  have "kObjects small_builtins (k - 1) \<noteq> 0 \<and> objs small_objects (kObjects small_builtins (k - 1)) \<noteq> None \<and>
      (o_nid (builtin small_builtins small_objects k) = int k \<or> o_nid (builtin small_builtins small_objects k) = 0)"
    if "k \<in> {1..<965}" for k
  proof -
    consider "k = 1" | "k = 2" | "3 \<le> k" using \<open>k \<in> {1..<965}\<close> by fastforce
    then have "o_nid (builtin small_builtins small_objects k) = int k \<or> o_nid (builtin small_builtins small_objects k) = 0"
      using small_builtin(3) [of k] by cases (simp_all add: small_builtin(1,2))
    then show ?thesis by (simp add: small_builtins_def small_objects_def)
  qed
  then show "builtins_ok small_builtins small_objects"
    unfolding builtins_ok_def by (simp add: small_builtin has_key_def terminated_def bytes_at_def enc_less_def enc_def cstr_def
      del: not_None_eq)
  show "objects_ok 1 small_objects" by (simp add: objects_ok_def small_objects_def table_ok_def)
qed

theorem builtin_objects_found_witness:
  "OBJ_cbs2nid small_builtins 1 (CBS_init [42, 3, 1] 3) small_objects = Some 2 \<and>
    OBJ_sn2nid small_builtins 1 blank_object [114, 115, 0] small_objects = Some 1 \<and>
    OBJ_ln2nid small_builtins 1 blank_object [83, 0] small_objects = Some 0 \<and>
    OBJ_nid2obj small_builtins 1 blank_object 7 small_objects = Some 0"
proof -
  have n: "none_added f small_objects None v" for f v by (simp add: none_added_def in_table_def)
  have t: "by_data small_objects = None" "by_short_name small_objects = None" "by_long_name small_objects = None"
    by (simp_all add: small_objects_def)
  note B = builtin_objects_found [OF small_ok, THEN conjunct1] builtin_objects_found [OF small_ok, THEN conjunct2, THEN conjunct1]
    builtin_objects_found [OF small_ok, THEN conjunct2, THEN conjunct2, THEN conjunct1]
    builtin_objects_found [OF small_ok, THEN conjunct2, THEN conjunct2, THEN conjunct2]
  note E = small_builtin n t listed_def enc_def bytes_at_def cstr_def
  have "cbs_ok (CBS_init [42, 3, 1] 3)" "cbs_len (CBS_init [42, 3, 1] 3) \<le> INT_MAX_nat"
      "cbs_bytes (CBS_init [42, 3, 1] 3) = [42, 3, 1]" by simp_all
  then have "OBJ_cbs2nid small_builtins 1 (CBS_init [42, 3, 1] 3) small_objects = Some 2"
    using B(1) [of "CBS_init [42, 3, 1] 3"] by (simp add: E)
  moreover have "OBJ_sn2nid small_builtins 1 blank_object [114, 115, 0] small_objects = Some 1"
    using B(2) [of "[114, 115, 0]" blank_object] by (auto simp: E)
  moreover have "OBJ_ln2nid small_builtins 1 blank_object [83, 0] small_objects = Some 0"
    using B(3) [of "[83, 0]" blank_object] by (simp add: E)
  moreover have "OBJ_nid2obj small_builtins 1 blank_object 7 small_objects = Some 0"
    using B(4) [of 7 blank_object] small_builtin(3) [of 7] by simp
  ultimately show ?thesis by blast
qed

end
