(* ===== verification/Objects_Der.thy ===== *)
theory Objects_Der
  imports Bio_Fifo Objects_Search
begin

text \<open>
  Objects on the wire: the rest of \<open>crypto/asn1/a_object.c\<close>, and \<open>OBJ_nid2cbb\<close> of \<open>crypto/obj/obj.c\<close>.  They
  connect the tables of objects with the readers and builders of \<open>crypto/bytestring\<close>, and with BIOs.

  A pointer \<open>*inp\<close> into the input is the list of bytes from there on.  A parameter \<open>out\<close> is \<open>None\<close> for a null
  pointer and else \<open>Some\<close> of the object that \<open>*out\<close> points to.
\<close>

section \<open>Definitions\<close>

definition OBJ_get_undef :: "builtins \<Rightarrow> ptr" where
  "OBJ_get_undef T = kUndef T"

text \<open>The calls that add an element with given contents to the builder \<open>d\<close>.\<close>

definition add_object_bytes :: "(nat \<Rightarrow> u8 list option) \<Rightarrow> nat \<Rightarrow> u8 list \<Rightarrow> nat \<Rightarrow> (cbb, unit) op" where
  "add_object_bytes malloc d bs n =
    op_bind (CBB_add_asn1 malloc d CBS_ASN1_OBJECT) (\<lambda>_.
      op_bind (CBB_add_bytes malloc (Suc d) bs n) (\<lambda>_. CBB_flush malloc d))"

definition OBJ_nid2cbb ::
  "builtins \<Rightarrow> (nat \<Rightarrow> u8 list option) \<Rightarrow> ptr \<Rightarrow> asn1_object \<Rightarrow> nat \<Rightarrow> int \<Rightarrow> objects \<Rightarrow> cbb \<Rightarrow> (unit option \<times> cbb) option" where
  "OBJ_nid2cbb T malloc stack junk d nid st out = do {
     obj \<leftarrow> OBJ_nid2obj T stack junk nid st;
     if obj = 0 then Some (None, out)
     else do {
       x \<leftarrow> objs st obj;
       Some (add_object_bytes malloc d (bytes_at (o_data x)) (size_of_int (o_length x)) out) } }"

text \<open>The result is that of \<open>CBB_finish_i2d\<close>: the length or -1, and what \<open>*outp\<close> points to.\<close>

definition i2d_ASN1_OBJECT ::
  "(nat \<Rightarrow> u8 list option) \<Rightarrow> ptr \<Rightarrow> u8 list option option \<Rightarrow> objects \<Rightarrow> (int \<times> (u8 list option \<times> nat) option) option" where
  "i2d_ASN1_OBJECT malloc a outp st =
    (if a = 0 then Some (-1, None)
     else do {
       x \<leftarrow> objs st a;
       if o_length x \<le> 0 then Some (-1, None)
       else Some
        (case CBB_init malloc (sz_add (size_of_int (o_length x)) 2) of
           None \<Rightarrow> (-1, None)
         | Some cbb \<Rightarrow>
        (case op_bind (CBB_add_asn1 malloc 0 CBS_ASN1_OBJECT)
            (\<lambda>_. CBB_add_bytes malloc 1 (bytes_at (o_data x)) (size_of_int (o_length x))) cbb of
           (None, _) \<Rightarrow> (-1, None)
         | (Some _, cbb) \<Rightarrow> CBB_finish_i2d malloc outp cbb)) })"

definition c2i_ASN1_OBJECT ::
  "(nat \<Rightarrow> u8 list option) \<Rightarrow> (objects \<Rightarrow> ptr option) \<Rightarrow> ptr \<Rightarrow> ptr option \<Rightarrow> u8 list \<Rightarrow> int \<Rightarrow> objects \<Rightarrow>
    (ptr \<times> ptr option \<times> u8 list \<times> objects) option" where
  "c2i_ASN1_OBJECT malloc new_obj stack out inp len st =
    (if len < 0 then Some (0, out, inp, st)
     else if \<not> CBS_is_valid_asn1_oid (CBS_init inp (size_of_int len)) then Some (0, out, inp, st)
     else let (ret, st) = ASN1_OBJECT_create malloc new_obj stack NID_undef (Some inp) (size_of_int len) None None st
     in if ret = 0 then Some (0, out, inp, st)
     else case out of
         None \<Rightarrow> Some (ret, None, drop (size_of_int len) inp, st)
       | Some a \<Rightarrow> do { st \<leftarrow> ASN1_OBJECT_free a st; Some (ret, Some ret, drop (size_of_int len) inp, st) })"

definition d2i_ASN1_OBJECT ::
  "(nat \<Rightarrow> u8 list option) \<Rightarrow> (objects \<Rightarrow> ptr option) \<Rightarrow> ptr \<Rightarrow> ptr option \<Rightarrow> u8 list \<Rightarrow> int \<Rightarrow> objects \<Rightarrow>
    (ptr \<times> ptr option \<times> u8 list \<times> objects) option" where
  "d2i_ASN1_OBJECT malloc new_obj stack out inp len st =
    (if len < 0 then Some (0, out, inp, st)
     else case CBS_get_asn1 CBS_ASN1_OBJECT (CBS_init inp (size_of_int len)) of
         (None, _) \<Rightarrow> Some (0, out, inp, st)
       | (Some child, cbs) \<Rightarrow> do {
           (ret, out, contents, st) \<leftarrow> c2i_ASN1_OBJECT malloc new_obj stack out (CBS_data child) (int (CBS_len child)) st;
           if ret \<noteq> 0 then do { assert (CBS_data cbs = contents); Some (ret, out, CBS_data cbs, st) }
           else Some (ret, out, inp, st) })"

definition i2t_ASN1_OBJECT ::
  "builtins \<Rightarrow> (nat \<Rightarrow> u8 list option) \<Rightarrow> ptr \<Rightarrow> asn1_object \<Rightarrow> u8 list \<Rightarrow> int \<Rightarrow> ptr \<Rightarrow> objects \<Rightarrow> (u8 list \<times> int) option" where
  "i2t_ASN1_OBJECT T malloc stack junk buf buf_len a st = OBJ_obj2txt T malloc stack junk buf buf_len a False st"

definition write_str :: "nat option \<Rightarrow> u8 list \<Rightarrow> store \<Rightarrow> (int \<times> store) option" where
  "write_str bp str S = do {
     len \<leftarrow> c_strlen str;
     if len > INT_MAX_nat then Some (-1, S)
     else do {
       (r, S) \<leftarrow> BIO_write bp (Some str) (int len) S;
       Some (if r = int len then int len else -1, S) } }"

text \<open>\<open>buf\<close> is the local array of 80 bytes before it is set.  The strings are \<open>NULL\<close> and \<open><INVALID>\<close>.\<close>

definition null_text :: "u8 list" where "null_text = [78, 85, 76, 76, 0]"
definition invalid_text :: "u8 list" where "invalid_text = [60, 73, 78, 86, 65, 76, 73, 68, 62, 0]"

definition i2a_ASN1_OBJECT ::
  "builtins \<Rightarrow> (nat \<Rightarrow> u8 list option) \<Rightarrow> ptr \<Rightarrow> asn1_object \<Rightarrow> u8 list \<Rightarrow> nat option \<Rightarrow> ptr \<Rightarrow> objects \<Rightarrow> store \<Rightarrow>
    (int \<times> store) option" where
  "i2a_ASN1_OBJECT T malloc stack junk buf bp a st S = do {
     no_data \<leftarrow> (if a = 0 then Some True else do { x \<leftarrow> objs st a; Some (o_data x = None) });
     if no_data then write_str bp null_text S
     else do {
       (buf, len) \<leftarrow> i2t_ASN1_OBJECT T malloc stack junk buf 80 a st;
       if len > 79 then
         (case OPENSSL_malloc malloc (size_of_int (len + 1)) of
            None \<Rightarrow> Some (-1, S)
          | Some allocated \<Rightarrow> do {
              (allocated, len) \<leftarrow> i2t_ASN1_OBJECT T malloc stack junk allocated (len + 1) a st;
              write_str bp (if len \<le> 0 then invalid_text else allocated) S })
       else write_str bp (if len \<le> 0 then invalid_text else buf) S } }"

section \<open>The element of an object\<close>

lemma tag_object_ok: "CBS_ASN1_OBJECT AND NOT CBS_ASN1_CONSTRUCTED \<noteq> 0"
  by simp

lemma adds_object_bytes:
  assumes "malloc_ok malloc" "n \<le> length bs" "n \<le> 0xfffffffe"
  shows "adds malloc d (add_object_bytes malloc d bs n) (Some (der_element CBS_ASN1_OBJECT (take n bs)))"
  unfolding add_object_bytes_def
  by (rule adds_asn1_element [OF assms(1) adds_adds_at [OF adds_bytes [OF assms(1)]]]) (use assms in simp_all)

interpretation asn1_object_bytes: cbb_codec "CBS_get_asn1 CBS_ASN1_OBJECT" cbs_bytes
  "der_element CBS_ASN1_OBJECT" "\<lambda>c. length c < 2 ^ 32"
  "\<lambda>malloc d c. add_object_bytes malloc d c (length c)" "\<lambda>c. length c \<le> 0xfffffffe"
proof (intro cbb_codec.intro cbb_codec_axioms.intro codec_asn1 tag_object_ok)
  fix malloc d and v :: "u8 list" assume "malloc_ok malloc" "length v \<le> 0xfffffffe"
  then show "adds malloc d (add_object_bytes malloc d v (length v)) (Some (der_element CBS_ASN1_OBJECT v))"
    using adds_object_bytes [of malloc "length v" v d] by simp
qed simp

abbreviation object_der :: "u8 list \<Rightarrow> u8 list" where
  "object_der c \<equiv> der_element CBS_ASN1_OBJECT c"

lemma length_object_der: "length c < 2 ^ 32 \<Longrightarrow> length (object_der c) \<le> length c + 15"
proof -
  assume c: "length c < 2 ^ 32"
  have "length (be_min (length c)) \<le> 8" using c by (intro length_be_min) simp_all
  then show ?thesis using length_tag_bytes [of CBS_ASN1_OBJECT]
    by (auto simp: der_element_def der_header_def len_bytes_def)
qed

lemma object_bytes_written:
  assumes "malloc_ok malloc" "bytes_left malloc" "CBB_init malloc cap = Some cbb" "cap < SIZE_LIMIT"
    "n \<le> length bs" "n \<le> 0xfffffffe"
  obtains s where "add_object_bytes malloc 0 bs n cbb = (Some (), s)" "represents s (Builder (object_der (take n bs)) [])"
proof -
  have rep: "represents cbb (Builder [] [])" "b_can_resize cbb" using init_represents [OF assms(1,3,4)] by simp_all
  have B: "bld_flush 0 (Builder [] []) = Some (Builder [] [])" by (simp add: bld_flush_flushed)
  note A = adds_object_bytes [OF assms(1,5,6), of 0]
  have dn: "0 \<le> length (bld_frames (Builder [] []))" by simp
  obtain x s where x: "add_object_bytes malloc 0 bs n cbb = (x, s)" by fastforce
  have "x \<noteq> None"
  proof
    assume "x = None"
    then have no: "add_object_bytes malloc 0 bs n cbb = (None, s)" using x by simp
    have "\<not> room malloc cbb (bld_len (bld_append 0 (object_der (take n bs)) (Builder [] [])))"
      using adds_NoneD [OF A rep(1) dn FalseE no] B by simp
    moreover have "length (object_der (take n bs)) < 2 ^ 62"
    proof -
      have "length (object_der (take n bs)) \<le> length (take n bs) + 15" using assms(6) by (intro length_object_der) simp
      then show ?thesis using assms(5,6) by simp
    qed
    ultimately show False using rep(2) assms(2) by (fastforce simp: room_def bld_len_def bld_append_def bytes_left_def)
  qed
  then have yes: "add_object_bytes malloc 0 bs n cbb = (Some (), s)" using x by simp
  obtain B' y where "Some (object_der (take n bs)) = Some y" "bld_flush 0 (Builder [] []) = Some B'" "represents s (bld_append 0 y B')"
    using adds_SomeE [OF A rep(1) dn FalseE yes] .
  then have "represents s (Builder (object_der (take n bs)) [])" using B by (auto simp: bld_append_def)
  with yes show thesis by (rule that)
qed

lemma represented_bytes:
  assumes "represents s (Builder x [])"
  shows "b_len s = length x" "take (length x) (buf_bytes s) = x" "x \<noteq> [] \<Longrightarrow> \<exists>buf. b_buf s = Some buf \<and> take (length x) buf = x"
proof -
  have c: "children s = []" using represents_length [OF assms] by simp
  have ok: "cbb_ok s" using assms by (simp add: represents_def)
  have w: "written s = x" using assms by (simp add: represents_def c)
  show l: "b_len s = length x" using length_written [OF ok] w by simp
  show t: "take (length x) (buf_bytes s) = x" using w l by (simp add: written_def)
  show "\<exists>buf. b_buf s = Some buf \<and> take (length x) buf = x" if "x \<noteq> []"
    using t that by (cases "b_buf s") (simp_all add: buf_bytes_def)
qed

text \<open>\<open>i2d_ASN1_OBJECT\<close> writes the element into a new block.\<close>

lemma i2d_written:
  assumes "malloc_ok malloc" "bytes_left malloc" "objs st a = Some y" "a \<noteq> 0" "has_key FN_data y" "0 < o_length y"
    "length (object_der (enc y)) \<le> INT_MAX_nat" "o_length y \<le> int INT_MAX_nat"
  shows "\<exists>buf. i2d_ASN1_OBJECT malloc a (Some None) st = Some (int (length (object_der (enc y))), Some (Some buf, 0)) \<and>
    take (length (object_der (enc y))) buf = object_der (enc y)"
proof -
  define n where "n = nat (o_length y)"
  have n: "n \<le> length (bytes_at (o_data y))" "n \<le> INT_MAX_nat" "size_of_int (o_length y) = n"
    using assms(5,6,8) size_of_int_small by (simp_all add: has_key_def n_def)
  have e: "enc y = take n (bytes_at (o_data y))" by (simp add: enc_def n_def)
  have cap: "sz_add n 2 = n + 2" "n + 2 < SIZE_LIMIT" using n(2) by simp_all
  have "OPENSSL_malloc malloc (n + 2) \<noteq> None" using n(2) by (intro OPENSSL_malloc_left [OF assms(2)]) simp
  then obtain cbb where cbb: "CBB_init malloc (n + 2) = Some cbb" by (auto simp: CBB_init_def)
  have "n \<le> 0xfffffffe" using n(2) by simp
  from object_bytes_written [OF assms(1,2) cbb cap(2) n(1) this] obtain s where
      s: "add_object_bytes malloc 0 (bytes_at (o_data y)) n cbb = (Some (), s)" "represents s (Builder (object_der (enc y)) [])"
    unfolding e by blast
  obtain x s1 where s1: "op_bind (CBB_add_asn1 malloc 0 CBS_ASN1_OBJECT) (\<lambda>_. CBB_add_bytes malloc 1 (bytes_at (o_data y)) n) cbb = (x, s1)"
    by fastforce
  have ab: "add_object_bytes malloc 0 (bytes_at (o_data y)) n cbb = op_bind (\<lambda>s. (x, s1)) (\<lambda>_. CBB_flush malloc 0) cbb"
    unfolding add_object_bytes_def op_bind_assoc [symmetric] using s1 by (simp add: op_bind_def)
  then have x: "x = Some ()" "CBB_flush malloc 0 s1 = (Some (), s)" using s(1) by (cases x; simp add: op_bind_def)+
  have "object_der (enc y) \<noteq> []" by simp
  then obtain buf where buf: "b_buf s = Some buf" "take (length (object_der (enc y))) buf = object_der (enc y)"
    using represented_bytes(3) [OF s(2)] by blast
  have "CBB_finish malloc 0 False s1 = (Some (Some buf, length (object_der (enc y))), s\<lparr>b_buf := None\<rparr>)"
    using x(2) buf(1) represented_bytes(1) [OF s(2)] by (simp add: CBB_finish_def op_bind_def op_check_def)
  then have "CBB_finish_i2d malloc (Some None) s1 = (int (length (object_der (enc y))), Some (Some buf, 0))"
    using assms(7) by (simp add: CBB_finish_i2d_def)
  then show ?thesis using assms(3,4,6) n(3) cap(1) cbb s1 x(1) buf(2) by (simp add: i2d_ASN1_OBJECT_def)
qed

section \<open>Reading an object\<close>

text \<open>The contents of an object identifier: numbers in base 128, of any size.\<close>

definition oid_contents :: "u8 list \<Rightarrow> bool" where
  "oid_contents c \<longleftrightarrow> (\<exists>ms. ms \<noteq> [] \<and> c = concat (map b128 ms))"

lemma oid_contents_nonempty: "oid_contents c \<Longrightarrow> c \<noteq> []"
  by (auto simp: oid_contents_def b128_def)

lemma create_ok:
  assumes "malloc_ok malloc" "new_obj_ok stack new_obj" "stack \<noteq> 0" "0 < n" "n \<le> length inp"
    "ASN1_OBJECT_create malloc new_obj stack NID_undef (Some inp) n None None st = (r, st')"
  shows "r = 0 \<and> st' = st \<or> r \<noteq> 0 \<and> n \<le> INT_MAX_nat \<and> (\<exists>y. st' = st\<lparr>objs := (objs st)(r \<mapsto> y)\<rparr> \<and> objs st r = None \<and>
      o_nid y = NID_undef \<and> o_length y = int n \<and> enc y = take n inp \<and> has_key FN_data y)"
    "bytes_left malloc \<Longrightarrow> new_obj st \<noteq> None \<Longrightarrow> n \<le> INT_MAX_nat \<Longrightarrow> r \<noteq> 0"
proof -
  let ?ob = "\<lparr>o_sn = None, o_ln = None, o_nid = NID_undef, o_length = int n, o_data = Some inp, o_flags = DYNAMIC_ALL\<rparr>"
  have fl: "o_flags ?ob AND ASN1_OBJECT_FLAG_DYNAMIC \<noteq> 0"
    by (simp add: DYNAMIC_ALL_def ASN1_OBJECT_FLAG_DYNAMIC_def ASN1_OBJECT_FLAG_DYNAMIC_STRINGS_def ASN1_OBJECT_FLAG_DYNAMIC_DATA_def)
  show "r = 0 \<and> st' = st \<or> r \<noteq> 0 \<and> n \<le> INT_MAX_nat \<and> (\<exists>y. st' = st\<lparr>objs := (objs st)(r \<mapsto> y)\<rparr> \<and> objs st r = None \<and>
      o_nid y = NID_undef \<and> o_length y = int n \<and> enc y = take n inp \<and> has_key FN_data y)"
  proof (cases "n \<le> INT_MAX_nat")
    case True
    have k: "has_key FN_data ?ob" "name_fits (o_sn ?ob)" "name_fits (o_ln ?ob)"
      using True assms(5) by (simp_all add: has_key_def name_fits_def bytes_at_def)
    have d: "dup_object malloc new_obj stack ?ob st = (r, st')" using assms(6) True by (simp add: ASN1_OBJECT_create_def)
    from dup_object_ok [OF assms(1,2) fl k d] show ?thesis
      using True assms(4) by (auto simp: enc_def bytes_at_def)
  next
    case False
    then show ?thesis using assms(6) by (simp add: ASN1_OBJECT_create_def)
  qed
  show "r \<noteq> 0" if "bytes_left malloc" "new_obj st \<noteq> None" "n \<le> INT_MAX_nat"
  proof -
    from that(2) obtain q where q: "new_obj st = Some q" by blast
    then have "q \<noteq> 0" using assms(2) unfolding new_obj_ok_def by blast
    have "fst (dup_object malloc new_obj stack ?ob st) \<noteq> 0"
      by (rule dup_object_left [where q = q]) (use that(1,3) q \<open>q \<noteq> 0\<close> assms(3) in simp_all)
    then show ?thesis using assms(6) that(3) by (simp add: ASN1_OBJECT_create_def)
  qed
qed

lemma c2i_read:
  assumes "malloc_ok malloc" "new_obj_ok stack new_obj" "stack \<noteq> 0" "n \<le> length inp" "n < SIZE_LIMIT"
  obtains r inp' st' where "c2i_ASN1_OBJECT malloc new_obj stack None inp (int n) st = Some (r, None, inp', st')"
    "r = 0 \<Longrightarrow> st' = st \<and> inp' = inp"
    "r \<noteq> 0 \<Longrightarrow> oid_contents (take n inp) \<and> inp' = drop n inp \<and> n \<le> INT_MAX_nat \<and>
      (\<exists>y. st' = st\<lparr>objs := (objs st)(r \<mapsto> y)\<rparr> \<and> objs st r = None \<and>
      o_nid y = NID_undef \<and> o_length y = int n \<and> enc y = take n inp \<and> has_key FN_data y)"
    "oid_contents (take n inp) \<Longrightarrow> bytes_left malloc \<Longrightarrow> new_obj st \<noteq> None \<Longrightarrow> n \<le> INT_MAX_nat \<Longrightarrow> r \<noteq> 0"
proof -
  have sz: "size_of_int (int n) = n" using assms(5) by (simp add: size_of_int_small)
  have ok: "cbs_ok (CBS_init inp n)" using assms(4,5) by simp
  have v: "CBS_is_valid_asn1_oid (CBS_init inp n) \<longleftrightarrow> oid_contents (take n inp)"
    unfolding valid_oid_exact [OF ok] oid_contents_def using assms(4) by simp
  show thesis
  proof (cases "oid_contents (take n inp)")
    case False
    show thesis by (rule that [of 0 inp st]) (use False in \<open>simp_all add: c2i_ASN1_OBJECT_def sz v\<close>)
  next
    case True
    have n: "0 < n" using oid_contents_nonempty [OF True] by auto
    obtain r st' where c: "ASN1_OBJECT_create malloc new_obj stack NID_undef (Some inp) n None None st = (r, st')" by fastforce
    note C = create_ok [OF assms(1-3) n assms(4) c]
    show thesis
      by (rule that [of r "if r = 0 then inp else drop n inp" st'])
        (use True C c in \<open>auto simp: c2i_ASN1_OBJECT_def sz v\<close>)
  qed
qed

lemma d2i_read:
  assumes "malloc_ok malloc" "new_obj_ok stack new_obj" "stack \<noteq> 0" "n \<le> length inp" "n < SIZE_LIMIT"
  obtains r inp' st' where "d2i_ASN1_OBJECT malloc new_obj stack None inp (int n) st = Some (r, None, inp', st')"
    "r = 0 \<Longrightarrow> st' = st \<and> inp' = inp"
    "r \<noteq> 0 \<Longrightarrow> \<exists>c y. oid_contents c \<and> length c \<le> INT_MAX_nat \<and> (\<exists>rest. take n inp = object_der c @ rest) \<and>
      inp = object_der c @ inp' \<and> st' = st\<lparr>objs := (objs st)(r \<mapsto> y)\<rparr> \<and> objs st r = None \<and>
      o_nid y = NID_undef \<and> o_length y = int (length c) \<and> enc y = c \<and> has_key FN_data y"
    "bytes_left malloc \<Longrightarrow> new_obj st \<noteq> None \<Longrightarrow>
      \<exists>c rest. oid_contents c \<and> length c \<le> INT_MAX_nat \<and> take n inp = object_der c @ rest \<Longrightarrow> r \<noteq> 0"
proof -
  have sz: "size_of_int (int n) = n" using assms(5) by (simp add: size_of_int_small)
  let ?s = "CBS_init inp n"
  have ok: "cbs_ok ?s" and b: "cbs_bytes ?s = take n inp" using assms(4,5) by simp_all
  obtain x t where g: "CBS_get_asn1 CBS_ASN1_OBJECT ?s = (x, t)" by fastforce
  show thesis
  proof (cases x)
    case None
    have no: "\<not> (oid_contents c \<and> length c \<le> INT_MAX_nat \<and> take n inp = object_der c @ rest)" for c rest
    proof
      assume "oid_contents c \<and> length c \<le> INT_MAX_nat \<and> take n inp = object_der c @ rest"
      then have "length c < 2 ^ 32" "cbs_bytes ?s = object_der c @ rest" using b by simp_all
      from get_asn1_complete [OF ok tag_object_ok this] g None show False by (metis option.distinct(1) prod.inject)
    qed
    show thesis by (rule that [of 0 inp st]) (use no g None in \<open>simp_all add: d2i_ASN1_OBJECT_def sz\<close>)
  next
    case (Some child)
    from g Some obtain c where c: "length c < 2 ^ 32" "cbs_bytes ?s = object_der c @ cbs_bytes t"
        "t = cbs_adv (length (object_der c)) ?s" "child = content_at ?s CBS_ASN1_OBJECT (length c)"
      using get_asn1_iff [OF ok] by blast
    let ?h = "length (der_header CBS_ASN1_OBJECT (length c))"
    have d: "object_der c = der_header CBS_ASN1_OBJECT (length c) @ c" by (simp add: der_element_def)
    have tk: "take n inp = object_der c @ cbs_bytes t" using b c(2) by simp
    have "length (object_der c @ cbs_bytes t) = n" unfolding tk [symmetric] using assms(4) by simp
    then have l: "length (object_der c) \<le> n" by simp
    have inp: "inp = object_der c @ drop (length (object_der c)) inp"
      using tk l by (metis append_take_drop_id append_eq_conv_conj take_take min.absorb1)
    then have dr: "drop ?h inp = c @ drop (length (object_der c)) inp" unfolding d by (metis append_assoc append_eq_conv_conj)
    have ch: "CBS_data child = drop ?h inp" "cbs_len child = length c"
      by (simp_all add: c(4) content_at_def CBS_data_def CBS_len_def CBS_init_def)
    have le: "length c \<le> length (drop ?h inp)" "take (length c) (drop ?h inp) = c"
      "drop (length c) (drop ?h inp) = drop (length (object_der c)) inp"
      unfolding dr by simp_all
    have "length c < SIZE_LIMIT" using c(1) by simp
    from c2i_read [OF assms(1-3) le(1) this] obtain r inp' st' where
        i: "c2i_ASN1_OBJECT malloc new_obj stack None (drop ?h inp) (int (length c)) st = Some (r, None, inp', st')"
        "r = 0 \<longrightarrow> st' = st \<and> inp' = drop ?h inp"
        "r \<noteq> 0 \<longrightarrow> oid_contents c \<and> inp' = drop (length (object_der c)) inp \<and> length c \<le> INT_MAX_nat \<and>
          (\<exists>y. st' = st\<lparr>objs := (objs st)(r \<mapsto> y)\<rparr> \<and> objs st r = None \<and>
          o_nid y = NID_undef \<and> o_length y = int (length c) \<and> enc y = c \<and> has_key FN_data y)"
        "oid_contents c \<and> bytes_left malloc \<and> new_obj st \<noteq> None \<and> length c \<le> INT_MAX_nat \<longrightarrow> r \<noteq> 0"
      unfolding le(2,3) by metis
    have td: "CBS_data t = drop (length (object_der c)) inp" by (simp add: c(3) cbs_adv_def CBS_data_def CBS_init_def)
    have e: "d2i_ASN1_OBJECT malloc new_obj stack None inp (int n) st = Some (r, None, if r = 0 then inp else CBS_data t, st')"
      using i(1,3) g Some by (simp add: d2i_ASN1_OBJECT_def sz ch td assert_def)
    have yes: "oid_contents c \<and> length c \<le> INT_MAX_nat"
      if "oid_contents c' \<and> length c' \<le> INT_MAX_nat \<and> take n inp = object_der c' @ rest" for c' rest
    proof -
      from that have "length c' < 2 ^ 32" "cbs_bytes ?s = object_der c' @ rest" using b by simp_all
      from get_asn1_complete [OF ok tag_object_ok this] g Some obtain "cbs_bytes child = c'" by (metis option.inject prod.inject)
      moreover have "cbs_bytes child = c" using content_at_bytes(1) [OF ok c(2)] c(4) by simp
      ultimately show ?thesis using that by simp
    qed
    show thesis
    proof (rule that [OF e])
      show "st' = st \<and> (if r = 0 then inp else CBS_data t) = inp" if "r = 0" using i(2) that by simp
      show "\<exists>c y. oid_contents c \<and> length c \<le> INT_MAX_nat \<and> (\<exists>rest. take n inp = object_der c @ rest) \<and>
        inp = object_der c @ (if r = 0 then inp else CBS_data t) \<and> st' = st\<lparr>objs := (objs st)(r \<mapsto> y)\<rparr> \<and> objs st r = None \<and>
        o_nid y = NID_undef \<and> o_length y = int (length c) \<and> enc y = c \<and> has_key FN_data y" if "r \<noteq> 0"
      proof -
        have io: "inp = object_der c @ (if r = 0 then inp else CBS_data t)" unfolding td using inp that by simp
        from i(3) that obtain y where "oid_contents c" "length c \<le> INT_MAX_nat" "st' = st\<lparr>objs := (objs st)(r \<mapsto> y)\<rparr>"
            "objs st r = None" "o_nid y = NID_undef" "o_length y = int (length c)" "enc y = c" "has_key FN_data y" by blast
        with tk io show ?thesis by blast
      qed
      show "r \<noteq> 0" if "bytes_left malloc" "new_obj st \<noteq> None"
        "\<exists>c rest. oid_contents c \<and> length c \<le> INT_MAX_nat \<and> take n inp = object_der c @ rest"
      proof -
        from that(3) obtain c' rest where "oid_contents c' \<and> length c' \<le> INT_MAX_nat \<and> take n inp = object_der c' @ rest" by blast
        from yes [OF this] that(1,2) i(4) show ?thesis by blast
      qed
    qed
  qed
qed

section \<open>Printing an object\<close>

lemma obj2txt_unknown:
  assumes "OBJ_obj2nid T a st = Some NID_undef"
  shows "OBJ_obj2txt T malloc stack junk out k a False st = OBJ_obj2txt T malloc stack junk out k a True st"
  by (simp add: OBJ_obj2txt_def assms cong: if_cong)

lemma i2t_eq:
  assumes "malloc_ok malloc" "bytes_left malloc" "objs st a = Some y" "a \<noteq> 0" "has_key FN_data y" "enc y = oid_der os" "valid_oid os"
    "OBJ_obj2nid T a st = Some NID_undef" "length (dotted os) < INT_MAX_nat" "0 < k" "k \<le> length out" "k \<le> INT_MAX_nat"
  shows "\<exists>out'. i2t_ASN1_OBJECT T malloc stack junk out (int k) a st = Some (out', int (length (dotted os))) \<and>
    (length (dotted os) < k \<longrightarrow> take (length (dotted os)) out' = dotted os \<and> c_strlen out' = Some (length (dotted os)))"
proof -
  let ?n = "length (dotted os)"
  let ?out = "take (min ?n (nat (int k) - 1)) (dotted os) @ 0 # drop (Suc (min ?n (nat (int k) - 1))) out"
  have l: "?n \<le> INT_MAX_nat" "(0 :: int) \<le> int k" "int k \<le> int (length out)" "int k < int SIZE_LIMIT"
    using assms(9-12) by simp_all
  have k: "(int k = 0) = False" using assms(10) by simp
  have e: "i2t_ASN1_OBJECT T malloc stack junk out (int k) a st = Some (?out, int ?n)"
    using obj2txt_eq [OF assms(1,3-7,2) l, of T stack junk]
    unfolding i2t_ASN1_OBJECT_def obj2txt_unknown [OF assms(8)] k if_False .
  have "take ?n ?out = dotted os \<and> c_strlen ?out = Some ?n" if "?n < k"
  proof -
    have m: "min ?n (nat (int k) - 1) = ?n" using that by simp
    have z: "0 \<in> set ?out" by simp
    have "cstr ?out = dotted os" unfolding m using dotted_no_zero [of os] by (simp add: cstr_def takeWhile_append)
    then show ?thesis using c_strlen_cstr [OF z] unfolding m by simp
  qed
  with e show ?thesis by blast
qed

lemma write_str_pair:
  assumes "pair_ok p q S" "\<not> shut p S" "c_strlen str = Some n" "0 < n" "n \<le> INT_MAX_nat" "n \<le> length str"
  defines "k \<equiv> min n (capacity p S - length (pending p S))"
  shows "\<exists>S'. write_str (Some p) str S = Some (if k = n then int n else -1, S') \<and> same_pair p q S S' \<and>
    pending q S' = pending q S \<and> pending p S' = pending p S @ take k str"
proof -
  have w: "write_room p (int n) S = k" by (simp add: write_room_def k_def)
  have "int n \<le> int INT_MAX_nat" "nat (int n) \<le> length (data_bytes (Some str))" using assms(5,6) by (simp_all add: data_bytes_def)
  from BIO_write_pair [OF assms(1) this(1), of "Some str"] this(2) obtain S' where S':
      "BIO_write (Some p) (Some str) (int n) S = Some (if k = 0 then -1 else int k, S')" "same_pair p q S S'"
      "pending q S' = pending q S" "pending p S' = pending p S @ take k str"
    unfolding w using assms(2,4) by (auto simp: data_bytes_def)
  have "k \<le> n" by (simp add: k_def)
  then show ?thesis using S' assms(3-5) by (auto simp: write_str_def)
qed

lemma i2a_prints:
  assumes "malloc_ok malloc" "bytes_left malloc" "objs st a = Some y" "a \<noteq> 0" "has_key FN_data y" "enc y = oid_der os" "valid_oid os"
    "OBJ_obj2nid T a st = Some NID_undef" "length (dotted os) < INT_MAX_nat" "length buf = 80"
  shows "\<exists>str. take (length (dotted os)) str = dotted os \<and> c_strlen str = Some (length (dotted os)) \<and>
    i2a_ASN1_OBJECT T malloc stack junk buf bp a st S = write_str bp str S"
proof -
  let ?n = "length (dotted os)"
  note I = i2t_eq [OF assms(1-9), of _ _ stack junk]
  have "oid_der os \<noteq> []" using assms(7) by (cases os rule: valid_oid.cases) (simp_all add: b128_def)
  then have d: "o_data y \<noteq> None" using assms(6) by (cases "o_data y") (auto simp: enc_def bytes_at_def)
  have ne: "0 < ?n" using assms(7) dotted_nonempty [of os] by (cases os) auto
  have k80: "(0 :: nat) < 80" "80 \<le> length buf" "80 \<le> INT_MAX_nat" using assms(10) by simp_all
  from I [OF k80] obtain out where o: "i2t_ASN1_OBJECT T malloc stack junk buf 80 a st = Some (out, int ?n)"
      "?n < 80 \<longrightarrow> take ?n out = dotted os \<and> c_strlen out = Some ?n" by auto
  show ?thesis
  proof (cases "?n < 80")
    case True
    then show ?thesis using o assms(3,4) d ne by (auto simp: i2a_ASN1_OBJECT_def)
  next
    case False
    have sz: "size_of_int (int ?n + 1) = ?n + 1" using assms(9) by (simp add: size_of_int_small nat_add_distrib)
    have "?n + 1 + 8 < SIZE_LIMIT" using assms(9) by simp
    then obtain b where b: "OPENSSL_malloc malloc (?n + 1) = Some b" "length b = ?n + 1"
      using OPENSSL_malloc_left [OF assms(2)] OPENSSL_malloc_length [OF assms(1)] by blast
    have "0 < ?n + 1" "?n + 1 \<le> length b" "?n + 1 \<le> INT_MAX_nat" using b(2) assms(9) by simp_all
    from I [OF this, unfolded of_nat_add of_nat_1] obtain out' where o': "i2t_ASN1_OBJECT T malloc stack junk b (int ?n + 1) a st = Some (out', int ?n)"
        "take ?n out' = dotted os" "c_strlen out' = Some ?n"
      using less_add_one by blast
    then show ?thesis using o(1) False assms(3,4) d ne b(1) sz by (auto simp: i2a_ASN1_OBJECT_def)
  qed
qed

section \<open>Properties\<close>

text \<open>
  (C18) \<open>d2i_ASN1_OBJECT\<close> reads exactly the DER elements of object identifiers: while there is memory it makes an
  object if and only if the input starts with such an element, with at most \<open>INT_MAX\<close> bytes of contents.  The
  object holds the contents, the input pointer is moved past the element, and \<open>i2d_ASN1_OBJECT\<close> of the
  object writes the element back, byte for byte.  Otherwise nothing has changed.
\<close>

theorem object_der_exact:
  assumes "malloc_ok malloc" "bytes_left malloc" "new_obj_ok stack new_obj" "stack \<noteq> 0" "new_obj st \<noteq> None"
    "n \<le> length inp" "n < 2 ^ 63"
  shows "\<exists>r inp' st'. d2i_ASN1_OBJECT malloc new_obj stack None inp (int n) st = Some (r, None, inp', st') \<and>
    (r \<noteq> 0 \<longleftrightarrow> (\<exists>c rest. oid_contents c \<and> length c \<le> INT_MAX_nat \<and> take n inp = object_der c @ rest)) \<and>
    (r = 0 \<longrightarrow> inp' = inp \<and> st' = st) \<and>
    (r \<noteq> 0 \<longrightarrow> (\<exists>c y. oid_contents c \<and> inp = object_der c @ inp' \<and> objs st r = None \<and>
      objs st' = (objs st)(r \<mapsto> y) \<and> o_nid y = NID_undef \<and> enc y = c \<and>
      (length (object_der c) \<le> INT_MAX_nat \<longrightarrow> (\<exists>buf.
        i2d_ASN1_OBJECT malloc r (Some None) st' = Some (int (length (object_der c)), Some (Some buf, 0)) \<and>
        take (length (object_der c)) buf = object_der c))))"
proof -
  have n: "n < SIZE_LIMIT" using assms(7) by simp
  show ?thesis
  proof (rule d2i_read [OF assms(1,3,4,6) n, of st])
    fix r inp' st'
    assume e: "d2i_ASN1_OBJECT malloc new_obj stack None inp (int n) st = Some (r, None, inp', st')"
      and z: "r = 0 \<Longrightarrow> st' = st \<and> inp' = inp"
      and nz: "r \<noteq> 0 \<Longrightarrow> \<exists>c y. oid_contents c \<and> length c \<le> INT_MAX_nat \<and> (\<exists>rest. take n inp = object_der c @ rest) \<and>
        inp = object_der c @ inp' \<and> st' = st\<lparr>objs := (objs st)(r \<mapsto> y)\<rparr> \<and> objs st r = None \<and>
        o_nid y = NID_undef \<and> o_length y = int (length c) \<and> enc y = c \<and> has_key FN_data y"
      and ex: "bytes_left malloc \<Longrightarrow> new_obj st \<noteq> None \<Longrightarrow>
        \<exists>c rest. oid_contents c \<and> length c \<le> INT_MAX_nat \<and> take n inp = object_der c @ rest \<Longrightarrow> r \<noteq> 0"
    have "\<exists>c y. oid_contents c \<and> inp = object_der c @ inp' \<and> objs st r = None \<and>
      objs st' = (objs st)(r \<mapsto> y) \<and> o_nid y = NID_undef \<and> enc y = c \<and>
      (length (object_der c) \<le> INT_MAX_nat \<longrightarrow> (\<exists>buf.
        i2d_ASN1_OBJECT malloc r (Some None) st' = Some (int (length (object_der c)), Some (Some buf, 0)) \<and>
        take (length (object_der c)) buf = object_der c))" if "r \<noteq> 0"
    proof -
      from nz [OF that] obtain c y where y: "oid_contents c" "length c \<le> INT_MAX_nat" "inp = object_der c @ inp'"
          "st' = st\<lparr>objs := (objs st)(r \<mapsto> y)\<rparr>" "objs st r = None" "o_nid y = NID_undef" "o_length y = int (length c)"
          "enc y = c" "has_key FN_data y" by blast
      have p: "objs st' r = Some y" "objs st' = (objs st)(r \<mapsto> y)" by (simp_all add: y(4))
      have "0 < o_length y" "o_length y \<le> int INT_MAX_nat" using oid_contents_nonempty [OF y(1)] y(2,7) by simp_all
      then have "length (object_der c) \<le> INT_MAX_nat \<longrightarrow> (\<exists>buf.
          i2d_ASN1_OBJECT malloc r (Some None) st' = Some (int (length (object_der c)), Some (Some buf, 0)) \<and>
          take (length (object_der c)) buf = object_der c)"
        using i2d_written [OF assms(1,2) p(1) that y(9)] unfolding y(8) by blast
      with y(1,3,5,6,8) p(2) show ?thesis by blast
    qed
    with e z nz ex [OF assms(2,5)] show ?thesis by blast
  qed
qed

text \<open>
  (C12) A number goes out on the wire and comes back.  For a built-in object that the array for the search by encoding
  lists, \<open>OBJ_nid2cbb\<close> writes the DER element of its object identifier; the ASN.1 reader takes exactly
  this element, and \<open>OBJ_cbs2nid\<close> of its contents finds a listed object with the same object identifier.
\<close>

theorem nid_wire_round_trip:
  assumes "builtins_ok T st" "objects_ok stack st" "malloc_ok malloc" "bytes_left malloc"
    "k \<in> set (kNIDsInOIDOrder T)" "o_length (builtin T st k) \<le> int INT_MAX_nat"
    "none_added FN_data st (by_data st) (0, enc (builtin T st k))" "CBB_init malloc cap = Some out" "cap < SIZE_LIMIT"
  shows "\<exists>s1 buf len s2 c t j. OBJ_nid2cbb T malloc stack junk 0 (int k) st out = Some (Some (), s1) \<and>
    CBB_finish malloc 0 False s1 = (Some (Some buf, len), s2) \<and> take len buf = object_der (enc (builtin T st k)) \<and>
    CBS_get_asn1 CBS_ASN1_OBJECT (CBS_init buf len) = (Some c, t) \<and> CBS_len t = 0 \<and>
    OBJ_cbs2nid T stack c st = Some (int j) \<and> j \<in> set (kNIDsInOIDOrder T) \<and>
    enc (builtin T st j) = enc (builtin T st k)"
proof -
  let ?y = "builtin T st k" and ?p = "kObjects T (k - 1)"
  have k: "k \<in> {1..<965}" "o_nid ?y = int k" "has_key FN_data ?y"
    using assms(1,5) unfolding builtins_ok_def by blast+
  define n where "n = nat (o_length ?y)"
  have n: "n \<le> length (bytes_at (o_data ?y))" "n \<le> INT_MAX_nat" "size_of_int (o_length ?y) = n" "enc ?y = take n (bytes_at (o_data ?y))"
    using k(3) assms(6) size_of_int_small by (simp_all add: has_key_def n_def enc_def)
  have "n \<le> 0xfffffffe" using n(2) by simp
  from object_bytes_written [OF assms(3,4,8,9) n(1) this] obtain s1 where
      s1: "add_object_bytes malloc 0 (bytes_at (o_data ?y)) n out = (Some (), s1)" "represents s1 (Builder (object_der (enc ?y)) [])"
    unfolding n(4) by blast
  have "OBJ_nid2obj T stack junk (int k) st = Some ?p" using nid2obj_builtin [OF assms(1) k(1)] k(1,2) by simp
  moreover obtain y where "objs st ?p = Some y" using builtin_at(2) [OF assms(1) k(1)] by blast
  ultimately have w: "OBJ_nid2cbb T malloc stack junk 0 (int k) st out = Some (Some (), s1)"
    using builtin_at(3) [OF assms(1) k(1)] n(3) s1(1) by (simp add: OBJ_nid2cbb_def)
  let ?der = "object_der (enc ?y)"
  have "?der \<noteq> []" by simp
  then obtain buf where buf: "b_buf s1 = Some buf" "take (length ?der) buf = ?der"
    using represented_bytes(3) [OF s1(2)] by blast
  have f: "CBB_finish malloc 0 False s1 = (Some (Some buf, length ?der), s1\<lparr>b_buf := None\<rparr>)"
    using finish_represented [OF assms(3) s1(2)] buf(1) by simp
  have l: "length (enc ?y) = n" "length (enc ?y) < 2 ^ 32" using n by simp_all
  have "length ?der \<le> length buf" using arg_cong [OF buf(2), of length] by (simp add: min_def split: if_splits)
  moreover have "length ?der < SIZE_LIMIT" using length_object_der [OF l(2)] l(1) n(2) by simp
  ultimately have ok: "cbs_ok (CBS_init buf (length ?der))" and b: "cbs_bytes (CBS_init buf (length ?der)) = ?der @ []"
    using buf(2) by simp_all
  from get_asn1_complete [OF ok tag_object_ok l(2) b] obtain c where
      c: "CBS_get_asn1 CBS_ASN1_OBJECT (CBS_init buf (length ?der)) = (Some c, cbs_adv (length ?der) (CBS_init buf (length ?der)))"
        "cbs_ok c" "cbs_bytes c = enc ?y" by blast
  have t: "CBS_len (cbs_adv (length ?der) (CBS_init buf (length ?der))) = 0" by (simp add: CBS_len_def cbs_adv_def CBS_init_def)
  have "cbs_len c \<le> INT_MAX_nat" using length_cbs_bytes [OF c(2)] c(3) l(1) n(2) by simp
  from cbs_search [OF assms(1,2) c(2) this] assms(7) obtain m where
      m: "OBJ_cbs2nid T stack c st = Some m" "listed (kNIDsInOIDOrder T) (\<lambda>j. enc (builtin T st j) = enc ?y) m"
    unfolding c(3) by blast
  from m(2) assms(5) obtain j where "j \<in> set (kNIDsInOIDOrder T)" "enc (builtin T st j) = enc ?y" "m = int j"
    unfolding listed_def by blast
  then have "OBJ_cbs2nid T stack c st = Some (int j)" "j \<in> set (kNIDsInOIDOrder T)" "enc (builtin T st j) = enc ?y"
    using m(1) by simp_all
  then show ?thesis by (intro exI conjI) (rule w f buf(2) c(1) t | assumption)+
qed

text \<open>
  \<open>i2a_ASN1_OBJECT\<close> prints an object identifier on one end of a BIO pair, whatever its length: for an object without a
  number, the bytes that the other end can read grow by the dotted decimal text, by all of it when the buffer
  has room, and then the length of the text is returned.  When there is less room, the text is cut and -1 returned.
\<close>

theorem object_printed:
  assumes "malloc_ok malloc" "bytes_left malloc" "objs st a = Some y" "a \<noteq> 0" "has_key FN_data y" "enc y = oid_der os" "valid_oid os"
    "OBJ_obj2nid T a st = Some NID_undef" "length (dotted os) < INT_MAX_nat" "length buf = 80" "pair_ok p q S" "\<not> shut p S"
  shows "\<exists>S'. i2a_ASN1_OBJECT T malloc stack junk buf (Some p) a st S = Some
      (if length (dotted os) \<le> capacity p S - length (pending p S) then int (length (dotted os)) else -1, S') \<and>
    pair_ok p q S' \<and> pending q S' = pending q S \<and>
    pending p S' = pending p S @ take (capacity p S - length (pending p S)) (dotted os)"
proof -
  let ?n = "length (dotted os)" and ?r = "capacity p S - length (pending p S)"
  from i2a_prints [OF assms(1-10)] obtain str where
      str: "take ?n str = dotted os" "c_strlen str = Some ?n" "i2a_ASN1_OBJECT T malloc stack junk buf (Some p) a st S = write_str (Some p) str S"
    by blast
  have "0 < ?n" using assms(7) dotted_nonempty [of os] by (cases os) auto
  moreover have "?n \<le> length str" using arg_cong [OF str(1), of length] by (simp add: min_def split: if_splits)
  moreover have "?n \<le> INT_MAX_nat" using assms(9) by simp
  ultimately obtain S' where S': "write_str (Some p) str S = Some (if min ?n ?r = ?n then int ?n else -1, S')" "same_pair p q S S'"
      "pending q S' = pending q S" "pending p S' = pending p S @ take (min ?n ?r) str"
    using write_str_pair [OF assms(11,12) str(2)] by blast
  have "take (min ?n ?r) str = take ?r (take ?n str)" by (simp add: min.commute)
  then have "take (min ?n ?r) str = take ?r (dotted os)" unfolding str(1) .
  moreover have "(min ?n ?r = ?n) = (?n \<le> ?r)" by linarith
  ultimately show ?thesis using S' str(3) by (simp add: same_pair_def)
qed

section \<open>Witnesses\<close>

text \<open>The object identifier 1.2.840.\<close>

lemma small_der: "oid_contents [42, 134, 72]" "object_der [42, 134, 72] = [6, 3, 42, 134, 72]"
proof -
  have "[42, 134, 72] = concat (map b128 [42, 840])" by (simp add: b128_def b128_hi.simps)
  then show "oid_contents [42, 134, 72]" unfolding oid_contents_def by blast
  show "object_der [42, 134, 72] = [6, 3, 42, 134, 72]"
    by (simp add: der_element_def der_header_def tag_bytes_def len_bytes_def)
qed

theorem object_der_exact_witness:
  "\<exists>r st' y buf. d2i_ASN1_OBJECT zero_bytes one_object 1 None [6, 3, 42, 134, 72, 9] 6 no_objects = Some (r, None, [9], st') \<and> r \<noteq> 0 \<and>
    objs st' r = Some y \<and> enc y = [42, 134, 72] \<and>
    i2d_ASN1_OBJECT zero_bytes r (Some None) st' = Some (5, Some (Some buf, 0)) \<and> take 5 buf = [6, 3, 42, 134, 72]"
proof -
  let ?inp = "[6, 3, 42, 134, 72, 9] :: u8 list"
  have h: "malloc_ok zero_bytes" "bytes_left zero_bytes" "new_obj_ok 1 one_object" "(1 :: nat) \<noteq> 0" "one_object no_objects \<noteq> None"
    by (simp_all add: no_objects_def malloc_ok_def bytes_left_def zero_bytes_def new_obj_ok_def one_object_def)
  have n: "6 \<le> length ?inp" "(6 :: nat) < 2 ^ 63" by simp_all
  have inp: "?inp = object_der [42, 134, 72] @ [9]" unfolding small_der(2) by simp
  then have "\<exists>c rest. oid_contents c \<and> length c \<le> INT_MAX_nat \<and> take 6 ?inp = object_der c @ rest"
    using small_der(1) by (intro exI [of _ "[42, 134, 72]"] exI [of _ "[9]"]) (simp add: small_der(2))
  with object_der_exact [OF h n] obtain r inp' st' c y where r:
      "d2i_ASN1_OBJECT zero_bytes one_object 1 None ?inp (int 6) no_objects = Some (r, None, inp', st')" "r \<noteq> 0"
      "?inp = object_der c @ inp'" "objs st' = (objs no_objects)(r \<mapsto> y)" "enc y = c"
      "length (object_der c) \<le> INT_MAX_nat \<longrightarrow> (\<exists>buf.
        i2d_ASN1_OBJECT zero_bytes r (Some None) st' = Some (int (length (object_der c)), Some (Some buf, 0)) \<and>
        take (length (object_der c)) buf = object_der c)"
    by blast
  have "length (object_der c) \<le> length ?inp" unfolding r(3) by simp
  then have "length c \<le> 6" by (simp add: der_element_def)
  then have l: "length c < 2 ^ 32" "length [42 :: u8, 134, 72] < 2 ^ 32" by simp_all
  have "object_der c @ inp' = object_der [42, 134, 72] @ [9]" "length (object_der c @ inp') < SIZE_LIMIT"
    unfolding r(3) [symmetric] inp [symmetric] by simp_all
  from asn1_object_bytes.enc_prefix_free [OF l this] have c: "c = [42, 134, 72]" "inp' = [9]" by blast+
  have five: "length [6 :: u8, 3, 42, 134, 72] = 5" by simp
  from r(6) obtain buf where "i2d_ASN1_OBJECT zero_bytes r (Some None) st' = Some (5, Some (Some buf, 0))" "take 5 buf = [6, 3, 42, 134, 72]"
    unfolding c(1) small_der(2) five by auto
  with r(1,2,4,5) c show ?thesis by auto
qed

theorem nid_wire_round_trip_witness:
  "\<exists>out s1 buf len s2 c t. CBB_init zero_bytes 16 = Some out \<and>
    OBJ_nid2cbb small_builtins zero_bytes 1 blank_object 0 2 small_objects out = Some (Some (), s1) \<and>
    CBB_finish zero_bytes 0 False s1 = (Some (Some buf, len), s2) \<and> take len buf = [6, 3, 42, 3, 1] \<and>
    CBS_get_asn1 CBS_ASN1_OBJECT (CBS_init buf len) = (Some c, t) \<and> OBJ_cbs2nid small_builtins 1 c small_objects = Some 2"
proof -
  have m: "malloc_ok zero_bytes" "bytes_left zero_bytes" by (simp_all add: malloc_ok_def bytes_left_def zero_bytes_def)
  have "OPENSSL_malloc zero_bytes 16 \<noteq> None" by (rule OPENSSL_malloc_left [OF m(2)]) simp
  then obtain out where out: "CBB_init zero_bytes 16 = Some out" by (auto simp: CBB_init_def)
  have k: "2 \<in> set (kNIDsInOIDOrder small_builtins)" "o_length (builtin small_builtins small_objects 2) \<le> int INT_MAX_nat"
      "(16 :: nat) < SIZE_LIMIT" by (simp_all add: small_builtin)
  have a: "none_added FN_data small_objects (by_data small_objects) v" for v
    by (simp add: none_added_def in_table_def small_objects_def)
  have e: "enc (builtin small_builtins small_objects 2) = [42, 3, 1]" "enc (builtin small_builtins small_objects 1) = [42, 3]"
    by (simp_all add: small_builtin enc_def bytes_at_def)
  have d: "object_der [42, 3, 1] = [6, 3, 42, 3, 1]" by (simp add: der_element_def der_header_def tag_bytes_def len_bytes_def)
  from nid_wire_round_trip [OF small_ok m k(1,2) a out k(3), of blank_object] obtain s1 buf len s2 c t j where w:
      "OBJ_nid2cbb small_builtins zero_bytes 1 blank_object 0 (int 2) small_objects out = Some (Some (), s1)"
      "CBB_finish zero_bytes 0 False s1 = (Some (Some buf, len), s2)" "take len buf = [6, 3, 42, 3, 1]"
      "CBS_get_asn1 CBS_ASN1_OBJECT (CBS_init buf len) = (Some c, t)" "OBJ_cbs2nid small_builtins 1 c small_objects = Some (int j)"
      "j \<in> set (kNIDsInOIDOrder small_builtins)" "enc (builtin small_builtins small_objects j) = [42, 3, 1]"
    unfolding e(1) d by blast
  have "j = 1 \<or> j = 2" using w(6) by (simp add: small_builtin)
  then have "j = 2" using w(7) e(2) by auto
  with w(1-5) out show ?thesis by auto
qed

text \<open>A buffer of 4 bytes has no room for the text.\<close>

theorem object_printed_witness:
  "\<exists>S S'. i2a_ASN1_OBJECT (small_builtins\<lparr>kNIDsInOIDOrder := []\<rparr>) zero_bytes 1 blank_object (replicate 80 0) (Some 0) 2
      (no_objects\<lparr>objs := [2 \<mapsto> \<lparr>o_sn = None, o_ln = None, o_nid = 0, o_length = 3, o_data = Some [42, 134, 72], o_flags = 0\<rparr>]\<rparr>) S
      = Some (-1, S') \<and> pending 0 S' = [49, 46, 50, 46]"
proof -
  let ?y = "\<lparr>o_sn = None, o_ln = None, o_nid = 0, o_length = 3, o_data = Some [42, 134, 72], o_flags = 0\<rparr>"
  let ?st = "no_objects\<lparr>objs := [2 \<mapsto> ?y]\<rparr>" and ?T = "small_builtins\<lparr>kNIDsInOIDOrder := []\<rparr>"
  from example_pair obtain S where n: "BIO_new_bio_pair zero_malloc 0 4 1 0 (\<lambda>_. None) = Some (True, Some 0, Some 1, S)"
    by blast
  note ok = new_pair_ok [OF zero_malloc_ok example_sizes n]
  then have p: "pair_ok 0 1 S" "\<not> shut 0 S" "capacity 0 S - length (pending 0 S) = 4" "pending 0 S = []" by (simp_all add: default_size_def)
  have m: "malloc_ok zero_bytes" "bytes_left zero_bytes" by (simp_all add: malloc_ok_def bytes_left_def zero_bytes_def)
  have d: "dotted [1, 2, 840] = [49, 46, 50, 46, 56, 52, 48]" by (simp add: decimal.simps)
  have y: "objs ?st 2 = Some ?y" "(2 :: nat) \<noteq> 0" "has_key FN_data ?y" "enc ?y = oid_der [1, 2, 840]" "valid_oid [1, 2, 840]"
    by (simp_all add: has_key_def enc_def bytes_at_def b128_def b128_hi.simps)
  have "c_bsearch f [] 0 0 = Some None" for f by (subst c_bsearch.simps) simp
  then have z: "OBJ_obj2nid ?T 2 ?st = Some NID_undef"
    by (simp add: OBJ_obj2nid_def no_objects_def added_def builtin_nid_def)
  have l: "length (dotted [1, 2, 840]) < INT_MAX_nat" "length (replicate 80 (0 :: u8)) = 80" unfolding d by simp_all
  from object_printed [OF m y z l p(1,2), of 1 blank_object] obtain S' where
      "i2a_ASN1_OBJECT ?T zero_bytes 1 blank_object (replicate 80 0) (Some 0) 2 ?st S = Some (-1, S')" "pending 0 S' = [49, 46, 50, 46]"
    unfolding p(3) unfolding p(4) d by auto
  then show ?thesis by blast
qed

end
