(* ===== verification/Stack_Sort.thy ===== *)
theory Stack_Sort
  imports Stack
begin

text \<open>
  The heap sort and the search of the stack, over the contract of a comparison function: the sign of
  its result is a total preorder.  The sort gives a sorted permutation, in place; the search finds the
  first match.
\<close>

section \<open>Comparison functions\<close>

locale cmp_order =
  fixes cmp :: "'a \<Rightarrow> 'a \<Rightarrow> int"
  assumes swap_sign: "cmp x y < 0 \<longleftrightarrow> 0 < cmp y x"
    and le_trans: "cmp x y \<le> 0 \<Longrightarrow> cmp y z \<le> 0 \<Longrightarrow> cmp x z \<le> 0"
begin

lemma le_refl: "cmp x x \<le> 0"
  using swap_sign [of x x] by linarith

lemma not_le: "\<not> cmp x y \<le> 0 \<longleftrightarrow> cmp y x < 0"
  using swap_sign [of y x] by linarith

lemma le_total: "cmp x y < 0 \<or> cmp y x \<le> 0"
  using swap_sign [of x y] by linarith

end

section \<open>The heap order\<close>

text \<open>The first \<open>n\<close> places are a heap for the nodes from \<open>k\<close> on; and the same but for the node \<open>i\<close> and its
  children, whose children are in order with its parent.\<close>

definition heap_from :: "('a \<Rightarrow> 'a \<Rightarrow> int) \<Rightarrow> nat \<Rightarrow> nat \<Rightarrow> 'a list \<Rightarrow> bool" where
  "heap_from cmp k n d \<longleftrightarrow> (\<forall>j<n. 0 < j \<and> k \<le> parent_idx j \<longrightarrow> cmp (d ! j) (d ! parent_idx j) \<le> 0)"

definition heap_but :: "('a \<Rightarrow> 'a \<Rightarrow> int) \<Rightarrow> nat \<Rightarrow> nat \<Rightarrow> nat \<Rightarrow> 'a list \<Rightarrow> bool" where
  "heap_but cmp k i n d \<longleftrightarrow>
    (\<forall>j<n. 0 < j \<and> k \<le> parent_idx j \<and> parent_idx j \<noteq> i \<longrightarrow> cmp (d ! j) (d ! parent_idx j) \<le> 0) \<and>
    (\<forall>j<n. 0 < j \<and> parent_idx j = i \<and> 0 < i \<and> k \<le> parent_idx i \<longrightarrow> cmp (d ! j) (d ! parent_idx i) \<le> 0)"

lemma parent_less: "0 < j \<Longrightarrow> parent_idx j < j"
  by (auto simp: parent_idx_def)

lemma child_cases: "0 < j \<Longrightarrow> parent_idx j = i \<longleftrightarrow> j = left_idx i \<or> j = left_idx i + 1"
  by (auto simp: parent_idx_def left_idx_def)

lemma length_swap_at [simp]: "length (swap_at i j d) = length d"
  by (simp add: swap_at_def)

lemma nth_swap_at:
  "i < length d \<Longrightarrow> j < length d \<Longrightarrow> swap_at i j d ! k = (if k = j then d ! i else if k = i then d ! j else d ! k)"
  by (auto simp: swap_at_def nth_list_update)

lemma take_swap_at: "i < n \<Longrightarrow> j < n \<Longrightarrow> n \<le> length d \<Longrightarrow> take n (swap_at i j d) = swap_at i j (take n d)"
  by (simp add: swap_at_def take_update_swap)

lemma drop_swap_at: "i < n \<Longrightarrow> j < n \<Longrightarrow> drop n (swap_at i j d) = drop n d"
  by (simp add: swap_at_def)

lemma mset_swap_at: "i < length d \<Longrightarrow> j < length d \<Longrightarrow> mset (swap_at i j d) = mset d"
  using mset_swap [of i d j] by (cases "i = j") (simp_all add: swap_at_def list_update_swap)

lemma down_heap_frame:
  assumes "i < n" "n \<le> length d"
  shows "length (down_heap cmp i n d) = length d \<and> mset (take n (down_heap cmp i n d)) = mset (take n d) \<and>
    drop n (down_heap cmp i n d) = drop n d"
  using assms
proof (induction cmp i n d rule: down_heap.induct)
  case (1 cmp i n d)
  show ?case
  proof (cases "n \<le> left_idx i \<or> i = heap_next cmp i n d")
    case True
    then show ?thesis by (subst (1 2 3) down_heap.simps) (auto simp: Let_def)
  next
    case False
    define c where "c = heap_next cmp i n d"
    have c: "i < c" "c < n" using heap_next_le [of cmp i n d] False by (simp_all add: c_def)
    have e: "down_heap cmp i n d = down_heap cmp c n (swap_at i c d)"
      using False by (subst down_heap.simps) (simp add: Let_def c_def)
    show ?thesis
      using "1.IH" [OF _ c_def] False c "1.prems" unfolding e
      by (simp add: c_def [symmetric] take_swap_at drop_swap_at mset_swap_at)
  qed
qed

context cmp_order
begin

lemma heap_next_max:
  assumes "left_idx i < n" "parent_idx j = i" "0 < j" "j < n"
  shows "cmp (d ! j) (d ! heap_next cmp i n d) \<le> 0"
proof -
  have "j = left_idx i \<or> j = left_idx i + 1" using assms(2,3) child_cases by blast
  then show ?thesis
    using assms(1,4) le_refl swap_sign le_trans
    by (auto simp: heap_next_def Let_def) (smt (verit) le_refl le_trans swap_sign)+
qed

lemma heap_next_greater:
  assumes "left_idx i < n" "heap_next cmp i n d \<noteq> i"
  shows "cmp (d ! i) (d ! heap_next cmp i n d) \<le> 0"
  using assms by (auto simp: heap_next_def Let_def split: if_splits) (smt (verit) le_trans)

lemma down_heap_heap:
  assumes "heap_but cmp k i n d" "k \<le> i" "n \<le> length d"
  shows "heap_from cmp k n (down_heap cmp i n d)"
  using assms
proof (induction "n - i" arbitrary: i d rule: less_induct)
  case less
  define c where "c = heap_next cmp i n d"
  consider (leaf) "n \<le> left_idx i" | (top) "left_idx i < n" "c = i" | (swap) "left_idx i < n" "c \<noteq> i" by linarith
  then show ?case
  proof cases
    case leaf
    then have "parent_idx j \<noteq> i" if "j < n" "0 < j" for j using child_cases [of j i] that by auto
    then have "heap_from cmp k n d" using less.prems(1) by (simp add: heap_from_def heap_but_def)
    then show ?thesis using leaf by (simp add: down_heap.simps)
  next
    case top
    have "heap_from cmp k n d" unfolding heap_from_def
    proof (intro allI impI)
      fix j assume j: "j < n" "0 < j \<and> k \<le> parent_idx j"
      show "cmp (d ! j) (d ! parent_idx j) \<le> 0"
      proof (cases "parent_idx j = i")
        case True
        then show ?thesis using heap_next_max [OF top(1) True, of d] j top(2) by (simp add: c_def)
      qed (use less.prems(1) j in \<open>simp add: heap_but_def\<close>)
    qed
    then show ?thesis using top by (simp add: down_heap.simps c_def)
  next
    case swap
    have c: "i < c" "c < n" using heap_next_le [of cmp i n d] swap by (simp_all add: c_def)
    have pc: "parent_idx c = i"
    proof -
      have "c = left_idx i \<or> c = left_idx i + 1" using swap by (auto simp: c_def heap_next_def Let_def split: if_splits)
      then show ?thesis using child_cases [of c i] c by simp
    qed
    define e where "e = swap_at i c d"
    have e: "e ! j = (if j = c then d ! i else if j = i then d ! c else d ! j)" for j
      using c less.prems(3) by (simp add: e_def nth_swap_at)
    have "heap_but cmp k c n e" unfolding heap_but_def
    proof (intro conjI allI impI)
      fix j assume j: "j < n" "0 < j \<and> k \<le> parent_idx j \<and> parent_idx j \<noteq> c"
      show "cmp (e ! j) (e ! parent_idx j) \<le> 0"
      proof (cases "parent_idx j = i")
        case True
        show ?thesis
        proof (cases "j = c")
          case True
          then show ?thesis using heap_next_greater [of i n d] swap pc c by (simp add: e c_def)
        next
          case False
          have "j \<noteq> i" using True parent_less [of j] j by auto
          then show ?thesis using heap_next_max [OF swap(1) True] j False True c by (simp add: e c_def)
        qed
      next
        case False
        show ?thesis
        proof (cases "j = i")
          case True
          have "parent_idx i \<noteq> c" "parent_idx i \<noteq> i" using parent_less [of i] j c True by auto
          moreover have "cmp (d ! c) (d ! parent_idx i) \<le> 0"
            using less.prems(1) pc c j True by (auto simp: heap_but_def)
          ultimately show ?thesis using True c by (simp add: e)
        next
          case jn: False
          then have "j \<noteq> c" using False pc by auto
          then show ?thesis using less.prems(1) j jn False by (simp add: e heap_but_def)
        qed
      qed
    next
      fix j assume j: "j < n" "0 < j \<and> parent_idx j = c \<and> 0 < c \<and> k \<le> parent_idx c"
      have "j \<noteq> c" "j \<noteq> i" using parent_less [of j] j c by auto
      moreover have "cmp (d ! j) (d ! c) \<le> 0"
        using less.prems(1,2) j c by (auto simp: heap_but_def)
      ultimately show "cmp (e ! j) (e ! parent_idx c) \<le> 0" using pc c by (simp add: e)
    qed
    moreover have "n - c < n - i" "k \<le> c" "n \<le> length e" using c less.prems by (simp_all add: e_def)
    ultimately have "heap_from cmp k n (down_heap cmp c n e)" by (intro less.hyps)
    moreover have "down_heap cmp i n d = down_heap cmp c n e"
      using swap by (subst down_heap.simps) (simp add: Let_def c_def e_def)
    ultimately show ?thesis by simp
  qed
qed

lemma heap_root_max: "heap_from cmp 0 n d \<Longrightarrow> j < n \<Longrightarrow> cmp (d ! j) (d ! 0) \<le> 0"
proof (induction j rule: less_induct)
  case (less j)
  show ?case
  proof (cases "j = 0")
    case False
    then have p: "parent_idx j < j" by (simp add: parent_less)
    with less have "cmp (d ! parent_idx j) (d ! 0) \<le> 0" by simp
    moreover have "cmp (d ! j) (d ! parent_idx j) \<le> 0" using less.prems False by (simp add: heap_from_def)
    ultimately show ?thesis using le_trans by blast
  qed (simp add: le_refl)
qed

lemma build_heap_heap:
  assumes "heap_from cmp (Suc i) n d" "i < n" "n \<le> length d"
  shows "heap_from cmp 0 n (build_heap cmp i n d)"
  using assms
proof (induction i arbitrary: d)
  case 0
  have "heap_but cmp 0 0 n d" using "0.prems"(1) by (auto simp: heap_from_def heap_but_def)
  with "0.prems" show ?case by (simp add: down_heap_heap)
next
  case (Suc i)
  have "heap_but cmp (Suc i) (Suc i) n d"
    using Suc.prems(1) parent_less [of "Suc i"] by (auto simp: heap_from_def heap_but_def)
  then have "heap_from cmp (Suc i) n (down_heap cmp (Suc i) n d)" using Suc.prems by (intro down_heap_heap) simp_all
  then show ?case using Suc down_heap_frame [of "Suc i" n d cmp] by simp
qed

text \<open>The invariant of the second loop: a heap, below a sorted rest.\<close>

definition heap_and_rest :: "nat \<Rightarrow> nat \<Rightarrow> 'a list \<Rightarrow> bool" where
  "heap_and_rest i n d \<longleftrightarrow>
    heap_from cmp 0 (Suc i) d \<and> (\<forall>b<n. i < b \<longrightarrow> (\<forall>a<b. cmp (d ! a) (d ! b) \<le> 0))"

lemma extract_step:
  assumes "heap_and_rest (Suc m) n d" "Suc m < n" "n \<le> length d"
  shows "heap_and_rest m n (down_heap cmp 0 (Suc m) (swap_at 0 (Suc m) d))"
proof -
  define e where "e = swap_at 0 (Suc m) d"
  define f where "f = down_heap cmp 0 (Suc m) e"
  have h: "heap_from cmp 0 (Suc (Suc m)) d"
    and r: "\<And>a b. b < n \<Longrightarrow> Suc m < b \<Longrightarrow> a < b \<Longrightarrow> cmp (d ! a) (d ! b) \<le> 0"
    using assms(1) by (auto simp: heap_and_rest_def)
  have lt: "0 < length d" "Suc m < length d" using assms(2,3) by linarith+
  have e: "e ! j = (if j = Suc m then d ! 0 else if j = 0 then d ! Suc m else d ! j)" for j
    using nth_swap_at [OF lt, of j] by (simp add: e_def)
  have le: "Suc m \<le> length e" using assms by (simp add: e_def)
  have "parent_idx j \<noteq> Suc m" if "0 < j" "j < Suc m" for j using parent_less [OF that(1)] that(2) by simp
  then have "heap_but cmp 0 0 (Suc m) e"
    using h by (auto simp: heap_but_def heap_from_def e)
  then have hf: "heap_from cmp 0 (Suc m) f" unfolding f_def using le by (intro down_heap_heap) simp_all
  have fr: "mset (take (Suc m) f) = mset (take (Suc m) e)" "drop (Suc m) f = drop (Suc m) e" "length f = length d"
    using down_heap_frame [of 0 "Suc m" e cmp] le by (simp_all add: f_def e_def)
  have top: "f ! b = e ! b" if "m < b" "b < n" for b
  proof -
    have "f ! b = drop (Suc m) f ! (b - Suc m)" using that assms fr(3) by simp
    also have "\<dots> = e ! b" unfolding fr(2) using that assms by (simp add: e_def)
    finally show ?thesis .
  qed
  have low: "\<exists>x\<le>Suc m. f ! a = d ! x" if "a \<le> m" for a
  proof -
    have "f ! a \<in> set (take (Suc m) f)" using that assms fr(3) by (auto simp: in_set_conv_nth intro!: exI [of _ a])
    then have "f ! a \<in> set (take (Suc m) e)" using fr(1) by (metis set_mset_mset)
    then obtain y where "y < Suc m" "f ! a = e ! y" using le by (auto simp: in_set_conv_nth)
    then show ?thesis by (auto simp: e intro: exI [of _ "Suc m"] exI [of _ y])
  qed
  have "cmp (f ! a) (f ! b) \<le> 0" if b: "b < n" "m < b" "a < b" for a b
  proof (cases "a \<le> m")
    case True
    from low [OF this] obtain x where x: "x \<le> Suc m" "f ! a = d ! x" by blast
    show ?thesis
    proof (cases "b = Suc m")
      case True
      then have "f ! b = d ! 0" using top b by (simp add: e)
      with heap_root_max [OF h, of x] x show ?thesis by simp
    next
      case False
      with b have fb: "f ! b = d ! b" using top by (simp add: e)
      show ?thesis unfolding fb x(2) using r [of b x] b x(1) False by simp
    qed
  next
    case False
    have fb: "f ! b = d ! b" using top [of b] b False by (simp add: e)
    have "\<exists>x\<le>a. f ! a = d ! x" using top [of a] b False by (auto simp: e intro: exI [of _ a])
    then obtain x where x: "x \<le> a" "f ! a = d ! x" by blast
    then show ?thesis unfolding fb x(2) using r [of b x] b False by simp
  qed
  with hf show ?thesis by (simp add: heap_and_rest_def f_def e_def)
qed

lemma extract_max_sorted:
  assumes "heap_and_rest i n d" "i < n" "n \<le> length d"
  shows "\<forall>b<n. \<forall>a<b. cmp (extract_max cmp i d ! a) (extract_max cmp i d ! b) \<le> 0"
  using assms
proof (induction i arbitrary: d)
  case 0
  then show ?case by (auto simp: heap_and_rest_def)
next
  case (Suc i)
  have "length (down_heap cmp 0 (Suc i) (swap_at 0 (Suc i) d)) = length d"
    using down_heap_frame [of 0 "Suc i" "swap_at 0 (Suc i) d" cmp] Suc.prems by simp
  with Suc extract_step [OF Suc.prems] show ?case by simp
qed

end

lemma build_heap_frame:
  assumes "i < n" "n \<le> length d"
  shows "length (build_heap cmp i n d) = length d \<and> mset (take n (build_heap cmp i n d)) = mset (take n d) \<and>
    drop n (build_heap cmp i n d) = drop n d"
  using assms
proof (induction i arbitrary: d)
  case (Suc i)
  then show ?case using down_heap_frame [of "Suc i" n d cmp] Suc.IH [of "down_heap cmp (Suc i) n d"] by simp
qed (simp add: down_heap_frame)

lemma extract_max_frame:
  assumes "i < n" "n \<le> length d"
  shows "length (extract_max cmp i d) = length d \<and> mset (take n (extract_max cmp i d)) = mset (take n d) \<and>
    drop n (extract_max cmp i d) = drop n d"
  using assms
proof (induction i arbitrary: d)
  case (Suc i)
  let ?e = "swap_at 0 (Suc i) d"
  let ?f = "down_heap cmp 0 (Suc i) ?e"
  have fr: "length ?f = length ?e" "mset (take (Suc i) ?f) = mset (take (Suc i) ?e)" "drop (Suc i) ?f = drop (Suc i) ?e"
    using down_heap_frame [of 0 "Suc i" ?e cmp] Suc.prems by simp_all
  have t: "take n xs = take (Suc i) xs @ take (n - Suc i) (drop (Suc i) xs)" for xs :: "'a list"
    using Suc.prems(1) by (metis le_add_diff_inverse less_imp_le take_add)
  have "mset (take n ?f) = mset (take n ?e)" unfolding t [of ?f] t [of ?e] by (simp add: fr(2,3))
  moreover have "mset (take n ?e) = mset (take n d)"
    using Suc.prems by (simp add: take_swap_at mset_swap_at)
  moreover have "drop n ?f = drop n d"
  proof -
    have "drop n ?f = drop (n - Suc i) (drop (Suc i) ?f)" using Suc.prems(1) by simp
    also have "\<dots> = drop n ?e" unfolding fr(3) using Suc.prems(1) by simp
    finally show ?thesis using Suc.prems by (simp add: drop_swap_at)
  qed
  ultimately show ?case using Suc fr(1) by simp
qed simp

text \<open>The two loops together.\<close>

definition heap_sort :: "('a \<Rightarrow> 'a \<Rightarrow> int) \<Rightarrow> nat \<Rightarrow> 'a list \<Rightarrow> 'a list" where
  "heap_sort cmp n d = (if n \<ge> 2 then extract_max cmp (n - 1) (build_heap cmp (parent_idx (n - 1)) n d) else d)"

lemma heap_sort_frame:
  assumes "n \<le> length d"
  shows "length (heap_sort cmp n d) = length d" "mset (take n (heap_sort cmp n d)) = mset (take n d)"
    "drop n (heap_sort cmp n d) = drop n d"
proof -
  have "parent_idx (n - 1) < n" "n - 1 < n" if "n \<ge> 2" using that by (auto simp: parent_idx_def)
  then show "length (heap_sort cmp n d) = length d" "mset (take n (heap_sort cmp n d)) = mset (take n d)"
    "drop n (heap_sort cmp n d) = drop n d"
    using assms build_heap_frame [of "parent_idx (n - 1)" n d cmp]
      extract_max_frame [of "n - 1" n "build_heap cmp (parent_idx (n - 1)) n d" cmp]
    by (auto simp: heap_sort_def)
qed


context cmp_order
begin

lemma heap_sort_sorted:
  assumes "n \<le> length d"
  shows "sorted_wrt (\<lambda>x y. cmp x y \<le> 0) (take n (heap_sort cmp n d))"
proof (cases "n \<ge> 2")
  case True
  let ?b = "build_heap cmp (parent_idx (n - 1)) n d"
  have "heap_from cmp (Suc (parent_idx (n - 1))) n d" by (auto simp: heap_from_def parent_idx_def)
  moreover have p: "parent_idx (n - 1) < n" "n - 1 < n" using True by (auto simp: parent_idx_def)
  ultimately have "heap_from cmp 0 n ?b" using assms by (intro build_heap_heap)
  then have "heap_and_rest (n - 1) n ?b" using True by (auto simp: heap_and_rest_def)
  moreover have l: "length ?b = length d" using build_heap_frame [OF p(1) assms] by blast
  ultimately have "\<forall>b<n. \<forall>a<b. cmp (heap_sort cmp n d ! a) (heap_sort cmp n d ! b) \<le> 0"
    using extract_max_sorted [of "n - 1" n ?b] p assms True by (simp add: heap_sort_def)
  then show ?thesis using heap_sort_frame(1) [OF assms, of cmp] assms by (simp add: sorted_wrt_iff_nth_less)
next
  case False
  then have "length (take n d) \<le> 1" by simp
  then show ?thesis using False by (cases "take n d") (auto simp: heap_sort_def)
qed

end

section \<open>Binary search\<close>

definition first_match :: "('a \<Rightarrow> bool) \<Rightarrow> 'a list \<Rightarrow> nat option \<Rightarrow> bool" where
  "first_match P xs r \<longleftrightarrow>
    (case r of None \<Rightarrow> \<forall>x\<in>set xs. \<not> P x | Some i \<Rightarrow> i < length xs \<and> P (xs ! i) \<and> (\<forall>j<i. \<not> P (xs ! j)))"

lemma first_index_match:
  "case first_index P xs i of None \<Rightarrow> \<forall>x\<in>set xs. \<not> P x
   | Some k \<Rightarrow> i \<le> k \<and> k - i < length xs \<and> P (xs ! (k - i)) \<and> (\<forall>j<k - i. \<not> P (xs ! j))"
proof (induction P xs i rule: first_index.induct)
  case (2 P x xs i)
  show ?case
  proof (cases "P x")
    case False
    with 2 show ?thesis
      by (auto simp: nth_Cons' Suc_diff_le split: option.splits)
  qed simp
qed simp

lemma bsearch_match:
  assumes pos: "\<And>a b. a \<le> b \<Longrightarrow> b < n \<Longrightarrow> 0 < f (d ! b) \<Longrightarrow> 0 < f (d ! a)"
    and neg: "\<And>a b. a \<le> b \<Longrightarrow> b < n \<Longrightarrow> f (d ! a) < 0 \<Longrightarrow> f (d ! b) < 0"
    and lo: "\<forall>a<lo. 0 < f (d ! a)" and hi: "\<forall>z<n. f (d ! z) = 0 \<longrightarrow> (\<exists>y<hi. f (d ! y) = 0)" and "hi \<le> n"
  shows "case bsearch f d lo hi of None \<Rightarrow> \<forall>z<n. f (d ! z) \<noteq> 0
    | Some i \<Rightarrow> i < n \<and> f (d ! i) = 0 \<and> (\<forall>j<i. f (d ! j) \<noteq> 0)"
  using lo hi \<open>hi \<le> n\<close>
proof (induction "hi - lo" arbitrary: lo hi rule: less_induct)
  case less
  show ?case
  proof (cases "lo < hi")
    case False
    then have "bsearch f d lo hi = None" by (simp add: bsearch.simps)
    moreover have "f (d ! z) \<noteq> 0" if "z < n" for z
    proof
      assume "f (d ! z) = 0"
      with less.prems(2) that obtain y where "y < hi" "f (d ! y) = 0" by blast
      with less.prems(1) False show False by (metis less_irrefl less_le_trans not_less)
    qed
    ultimately show ?thesis by simp
  next
    case True
    define mid where "mid = lo + (hi - lo - 1) div 2"
    have m: "lo \<le> mid" "mid < hi" using True by (auto simp: mid_def)
    have mn: "mid < n" using m less.prems(3) by simp
    consider (gt) "f (d ! mid) > 0" | (lt) "f (d ! mid) < 0" | (one) "f (d ! mid) = 0" "hi - lo = 1"
      | (eq) "f (d ! mid) = 0" "hi - lo \<noteq> 1" by linarith
    then show ?thesis
    proof cases
      case gt
      have "bsearch f d lo hi = bsearch f d (mid + 1) hi"
        using True gt by (subst bsearch.simps) (simp add: Let_def mid_def)
      moreover have "\<forall>a<mid + 1. 0 < f (d ! a)" using pos [of _ mid] gt mn by (simp add: less_Suc_eq_le)
      ultimately show ?thesis using less.hyps [of hi "mid + 1"] less.prems m by simp
    next
      case lt
      have e: "bsearch f d lo hi = bsearch f d lo mid"
        using True lt by (subst bsearch.simps) (simp add: Let_def mid_def)
      have "\<forall>z<n. f (d ! z) = 0 \<longrightarrow> (\<exists>y<mid. f (d ! y) = 0)"
      proof (intro allI impI)
        fix z assume z: "z < n" "f (d ! z) = 0"
        then have "z < mid" using neg [of mid z] lt by (cases "mid \<le> z") auto
        with z show "\<exists>y<mid. f (d ! y) = 0" by blast
      qed
      then show ?thesis unfolding e using less.hyps [of mid lo] less.prems m by simp
    next
      case one
      then have "mid = lo" by (simp add: mid_def)
      moreover have "bsearch f d lo hi = Some mid"
        using True one by (subst bsearch.simps) (simp add: Let_def mid_def)
      ultimately show ?thesis using one mn less.prems(1) by auto
    next
      case eq
      have m2: "mid + 1 < hi" using eq(2) True by (simp add: mid_def)
      have e: "bsearch f d lo hi = bsearch f d lo (mid + 1)"
        using True eq by (subst bsearch.simps) (simp add: Let_def mid_def)
      have "\<forall>z<n. f (d ! z) = 0 \<longrightarrow> (\<exists>y<mid + 1. f (d ! y) = 0)" using eq(1) by auto
      then show ?thesis unfolding e using less.hyps [of "mid + 1" lo] less.prems m m2 by simp
    qed
  qed
qed

end
