(* ===== verification/Stack_Spec.thy ===== *)
theory Stack_Spec
  imports Stack_Sort
begin

text \<open>
  What the stack promises: it is a list of pointers, every operation keeps it well formed, and a search
  finds the first match, by pointer, by comparison or by binary search.
\<close>

section \<open>Well-formed stacks\<close>

definition contents :: "stack \<Rightarrow> ptr list" where
  "contents sk = take (num sk) (data sk)"

text \<open>The array has the size noted and room for one more pointer, its size in bytes fits in a \<open>size_t\<close>,
  and the flag tells the truth.\<close>

definition stack_ok :: "(nat \<Rightarrow> ptr \<Rightarrow> ptr \<Rightarrow> int) \<Rightarrow> stack \<Rightarrow> bool" where
  "stack_ok call_cmp sk \<longleftrightarrow>
    length (data sk) = num_alloc sk \<and> num sk < num_alloc sk \<and> num sk \<le> INT_MAX_nat \<and>
    num_alloc sk \<le> 2 * INT_MAX_nat \<and>
    (sorted_flag sk \<longrightarrow>
      (case comp sk of None \<Rightarrow> False | Some c \<Rightarrow> sorted_wrt (\<lambda>x y. call_cmp c x y \<le> 0) (contents sk)))"

lemma length_contents: "stack_ok call_cmp sk \<Longrightarrow> length (contents sk) = num sk"
  by (simp add: stack_ok_def contents_def)

lemma sorted_wrt_subseq: "subseq xs ys \<Longrightarrow> sorted_wrt P ys \<Longrightarrow> sorted_wrt P xs"
  by (induction rule: list_emb.induct) (auto dest: list_emb_set)

text \<open>A change of the array and the number of elements whose contents are a subsequence.\<close>

lemma stack_ok_shrink:
  assumes "stack_ok call_cmp sk" "length d = length (data sk)" "n \<le> num sk" "subseq (take n d) (contents sk)"
  shows "stack_ok call_cmp (sk\<lparr>data := d, num := n\<rparr>)"
proof -
  have "sorted_wrt P (take n d)" if "sorted_wrt P (contents sk)" for P
    using assms(4) that by (rule sorted_wrt_subseq)
  then show ?thesis using assms
    by (auto simp: stack_ok_def contents_def split: option.splits)
qed

section \<open>The operations on the contents\<close>

lemma sk_new_ok:
  "alloc_ok alloc \<Longrightarrow> OPENSSL_sk_new alloc c = Some sk \<Longrightarrow> stack_ok call_cmp sk \<and> contents sk = [] \<and> comp sk = c"
  by (auto simp: OPENSSL_sk_new_def stack_ok_def contents_def alloc_ok_def split: option.splits)

lemma sk_zero_ok:
  "stack_ok call_cmp sk \<Longrightarrow> \<exists>sk'. OPENSSL_sk_zero (Some sk) = Some sk' \<and> stack_ok call_cmp sk' \<and> contents sk' = []"
  by (auto simp: OPENSSL_sk_zero_def stack_ok_def contents_def)

lemma sk_grow_ok:
  assumes "stack_ok call_cmp sk" "alloc_ok alloc" "num sk < INT_MAX_nat" "sk_grow alloc sk = Some sk'"
  shows "length (data sk') = num_alloc sk' \<and> num sk' = num sk \<and> num sk + 1 < num_alloc sk' \<and>
    num_alloc sk' \<le> 2 * INT_MAX_nat \<and> contents sk' = contents sk \<and> comp sk' = comp sk"
proof -
  have ok: "length (data sk) = num_alloc sk" "num sk < num_alloc sk" "num_alloc sk \<le> 2 * INT_MAX_nat"
    using assms(1) by (simp_all add: stack_ok_def)
  have s: "sz_add (num sk) 1 = num sk + 1" using assms(3) by (intro sz_add_small) simp
  show ?thesis
  proof (cases "num_alloc sk \<le> num sk + 1")
    case False
    then show ?thesis using assms(4) ok by (simp add: sk_grow_def s)
  next
    case True
    define a where "a = num_alloc sk * 2"
    have a: "a \<le> 2 * INT_MAX_nat" "num sk + 1 < a" "a mod SIZE_LIMIT = a" "(a * 8) mod SIZE_LIMIT = a * 8" "\<not> a < num_alloc sk"
      using True assms(3) ok by (simp_all add: a_def)
    then obtain blk where b: "alloc (a * 8) = Some blk"
        "sk' = sk\<lparr>data := take a (data sk) @ drop (length (data sk)) blk, num_alloc := a\<rparr>"
      using assms(4) True by (auto simp: sk_grow_def s a_def [symmetric] Let_def split: option.splits)
    have "length blk = a" using assms(2) b(1) by (auto simp: alloc_ok_def)
    with a b(2) ok show ?thesis by (simp add: contents_def)
  qed
qed

lemma sk_insert_ok:
  assumes "stack_ok call_cmp sk" "alloc_ok alloc"
  shows "\<exists>r sk'. OPENSSL_sk_insert alloc (Some sk) p pos = (r, Some sk') \<and> stack_ok call_cmp sk' \<and>
    (r = 0 \<and> sk' = sk \<or>
     r = num sk + 1 \<and> contents sk' = take pos (contents sk) @ p # drop pos (contents sk) \<and> comp sk' = comp sk)"
proof (cases "num sk \<ge> INT_MAX_nat \<or> sk_grow alloc sk = None")
  case True
  then show ?thesis using assms(1) by (auto simp: OPENSSL_sk_insert_def)
next
  case False
  then obtain g where g: "sk_grow alloc sk = Some g" by auto
  have "num sk < INT_MAX_nat" using False by simp
  note grown = sk_grow_ok [OF assms this g]
  from grown have G: "length (data g) = num_alloc g" "num g = num sk" "num sk + 1 < num_alloc g"
    "num_alloc g \<le> 2 * INT_MAX_nat" "contents g = contents sk" "comp g = comp sk" by blast+
  let ?n = "num sk"
  define d where "d = (if pos \<ge> ?n then (data g)[?n := p]
      else take pos (data g) @ p # take (?n - pos) (drop pos (data g)) @ drop (?n + 1) (data g))"
  define sk' where "sk' = g\<lparr>data := d, num := ?n + 1, sorted_flag := False\<rparr>"
  have r: "OPENSSL_sk_insert alloc (Some sk) p pos = (?n + 1, Some sk')"
    using \<open>num sk < INT_MAX_nat\<close> G(2) by (simp add: OPENSSL_sk_insert_def g sk'_def d_def Let_def)
  have c: "contents sk = take ?n (data g)"
    by (simp only: G(5) [symmetric]) (simp only: contents_def G(2))
  have "take (?n + 1) d = take pos (contents sk) @ p # drop pos (contents sk)"
  proof (cases "pos \<ge> ?n")
    case True
    then show ?thesis using G(1,3) by (simp add: d_def c take_Suc_conv_app_nth)
  next
    case pos: False
    have e: "take (?n - pos) (drop pos (data g)) = drop pos (take ?n (data g))" by (simp add: drop_take)
    then show ?thesis using G(1,3) pos by (simp add: d_def c min_def Suc_diff_le)
  qed
  moreover have "length d = num_alloc g" using G(1,3) by (simp add: d_def)
  ultimately have "stack_ok call_cmp sk'" "contents sk' = take pos (contents sk) @ p # drop pos (contents sk)"
    using G(3,4) \<open>num sk < INT_MAX_nat\<close> by (simp_all add: stack_ok_def contents_def sk'_def)
  with r show ?thesis using G(6) by (auto simp: sk'_def)
qed

lemma sk_delete_ok:
  assumes "stack_ok call_cmp sk" "pos < num sk"
  shows "\<exists>sk'. OPENSSL_sk_delete (Some sk) pos = (contents sk ! pos, Some sk') \<and> stack_ok call_cmp sk' \<and>
    contents sk' = take pos (contents sk) @ drop (pos + 1) (contents sk) \<and> comp sk' = comp sk"
proof -
  let ?n = "num sk"
  define d where "d = (if pos \<noteq> ?n - 1 then take pos (data sk) @ take (?n - pos - 1) (drop (pos + 1) (data sk)) @
      drop (?n - 1) (data sk) else data sk)"
  have l: "length (data sk) = num_alloc sk" "?n < num_alloc sk" using assms(1) by (simp_all add: stack_ok_def)
  have c: "take (?n - 1) d = take pos (contents sk) @ drop (pos + 1) (contents sk)"
  proof (cases "pos = ?n - 1")
    case True
    then show ?thesis using assms(2) l by (simp add: d_def contents_def min_def)
  next
    case False
    have "take (?n - pos - 1) (drop (pos + 1) (data sk)) = drop (pos + 1) (contents sk)"
      by (simp add: contents_def drop_take)
    moreover have "take pos (data sk) = take pos (contents sk)" using assms(2) by (simp add: contents_def min_def)
    ultimately show ?thesis using False assms(2) l by (simp add: d_def length_contents [OF assms(1)])
  qed
  have "subseq (take (?n - 1) d) (contents sk)"
  proof -
    have "subseq (take pos (contents sk) @ drop (pos + 1) (contents sk)) (take pos (contents sk) @ drop pos (contents sk))"
      using assms(2) length_contents [OF assms(1)] by (intro list_emb_append_mono) (simp_all add: list_emb_Cons flip: Cons_nth_drop_Suc)
    then show ?thesis unfolding c by simp
  qed
  moreover have "length d = length (data sk)" using assms(2) l by (simp add: d_def)
  ultimately have "stack_ok call_cmp (sk\<lparr>data := d, num := ?n - 1\<rparr>)" using assms by (intro stack_ok_shrink) simp_all
  moreover have "OPENSSL_sk_delete (Some sk) pos = (contents sk ! pos, Some (sk\<lparr>data := d, num := ?n - 1\<rparr>))"
    using assms(2) by (simp add: OPENSSL_sk_delete_def d_def Let_def contents_def)
  ultimately show ?thesis using c by (simp add: contents_def)
qed

lemma delete_if_loop_eq:
  assumes "i + k \<le> length d" "m \<le> i"
  shows "delete_if_loop del k i m d =
    (m + length (filter (\<lambda>p. \<not> del p) (take k (drop i d))),
     take m d @ filter (\<lambda>p. \<not> del p) (take k (drop i d)) @ drop (m + length (filter (\<lambda>p. \<not> del p) (take k (drop i d)))) d)"
  using assms
proof (induction k arbitrary: i m d)
  case (Suc k)
  have t: "take (Suc k) (drop i d) = d ! i # take k (drop (Suc i) d)"
    using Suc.prems by (simp flip: Cons_nth_drop_Suc)
  show ?case
  proof (cases "del (d ! i)")
    case True
    then show ?thesis using Suc unfolding t by simp
  next
    case False
    have "drop (Suc i) (d[m := d ! i]) = drop (Suc i) d" using Suc.prems by simp
    moreover have "take (Suc m) (d[m := d ! i]) = take m d @ [d ! i]" using Suc.prems by (simp add: take_Suc_conv_app_nth)
    ultimately show ?thesis using Suc.IH [of "Suc i" "d[m := d ! i]" "Suc m"] Suc.prems False unfolding t by simp
  qed
qed simp

lemma sk_delete_if_ok:
  assumes "stack_ok call_cmp sk"
  shows "\<exists>sk'. OPENSSL_sk_delete_if (Some sk) del = Some sk' \<and> stack_ok call_cmp sk' \<and>
    contents sk' = filter (\<lambda>p. \<not> del p) (contents sk) \<and> comp sk' = comp sk"
proof -
  define f where "f = filter (\<lambda>p. \<not> del p) (contents sk)"
  define d where "d = f @ drop (length f) (data sk)"
  have l: "length (data sk) = num_alloc sk" "num sk < num_alloc sk" using assms by (simp_all add: stack_ok_def)
  have lf: "length f \<le> num sk" using length_filter_le [of "\<lambda>p. \<not> del p" "contents sk"] length_contents [OF assms] by (simp add: f_def)
  have "OPENSSL_sk_delete_if (Some sk) del = Some (sk\<lparr>data := d, num := length f\<rparr>)"
    using l by (simp add: OPENSSL_sk_delete_if_def delete_if_loop_eq d_def f_def contents_def)
  moreover have "stack_ok call_cmp (sk\<lparr>data := d, num := length f\<rparr>)"
    using assms l lf by (intro stack_ok_shrink) (simp_all add: d_def, simp add: f_def)
  ultimately show ?thesis by (simp add: contents_def d_def) (simp add: f_def contents_def)
qed

lemma sk_find_ok:
  assumes ok: "stack_ok call_cmp sk" and cmp: "\<And>c. comp sk = Some c \<Longrightarrow> cmp_order (call_cmp c)"
  shows "first_match (case comp sk of None \<Rightarrow> \<lambda>x. x = p | Some c \<Rightarrow> \<lambda>x. p \<noteq> 0 \<and> call_cmp c p x = 0)
    (contents sk) (OPENSSL_sk_find call_cmp (Some sk) p)"
proof -
  have f: "first_match P (contents sk) (first_index P (contents sk) 0)" for P
    using first_index_match [where P = P and xs = "contents sk" and i = 0] by (simp add: first_match_def split: option.splits)
  have l: "length (contents sk) = num sk" "num sk \<le> length (data sk)"
    using length_contents [OF ok] ok by (simp_all add: stack_ok_def)
  have n: "contents sk ! i = data sk ! i" if "i < num sk" for i using that by (simp add: contents_def)
  show ?thesis
  proof (cases "comp sk")
    case None
    then show ?thesis using f by (simp add: OPENSSL_sk_find_def flip: contents_def)
  next
    case (Some c)
    note ord = cmp [OF Some]
    note le_trans = cmp_order.le_trans [OF ord] and swap_sign = cmp_order.swap_sign [OF ord]
    show ?thesis
    proof (cases "p = 0")
      case True
      then show ?thesis by (simp add: OPENSSL_sk_find_def Some first_match_def)
    next
      case p: False
      show ?thesis
      proof (cases "OPENSSL_sk_is_sorted (Some sk)")
        case False
        then show ?thesis using p f [of "\<lambda>x. call_cmp c p x = 0"] by (simp add: OPENSSL_sk_find_def Some flip: contents_def)
      next
        case True
        have "sorted_wrt (\<lambda>x y. call_cmp c x y \<le> 0) (contents sk)"
        proof (cases "sorted_flag sk")
          case False
          with True have "length (contents sk) < 2" using l(1) by (simp add: OPENSSL_sk_is_sorted_def)
          then show ?thesis by (cases "contents sk") auto
        qed (use ok Some in \<open>simp add: stack_ok_def\<close>)
        then have srt: "call_cmp c (data sk ! a) (data sk ! b) \<le> 0" if "a \<le> b" "b < num sk" for a b
          using that sorted_wrt_nth_less [of _ "contents sk" a b] cmp_order.le_refl [OF ord] l n by (cases "a = b") auto
        let ?f = "call_cmp c p"
        have pos: "0 < ?f (data sk ! a)" if "a \<le> b" "b < num sk" "0 < ?f (data sk ! b)" for a b
          using le_trans [of p "data sk ! a" "data sk ! b"] srt [OF that(1,2)] that(3) by linarith
        have neg: "?f (data sk ! b) < 0" if "a \<le> b" "b < num sk" "?f (data sk ! a) < 0" for a b
          using le_trans [of "data sk ! a" "data sk ! b" p] srt [OF that(1,2)] that(3)
            swap_sign [of p "data sk ! a"] swap_sign [of p "data sk ! b"] by linarith
        have "case bsearch ?f (data sk) 0 (num sk) of None \<Rightarrow> \<forall>z<num sk. ?f (data sk ! z) \<noteq> 0
          | Some i \<Rightarrow> i < num sk \<and> ?f (data sk ! i) = 0 \<and> (\<forall>j<i. ?f (data sk ! j) \<noteq> 0)"
          by (rule bsearch_match) (fact pos, fact neg, auto)
        then have "first_match (\<lambda>x. ?f x = 0) (contents sk) (bsearch ?f (data sk) 0 (num sk))"
          using l n by (auto simp: first_match_def in_set_conv_nth split: option.splits)
        then show ?thesis using p True by (simp add: OPENSSL_sk_find_def Some)
      qed
    qed
  qed
qed

lemma sk_sort_ok:
  assumes ok: "stack_ok call_cmp sk" and cmp: "\<And>c. comp sk = Some c \<Longrightarrow> cmp_order (call_cmp c)"
  shows "\<exists>sk'. OPENSSL_sk_sort call_cmp (Some sk) = Some sk' \<and> stack_ok call_cmp sk' \<and>
    mset (contents sk') = mset (contents sk) \<and> comp sk' = comp sk \<and> (comp sk \<noteq> None \<longrightarrow> sorted_flag sk') \<and>
    (comp sk = None \<longrightarrow> sk' = sk)"
proof (cases "comp sk")
  case None
  then show ?thesis using ok by (simp add: OPENSSL_sk_sort_def)
next
  case (Some c)
  have l: "num sk \<le> length (data sk)" using ok by (simp add: stack_ok_def)
  show ?thesis
  proof (cases "sorted_flag sk")
    case True
    then show ?thesis using ok Some by (simp add: OPENSSL_sk_sort_def)
  next
    case False
    define d where "d = heap_sort (call_cmp c) (num sk) (data sk)"
    have "OPENSSL_sk_sort call_cmp (Some sk) = Some (sk\<lparr>data := d, sorted_flag := True\<rparr>)"
      using Some False by (simp add: OPENSSL_sk_sort_def d_def heap_sort_def Let_def)
    moreover have "length d = length (data sk)" "mset (take (num sk) d) = mset (contents sk)"
      using heap_sort_frame [OF l, of "call_cmp c"] by (simp_all add: d_def contents_def)
    moreover have "sorted_wrt (\<lambda>x y. call_cmp c x y \<le> 0) (take (num sk) d)"
      unfolding d_def using cmp_order.heap_sort_sorted [OF cmp [OF Some] l] .
    ultimately show ?thesis using ok Some by (simp add: stack_ok_def contents_def)
  qed
qed

lemma remove1_first:
  "i < length xs \<Longrightarrow> xs ! i = p \<Longrightarrow> \<forall>j<i. xs ! j \<noteq> p \<Longrightarrow> remove1 p xs = take i xs @ drop (i + 1) xs"
proof (induction i arbitrary: xs)
  case 0
  then show ?case by (cases xs) auto
next
  case (Suc i)
  then obtain x ys where xs: "xs = x # ys" by (cases xs) auto
  have "x \<noteq> p" using Suc.prems(3) xs by (metis nth_Cons_0 zero_less_Suc)
  moreover have "\<forall>j<i. ys ! j \<noteq> p" using Suc.prems(3) xs by (metis Suc_less_eq nth_Cons_Suc)
  ultimately show ?case using Suc.IH [of ys] Suc.prems(1,2) xs by simp
qed

lemma sk_delete_ptr_ok:
  assumes "stack_ok call_cmp sk"
  shows "\<exists>sk'. OPENSSL_sk_delete_ptr (Some sk) p = (if p \<in> set (contents sk) then p else 0, Some sk') \<and>
    stack_ok call_cmp sk' \<and> contents sk' = remove1 p (contents sk)"
proof -
  have f: "OPENSSL_sk_delete_ptr (Some sk) p =
      (case first_index (\<lambda>x. x = p) (contents sk) 0 of None \<Rightarrow> (0, Some sk) | Some i \<Rightarrow> OPENSSL_sk_delete (Some sk) i)"
    by (simp add: OPENSSL_sk_delete_ptr_def contents_def)
  note m = first_index_match [where P = "\<lambda>x. x = p" and xs = "contents sk" and i = 0]
  show ?thesis
  proof (cases "first_index (\<lambda>x. x = p) (contents sk) 0")
    case None
    then have "p \<notin> set (contents sk)" using m by auto
    then show ?thesis using assms None by (simp add: f remove1_idem)
  next
    case (Some i)
    then have i: "i < length (contents sk)" "contents sk ! i = p" "\<forall>j<i. contents sk ! j \<noteq> p" using m by simp_all
    then have "p \<in> set (contents sk)" by (metis nth_mem)
    moreover have "i < num sk" using i(1) length_contents [OF assms] by simp
    ultimately show ?thesis using sk_delete_ok [OF assms, of i] i remove1_first [OF i] by (auto simp: f Some)
  qed
qed

lemma sk_delete_out: "\<not> pos < num sk \<Longrightarrow> OPENSSL_sk_delete (Some sk) pos = (0, Some sk)"
  by (simp add: OPENSSL_sk_delete_def)

lemma contents_upd [simp]: "contents (sk\<lparr>comp := c\<rparr>) = contents sk" "contents (sk\<lparr>sorted_flag := f\<rparr>) = contents sk"
  by (simp_all add: contents_def)

lemma sk_set_cmp_func_ok:
  assumes "stack_ok call_cmp sk"
  shows "case OPENSSL_sk_set_cmp_func sk c of (old, sk') \<Rightarrow>
    old = comp sk \<and> comp sk' = c \<and> contents sk' = contents sk \<and> stack_ok call_cmp sk'"
  using assms by (auto simp: OPENSSL_sk_set_cmp_func_def stack_ok_def Let_def split: option.splits)

lemma sk_dup_ok:
  assumes "stack_ok call_cmp sk" "OPENSSL_sk_dup alloc (Some sk) = Some sk'"
  shows "sk' = sk"
  using assms by (auto simp: OPENSSL_sk_dup_def stack_ok_def Let_def split: option.splits if_splits)

section \<open>The properties\<close>

text \<open>The stacks a program can have: made by the operations, in any order.  \<open>OPENSSL_sk_set\<close> and
  \<open>OPENSSL_sk_deep_copy\<close> write elements and leave the \<open>sorted\<close> flag as it is; \<open>kept\<close> says that neither has done so
  while the flag was set.\<close>

inductive stack_made :: "(nat \<Rightarrow> ptr list option) \<Rightarrow> (nat \<Rightarrow> ptr \<Rightarrow> ptr \<Rightarrow> int) \<Rightarrow> bool \<Rightarrow> stack \<Rightarrow> bool" for alloc call_cmp where
  new: "OPENSSL_sk_new alloc c = Some sk \<Longrightarrow> stack_made alloc call_cmp True sk"
| zero: "stack_made alloc call_cmp kept sk \<Longrightarrow> OPENSSL_sk_zero (Some sk) = Some sk' \<Longrightarrow> stack_made alloc call_cmp kept sk'"
| insert: "stack_made alloc call_cmp kept sk \<Longrightarrow> OPENSSL_sk_insert alloc (Some sk) p pos = (r, Some sk') \<Longrightarrow> stack_made alloc call_cmp kept sk'"
| delete: "stack_made alloc call_cmp kept sk \<Longrightarrow> OPENSSL_sk_delete (Some sk) pos = (q, Some sk') \<Longrightarrow> stack_made alloc call_cmp kept sk'"
| delete_ptr: "stack_made alloc call_cmp kept sk \<Longrightarrow> OPENSSL_sk_delete_ptr (Some sk) p = (q, Some sk') \<Longrightarrow> stack_made alloc call_cmp kept sk'"
| delete_if: "stack_made alloc call_cmp kept sk \<Longrightarrow> OPENSSL_sk_delete_if (Some sk) del = Some sk' \<Longrightarrow> stack_made alloc call_cmp kept sk'"
| shift: "stack_made alloc call_cmp kept sk \<Longrightarrow> OPENSSL_sk_shift (Some sk) = (q, Some sk') \<Longrightarrow> stack_made alloc call_cmp kept sk'"
| pop: "stack_made alloc call_cmp kept sk \<Longrightarrow> OPENSSL_sk_pop (Some sk) = (q, Some sk') \<Longrightarrow> stack_made alloc call_cmp kept sk'"
| push: "stack_made alloc call_cmp kept sk \<Longrightarrow> OPENSSL_sk_push alloc sk p = (r, Some sk') \<Longrightarrow> stack_made alloc call_cmp kept sk'"
| sort: "stack_made alloc call_cmp kept sk \<Longrightarrow> OPENSSL_sk_sort call_cmp (Some sk) = Some sk' \<Longrightarrow> stack_made alloc call_cmp kept sk'"
| set_cmp: "stack_made alloc call_cmp kept sk \<Longrightarrow> OPENSSL_sk_set_cmp_func sk c = (old, sk') \<Longrightarrow> stack_made alloc call_cmp kept sk'"
| dup: "stack_made alloc call_cmp kept sk \<Longrightarrow> OPENSSL_sk_dup alloc (Some sk) = Some sk' \<Longrightarrow> stack_made alloc call_cmp kept sk'"
| set: "stack_made alloc call_cmp kept sk \<Longrightarrow> OPENSSL_sk_set (Some sk) i v = (q, Some sk') \<Longrightarrow>
    stack_made alloc call_cmp (kept \<and> \<not> sorted_flag sk) sk'"
| deep_copy: "stack_made alloc call_cmp kept sk \<Longrightarrow> OPENSSL_sk_deep_copy alloc copy (Some sk) = (Some sk', freed) \<Longrightarrow>
    stack_made alloc call_cmp (kept \<and> \<not> sorted_flag sk) sk'"

lemma sk_delete_keeps: "stack_ok call_cmp sk \<Longrightarrow> OPENSSL_sk_delete (Some sk) pos = (q, Some sk') \<Longrightarrow> stack_ok call_cmp sk'"
  using sk_delete_ok [of call_cmp sk pos] sk_delete_out [of pos sk] by (cases "pos < num sk") auto

lemma sk_insert_keeps:
  "stack_ok call_cmp sk \<Longrightarrow> alloc_ok alloc \<Longrightarrow> OPENSSL_sk_insert alloc (Some sk) p pos = (r, Some sk') \<Longrightarrow> stack_ok call_cmp sk'"
  using sk_insert_ok [of call_cmp sk alloc p pos] by auto

lemma sk_shift_keeps: "stack_ok call_cmp sk \<Longrightarrow> OPENSSL_sk_shift (Some sk) = (q, Some sk') \<Longrightarrow> stack_ok call_cmp sk'"
  using sk_delete_keeps [of call_cmp sk 0 q sk'] by (auto simp: OPENSSL_sk_shift_def split: if_splits)

lemma sk_pop_keeps: "stack_ok call_cmp sk \<Longrightarrow> OPENSSL_sk_pop (Some sk) = (q, Some sk') \<Longrightarrow> stack_ok call_cmp sk'"
  using sk_delete_keeps [of call_cmp sk "num sk - 1" q sk'] by (auto simp: OPENSSL_sk_pop_def split: if_splits)

text \<open>A comparison function for which everything is in order: what is left of \<open>stack_ok\<close> is the shape of the
  stack, and that a stack with the flag has a comparison function.\<close>

abbreviation (input) no_order :: "nat \<Rightarrow> ptr \<Rightarrow> ptr \<Rightarrow> int" where "no_order \<equiv> \<lambda>_ _ _. 0"

lemma stack_ok_no_order: "stack_ok call_cmp sk \<Longrightarrow> stack_ok no_order sk"
  by (auto simp: stack_ok_def sorted_wrt_iff_nth_less split: option.splits)

lemma stack_ok_unsorted: "stack_ok no_order sk \<Longrightarrow> \<not> sorted_flag sk \<Longrightarrow> stack_ok call_cmp sk"
  by (simp add: stack_ok_def)

lemma sk_sort_shape:
  assumes "stack_ok no_order sk" "\<And>c. cmp_order (call_cmp c)" "OPENSSL_sk_sort call_cmp (Some sk) = Some sk'"
  shows "stack_ok no_order sk'"
proof (cases "sorted_flag sk")
  case True
  then show ?thesis using assms(1,3) by (auto simp: OPENSSL_sk_sort_def split: option.splits)
next
  case False
  then have "stack_ok call_cmp sk" by (rule stack_ok_unsorted [OF assms(1)])
  from sk_sort_ok [of call_cmp sk, OF this assms(2)] assms(3) have "stack_ok call_cmp sk'" by auto
  then show ?thesis by (rule stack_ok_no_order)
qed

lemma sk_set_shape:
  "stack_ok no_order sk \<Longrightarrow> OPENSSL_sk_set (Some sk) i v = (q, Some sk') \<Longrightarrow>
    stack_ok no_order sk' \<and> sorted_flag sk' = sorted_flag sk"
  by (auto simp: OPENSSL_sk_set_def stack_ok_def sorted_wrt_iff_nth_less split: if_splits option.splits)

lemma length_deep_copy_loop: "fst (deep_copy_loop copy k i d) = Some d' \<Longrightarrow> length d' = length d"
  by (induction copy k i d rule: deep_copy_loop.induct) (auto simp: Let_def split: if_splits)

lemma sk_deep_copy_shape:
  assumes "stack_ok no_order sk" "OPENSSL_sk_deep_copy alloc copy (Some sk) = (Some sk', freed)"
  shows "stack_ok no_order sk' \<and> sorted_flag sk' = sorted_flag sk"
proof -
  obtain ret where d: "OPENSSL_sk_dup alloc (Some sk) = Some ret"
    using assms(2) by (auto simp: OPENSSL_sk_deep_copy_def split: option.splits)
  then have "ret = sk" by (rule sk_dup_ok [OF assms(1)])
  then obtain d' where l: "fst (deep_copy_loop copy (num sk) 0 (data sk)) = Some d'" "sk' = sk\<lparr>data := d'\<rparr>"
    using assms(2) d by (auto simp: OPENSSL_sk_deep_copy_def split: option.splits prod.splits)
  then show ?thesis using assms(1) length_deep_copy_loop [OF l(1)]
    by (auto simp: stack_ok_def sorted_wrt_iff_nth_less split: option.splits)
qed

lemma stack_made_ok:
  assumes "stack_made alloc call_cmp kept sk" "alloc_ok alloc" "\<And>c. cmp_order (call_cmp c)"
  shows "stack_ok no_order sk \<and> (kept \<longrightarrow> stack_ok call_cmp sk)"
  using assms(1)
proof (induction rule: stack_made.induct)
  case (new c sk)
  with sk_new_ok [OF assms(2)] show ?case by blast
next
  case (zero kept sk sk')
  then show ?case using sk_zero_ok [of call_cmp sk] sk_zero_ok [of no_order sk] by auto
next
  case (insert kept sk p pos r sk')
  then show ?case using sk_insert_keeps [OF _ assms(2)] by blast
next
  case (delete kept sk pos q sk')
  then show ?case using sk_delete_keeps by blast
next
  case (delete_ptr kept sk p q sk')
  then show ?case using sk_delete_ptr_ok [of call_cmp sk p] sk_delete_ptr_ok [of no_order sk p] by auto
next
  case (delete_if kept sk del sk')
  then show ?case using sk_delete_if_ok [of call_cmp sk del] sk_delete_if_ok [of no_order sk del] by auto
next
  case (shift kept sk q sk')
  then show ?case using sk_shift_keeps by blast
next
  case (pop kept sk q sk')
  then show ?case using sk_pop_keeps by blast
next
  case (push kept sk p r sk')
  then show ?case using sk_insert_keeps [OF _ assms(2)] unfolding OPENSSL_sk_push_def by blast
next
  case (sort kept sk sk')
  then show ?case using sk_sort_ok [of call_cmp sk, OF _ assms(3)] sk_sort_shape [OF _ assms(3) sort.hyps(2)] by auto
next
  case (set_cmp kept sk c old sk')
  then show ?case using sk_set_cmp_func_ok [of call_cmp sk c] sk_set_cmp_func_ok [of no_order sk c] by simp
next
  case (dup kept sk sk')
  then have "sk' = sk" using sk_dup_ok by blast
  with dup.IH show ?case by simp
next
  case (set kept sk i v q sk')
  then show ?case using sk_set_shape [OF _ set.hyps(2)] stack_ok_unsorted by auto
next
  case (deep_copy kept sk copy sk' freed)
  then show ?case using sk_deep_copy_shape [OF _ deep_copy.hyps(2)] stack_ok_unsorted by auto
qed

text \<open>(C40) Every stack made by the operations, in any order, has the array of the size noted, room for one more pointer,
  a size in bytes that a \<open>size_t\<close> holds, and a comparison function when its \<open>sorted\<close> flag is set.  As long as
  \<open>OPENSSL_sk_set\<close> and \<open>OPENSSL_sk_deep_copy\<close>, which do not look at the flag, are not called with it set (\<open>kept\<close>), the flag
  is truthful: the contents are in ascending order of the comparison function.\<close>

theorem stack_well_formed:
  assumes "stack_made alloc call_cmp kept sk" "alloc_ok alloc" "\<And>c. cmp_order (call_cmp c)"
  shows "length (data sk) = num_alloc sk \<and> num sk < num_alloc sk \<and> num_alloc sk * SIZEOF_PTR < SIZE_LIMIT \<and>
    (sorted_flag sk \<longrightarrow> (\<exists>c. comp sk = Some c \<and>
      (kept \<longrightarrow> sorted_wrt (\<lambda>x y. call_cmp c x y \<le> 0) (take (num sk) (data sk)))))"
  using stack_made_ok [OF assms] by (auto simp: stack_ok_def contents_def split: option.splits)

text \<open>(C9) The stack is a list: on a well-formed stack the number, an element, an insertion, the deletion of an index, of a
  pointer and of what a function selects, pop and shift are those of the list of its contents, and a failed insertion
  changes nothing.\<close>

theorem stack_refines_list:
  assumes "stack_ok call_cmp sk" "alloc_ok alloc"
  shows "OPENSSL_sk_num (Some sk) = length (contents sk) \<and>
    OPENSSL_sk_value (Some sk) i = (if i < length (contents sk) then contents sk ! i else 0) \<and>
    (\<exists>r sk'. OPENSSL_sk_insert alloc (Some sk) p i = (r, Some sk') \<and>
      (if r = 0 then sk' = sk
       else r = length (contents sk) + 1 \<and> contents sk' = take i (contents sk) @ p # drop i (contents sk))) \<and>
    (\<exists>sk'. OPENSSL_sk_delete (Some sk) i = (if i < length (contents sk) then contents sk ! i else 0, Some sk') \<and>
      contents sk' = take i (contents sk) @ drop (i + 1) (contents sk)) \<and>
    (\<exists>sk'. OPENSSL_sk_delete_ptr (Some sk) p = (if p \<in> set (contents sk) then p else 0, Some sk') \<and>
      contents sk' = remove1 p (contents sk)) \<and>
    (\<exists>sk'. OPENSSL_sk_delete_if (Some sk) del = Some sk' \<and> contents sk' = filter (\<lambda>p. \<not> del p) (contents sk)) \<and>
    (\<exists>sk'. OPENSSL_sk_pop (Some sk) = (if contents sk = [] then 0 else last (contents sk), Some sk') \<and>
      contents sk' = butlast (contents sk)) \<and>
    (\<exists>sk'. OPENSSL_sk_shift (Some sk) = (if contents sk = [] then 0 else hd (contents sk), Some sk') \<and>
      contents sk' = tl (contents sk))"
proof -
  note l = length_contents [OF assms(1)]
  have e: "contents sk = [] \<longleftrightarrow> num sk = 0" using l by (metis length_0_conv)
  show ?thesis
  proof (intro conjI)
    show "OPENSSL_sk_num (Some sk) = length (contents sk)" by (simp add: OPENSSL_sk_num_def l)
    show "OPENSSL_sk_value (Some sk) i = (if i < length (contents sk) then contents sk ! i else 0)"
      by (simp add: OPENSSL_sk_value_def l) (simp add: contents_def)
    show "\<exists>r sk'. OPENSSL_sk_insert alloc (Some sk) p i = (r, Some sk') \<and>
      (if r = 0 then sk' = sk
       else r = length (contents sk) + 1 \<and> contents sk' = take i (contents sk) @ p # drop i (contents sk))"
      using sk_insert_ok [OF assms, of p i] l by auto
    show "\<exists>sk'. OPENSSL_sk_delete (Some sk) i = (if i < length (contents sk) then contents sk ! i else 0, Some sk') \<and>
      contents sk' = take i (contents sk) @ drop (i + 1) (contents sk)"
      using sk_delete_ok [OF assms(1), of i] sk_delete_out [of i sk] l by (cases "i < num sk") auto
    show "\<exists>sk'. OPENSSL_sk_delete_ptr (Some sk) p = (if p \<in> set (contents sk) then p else 0, Some sk') \<and>
      contents sk' = remove1 p (contents sk)"
      using sk_delete_ptr_ok [OF assms(1), of p] by blast
    show "\<exists>sk'. OPENSSL_sk_delete_if (Some sk) del = Some sk' \<and> contents sk' = filter (\<lambda>p. \<not> del p) (contents sk)"
      using sk_delete_if_ok [OF assms(1), of del] by blast
    show "\<exists>sk'. OPENSSL_sk_pop (Some sk) = (if contents sk = [] then 0 else last (contents sk), Some sk') \<and>
      contents sk' = butlast (contents sk)"
      using sk_delete_ok [OF assms(1), of "num sk - 1"] l e
      by (cases "num sk = 0") (auto simp: OPENSSL_sk_pop_def last_conv_nth butlast_conv_take)
    show "\<exists>sk'. OPENSSL_sk_shift (Some sk) = (if contents sk = [] then 0 else hd (contents sk), Some sk') \<and>
      contents sk' = tl (contents sk)"
      using sk_delete_ok [OF assms(1), of 0] l e
      by (cases "num sk = 0") (auto simp: OPENSSL_sk_shift_def hd_conv_nth drop_Suc)
  qed
qed

text \<open>(C8) \<open>OPENSSL_sk_sort\<close> sorts: its heap sort leaves a permutation of the contents in ascending order and
  sets the flag, and without a comparison function it does nothing.\<close>

theorem sk_sort_sorts:
  assumes "stack_ok call_cmp sk" "\<And>c. comp sk = Some c \<Longrightarrow> cmp_order (call_cmp c)"
  shows "\<exists>sk'. OPENSSL_sk_sort call_cmp (Some sk) = Some sk' \<and> mset (contents sk') = mset (contents sk) \<and>
    (case comp sk of
       None \<Rightarrow> sk' = sk
     | Some c \<Rightarrow> sorted_wrt (\<lambda>x y. call_cmp c x y \<le> 0) (contents sk') \<and> OPENSSL_sk_is_sorted (Some sk'))"
  using sk_sort_ok [OF assms] by (auto simp: stack_ok_def OPENSSL_sk_is_sorted_def split: option.splits)

text \<open>(C32) \<open>OPENSSL_sk_find\<close> finds the first match and misses none, by pointer without a comparison function
  and by comparison with one, whether it searches linearly or, in a sorted stack, by bisection.\<close>

theorem sk_find_first:
  assumes "stack_ok call_cmp sk" "\<And>c. comp sk = Some c \<Longrightarrow> cmp_order (call_cmp c)"
    and "match = (case comp sk of None \<Rightarrow> \<lambda>x. x = p | Some c \<Rightarrow> \<lambda>x. p \<noteq> 0 \<and> call_cmp c p x = 0)"
  shows "case OPENSSL_sk_find call_cmp (Some sk) p of
      None \<Rightarrow> \<forall>x\<in>set (contents sk). \<not> match x
    | Some i \<Rightarrow> i < length (contents sk) \<and> match (contents sk ! i) \<and> (\<forall>j<i. \<not> match (contents sk ! j))"
  using sk_find_ok [OF assms(1,2), of p] unfolding assms(3) [symmetric] first_match_def .

section \<open>At concrete stacks\<close>

definition addr_cmp :: "nat \<Rightarrow> ptr \<Rightarrow> ptr \<Rightarrow> int" where
  "addr_cmp c x y = int x - int y"

interpretation addr: cmp_order "addr_cmp c" for c
  by unfold_locales (simp_all add: addr_cmp_def)

definition block_alloc :: "nat \<Rightarrow> ptr list option" where
  "block_alloc n = Some (replicate (n div SIZEOF_PTR) 0)"

lemma block_alloc_ok: "alloc_ok block_alloc"
  by (simp add: alloc_ok_def block_alloc_def)

definition example_stack :: stack where
  "example_stack = \<lparr>num = 4, data = [30, 10, 40, 20, 0, 0, 0, 0], sorted_flag = False, num_alloc = 8, comp = Some 1\<rparr>"

lemma example_stack_ok: "stack_ok addr_cmp example_stack" "contents example_stack = [30, 10, 40, 20]"
  by (simp_all add: stack_ok_def example_stack_def contents_def)

lemma example_comp: "comp example_stack = Some 1"
  by (simp add: example_stack_def)

lemma example_cmp: "comp example_stack = Some c \<Longrightarrow> cmp_order (addr_cmp c)"
  by (rule addr.cmp_order_axioms)

theorem stack_well_formed_witness:
  "\<exists>sk. OPENSSL_sk_new block_alloc (Some 1) = Some sk \<and> length (data sk) = 4 \<and> num sk < 4"
proof -
  have n: "OPENSSL_sk_new block_alloc (Some 1) =
      Some \<lparr>num = 0, data = replicate 4 0, sorted_flag = False, num_alloc = kMinSize, comp = Some 1\<rparr>"
    by (simp add: OPENSSL_sk_new_def block_alloc_def)
  from stack_well_formed [OF stack_made.new [OF n] block_alloc_ok addr.cmp_order_axioms] n show ?thesis by simp
qed

theorem stack_refines_list_witness:
  "\<exists>sk'. OPENSSL_sk_pop (Some example_stack) = (20, Some sk') \<and> contents sk' = [30, 10, 40]"
  using stack_refines_list [OF example_stack_ok(1) block_alloc_ok] unfolding example_stack_ok(2) by auto

theorem sk_sort_sorts_witness:
  "\<exists>sk'. OPENSSL_sk_sort addr_cmp (Some example_stack) = Some sk' \<and> contents sk' = [10, 20, 30, 40]"
proof -
  from sk_sort_sorts [OF example_stack_ok(1) example_cmp] obtain sk' where
    s: "OPENSSL_sk_sort addr_cmp (Some example_stack) = Some sk'" "mset (contents sk') = mset [30, 10, 40, 20]"
      "sorted_wrt (\<lambda>x y. addr_cmp 1 x y \<le> 0) (contents sk')"
    by (auto simp: example_stack_ok(2) example_comp)
  have "sorted (contents sk')" using s(3) by (simp add: addr_cmp_def)
  moreover have "mset (contents sk') = mset [10, 20, 30, 40]" using s(2) by simp
  ultimately have "sort [10, 20, 30, 40] = contents sk'" by (intro properties_for_sort)
  then have "contents sk' = [10, 20, 30, 40]" by simp
  with s(1) show ?thesis by blast
qed

theorem sk_find_first_witness:
  "OPENSSL_sk_find addr_cmp (Some example_stack) 40 = Some 2"
proof -
  note f = sk_find_first [OF example_stack_ok(1) example_cmp refl, of 40, unfolded example_comp option.case example_stack_ok(2)]
  show ?thesis
  proof (cases "OPENSSL_sk_find addr_cmp (Some example_stack) 40")
    case None
    with f show ?thesis by (simp add: addr_cmp_def)
  next
    case (Some i)
    have i: "i < length [30 :: nat, 10, 40, 20]" "addr_cmp 1 40 ([30, 10, 40, 20] ! i) = 0"
      using f unfolding Some option.case by blast+
    have "int 40 = int ([30, 10, 40, 20] ! i)" using i(2) by (simp only: addr_cmp_def right_minus_eq)
    moreover have "i = 0 \<or> i = 1 \<or> i = 2 \<or> i = 3" using i(1) by auto
    ultimately have "i = 2" by auto
    with Some show ?thesis by simp
  qed
qed

text \<open>\<open>OPENSSL_sk_set\<close> keeps the flag of a sorted stack, and a search by bisection can then miss what is
  there.\<close>

theorem set_hides_from_find:
  "\<exists>sk sk'. stack_ok addr_cmp sk \<and> sorted_flag sk \<and> OPENSSL_sk_set (Some sk) 0 50 = (50, Some sk') \<and>
    OPENSSL_sk_value (Some sk') 0 = 50 \<and> OPENSSL_sk_find addr_cmp (Some sk') 50 = None"
proof -
  let ?sk = "\<lparr>num = 3, data = [10, 20, 30, 0], sorted_flag = True, num_alloc = 4, comp = Some 1\<rparr>"
  have "stack_ok addr_cmp ?sk" by (simp add: stack_ok_def contents_def addr_cmp_def)
  moreover have "OPENSSL_sk_set (Some ?sk) 0 50 = (50, Some (?sk\<lparr>data := [50, 20, 30, 0]\<rparr>))"
    by (simp add: OPENSSL_sk_set_def)
  moreover have "OPENSSL_sk_find addr_cmp (Some (?sk\<lparr>data := [50, 20, 30, 0]\<rparr>)) 50 = None"
    by (simp add: OPENSSL_sk_find_def OPENSSL_sk_is_sorted_def bsearch.simps addr_cmp_def)
  ultimately show ?thesis by (intro exI [of _ ?sk] exI [of _ "?sk\<lparr>data := [50, 20, 30, 0]\<rparr>"]) (simp add: OPENSSL_sk_value_def)
qed

end
