(* ===== verification/Set_Of.thy ===== *)
theory Set_Of
  imports Wire_Format Stack_Sort "HOL-Library.List_Lexorder"
begin

text \<open>
  The canonical order of a SET OF in \<open>crypto/bytestring/cbb.c\<close>: the comparison of encoded elements
  is the lexicographic order of byte strings, and \<open>CBB_flush_asn1_set_of\<close> rewrites the contents of
  a builder as the same elements in that order.

  \<open>qsort\<close> of the C library is an argument, a function of the comparator and the array, with the
  contract \<open>qsort_ok\<close>.  The loops over elements are partial functions: that they return is proved.
\<close>

section \<open>The code\<close>

definition compare_set_of_element :: "cbs \<Rightarrow> cbs \<Rightarrow> int" where
  "compare_set_of_element a b =
    (let a_len = CBS_len a; b_len = CBS_len b;
         min_len = (if a_len < b_len then a_len else b_len);
         ret = OPENSSL_memcmp (CBS_data a) (CBS_data b) min_len
     in if ret \<noteq> 0 then ret
        else if a_len = b_len then 0
        else if a_len < b_len then -1 else 1)"

text \<open>The counting loop of \<open>CBB_flush_asn1_set_of\<close>; \<open>Some None\<close> is its error.\<close>

partial_function (option) set_of_count :: "nat \<Rightarrow> cbs \<Rightarrow> nat option option" where
  "set_of_count num_children s =
    (if CBS_len s \<noteq> 0 then
       (case CBS_get_any_asn1_element s of
          (None, _) \<Rightarrow> Some None
        | (Some _, s) \<Rightarrow> set_of_count (num_children + 1) s)
     else Some (Some num_children))"

text \<open>The loop that fills the array \<open>children\<close>, and the one that writes them back from \<open>out + offset\<close> on.\<close>

fun set_of_children :: "nat \<Rightarrow> cbs \<Rightarrow> cbs list option" where
  "set_of_children 0 s = Some []"
| "set_of_children (Suc n) s =
    (case CBS_get_any_asn1_element s of
       (None, _) \<Rightarrow> None
     | (Some el, s) \<Rightarrow> map_option (\<lambda>cs. el_out el # cs) (set_of_children n s))"

fun set_of_write :: "nat \<Rightarrow> cbs list \<Rightarrow> cbb \<Rightarrow> cbb" where
  "set_of_write out [] s = s"
| "set_of_write out (c # cs) s =
    set_of_write (out + CBS_len c) cs (buf_store out (take (CBS_len c) (CBS_data c)) s)"

abbreviation SIZEOF_CBS :: nat where "SIZEOF_CBS \<equiv> 16"

text \<open>The second half of \<open>CBB_flush_asn1_set_of\<close>: copy, sort and write back.\<close>

definition set_of_rewrite ::
  "(nat \<Rightarrow> u8 list option) \<Rightarrow> ((cbs \<Rightarrow> cbs \<Rightarrow> int) \<Rightarrow> cbs list \<Rightarrow> cbs list) \<Rightarrow> nat \<Rightarrow> nat \<Rightarrow> (cbb, unit) op" where
  "set_of_rewrite malloc qsort d num_children s =
    (let buf_len = CBB_len d s
     in case (OPENSSL_memdup malloc (CBB_data d s) buf_len, OPENSSL_calloc malloc num_children SIZEOF_CBS) of
          (Some buf, Some _) \<Rightarrow>
            (case set_of_children num_children (CBS_init buf buf_len) of
               None \<Rightarrow> (None, s)
             | Some cs \<Rightarrow> (Some (), set_of_write (cbb_start d s) (qsort compare_set_of_element cs) s))
        | _ \<Rightarrow> (None, s))"

definition CBB_flush_asn1_set_of ::
  "(nat \<Rightarrow> u8 list option) \<Rightarrow> ((cbs \<Rightarrow> cbs \<Rightarrow> int) \<Rightarrow> cbs list \<Rightarrow> cbs list) \<Rightarrow> nat \<Rightarrow> cbb \<Rightarrow>
    (unit option \<times> cbb) option" where
  "CBB_flush_asn1_set_of malloc qsort d s =
    (case CBB_flush malloc d s of
       (None, s) \<Rightarrow> Some (None, s)
     | (Some _, s) \<Rightarrow>
    (case set_of_count 0 (CBS_init (CBB_data d s) (CBB_len d s)) of
       None \<Rightarrow> None
     | Some None \<Rightarrow> Some (None, s)
     | Some (Some num_children) \<Rightarrow>
         if num_children < 2 then Some (Some (), s)
         else Some (set_of_rewrite malloc qsort d num_children s)))"

section \<open>The order\<close>

definition der_cmp :: "u8 list \<Rightarrow> u8 list \<Rightarrow> int" where
  "der_cmp a b = compare_set_of_element (CBS_init a (length a)) (CBS_init b (length b))"

lemma memcmp_sign_take:
  "n \<le> length a \<Longrightarrow> n \<le> length b \<Longrightarrow> memcmp_sign (take n a) (take n b) n = memcmp_sign a b n"
  by (induction a b n rule: memcmp_sign.induct) auto

lemma compare_bytes:
  assumes "cbs_ok a" "cbs_ok b"
  shows "compare_set_of_element a b = der_cmp (cbs_bytes a) (cbs_bytes b)"
proof -
  define k where "k = (if cbs_len a < cbs_len b then cbs_len a else cbs_len b)"
  have l: "k \<le> cbs_len a" "k \<le> cbs_len b" "cbs_len a \<le> length (cbs_data a)" "cbs_len b \<le> length (cbs_data b)"
    using assms by (simp_all add: k_def cbs_ok_def)
  have "memcmp_sign (take (cbs_len a) (cbs_data a)) (take (cbs_len b) (cbs_data b)) k
      = memcmp_sign (take k (take (cbs_len a) (cbs_data a))) (take k (take (cbs_len b) (cbs_data b))) k"
    by (rule memcmp_sign_take [symmetric]) (use l in simp_all)
  also have "\<dots> = memcmp_sign (cbs_data a) (cbs_data b) k"
    using memcmp_sign_take [of k "cbs_data a" "cbs_data b"] l by (simp add: min_absorb1)
  finally have m: "OPENSSL_memcmp (take (cbs_len a) (cbs_data a)) (take (cbs_len b) (cbs_data b)) k
      = OPENSSL_memcmp (cbs_data a) (cbs_data b) k" by (simp add: OPENSSL_memcmp_def)
  have e: "length (cbs_bytes a) = cbs_len a" "length (cbs_bytes b) = cbs_len b" using assms by simp_all
  show ?thesis
    unfolding der_cmp_def compare_set_of_element_def e Let_def CBS_data_def CBS_len_eq cbs_len_init k_def [symmetric]
    by (simp add: CBS_init_def cbs_bytes_def m)
qed

lemma der_cmp_simps [simp]:
  "der_cmp [] [] = 0" "der_cmp [] (y # b) = -1" "der_cmp (x # a) [] = 1"
  "der_cmp (x # a) (y # b) = (if x < y then -1 else if y < x then 1 else der_cmp a b)"
  by (auto simp: der_cmp_def compare_set_of_element_def Let_def CBS_data_def CBS_init_def OPENSSL_memcmp_def)

lemma der_cmp_less: "der_cmp a b < 0 \<longleftrightarrow> a < b" and der_cmp_greater: "0 < der_cmp a b \<longleftrightarrow> b < a"
  by (induction a b rule: list_induct2') auto

lemma der_cmp_le: "der_cmp a b \<le> 0 \<longleftrightarrow> a \<le> b"
  using der_cmp_greater [of a b] by (simp add: not_less [symmetric])

text \<open>The comparator is a comparison function in the sense of the stack's sort.\<close>

interpretation set_of: cmp_order der_cmp
  by unfold_locales (simp_all add: der_cmp_less der_cmp_greater der_cmp_le)

text \<open>The contract of \<open>qsort\<close>: the array is permuted, and in order when the comparator orders its
  elements.\<close>

definition qsort_ok :: "(('a \<Rightarrow> 'a \<Rightarrow> int) \<Rightarrow> 'a list \<Rightarrow> 'a list) \<Rightarrow> bool" where
  "qsort_ok qsort \<longleftrightarrow> (\<forall>cmp xs.
    (\<forall>x\<in>set xs. \<forall>y\<in>set xs. cmp x y < 0 \<longleftrightarrow> 0 < cmp y x) \<and>
    (\<forall>x\<in>set xs. \<forall>y\<in>set xs. \<forall>z\<in>set xs. cmp x y \<le> 0 \<longrightarrow> cmp y z \<le> 0 \<longrightarrow> cmp x z \<le> 0) \<longrightarrow>
    mset (qsort cmp xs) = mset xs \<and> sorted_wrt (\<lambda>x y. cmp x y \<le> 0) (qsort cmp xs))"

lemma qsort_set_of:
  assumes "qsort_ok qsort" "\<forall>c\<in>set cs. cbs_ok c"
  shows "map cbs_bytes (qsort compare_set_of_element cs) = sort (map cbs_bytes cs) \<and>
    (\<forall>c\<in>set (qsort compare_set_of_element cs). cbs_ok c)"
proof -
  let ?q = "qsort compare_set_of_element cs"
  have q: "mset ?q = mset cs \<and> sorted_wrt (\<lambda>x y. compare_set_of_element x y \<le> 0) ?q"
    by (rule assms(1) [unfolded qsort_ok_def, rule_format])
      (use assms(2) set_of.swap_sign set_of.le_trans in \<open>simp add: compare_bytes; blast\<close>)
  then have s: "set ?q = set cs" by (metis set_mset_mset)
  have "sorted_wrt (\<lambda>x y. cbs_bytes x \<le> cbs_bytes y) ?q"
    by (rule sorted_wrt_mono_rel [OF _ q [THEN conjunct2]]) (use s assms(2) in \<open>simp add: compare_bytes der_cmp_le\<close>)
  then have "sorted (map cbs_bytes ?q)" by (simp add: sorted_wrt_map)
  moreover have "mset (map cbs_bytes ?q) = mset (map cbs_bytes cs)" using q by simp
  ultimately show ?thesis using s assms(2) properties_for_sort [of "map cbs_bytes ?q"] by simp
qed

section \<open>The elements\<close>

definition der_elements :: "u8 list list \<Rightarrow> bool" where
  "der_elements es \<longleftrightarrow> (\<forall>e\<in>set es. \<exists>tag content. tag AND NOT CBS_ASN1_CONSTRUCTED \<noteq> 0 \<and>
    length content < 2 ^ 32 \<and> e = der_element tag content)"

lemma der_element_nonempty: "der_element tag content \<noteq> []"
  by (auto simp: der_element_def der_header_def tag_bytes_def Let_def split: if_splits)

lemma any_element_Cons:
  assumes ok: "cbs_ok s" and e: "der_elements (e # es)" "cbs_bytes s = e @ rest"
  obtains el where "CBS_get_any_asn1_element s = (Some el, cbs_adv (length e) s)"
    "cbs_bytes (el_out el) = e" "cbs_ok (el_out el)" "cbs_bytes (cbs_adv (length e) s) = rest"
proof -
  obtain tag content where t: "tag AND NOT CBS_ASN1_CONSTRUCTED \<noteq> 0" "length content < 2 ^ 32" "e = der_element tag content"
    using e(1) by (auto simp: der_elements_def)
  define el where "el = \<lparr>el_out = CBS_init (cbs_data s) (length e), el_tag = tag,
    el_header_len = length (der_header tag (length content)), el_ber_found = False, el_indefinite = False\<rparr>"
  have b: "cbs_bytes (cbs_adv (length e) s) = rest" using e(2) by simp
  have l: "length e \<le> cbs_len s" using length_cbs_bytes [OF ok] e(2) by simp
  have "is_der_element s el (cbs_adv (length e) s)"
    unfolding is_der_element_def using t e(2) b by (intro exI [of _ content]) (simp add: el_def)
  then have "CBS_get_any_asn1_element s = (Some el, cbs_adv (length e) s)" using der_element_iff [OF ok] by blast
  moreover have "cbs_bytes (el_out el) = e"
    using cbs_data_take [OF ok l] e(2) by (simp add: el_def)
  moreover have "cbs_ok (el_out el)" using ok l by (simp add: el_def) (simp add: cbs_ok_def)
  ultimately show thesis using that b by blast
qed

lemma any_element_uncons:
  assumes ok: "cbs_ok s" and r: "CBS_get_any_asn1_element s = (Some el, t)"
  obtains e where "der_elements [e]" "cbs_bytes s = e @ cbs_bytes t" "cbs_ok t" "cbs_len t < cbs_len s"
proof -
  obtain content where c: "el_tag el AND NOT CBS_ASN1_CONSTRUCTED \<noteq> 0" "length content < 2 ^ 32"
    "cbs_bytes s = der_element (el_tag el) content @ cbs_bytes t"
    "t = cbs_adv (length (der_element (el_tag el) content)) s"
    using der_element_iff [OF ok] r unfolding is_der_element_def by blast
  have l: "cbs_len s = length (der_element (el_tag el) content) + length (cbs_bytes t)"
    using length_cbs_bytes [OF ok] unfolding c(3) by simp
  have okt: "cbs_ok t" using ok l c(4) by simp
  show thesis
    by (rule that [OF _ c(3) okt])
      (use c(1,2) l length_cbs_bytes [OF okt] der_element_nonempty [of "el_tag el" content] in \<open>auto simp: der_elements_def\<close>)
qed

lemma set_of_count_elements:
  assumes "cbs_ok s" "der_elements es" "cbs_bytes s = concat es"
  shows "set_of_count n s = Some (Some (n + length es))"
  using assms
proof (induction es arbitrary: n s)
  case Nil
  then have "cbs_len s = 0" using length_cbs_bytes [OF Nil.prems(1)] by simp
  then show ?case by (subst set_of_count.simps) simp
next
  case (Cons e es)
  obtain el where el: "CBS_get_any_asn1_element s = (Some el, cbs_adv (length e) s)"
    "cbs_bytes (cbs_adv (length e) s) = concat es"
    using any_element_Cons [OF Cons.prems(1,2)] Cons.prems(3) by (metis concat.simps(2))
  have "e \<noteq> []" using Cons.prems(2) der_element_nonempty by (auto simp: der_elements_def)
  then have l: "length e \<le> cbs_len s" "cbs_len s \<noteq> 0"
    using length_cbs_bytes [OF Cons.prems(1)] Cons.prems(3) by (simp_all flip: length_greater_0_conv)
  then have "set_of_count (n + 1) (cbs_adv (length e) s) = Some (Some (n + 1 + length es))"
    using Cons.prems el by (intro Cons.IH) (simp_all add: der_elements_def)
  then show ?case using el l by (subst set_of_count.simps) simp
qed

lemma set_of_count_returns:
  assumes "cbs_ok s"
  shows "\<exists>r. set_of_count n s = Some r \<and> (r \<noteq> None \<longrightarrow> (\<exists>es. der_elements es \<and> cbs_bytes s = concat es))"
  using assms
proof (induction "cbs_len s" arbitrary: n s rule: less_induct)
  case less
  show ?case
  proof (cases "cbs_len s = 0")
    case True
    then have "der_elements [] \<and> cbs_bytes s = concat []" by (simp add: cbs_bytes_def der_elements_def)
    then show ?thesis using True by (subst set_of_count.simps) auto
  next
    case False
    obtain x t where r: "CBS_get_any_asn1_element s = (x, t)" by fastforce
    show ?thesis
    proof (cases x)
      case None
      then show ?thesis using False r by (subst set_of_count.simps) simp
    next
      case (Some el)
      obtain e where e: "der_elements [e]" "cbs_bytes s = e @ cbs_bytes t" "cbs_ok t" "cbs_len t < cbs_len s"
        using any_element_uncons [OF less.prems r [unfolded Some]] .
      have "der_elements (e # es) \<longleftrightarrow> der_elements es" for es using e(1) by (simp add: der_elements_def)
      then have "\<exists>fs. der_elements fs \<and> cbs_bytes s = concat fs" if "der_elements es" "cbs_bytes t = concat es" for es
        using that e(2) by (intro exI [of _ "e # es"]) simp
      then show ?thesis
        using less.hyps [OF e(4,3), of "n + 1"] False r Some by (subst set_of_count.simps) auto
    qed
  qed
qed

lemma set_of_children_elements:
  assumes "cbs_ok s" "der_elements es" "cbs_bytes s = concat es"
  shows "\<exists>cs. set_of_children (length es) s = Some cs \<and> map cbs_bytes cs = es \<and> (\<forall>c\<in>set cs. cbs_ok c)"
  using assms
proof (induction es arbitrary: s)
  case (Cons e es)
  have b: "cbs_bytes s = e @ concat es" using Cons.prems(3) by simp
  obtain el where el: "CBS_get_any_asn1_element s = (Some el, cbs_adv (length e) s)"
    "cbs_bytes (el_out el) = e" "cbs_ok (el_out el)" "cbs_bytes (cbs_adv (length e) s) = concat es"
    using any_element_Cons [OF Cons.prems(1,2) b] .
  have l: "length e \<le> cbs_len s" using length_cbs_bytes [OF Cons.prems(1)] b by simp
  obtain cs where "set_of_children (length es) (cbs_adv (length e) s) = Some cs" "map cbs_bytes cs = es"
    "\<forall>c\<in>set cs. cbs_ok c"
    using Cons.IH [of "cbs_adv (length e) s"] Cons.prems l el(4) by (auto simp: der_elements_def)
  then show ?case using el by simp
qed simp

section \<open>The contents of a builder\<close>

definition bld_top :: "nat \<Rightarrow> builder \<Rightarrow> u8 list" where
  "bld_top d B = (if d = 0 then bld_root B else snd (bld_frames B ! (d - 1)))"

definition bld_set :: "nat \<Rightarrow> u8 list \<Rightarrow> builder \<Rightarrow> builder" where
  "bld_set d x B =
    (if d = 0 then Builder x (bld_frames B)
     else Builder (bld_root B) ((bld_frames B)[d - 1 := (fst (bld_frames B ! (d - 1)), x)]))"

lemma bld_set_top [simp]: "bld_set d (bld_top d B) B = B"
  by (cases B) (simp add: bld_set_def bld_top_def)

lemma frames_at_last:
  assumes "frames_at off (cs @ [c]) fs bs"
  obtains fs1 pre p x where "fs = fs1 @ [(child_kind c, x)]" "bs = pre @ p @ x"
    "ch_offset c + ch_pending_len_len c = off + length (pre @ p)"
    "\<And>y. frames_at off (cs @ [c]) (fs1 @ [(child_kind c, y)]) (pre @ p @ y)"
proof -
  obtain fs1 fs2 b1 b2 where f: "fs = fs1 @ fs2" "bs = b1 @ b2" "frames_at off cs fs1 b1"
    "frames_at (off + length b1) [c] fs2 b2"
    using assms unfolding frames_at_append by blast
  then obtain p x where c: "fs2 = [(child_kind c, x)]" "b2 = p @ x" "length p = ch_pending_len_len c"
    "ch_offset c = off + length b1" "child_ok c" by auto
  have "frames_at off (cs @ [c]) (fs1 @ [(child_kind c, y)]) (b1 @ (p @ y))" for y
    by (rule frames_at_joinI [OF f(3)]) (use c in simp)
  then show thesis
    using that [of fs1 x b1 p] f(1,2) c by simp
qed

lemma represents_top:
  assumes rep: "represents s B" and d: "length (bld_frames B) = d"
  obtains pre where "written s = pre @ bld_top d B" "length pre = cbb_start d s"
    "\<And>t y. cbb_ok t \<Longrightarrow> written t = pre @ y \<Longrightarrow> children t = children s \<Longrightarrow> represents t (bld_set d y B)"
proof -
  obtain bs where bs: "written s = bld_root B @ bs" "frames_at (length (bld_root B)) (children s) (bld_frames B) bs"
    using rep by (auto simp: represents_def)
  show thesis
  proof (cases "children s" rule: rev_cases)
    case Nil
    then have fr: "bld_frames B = []" using represents_length [OF rep] by simp
    have "d = 0" "bs = []" using d fr bs(2) Nil by simp_all
    show thesis
    proof (rule that)
      show "written s = [] @ bld_top d B" using bs(1) \<open>d = 0\<close> \<open>bs = []\<close> by (simp add: bld_top_def)
      show "length [] = cbb_start d s" using \<open>d = 0\<close> by (simp add: cbb_start_def)
      fix t :: cbb and y assume "cbb_ok t" "written t = [] @ y" "children t = children s"
      then show "represents t (bld_set d y B)"
        using \<open>d = 0\<close> Nil fr by (simp add: bld_set_def represents_def)
    qed
  next
    case (snoc cs c)
    obtain fs pre p x where l: "bld_frames B = fs @ [(child_kind c, x)]" "bs = pre @ p @ x"
      "ch_offset c + ch_pending_len_len c = length (bld_root B) + length (pre @ p)"
      "\<And>y. frames_at (length (bld_root B)) (cs @ [c]) (fs @ [(child_kind c, y)]) (pre @ p @ y)"
      by (rule frames_at_last [OF bs(2) [unfolded snoc]]) (rule that)
    have dl: "d = Suc (length fs)" "length cs = length fs"
      using d represents_length [OF rep] snoc l(1) by simp_all
    show thesis
    proof (rule that)
      show "written s = (bld_root B @ pre @ p) @ bld_top d B" using bs(1) l(1,2) dl by (simp add: bld_top_def)
      show "length (bld_root B @ pre @ p) = cbb_start d s"
        using l(3) dl snoc by (simp add: cbb_start_def nth_append)
      fix t :: cbb and y assume t: "cbb_ok t" "written t = (bld_root B @ pre @ p) @ y" "children t = children s"
      have "bld_set d y B = Builder (bld_root B) (fs @ [(child_kind c, y)])" using l(1) dl by (simp add: bld_set_def)
      moreover have "written t = bld_root B @ (pre @ p @ y)" using t(2) by simp
      ultimately show "represents t (bld_set d y B)"
        unfolding represents_def t(3) snoc using t(1) l(4) [of y] by (simp del: frames_at.simps)
    qed
  qed
qed

lemma set_of_write_eq:
  assumes "cbb_ok s" "written s = pre @ y @ z" "\<forall>c\<in>set cs. cbs_ok c" "length y = length (concat (map cbs_bytes cs))"
  shows "cbb_ok (set_of_write (length pre) cs s) \<and> children (set_of_write (length pre) cs s) = children s \<and>
    b_len (set_of_write (length pre) cs s) = b_len s \<and> same_kind s (set_of_write (length pre) cs s) \<and>
    written (set_of_write (length pre) cs s) = pre @ concat (map cbs_bytes cs) @ z"
  using assms
proof (induction cs arbitrary: s pre y)
  case (Cons c cs)
  define n where "n = cbs_len c"
  have c: "take n (cbs_data c) = cbs_bytes c" "length (cbs_bytes c) = n"
    using Cons.prems(3) by (simp_all add: n_def cbs_bytes_def cbs_ok_def)
  have y: "written s = pre @ take n y @ drop n y @ z" "length (take n y) = n"
    using Cons.prems(2,4) c by simp_all
  let ?s = "buf_store (length pre) (cbs_bytes c) s"
  have l: "length pre + n \<le> b_len s" using length_written [OF Cons.prems(1)] y(2) unfolding y(1) length_append by linarith
  have s: "cbb_ok ?s" "written ?s = (pre @ cbs_bytes c) @ drop n y @ z"
    using cbb_ok_store [OF Cons.prems(1)] written_store [OF Cons.prems(1) y(1)] l c y(2) by simp_all
  show ?case
    using Cons.IH [OF s] Cons.prems(3,4) c
    by (simp add: n_def [symmetric] CBS_data_def same_kind_def)
qed simp

section \<open>Sorting the contents\<close>

lemma contents_cbs:
  assumes "represents s B" "length (bld_frames B) = d"
  defines "c \<equiv> CBS_init (CBB_data d s) (CBB_len d s)"
  shows "cbs_ok c" "cbs_bytes c = bld_top d B" "take (CBB_len d s) (CBB_data d s) = bld_top d B"
    "length (bld_top d B) = CBB_len d s" "CBB_len d s \<le> length (CBB_data d s)"
proof -
  obtain pre where p: "written s = pre @ bld_top d B" "length pre = cbb_start d s"
    using represents_top [OF assms(1,2)] by metis
  have ok: "cbb_ok s" using assms(1) by (simp add: represents_def)
  have l: "b_len s = cbb_start d s + length (bld_top d B)"
    using length_written [OF ok] unfolding p(1) by (simp add: p(2))
  then show n: "length (bld_top d B) = CBB_len d s" by (simp add: CBB_len_def)
  have "bld_top d B = drop (cbb_start d s) (written s)" using p by simp
  also have "\<dots> = take (CBB_len d s) (CBB_data d s)"
    by (simp add: written_def CBB_len_def CBB_data_def drop_take)
  finally show t: "take (CBB_len d s) (CBB_data d s) = bld_top d B" by simp
  show m: "CBB_len d s \<le> length (CBB_data d s)" using ok l by (auto simp: CBB_len_def CBB_data_def cbb_ok_def)
  have "CBB_len d s < SIZE_LIMIT" using ok l by (auto simp: CBB_len_def cbb_ok_def)
  then show "cbs_ok c" using m by (simp add: c_def)
  show "cbs_bytes c = bld_top d B" using t by (simp add: c_def)
qed

text \<open>Memory for the copy of the contents and the array of elements.\<close>

definition set_of_memory :: "(nat \<Rightarrow> u8 list option) \<Rightarrow> nat \<Rightarrow> bool" where
  "set_of_memory malloc n \<longleftrightarrow> (\<forall>k<SIZE_LIMIT. malloc k \<noteq> None) \<and> n < 2 ^ 59"

lemma set_of_memory_alloc:
  assumes "set_of_memory malloc n" "0 < n" "m \<le> n"
  shows "OPENSSL_memdup malloc x n \<noteq> None" "OPENSSL_calloc malloc m SIZEOF_CBS \<noteq> None"
proof -
  have a: "OPENSSL_malloc malloc k \<noteq> None" if "k < 2 ^ 63" for k
    using OPENSSL_malloc_total assms(1) that by (auto simp: set_of_memory_def)
  have n: "n < 2 ^ 59" using assms(1) by (simp add: set_of_memory_def)
  then show "OPENSSL_memdup malloc x n \<noteq> None"
    using a [of n] assms(2) by (auto simp: OPENSSL_memdup_def split: option.splits)
  have "(m * 16) mod SIZE_LIMIT = m * 16" using n assms(3) by simp
  then show "OPENSSL_calloc malloc m SIZEOF_CBS \<noteq> None"
    using a [of "m * 16"] n assms(3) by (auto simp: OPENSSL_calloc_def OPENSSL_zalloc_def split: option.splits)
qed

text \<open>The elements of a byte string are determined by it.\<close>

lemma der_elements_unique:
  assumes "der_elements es" "der_elements fs" "concat es = concat fs" "length (concat es) < SIZE_LIMIT"
  shows "es = fs"
proof -
  define c where "c = CBS_init (concat es) (length (concat es))"
  have c: "cbs_ok c" "cbs_bytes c = concat es" "cbs_bytes c = concat fs" using assms(3,4) by (simp_all add: c_def)
  have "length es = length fs"
    using set_of_count_elements [OF c(1) assms(1) c(2), of 0] set_of_count_elements [OF c(1) assms(2) c(3), of 0] by simp
  then show ?thesis
    using set_of_children_elements [OF c(1) assms(1) c(2)] set_of_children_elements [OF c(1) assms(2) c(3)] by auto
qed

lemma length_concat_elements: "der_elements es \<Longrightarrow> length es \<le> length (concat es)"
proof (induction es)
  case (Cons e es)
  then have "e \<noteq> []" "der_elements es" using der_element_nonempty by (auto simp: der_elements_def)
  then show ?case using Cons.IH by (cases e) simp_all
qed simp

lemma set_of_rewrite_sorts:
  assumes m: "malloc_ok malloc" and q: "qsort_ok qsort" and rep: "represents s B" "length (bld_frames B) = d"
    and es: "der_elements es" "bld_top d B = concat es" "es \<noteq> []"
  shows "case set_of_rewrite malloc qsort d (length es) s of
      (Some _, s') \<Rightarrow> represents s' (bld_set d (concat (sort es)) B)
    | (None, s') \<Rightarrow> \<not> set_of_memory malloc (length (concat es))"
proof -
  note C = contents_cbs [OF rep]
  define L where "L = CBB_len d s"
  have L: "L = length (concat es)" "length es \<le> L" "0 < L"
    using C(4) es length_concat_elements [OF es(1)] by (cases es; simp add: L_def)+
  have Ls: "L < SIZE_LIMIT" using C(1) by (simp add: cbs_ok_def L_def)
  show ?thesis
  proof (cases "OPENSSL_memdup malloc (CBB_data d s) L = None \<or> OPENSSL_calloc malloc (length es) SIZEOF_CBS = None")
    case True
    then have "fst (set_of_rewrite malloc qsort d (length es) s) = None"
      by (auto simp: set_of_rewrite_def L_def Let_def split: option.split)
    moreover have "\<not> set_of_memory malloc (length (concat es))"
      using set_of_memory_alloc(1) [of malloc L "length es" "CBB_data d s"] set_of_memory_alloc(2) [of malloc L "length es"]
        L True by auto
    ultimately show ?thesis by (auto split: prod.split option.split)
  next
    case False
    then obtain buf w where b: "OPENSSL_memdup malloc (CBB_data d s) L = Some buf"
      "OPENSSL_calloc malloc (length es) SIZEOF_CBS = Some w" by auto
    have buf: "buf = concat es"
      using OPENSSL_memdup_SomeD [OF m b(1) C(5) [folded L_def] Ls] C(3) es(2) by (simp add: L_def)
    obtain cs where cs: "set_of_children (length es) (CBS_init buf L) = Some cs" "map cbs_bytes cs = es"
      "\<forall>c\<in>set cs. cbs_ok c"
      using set_of_children_elements [of "CBS_init buf L" es] es(1) Ls buf L(1) by auto
    let ?q = "qsort compare_set_of_element cs"
    note Q = qsort_set_of [OF q cs(3), unfolded cs(2)]
    have r: "set_of_rewrite malloc qsort d (length es) s = (Some (), set_of_write (cbb_start d s) ?q s)"
      using b cs(1) by (simp add: set_of_rewrite_def L_def)
    obtain pre where pre: "written s = pre @ bld_top d B" "length pre = cbb_start d s"
      "\<forall>t y. cbb_ok t \<longrightarrow> written t = pre @ y \<longrightarrow> children t = children s \<longrightarrow> represents t (bld_set d y B)"
      by (rule represents_top [OF rep]) (use that in blast)
    have ls: "length (concat es) = length (concat (sort es))"
      by (metis length_concat mset_map mset_sort sum_mset_sum_list)
    have ok: "cbb_ok s" using rep(1) by (simp add: represents_def)
    show ?thesis
      using r set_of_write_eq [OF ok, of pre "concat es" "[]" ?q] pre Q es(2) ls by simp
  qed
qed

lemma set_of_sorts_lemma:
  assumes m: "malloc_ok malloc" and q: "qsort_ok qsort" and rep: "represents s B" and d: "d \<le> length (bld_frames B)"
  shows "\<exists>r s'. CBB_flush_asn1_set_of malloc qsort d s = Some (r, s') \<and>
    (r \<noteq> None \<longrightarrow> (\<exists>B' es. bld_flush d B = Some B' \<and> der_elements es \<and> bld_top d B' = concat es \<and>
      represents s' (bld_set d (concat (sort es)) B'))) \<and>
    (r = None \<longrightarrow> \<not> (\<exists>B' es. bld_flush d B = Some B' \<and> der_elements es \<and> bld_top d B' = concat es \<and>
      room malloc s (bld_len B') \<and> set_of_memory malloc (length (concat es))))"
proof -
  note F = flush_represents [OF m rep d]
  obtain x s1 where f: "CBB_flush malloc d s = (x, s1)" by fastforce
  show ?thesis
  proof (cases x)
    case None
    then show ?thesis using F f by (auto simp: CBB_flush_asn1_set_of_def)
  next
    case (Some u)
    then obtain B' where B': "bld_flush d B = Some B'" "represents s1 B'" "length (bld_frames B') = d"
      using F f by auto
    note C = contents_cbs [OF B'(2,3)]
    define c where "c = CBS_init (CBB_data d s1) (CBB_len d s1)"
    have ok: "cbs_ok c" "cbs_bytes c = bld_top d B'" using C(1,2) by (simp_all add: c_def)
    note un = CBB_flush_asn1_set_of_def [of malloc qsort d s, unfolded f Some prod.case option.case, folded c_def]
    show ?thesis
    proof (cases "\<exists>es. der_elements es \<and> bld_top d B' = concat es")
      case False
      then have "set_of_count 0 c = Some None" using set_of_count_returns [OF ok(1), of 0] ok(2) by auto
      then show ?thesis using un B'(1) False by auto
    next
      case True
      then obtain es where es: "der_elements es" "bld_top d B' = concat es" by blast
      have cnt: "set_of_count 0 c = Some (Some (length es))"
        using set_of_count_elements [of c es 0] ok es by simp
      show ?thesis
      proof (cases "length es < 2")
        case True
        then have "sort es = es" by (cases es) (auto simp: less_Suc_eq_le)
        then have "represents s1 (bld_set d (concat (sort es)) B')" using B'(2) es(2) by (metis bld_set_top)
        then show ?thesis using un cnt True B'(1) es by auto
      next
        case False
        then have "es \<noteq> []" by auto
        from set_of_rewrite_sorts [OF m q B'(2,3) es this] False show ?thesis
          using un cnt B'(1) es by (cases "set_of_rewrite malloc qsort d (length es) s") (auto split: option.splits)
      qed
    qed
  qed
qed

text \<open>(C16) \<open>CBB_flush_asn1_set_of\<close> puts the contents of a SET OF in canonical order, whatever sort the C
  library has: on a builder that holds the bytes of its open frames it returns, and on success the
  contents of the frame were a sequence of DER elements and are now the same elements in
  lexicographic order, all other bytes unchanged.  It fails only when the contents are not DER
  elements, a length prefix overflows, or memory runs out.\<close>

theorem set_of_sorts:
  assumes "malloc_ok malloc" "qsort_ok qsort" "represents s B" "d \<le> length (bld_frames B)"
  shows "\<exists>r s'. CBB_flush_asn1_set_of malloc qsort d s = Some (r, s') \<and>
    (r \<noteq> None \<longrightarrow> (\<exists>B' es. bld_flush d B = Some B' \<and> der_elements es \<and> bld_top d B' = concat es \<and>
      represents s' (bld_set d (concat (sort es)) B'))) \<and>
    (r = None \<longrightarrow> \<not> (\<exists>B' es. bld_flush d B = Some B' \<and> der_elements es \<and> bld_top d B' = concat es \<and>
      room malloc s (bld_len B') \<and> set_of_memory malloc (length (concat es))))"
  by (rule set_of_sorts_lemma) fact+

section \<open>At a concrete builder\<close>

text \<open>An insertion sort keeps the contract of \<open>qsort\<close>.\<close>

fun ins_by :: "('a \<Rightarrow> 'a \<Rightarrow> int) \<Rightarrow> 'a \<Rightarrow> 'a list \<Rightarrow> 'a list" where
  "ins_by cmp x [] = [x]"
| "ins_by cmp x (y # ys) = (if cmp x y \<le> 0 then x # y # ys else y # ins_by cmp x ys)"

definition ins_sort :: "('a \<Rightarrow> 'a \<Rightarrow> int) \<Rightarrow> 'a list \<Rightarrow> 'a list" where
  "ins_sort cmp xs = foldr (ins_by cmp) xs []"

lemma mset_ins_by [simp]: "mset (ins_by cmp x ys) = add_mset x (mset ys)"
  by (induction ys) auto

lemma mset_ins_sort: "mset (ins_sort cmp xs) = mset xs"
  by (induction xs) (simp_all add: ins_sort_def)

lemma ins_sort_ok: "qsort_ok ins_sort"
proof (unfold qsort_ok_def, intro allI impI, elim conjE)
  fix cmp :: "'a \<Rightarrow> 'a \<Rightarrow> int" and xs
  assume sw: "\<forall>x\<in>set xs. \<forall>y\<in>set xs. cmp x y < 0 \<longleftrightarrow> 0 < cmp y x"
    and tr: "\<forall>x\<in>set xs. \<forall>y\<in>set xs. \<forall>z\<in>set xs. cmp x y \<le> 0 \<longrightarrow> cmp y z \<le> 0 \<longrightarrow> cmp x z \<le> 0"
  have ins: "sorted_wrt (\<lambda>x y. cmp x y \<le> 0) (ins_by cmp x ys)"
    if "sorted_wrt (\<lambda>x y. cmp x y \<le> 0) ys" "set ys \<subseteq> set xs" "x \<in> set xs" for x ys
    using that
  proof (induction ys)
    case (Cons y ys)
    have s: "set (ins_by cmp x ys) = insert x (set ys)"
      by (metis mset_ins_by set_mset_add_mset_insert set_mset_mset)
    show ?case
    proof (cases "cmp x y \<le> 0")
      case True
      have "cmp x z \<le> 0" if "z \<in> set ys" for z
        using tr [rule_format, of x y z] Cons.prems True that by (auto simp: subset_iff)
      then show ?thesis using Cons.prems True by simp
    next
      case False
      then have "cmp y x \<le> 0" using sw [rule_format, of y x] sw [rule_format, of x y] Cons.prems by simp
      then show ?thesis using Cons False s by simp
    qed
  qed simp
  have "sorted_wrt (\<lambda>x y. cmp x y \<le> 0) (ins_sort cmp ys)" if "set ys \<subseteq> set xs" for ys
    using that
  proof (induction ys)
    case (Cons y ys)
    have "set (ins_sort cmp ys) = set ys" by (metis mset_ins_sort set_mset_mset)
    then have "sorted_wrt (\<lambda>x y. cmp x y \<le> 0) (ins_by cmp y (ins_sort cmp ys))"
      using Cons by (intro ins) simp_all
    then show ?case by (simp add: ins_sort_def)
  qed (simp add: ins_sort_def)
  then show "mset (ins_sort cmp xs) = mset xs \<and> sorted_wrt (\<lambda>x y. cmp x y \<le> 0) (ins_sort cmp xs)"
    by (simp add: mset_ins_sort)
qed

definition set_of_cbb :: cbb where
  "set_of_cbb = \<lparr>b_buf = Some [4, 1, 7, 1, 1, 255, 0], b_len = 6, b_cap = 7, b_can_resize = False, b_error = False,
     children = []\<rparr>"

lemma set_of_cbb_represents: "represents set_of_cbb (Builder [4, 1, 7, 1, 1, 255] [])"
  by (simp add: represents_def set_of_cbb_def cbb_ok_def written_def buf_bytes_def)

lemma der_elements_Cons:
  assumes "tag AND NOT CBS_ASN1_CONSTRUCTED \<noteq> 0" "length content < 2 ^ 32" "e = der_element tag content" "der_elements es"
  shows "der_elements (e # es)"
  using assms unfolding der_elements_def by (metis set_ConsD)

lemma example_elements: "der_elements [[4, 1, 7], [1, 1, 255]]"
proof -
  have "tag_bytes 4 = [4]" "tag_bytes 1 = [1]"
    unfolding tag_bytes_def Let_def by (simp_all add: word_le_nat_alt)
  then have "[4, 1, 7] = der_element 4 [7]" "[1, 1, 255] = der_element 1 [255]"
    by (simp_all add: der_element_def der_header_def len_bytes_def)
  then show ?thesis
    by (intro der_elements_Cons [of 4 "[7]"] der_elements_Cons [of 1 "[255]"]) (simp_all add: der_elements_def)
qed

theorem set_of_sorts_witness:
  "\<exists>s'. CBB_flush_asn1_set_of (\<lambda>n. Some (replicate n 0)) ins_sort 0 set_of_cbb = Some (Some (), s') \<and>
    represents s' (Builder [1, 1, 255, 4, 1, 7] [])"
proof -
  let ?B = "Builder [4, 1, 7, 1, 1, 255] []"
  let ?es = "[[4, 1, 7], [1, 1, 255]] :: u8 list list"
  obtain r s' where r: "CBB_flush_asn1_set_of (\<lambda>n. Some (replicate n 0)) ins_sort 0 set_of_cbb = Some (r, s')"
    "r \<noteq> None \<longrightarrow> (\<exists>B' es. bld_flush 0 ?B = Some B' \<and> der_elements es \<and> bld_top 0 B' = concat es \<and>
      represents s' (bld_set 0 (concat (sort es)) B'))"
    "r = None \<longrightarrow> \<not> (\<exists>B' es. bld_flush 0 ?B = Some B' \<and> der_elements es \<and> bld_top 0 B' = concat es \<and>
      room (\<lambda>n. Some (replicate n 0)) set_of_cbb (bld_len B') \<and>
      set_of_memory (\<lambda>n. Some (replicate n 0)) (length (concat es)))"
    using set_of_sorts [OF _ ins_sort_ok set_of_cbb_represents, of "\<lambda>n. Some (replicate n 0)" 0]
    by (auto simp: malloc_ok_def)
  have fl: "bld_flush 0 ?B = Some ?B" by (simp add: bld_flush_flushed)
  have top: "bld_top 0 ?B = concat ?es" by (simp add: bld_top_def)
  have "room (\<lambda>n. Some (replicate n 0)) set_of_cbb (bld_len ?B)" by (simp add: room_def set_of_cbb_def bld_len_def)
  moreover have "set_of_memory (\<lambda>n. Some (replicate n 0)) (length (concat ?es))" by (simp add: set_of_memory_def)
  ultimately have "r \<noteq> None" using r(3) fl top example_elements by blast
  then obtain es where es: "der_elements es" "concat ?es = concat es" "represents s' (bld_set 0 (concat (sort es)) ?B)"
    using r(2) fl top by auto
  have "es = ?es" by (rule der_elements_unique [OF es(1) example_elements es(2) [symmetric]]) (simp flip: es(2))
  moreover have "sort ?es = [[1, 1, 255], [4, 1, 7]]" by simp
  ultimately show ?thesis using r(1) \<open>r \<noteq> None\<close> es(3) by (auto simp: bld_set_def)
qed

end
