(* ===== verification/Cbs_Time.thy ===== *)
theory Cbs_Time
  imports Cbs_Safety Posix_Time
begin

text \<open>
  The RFC 5280 times of \<open>crypto/bytestring/cbs.c\<close>: UTCTime and GeneralizedTime strings, parsed into
  a \<open>struct tm\<close>, with the optional offset that \<open>crypto/asn1/posix_time.c\<close> applies.

  The parsers are related to their grammars by \<open>reads\<close>, which composes along \<open>op_bind\<close>.
\<close>

section \<open>The code\<close>

definition cbs_get_two_digits :: "(cbs, int) op" where
  "cbs_get_two_digits =
    op_bind CBS_get_u8 (\<lambda>first_digit.
      op_bind (op_check (OPENSSL_isdigit (uint first_digit))) (\<lambda>_.
        op_bind CBS_get_u8 (\<lambda>second_digit.
          op_bind (op_check (OPENSSL_isdigit (uint second_digit))) (\<lambda>_.
            op_ret ((uint first_digit - 48) * 10 + (uint second_digit - 48))))))"

definition is_valid_day :: "int \<Rightarrow> int \<Rightarrow> int \<Rightarrow> bool" where
  "is_valid_day year month day =
    (if day < 1 then False
     else if month \<in> {1, 3, 5, 7, 8, 10, 12} then day \<le> 31
     else if month \<in> {4, 6, 9, 11} then day \<le> 30
     else if month = 2
       then (if (year smod 4 = 0 \<and> year smod 100 \<noteq> 0) \<or> year smod 400 = 0 then day \<le> 29 else day \<le> 28)
     else False)"

definition rfc5280_year :: "bool \<Rightarrow> (cbs, int) op" where
  "rfc5280_year is_gentime =
    (if is_gentime then
       op_bind cbs_get_two_digits (\<lambda>tmp.
         let year = tmp * 100
         in op_bind cbs_get_two_digits (\<lambda>tmp. op_ret (year + tmp)))
     else
       op_bind cbs_get_two_digits (\<lambda>tmp.
         let year = 1900 + tmp;
             year = (if year < 1950 then year + 100 else year)
         in op_bind (op_check (\<not> year \<ge> 2050)) (\<lambda>_. op_ret year)))"

text \<open>The byte \<open>tz\<close> and what follows it; the result is \<open>offset_seconds\<close>.  'Z' is 90, '+' 43, '-' 45.\<close>

definition rfc5280_offset :: "bool \<Rightarrow> (cbs, int) op" where
  "rfc5280_offset allow_timezone_offset =
    op_bind CBS_get_u8 (\<lambda>tz.
      op_bind (if tz = 90 then op_ret 0 else if tz = 43 then op_ret 1 else if tz = 45 then op_ret (-1) else op_fail)
        (\<lambda>offset_sign.
          if offset_sign \<noteq> 0 then
            op_bind (op_check allow_timezone_offset) (\<lambda>_.
              op_bind cbs_get_two_digits (\<lambda>offset_hours.
                op_bind (op_check (\<not> offset_hours > 23)) (\<lambda>_.
                  op_bind cbs_get_two_digits (\<lambda>offset_minutes.
                    op_bind (op_check (\<not> offset_minutes > 59)) (\<lambda>_.
                      op_ret (offset_sign * (offset_hours * 3600 + offset_minutes * 60)))))))
          else op_ret 0))"

definition rfc5280_fields :: "bool \<Rightarrow> bool \<Rightarrow> (cbs, (int \<times> int \<times> int \<times> int \<times> int \<times> int) \<times> int) op" where
  "rfc5280_fields is_gentime allow_timezone_offset =
    op_bind (rfc5280_year is_gentime) (\<lambda>year.
      op_bind cbs_get_two_digits (\<lambda>month.
        op_bind (op_check (\<not> (month < 1 \<or> month > 12))) (\<lambda>_.
          op_bind cbs_get_two_digits (\<lambda>day.
            op_bind (op_check (is_valid_day year month day)) (\<lambda>_.
              op_bind cbs_get_two_digits (\<lambda>hour.
                op_bind (op_check (\<not> hour > 23)) (\<lambda>_.
                  op_bind cbs_get_two_digits (\<lambda>mn.
                    op_bind (op_check (\<not> mn > 59)) (\<lambda>_.
                      op_bind cbs_get_two_digits (\<lambda>sec.
                        op_bind (op_check (\<not> sec > 59)) (\<lambda>_.
                          op_bind (rfc5280_offset allow_timezone_offset) (\<lambda>offset_seconds.
                            op_ret ((year, month, day, hour, mn, sec), offset_seconds)))))))))))))"

text \<open>\<open>out_tm\<close> is \<open>None\<close> for a null pointer, and the struct before the call otherwise; the result is the
  struct after it.\<close>

definition CBS_parse_rfc5280_time_internal :: "cbs \<Rightarrow> bool \<Rightarrow> bool \<Rightarrow> tm option \<Rightarrow> tm option option" where
  "CBS_parse_rfc5280_time_internal cbs is_gentime allow_timezone_offset out_tm =
    (case rfc5280_fields is_gentime allow_timezone_offset cbs of
       (None, _) \<Rightarrow> None
     | (Some ((year, month, day, hour, mn, sec), offset_seconds), copy) \<Rightarrow>
         if CBS_len copy \<noteq> 0 then None
         else case out_tm of
           None \<Rightarrow> Some None
         | Some t \<Rightarrow>
             let t = t\<lparr>tm_year := year - 1900, tm_mon := month - 1, tm_mday := day,
                       tm_hour := hour, tm_min := mn, tm_sec := sec\<rparr>
             in if offset_seconds \<noteq> 0
                then (case OPENSSL_gmtime_adj t 0 offset_seconds of None \<Rightarrow> None | Some t \<Rightarrow> Some (Some t))
                else Some (Some t))"

definition CBS_parse_generalized_time :: "cbs \<Rightarrow> tm option \<Rightarrow> bool \<Rightarrow> tm option option" where
  "CBS_parse_generalized_time cbs out_tm allow_timezone_offset =
    CBS_parse_rfc5280_time_internal cbs True allow_timezone_offset out_tm"

definition CBS_parse_utc_time :: "cbs \<Rightarrow> tm option \<Rightarrow> bool \<Rightarrow> tm option option" where
  "CBS_parse_utc_time cbs out_tm allow_timezone_offset =
    CBS_parse_rfc5280_time_internal cbs False allow_timezone_offset out_tm"

section \<open>Readers and their grammars\<close>

definition reads :: "(cbs, 'a) op \<Rightarrow> ('a \<Rightarrow> u8 list \<Rightarrow> bool) \<Rightarrow> bool" where
  "reads m P \<longleftrightarrow> (\<forall>s a t. cbs_ok s \<longrightarrow>
    m s = (Some a, t) \<longleftrightarrow> (\<exists>x. P a x \<and> cbs_bytes s = x @ cbs_bytes t \<and> t = cbs_adv (length x) s))"

named_theorems reads_intros \<open>readers with their grammars\<close>

lemma readsD:
  "reads m P \<Longrightarrow> cbs_ok s \<Longrightarrow>
    m s = (Some a, t) \<longleftrightarrow> (\<exists>x. P a x \<and> cbs_bytes s = x @ cbs_bytes t \<and> t = cbs_adv (length x) s)"
  unfolding reads_def by blast

lemma reads_cong: "reads m P \<Longrightarrow> (\<And>a x. P a x \<longleftrightarrow> Q a x) \<Longrightarrow> reads m Q"
  unfolding reads_def by simp

lemma reads_u8 [reads_intros]: "reads CBS_get_u8 (\<lambda>b x. x = [b])"
  unfolding reads_def using CBS_get_u8_iff by auto

lemma reads_ret [reads_intros]: "reads (op_ret a) (\<lambda>b x. b = a \<and> x = [])"
  unfolding reads_def by auto

lemma reads_fail [reads_intros]: "reads op_fail (\<lambda>b x. False)"
  unfolding reads_def by simp

lemma reads_check [reads_intros]: "reads (op_check c) (\<lambda>b x. c \<and> x = [])"
  unfolding reads_def by auto

lemma reads_if [reads_intros]:
  "reads m P \<Longrightarrow> reads n Q \<Longrightarrow> reads (if c then m else n) (\<lambda>a x. if c then P a x else Q a x)"
  by simp

lemma reads_bind:
  assumes m: "reads m P" and f: "\<And>a. reads (f a) (Q a)"
  shows "reads (op_bind m f) (\<lambda>b y. \<exists>a x z. P a x \<and> Q a b z \<and> y = x @ z)"
  unfolding reads_def
proof (intro allI impI)
  fix s b t assume ok: "cbs_ok s"
  show "op_bind m f s = (Some b, t) \<longleftrightarrow>
    (\<exists>y. (\<exists>a x z. P a x \<and> Q a b z \<and> y = x @ z) \<and> cbs_bytes s = y @ cbs_bytes t \<and> t = cbs_adv (length y) s)"
  proof
    assume "op_bind m f s = (Some b, t)"
    then obtain a u where u: "m s = (Some a, u)" "f a u = (Some b, t)" by blast
    obtain x where x: "P a x" "cbs_bytes s = x @ cbs_bytes u" "u = cbs_adv (length x) s"
      using readsD [OF m ok] u(1) by blast
    have "length x \<le> length (cbs_bytes s)" by (subst x(2)) simp
    then have oku: "cbs_ok u" using ok x(3) by simp
    obtain z where z: "Q a b z" "cbs_bytes u = z @ cbs_bytes t" "t = cbs_adv (length z) u"
      using readsD [OF f oku] u(2) by blast
    have "cbs_bytes s = (x @ z) @ cbs_bytes t" "t = cbs_adv (length (x @ z)) s"
      using x(2,3) z(2,3) by simp_all
    then show "\<exists>y. (\<exists>a x z. P a x \<and> Q a b z \<and> y = x @ z) \<and> cbs_bytes s = y @ cbs_bytes t \<and> t = cbs_adv (length y) s"
      using x(1) z(1) by blast
  next
    assume "\<exists>y. (\<exists>a x z. P a x \<and> Q a b z \<and> y = x @ z) \<and> cbs_bytes s = y @ cbs_bytes t \<and> t = cbs_adv (length y) s"
    then obtain a x z where y: "P a x" "Q a b z" "cbs_bytes s = (x @ z) @ cbs_bytes t" "t = cbs_adv (length (x @ z)) s"
      by blast
    define u where "u = cbs_adv (length x) s"
    have bu: "cbs_bytes u = z @ cbs_bytes t" using y(3) by (simp add: u_def)
    have "length x \<le> length (cbs_bytes s)" by (subst y(3)) simp
    then have oku: "cbs_ok u" using ok by (simp add: u_def)
    have "m s = (Some a, u)"
      by (subst readsD [OF m ok]) (use y(1,3) bu in \<open>auto simp: u_def intro!: exI [of _ x]\<close>)
    moreover have "f a u = (Some b, t)"
      by (subst readsD [OF f oku]) (use y(2,4) bu in \<open>auto simp: u_def intro!: exI [of _ z]\<close>)
    ultimately show "op_bind m f s = (Some b, t)" by simp
  qed
qed

lemma reads_bind_u8 [reads_intros]:
  "(\<And>b. reads (f b) (Q b)) \<Longrightarrow> reads (op_bind CBS_get_u8 f) (\<lambda>a x. \<exists>b z. Q b a z \<and> x = b # z)"
  by (rule reads_cong [OF reads_bind [OF reads_u8]]) auto

lemma reads_bind_check [reads_intros]:
  "reads f Q \<Longrightarrow> reads (op_bind (op_check c) (\<lambda>_. f)) (\<lambda>a x. c \<and> Q a x)"
  by (rule reads_cong [OF reads_bind [OF reads_check]]) auto

section \<open>The grammar of the times\<close>

definition two :: "int \<Rightarrow> u8 list" where
  "two n = [word_of_int (48 + n div 10), word_of_int (48 + n mod 10)]"

lemma digits_of_two: "0 \<le> n \<Longrightarrow> n \<le> 99 \<Longrightarrow> 0 \<le> n div 10 \<and> n div 10 \<le> 9 \<and> 0 \<le> n mod 10 \<and> n mod 10 \<le> (9 :: int)"
  by presburger

lemma halves_of_year:
  "0 \<le> y \<Longrightarrow> y \<le> 9999 \<Longrightarrow> 0 \<le> y div 100 \<and> y div 100 \<le> 99 \<and> 0 \<le> y mod 100 \<and> y mod 100 \<le> (99 :: int)"
  by presburger

lemma reads_two: "reads cbs_get_two_digits (\<lambda>n x. 0 \<le> n \<and> n \<le> 99 \<and> x = two n)"
proof (rule reads_cong)
  show "reads cbs_get_two_digits (\<lambda>n x. \<exists>a z. (OPENSSL_isdigit (uint a) \<and>
      (\<exists>b z'. (OPENSSL_isdigit (uint b) \<and> (n = (uint a - 48) * 10 + (uint b - 48) \<and> z' = [])) \<and> z = b # z')) \<and> x = a # z)"
    unfolding cbs_get_two_digits_def by (intro reads_intros)
  fix n x
  show "(\<exists>a z. (OPENSSL_isdigit (uint a) \<and>
      (\<exists>b z'. (OPENSSL_isdigit (uint b) \<and> (n = (uint a - 48) * 10 + (uint b - 48) \<and> z' = [])) \<and> z = b # z')) \<and> x = a # z) \<longleftrightarrow>
    0 \<le> n \<and> n \<le> 99 \<and> x = two n" (is "?L \<longleftrightarrow> ?R")
  proof
    assume ?L
    then obtain a b :: u8 where a: "OPENSSL_isdigit (uint a)" "OPENSSL_isdigit (uint b)"
      "n = (uint a - 48) * 10 + (uint b - 48)" "x = [a, b]" by blast
    have "48 \<le> uint a" "uint a \<le> 57" "48 \<le> uint b" "uint b \<le> 57"
      using a(1,2) unfolding OPENSSL_isdigit_def by simp_all
    moreover from this have "n div 10 = uint a - 48" "n mod 10 = uint b - 48"
      unfolding a(3) by presburger+
    ultimately show ?R using a(3,4) by (simp add: two_def)
  next
    assume R: ?R
    have u: "uint (word_of_int (48 + k) :: u8) = 48 + k" if "0 \<le> k" "k \<le> 9" for k
      unfolding uint_word_of_int using that by simp
    have k: "0 \<le> n div 10" "n div 10 \<le> 9" "0 \<le> n mod 10" "n mod 10 \<le> 9"
      using R digits_of_two [of n] by simp_all
    have "OPENSSL_isdigit (uint (word_of_int (48 + n div 10) :: u8))" "OPENSSL_isdigit (uint (word_of_int (48 + n mod 10) :: u8))"
      "n = (uint (word_of_int (48 + n div 10) :: u8) - 48) * 10 + (uint (word_of_int (48 + n mod 10) :: u8) - 48)"
      unfolding u [OF k(1,2)] u [OF k(3,4)] OPENSSL_isdigit_def using k by simp_all
    then show ?L using R unfolding two_def by blast
  qed
qed

lemma reads_bind_two [reads_intros]:
  "(\<And>n. reads (f n) (Q n)) \<Longrightarrow>
    reads (op_bind cbs_get_two_digits f) (\<lambda>a x. \<exists>n z. (0 \<le> n \<and> n \<le> 99) \<and> Q n a z \<and> x = two n @ z)"
  by (rule reads_cong [OF reads_bind [OF reads_two]]) auto

lemma reads_bind_two_max:
  assumes "\<And>n. reads (f n) (Q n)" "k \<le> 99"
  shows "reads (op_bind cbs_get_two_digits (\<lambda>n. op_bind (op_check (\<not> n > k)) (\<lambda>_. f n)))
    (\<lambda>a x. \<exists>n z. (0 \<le> n \<and> n \<le> k) \<and> Q n a z \<and> x = two n @ z)"
proof (rule reads_cong [OF reads_bind_two [OF reads_bind_check [OF assms(1)]]])
  fix a x
  have "0 \<le> n \<and> n \<le> k \<longleftrightarrow> (0 \<le> n \<and> n \<le> 99) \<and> \<not> n > k" for n using assms(2) by auto
  then show "(\<exists>n z. (0 \<le> n \<and> n \<le> 99) \<and> (\<not> n > k \<and> Q n a z) \<and> x = two n @ z) \<longleftrightarrow>
    (\<exists>n z. (0 \<le> n \<and> n \<le> k) \<and> Q n a z \<and> x = two n @ z)" by blast
qed

definition year_text :: "bool \<Rightarrow> int \<Rightarrow> u8 list" where
  "year_text is_gentime y = (if is_gentime then two (y div 100) @ two (y mod 100) else two (y mod 100))"

definition year_ok :: "bool \<Rightarrow> int \<Rightarrow> bool" where
  "year_ok is_gentime y \<longleftrightarrow> (if is_gentime then 0 \<le> y \<and> y \<le> 9999 else 1950 \<le> y \<and> y \<le> 2049)"

lemma yy_year:
  "0 \<le> n \<Longrightarrow> n \<le> 99 \<Longrightarrow> y = (if 1900 + n < 1950 then 1900 + n + 100 else 1900 + n) \<Longrightarrow>
    y mod 100 = n \<and> 1950 \<le> y \<and> y \<le> (2049 :: int)"
proof -
  assume n: "0 \<le> n" "n \<le> 99" "y = (if 1900 + n < 1950 then 1900 + n + 100 else 1900 + n)"
  have m: "n mod 100 = n" using n(1,2) by simp
  have "y = n + (if n < 50 then 20 else 19) * 100" using n(3) by simp
  then have "y mod 100 = n" by (simp only: mod_mult_self1 m)
  then show ?thesis using n by (simp split: if_splits)
qed

lemma reads_year: "reads (rfc5280_year g) (\<lambda>y x. year_ok g y \<and> x = year_text g y)"
proof (cases g)
  case True
  have "reads (rfc5280_year g) (\<lambda>y x. \<exists>n z. (0 \<le> n \<and> n \<le> 99) \<and>
      (\<exists>m z'. (0 \<le> m \<and> m \<le> 99) \<and> (y = n * 100 + m \<and> z' = []) \<and> z = two m @ z') \<and> x = two n @ z)"
    unfolding rfc5280_year_def if_P [OF True] Let_def by (intro reads_intros)
  then show ?thesis
  proof (rule reads_cong)
    fix y x
    show "(\<exists>n z. (0 \<le> n \<and> n \<le> 99) \<and> (\<exists>m z'. (0 \<le> m \<and> m \<le> 99) \<and> (y = n * 100 + m \<and> z' = []) \<and> z = two m @ z') \<and> x = two n @ z)
      \<longleftrightarrow> year_ok g y \<and> x = year_text g y" (is "?L \<longleftrightarrow> ?R")
    proof
      assume ?L
      then obtain n m where n: "0 \<le> n" "n \<le> 99" "0 \<le> m" "m \<le> 99" "y = n * 100 + m" "x = two n @ two m" by auto
      then have "y div 100 = n" "y mod 100 = m" by simp_all
      then show ?R using n True by (simp add: year_ok_def year_text_def)
    next
      assume R: ?R
      have "0 \<le> y div 100" "y div 100 \<le> 99" "0 \<le> y mod 100" "y mod 100 \<le> 99" "y = y div 100 * 100 + y mod 100"
        using R True halves_of_year [of y] by (simp_all add: year_ok_def)
      then show ?L using R True
        by - (rule exI [of _ "y div 100"], rule exI [of _ "two (y mod 100)"], simp only: year_text_def if_True,
          intro conjI exI [of _ "y mod 100"] exI [of _ "[]"], simp_all)
    qed
  qed
next
  case False
  have "reads (rfc5280_year g) (\<lambda>y x. \<exists>n z. (0 \<le> n \<and> n \<le> 99) \<and>
      (\<not> (if 1900 + n < 1950 then 1900 + n + 100 else 1900 + n) \<ge> 2050 \<and>
        (y = (if 1900 + n < 1950 then 1900 + n + 100 else 1900 + n) \<and> z = [])) \<and> x = two n @ z)"
    unfolding rfc5280_year_def if_not_P [OF False] Let_def by (intro reads_intros)
  then show ?thesis
  proof (rule reads_cong)
    fix y x
    show "(\<exists>n z. (0 \<le> n \<and> n \<le> 99) \<and>
      (\<not> (if 1900 + n < 1950 then 1900 + n + 100 else 1900 + n) \<ge> 2050 \<and>
        (y = (if 1900 + n < 1950 then 1900 + n + 100 else 1900 + n) \<and> z = [])) \<and> x = two n @ z)
      \<longleftrightarrow> year_ok g y \<and> x = year_text g y" (is "?L \<longleftrightarrow> ?R")
    proof
      assume ?L
      then obtain n where n: "0 \<le> n" "n \<le> 99" "y = (if 1900 + n < 1950 then 1900 + n + 100 else 1900 + n)" "x = two n" by auto
      have "y mod 100 = n \<and> 1950 \<le> y \<and> y \<le> 2049" using n(1-3) by (intro yy_year) simp_all
      then show ?R using n False by (simp add: year_ok_def year_text_def)
    next
      assume R: ?R
      then have y: "1950 \<le> y" "y \<le> 2049" "x = two (y mod 100)" using False by (simp_all add: year_ok_def year_text_def)
      have "(if 1900 + y mod 100 < 1950 then 1900 + y mod 100 + 100 else 1900 + y mod 100) = y" using y(1,2) by presburger
      moreover have "0 \<le> y mod 100" "y mod 100 \<le> 99" by simp_all
      ultimately show ?L using y by (intro exI [of _ "y mod 100"]) auto
    qed
  qed
qed

text \<open>The zone: \<open>Z\<close>, or a sign and an offset in hours and minutes.\<close>

definition zone_text :: "bool \<Rightarrow> int \<Rightarrow> u8 list \<Rightarrow> bool" where
  "zone_text allow off z \<longleftrightarrow> z = [90] \<and> off = 0 \<or>
    allow \<and> (\<exists>h mi. 0 \<le> h \<and> h \<le> 23 \<and> 0 \<le> mi \<and> mi \<le> 59 \<and>
      (z = 43 # two h @ two mi \<and> off = h * 3600 + mi * 60 \<or> z = 45 # two h @ two mi \<and> off = - (h * 3600 + mi * 60)))"

lemma reads_zone_digits:
  "reads (op_bind (op_check allow) (\<lambda>_.
      op_bind cbs_get_two_digits (\<lambda>offset_hours.
        op_bind (op_check (\<not> offset_hours > 23)) (\<lambda>_.
          op_bind cbs_get_two_digits (\<lambda>offset_minutes.
            op_bind (op_check (\<not> offset_minutes > 59)) (\<lambda>_.
              op_ret (sign * (offset_hours * 3600 + offset_minutes * 60))))))))
    (\<lambda>off z. allow \<and> (\<exists>h mi. 0 \<le> h \<and> h \<le> 23 \<and> 0 \<le> mi \<and> mi \<le> 59 \<and>
      z = two h @ two mi \<and> off = sign * (h * 3600 + mi * 60)))"
proof (rule reads_cong)
  show "reads (op_bind (op_check allow) (\<lambda>_.
      op_bind cbs_get_two_digits (\<lambda>offset_hours.
        op_bind (op_check (\<not> offset_hours > 23)) (\<lambda>_.
          op_bind cbs_get_two_digits (\<lambda>offset_minutes.
            op_bind (op_check (\<not> offset_minutes > 59)) (\<lambda>_.
              op_ret (sign * (offset_hours * 3600 + offset_minutes * 60))))))))
    (\<lambda>off x. allow \<and> (\<exists>h z. (0 \<le> h \<and> h \<le> 23) \<and> (\<exists>mi z'. (0 \<le> mi \<and> mi \<le> 59) \<and>
      (off = sign * (h * 3600 + mi * 60) \<and> z' = []) \<and> z = two mi @ z') \<and> x = two h @ z))"
    by (intro reads_bind_check reads_bind_two_max reads_ret) simp_all
  fix off x
  show "(allow \<and> (\<exists>h z. (0 \<le> h \<and> h \<le> 23) \<and> (\<exists>mi z'. (0 \<le> mi \<and> mi \<le> 59) \<and>
      (off = sign * (h * 3600 + mi * 60) \<and> z' = []) \<and> z = two mi @ z') \<and> x = two h @ z)) \<longleftrightarrow>
    (allow \<and> (\<exists>h mi. 0 \<le> h \<and> h \<le> 23 \<and> 0 \<le> mi \<and> mi \<le> 59 \<and>
      x = two h @ two mi \<and> off = sign * (h * 3600 + mi * 60)))"
    using append_Nil2 by metis
qed

lemma reads_offset: "reads (rfc5280_offset allow) (\<lambda>off z. zone_text allow off z)"
proof (rule reads_cong)
  define D where "D sign off z \<longleftrightarrow> allow \<and> (\<exists>h mi. 0 \<le> h \<and> h \<le> 23 \<and> 0 \<le> mi \<and> mi \<le> 59 \<and>
      z = two h @ two mi \<and> off = sign * (h * 3600 + mi * 60))" for sign off z
  show "reads (rfc5280_offset allow)
    (\<lambda>off x. \<exists>tz z. (\<exists>sign w z'. (if tz = 90 then sign = 0 \<and> w = [] else if tz = 43 then sign = 1 \<and> w = []
        else if tz = 45 then sign = -1 \<and> w = [] else False) \<and>
      (if sign \<noteq> 0 then D sign off z' else off = 0 \<and> z' = []) \<and> z = w @ z') \<and> x = tz # z)"
    unfolding rfc5280_offset_def D_def
    by (intro reads_bind_u8 reads_bind reads_if reads_ret reads_fail reads_zone_digits)
  show "(\<exists>tz z. (\<exists>sign w z'. (if tz = 90 then sign = 0 \<and> w = [] else if tz = 43 then sign = 1 \<and> w = []
        else if tz = 45 then sign = -1 \<and> w = [] else False) \<and>
      (if sign \<noteq> 0 then D sign off z' else off = 0 \<and> z' = []) \<and> z = w @ z') \<and> x = tz # z) \<longleftrightarrow> zone_text allow off x" for off x
  proof -
    have "zone_text allow off x \<longleftrightarrow> x = [90] \<and> off = 0 \<or> (\<exists>z. x = 43 # z \<and> D 1 off z) \<or> (\<exists>z. x = 45 # z \<and> D (-1) off z)"
      unfolding zone_text_def D_def mult_1 mult_minus1 by blast
    then show ?thesis by (auto split: if_splits)
  qed
qed

section \<open>The fields\<close>

text \<open>The text of a time, and the broken-down time and offset it stands for.\<close>

definition time_text :: "bool \<Rightarrow> bool \<Rightarrow> (int \<times> int \<times> int \<times> int \<times> int \<times> int) \<times> int \<Rightarrow> u8 list \<Rightarrow> bool" where
  "time_text is_gentime allow = (\<lambda>((y, mo, d, h, mi, s), off) x. \<exists>z.
    x = year_text is_gentime y @ two mo @ two d @ two h @ two mi @ two s @ z \<and> zone_text allow off z \<and>
    year_ok is_gentime y \<and> is_valid_date y mo d \<and> is_valid_time h mi s)"

lemma is_valid_day_date:
  "year_ok g y \<Longrightarrow> 1 \<le> mo \<and> mo \<le> 12 \<Longrightarrow> is_valid_day y mo d \<longleftrightarrow> is_valid_date y mo d"
  by (auto simp: is_valid_day_def is_valid_date_def year_ok_def split: if_splits)

lemma is_valid_date_two: "is_valid_date y mo d \<Longrightarrow> 0 \<le> mo \<and> mo \<le> 99 \<and> 1 \<le> mo \<and> mo \<le> 12 \<and> 0 \<le> d \<and> d \<le> 99"
  by (auto simp: is_valid_date_def split: if_splits)

lemma two_step: "R n \<Longrightarrow> Q n z \<Longrightarrow> \<exists>n' z'. R n' \<and> Q n' z' \<and> two n @ z = two n' @ z'"
  by blast

lemma reads_fields: "reads (rfc5280_fields g allow) (time_text g allow)"
proof (rule reads_cong)
  show "reads (rfc5280_fields g allow) (\<lambda>r x. \<exists>y x1 z1. (year_ok g y \<and> x1 = year_text g y) \<and>
     (\<exists>mo z2. (0 \<le> mo \<and> mo \<le> 99) \<and> (\<not> (mo < 1 \<or> mo > 12) \<and>
     (\<exists>d z3. (0 \<le> d \<and> d \<le> 99) \<and> (is_valid_day y mo d \<and>
     (\<exists>h z4. (0 \<le> h \<and> h \<le> 23) \<and>
     (\<exists>mi z5. (0 \<le> mi \<and> mi \<le> 59) \<and>
     (\<exists>s z6. (0 \<le> s \<and> s \<le> 59) \<and>
     (\<exists>off z z7. zone_text allow off z \<and> (r = ((y, mo, d, h, mi, s), off) \<and> z7 = []) \<and> z6 = z @ z7)
       \<and> z5 = two s @ z6) \<and> z4 = two mi @ z5) \<and> z3 = two h @ z4)) \<and> z2 = two d @ z3)) \<and> z1 = two mo @ z2) \<and> x = x1 @ z1)"
    unfolding rfc5280_fields_def
    by (rule reads_bind [OF reads_year])
      (intro reads_bind_two_max reads_bind_two reads_bind_check reads_bind [OF reads_offset] reads_ret; simp)
  fix r :: "(int \<times> int \<times> int \<times> int \<times> int \<times> int) \<times> int" and x
  show "(\<exists>y x1 z1. (year_ok g y \<and> x1 = year_text g y) \<and>
     (\<exists>mo z2. (0 \<le> mo \<and> mo \<le> 99) \<and> (\<not> (mo < 1 \<or> mo > 12) \<and>
     (\<exists>d z3. (0 \<le> d \<and> d \<le> 99) \<and> (is_valid_day y mo d \<and>
     (\<exists>h z4. (0 \<le> h \<and> h \<le> 23) \<and>
     (\<exists>mi z5. (0 \<le> mi \<and> mi \<le> 59) \<and>
     (\<exists>s z6. (0 \<le> s \<and> s \<le> 59) \<and>
     (\<exists>off z z7. zone_text allow off z \<and> (r = ((y, mo, d, h, mi, s), off) \<and> z7 = []) \<and> z6 = z @ z7)
       \<and> z5 = two s @ z6) \<and> z4 = two mi @ z5) \<and> z3 = two h @ z4)) \<and> z2 = two d @ z3)) \<and> z1 = two mo @ z2) \<and> x = x1 @ z1)
    \<longleftrightarrow> time_text g allow r x" (is "?L \<longleftrightarrow> ?R")
  proof
    assume ?L
    then obtain y mo d h mi s off z where f: "year_ok g y" "\<not> (mo < 1 \<or> mo > 12)" "is_valid_day y mo d"
      "0 \<le> h \<and> h \<le> 23" "0 \<le> mi \<and> mi \<le> 59" "0 \<le> s \<and> s \<le> 59" "zone_text allow off z"
      "r = ((y, mo, d, h, mi, s), off)" "x = year_text g y @ two mo @ two d @ two h @ two mi @ two s @ z @ []" by blast
    then show ?R
      using is_valid_day_date [OF f(1), of mo d] by (simp add: time_text_def is_valid_time_iff)
  next
    assume ?R
    obtain y mo d h mi s off where r: "r = ((y, mo, d, h, mi, s), off)" by (metis surj_pair)
    with \<open>?R\<close> obtain z where z: "x = year_text g y @ two mo @ two d @ two h @ two mi @ two s @ z @ []" "zone_text allow off z"
      "year_ok g y" "is_valid_date y mo d" "is_valid_time h mi s" by (auto simp: time_text_def)
    note t = z(5) [unfolded is_valid_time_iff]
    have "is_valid_day y mo d" using is_valid_day_date [OF z(3)] is_valid_date_two [OF z(4)] z(4) by blast
    have "\<not> (mo < 1 \<or> mo > 12)" using is_valid_date_two [OF z(4)] by linarith
    note c = this \<open>is_valid_day y mo d\<close> is_valid_date_two [OF z(4)] t z(2,3)
    have zone: "\<exists>off' w z7. zone_text allow off' w \<and> (((y, mo, d, h, mi, s), off) = ((y, mo, d, h, mi, s), off') \<and> z7 = []) \<and>
        z @ [] = w @ z7"
      using z(2) by blast
    show ?L
      unfolding r z(1)
      by (rule exI [of _ y], rule exI [of _ "year_text g y"], rule exI [of _ "two mo @ two d @ two h @ two mi @ two s @ z @ []"])
        (intro conjI refl two_step zone; use c in simp)
  qed
qed

section \<open>What the parsers return\<close>

text \<open>A struct is determined by its POSIX time and the fields the conversion does not set.\<close>

lemma tm_of_posix_unique:
  assumes "OPENSSL_tm_to_posix t = Some q" "OPENSSL_tm_to_posix u = Some q"
    "tm_wday t = tm_wday u" "tm_yday t = tm_yday u" "tm_isdst t = tm_isdst u"
  shows "t = u"
proof -
  have "utc_from_posix_time q = Some (tm_year v + 1900, tm_mon v + 1, tm_mday v, tm_hour v, tm_min v, tm_sec v)"
    if "OPENSSL_tm_to_posix v = Some q" for v
    using that by (intro from_utc_inverse) (simp add: OPENSSL_tm_to_posix_def)
  from this [OF assms(1)] this [OF assms(2)] assms(3-5) show ?thesis by (cases t; cases u) simp
qed

lemma gmtime_adj_keeps:
  "OPENSSL_gmtime_adj t d k = Some u \<Longrightarrow> tm_wday u = tm_wday t \<and> tm_yday u = tm_yday t \<and> tm_isdst u = tm_isdst t"
  by (auto simp: OPENSSL_gmtime_adj_def split: option.splits)

lemma posix_of_valid: "is_valid_date y mo d \<Longrightarrow> is_valid_time h mi s \<Longrightarrow> \<exists>p. posix_time_from_utc y mo d h mi s = Some p"
  by (simp add: posix_time_from_utc_def Let_def)

lemma parse_time_lemma:
  assumes ok: "cbs_ok c"
  shows "CBS_parse_rfc5280_time_internal c gen allow (Some t0) = Some r \<longleftrightarrow>
    (\<exists>y mo d h mi s off p t. time_text gen allow ((y, mo, d, h, mi, s), off) (cbs_bytes c) \<and>
      posix_time_from_utc y mo d h mi s = Some p \<and> r = Some t \<and> OPENSSL_tm_to_posix t = Some (p + off) \<and>
      tm_wday t = tm_wday t0 \<and> tm_yday t = tm_yday t0 \<and> tm_isdst t = tm_isdst t0)"
    (is "?L \<longleftrightarrow> (\<exists>y mo d h mi s off p t. ?R y mo d h mi s off p t)")
proof -
  define put where "put = (\<lambda>(y, mo, d, h, mi, s). t0\<lparr>tm_year := y - 1900, tm_mon := mo - 1, tm_mday := d,
    tm_hour := h, tm_min := mi, tm_sec := s\<rparr>)"
  have put: "OPENSSL_tm_to_posix (put (y, mo, d, h, mi, s)) = posix_time_from_utc y mo d h mi s"
    "tm_wday (put f) = tm_wday t0" "tm_yday (put f) = tm_yday t0" "tm_isdst (put f) = tm_isdst t0" for y mo d h mi s f
    by (simp_all add: put_def OPENSSL_tm_to_posix_def split: prod.split)
  define fin where "fin f off = (if off \<noteq> 0 then OPENSSL_gmtime_adj (put f) 0 off else Some (put f))" for f off
  have whole: "?L \<longleftrightarrow> (\<exists>f off u. rfc5280_fields gen allow c = (Some (f, off), u) \<and> cbs_len u = 0 \<and> r \<noteq> None \<and> fin f off = r)"
    by (cases "rfc5280_fields gen allow c"; cases r)
      (auto simp: CBS_parse_rfc5280_time_internal_def fin_def put_def Let_def split: option.splits if_splits, blast)
  have fields: "(\<exists>u. rfc5280_fields gen allow c = (Some (f, off), u) \<and> cbs_len u = 0) \<longleftrightarrow> time_text gen allow (f, off) (cbs_bytes c)" for f off
  proof
    assume "\<exists>u. rfc5280_fields gen allow c = (Some (f, off), u) \<and> cbs_len u = 0"
    then obtain u x where "time_text gen allow (f, off) x" "cbs_bytes c = x @ cbs_bytes u" "cbs_len u = 0"
      using readsD [OF reads_fields ok] by blast
    then show "time_text gen allow (f, off) (cbs_bytes c)" by (simp add: cbs_bytes_def)
  next
    assume t: "time_text gen allow (f, off) (cbs_bytes c)"
    define u where "u = cbs_adv (cbs_len c) c"
    have "rfc5280_fields gen allow c = (Some (f, off), u)"
      by (subst readsD [OF reads_fields ok]) (use t ok in \<open>auto simp: u_def intro!: exI [of _ "cbs_bytes c"]\<close>)
    then show "\<exists>u. rfc5280_fields gen allow c = (Some (f, off), u) \<and> cbs_len u = 0" by (simp add: u_def)
  qed
  have fin: "fin f off = Some t \<longleftrightarrow> OPENSSL_tm_to_posix t = Some (p + off) \<and>
      tm_wday t = tm_wday t0 \<and> tm_yday t = tm_yday t0 \<and> tm_isdst t = tm_isdst t0"
    if p: "OPENSSL_tm_to_posix (put f) = Some p" for f off t p
  proof (cases "off = 0")
    case True
    then show ?thesis using p put(2-4) [of f] tm_of_posix_unique [of t p "put f"] by (auto simp: fin_def)
  next
    case False
    note A = gmtime_adj_exact [OF p refl, of 0 off]
    show ?thesis
    proof
      assume f: "fin f off = Some t"
      then show "OPENSSL_tm_to_posix t = Some (p + off) \<and>
          tm_wday t = tm_wday t0 \<and> tm_yday t = tm_yday t0 \<and> tm_isdst t = tm_isdst t0"
        using A False gmtime_adj_keeps [of "put f" 0 off t] put(2-4) [of f] by (auto simp: fin_def split: if_splits)
    next
      assume t: "OPENSSL_tm_to_posix t = Some (p + off) \<and>
          tm_wday t = tm_wday t0 \<and> tm_yday t = tm_yday t0 \<and> tm_isdst t = tm_isdst t0"
      then have "is_valid_epoch_time (p + off)" using is_valid_epoch_posix by (auto simp: OPENSSL_tm_to_posix_def)
      then obtain t' where "OPENSSL_gmtime_adj (put f) 0 off = Some t'" "OPENSSL_tm_to_posix t' = Some (p + off)"
        using A by auto
      moreover from this have "t' = t" using t gmtime_adj_keeps [of "put f" 0 off t'] put(2-4) [of f]
        by (intro tm_of_posix_unique [of _ "p + off"]) auto
      ultimately show "fin f off = Some t" using False by (simp add: fin_def)
    qed
  qed
  show ?thesis
  proof
    assume ?L
    then obtain f off u where u: "rfc5280_fields gen allow c = (Some (f, off), u)" "cbs_len u = 0" "r \<noteq> None" "fin f off = r"
      using whole by blast
    then obtain t where f: "time_text gen allow (f, off) (cbs_bytes c)" "r = Some t" "fin f off = Some t"
      using fields by blast
    obtain y mo d h mi s where fe: "f = (y, mo, d, h, mi, s)" by (metis surj_pair)
    then obtain p where p: "posix_time_from_utc y mo d h mi s = Some p"
      using f(1) posix_of_valid by (fastforce simp: time_text_def)
    then show "\<exists>y mo d h mi s off p t. ?R y mo d h mi s off p t"
      using f(1,2) fin [of f p off t, THEN iffD1, OF _ f(3)] put(1) [of y mo d h mi s] unfolding fe by metis
  next
    assume "\<exists>y mo d h mi s off p t. ?R y mo d h mi s off p t"
    then obtain y mo d h mi s off p t where R: "?R y mo d h mi s off p t" by blast
    then have "fin (y, mo, d, h, mi, s) off = Some t" using fin [of "(y, mo, d, h, mi, s)" p off t] put(1) by simp
    then show ?L using whole fields R by blast
  qed
qed

text \<open>(C13) The parser of RFC 5280 times accepts exactly the times of its grammar, and its struct stands for
  the POSIX time of the digits plus the offset as written: two-digit years from 1950 to 2049 for
  UTCTime and four digits for GeneralizedTime, a real date and time of day, then \<open>Z\<close> or, where it is
  allowed, a signed offset, and nothing after it.  It fails on a valid text only when the offset
  leaves the years 0 to 9999.\<close>

theorem parse_time_exact:
  assumes "cbs_ok c"
  shows "CBS_parse_rfc5280_time_internal c gen allow (Some t0) = Some r \<longleftrightarrow>
    (\<exists>y mo d h mi s off p t. time_text gen allow ((y, mo, d, h, mi, s), off) (cbs_bytes c) \<and>
      posix_time_from_utc y mo d h mi s = Some p \<and> r = Some t \<and> OPENSSL_tm_to_posix t = Some (p + off) \<and>
      tm_wday t = tm_wday t0 \<and> tm_yday t = tm_yday t0 \<and> tm_isdst t = tm_isdst t0)"
  using assms by (rule parse_time_lemma)

text \<open>The UTCTime \<open>700101000000Z\<close>.\<close>

definition epoch_utc :: cbs where
  "epoch_utc = CBS_init [55, 48, 48, 49, 48, 49, 48, 48, 48, 48, 48, 48, 90] 13"

theorem parse_time_exact_witness:
  "\<exists>t. CBS_parse_rfc5280_time_internal epoch_utc False False (Some zero_tm) = Some (Some t) \<and>
    OPENSSL_tm_to_posix t = Some 0"
proof -
  have ok: "cbs_ok epoch_utc" by (simp add: epoch_utc_def)
  have tx: "time_text False False ((1970, 1, 1, 0, 0, 0), 0) (cbs_bytes epoch_utc)"
    by (simp add: time_text_def epoch_utc_def year_text_def two_def zone_text_def year_ok_def is_valid_date_def
        is_valid_time_def signed_modulo_int_def)
  have p: "posix_time_from_utc 1970 1 1 0 0 0 = Some 0"
    by (simp add: posix_time_from_utc_def is_valid_date_def is_valid_time_def signed_divide_int_def signed_modulo_int_def)
  let ?t = "zero_tm\<lparr>tm_year := 70, tm_mday := 1\<rparr>"
  have t: "OPENSSL_tm_to_posix ?t = Some (0 + 0)" using p by (simp add: OPENSSL_tm_to_posix_def zero_tm_def)
  have "tm_wday ?t = tm_wday zero_tm \<and> tm_yday ?t = tm_yday zero_tm \<and> tm_isdst ?t = tm_isdst zero_tm" by simp
  then have "CBS_parse_rfc5280_time_internal epoch_utc False False (Some zero_tm) = Some (Some ?t)"
    unfolding parse_time_exact [OF ok] using tx p t by blast
  then show ?thesis using \<open>OPENSSL_tm_to_posix ?t = Some (0 + 0)\<close> by auto
qed

section \<open>The struct and the sign of the offset\<close>

text \<open>The header says that the struct is zeroed and then set; the parser keeps \<open>tm_isdst\<close> and the two
  fields it does not compute.\<close>

lemma struct_not_zeroed:
  "\<exists>t. CBS_parse_utc_time epoch_utc (Some (zero_tm\<lparr>tm_isdst := 1\<rparr>)) False = Some (Some t) \<and> tm_isdst t = 1"
proof -
  let ?t = "zero_tm\<lparr>tm_year := 70, tm_mday := 1, tm_isdst := 1\<rparr>"
  have "CBS_parse_utc_time epoch_utc (Some (zero_tm\<lparr>tm_isdst := 1\<rparr>)) False = Some (Some ?t)"
    by (simp add: CBS_parse_utc_time_def CBS_parse_rfc5280_time_internal_def rfc5280_fields_def rfc5280_year_def
        rfc5280_offset_def cbs_get_two_digits_def epoch_utc_def CBS_get_u8_def cbs_get_def CBS_init_def op_bind_def
        OPENSSL_isdigit_def is_valid_day_def zero_tm_def Let_def)
  then show ?thesis by auto
qed

text \<open>The header also says that the struct is set to the time in UTC.  A local time with the offset \<open>+0100\<close> is one hour ahead of UTC, but the parser adds the offset to it:
  the text \<open>700101010000+0100\<close>, which is the epoch in ISO 8601 and X.680, is read as 02:00 UTC.\<close>

definition epoch_plus_one :: cbs where
  "epoch_plus_one = CBS_init [55, 48, 48, 49, 48, 49, 48, 49, 48, 48, 48, 48, 43, 48, 49, 48, 48] 17"

lemma offset_is_added:
  "\<exists>t. CBS_parse_utc_time epoch_plus_one (Some zero_tm) True = Some (Some t) \<and> OPENSSL_tm_to_posix t = Some 7200"
proof -
  have ok: "cbs_ok epoch_plus_one" by (simp add: epoch_plus_one_def)
  have "zone_text True 3600 [43, 48, 49, 48, 48]"
    unfolding zone_text_def by (rule disjI2, intro conjI exI [of _ 1] exI [of _ 0]) (simp_all add: two_def)
  then have tx: "time_text False True ((1970, 1, 1, 1, 0, 0), 3600) (cbs_bytes epoch_plus_one)"
    by (simp add: time_text_def epoch_plus_one_def year_text_def two_def year_ok_def is_valid_date_def
        is_valid_time_def signed_modulo_int_def)
  have p: "posix_time_from_utc 1970 1 1 1 0 0 = Some 3600"
    by (simp add: posix_time_from_utc_def is_valid_date_def is_valid_time_def signed_divide_int_def signed_modulo_int_def)
  let ?t = "zero_tm\<lparr>tm_year := 70, tm_mday := 1, tm_hour := 2\<rparr>"
  have t: "OPENSSL_tm_to_posix ?t = Some (3600 + 3600)"
    by (simp add: OPENSSL_tm_to_posix_def zero_tm_def posix_time_from_utc_def is_valid_date_def is_valid_time_def
        signed_divide_int_def signed_modulo_int_def)
  have "tm_wday ?t = tm_wday zero_tm \<and> tm_yday ?t = tm_yday zero_tm \<and> tm_isdst ?t = tm_isdst zero_tm" by simp
  then have "CBS_parse_utc_time epoch_plus_one (Some zero_tm) True = Some (Some ?t)"
    unfolding CBS_parse_utc_time_def parse_time_lemma [OF ok] using tx p t by blast
  then show ?thesis using t by auto
qed

end
