(* ===== verification/Spec2Isabelle.thy ===== *)
theory Spec2Isabelle
  imports Asn1_Integer_Values Asn1_Bits Posix_Time Unicode_Text Ber Base64_Stream Objects_Der Stack_Spec Set_Of Oid Cbs_Time
begin

text \<open>
  A verification of the C code that the app trusts with bytes from the network: the core of BoringSSL
  in \<open>src/app/ios/Pods/BoringSSL-GRPC/src/crypto\<close>, built into the iOS app below gRPC.  Paths below
  are relative to that directory.

  Parts of the program and the theories that model them.

  \<^item> \<open>mem.c\<close> and the inline functions of \<open>internal.h\<close>: allocation with the size prefix, bounded
    string copies, comparison, ASCII classes, and the branch-free primitives.
    \<open>C_Prelude\<close> (integer types, fallible operations on a state, big-endian byte strings), \<open>Mem\<close>,
    \<open>Const_Time\<close>.
  \<^item> \<open>asn1/posix_time.c\<close>: conversions between POSIX time and \<open>struct tm\<close>.  \<open>Posix_Time\<close>.
  \<^item> \<open>bytestring/cbs.c\<close>, the readers.  \<open>Cbs\<close> (bounded reads, integers, length prefixes, decimals),
    \<open>Cbs_Asn1\<close> (tags, DER and BER elements, integers, optional elements), \<open>Cbs_Time\<close> (RFC 5280
    times, over \<open>Posix_Time\<close>).  \<open>Der\<close> states the DER grammar, \<open>Asn1_Values\<close> the integers in it, and
    \<open>Cbs_Safety\<close> collects what all readers share.
  \<^item> \<open>bytestring/cbb.c\<close>, the writers.  \<open>Cbb\<close> is the code, \<open>Builder\<close> the abstract builder with the
    representation relation and the proof of \<open>CBB_flush\<close>, \<open>Writers\<close> the operations that append,
    \<open>Set_Of\<close> the canonical order of a SET OF, and \<open>Oid\<close> the object identifiers of both files.
    \<open>Codec\<close> and \<open>Wire_Format\<close> state what readers and writers promise together.
  \<^item> \<open>bytestring/unicode.c\<close>, \<open>bytestring/ber.c\<close> and \<open>bytestring/asn1_compat.c\<close> use both halves.
    \<open>Unicode_Text\<close>, \<open>Ber\<close>.
  \<^item> \<open>base64/base64.c\<close>.  \<open>Base64\<close> (the block functions), \<open>Base64_Stream\<close> (the streaming contexts).
  \<^item> \<open>bio/pair.c\<close>, with the dispatch of \<open>bio/bio.c\<close> and \<open>refcount.c\<close> it goes through.  \<open>Bio_Pair\<close> is
    the code on a store of BIOs, \<open>Bio_Fifo\<close> the queue it implements.
  \<^item> \<open>stack/stack.c\<close>.  \<open>Stack\<close> is the code, \<open>Stack_Sort\<close> the heap sort and the binary search over the
    contract of a comparison function, \<open>Stack_Spec\<close> the list it implements.
  \<^item> \<open>lhash/lhash.c\<close>, the hash table.  \<open>Lhash\<close> is the code, \<open>Lhash_Chains\<close> relates memory to lists of
    chains, \<open>Lhash_Spec\<close> shows the set of elements with unequal keys that a table implements.
  \<^item> \<open>obj/obj.c\<close> and \<open>asn1/a_object.c\<close>: ASN.1 objects and their numbers, names and encodings.  \<open>Objects\<close>
    is the code; \<open>Objects_Spec\<close> is about objects added at run time, in four hash tables, \<open>Objects_Search\<close>
    about the binary searches for built-in objects, and \<open>Objects_Der\<close> about objects read, written and
    printed, which brings the tables together with CBS, CBB and BIO pairs.
  \<^item> \<open>asn1/asn1_lib.c\<close> (the functions on \<open>ASN1_STRING\<close>), \<open>asn1/a_bitstr.c\<close> and \<open>asn1/a_int.c\<close>: strings, bit
    strings and integers of the old ASN.1 code.  \<open>Asn1_String\<close> and \<open>Asn1_Integer\<close> are the code;
    \<open>Twos_Complement\<close> is about the values of byte lists, \<open>Asn1_Integer_Spec\<close> computes the conversions,
    \<open>Asn1_Integer_Values\<close> states them on integers, and \<open>Asn1_Bits\<close> is about bit strings, whose parser is
    compared with the one of \<open>cbs.c\<close>.

  How the state corresponds to the code.

  \<^item> A C function that returns one or zero and writes through pointers is a function from the object
    to \<open>t option \<times> object\<close>; \<open>op_bind\<close> is the early return.  What a failing call leaves in an output
    parameter is not modelled.
  \<^item> A \<open>CBS\<close> is a pointer and a length: the pointer is the list of all bytes of memory from there on,
    so that a read past the length would show.  \<open>cbs_ok\<close> says that the length is in memory.
  \<^item> A tree of \<open>CBB\<close>s is the record of the shared buffer and the chain of open children; the C
    pointer to one of them is its depth \<open>d\<close> in the chain, with 0 the top.  \<open>represents\<close> relates it
    to the stack of frames of \<open>Builder\<close>.
  \<^item> BIOs live in a store from addresses to structures, and a pair refers to its other end by address.
  \<^item> A stack is the record of \<open>stack_st\<close>; elements are addresses and a comparison function is an
    index into the functions of the caller.
  \<^item> A hash table is the record of \<open>lhash_st\<close> with the part of memory that holds its items, so that a
    dangling or shared pointer would show; a pointer to a pointer is a \<open>slot\<close>.  The state of \<open>obj.c\<close> is
    the memory of the objects and the globals, \<open>objects\<close>; an object on the C stack is one at the
    address \<open>stack\<close>.
  \<^item> An \<open>ASN1_STRING\<close> is the record of \<open>asn1_string_st\<close> with the whole block behind \<open>data\<close>; an integer in it
    is a sign, in the type, and a magnitude.  A failed assertion or an access out of the block is \<open>None\<close>.
  \<^item> Machine integers are words of their width; \<open>size_t\<close> is a natural number with the additions that
    may wrap written as \<open>sz_add\<close>; \<open>int\<close> and \<open>int64_t\<close> of the time code are integers with the bounds
    of the code.  The casts of sizes to \<open>long\<close> in \<open>bio/pair.c\<close> are integers without bound, the same below
    \<open>2 ^ 63\<close>; the theorems have buffers of at most \<open>INT_MAX\<close> bytes.  Code points are words; \<open>code_point\<close> states
    on numbers which of them are valid.

  Parameters.  \<open>malloc\<close> is an argument: a function from a size to a block or failure, with the
  contract \<open>malloc_ok\<close> (a block has the size that was asked for); the stack has \<open>alloc_ok\<close> for blocks
  of pointers, and \<open>new_item\<close> and \<open>new_obj\<close> give the address of a new item or object (\<open>new_item_ok\<close>,
  \<open>new_obj_ok\<close>: a free one); \<open>malloc_total\<close> adds to \<open>malloc_ok\<close> that there is always memory.  So are the comparison functions of a stack (a total preorder, locale
  \<open>cmp_order\<close>), the functions of a hash table (\<open>lh_keys\<close>: equal keys have equal hashes) and the
  \<open>qsort\<close> of the C library (\<open>qsort_ok\<close>).  The tables of \<open>obj/obj_dat.h\<close>, which \<open>objects.go\<close> generates, are
  the parameter \<open>T\<close>; \<open>builtins_ok\<close> states their order, in which two objects may share an encoding, as 379
  and 676 do.  Each contract is met by a concrete function in a witness.

  Interfaces, as locales, each interpreted on the code's definitions: \<open>cbs_codec\<close> and \<open>cbb_codec\<close> (a
  reader and a writer of one encoding: \<open>u8\<close> to \<open>u64\<close>, \<open>asn1_*\<close>, \<open>*_prefixed\<close>, \<open>utf8\<close>, \<open>latin1\<close>, \<open>ucs2\<close>,
  \<open>utf32\<close>), \<open>byte_fifo\<close> (the two directions of a pair, \<open>pipe\<close>), \<open>cmp_order\<close> (the comparator of a
  SET OF, \<open>set_of\<close>, and an example, \<open>addr\<close>), \<open>lh_keys\<close> (the four tables of objects, \<open>obj_table\<close>).

  What the lemmas show.

  \<^item> Readers: every function stays in bounds (\<open>in_bounds\<close>), only advances (\<open>consumes\<close>), and accepts
    exactly its grammar (\<open>der_element_iff\<close>, \<open>u64_decimal_iff\<close>, \<open>reads\<close> for the times).
  \<^item> Writers: \<open>adds\<close> and \<open>pushes\<close> say which bytes an operation appends to which frame and when it may
    fail; they compose along \<open>op_bind\<close>.  \<open>latched\<close>: an error is permanent, though \<open>CBB_did_write\<close>, which
    does not look at the flag, can still move the length (\<open>did_write_ignores_error\<close>).
  \<^item> Both: round trips from the codecs; exact conversion of object identifiers; the BER conversion
    returns DER.
  \<^item> Base64: the streaming encoder does not depend on how its input is cut, and the decoder inverts it.
  \<^item> Pairs: every reachable store is two bounded queues, no assertion fails, each call returns the value
    computed from the queues (\<open>ctrl_result\<close> for the control commands), and data are delivered.
  \<^item> Stacks: each operation is the list operation on the contents, and the sorted flag is truthful
    until \<open>OPENSSL_sk_set\<close> or \<open>OPENSSL_sk_deep_copy\<close> replaces elements of a stack marked sorted
    (\<open>set_hides_from_find\<close>); the shape of the array is kept by all of them.
  \<^item> Hash tables: every call sequence returns and does what it would do to a set; the load stays bounded;
    an iteration visits each element once while the callback deletes.
  \<^item> Objects: what \<open>OBJ_create\<close> adds is found by number, names and encoding; the binary searches miss
    nothing; text and DER are read and written without loss.
  \<^item> ASN.1 integers: reading accepts exactly DER and writing gives the shortest form back, of any length and
    sign; 64-bit integers are stored and read exactly, and the comparison is the order of the values.
  \<^item> Bit strings: the parser agrees with \<open>CBS_is_valid_asn1_bitstring\<close> and writing inverts it; setting a bit
    changes this bit only and, unless it clears one past the end, leaves no trailing zero byte.
  \<^item> Times: the proleptic Gregorian calendar between the years 0 and 9999, without overflow.

  Loops and termination.  Loops over a counter or a list are \<open>fun\<close> or \<open>function\<close> with a measure.  Loops
  whose end depends on the contents of an unconstrained state (\<open>cbs_find_ber\<close>, \<open>cbs_convert_ber\<close>,
  \<open>set_of_count\<close>, the two copy loops of a pair, the walks along a chain of a hash table) are \<open>partial_function (option)\<close>: not returning is
  \<open>None\<close>, and that they return is proved (\<open>ber_functions_return\<close>, \<open>set_of_sorts\<close>,
  \<open>pair_calls_return\<close>, \<open>lhash_refines_set\<close>).  The recursion of the BER functions is bounded by the code's own \<open>kMaxDepth\<close>.
  No fuel is used.

  Not modelled.

  \<^item> In the modelled files: freeing and cleansing of memory, the malloc-failure test harness and
    the \<open>printf\<close> family of \<open>mem.c\<close>; the parts of \<open>bio.c\<close> that a pair does not reach (ex_data, \<open>BIO_gets\<close>,
    \<open>BIO_read_asn1\<close>, method registration); the error queue, whose entries no modelled function reads.
  \<^item> In \<open>asn1_lib.c\<close> and \<open>a_int.c\<close>: the conversions from and to \<open>BIGNUM\<close>, and the old header parser and
    writer (\<open>ASN1_get_object\<close>, \<open>ASN1_put_object\<close>), whose work \<open>cbs.c\<close> and \<open>cbb.c\<close> do.
  \<^item> Concurrency: \<open>refcount.c\<close> and \<open>obj.c\<close> are modelled for one thread, without the locks.
  \<^item> The contents of \<open>obj_dat.h\<close>.
  \<^item> The rest of BoringSSL (bignum and curve arithmetic, ciphers, X.509, TLS), and the other vendored
    libraries below \<open>Pods\<close>: gRPC, abseil, upb, LevelDB, nanopb, libwebp, Firebase, Agora.
  \<^item> The Dart code of the app and the admin panel and the cloud functions, which are user interface and
    calls to services, and not C.
\<close>

end
